(* ===== verification/Prelude.thy ===== *)
theory Prelude
  imports Main "HOL-Library.Finite_Map" "HOL-Library.List_Lexorder" "HOL-Library.Char_ord"
begin

text \<open>
  Shared vocabulary of the development: Python exceptions as values, the error monad as a
  plain sum with its two combinators, first-occurrence deduplication (the idiom
  \<open>tuple(dict.fromkeys(xs))\<close>), and general facts on lists, sums and finite maps that the
  component theories use.  The collection \<open>res_simps\<close> holds the rewrite rules for fallible
  code.
\<close>

named_theorems res_simps "rewrite rules for the error monad"

section \<open>Exceptions and fallible results\<close>

text \<open>The exception classes the modelled code raises; messages are not kept.\<close>

datatype py_error = TypeError | ValueError | KeyError | RuntimeError | IndexError | ZeroDivisionError
  | AssertionError

type_synonym 'a res = "py_error + 'a"

abbreviation Ok :: "'a \<Rightarrow> 'a res" where "Ok \<equiv> Inr"

abbreviation Raise :: "py_error \<Rightarrow> 'a res" where "Raise \<equiv> Inl"

text \<open>Sequencing: an exception ends the computation, as a Python \<open>raise\<close> does.\<close>

definition rbind :: "'a res \<Rightarrow> ('a \<Rightarrow> 'b res) \<Rightarrow> 'b res" where
  "rbind r f = (case r of Inl e \<Rightarrow> Inl e | Inr x \<Rightarrow> f x)"

text \<open>Evaluation of a fallible function along a list, left to right.\<close>

fun rmap :: "('a \<Rightarrow> 'b res) \<Rightarrow> 'a list \<Rightarrow> 'b list res" where
  "rmap f [] = Inr []"
| "rmap f (x # xs) = rbind (f x) (\<lambda>y. rbind (rmap f xs) (\<lambda>ys. Inr (y # ys)))"

text \<open>A left fold whose step may raise.\<close>

fun rfold :: "('s \<Rightarrow> 'a \<Rightarrow> 's res) \<Rightarrow> 's \<Rightarrow> 'a list \<Rightarrow> 's res" where
  "rfold f s [] = Inr s"
| "rfold f s (x # xs) = rbind (f s x) (\<lambda>s'. rfold f s' xs)"

lemma rbind_Inl [simp, res_simps]: "rbind (Inl e) f = Inl e"
  by (simp add: rbind_def)

lemma rbind_Inr [simp, res_simps]: "rbind (Inr x) f = f x"
  by (simp add: rbind_def)

lemma rbind_eq_Inr: "rbind r f = Inr y \<longleftrightarrow> (\<exists>x. r = Inr x \<and> f x = Inr y)"
  by (cases r) auto

lemma rbind_eq_InrE:
  assumes "rbind r f = Inr y"
  obtains x where "r = Inr x" and "f x = Inr y"
  using assms by (cases r) auto

lemma rbind_cong [fundef_cong]:
  "r = r' \<Longrightarrow> (\<And>x. r' = Inr x \<Longrightarrow> f x = f' x) \<Longrightarrow> rbind r f = rbind r' f'"
  by (cases r') auto

lemma rmap_cong [fundef_cong]:
  "xs = ys \<Longrightarrow> (\<And>x. x \<in> set ys \<Longrightarrow> f x = g x) \<Longrightarrow> rmap f xs = rmap g ys"
  by (induction ys arbitrary: xs) auto

lemma rmap_Inr_length: "rmap f xs = Inr ys \<Longrightarrow> length ys = length xs"
  by (induction xs arbitrary: ys) (auto simp: rbind_eq_Inr)

lemma rmap_Inr_nth:
  "rmap f xs = Inr ys \<Longrightarrow> i < length xs \<Longrightarrow> f (xs ! i) = Inr (ys ! i)"
proof (induction xs arbitrary: ys i)
  case (Cons x xs)
  then show ?case by (cases i) (auto simp: rbind_eq_Inr)
qed simp

lemma rmap_Inr_iff: "(\<exists>ys. rmap f xs = Inr ys) \<longleftrightarrow> (\<forall>x \<in> set xs. \<exists>y. f x = Inr y)"
  by (induction xs) (auto simp: rbind_eq_Inr)

lemma rmap_Inr_map: "(\<And>x. x \<in> set xs \<Longrightarrow> f x = Inr (g x)) \<Longrightarrow> rmap f xs = Inr (map g xs)"
  by (induction xs) auto

lemma rmap_append:
  "rmap f (xs @ ys) = rbind (rmap f xs) (\<lambda>us. rbind (rmap f ys) (\<lambda>vs. Inr (us @ vs)))"
  by (induction xs) (auto simp: rbind_def split: sum.splits)

section \<open>First-occurrence deduplication\<close>

fun uniq :: "'a list \<Rightarrow> 'a list" where
  "uniq [] = []"
| "uniq (x # xs) = x # filter (\<lambda>y. y \<noteq> x) (uniq xs)"

lemma set_uniq [simp]: "set (uniq xs) = set xs"
  by (induction xs) auto

lemma distinct_uniq [simp]: "distinct (uniq xs)"
  by (induction xs) auto

lemma uniq_distinct: "distinct xs \<Longrightarrow> uniq xs = xs"
  by (induction xs) (auto simp: filter_id_conv)

lemma uniq_eq_Nil [simp]: "uniq xs = [] \<longleftrightarrow> xs = []"
  by (cases xs) auto

lemma length_uniq: "length (uniq xs) = card (set xs)"
  by (metis distinct_card distinct_uniq set_uniq)

lemma singleton_listI: "distinct xs \<Longrightarrow> set xs = {x} \<Longrightarrow> xs = [x]"
  by (cases xs; cases "tl xs") auto

lemma length_one_set: "distinct xs \<Longrightarrow> length xs = 1 \<longleftrightarrow> (\<exists>x. set xs = {x})"
  by (metis One_nat_def card_1_singleton_iff distinct_card)

section \<open>General facts\<close>

lemma map_inject:
  assumes "map f xs = map f ys" "\<And>x y. x \<in> set xs \<Longrightarrow> f x = f y \<Longrightarrow> x = y"
  shows "xs = ys"
  using assms
proof (induction xs arbitrary: ys)
  case (Cons x xs)
  then obtain y ys' where y: "ys = y # ys'" "f x = f y" "map f xs = map f ys'" by (cases ys) auto
  have "xs = ys'" by (rule Cons.IH [OF y(3)]) (simp add: Cons.prems(2))
  with y Cons.prems(2) [of x y] show ?case by simp
qed simp

lemma filter_partition_length:
  "length (filter P xs) + length (filter (\<lambda>x. \<not> P x) xs) = length xs"
  by (induction xs) auto

lemma sort_key_set_distinct: "distinct xs \<Longrightarrow> distinct (sort_key f xs)"
  by simp

lemma sorted_list_of_set_set [simp]: "finite A \<Longrightarrow> set (sorted_list_of_set A) = A"
  by simp

lemma fmlookup_fmadd_outside: "x \<notin> fmdom' n \<Longrightarrow> fmlookup (m ++\<^sub>f n) x = fmlookup m x"
  by (simp add: fmdom'_alt_def)

lemma fmap_eqI: "(\<And>x. fmlookup m x = fmlookup n x) \<Longrightarrow> m = n"
  by (rule fmap_ext)

lemma fmadd_disjoint_commute:
  assumes "fmdom' n \<inter> fmdom' p = {}"
  shows "(m ++\<^sub>f n) ++\<^sub>f p = (m ++\<^sub>f p) ++\<^sub>f n"
proof (rule fmap_ext)
  fix x
  show "fmlookup (m ++\<^sub>f n ++\<^sub>f p) x = fmlookup (m ++\<^sub>f p ++\<^sub>f n) x"
    using assms by (auto simp: fmdom'_alt_def)
qed

text \<open>The items of a dictionary in the order of its keys.\<close>

definition items_of :: "(string, 'a) fmap \<Rightarrow> (string \<times> 'a) list" where
  "items_of m = map (\<lambda>k. (k, the (fmlookup m k))) (sorted_list_of_fset (fmdom m))"

lemma items_of_keys: "map fst (items_of m) = sorted_list_of_fset (fmdom m)"
  by (simp add: items_of_def comp_def)

lemma set_items_of: "(k, v) \<in> set (items_of m) \<longleftrightarrow> fmlookup m k = Some v"
  by (auto simp: items_of_def fmlookup_dom_iff)

text \<open>The pairs of \<open>itertools.combinations(xs, 2)\<close>, in its order.\<close>

fun pairs_of :: "'a list \<Rightarrow> ('a \<times> 'a) list" where
  "pairs_of [] = []"
| "pairs_of (x # xs) = map (Pair x) xs @ pairs_of xs"

section \<open>Reading a loop that keeps flags and counters\<close>

lemma fold_keep: "(\<And>x s. x \<in> set xs \<Longrightarrow> g (f x s) = g s) \<Longrightarrow> g (fold f xs s) = g s"
  by (induction xs arbitrary: s) auto

lemma fold_flag:
  "(\<And>x s. x \<in> set xs \<Longrightarrow> g (f x s) \<longleftrightarrow> g s \<and> P x) \<Longrightarrow> g (fold f xs s) \<longleftrightarrow> g s \<and> (\<forall>x \<in> set xs. P x)"
  by (induction xs arbitrary: s) auto

lemma fold_tally:
  "(\<And>x s. x \<in> set xs \<Longrightarrow> g (f x s) = g s + (if P x then 1 else 0)) \<Longrightarrow>
    g (fold f xs s) = g s + length (filter P xs)" for g :: "'s \<Rightarrow> nat"
  by (induction xs arbitrary: s) auto

lemma fold_relation:
  "(\<And>x s. x \<in> set xs \<Longrightarrow> Q s \<Longrightarrow> Q (f x s)) \<Longrightarrow> Q s \<Longrightarrow> Q (fold f xs s)"
  by (induction xs arbitrary: s) auto

lemma rfold_error:
  assumes "\<And>s x e. f s x = Inl e \<Longrightarrow> e = E" and "rfold f s xs = Inl e"
  shows "e = E"
  using assms(2)
proof (induction xs arbitrary: s)
  case (Cons x xs)
  then show ?case using assms(1) by (cases "f s x") auto
qed simp

lemma rfold_invariant:
  assumes "\<And>ys x zs s. xs = ys @ x # zs \<Longrightarrow> I ys s \<Longrightarrow> \<exists>s'. f s x = Inr s' \<and> I (ys @ [x]) s'" and "I [] s"
  shows "\<exists>s'. rfold f s xs = Inr s' \<and> I xs s'"
proof -
  have "I ys s \<Longrightarrow> xs = ys @ zs \<Longrightarrow> \<exists>s'. rfold f s zs = Inr s' \<and> I xs s'" for ys zs
  proof (induction zs arbitrary: ys s)
    case (Cons x zs)
    from assms(1) [OF Cons.prems(2,1)] obtain s' where "f s x = Inr s'" "I (ys @ [x]) s'" by blast
    with Cons.IH [of "ys @ [x]" s'] Cons.prems(2) show ?case by simp
  qed simp
  from this [of "[]" xs] assms(2) show ?thesis by simp
qed

end
