(* ===== verification/Finite_Groups.thy ===== *)
theory Finite_Groups
  imports Prelude
begin

text \<open>
  The finite groups of patch ports and gauges (\<open>oph_fpe/groups/*.py\<close>): the record of
  operations \<open>FiniteGroup\<close>, the three builders \<open>build_z2\<close>, \<open>build_s3\<close> and \<open>build_clock\<close>,
  and the registry \<open>get_group\<close>.  The record is generic in the element type, as
  \<open>GroupElement = Hashable\<close> is: integers for Z2 and the clock groups, 3-tuples for S3.  The
  locale \<open>group_laws\<close> is the contract that the gauge code relies on; it is interpreted on
  each of the three builders.
\<close>

section \<open>The group interface\<close>

text \<open>A label function may raise: the label table of S3 is a dictionary.\<close>

record 'g fin_group =
  gname :: string
  elements :: "'g list"
  identity :: 'g
  multiply_fn :: "'g \<Rightarrow> 'g \<Rightarrow> 'g"
  inverse_fn :: "'g \<Rightarrow> 'g"
  label_fn :: "'g \<Rightarrow> string res"

definition multiply :: "'g fin_group \<Rightarrow> 'g \<Rightarrow> 'g \<Rightarrow> 'g" where
  "multiply G l r = multiply_fn G l r"

definition inverse_of :: "'g fin_group \<Rightarrow> 'g \<Rightarrow> 'g" where
  "inverse_of G x = inverse_fn G x"

text \<open>\<open>mismatch\<close> returns the floats 0.0 and 1.0, which are exact.\<close>

definition mismatch :: "'g fin_group \<Rightarrow> 'g \<Rightarrow> 'g \<Rightarrow> nat" where
  "mismatch G l r = (if l = r then 0 else 1)"

definition label :: "'g fin_group \<Rightarrow> 'g \<Rightarrow> string res" where
  "label G x = label_fn G x"

text \<open>The argument of \<open>parse\<close> is either a group element or a label.\<close>

datatype 'g parse_arg = PElem 'g | PLabel string

fun find_label :: "'g fin_group \<Rightarrow> string \<Rightarrow> 'g list \<Rightarrow> 'g res" where
  "find_label G s [] = Inl ValueError"
| "find_label G s (x # xs) = rbind (label G x) (\<lambda>l. if l = s then Inr x else find_label G s xs)"

definition parse :: "'g fin_group \<Rightarrow> 'g parse_arg \<Rightarrow> 'g res" where
  "parse G v = (case v of
     PElem x \<Rightarrow> if x \<in> set (elements G) then Inr x else Inl ValueError
   | PLabel s \<Rightarrow> find_label G s (elements G))"

definition labels :: "'g fin_group \<Rightarrow> 'g list \<Rightarrow> string list res" where
  "labels G xs = rmap (label G) xs"

section \<open>Decimal labels\<close>

text \<open>\<open>str(n)\<close> for an integer, and the decimal digits of a natural number.\<close>

definition digit_char :: "nat \<Rightarrow> char" where
  "digit_char d = char_of (48 + d)"

fun str_nat :: "nat \<Rightarrow> string" where
  "str_nat n = (if n < 10 then [digit_char n] else str_nat (n div 10) @ [digit_char (n mod 10)])"

declare str_nat.simps [simp del]

definition str_int :: "int \<Rightarrow> string" where
  "str_int i = (if i < 0 then CHR ''-'' # str_nat (nat (- i)) else str_nat (nat i))"

text \<open>Reading digits back: \<open>int(s)\<close> on a digit string.\<close>

definition digit_val :: "char \<Rightarrow> nat" where
  "digit_val c = of_char c - 48"

definition is_digit :: "char \<Rightarrow> bool" where
  "is_digit c \<longleftrightarrow> 48 \<le> (of_char c :: nat) \<and> (of_char c :: nat) \<le> 57"

definition read_nat :: "string \<Rightarrow> nat" where
  "read_nat s = foldl (\<lambda>n c. 10 * n + digit_val c) 0 s"

lemma digit_char_val: "d < 10 \<Longrightarrow> digit_val (digit_char d) = d"
  by (simp add: digit_val_def digit_char_def)

lemma digit_char_is_digit: "d < 10 \<Longrightarrow> is_digit (digit_char d)"
  by (simp add: is_digit_def digit_char_def)

lemma read_str_nat: "read_nat (str_nat n) = n"
proof (induction n rule: str_nat.induct)
  case (1 n)
  then show ?case
    by (subst str_nat.simps) (auto simp: read_nat_def digit_char_val)
qed

lemma str_nat_digits: "\<forall>c \<in> set (str_nat n). is_digit c"
proof (induction n rule: str_nat.induct)
  case (1 n)
  then show ?case by (subst str_nat.simps) (auto simp: digit_char_is_digit)
qed

lemma str_nat_nonempty: "str_nat n \<noteq> []"
  by (subst str_nat.simps) auto

lemma str_nat_inject: "str_nat m = str_nat n \<longleftrightarrow> m = n"
  by (metis read_str_nat)

section \<open>The builders\<close>

definition build_z2 :: "int fin_group" where
  "build_z2 = \<lparr>gname = ''Z2'', elements = [0, 1], identity = 0,
     multiply_fn = (\<lambda>l r. xor l r), inverse_fn = (\<lambda>x. x), label_fn = (\<lambda>x. Inr (str_int x))\<rparr>"

definition clock_group :: "int \<Rightarrow> int fin_group" where
  "clock_group n = \<lparr>gname = CHR ''C'' # str_int n, elements = [0..n - 1], identity = 0,
     multiply_fn = (\<lambda>l r. (l + r) mod n), inverse_fn = (\<lambda>x. (- x) mod n),
     label_fn = (\<lambda>x. Inr (str_int x))\<rparr>"

definition build_clock :: "int \<Rightarrow> int fin_group res" where
  "build_clock n = (if n < 2 then Inl ValueError else Inr (clock_group n))"

text \<open>
  Permutations of 0, 1, 2 are 3-tuples: \<open>perm_at\<close> is tuple indexing on the indices 0, 1, 2,
  and \<open>s3_inverse\<close> writes \<open>inv[image] = index\<close> for the three positions in order.
\<close>

type_synonym perm = "int \<times> int \<times> int"

fun perm_at :: "perm \<Rightarrow> int \<Rightarrow> int" where
  "perm_at (a, b, c) i = (if i = 0 then a else if i = 1 then b else c)"

definition s3_compose :: "perm \<Rightarrow> perm \<Rightarrow> perm" where
  "s3_compose l r = (perm_at l (perm_at r 0), perm_at l (perm_at r 1), perm_at l (perm_at r 2))"

definition s3_inverse :: "perm \<Rightarrow> perm" where
  "s3_inverse p =
     (let inv = fold (\<lambda>i v. v[nat (perm_at p i) := i]) [0, 1, 2] [0, 0, 0 :: int]
      in (inv ! 0, inv ! 1, inv ! 2))"

definition s3_label_table :: "(perm \<times> string) list" where
  "s3_label_table = [((0, 1, 2), ''e''), ((1, 0, 2), ''(01)''), ((2, 1, 0), ''(02)''),
     ((0, 2, 1), ''(12)''), ((1, 2, 0), ''(012)''), ((2, 0, 1), ''(021)'')]"

definition s3_label :: "perm \<Rightarrow> string res" where
  "s3_label p = (case map_of s3_label_table p of Some s \<Rightarrow> Inr s | None \<Rightarrow> Inl KeyError)"

text \<open>\<open>itertools.permutations((0, 1, 2))\<close> in its lexicographic order.\<close>

definition s3_elements :: "perm list" where
  "s3_elements = [(0, 1, 2), (0, 2, 1), (1, 0, 2), (1, 2, 0), (2, 0, 1), (2, 1, 0)]"

definition build_s3 :: "perm fin_group" where
  "build_s3 = \<lparr>gname = ''S3'', elements = s3_elements, identity = (0, 1, 2),
     multiply_fn = s3_compose, inverse_fn = s3_inverse, label_fn = s3_label\<rparr>"

section \<open>The registry\<close>

text \<open>\<open>str.strip\<close> and \<open>str.upper\<close> on ASCII text.\<close>

definition is_space :: "char \<Rightarrow> bool" where
  "is_space c \<longleftrightarrow> (of_char c :: nat) \<in> {9, 10, 11, 12, 13, 28, 29, 30, 31, 32}"

definition strip :: "string \<Rightarrow> string" where
  "strip s = rev (dropWhile is_space (rev (dropWhile is_space s)))"

definition upper_char :: "char \<Rightarrow> char" where
  "upper_char c = (if 97 \<le> (of_char c :: nat) \<and> (of_char c :: nat) \<le> 122
     then char_of ((of_char c :: nat) - 32) else c)"

definition upper :: "string \<Rightarrow> string" where
  "upper s = map upper_char s"

datatype any_group = IntGroup "int fin_group" | PermGroup "perm fin_group"

definition get_group :: "string \<Rightarrow> any_group res" where
  "get_group name = (let normalized = upper (strip name) in
     if normalized = ''Z2'' then Inr (IntGroup build_z2)
     else if normalized = ''S3'' then Inr (PermGroup build_s3)
     else if take 1 normalized = ''C'' \<and> drop 1 normalized \<noteq> [] \<and>
             list_all is_digit (drop 1 normalized)
       then rbind (build_clock (int (read_nat (drop 1 normalized)))) (\<lambda>G. Inr (IntGroup G))
     else Inl ValueError)"

section \<open>The contract of a group and its consequences\<close>

locale group_laws =
  fixes G :: "'g fin_group"
  assumes id_mem: "identity G \<in> set (elements G)"
    and mult_mem: "x \<in> set (elements G) \<Longrightarrow> y \<in> set (elements G) \<Longrightarrow>
          multiply G x y \<in> set (elements G)"
    and inv_mem: "x \<in> set (elements G) \<Longrightarrow> inverse_of G x \<in> set (elements G)"
    and assoc: "x \<in> set (elements G) \<Longrightarrow> y \<in> set (elements G) \<Longrightarrow> z \<in> set (elements G) \<Longrightarrow>
          multiply G (multiply G x y) z = multiply G x (multiply G y z)"
    and id_left: "x \<in> set (elements G) \<Longrightarrow> multiply G (identity G) x = x"
    and inv_left: "x \<in> set (elements G) \<Longrightarrow> multiply G (inverse_of G x) x = identity G"
begin

lemma left_cancel:
  assumes "x \<in> set (elements G)" "y \<in> set (elements G)" "z \<in> set (elements G)"
    and "multiply G x y = multiply G x z"
  shows "y = z"
proof -
  have "multiply G (multiply G (inverse_of G x) x) y = multiply G (multiply G (inverse_of G x) x) z"
    using assms by (simp add: assoc inv_mem)
  then show ?thesis using assms by (simp add: inv_left id_left)
qed

lemma id_right:
  assumes x: "x \<in> set (elements G)"
  shows "multiply G x (identity G) = x"
proof (rule left_cancel [of "inverse_of G x"])
  have "multiply G (inverse_of G x) (multiply G x (identity G)) = multiply G (identity G) (identity G)"
    using x by (simp add: assoc [symmetric] inv_mem id_mem inv_left)
  then show "multiply G (inverse_of G x) (multiply G x (identity G)) = multiply G (inverse_of G x) x"
    using x by (simp add: id_left id_mem inv_left)
qed (use x in \<open>simp_all add: inv_mem mult_mem id_mem\<close>)

lemma inv_right:
  assumes x: "x \<in> set (elements G)"
  shows "multiply G x (inverse_of G x) = identity G"
proof (rule left_cancel [of "inverse_of G x"])
  have "multiply G (inverse_of G x) (multiply G x (inverse_of G x))
      = multiply G (multiply G (inverse_of G x) x) (inverse_of G x)"
    using x by (simp add: assoc inv_mem)
  then show "multiply G (inverse_of G x) (multiply G x (inverse_of G x))
      = multiply G (inverse_of G x) (identity G)"
    using x by (simp add: inv_left id_left id_right inv_mem)
qed (use x in \<open>simp_all add: inv_mem mult_mem id_mem\<close>)

lemma inv_unique:
  assumes "x \<in> set (elements G)" "y \<in> set (elements G)" "multiply G y x = identity G"
  shows "y = inverse_of G x"
proof -
  have "multiply G (multiply G y x) (inverse_of G x) = y"
    using assms(1,2) by (simp add: assoc inv_mem inv_right id_right)
  then show ?thesis using assms by (simp add: id_left inv_mem)
qed

lemma inv_inv: "x \<in> set (elements G) \<Longrightarrow> inverse_of G (inverse_of G x) = x"
  using inv_unique [of "inverse_of G x" x] by (simp add: inv_mem inv_right)

lemma inv_mult:
  assumes "x \<in> set (elements G)" "y \<in> set (elements G)"
  shows "inverse_of G (multiply G x y) = multiply G (inverse_of G y) (inverse_of G x)"
proof -
  have "multiply G (multiply G (inverse_of G y) (inverse_of G x)) (multiply G x y)
      = multiply G (inverse_of G y) (multiply G (multiply G (inverse_of G x) x) y)"
    using assms by (simp add: assoc inv_mem mult_mem)
  also have "\<dots> = identity G"
    using assms by (simp add: inv_left id_left)
  finally show ?thesis
    using assms inv_unique [of "multiply G x y" "multiply G (inverse_of G y) (inverse_of G x)"]
    by (simp add: mult_mem inv_mem)
qed

end

section \<open>The builders meet the contract\<close>

lemmas group_ops = multiply_def inverse_of_def

lemma s3_mem_iff: "p \<in> set (elements build_s3) \<longleftrightarrow>
    p = (0, 1, 2) \<or> p = (0, 2, 1) \<or> p = (1, 0, 2) \<or> p = (1, 2, 0) \<or> p = (2, 0, 1) \<or> p = (2, 1, 0)"
  by (auto simp: build_s3_def s3_elements_def)

lemma perm_at_compose:
  "i \<in> {0, 1, 2} \<Longrightarrow> perm_at (s3_compose x y) i = perm_at x (perm_at y i)"
  unfolding s3_compose_def by (elim insertE) simp_all

interpretation z2: group_laws build_z2
  by unfold_locales (auto simp: build_z2_def group_ops)

interpretation s3: group_laws build_s3
proof unfold_locales
  show "identity build_s3 \<in> set (elements build_s3)"
    by (simp add: build_s3_def s3_elements_def)
next
  fix x y assume "x \<in> set (elements build_s3)" "y \<in> set (elements build_s3)"
  then show "multiply build_s3 x y \<in> set (elements build_s3)"
    unfolding s3_mem_iff by (elim disjE) (simp_all add: build_s3_def group_ops s3_compose_def)
next
  fix x assume "x \<in> set (elements build_s3)"
  then show "inverse_of build_s3 x \<in> set (elements build_s3)"
    unfolding s3_mem_iff by (elim disjE) (simp_all add: build_s3_def group_ops s3_inverse_def)
next
  fix x y z assume "x \<in> set (elements build_s3)" "y \<in> set (elements build_s3)"
    "z \<in> set (elements build_s3)"
  then have "perm_at z i \<in> {0, 1, 2}" for i
    unfolding s3_mem_iff by (elim disjE) simp_all
  then have "perm_at (s3_compose x y) (perm_at z i) = perm_at x (perm_at y (perm_at z i))" for i
    using perm_at_compose by blast
  then show "multiply build_s3 (multiply build_s3 x y) z = multiply build_s3 x (multiply build_s3 y z)"
    using perm_at_compose [of _ y z]
    by (simp only: build_s3_def group_ops s3_compose_def [of "s3_compose x y"]
        s3_compose_def [of x "s3_compose y z"] fin_group.select_convs) simp
next
  fix x assume "x \<in> set (elements build_s3)"
  then show "multiply build_s3 (identity build_s3) x = x"
    unfolding s3_mem_iff by (elim disjE) (simp_all add: build_s3_def group_ops s3_compose_def)
next
  fix x assume "x \<in> set (elements build_s3)"
  then show "multiply build_s3 (inverse_of build_s3 x) x = identity build_s3"
    unfolding s3_mem_iff
    by (elim disjE) (simp_all add: build_s3_def group_ops s3_inverse_def s3_compose_def)
qed

lemma clock_group_laws: "2 \<le> n \<Longrightarrow> group_laws (clock_group n)"
  using pos_mod_bound [of n] pos_mod_sign [of n]
  by unfold_locales (auto simp: clock_group_def group_ops mod_simps add.assoc)

interpretation clock: group_laws "clock_group (int k + 2)" for k :: nat
  by (rule clock_group_laws) simp

text \<open>The group axioms as an executable check over the element list.\<close>

definition is_group :: "'g fin_group \<Rightarrow> bool" where
  "is_group G \<longleftrightarrow> distinct (elements G) \<and> identity G \<in> set (elements G) \<and>
     (\<forall>x \<in> set (elements G). inverse_of G x \<in> set (elements G) \<and>
        multiply G (identity G) x = x \<and> multiply G x (identity G) = x \<and>
        multiply G (inverse_of G x) x = identity G \<and> multiply G x (inverse_of G x) = identity G) \<and>
     (\<forall>x \<in> set (elements G). \<forall>y \<in> set (elements G). multiply G x y \<in> set (elements G) \<and>
        (\<forall>z \<in> set (elements G). multiply G (multiply G x y) z = multiply G x (multiply G y z)))"

lemma group_laws_is_group: "group_laws G \<Longrightarrow> distinct (elements G) \<Longrightarrow> is_group G"
  unfolding is_group_def
  by (auto simp: group_laws.id_mem group_laws.inv_mem group_laws.id_left group_laws.id_right
      group_laws.inv_left group_laws.inv_right group_laws.mult_mem group_laws.assoc)

lemma is_group_z2: "is_group build_z2"
  by (rule group_laws_is_group [OF z2.group_laws_axioms]) (simp add: build_z2_def)

lemma is_group_s3: "is_group build_s3"
  by (rule group_laws_is_group [OF s3.group_laws_axioms]) (simp add: build_s3_def s3_elements_def)

lemma is_group_clock: "2 \<le> n \<Longrightarrow> is_group (clock_group n)"
  using clock.group_laws_axioms [of "nat (n - 2)"]
  by (intro group_laws_is_group) (simp_all add: clock_group_def)

text \<open>Labels determine elements, so \<open>parse\<close> inverts \<open>label\<close>.\<close>

definition labels_injective :: "'g fin_group \<Rightarrow> bool" where
  "labels_injective G \<longleftrightarrow> (\<forall>x \<in> set (elements G). (\<exists>l. label G x = Inr l) \<and>
     (\<forall>y \<in> set (elements G). label G x = label G y \<longrightarrow> x = y))"

lemma find_label_found:
  assumes "x \<in> set xs" "label G x = Inr l"
    and "\<forall>y \<in> set xs. (\<exists>m. label G y = Inr m) \<and> (label G y = Inr l \<longrightarrow> y = x)"
  shows "find_label G l xs = Inr x"
  using assms
proof (induction xs)
  case (Cons y ys)
  obtain m where m: "label G y = Inr m"
    using Cons.prems(3) by auto
  show ?case
  proof (cases "m = l")
    case True
    with m Cons.prems(3) show ?thesis by simp
  next
    case False
    with Cons.prems m have "find_label G l ys = Inr x"
      by (intro Cons.IH) auto
    with False m show ?thesis by simp
  qed
qed simp

lemma parse_label_inverse:
  assumes "labels_injective G" "x \<in> set (elements G)" "label G x = Inr l"
  shows "parse G (PLabel l) = Inr x"
  unfolding parse_def parse_arg.case
  by (rule find_label_found) (use assms in \<open>auto simp: labels_injective_def\<close>)

lemma str_int_nonneg_inject: "0 \<le> i \<Longrightarrow> 0 \<le> j \<Longrightarrow> str_int i = str_int j \<longleftrightarrow> i = j"
  by (auto simp: str_int_def str_nat_inject)

lemma labels_injective_z2: "labels_injective build_z2"
  by (auto simp: labels_injective_def label_def build_z2_def str_int_nonneg_inject)

lemma labels_injective_clock: "labels_injective (clock_group n)"
  by (auto simp: labels_injective_def label_def clock_group_def str_int_nonneg_inject)

lemma labels_injective_s3: "labels_injective build_s3"
proof -
  have "\<forall>x \<in> set s3_elements. (\<exists>l. s3_label x = Inr l) \<and>
      (\<forall>y \<in> set s3_elements. s3_label x = s3_label y \<longrightarrow> x = y)"
    by (simp add: s3_elements_def s3_label_def s3_label_table_def)
  then show ?thesis
    by (simp add: labels_injective_def label_def build_s3_def)
qed

lemma get_group_cases:
  assumes "get_group name = Inr g"
  obtains "g = IntGroup build_z2" | "g = PermGroup build_s3"
    | n where "2 \<le> n" "g = IntGroup (clock_group n)"
proof -
  let ?n = "upper (strip name)"
  consider "?n = ''Z2''" | "?n \<noteq> ''Z2''" "?n = ''S3''" | "?n \<noteq> ''Z2''" "?n \<noteq> ''S3''" by blast
  then show thesis
  proof cases
    case 1
    with assms that(1) show thesis by (simp add: get_group_def)
  next
    case 2
    with assms that(2) show thesis by (simp add: get_group_def)
  next
    case 3
    with assms have "\<exists>m. 2 \<le> m \<and> g = IntGroup (clock_group m)"
      by (intro exI [of _ "int (read_nat (drop 1 ?n))"])
        (auto simp: get_group_def Let_def build_clock_def split: if_splits)
    with that(3) show thesis by blast
  qed
qed

end
