(* ===== verification/Register_Values.thy ===== *)
theory Register_Values
  imports Finite_Groups
begin

text \<open>
  Register values of the proof-carrying repair engine (\<open>oph_fpe/repair/transaction.py\<close>,
  \<open>_freeze\<close>, \<open>_thaw\<close>, \<open>_canonical\<close>, \<open>_stable_hash\<close>): Python values, their deep-frozen form,
  and the canonical JSON tree that is hashed.  The digest
  \<open>sha256(json.dumps(tree, sort_keys, compact).encode()).hexdigest()\<close> is the parameter \<open>dg\<close>:
  a function from canonical trees to text; where a result needs it, that it does not collide is
  a hypothesis.  Strings are lists of characters, which covers text up to U+00FF.
\<close>

section \<open>Python values\<close>

text \<open>
  A binary64 float is a sign and an exact magnitude, an infinity or a NaN; a finite
  \<open>Decimal\<close> is its sign, coefficient and exponent.  \<open>POther\<close> is a value of any type the
  verifier does not support.  The flag of \<open>PSet\<close> tells a frozenset from a set.
\<close>

datatype pyfloat = FFin bool rat | FInf bool | FNan

datatype leaf = LNone | LBool bool | LInt int | LFrac rat | LDec bool nat int
  | LFloat pyfloat | LStr string | LBytes string

datatype pyval = PLeaf leaf | PList "pyval list" | PTuple "pyval list"
  | PSet bool "pyval list" | PDict "(pyval \<times> pyval) list" | POther string

datatype frozen = FzLeaf leaf | FzMap "(string \<times> frozen) list" | FzList "frozen list"
  | FzTuple "frozen list" | FzSet "frozen list"

datatype json = JNull | JBool bool | JInt int | JNum pyfloat | JDecimalText bool nat int
  | JStr string | JArr "json list" | JObj "(string \<times> json) list"

section \<open>Canonical trees and the stable hash\<close>

definition hex_digit :: "nat \<Rightarrow> char" where
  "hex_digit d = (if d < 10 then char_of (48 + d) else char_of (87 + d))"

definition hex_byte :: "char \<Rightarrow> string" where
  "hex_byte c = [hex_digit (of_char c div 16), hex_digit (of_char c mod 16)]"

definition bytes_hex :: "string \<Rightarrow> string" where
  "bytes_hex b = concat (map hex_byte b)"

definition canonical_leaf :: "leaf \<Rightarrow> json" where
  "canonical_leaf l = (case l of
     LNone \<Rightarrow> JNull
   | LBool b \<Rightarrow> JBool b
   | LInt i \<Rightarrow> JInt i
   | LFrac q \<Rightarrow> JObj [(''__fraction__'', JArr [JInt (fst (quotient_of q)), JInt (snd (quotient_of q))])]
   | LDec s c e \<Rightarrow> JObj [(''__decimal__'', JDecimalText s c e)]
   | LFloat f \<Rightarrow> JNum f
   | LStr s \<Rightarrow> JStr s
   | LBytes b \<Rightarrow> JObj [(''__bytes_hex__'', JStr (bytes_hex b))])"

fun canonical :: "frozen \<Rightarrow> json" where
  "canonical (FzLeaf l) = canonical_leaf l"
| "canonical (FzMap kvs) =
     JObj [(''__map__'', JArr (map (\<lambda>kv. JArr [JStr (fst kv), canonical (snd kv)]) kvs))]"
| "canonical (FzList xs) = JObj [(''__list__'', JArr (map canonical xs))]"
| "canonical (FzTuple xs) = JObj [(''__tuple__'', JArr (map canonical xs))]"
| "canonical (FzSet xs) = JObj [(''__set__'', JArr (map canonical xs))]"

definition stable_hash :: "(json \<Rightarrow> string) \<Rightarrow> frozen \<Rightarrow> string" where
  "stable_hash dg v = dg (canonical v)"

section \<open>Freezing and thawing\<close>

definition is_finite_float :: "pyfloat \<Rightarrow> bool" where
  "is_finite_float f = (case f of FFin s m \<Rightarrow> True | _ \<Rightarrow> False)"

definition freeze_leaf :: "leaf \<Rightarrow> frozen res" where
  "freeze_leaf l = (case l of
     LFloat f \<Rightarrow> if is_finite_float f then Inr (FzLeaf l) else Inl ValueError
   | _ \<Rightarrow> Inr (FzLeaf l))"

definition str_key :: "pyval \<Rightarrow> string res" where
  "str_key k = (case k of
     PLeaf l \<Rightarrow> (case l of LStr s \<Rightarrow> if s = [] then Inl TypeError else Inr s | _ \<Rightarrow> Inl TypeError)
   | _ \<Rightarrow> Inl TypeError)"

lemma size_dict_value [termination_simp]: "kv \<in> set kvs \<Longrightarrow>
    size (snd kv) < Suc (size_list (size_prod size size) kvs)"
  by (induction kvs) (auto simp: less_Suc_eq)

lemma size_map_value [termination_simp]: "kv \<in> set kvs \<Longrightarrow>
    size (snd kv) < Suc (size_list (size_prod (\<lambda>_. 0) size) kvs)"
  by (induction kvs) (auto simp: less_Suc_eq)

fun freeze :: "(json \<Rightarrow> string) \<Rightarrow> pyval \<Rightarrow> frozen res" where
  "freeze dg (PLeaf l) = freeze_leaf l"
| "freeze dg (PDict kvs) =
     rbind (rmap (\<lambda>kv. str_key (fst kv)) kvs) (\<lambda>keys.
     rbind (rmap (\<lambda>kv. freeze dg (snd kv)) kvs) (\<lambda>vals.
     Inr (FzMap (sort_key fst (zip keys vals)))))"
| "freeze dg (PList xs) = rbind (rmap (freeze dg) xs) (\<lambda>ys. Inr (FzList ys))"
| "freeze dg (PTuple xs) = rbind (rmap (freeze dg) xs) (\<lambda>ys. Inr (FzTuple ys))"
| "freeze dg (PSet fr xs) =
     rbind (rmap (freeze dg) xs) (\<lambda>ys. Inr (FzSet (sort_key (stable_hash dg) ys)))"
| "freeze dg (POther ty) = Inl TypeError"

text \<open>
  Thawing rebuilds mutable containers.  A frozen set thaws to a set display, whose elements
  must be hashable: a list, a dict or a set is not.  The elements of a frozen set come from a
  set, so they are pairwise different and the display drops none.
\<close>

fun hashable :: "pyval \<Rightarrow> bool" where
  "hashable (PLeaf l) = True"
| "hashable (PTuple xs) = list_all hashable xs"
| "hashable (PSet fr xs) = fr"
| "hashable _ = False"

fun thaw :: "frozen \<Rightarrow> pyval res" where
  "thaw (FzLeaf l) = Inr (PLeaf l)"
| "thaw (FzMap kvs) =
     rbind (rmap (\<lambda>kv. thaw (snd kv)) kvs) (\<lambda>vals.
     Inr (PDict (zip (map (\<lambda>kv. PLeaf (LStr (fst kv))) kvs) vals)))"
| "thaw (FzList xs) = rbind (rmap thaw xs) (\<lambda>ys. Inr (PList ys))"
| "thaw (FzTuple xs) = rbind (rmap thaw xs) (\<lambda>ys. Inr (PTuple ys))"
| "thaw (FzSet xs) = rbind (rmap thaw xs)
     (\<lambda>ys. if list_all hashable ys then Inr (PSet False ys) else Inl TypeError)"

definition thawable :: "frozen \<Rightarrow> bool" where
  "thawable z = (case thaw z of Inl e \<Rightarrow> False | Inr v \<Rightarrow> True)"

text \<open>The frozen forms \<open>_freeze\<close> produces: finite floats, sorted maps and sets.\<close>

fun wf_frozen :: "(json \<Rightarrow> string) \<Rightarrow> frozen \<Rightarrow> bool" where
  "wf_frozen dg (FzLeaf l) = (case l of LFloat f \<Rightarrow> is_finite_float f | _ \<Rightarrow> True)"
| "wf_frozen dg (FzMap kvs) =
     (sorted (map fst kvs) \<and> [] \<notin> set (map fst kvs) \<and> list_all (\<lambda>kv. wf_frozen dg (snd kv)) kvs)"
| "wf_frozen dg (FzList xs) = list_all (wf_frozen dg) xs"
| "wf_frozen dg (FzTuple xs) = list_all (wf_frozen dg) xs"
| "wf_frozen dg (FzSet xs) = (sorted (map (stable_hash dg) xs) \<and> list_all (wf_frozen dg) xs)"

section \<open>Python equality\<close>

text \<open>
  \<open>==\<close> compares numbers by value across \<open>bool\<close>, \<open>int\<close>, \<open>Fraction\<close>, \<open>Decimal\<close> and \<open>float\<close>.
\<close>

definition num_value :: "leaf \<Rightarrow> rat option" where
  "num_value l = (case l of
     LBool b \<Rightarrow> Some (if b then 1 else 0)
   | LInt i \<Rightarrow> Some (of_int i)
   | LFrac q \<Rightarrow> Some q
   | LDec s c e \<Rightarrow> Some ((if s then -1 else 1) * of_nat c *
        (if 0 \<le> e then 10 ^ nat e else 1 / 10 ^ nat (- e)))
   | LFloat f \<Rightarrow> (case f of FFin s m \<Rightarrow> Some (if s then - m else m) | _ \<Rightarrow> None)
   | _ \<Rightarrow> None)"

definition leaf_eq :: "leaf \<Rightarrow> leaf \<Rightarrow> bool" where
  "leaf_eq l r = (case (num_value l, num_value r) of
     (Some x, Some y) \<Rightarrow> x = y
   | (None, None) \<Rightarrow> l = r \<and> l \<noteq> LFloat FNan
   | _ \<Rightarrow> False)"

text \<open>
  Equality of containers, on frozen forms: it identifies a set with the equal frozenset and
  ignores the insertion order of a dict, as \<open>==\<close> on the thawed values does.
\<close>

fun fz_eq :: "frozen \<Rightarrow> frozen \<Rightarrow> bool"
  and fz_eq_list :: "frozen list \<Rightarrow> frozen list \<Rightarrow> bool" where
  "fz_eq (FzLeaf l) (FzLeaf r) = leaf_eq l r"
| "fz_eq (FzList xs) (FzList ys) = fz_eq_list xs ys"
| "fz_eq (FzTuple xs) (FzTuple ys) = fz_eq_list xs ys"
| "fz_eq (FzSet xs) (FzSet ys) =
     (length xs = length ys \<and> (\<forall>x \<in> set xs. \<exists>y \<in> set ys. fz_eq x y))"
| "fz_eq (FzMap xs) (FzMap ys) =
     (length xs = length ys \<and> (\<forall>x \<in> set xs. \<exists>y \<in> set ys. fst x = fst y \<and> fz_eq (snd x) (snd y)))"
| "fz_eq _ _ = False"
| "fz_eq_list [] [] = True"
| "fz_eq_list (x # xs) (y # ys) = (fz_eq x y \<and> fz_eq_list xs ys)"
| "fz_eq_list _ _ = False"

section \<open>The canonical tree determines the value\<close>

lemma of_char_hex_digit:
  "d < 16 \<Longrightarrow> (of_char (hex_digit d) :: nat) = (if d < 10 then 48 + d else 87 + d)"
  by (simp add: hex_digit_def)

lemma hex_digit_inject:
  assumes "d < 16" "e < 16" "hex_digit d = hex_digit e"
  shows "d = e"
proof -
  have "(of_char (hex_digit d) :: nat) = of_char (hex_digit e)" using assms(3) by simp
  with assms(1,2) show ?thesis by (simp add: of_char_hex_digit split: if_splits)
qed

lemma hex_byte_inject: "hex_byte c = hex_byte d \<longleftrightarrow> c = d"
proof
  assume eq: "hex_byte c = hex_byte d"
  have small: "(of_char x :: nat) div 16 < 16" for x
    using nat_of_char_less_256 [of x] by linarith
  have "(of_char c :: nat) div 16 = of_char d div 16"
    using eq by (intro hex_digit_inject small) (simp add: hex_byte_def)
  moreover have "(of_char c :: nat) mod 16 = of_char d mod 16"
    using eq by (intro hex_digit_inject) (simp_all add: hex_byte_def)
  ultimately have "(of_char c :: nat) = of_char d" by (metis div_mult_mod_eq)
  then show "c = d" by simp
qed simp

lemma bytes_hex_inject: "bytes_hex b = bytes_hex c \<longleftrightarrow> b = c"
proof (induction b arbitrary: c)
  case Nil
  then show ?case by (cases c) (auto simp: bytes_hex_def hex_byte_def)
next
  case (Cons x b)
  show ?case
  proof (cases c)
    case Nil
    then show ?thesis by (simp add: bytes_hex_def hex_byte_def)
  next
    case (Cons y c')
    have "bytes_hex (x # b) = bytes_hex (y # c') \<longleftrightarrow> hex_byte x = hex_byte y \<and> bytes_hex b = bytes_hex c'"
      by (auto simp: bytes_hex_def hex_byte_def)
    with Cons Cons.IH [of c'] show ?thesis by (simp add: hex_byte_inject)
  qed
qed

lemma canonical_leaf_inject: "canonical_leaf l = canonical_leaf r \<longleftrightarrow> l = r"
  by (cases l; cases r)
    (auto simp: canonical_leaf_def bytes_hex_inject prod_eq_iff
      intro: quotient_of_inject)

lemma canonical_leaf_not_container [simp]:
  "canonical_leaf l \<noteq> JObj [(''__map__'', j)]" "canonical_leaf l \<noteq> JObj [(''__list__'', j)]"
  "canonical_leaf l \<noteq> JObj [(''__tuple__'', j)]" "canonical_leaf l \<noteq> JObj [(''__set__'', j)]"
  "JObj [(''__map__'', j)] \<noteq> canonical_leaf l" "JObj [(''__list__'', j)] \<noteq> canonical_leaf l"
  "JObj [(''__tuple__'', j)] \<noteq> canonical_leaf l" "JObj [(''__set__'', j)] \<noteq> canonical_leaf l"
  by (cases l; simp add: canonical_leaf_def)+

lemma canonical_inject: "canonical x = canonical y \<longleftrightarrow> x = y"
proof
  show "canonical x = canonical y \<Longrightarrow> x = y"
  proof (induction x arbitrary: y)
    case (FzLeaf l)
    then show ?case by (cases y) (auto simp: canonical_leaf_inject)
  next
    case (FzMap kvs)
    then obtain kvs' where y: "y = FzMap kvs'" by (cases y) auto
    have "kvs = kvs'"
    proof (rule list.inj_map_strong)
      show "map (\<lambda>kv. JArr [JStr (fst kv), canonical (snd kv)]) kvs
          = map (\<lambda>kv. JArr [JStr (fst kv), canonical (snd kv)]) kvs'"
        using FzMap.prems y by simp
    next
      fix a b assume ab: "a \<in> set kvs" "b \<in> set kvs'"
        and eq: "JArr [JStr (fst a), canonical (snd a)] = JArr [JStr (fst b), canonical (snd b)]"
      have "snd a \<in> Basic_BNFs.snds a" by (cases a) simp
      from FzMap.IH [OF ab(1) this] eq show "a = b" by (simp add: prod_eq_iff)
    qed
    with y show ?case by simp
  next
    case (FzList xs)
    then obtain ys where y: "y = FzList ys" by (cases y) auto
    with FzList.prems have "map canonical xs = map canonical ys" by simp
    then have "xs = ys" using FzList.IH by (rule map_inject)
    with y show ?case by simp
  next
    case (FzTuple xs)
    then obtain ys where y: "y = FzTuple ys" by (cases y) auto
    with FzTuple.prems have "map canonical xs = map canonical ys" by simp
    then have "xs = ys" using FzTuple.IH by (rule map_inject)
    with y show ?case by simp
  next
    case (FzSet xs)
    then obtain ys where y: "y = FzSet ys" by (cases y) auto
    with FzSet.prems have "map canonical xs = map canonical ys" by simp
    then have "xs = ys" using FzSet.IH by (rule map_inject)
    with y show ?case by simp
  qed
qed simp

lemma stable_hash_inject: "inj dg \<Longrightarrow> stable_hash dg x = stable_hash dg y \<longleftrightarrow> x = y"
  by (simp add: stable_hash_def inj_eq canonical_inject)

section \<open>Freezing and thawing are inverse\<close>

lemma str_key_eq: "str_key k = Inr s \<longleftrightarrow> k = PLeaf (LStr s) \<and> s \<noteq> []"
  by (auto simp: str_key_def split: pyval.splits leaf.splits)

lemma zip_map_fst_snd: "zip (map fst kvs) (map snd kvs) = kvs"
  by (induction kvs) auto

lemma rmap_list_all:
  assumes "rmap f xs = Inr ys" "\<And>x y. x \<in> set xs \<Longrightarrow> f x = Inr y \<Longrightarrow> P y"
  shows "list_all P ys"
proof (unfold list_all_length, intro allI impI)
  fix n assume n: "n < length ys"
  then have "n < length xs" using rmap_Inr_length [OF assms(1)] by simp
  then show "P (ys ! n)" using assms(2) [of "xs ! n"] rmap_Inr_nth [OF assms(1)] by simp
qed

lemma freeze_wf: "freeze dg v = Inr z \<Longrightarrow> wf_frozen dg z"
proof (induction dg v arbitrary: z rule: freeze.induct)
  case (1 dg l)
  then show ?case by (cases l) (auto simp: freeze_leaf_def split: if_splits)
next
  case (2 dg kvs)
  from "2.prems" obtain keys vals where k: "rmap (\<lambda>kv. str_key (fst kv)) kvs = Inr keys"
    and v: "rmap (\<lambda>kv. freeze dg (snd kv)) kvs = Inr vals"
    and z: "z = FzMap (sort_key fst (zip keys vals))"
    by (auto elim!: rbind_eq_InrE)
  have "list_all (wf_frozen dg) vals" by (rule rmap_list_all [OF v "2.IH" [OF k]])
  moreover have "list_all (\<lambda>s. s \<noteq> []) keys" by (rule rmap_list_all [OF k]) (simp add: str_key_eq)
  ultimately show ?case
    by (auto simp: z list_all_iff dest: set_zip_leftD set_zip_rightD)
next
  case (3 dg xs)
  then obtain ys where ys: "rmap (freeze dg) xs = Inr ys" "z = FzList ys"
    by (auto elim!: rbind_eq_InrE)
  with rmap_list_all [OF ys(1) "3.IH"] show ?case by simp
next
  case (4 dg xs)
  then obtain ys where ys: "rmap (freeze dg) xs = Inr ys" "z = FzTuple ys"
    by (auto elim!: rbind_eq_InrE)
  with rmap_list_all [OF ys(1) "4.IH"] show ?case by simp
next
  case (5 dg fr xs)
  then obtain ys where ys: "rmap (freeze dg) xs = Inr ys" "z = FzSet (sort_key (stable_hash dg) ys)"
    by (auto elim!: rbind_eq_InrE)
  with rmap_list_all [OF ys(1) "5.IH"] show ?case by (simp add: list_all_iff)
qed simp

lemma rmap_inverse:
  assumes "rmap f xs = Inr ys" "\<And>x y. x \<in> set xs \<Longrightarrow> f x = Inr y \<Longrightarrow> g y = Inr x"
  shows "rmap g ys = Inr xs"
  using assms
proof (induction xs arbitrary: ys)
  case (Cons x xs)
  then obtain y ys' where y: "f x = Inr y" "rmap f xs = Inr ys'" "ys = y # ys'"
    by (auto simp: rbind_eq_Inr)
  have "rmap g ys' = Inr xs" by (rule Cons.IH [OF y(2)]) (simp add: Cons.prems(2))
  with y Cons.prems(2) [of x y] show ?case by simp
qed simp

lemma sort_key_sorted: "sorted (map f xs) \<Longrightarrow> sort_key f xs = xs"
  by (induction xs) (auto simp: insort_is_Cons)

lemma thaw_map_freeze:
  assumes vals: "rmap (\<lambda>kv. thaw (snd kv)) kvs = Inr vals"
    and inv: "\<And>kv v. kv \<in> set kvs \<Longrightarrow> thaw (snd kv) = Inr v \<Longrightarrow> freeze dg v = Inr (snd kv)"
    and ne: "[] \<notin> set (map fst kvs)"
  defines "d \<equiv> zip (map (\<lambda>kv. PLeaf (LStr (fst kv))) kvs) vals"
  shows "rmap (\<lambda>kv. str_key (fst kv)) d = Inr (map fst kvs) \<and>
    rmap (\<lambda>kv. freeze dg (snd kv)) d = Inr (map snd kvs)"
  using vals inv ne unfolding d_def
proof (induction kvs arbitrary: vals)
  case (Cons kv kvs)
  then obtain w ws where w: "thaw (snd kv) = Inr w" "rmap (\<lambda>kv. thaw (snd kv)) kvs = Inr ws"
    "vals = w # ws" by (auto simp: rbind_eq_Inr)
  note IH = Cons.IH [OF w(2)]
  have fw: "freeze dg w = Inr (snd kv)" by (rule Cons.prems(2)) (simp_all add: w)
  have "str_key (PLeaf (LStr (fst kv))) = Inr (fst kv)"
    using Cons.prems(3) by (auto simp: str_key_def)
  with IH Cons.prems(2,3) show ?case by (simp add: w fw)
qed simp

lemma freeze_thaw: "wf_frozen dg z \<Longrightarrow> thaw z = Inr v \<Longrightarrow> freeze dg v = Inr z"
proof (induction z arbitrary: v rule: thaw.induct)
  case (1 l)
  then show ?case by (auto simp: freeze_leaf_def split: leaf.splits)
next
  case (2 kvs)
  from "2.prems"(2) obtain vals where vals: "rmap (\<lambda>kv. thaw (snd kv)) kvs = Inr vals"
    and v: "v = PDict (zip (map (\<lambda>kv. PLeaf (LStr (fst kv))) kvs) vals)"
    by (auto elim!: rbind_eq_InrE)
  have ne: "[] \<notin> set (map fst kvs)" using "2.prems"(1) by simp
  have inv: "freeze dg w = Inr (snd kv)" if "kv \<in> set kvs" "thaw (snd kv) = Inr w" for kv w
    using "2.IH" [OF that(1)] "2.prems"(1) that by (auto simp: list_all_iff)
  show ?case
    using thaw_map_freeze [OF vals inv ne] "2.prems"(1)
    by (simp add: v zip_map_fst_snd sort_key_sorted)
next
  case (3 xs)
  then obtain ys where ys: "rmap thaw xs = Inr ys" and v: "v = PList ys"
    by (auto elim!: rbind_eq_InrE)
  have "rmap (freeze dg) ys = Inr xs"
    by (rule rmap_inverse [OF ys]) (use "3.IH" "3.prems"(1) in \<open>simp add: list_all_iff\<close>)
  then show ?case by (simp add: v)
next
  case (4 xs)
  then obtain ys where ys: "rmap thaw xs = Inr ys" and v: "v = PTuple ys"
    by (auto elim!: rbind_eq_InrE)
  have "rmap (freeze dg) ys = Inr xs"
    by (rule rmap_inverse [OF ys]) (use "4.IH" "4.prems"(1) in \<open>simp add: list_all_iff\<close>)
  then show ?case by (simp add: v)
next
  case (5 xs)
  then obtain ys where ys: "rmap thaw xs = Inr ys" and v: "v = PSet False ys"
    by (auto elim!: rbind_eq_InrE split: if_splits)
  have "rmap (freeze dg) ys = Inr xs"
    by (rule rmap_inverse [OF ys]) (use "5.IH" "5.prems"(1) in \<open>simp add: list_all_iff\<close>)
  with "5.prems"(1) show ?case by (simp add: v sort_key_sorted)
qed

end
