(* ===== verification/Repair_Ledger.thy ===== *)
theory Repair_Ledger
  imports Register_Values
begin

text \<open>
  The typed mismatch vector \<open>MismatchLedger\<close> of \<open>oph_fpe/repair/transaction.py\<close>: exact
  non-negative fractions, validated on construction by \<open>_exact\<close>, with the two descent orders
  that the engine's acceptance rule uses.  Comparison of Python tuples of fractions is the
  lexicographic order of lists.
\<close>

section \<open>Exact inputs\<close>

definition exact :: "pyval \<Rightarrow> rat res" where
  "exact v = (case v of
     PLeaf l \<Rightarrow>
       (case l of LFrac q \<Rightarrow> if q < 0 then Inl ValueError else Inr q
        | LInt i \<Rightarrow> if i < 0 then Inl ValueError else Inr (of_int i)
        | LDec s c e \<Rightarrow> (case num_value l of
              Some q \<Rightarrow> if q < 0 then Inl ValueError else Inr q | None \<Rightarrow> Inl TypeError)
        | _ \<Rightarrow> Inl TypeError)
   | _ \<Rightarrow> Inl TypeError)"

lemma exact_nonneg: "exact v = Inr q \<Longrightarrow> 0 \<le> q"
  by (auto simp: exact_def num_value_def split: pyval.splits leaf.splits if_splits option.splits)

section \<open>The ledger\<close>

record ledger =
  overlap :: rat
  local_constraint :: rat
  sector :: rat
  record_mismatch :: rat
  holonomy :: rat
  physical_auxiliary :: "(string \<times> rat) list"

text \<open>The auxiliary entries are checked one after the other, against the names already seen.\<close>

fun check_aux :: "string set \<Rightarrow> (string \<times> pyval) list \<Rightarrow> (string \<times> rat) list res" where
  "check_aux seen [] = Inr []"
| "check_aux seen ((name, v) # rest) =
     (if name = [] \<or> name \<in> seen then Inl ValueError
      else rbind (exact v) (\<lambda>q. rbind (check_aux (insert name seen) rest)
        (\<lambda>aux. Inr ((name, q) # aux))))"

definition mk_ledger ::
  "pyval \<Rightarrow> pyval \<Rightarrow> pyval \<Rightarrow> pyval \<Rightarrow> pyval \<Rightarrow> (string \<times> pyval) list \<Rightarrow> ledger res" where
  "mk_ledger ov lc sec rec hol raw_aux =
     rbind (exact ov) (\<lambda>o'. rbind (exact lc) (\<lambda>l. rbind (exact sec) (\<lambda>s.
     rbind (exact rec) (\<lambda>r. rbind (exact hol) (\<lambda>h. rbind (check_aux {} raw_aux) (\<lambda>aux.
     Inr \<lparr>overlap = o', local_constraint = l, sector = s, record_mismatch = r, holonomy = h,
          physical_auxiliary = sort_key fst aux\<rparr>))))))"

definition auxiliary_names :: "ledger \<Rightarrow> string list" where
  "auxiliary_names L = map fst (physical_auxiliary L)"

definition lexicographic_vector :: "ledger \<Rightarrow> rat list" where
  "lexicographic_vector L = [record_mismatch L, sector L, holonomy L, overlap L, local_constraint L]
     @ map snd (physical_auxiliary L)"

definition strictly_descends_from :: "ledger \<Rightarrow> ledger \<Rightarrow> bool" where
  "strictly_descends_from after before \<longleftrightarrow>
     auxiliary_names after = auxiliary_names before \<and>
     lexicographic_vector after < lexicographic_vector before"

definition visible_vector :: "ledger \<Rightarrow> rat list" where
  "visible_vector L = [overlap L, local_constraint L] @ map snd (physical_auxiliary L)"

definition strict_repair_descends_from :: "ledger \<Rightarrow> ledger \<Rightarrow> bool" where
  "strict_repair_descends_from after before =
     (if auxiliary_names after \<noteq> auxiliary_names before then False
      else if record_mismatch before \<noteq> 0 \<or> record_mismatch after \<noteq> 0 then False
      else if sector before \<noteq> 0 \<or> sector after \<noteq> 0 then False
      else if holonomy after \<noteq> holonomy before then False
      else visible_vector after < visible_vector before)"

text \<open>JSON objects are written with their keys sorted.\<close>

definition jobj :: "(string \<times> json) list \<Rightarrow> json" where
  "jobj kvs = JObj (sort_key fst kvs)"

definition fraction_json :: "rat \<Rightarrow> json" where
  "fraction_json q = jobj [(''numerator'', JInt (fst (quotient_of q))),
     (''denominator'', JInt (snd (quotient_of q)))]"

definition ledger_json :: "ledger \<Rightarrow> json" where
  "ledger_json L = jobj
     [(''record'', fraction_json (record_mismatch L)), (''sector'', fraction_json (sector L)),
      (''holonomy'', fraction_json (holonomy L)), (''overlap'', fraction_json (overlap L)),
      (''local_constraint'', fraction_json (local_constraint L)),
      (''physical_auxiliary'', jobj (map (\<lambda>(n, q). (n, fraction_json q)) (physical_auxiliary L))),
      (''lexicographic_order'', JArr (map JStr ([''record'', ''sector'', ''holonomy'', ''overlap'',
         ''local_constraint''] @ auxiliary_names L)))]"

section \<open>Well-formed ledgers and the order\<close>

definition wf_ledger :: "ledger \<Rightarrow> bool" where
  "wf_ledger L \<longleftrightarrow> 0 \<le> overlap L \<and> 0 \<le> local_constraint L \<and> 0 \<le> sector L \<and>
     0 \<le> record_mismatch L \<and> 0 \<le> holonomy L \<and>
     list_all (\<lambda>(n, q). n \<noteq> [] \<and> 0 \<le> q) (physical_auxiliary L) \<and>
     sorted (auxiliary_names L) \<and> distinct (auxiliary_names L)"

lemma check_aux_wf:
  "check_aux seen raw = Inr aux \<Longrightarrow>
   list_all (\<lambda>(n, q). n \<noteq> [] \<and> 0 \<le> q) aux \<and> distinct (map fst aux) \<and> set (map fst aux) \<inter> seen = {}"
  by (induction seen raw arbitrary: aux rule: check_aux.induct)
    (fastforce split: if_splits elim!: rbind_eq_InrE dest: exact_nonneg)+

lemma mk_ledger_wf: "mk_ledger ov lc sec rec hol raw = Inr L \<Longrightarrow> wf_ledger L"
proof -
  assume "mk_ledger ov lc sec rec hol raw = Inr L"
  then obtain aux where L: "0 \<le> overlap L" "0 \<le> local_constraint L" "0 \<le> sector L"
      "0 \<le> record_mismatch L" "0 \<le> holonomy L" "physical_auxiliary L = sort_key fst aux"
    and aux: "check_aux {} raw = Inr aux"
    by (fastforce simp: mk_ledger_def elim!: rbind_eq_InrE dest: exact_nonneg)
  have "sorted (map fst (sort_key fst aux))" by simp
  moreover have "distinct (map fst (sort_key fst aux))"
    using check_aux_wf [OF aux] by (simp add: distinct_map)
  ultimately show ?thesis
    using L check_aux_wf [OF aux] by (simp add: wf_ledger_def auxiliary_names_def list_all_iff)
qed

lemma strict_repair_descends_irrefl: "\<not> strict_repair_descends_from L L"
  by (simp add: strict_repair_descends_from_def)

lemma strict_repair_descends_trans:
  "strict_repair_descends_from A B \<Longrightarrow> strict_repair_descends_from B C \<Longrightarrow>
   strict_repair_descends_from A C"
  by (auto simp: strict_repair_descends_from_def split: if_splits intro: less_trans)

lemma strict_repair_imp_strictly_descends:
  "strict_repair_descends_from A B \<Longrightarrow> strictly_descends_from A B"
  by (auto simp: strict_repair_descends_from_def strictly_descends_from_def
      lexicographic_vector_def visible_vector_def split: if_splits)

end
