(* ===== verification/Value_Properties.thy ===== *)
theory Value_Properties
  imports Repair_Ledger
begin

text \<open>
  The properties of the data the repair engine works on: the finite groups of the registry,
  register values with their frozen form and canonical trees, and mismatch ledgers.
\<close>

section \<open>The registry of gauge groups\<close>

definition readable :: "'g fin_group \<Rightarrow> bool" where
  "readable G \<longleftrightarrow> list_all (\<lambda>x. (case label G x of Inl err \<Rightarrow> False
     | Inr l \<Rightarrow> parse G (PLabel l) = Inr x)) (elements G)"

lemma readableI:
  assumes "labels_injective G"
  shows "readable G"
  unfolding readable_def list_all_iff
proof
  fix x assume x: "x \<in> set (elements G)"
  then obtain l where l: "label G x = Inr l" using assms by (auto simp: labels_injective_def)
  with parse_label_inverse [OF assms x l]
  show "case label G x of Inl err \<Rightarrow> False | Inr l \<Rightarrow> parse G (PLabel l) = Inr x" by simp
qed

text \<open>Whatever name \<open>get_group\<close> accepts, the group it returns satisfies the group laws on
  its elements, and \<open>parse\<close> reads every label back as the element it names.\<close>

theorem registry_groups_lawful:
  assumes "get_group nm = Inr g"
  shows "case g of IntGroup G \<Rightarrow> is_group G \<and> readable G | PermGroup G \<Rightarrow> is_group G \<and> readable G"
  using assms
proof (rule get_group_cases)
qed (simp_all add: is_group_z2 is_group_s3 is_group_clock readableI labels_injective_z2
      labels_injective_s3 labels_injective_clock)

theorem registry_groups_lawful_witness: "is_group build_s3 \<and> readable build_s3"
proof -
  have "upper (strip ''s3'') = ''S3''" by code_simp
  then have "get_group ''s3'' = Inr (PermGroup build_s3)" by (simp add: get_group_def)
  from registry_groups_lawful [OF this] show ?thesis by simp
qed

section \<open>Register values\<close>

text \<open>Freezing a value, thawing the frozen form and freezing again gives the same frozen
  form, so a stored value and its stable hash survive every pass through a snapshot.\<close>

theorem freeze_thaw_freeze:
  assumes "freeze dg v = Inr z" "thaw z = Inr w"
  shows "freeze dg w = Inr z \<and> wf_frozen dg z"
  using assms freeze_wf freeze_thaw by blast

theorem freeze_thaw_freeze_witness:
  "freeze (\<lambda>_. ''d'') (PDict [(PLeaf (LStr ''a''), PLeaf (LInt 1))]) =
     Inr (FzMap [(''a'', FzLeaf (LInt 1))])"
proof -
  let ?v = "PDict [(PLeaf (LStr ''a''), PLeaf (LInt 1))]"
  have "freeze (\<lambda>_. ''d'') ?v = Inr (FzMap [(''a'', FzLeaf (LInt 1))])"
    "thaw (FzMap [(''a'', FzLeaf (LInt 1))]) = Inr ?v"
    by (simp_all add: freeze_leaf_def str_key_def)
  from freeze_thaw_freeze [OF this] show ?thesis by blast
qed

text \<open>Canonical trees separate frozen values: two values have the same tree exactly when
  they are the same value, type by type (1, True and Fraction(1) differ).\<close>

theorem canonical_separates_values: "canonical x = canonical y \<longleftrightarrow> x = y"
  by (rule canonical_inject)

section \<open>Mismatch ledgers\<close>

text \<open>A constructed ledger has non-negative entries and sorted, distinct auxiliary names;
  the acceptance relation of strict repair is a strict partial order contained in the full
  lexicographic order, and it never holds where a record or sector mismatch is present.\<close>

theorem strict_repair_order:
  assumes "mk_ledger ov lc sec rec hol raw = Inr A"
  shows "wf_ledger A \<and> \<not> strict_repair_descends_from A A \<and>
    (strict_repair_descends_from A B \<and> strict_repair_descends_from B C \<longrightarrow>
       strict_repair_descends_from A C) \<and>
    (strict_repair_descends_from A B \<longrightarrow> strictly_descends_from A B \<and>
       record_mismatch A = 0 \<and> sector A = 0 \<and> record_mismatch B = 0 \<and> sector B = 0 \<and>
       holonomy A = holonomy B)"
proof -
  have "record_mismatch A = 0 \<and> sector A = 0 \<and> record_mismatch B = 0 \<and> sector B = 0 \<and>
       holonomy A = holonomy B" if "strict_repair_descends_from A B"
    using that by (auto simp: strict_repair_descends_from_def split: if_splits)
  then show ?thesis
    using mk_ledger_wf [OF assms] strict_repair_descends_irrefl strict_repair_descends_trans
      strict_repair_imp_strictly_descends by blast
qed

theorem strict_repair_order_witness:
  "wf_ledger \<lparr>overlap = 1, local_constraint = 0, sector = 0, record_mismatch = 0, holonomy = 0,
     physical_auxiliary = []\<rparr>"
proof -
  let ?n = "\<lambda>i. PLeaf (LInt i)"
  have "mk_ledger (?n 1) (?n 0) (?n 0) (?n 0) (?n 0) [] = Inr \<lparr>overlap = 1, local_constraint = 0,
     sector = 0, record_mismatch = 0, holonomy = 0, physical_auxiliary = []\<rparr>"
    by (simp add: mk_ledger_def exact_def)
  from strict_repair_order [OF this] show ?thesis by blast
qed

end
