(* ===== verification/Graph_Search.thy ===== *)
theory Graph_Search
  imports Prelude "HOL-Library.Multiset"
begin

text \<open>
  The graph searches that several components of the simulator run with an explicit stack:
  growing the connected component of a conflict graph over the indices still remaining
  (\<open>conflict_components\<close> of \<open>consensus/transactional_repair.py\<close> and of
  \<open>repair/transaction.py\<close>), the depth-first set of reachable nodes of an adjacency dictionary
  (\<open>_reachable_hashes\<close>), and the search that marks nodes when they are pushed
  (\<open>_footprint_conflict_receipt\<close>).  A Python list used as a stack keeps its top at the end;
  here the top is the head, so appending \<open>ns\<close> in order puts \<open>rev ns\<close> in front.  The locale
  \<open>conflict_relation\<close> is the contract under which the components partition the indices.
\<close>

section \<open>Growing one conflict component\<close>

lemma grow_measure:
  "2 * length (filter (\<lambda>j. \<not> P j) xs) + length (filter P xs) < Suc (2 * length xs)"
  using filter_partition_length [of P xs] by linarith

function grow :: "(nat \<Rightarrow> nat \<Rightarrow> bool) \<Rightarrow> nat list \<Rightarrow> nat list \<Rightarrow> nat set \<Rightarrow> nat set \<times> nat list" where
  "grow c [] remaining grp = (grp, remaining)"
| "grow c (index # stack) remaining grp =
     grow c (rev (filter (c index) remaining) @ stack) (filter (\<lambda>j. \<not> c index j) remaining)
       (insert index grp)"
  by pat_completeness auto

termination
  by (relation "measure (\<lambda>(c, stack, remaining, grp). 2 * length remaining + length stack)")
    (use grow_measure in \<open>auto simp: less_Suc_eq_le\<close>)

text \<open>
  The outer loop: the least remaining index starts a new component.  \<open>remaining\<close> is kept as
  an ascending list, so \<open>min(remaining)\<close> is its head and \<open>sorted(remaining)\<close> the list.
\<close>

lemma grow_length: "grow c st rem g = (g', rem') \<Longrightarrow> length rem' \<le> length rem"
proof (induction c st rem g arbitrary: g' rem' rule: grow.induct)
  case (2 c i st rem g)
  then have "length rem' \<le> length (filter (\<lambda>j. \<not> c i j) rem)" by simp
  then show ?case using length_filter_le [of "\<lambda>j. \<not> c i j" rem] by linarith
qed simp

function components :: "(nat \<Rightarrow> nat \<Rightarrow> bool) \<Rightarrow> nat list \<Rightarrow> nat list list" where
  "components c [] = []"
| "components c (start # remaining) =
     (let (grp, rest) = grow c [start] remaining {}
      in sorted_list_of_set grp # components c rest)"
  by pat_completeness auto

termination
proof (relation "measure (\<lambda>(c, remaining). length remaining)", goal_cases)
  case (2 c start remaining x grp rest)
  then have "grow c [start] remaining {} = (grp, rest)" by simp
  from grow_length [OF this] show ?case by simp
qed simp

declare grow.simps [simp del] components.simps [simp del]

lemma grow_Nil [simp]: "grow c [] rem g = (g, rem)"
  by (simp add: grow.simps)

lemma grow_union:
  "grow c st rem g = (g', rem') \<Longrightarrow> g' \<union> set rem' = g \<union> set st \<union> set rem"
proof (induction c st rem g arbitrary: g' rem' rule: grow.induct)
  case (2 c i st rem g)
  then have "g' \<union> set rem' = insert i g \<union> set (rev (filter (c i) rem) @ st)
      \<union> set (filter (\<lambda>j. \<not> c i j) rem)"
    by (simp add: grow.simps)
  then show ?case by auto
qed simp

lemma grow_rest_sub: "grow c st rem g = (g', rem') \<Longrightarrow> set rem' \<subseteq> set rem"
proof (induction c st rem g arbitrary: g' rem' rule: grow.induct)
  case (2 c i st rem g)
  then have "set rem' \<subseteq> set (filter (\<lambda>j. \<not> c i j) rem)" by (simp add: grow.simps)
  then show ?case by auto
qed simp

lemma grow_group_mono: "grow c st rem g = (g', rem') \<Longrightarrow> g \<union> set st \<subseteq> g'"
proof (induction c st rem g arbitrary: g' rem' rule: grow.induct)
  case (2 c i st rem g)
  then have "insert i g \<union> set (rev (filter (c i) rem) @ st) \<subseteq> g'" by (simp add: grow.simps)
  then show ?case by auto
qed simp

lemma grow_finite: "grow c st rem g = (g', rem') \<Longrightarrow> finite g \<Longrightarrow> finite g'"
  by (metis List.finite_set finite_Un finite_subset grow_union sup_ge1)

lemma grow_ascending:
  "grow c st rem g = (g', rem') \<Longrightarrow> sorted_wrt (<) rem \<Longrightarrow> sorted_wrt (<) rem'"
  by (induction c st rem g arbitrary: g' rem' rule: grow.induct)
    (auto simp: grow.simps sorted_wrt_filter)

lemma grow_disjoint:
  "grow c st rem g = (g', rem') \<Longrightarrow> sorted_wrt (<) rem \<Longrightarrow> (g \<union> set st) \<inter> set rem = {} \<Longrightarrow>
   g' \<inter> set rem' = {}"
proof (induction c st rem g arbitrary: g' rem' rule: grow.induct)
  case (2 c i st rem g)
  show ?case
    by (rule "2.IH") (use "2.prems" in \<open>auto simp: grow.simps sorted_wrt_filter\<close>)
qed simp

text \<open>The grown group has no conflict with what remains.\<close>

lemma grow_closed:
  "grow c st rem g = (g', rem') \<Longrightarrow> \<forall>x \<in> g. \<forall>y \<in> set rem. \<not> c x y \<Longrightarrow>
   \<forall>x \<in> g'. \<forall>y \<in> set rem'. \<not> c x y"
proof (induction c st rem g arbitrary: g' rem' rule: grow.induct)
  case (2 c i st rem g)
  show ?case
    by (rule "2.IH") (use "2.prems" in \<open>auto simp: grow.simps\<close>)
qed auto

text \<open>Every member of the group is joined to the start by a chain of conflicts inside it.\<close>

definition joined :: "('a \<Rightarrow> 'a \<Rightarrow> bool) \<Rightarrow> 'a set \<Rightarrow> 'a \<Rightarrow> 'a \<Rightarrow> bool" where
  "joined c U = (\<lambda>x y. c x y \<and> x \<in> U \<and> y \<in> U)\<^sup>*\<^sup>*"

lemma joined_mono: "U \<subseteq> V \<Longrightarrow> joined c U x y \<Longrightarrow> joined c V x y"
  unfolding joined_def by (rule rtranclp_mono [THEN predicate2D]) auto

lemma joined_step: "joined c U x y \<Longrightarrow> c y z \<Longrightarrow> y \<in> U \<Longrightarrow> z \<in> U \<Longrightarrow> joined c U x z"
  unfolding joined_def by (rule rtranclp.rtrancl_into_rtrancl) auto

lemma joined_refl [simp]: "joined c U x x"
  by (simp add: joined_def)

lemma joined_trans: "joined c U x y \<Longrightarrow> joined c U y z \<Longrightarrow> joined c U x z"
  unfolding joined_def by (rule rtranclp_trans)

lemma joined_sym:
  assumes "\<And>x y. c x y \<Longrightarrow> c y x" and "joined c U x y"
  shows "joined c U y x"
proof -
  have "symp (\<lambda>x y. c x y \<and> x \<in> U \<and> y \<in> U)"
    using assms(1) by (auto simp: symp_def)
  then have "symp (joined c U)"
    unfolding joined_def by (rule symp_rtranclp)
  then show ?thesis using assms(2) by (auto simp: symp_def)
qed

lemma grow_joined:
  "grow c st rem g = (g', rem') \<Longrightarrow> \<forall>x \<in> g \<union> set st. joined c g' s x \<Longrightarrow>
   \<forall>x \<in> g'. joined c g' s x"
proof (induction c st rem g arbitrary: g' rem' rule: grow.induct)
  case (2 c i st rem g)
  from "2.prems" have run: "grow c (rev (filter (c i) rem) @ st) (filter (\<lambda>j. \<not> c i j) rem)
      (insert i g) = (g', rem')" by (simp add: grow.simps)
  have sub: "insert i g \<union> set (rev (filter (c i) rem) @ st) \<subseteq> g'"
    by (rule grow_group_mono [OF run])
  have "joined c g' s j" if "j \<in> set rem" "c i j" for j
    using "2.prems"(2) sub that by (intro joined_step [of c g' s i j]) auto
  with "2.prems"(2) show ?case
    by (intro "2.IH" [OF run]) auto
qed simp

section \<open>The components of a symmetric conflict relation\<close>

lemma components_run:
  assumes "grow c [i] rem {} = (g, rest)"
  shows "components c (i # rem) = sorted_list_of_set g # components c rest"
  using assms by (simp add: components.simps)

text \<open>What the loop keeps: its components are disjoint ascending lists that cover the indices.\<close>

lemma components_set: "\<Union> (set ` set (components c rem)) = set rem"
proof (induction c rem rule: components.induct)
  case (2 c i rem)
  obtain g rest where g: "grow c [i] rem {} = (g, rest)" by fastforce
  have fin: "finite g" using grow_finite [OF g] by simp
  have "g \<union> set rest = insert i (set rem)" using grow_union [OF g] by simp
  with fin "2.IH" [OF g [symmetric] refl] show ?case
    by (simp add: components_run [OF g])
qed (simp add: components.simps)

lemma components_sub: "C \<in> set (components c rem) \<Longrightarrow> set C \<subseteq> set rem"
  using components_set [of c rem] by blast

lemma components_nonempty: "C \<in> set (components c rem) \<Longrightarrow> C \<noteq> []"
proof (induction c rem rule: components.induct)
  case (2 c i rem)
  obtain g rest where g: "grow c [i] rem {} = (g, rest)" by fastforce
  have "i \<in> g" "finite g" using grow_group_mono [OF g] grow_finite [OF g] by auto
  then have "sorted_list_of_set g \<noteq> []" by (metis empty_iff empty_set sorted_list_of_set_set)
  with "2.IH" [OF g [symmetric] refl] "2.prems" show ?case
    by (auto simp: components_run [OF g])
qed (simp add: components.simps)

lemma components_ascending: "C \<in> set (components c rem) \<Longrightarrow> sorted_wrt (<) C"
proof (induction c rem rule: components.induct)
  case (2 c i rem)
  obtain g rest where g: "grow c [i] rem {} = (g, rest)" by fastforce
  from "2.IH" [OF g [symmetric] refl] "2.prems" show ?case
    by (auto simp: components_run [OF g])
qed (simp add: components.simps)

lemma components_distinct_concat:
  "sorted_wrt (<) rem \<Longrightarrow> distinct (concat (components c rem))"
proof (induction c rem rule: components.induct)
  case (2 c i rem)
  obtain g rest where g: "grow c [i] rem {} = (g, rest)" by fastforce
  have asc: "sorted_wrt (<) rest" using grow_ascending [OF g] "2.prems" by simp
  have fin: "finite g" using grow_finite [OF g] by simp
  have "g \<inter> set rest = {}"
    by (rule grow_disjoint [OF g]) (use "2.prems" in auto)
  moreover have "set (concat (components c rest)) = set rest"
    using components_set [of c rest] by simp
  moreover have "distinct (concat (components c rest))"
    by (rule "2.IH" [OF g [symmetric] refl asc])
  ultimately show ?case using fin
    by (simp add: components_run [OF g])
qed (simp add: components.simps)

lemma components_joined:
  "C \<in> set (components c rem) \<Longrightarrow> \<exists>s \<in> set C. \<forall>x \<in> set C. joined c (set C) s x"
proof (induction c rem rule: components.induct)
  case (2 c i rem)
  obtain g rest where g: "grow c [i] rem {} = (g, rest)" by fastforce
  have fin: "finite g" and i: "i \<in> g" using grow_finite [OF g] grow_group_mono [OF g] by auto
  have "\<forall>x \<in> g. joined c g i x" by (rule grow_joined [OF g]) simp
  with fin i have "\<exists>s \<in> set (sorted_list_of_set g). \<forall>x \<in> set (sorted_list_of_set g).
      joined c (set (sorted_list_of_set g)) s x" by auto
  with "2.IH" [OF g [symmetric] refl] "2.prems" show ?case
    unfolding components_run [OF g] set_simps insert_iff by blast
qed (simp add: components.simps)

locale conflict_relation =
  fixes c :: "nat \<Rightarrow> nat \<Rightarrow> bool"
  assumes conflict_sym: "c x y \<Longrightarrow> c y x"
begin

lemma cross_free:
  "sorted_wrt (<) rem \<Longrightarrow> C \<in> set (components c rem) \<Longrightarrow> D \<in> set (components c rem) \<Longrightarrow>
   C \<noteq> D \<Longrightarrow> x \<in> set C \<Longrightarrow> y \<in> set D \<Longrightarrow> \<not> c x y"
proof (induction "length rem" arbitrary: rem C D x y rule: less_induct)
  case less
  show ?case
  proof (cases rem)
    case Nil
    with less.prems show ?thesis by (simp add: components.simps)
  next
    case (Cons i rem')
    obtain g rest where g: "grow c [i] rem' {} = (g, rest)" by fastforce
    have asc: "sorted_wrt (<) rest"
      using grow_ascending [OF g] less.prems(1) Cons by simp
    have fin: "finite g" using grow_finite [OF g] by simp
    have shorter: "length rest < length rem" using grow_length [OF g] Cons by simp
    have clear: "\<forall>u \<in> g. \<forall>v \<in> set rest. \<not> c u v" by (rule grow_closed [OF g]) simp
    have clear': "\<not> c u v" if "u \<in> g" "v \<in> set E \<or> v \<in> set E" "E \<in> set (components c rest)" for u v E
      using clear that components_sub by blast
    from less.prems Cons components_run [OF g]
    consider "C = sorted_list_of_set g" "D \<in> set (components c rest)"
      | "D = sorted_list_of_set g" "C \<in> set (components c rest)"
      | "C \<in> set (components c rest)" "D \<in> set (components c rest)"
      by auto
    then show ?thesis
    proof cases
      case 1
      with less.prems fin clear' show ?thesis by auto
    next
      case 2
      with less.prems fin have "\<not> c y x" using clear' by auto
      then show ?thesis using conflict_sym by blast
    next
      case 3
      with less.hyps [OF shorter asc] less.prems show ?thesis by blast
    qed
  qed
qed

lemma all_joined:
  assumes "C \<in> set (components c rem)" "x \<in> set C" "y \<in> set C"
  shows "joined c (set C) x y"
proof -
  from components_joined [OF assms(1)] obtain s where
    s: "s \<in> set C" "\<forall>x \<in> set C. joined c (set C) s x" by blast
  with assms have "joined c (set C) s x" "joined c (set C) s y" by auto
  with joined_sym [of c "set C" s x] conflict_sym show ?thesis
    using joined_trans by metis
qed

end

section \<open>The groups of a list under a symmetric conflict relation\<close>

text \<open>
  Both engines sort their items, search the conflict graph over the positions and read the
  items of each component back.
\<close>

definition index_conflict :: "('p \<Rightarrow> 'p \<Rightarrow> bool) \<Rightarrow> 'p list \<Rightarrow> nat \<Rightarrow> nat \<Rightarrow> bool" where
  "index_conflict conf ordered i j = conf (ordered ! i) (ordered ! j)"

definition conflict_groups :: "('p \<Rightarrow> 'p \<Rightarrow> bool) \<Rightarrow> 'p list \<Rightarrow> 'p list list" where
  "conflict_groups conf xs =
     map (map ((!) xs)) (components (index_conflict conf xs) [0..<length xs])"

lemma map_nth_mset:
  assumes "distinct is" "set is = {0..<length xs}"
  shows "mset (map ((!) xs) is) = mset xs"
proof -
  have "mset is = mset [0..<length xs]"
    using assms by (intro set_eq_iff_mset_eq_distinct [THEN iffD1]) auto
  then have "mset (map ((!) xs) is) = mset (map ((!) xs) [0..<length xs])" by simp
  then show ?thesis by (simp add: map_nth)
qed

lemma joined_index:
  assumes "joined (index_conflict conf xs) U i j"
  shows "joined conf ((!) xs ` U) (xs ! i) (xs ! j)"
  using assms unfolding joined_def
  by induction (auto simp: index_conflict_def intro: rtranclp.rtrancl_into_rtrancl)

lemma groups_mset: "mset (concat (conflict_groups conf xs)) = mset xs"
proof -
  let ?is = "components (index_conflict conf xs) [0..<length xs]"
  have "distinct (concat ?is)" by (rule components_distinct_concat) simp
  moreover have "set (concat ?is) = {0..<length xs}"
    using components_set [of "index_conflict conf xs" "[0..<length xs]"] by simp
  ultimately have "mset (map ((!) xs) (concat ?is)) = mset xs" by (rule map_nth_mset)
  then show ?thesis by (simp add: conflict_groups_def map_concat)
qed

locale symmetric_conflict =
  fixes conf :: "'p \<Rightarrow> 'p \<Rightarrow> bool"
  assumes conf_sym: "conf x y \<Longrightarrow> conf y x"
begin

sublocale indices: conflict_relation "index_conflict conf xs" for xs
  by unfold_locales (simp add: index_conflict_def conf_sym)

lemma groups_cross_free:
  assumes "A \<in> set (conflict_groups conf xs)" "B \<in> set (conflict_groups conf xs)" "A \<noteq> B"
    "p \<in> set A" "q \<in> set B"
  shows "\<not> conf p q"
proof -
  let ?is = "components (index_conflict conf xs) [0..<length xs]"
  obtain I J where I: "I \<in> set ?is" "A = map ((!) xs) I"
    and J: "J \<in> set ?is" "B = map ((!) xs) J" "I \<noteq> J"
    using assms(1-3) by (auto simp: conflict_groups_def)
  then obtain i j where ij: "i \<in> set I" "p = xs ! i" "j \<in> set J" "q = xs ! j"
    using assms(4,5) by auto
  have "\<not> index_conflict conf xs i j"
    by (rule indices.cross_free [OF _ I(1) J(1,3) ij(1,3)]) simp
  then show ?thesis by (simp add: index_conflict_def ij)
qed

lemma groups_joined:
  assumes "A \<in> set (conflict_groups conf xs)"
  shows "A \<noteq> [] \<and> (\<forall>p \<in> set A. \<forall>q \<in> set A. joined conf (set A) p q)"
proof -
  obtain I where I: "I \<in> set (components (index_conflict conf xs) [0..<length xs])"
    "A = map ((!) xs) I" using assms by (auto simp: conflict_groups_def)
  have "joined conf (set A) (xs ! x) (xs ! y)" if "x \<in> set I" "y \<in> set I" for x y
    using joined_index [OF indices.all_joined [OF I(1) that]] I(2) by simp
  then show ?thesis using I components_nonempty by auto
qed

lemma groups_pairwise:
  assumes "distinct xs"
  shows "sorted_wrt (\<lambda>A B. \<forall>p \<in> set A. \<forall>q \<in> set B. \<not> conf p q) (conflict_groups conf xs)"
proof -
  have "distinct (concat (conflict_groups conf xs))"
    using groups_mset assms by (metis mset_eq_imp_distinct_iff)
  moreover have "[] \<notin> set (conflict_groups conf xs)" using groups_joined by blast
  ultimately have "distinct (conflict_groups conf xs)" by (simp add: distinct_concat_iff)
  show ?thesis
    unfolding sorted_wrt_iff_nth_less
  proof (intro allI impI ballI)
    fix i j p q
    assume ij: "i < j" "j < length (conflict_groups conf xs)"
      and p: "p \<in> set (conflict_groups conf xs ! i)" and q: "q \<in> set (conflict_groups conf xs ! j)"
    have "conflict_groups conf xs ! i \<noteq> conflict_groups conf xs ! j"
      using \<open>distinct (conflict_groups conf xs)\<close> ij by (simp add: nth_eq_iff_index_eq)
    then show "\<not> conf p q" using ij p q by (intro groups_cross_free [of _ xs]) simp_all
  qed
qed

end

section \<open>Depth-first reachability in an adjacency dictionary\<close>

definition succs :: "('a \<times> 'a list) list \<Rightarrow> 'a \<Rightarrow> 'a list" where
  "succs adj v = (case map_of adj v of None \<Rightarrow> [] | Some ts \<Rightarrow> ts)"

definition edges :: "('a \<times> 'a list) list \<Rightarrow> ('a \<times> 'a) set" where
  "edges adj = {(u, v). v \<in> set (succs adj u)}"

lemma succs_outside: "v \<notin> fst ` set adj \<Longrightarrow> succs adj v = []"
  by (auto simp: succs_def map_of_eq_None_iff [THEN iffD2])

function reach_loop :: "('a \<times> 'a list) list \<Rightarrow> 'a list \<Rightarrow> 'a set \<Rightarrow> 'a set" where
  "reach_loop adj [] seen = seen"
| "reach_loop adj (node # stack) seen =
     (if node \<in> seen then reach_loop adj stack seen
      else reach_loop adj (rev (succs adj node) @ stack) (insert node seen))"
  by pat_completeness auto

termination
proof (relation "inv_image (less_than <*lex*> less_than)
    (\<lambda>(adj, stack, seen). (card (fst ` set adj - seen), length stack))", goal_cases)
  case 1
  show ?case by (intro wf_inv_image wf_lex_prod wf_less_than)
next
  case (2 adj v st seen)
  then show ?case by simp
next
  case (3 adj v st seen)
  show ?case
  proof (cases "v \<in> fst ` set adj")
    case True
    have "fst ` set adj - insert v seen \<subset> fst ` set adj - seen" using True 3 by auto
    then have "card (fst ` set adj - insert v seen) < card (fst ` set adj - seen)"
      by (intro psubset_card_mono) auto
    then show ?thesis by simp
  next
    case False
    then have "fst ` set adj - insert v seen = fst ` set adj - seen" by blast
    with False show ?thesis by (simp add: succs_outside)
  qed
qed

declare reach_loop.simps [simp del]

definition reachable_from :: "('a \<times> 'a list) list \<Rightarrow> 'a \<Rightarrow> 'a set" where
  "reachable_from adj start = reach_loop adj [start] {}"

lemma reach_loop_sound:
  "\<forall>v \<in> seen \<union> set st. (s, v) \<in> (edges adj)\<^sup>* \<Longrightarrow> v \<in> reach_loop adj st seen \<Longrightarrow>
   (s, v) \<in> (edges adj)\<^sup>*"
proof (induction adj st seen rule: reach_loop.induct)
  case (2 adj u st seen)
  have "\<forall>w \<in> set (succs adj u). (s, w) \<in> (edges adj)\<^sup>*"
    using "2.prems"(1) by (auto simp: edges_def intro: rtrancl_into_rtrancl)
  with "2.prems" "2.IH" show ?case
    by (auto simp: reach_loop.simps split: if_splits)
qed (simp add: reach_loop.simps)

lemma reach_loop_mono: "seen \<union> set st \<subseteq> reach_loop adj st seen"
proof (induction adj st seen rule: reach_loop.induct)
  case (2 adj u st seen)
  then show ?case by (cases "u \<in> seen") (auto simp: reach_loop.simps)
qed (simp add: reach_loop.simps)

lemma reach_loop_closed:
  "\<forall>u \<in> seen. set (succs adj u) \<subseteq> seen \<union> set st \<Longrightarrow> u \<in> reach_loop adj st seen \<Longrightarrow>
   set (succs adj u) \<subseteq> reach_loop adj st seen"
proof (induction adj st seen rule: reach_loop.induct)
  case (2 adj v st seen)
  show ?case
  proof (cases "v \<in> seen")
    case True
    with 2 show ?thesis by (auto simp: reach_loop.simps)
  next
    case False
    have "\<forall>w \<in> insert v seen. set (succs adj w)
        \<subseteq> insert v seen \<union> set (rev (succs adj v) @ st)"
      using "2.prems"(1) by auto
    with False "2.IH"(2) "2.prems"(2) show ?thesis by (simp add: reach_loop.simps)
  qed
qed (auto simp: reach_loop.simps)

lemma reachable_from_eq: "reachable_from adj s = {v. (s, v) \<in> (edges adj)\<^sup>*}"
proof (intro equalityI subsetI)
  fix v assume "v \<in> reachable_from adj s"
  then show "v \<in> {v. (s, v) \<in> (edges adj)\<^sup>*}"
    using reach_loop_sound [of "{}" "[s]" s adj v] by (simp add: reachable_from_def)
next
  fix v assume "v \<in> {v. (s, v) \<in> (edges adj)\<^sup>*}"
  then have "(s, v) \<in> (edges adj)\<^sup>*" by simp
  then show "v \<in> reachable_from adj s"
  proof (induction rule: rtrancl_induct)
    case base
    show ?case using reach_loop_mono [of "{}" "[s]" adj] by (simp add: reachable_from_def)
  next
    case (step u v)
    with reach_loop_closed [of "{}" adj "[s]" u] show ?case
      by (auto simp: reachable_from_def edges_def)
  qed
qed

end
