(* ===== verification/Repair_Proposal.thy ===== *)
theory Repair_Proposal
  imports Repair_Ledger Graph_Search
begin

text \<open>
  The data of one repair transaction (\<open>oph_fpe/repair/transaction.py\<close>): transition kinds and
  proposal classes, register snapshots, the declared repair collar, the read-tracking view of
  a state, immutable proposals and their preparation, and the conflict components of a batch.

  A register value is represented by its frozen form (theory \<open>Register_Values\<close>): the engine
  freezes every value it accepts, every value it stores later is thawed from a frozen one, and
  all its comparisons go through \<open>_freeze\<close>.  A state is a finite map from register names.
\<close>

type_synonym regs = "(string, frozen) fmap"
type_synonym version_map = "(string, int) fmap"

section \<open>Kinds and classes\<close>

datatype transition_kind_t = STRICT_REPAIR | REVERSIBLE_PROPAGATION | RECORD_COMMIT
  | CONTROLLED_EXPLORATION | GAUGE_STUTTER | ROLLBACK

datatype proposal_class_t = EXACT_SPLICE | CONDITIONAL_EXPECTATION | PETZ_RECOVERY
  | FAWZI_RENNER_RECOVERY | CSP_COMPLETION | PHYSICAL_CARRIER_RESPONSE | DIAGNOSTIC_HEURISTIC

fun kind_value :: "transition_kind_t \<Rightarrow> string" where
  "kind_value STRICT_REPAIR = ''STRICT_REPAIR''"
| "kind_value REVERSIBLE_PROPAGATION = ''REVERSIBLE_PROPAGATION''"
| "kind_value RECORD_COMMIT = ''RECORD_COMMIT''"
| "kind_value CONTROLLED_EXPLORATION = ''CONTROLLED_EXPLORATION''"
| "kind_value GAUGE_STUTTER = ''GAUGE_STUTTER''"
| "kind_value ROLLBACK = ''ROLLBACK''"

fun class_value :: "proposal_class_t \<Rightarrow> string" where
  "class_value EXACT_SPLICE = ''EXACT_SPLICE''"
| "class_value CONDITIONAL_EXPECTATION = ''CONDITIONAL_EXPECTATION''"
| "class_value PETZ_RECOVERY = ''PETZ_RECOVERY''"
| "class_value FAWZI_RENNER_RECOVERY = ''FAWZI_RENNER_RECOVERY''"
| "class_value CSP_COMPLETION = ''CSP_COMPLETION''"
| "class_value PHYSICAL_CARRIER_RESPONSE = ''PHYSICAL_CARRIER_RESPONSE''"
| "class_value DIAGNOSTIC_HEURISTIC = ''DIAGNOSTIC_HEURISTIC''"

section \<open>Field names and forbidden targets\<close>

definition lower_char :: "char \<Rightarrow> char" where
  "lower_char c = (if 65 \<le> (of_char c :: nat) \<and> (of_char c :: nat) \<le> 90
     then char_of ((of_char c :: nat) + 32) else c)"

definition is_name_char :: "char \<Rightarrow> bool" where
  "is_name_char c \<longleftrightarrow> 97 \<le> (of_char c :: nat) \<and> (of_char c :: nat) \<le> 122 \<or> is_digit c"

text \<open>\<open>re.sub('[^a-z0-9]+', '_', s)\<close>: a maximal run of other characters is one underscore.\<close>

function squash :: "string \<Rightarrow> string" where
  "squash [] = []"
| "squash (c # cs) = (if is_name_char c then c # squash cs
     else CHR ''_'' # squash (dropWhile (\<lambda>d. \<not> is_name_char d) cs))"
  by pat_completeness auto
termination
  by (relation "measure length") (auto simp: less_Suc_eq_le length_dropWhile_le)

definition strip_underscores :: "string \<Rightarrow> string" where
  "strip_underscores s =
     rev (dropWhile (\<lambda>c. c = CHR ''_'') (rev (dropWhile (\<lambda>c. c = CHR ''_'') s)))"

definition normalize_field :: "string \<Rightarrow> string" where
  "normalize_field s = strip_underscores (squash (map lower_char s))"

fun split_on :: "char \<Rightarrow> string \<Rightarrow> string list" where
  "split_on sep [] = [[]]"
| "split_on sep (c # cs) =
     (if c = sep then [] # split_on sep cs
      else (case split_on sep cs of [] \<Rightarrow> [[c]] | w # ws \<Rightarrow> (c # w) # ws))"

definition starts_with :: "string \<Rightarrow> string \<Rightarrow> bool" where
  "starts_with s p \<longleftrightarrow> take (length p) s = p"

definition ends_with :: "string \<Rightarrow> string \<Rightarrow> bool" where
  "ends_with s p \<longleftrightarrow> starts_with (rev s) (rev p)"

definition forbidden_match :: "string set \<Rightarrow> string \<Rightarrow> bool" where
  "forbidden_match forbidden key \<longleftrightarrow> key \<in> forbidden \<or>
     (\<exists>candidate \<in> forbidden. candidate \<in> set (split_on CHR ''_'' key) \<or>
        starts_with key (candidate @ ''_'') \<or> ends_with key (CHR ''_'' # candidate))"

definition default_forbidden_fields :: "string list" where
  "default_forbidden_fields = [''target'', ''target_value'', ''target_beta'', ''beta_target'',
     ''target_geometry'', ''preferred_geometry'', ''preferred_kms_normalization'',
     ''candidate_model'', ''candidate_geometry'', ''observed_cosmology'', ''pass_threshold'',
     ''desired_branch'']"

text \<open>\<open>_target_leaks\<close>: the paths of a source-parameter value that name a forbidden target.\<close>

fun target_leaks :: "string set \<Rightarrow> string \<Rightarrow> frozen \<Rightarrow> string list"
  and target_leaks_items :: "string set \<Rightarrow> string \<Rightarrow> (string \<times> frozen) list \<Rightarrow> string list"
  and target_leaks_seq :: "string set \<Rightarrow> string \<Rightarrow> nat \<Rightarrow> frozen list \<Rightarrow> string list" where
  "target_leaks forbidden path (FzMap kvs) = target_leaks_items forbidden path kvs"
| "target_leaks forbidden path (FzList xs) = target_leaks_seq forbidden path 0 xs"
| "target_leaks forbidden path (FzTuple xs) = target_leaks_seq forbidden path 0 xs"
| "target_leaks forbidden path (FzSet xs) = target_leaks_seq forbidden path 0 xs"
| "target_leaks forbidden path (FzLeaf l) =
     (case l of LStr s \<Rightarrow> if normalize_field s \<in> forbidden then [path] else [] | _ \<Rightarrow> [])"
| "target_leaks_items forbidden path [] = []"
| "target_leaks_items forbidden path ((raw_key, item) # rest) =
     (let key = normalize_field raw_key; here = path @ ''.'' @ key
      in (if forbidden_match forbidden key then [here] else [])
         @ target_leaks forbidden here item @ target_leaks_items forbidden path rest)"
| "target_leaks_seq forbidden path i [] = []"
| "target_leaks_seq forbidden path i (x # xs) =
     target_leaks forbidden (path @ ''['' @ str_nat i @ '']'') x
     @ target_leaks_seq forbidden path (Suc i) xs"

section \<open>Snapshots\<close>

record register_snapshot =
  ref :: string
  frozen_value :: frozen
  version :: int

definition mk_register_snapshot :: "string \<Rightarrow> frozen \<Rightarrow> int \<Rightarrow> register_snapshot res" where
  "mk_register_snapshot r z v =
     (if r = [] then Inl ValueError
      else if v < 0 then Inl ValueError
      else if \<not> thawable z then Inl TypeError
      else Inr \<lparr>ref = r, frozen_value = z, version = v\<rparr>)"

type_synonym snapshot_t = "register_snapshot list"

definition mk_snapshot :: "register_snapshot list \<Rightarrow> snapshot_t res" where
  "mk_snapshot rs = (let ordered = sort_key ref rs in
     if \<not> distinct (map ref ordered) then Inl ValueError else Inr ordered)"

definition capture :: "regs \<Rightarrow> version_map \<Rightarrow> string set \<Rightarrow> snapshot_t res" where
  "capture st vs refs =
     (if refs - fmdom' st \<noteq> {} then Inl KeyError
      else if refs - fmdom' vs \<noteq> {} then Inl KeyError
      else rbind (rmap (\<lambda>r. mk_register_snapshot r (the (fmlookup st r)) (the (fmlookup vs r)))
                   (sorted_list_of_set refs)) mk_snapshot)"

definition snapshot_read_set :: "snapshot_t \<Rightarrow> string set" where
  "snapshot_read_set sn = set (map ref sn)"

definition value_hash :: "(json \<Rightarrow> string) \<Rightarrow> register_snapshot \<Rightarrow> string" where
  "value_hash dg item = stable_hash dg (frozen_value item)"

definition snapshot_hash :: "(json \<Rightarrow> string) \<Rightarrow> snapshot_t \<Rightarrow> string" where
  "snapshot_hash dg sn = dg (JArr (map (\<lambda>item. jobj [(''ref'', JStr (ref item)),
     (''value_hash'', JStr (value_hash dg item)), (''version'', JInt (version item))]) sn))"

definition snapshot_value :: "snapshot_t \<Rightarrow> string \<Rightarrow> frozen res" where
  "snapshot_value sn r = (case find (\<lambda>item. ref item = r) sn of
     Some item \<Rightarrow> Inr (frozen_value item) | None \<Rightarrow> Inl KeyError)"

definition snapshot_version :: "snapshot_t \<Rightarrow> string \<Rightarrow> int res" where
  "snapshot_version sn r = (case find (\<lambda>item. ref item = r) sn of
     Some item \<Rightarrow> Inr (version item) | None \<Rightarrow> Inl KeyError)"

section \<open>Collars\<close>

text \<open>\<open>_refs\<close>: names must be non-empty; duplicates collapse into the set.\<close>

definition refs :: "string list \<Rightarrow> string set res" where
  "refs xs = (if [] \<in> set xs then Inl TypeError else Inr (set xs))"

record repair_collar =
  collar_id :: string
  visible_read_set :: "string set"
  writable_registers :: "string set"
  protected_boundary :: "string set"
  sector_registers :: "string set"
  record_registers :: "string set"
  checkpoint_registers :: "string set"
  interior_registers :: "string set"
  carrier_ids :: "string set"
  seam_ids :: "string set"
  forbidden_target_fields :: "string set"

definition mk_collar :: "repair_collar \<Rightarrow> repair_collar res" where
  "mk_collar c =
     (if collar_id c = [] then Inl TypeError
      else if [] \<in> visible_read_set c \<union> writable_registers c \<union> protected_boundary c
           \<union> sector_registers c \<union> record_registers c \<union> checkpoint_registers c
           \<union> interior_registers c then Inl TypeError
      else if [] \<in> carrier_ids c \<union> seam_ids c then Inl TypeError
      else if [] \<in> forbidden_target_fields c then Inl TypeError
      else Inr (c\<lparr>forbidden_target_fields := normalize_field ` forbidden_target_fields c\<rparr>))"

section \<open>Read tracking\<close>

text \<open>
  A recovery function or a mismatch evaluator is code that reads registers through a tracked
  view: it looks one register up (a missing one raises \<open>KeyError\<close>, which it may handle),
  enumerates the names, or asks for their number.  Names are enumerated in ascending order.
\<close>

datatype 'a tracked = Done 'a | Fail py_error
  | Get string "frozen res \<Rightarrow> 'a tracked"
  | Names "string list \<Rightarrow> 'a tracked"
  | Count "nat \<Rightarrow> 'a tracked"

definition names_of :: "regs \<Rightarrow> string list" where
  "names_of st = sorted_list_of_fset (fmdom st)"

definition getitem :: "regs \<Rightarrow> string \<Rightarrow> frozen res" where
  "getitem st r = (case fmlookup st r of None \<Rightarrow> Inl KeyError | Some v \<Rightarrow> Inr v)"

primrec run_tracked :: "regs \<Rightarrow> 'a tracked \<Rightarrow> 'a res \<times> string set" where
  "run_tracked st (Done a) = (Inr a, {})"
| "run_tracked st (Fail e) = (Inl e, {})"
| "run_tracked st (Get r k) =
     (if r = [] then run_tracked st (k (Inl TypeError))
      else (let out = run_tracked st (k (getitem st r)) in (fst out, insert r (snd out))))"
| "run_tracked st (Names k) =
     (let out = run_tracked st (k (names_of st)) in (fst out, fmdom' st \<union> snd out))"
| "run_tracked st (Count k) =
     (let out = run_tracked st (k (length (names_of st))) in (fst out, fmdom' st \<union> snd out))"

section \<open>Updates and proposals\<close>

type_synonym updates_t = "(string \<times> frozen) list"

definition updates_from_mapping ::
  "(json \<Rightarrow> string) \<Rightarrow> (string, pyval) fmap option \<Rightarrow> updates_t res" where
  "updates_from_mapping dg values = (case values of
     None \<Rightarrow> Inr []
   | Some m \<Rightarrow>
       if fmlookup m [] \<noteq> None then Inl TypeError
       else rmap (\<lambda>r. rbind (freeze dg (the (fmlookup m r))) (\<lambda>z. Inr (r, z)))
              (sorted_list_of_fset (fmdom m)))"

record repair_proposal =
  proposal_id :: string
  transition_kind :: transition_kind_t
  proposal_class :: proposal_class_t
  collar :: repair_collar
  snapshot :: snapshot_t
  declared_read_set :: "string set"
  observed_read_set :: "string set"
  updates :: updates_t
  inverse_updates :: updates_t
  source_parameters :: frozen
  parent_event_ids :: "string list"

definition write_set :: "repair_proposal \<Rightarrow> string set" where
  "write_set p = set (map fst (updates p))"

definition dict_of_fmap :: "(string, pyval) fmap \<Rightarrow> pyval" where
  "dict_of_fmap m = PDict (map (\<lambda>k. (PLeaf (LStr k), the (fmlookup m k)))
     (sorted_list_of_fset (fmdom m)))"

text \<open>
  \<open>prepare_proposal\<close>: run the recovery code on the tracked view, then capture the snapshot and
  freeze the proposal.  The recovery returns a mapping, or some other object (\<open>None\<close> here).
\<close>

definition prepare_proposal ::
  "(json \<Rightarrow> string) \<Rightarrow> regs \<Rightarrow> version_map \<Rightarrow> string \<Rightarrow> transition_kind_t \<Rightarrow> proposal_class_t \<Rightarrow>
   repair_collar \<Rightarrow> string list \<Rightarrow> (string, pyval) fmap option tracked \<Rightarrow>
   (string, pyval) fmap option \<Rightarrow> (string, pyval) fmap \<Rightarrow> string list \<Rightarrow> repair_proposal res" where
  "prepare_proposal dg st vs pid kind cls c declared recovery inv_arg params parents =
     rbind (refs declared) (\<lambda>reads.
     let (out, observed) = run_tracked st recovery in
     rbind out (\<lambda>raw_updates.
     if raw_updates = None then Inl TypeError else
     rbind (capture st vs reads) (\<lambda>sn.
     rbind (updates_from_mapping dg raw_updates) (\<lambda>upd.
     rbind (updates_from_mapping dg inv_arg) (\<lambda>inv.
     rbind (freeze dg (dict_of_fmap params)) (\<lambda>src.
     rbind (refs parents) (\<lambda>par.
     if pid = [] then Inl TypeError
     else if \<not> thawable src then Inl TypeError
     else Inr \<lparr>proposal_id = pid, transition_kind = kind, proposal_class = cls, collar = c,
               snapshot = sn, declared_read_set = reads, observed_read_set = observed,
               updates = upd, inverse_updates = inv, source_parameters = src,
               parent_event_ids = sorted_list_of_set par\<rparr>)))))))"

section \<open>Conflicts\<close>

definition proposals_conflict :: "repair_proposal \<Rightarrow> repair_proposal \<Rightarrow> bool" where
  "proposals_conflict l r \<longleftrightarrow>
     write_set l \<inter> (declared_read_set r \<union> write_set r) \<noteq> {} \<or>
     write_set r \<inter> (declared_read_set l \<union> write_set l) \<noteq> {}"

definition conflict_components :: "repair_proposal list \<Rightarrow> repair_proposal list list res" where
  "conflict_components proposals =
     (let ordered = sort_key proposal_id proposals in
      if \<not> distinct (map proposal_id ordered) then Inl ValueError
      else Inr (sort_key (\<lambda>component. proposal_id (hd component))
        (conflict_groups proposals_conflict ordered)))"

lemma proposals_conflict_sym: "proposals_conflict l r \<Longrightarrow> proposals_conflict r l"
  by (auto simp: proposals_conflict_def)

interpretation pc: symmetric_conflict proposals_conflict
  by unfold_locales (rule proposals_conflict_sym)

end
