(* ===== verification/Repair_Engine.thy ===== *)
theory Repair_Engine
  imports Repair_Proposal
begin

text \<open>
  The transactional repair engine (\<open>TransactionalRepairEngine\<close> of
  \<open>oph_fpe/repair/transaction.py\<close>): evaluation of a conflict component as a list of named
  checks, atomic commit, batches, rollback, and the receipts whose verdicts are recomputed from
  primitive evidence.  The mismatch evaluator is a callback of the caller: for each collar a
  program that reads registers through the tracked view and returns a ledger, or some other
  object (\<open>None\<close>).  An operation returns its result or exception together with the engine.
\<close>

section \<open>Text of diagnostics\<close>

text \<open>\<open>repr\<close> of a string, of a list of strings, and of a bool.\<close>

definition repr_char :: "char \<Rightarrow> char \<Rightarrow> string" where
  "repr_char q c = (let n = of_char c :: nat in
     if c = q \<or> n = 92 then [char_of (92 :: nat), c]
     else if n = 10 then [char_of (92 :: nat), CHR ''n'']
     else if n = 13 then [char_of (92 :: nat), CHR ''r'']
     else if n = 9 then [char_of (92 :: nat), CHR ''t'']
     else if n < 32 \<or> 127 \<le> n \<and> n \<le> 160 \<or> n = 173
       then [char_of (92 :: nat), CHR ''x''] @ hex_byte c
     else [c])"

definition repr_str :: "string \<Rightarrow> string" where
  "repr_str s = (let q = (if char_of (39 :: nat) \<in> set s \<and> char_of (34 :: nat) \<notin> set s
       then char_of (34 :: nat) else char_of (39 :: nat))
     in q # concat (map (repr_char q) s) @ [q])"

fun join_with :: "string \<Rightarrow> string list \<Rightarrow> string" where
  "join_with sep [] = []"
| "join_with sep [x] = x"
| "join_with sep (x # xs) = x @ sep @ join_with sep xs"

definition repr_list :: "string list \<Rightarrow> string" where
  "repr_list xs = ''['' @ join_with '', '' (map repr_str xs) @ '']''"

definition repr_bool :: "bool \<Rightarrow> string" where
  "repr_bool b = (if b then ''True'' else ''False'')"

section \<open>Checks, footprints and validations\<close>

record verification_check =
  name :: string
  passed :: bool
  detail :: string

definition check :: "string \<Rightarrow> bool \<Rightarrow> string \<Rightarrow> string \<Rightarrow> verification_check" where
  "check n ok good bad = \<lparr>name = n, passed = ok, detail = (if ok then good else bad)\<rparr>"

definition transaction_check_names :: "string list" where
  "transaction_check_names = [''unique_proposal_ids'', ''complete_read_set'', ''snapshot_current'',
     ''write_locality'', ''target_free_source'', ''conflict_component_support'',
     ''single_transition_kind'', ''compatible_component_writes'', ''unlisted_registers_unchanged'',
     ''protected_boundary_preserved'', ''sector_preserved'', ''mismatch_read_trace_complete'',
     ''transition_contract'', ''atomic_union_revalidated'']"

definition rollback_check_names :: "string list" where
  "rollback_check_names = [''rollback_root_exists'', ''rollback_snapshot_current'']"

definition check_schema_complete :: "verification_check list \<Rightarrow> transition_kind_t \<Rightarrow> bool" where
  "check_schema_complete checks kind =
     (let expected = (if kind = ROLLBACK then rollback_check_names else transaction_check_names);
          names = map name checks
      in distinct names \<and> set names = set expected)"

record proposal_footprint =
  fp_proposal_id :: string
  declared_reads :: "string list"
  observed_reads :: "string list"
  required_reads :: "string list"
  snapshot_reads :: "string list"
  writes :: "string list"

definition read_complete :: "proposal_footprint \<Rightarrow> bool" where
  "read_complete f \<longleftrightarrow> set (required_reads f) \<subseteq> set (declared_reads f) \<and>
     set (observed_reads f) \<subseteq> set (declared_reads f) \<and>
     set (snapshot_reads f) = set (declared_reads f)"

definition check_value :: "verification_check list \<Rightarrow> string \<Rightarrow> bool" where
  "check_value checks n = (map passed (filter (\<lambda>c. name c = n) checks) = [True])"

definition footprints_conflict :: "proposal_footprint \<Rightarrow> proposal_footprint \<Rightarrow> bool" where
  "footprints_conflict l r \<longleftrightarrow>
     set (writes l) \<inter> (set (declared_reads r) \<union> set (writes r)) \<noteq> {} \<or>
     set (writes r) \<inter> (set (declared_reads l) \<union> set (writes l)) \<noteq> {}"

text \<open>The pairs \<open>(left, right)\<close> with left before right in the order, as the nested loop lists them.\<close>

fun conflict_pairs :: "proposal_footprint list \<Rightarrow> (string \<times> string) list" where
  "conflict_pairs [] = []"
| "conflict_pairs (l # rs) =
     map (\<lambda>r. (fp_proposal_id l, fp_proposal_id r)) (filter (footprints_conflict l) rs)
     @ conflict_pairs rs"

definition expected_conflict_edges :: "proposal_footprint list \<Rightarrow> (string \<times> string) list" where
  "expected_conflict_edges fps = conflict_pairs (sort_key fp_proposal_id fps)"

text \<open>
  The connectivity search of \<open>_footprint_conflict_receipt\<close>: neighbours are marked as reached
  when they are pushed.
\<close>

definition edge_neighbors :: "(string \<times> string) list \<Rightarrow> string \<Rightarrow> string list" where
  "edge_neighbors es v = sorted_list_of_set
     (set (map snd (filter (\<lambda>e. fst e = v) es)) \<union> set (map fst (filter (\<lambda>e. snd e = v) es)))"

definition edge_ends :: "(string \<times> string) list \<Rightarrow> string set" where
  "edge_ends es = set (map fst es) \<union> set (map snd es)"

lemma set_edge_neighbors: "set (edge_neighbors es v) =
    {w. (v, w) \<in> set es \<or> (w, v) \<in> set es}"
  by (force simp: edge_neighbors_def)

function span_loop ::
  "(string \<times> string) list \<Rightarrow> string list \<Rightarrow> string set \<Rightarrow> string set" where
  "span_loop es [] reached = reached"
| "span_loop es (current # stack) reached =
     (let new = filter (\<lambda>n. n \<notin> reached) (edge_neighbors es current)
      in span_loop es (rev new @ stack) (reached \<union> set new))"
  by pat_completeness auto

termination
proof (relation "measure (\<lambda>(es, stack, reached). 2 * card (edge_ends es - reached) + length stack)",
    goal_cases)
  case (2 es current stack reached new)
  have d: "distinct new" and sub: "set new \<subseteq> edge_ends es - reached"
    using 2 by (auto simp: edge_neighbors_def edge_ends_def)
  have fin: "finite (edge_ends es - reached)" by (simp add: edge_ends_def)
  have "edge_ends es - (reached \<union> set new) = (edge_ends es - reached) - set new" by blast
  then have "card (edge_ends es - (reached \<union> set new)) = card (edge_ends es - reached) - length new"
    using sub by (simp add: card_Diff_subset distinct_card [OF d])
  moreover have "length new \<le> card (edge_ends es - reached)"
    using card_mono [OF fin sub] by (simp add: distinct_card [OF d])
  ultimately show ?case by simp
qed simp

declare span_loop.simps [simp del]

definition normalize_edge :: "string \<times> string \<Rightarrow> string \<times> string" where
  "normalize_edge e = (if snd e < fst e then (snd e, fst e) else e)"

definition edge_key :: "string \<times> string \<Rightarrow> string list" where
  "edge_key e = [fst e, snd e]"

definition footprint_conflict_receipt ::
  "proposal_footprint list \<Rightarrow> (string \<times> string) list \<Rightarrow> bool" where
  "footprint_conflict_receipt fps es =
     (let ordered = sort_key fp_proposal_id fps; ids = map fp_proposal_id ordered in
      if ids = [] \<or> \<not> distinct ids then False
      else let expected = expected_conflict_edges ordered;
               normalized = sort_key edge_key (map normalize_edge es) in
      if normalized \<noteq> expected then False
      else if length ids = 1 then normalized = []
      else if \<not> list_all (\<lambda>e. fst e \<in> set ids \<and> snd e \<in> set ids) normalized then False
      else span_loop normalized [hd ids] {hd ids} = set ids)"

record proposal_validation =
  v_proposal_ids :: "string list"
  v_checks :: "verification_check list"
  v_mismatch_before :: "ledger option"
  v_mismatch_after :: "ledger option"
  v_pre_state_hash :: string
  v_candidate_state_hash :: string

definition admissible :: "proposal_validation \<Rightarrow> bool" where
  "admissible v \<longleftrightarrow> v_checks v \<noteq> [] \<and> list_all passed (v_checks v)"

definition failure_reasons :: "verification_check list \<Rightarrow> string list" where
  "failure_reasons checks = map detail (filter (\<lambda>c. \<not> passed c) checks)"

section \<open>Receipts\<close>

record repair_receipt =
  r_proposal_ids :: "string list"
  r_transition_kind :: transition_kind_t
  r_proposal_classes :: "proposal_class_t list"
  r_checks :: "verification_check list"
  r_committed :: bool
  r_pre_state_hash :: string
  r_post_state_hash :: string
  r_mismatch_before :: "ledger option"
  r_mismatch_after :: "ledger option"
  r_snapshot_hashes :: "string list"
  r_proposal_footprints :: "proposal_footprint list"
  r_score_observed_reads :: "string list"
  r_score_snapshot_reads :: "string list"
  r_conflict_edges :: "(string \<times> string) list"
  r_conflict_support_hash :: string
  r_read_set_hash :: string
  r_write_set_hash :: string
  r_protected_boundary_hash :: string
  r_versions_before_hash :: string
  r_versions_after_hash :: string
  r_rollback_root :: string
  r_parent_event_ids :: "string list"
  r_transition_event_id :: "string option"
  r_semantic_record_event_id :: "string option"
  r_commit_id :: string

definition jstrs :: "string list \<Rightarrow> json" where
  "jstrs xs = JArr (map JStr xs)"

definition jstr_option :: "string option \<Rightarrow> json" where
  "jstr_option v = (case v of None \<Rightarrow> JNull | Some s \<Rightarrow> JStr s)"

definition jledger_option :: "ledger option \<Rightarrow> json" where
  "jledger_option v = (case v of None \<Rightarrow> JNull | Some L \<Rightarrow> ledger_json L)"

definition footprint_json :: "proposal_footprint \<Rightarrow> json" where
  "footprint_json f = jobj [(''proposal_id'', JStr (fp_proposal_id f)),
     (''declared_reads'', jstrs (declared_reads f)), (''observed_reads'', jstrs (observed_reads f)),
     (''required_reads'', jstrs (required_reads f)), (''snapshot_reads'', jstrs (snapshot_reads f)),
     (''writes'', jstrs (writes f))]"

definition conflict_support_payload ::
  "proposal_footprint list \<Rightarrow> string list \<Rightarrow> string list \<Rightarrow> (string \<times> string) list \<Rightarrow> json" where
  "conflict_support_payload fps observed snap es = jobj
     [(''proposal_footprints'', JArr (map footprint_json fps)),
      (''score_observed_reads'', jstrs observed), (''score_snapshot_reads'', jstrs snap),
      (''conflict_edges'', JArr (map (\<lambda>e. jstrs [fst e, snd e]) es))]"

definition all_checks_passed :: "repair_receipt \<Rightarrow> bool" where
  "all_checks_passed r \<longleftrightarrow> r_checks r \<noteq> [] \<and> list_all passed (r_checks r)"

definition diagnostic_only :: "repair_receipt \<Rightarrow> bool" where
  "diagnostic_only r \<longleftrightarrow> DIAGNOSTIC_HEURISTIC \<in> set (r_proposal_classes r)"

definition complete_read_set_receipt :: "repair_receipt \<Rightarrow> bool" where
  "complete_read_set_receipt r =
     (let declared = set (concat (map declared_reads (r_proposal_footprints r)))
      in r_proposal_footprints r \<noteq> [] \<and> list_all read_complete (r_proposal_footprints r) \<and>
         set (r_score_observed_reads r) \<subseteq> declared \<and>
         set (r_score_observed_reads r) \<subseteq> set (r_score_snapshot_reads r))"

definition conflict_component_support_receipt :: "(json \<Rightarrow> string) \<Rightarrow> repair_receipt \<Rightarrow> bool" where
  "conflict_component_support_receipt dg r =
     (let expected_hash = dg (conflict_support_payload (r_proposal_footprints r)
            (r_score_observed_reads r) (r_score_snapshot_reads r) (r_conflict_edges r))
      in footprint_conflict_receipt (r_proposal_footprints r) (r_conflict_edges r) \<and>
         expected_hash = r_conflict_support_hash r)"

definition atomic_union_revalidation_receipt :: "(json \<Rightarrow> string) \<Rightarrow> repair_receipt \<Rightarrow> bool" where
  "atomic_union_revalidation_receipt dg r =
     (let exact_descent = (if r_transition_kind r = STRICT_REPAIR then
            (case (r_mismatch_before r, r_mismatch_after r) of
               (Some b, Some a) \<Rightarrow> strict_repair_descends_from a b | _ \<Rightarrow> False)
          else True)
      in check_value (r_checks r) ''atomic_union_revalidated'' \<and>
         check_value (r_checks r) ''transition_contract'' \<and> exact_descent \<and>
         check_schema_complete (r_checks r) (r_transition_kind r) \<and>
         complete_read_set_receipt r \<and> conflict_component_support_receipt dg r)"

definition semantic_record_written :: "repair_receipt \<Rightarrow> bool" where
  "semantic_record_written r \<longleftrightarrow>
     r_transition_kind r = RECORD_COMMIT \<and> r_semantic_record_event_id r \<noteq> None"

definition transition_event_emitted :: "repair_receipt \<Rightarrow> bool" where
  "transition_event_emitted r \<longleftrightarrow> r_transition_event_id r \<noteq> None"

definition physical_repair_receipt :: "(json \<Rightarrow> string) \<Rightarrow> repair_receipt \<Rightarrow> bool" where
  "physical_repair_receipt dg r \<longleftrightarrow> r_committed r \<and> all_checks_passed r \<and>
     atomic_union_revalidation_receipt dg r \<and> r_transition_kind r = STRICT_REPAIR \<and>
     \<not> diagnostic_only r"

definition verdict :: "repair_receipt \<Rightarrow> string" where
  "verdict r = (if r_committed r \<and> all_checks_passed r then ''VALID_PASS'' else ''VALID_FAIL'')"

definition claim_tier :: "(json \<Rightarrow> string) \<Rightarrow> repair_receipt \<Rightarrow> string" where
  "claim_tier dg r =
     (if physical_repair_receipt dg r then ''FINITE_TRANSACTIONAL_REPAIR''
      else if r_committed r \<and> diagnostic_only r then ''REGULATOR_DIAGNOSTIC''
      else if r_committed r then ''FINITE_THEOREM'' else ''NO_CLAIM'')"

definition commit_seed :: "repair_receipt \<Rightarrow> json" where
  "commit_seed r = jobj
     [(''contract'', JStr ''repair-contract-r1''),
      (''verifier'', JStr ''oph-fpe-transaction-verifier-v1''),
      (''proposal_ids'', jstrs (r_proposal_ids r)),
      (''transition_kind'', JStr (kind_value (r_transition_kind r))),
      (''proposal_classes'', jstrs (map class_value (r_proposal_classes r))),
      (''checks'', JArr (map (\<lambda>c. JArr [JStr (name c), JBool (passed c), JStr (detail c)]) (r_checks r))),
      (''committed'', JBool (r_committed r)),
      (''pre'', JStr (r_pre_state_hash r)), (''post'', JStr (r_post_state_hash r)),
      (''mismatch_before'', jledger_option (r_mismatch_before r)),
      (''mismatch_after'', jledger_option (r_mismatch_after r)),
      (''snapshots'', jstrs (r_snapshot_hashes r)),
      (''conflict_support_hash'', JStr (r_conflict_support_hash r)),
      (''read'', JStr (r_read_set_hash r)), (''write'', JStr (r_write_set_hash r)),
      (''protected'', JStr (r_protected_boundary_hash r)),
      (''versions_before'', JStr (r_versions_before_hash r)),
      (''versions_after'', JStr (r_versions_after_hash r)),
      (''parents'', jstrs (r_parent_event_ids r)),
      (''transition_event'', jstr_option (r_transition_event_id r)),
      (''semantic_record_event'', jstr_option (r_semantic_record_event_id r))]"

section \<open>The engine state\<close>

record commit_archive =
  a_pre_state :: regs
  a_post_state_hash :: string
  a_receipt :: repair_receipt
  a_collar :: repair_collar

type_synonym evaluator_t = "repair_collar \<Rightarrow> ledger option tracked"

record engine =
  state :: regs
  versions :: version_map
  mismatch_evaluator :: evaluator_t
  archives :: "(string, commit_archive) fmap"

text \<open>The state hash, and its public form that validates the register names first.\<close>

definition state_hash :: "(json \<Rightarrow> string) \<Rightarrow> regs \<Rightarrow> string" where
  "state_hash dg st = stable_hash dg (FzMap (items_of st))"

definition canonical_state_hash :: "(json \<Rightarrow> string) \<Rightarrow> regs \<Rightarrow> string res" where
  "canonical_state_hash dg st =
     (if [] \<in> fmdom' st then Inl TypeError else Inr (state_hash dg st))"

definition versions_hash :: "(json \<Rightarrow> string) \<Rightarrow> version_map \<Rightarrow> string" where
  "versions_hash dg vs = dg (jobj (map (\<lambda>(k, v). (k, JInt v)) (items_of vs)))"

definition same_value :: "(json \<Rightarrow> string) \<Rightarrow> frozen \<Rightarrow> frozen \<Rightarrow> bool" where
  "same_value dg l r \<longleftrightarrow> stable_hash dg l = stable_hash dg r"

definition changed_registers :: "(json \<Rightarrow> string) \<Rightarrow> regs \<Rightarrow> regs \<Rightarrow> string set" where
  "changed_registers dg before after = Set.filter
     (\<lambda>r. (case (fmlookup before r, fmlookup after r) of
            (Some x, Some y) \<Rightarrow> \<not> same_value dg x y | _ \<Rightarrow> True))
     (fmdom' before \<union> fmdom' after)"

text \<open>
  \<open>__init__\<close>: names are validated, the state is not empty, every value freezes, and a supplied
  version map covers exactly the registers with non-negative versions.
\<close>

definition freeze_regs :: "(json \<Rightarrow> string) \<Rightarrow> (string, pyval) fmap \<Rightarrow> regs res" where
  "freeze_regs dg m = rbind (rmap (\<lambda>r. rbind (freeze dg (the (fmlookup m r))) (\<lambda>z. Inr (r, z)))
     (sorted_list_of_fset (fmdom m))) (\<lambda>kvs. Inr (fmap_of_list kvs))"

definition init_engine ::
  "(json \<Rightarrow> string) \<Rightarrow> (string, pyval) fmap \<Rightarrow> evaluator_t \<Rightarrow> version_map option \<Rightarrow> engine res" where
  "init_engine dg initial ev vs =
     (if [] \<in> fmdom' initial then Inl TypeError
      else if fmdom' initial = {} then Inl ValueError
      else rbind (freeze_regs dg initial) (\<lambda>st.
        (case vs of
           None \<Rightarrow> Inr \<lparr>state = st, versions = fmmap (\<lambda>_. 0) st, mismatch_evaluator = ev,
                         archives = fmempty\<rparr>
         | Some v \<Rightarrow>
             if [] \<in> fmdom' v then Inl TypeError
             else if fmdom' v \<noteq> fmdom' st then Inl ValueError
             else if \<exists>r \<in> fmdom' v. the (fmlookup v r) < 0 then Inl ValueError
             else Inr \<lparr>state = st, versions = v, mismatch_evaluator = ev, archives = fmempty\<rparr>)))"

end
