(* ===== verification/Repair_Commit.thy ===== *)
theory Repair_Commit
  imports Repair_Engine
begin

text \<open>
  The operations of the transactional repair engine: \<open>_evaluate_component\<close> (cut at the
  boundaries of its checks), \<open>_commit_component\<close>, \<open>commit_batch\<close> and \<open>rollback\<close> of
  \<open>oph_fpe/repair/transaction.py\<close>.
\<close>

section \<open>Checks of the single proposals\<close>

definition required_reads_of :: "repair_proposal \<Rightarrow> string set" where
  "required_reads_of p = visible_read_set (collar p) \<union> protected_boundary (collar p)
     \<union> sector_registers (collar p) \<union> record_registers (collar p)
     \<union> checkpoint_registers (collar p) \<union> write_set p"

definition footprint_of :: "repair_proposal \<Rightarrow> proposal_footprint" where
  "footprint_of p = \<lparr>fp_proposal_id = proposal_id p,
     declared_reads = sorted_list_of_set (declared_read_set p),
     observed_reads = sorted_list_of_set (observed_read_set p),
     required_reads = sorted_list_of_set (required_reads_of p),
     snapshot_reads = sorted_list_of_set (snapshot_read_set (snapshot p)),
     writes = sorted_list_of_set (write_set p)\<rparr>"

definition complete_details :: "repair_proposal \<Rightarrow> string list" where
  "complete_details p =
     (let missing = required_reads_of p - declared_read_set p;
          untraced = observed_read_set p - declared_read_set p;
          snapshot_mismatch = (snapshot_read_set (snapshot p) \<noteq> declared_read_set p)
      in if missing \<noteq> {} \<or> untraced \<noteq> {} \<or> snapshot_mismatch
         then [proposal_id p @ '': missing='' @ repr_list (sorted_list_of_set missing)
               @ '', observed_undeclared='' @ repr_list (sorted_list_of_set untraced)
               @ '', snapshot_exact='' @ repr_bool (\<not> snapshot_mismatch)]
         else [])"

definition fresh_details :: "(json \<Rightarrow> string) \<Rightarrow> engine \<Rightarrow> repair_proposal \<Rightarrow> string list" where
  "fresh_details dg e p = concat (map (\<lambda>item.
     (case (fmlookup (state e) (ref item), fmlookup (versions e) (ref item)) of
        (Some z, Some v) \<Rightarrow>
          if v \<noteq> version item \<or> \<not> same_value dg z (frozen_value item)
          then [proposal_id p @ '':'' @ ref item @ '' is stale''] else []
      | _ \<Rightarrow> [proposal_id p @ '':'' @ ref item @ '' no longer exists'']))
     (snapshot p))"

definition local_details :: "repair_proposal \<Rightarrow> string list" where
  "local_details p = (let illegal = write_set p - writable_registers (collar p) in
     if illegal \<noteq> {} then [proposal_id p @ '': writes outside collar ''
        @ repr_list (sorted_list_of_set illegal)] else [])"

definition target_details :: "repair_proposal \<Rightarrow> string list" where
  "target_details p =
     (let forbidden = set default_forbidden_fields \<union> forbidden_target_fields (collar p);
          leaks = target_leaks forbidden ''source'' (source_parameters p);
          register_leaks = filter (\<lambda>r. normalize_field r \<in> forbidden)
            (sorted_list_of_set (declared_read_set p \<union> write_set p))
      in if leaks \<noteq> [] \<or> register_leaks \<noteq> []
         then [proposal_id p @ '': forbidden source paths='' @ repr_list leaks
               @ '', registers='' @ repr_list register_leaks] else [])"

definition lines_check :: "string \<Rightarrow> string list \<Rightarrow> string \<Rightarrow> verification_check" where
  "lines_check n bad good = check n (bad = []) good (join_with ''; '' bad)"

section \<open>The union collar and the aggregate update\<close>

definition union_of :: "(repair_proposal \<Rightarrow> string set) \<Rightarrow> repair_proposal list \<Rightarrow> string set" where
  "union_of f ps = \<Union> (f ` set ps)"

definition union_sets :: "(json \<Rightarrow> string) \<Rightarrow> repair_proposal list \<Rightarrow> repair_collar" where
  "union_sets dg ps =
     \<lparr>collar_id = ''union:'' @ take 20 (dg (jstrs (sort (map proposal_id ps)))),
      visible_read_set = union_of (\<lambda>p. visible_read_set (collar p)) ps,
      writable_registers = union_of (\<lambda>p. writable_registers (collar p)) ps,
      protected_boundary = union_of (\<lambda>p. protected_boundary (collar p)) ps,
      sector_registers = union_of (\<lambda>p. sector_registers (collar p)) ps,
      record_registers = union_of (\<lambda>p. record_registers (collar p)) ps,
      checkpoint_registers = union_of (\<lambda>p. checkpoint_registers (collar p)) ps,
      interior_registers = union_of (\<lambda>p. interior_registers (collar p)) ps,
      carrier_ids = union_of (\<lambda>p. carrier_ids (collar p)) ps,
      seam_ids = union_of (\<lambda>p. seam_ids (collar p)) ps,
      forbidden_target_fields = union_of (\<lambda>p. forbidden_target_fields (collar p)) ps\<rparr>"

text \<open>
  The constructor of the union collar validates it again: a field name that normalized to the
  empty name in a collar is rejected here.
\<close>

definition union_collar :: "(json \<Rightarrow> string) \<Rightarrow> repair_proposal list \<Rightarrow> repair_collar res" where
  "union_collar dg ps = mk_collar (union_sets dg ps)"

text \<open>Reading the updates of a proposal thaws them.\<close>

definition updates_thaw :: "updates_t \<Rightarrow> bool" where
  "updates_thaw us = list_all (\<lambda>u. thawable (snd u)) us"

text \<open>One update of the aggregation loop: a different value for a known register is incompatible.\<close>

definition combine_step ::
  "(json \<Rightarrow> string) \<Rightarrow> string \<times> frozen \<Rightarrow> regs \<times> string list \<Rightarrow> regs \<times> string list" where
  "combine_step dg u acc = (case fmlookup (fst acc) (fst u) of
     None \<Rightarrow> (fmupd (fst u) (snd u) (fst acc), snd acc)
   | Some w \<Rightarrow> if same_value dg w (snd u) then (fmupd (fst u) (snd u) (fst acc), snd acc)
              else (fst acc, snd acc @ [fst u]))"

definition combine_updates :: "(json \<Rightarrow> string) \<Rightarrow> updates_t \<Rightarrow> regs \<times> string list" where
  "combine_updates dg us = fold (combine_step dg) us (fmempty, [])"

text \<open>The inverse updates of the proposals in reverse order; the last write of a register wins.\<close>

definition inverse_step ::
  "(json \<Rightarrow> string) \<Rightarrow> string \<times> frozen \<Rightarrow> regs \<times> bool \<Rightarrow> regs \<times> bool" where
  "inverse_step dg u acc = (fmupd (fst u) (snd u) (fst acc),
     snd acc \<and> (case fmlookup (fst acc) (fst u) of None \<Rightarrow> True | Some w \<Rightarrow> same_value dg w (snd u)))"

definition combine_inverse :: "(json \<Rightarrow> string) \<Rightarrow> repair_proposal list \<Rightarrow> regs \<times> bool" where
  "combine_inverse dg ps =
     fold (inverse_step dg) (concat (map inverse_updates (rev ps))) (fmempty, True)"

section \<open>The transition contracts\<close>

definition append_only :: "frozen \<Rightarrow> frozen \<Rightarrow> bool" where
  "append_only before after = (case (before, after) of
     (FzTuple xs, FzTuple ys) \<Rightarrow> length xs < length ys \<and> fz_eq_list (take (length xs) ys) xs
   | (FzList xs, FzList ys) \<Rightarrow> length xs < length ys \<and> fz_eq_list (take (length xs) ys) xs
   | _ \<Rightarrow> False)"

definition measure_with_trace ::
  "engine \<Rightarrow> regs \<Rightarrow> repair_collar \<Rightarrow> (ledger \<times> string set) res" where
  "measure_with_trace e st c = (let (out, observed) = run_tracked st (mismatch_evaluator e c) in
     rbind out (\<lambda>result. case result of None \<Rightarrow> Inl TypeError | Some L \<Rightarrow> Inr (L, observed)))"

definition strict_repair_ok :: "repair_collar \<Rightarrow> string set \<Rightarrow> ledger \<Rightarrow> ledger \<Rightarrow> bool" where
  "strict_repair_ok c changed before after \<longleftrightarrow>
     changed \<noteq> {} \<and> changed \<inter> (record_registers c \<union> checkpoint_registers c) = {} \<and>
     auxiliary_names before = auxiliary_names after \<and> strict_repair_descends_from after before"

definition reversible_ok :: "(json \<Rightarrow> string) \<Rightarrow> regs \<Rightarrow> regs \<Rightarrow> repair_proposal list \<Rightarrow>
    repair_collar \<Rightarrow> string set \<Rightarrow> ledger \<Rightarrow> ledger \<Rightarrow> bool" where
  "reversible_ok dg before_state post_state ps c changed before after =
     (let (inv, compatible) = combine_inverse dg ps;
          exact_inverse = (compatible \<and> state_hash dg (post_state ++\<^sub>f inv) = state_hash dg before_state)
      in changed \<noteq> {} \<and> exact_inverse \<and>
         changed \<inter> (record_registers c \<union> checkpoint_registers c) = {} \<and>
         auxiliary_names before = auxiliary_names after \<and> after = before)"

definition record_commit_ok :: "regs \<Rightarrow> regs \<Rightarrow> repair_collar \<Rightarrow> string set \<Rightarrow>
    ledger \<Rightarrow> ledger \<Rightarrow> bool" where
  "record_commit_ok before_state post_state c changed before after \<longleftrightarrow>
     changed \<noteq> {} \<and> changed \<subseteq> record_registers c \<union> checkpoint_registers c \<and>
     changed \<inter> record_registers c \<noteq> {} \<and>
     (\<forall>r \<in> changed \<inter> record_registers c.
        (case (fmlookup before_state r, fmlookup post_state r) of
           (Some x, Some y) \<Rightarrow> append_only x y | _ \<Rightarrow> False)) \<and>
     auxiliary_names before = auxiliary_names after \<and> after = before"

definition transition_contract :: "(json \<Rightarrow> string) \<Rightarrow> transition_kind_t \<Rightarrow> regs \<Rightarrow> regs \<Rightarrow>
    repair_proposal list \<Rightarrow> repair_collar \<Rightarrow> string set \<Rightarrow> ledger \<Rightarrow> ledger \<Rightarrow> bool \<times> string" where
  "transition_contract dg kind before_state post_state ps c changed before after = (case kind of
     STRICT_REPAIR \<Rightarrow> (let ok = strict_repair_ok c changed before after in
       (ok, if ok then ''aggregate strictly descends the exact touched-collar ledger''
            else ''strict repair must change state, preserve record and checkpoint '' @
              ''registers, retain the ledger schema, and strictly descend after atomic '' @
              ''union rescoring''))
   | REVERSIBLE_PROPAGATION \<Rightarrow>
       (let ok = reversible_ok dg before_state post_state ps c changed before after in
       (ok, if ok then ''transition is mismatch-neutral, exactly invertible, and writes no record''
            else ''reversible propagation requires a state change, an exact inverse, '' @
              ''ledger equality, and no record mutation''))
   | GAUGE_STUTTER \<Rightarrow>
       (let ok = reversible_ok dg before_state post_state ps c changed before after in
       (ok, if ok then ''transition is mismatch-neutral, exactly invertible, and writes no record''
            else ''reversible propagation requires a state change, an exact inverse, '' @
              ''ledger equality, and no record mutation''))
   | RECORD_COMMIT \<Rightarrow> (let ok = record_commit_ok before_state post_state c changed before after in
       (ok, if ok then ''record transition is append-only and mismatch-neutral''
            else ''record commit must append to a declared record, write only record/'' @
              ''checkpoint registers, and preserve the mismatch ledger''))
   | CONTROLLED_EXPLORATION \<Rightarrow> (False,
       ''controlled exploration is fail-closed until a typed budget/drift verifier exists'')
   | ROLLBACK \<Rightarrow> (False, ''rollback proposals are forbidden; use rollback(commit_id)''))"

section \<open>Evaluation of a component\<close>

record evaluation =
  validation :: proposal_validation
  post_state :: regs
  read_set :: "string set"
  ev_write_set :: "string set"
  protected_set :: "string set"
  ev_parent_event_ids :: "string list"
  ev_collar :: repair_collar
  ev_proposal_footprints :: "proposal_footprint list"
  ev_score_observed_reads :: "string list"
  ev_score_snapshot_reads :: "string list"
  ev_conflict_edges :: "(string \<times> string) list"

text \<open>The checks on the single proposals and on their conflict graph, in the order of the code.\<close>

definition proposal_checks :: "(json \<Rightarrow> string) \<Rightarrow> engine \<Rightarrow> repair_proposal list \<Rightarrow>
    verification_check list" where
  "proposal_checks dg e ps =
     [check ''unique_proposal_ids'' (distinct (map proposal_id ps))
        ''proposal IDs are unique'' ''duplicate proposal IDs'',
      lines_check ''complete_read_set'' (concat (map complete_details ps))
        ''all proposal, score, protected and sector dependencies were snapshotted'',
      lines_check ''snapshot_current'' (concat (map (fresh_details dg e) ps))
        ''all snapshot values and register versions are current'',
      lines_check ''write_locality'' (concat (map local_details ps))
        ''all writes lie in their declared collars'',
      lines_check ''target_free_source'' (concat (map target_details ps))
        ''proposal source contains no forbidden downstream target fields'']"

definition component_footprints :: "repair_proposal list \<Rightarrow> proposal_footprint list" where
  "component_footprints ps = sort_key fp_proposal_id (map footprint_of ps)"

definition graph_checks :: "repair_proposal list \<Rightarrow> verification_check list" where
  "graph_checks ps =
     (let fps = component_footprints ps; es = expected_conflict_edges fps;
          kinds = uniq (map transition_kind ps)
      in [check ''conflict_component_support'' (footprint_conflict_receipt fps es)
            ''read/write footprints form one complete connected conflict component''
            ''the supplied proposals do not form one connected conflict component'',
          check ''single_transition_kind'' (length kinds = 1)
            ''component has one transition law''
            (''cannot aggregate transition kinds '' @ repr_list (sort (map kind_value kinds)))])"

definition component_post_state :: "(json \<Rightarrow> string) \<Rightarrow> regs \<Rightarrow> repair_proposal list \<Rightarrow> regs" where
  "component_post_state dg st ps = (let (combined, incompatible) =
       combine_updates dg (concat (map updates ps))
     in if incompatible = [] then st ++\<^sub>f combined else st)"

definition preserved_on :: "(json \<Rightarrow> string) \<Rightarrow> regs \<Rightarrow> regs \<Rightarrow> string set \<Rightarrow> bool" where
  "preserved_on dg before after rs \<longleftrightarrow>
     (\<forall>r \<in> rs. (case (fmlookup before r, fmlookup after r) of
        (Some x, Some y) \<Rightarrow> same_value dg x y | _ \<Rightarrow> False))"

definition state_checks :: "(json \<Rightarrow> string) \<Rightarrow> regs \<Rightarrow> regs \<Rightarrow> repair_proposal list \<Rightarrow>
    repair_collar \<Rightarrow> transition_kind_t \<Rightarrow> verification_check list" where
  "state_checks dg before after ps c kind =
     (let incompatible = snd (combine_updates dg (concat (map updates ps)));
          changed = changed_registers dg before after;
          written = union_of write_set ps;
          mutable_protected = (if kind = RECORD_COMMIT then record_registers c else {})
      in [check ''compatible_component_writes'' (incompatible = [])
            ''component writes have a unique aggregate value''
            (''conflicting values for registers '' @ repr_list (sorted_list_of_set (set incompatible))),
          check ''unlisted_registers_unchanged'' (changed \<subseteq> written)
            ''the candidate differs only on listed writes''
            (''unlisted changes '' @ repr_list (sorted_list_of_set (changed - written))),
          check ''protected_boundary_preserved''
            (preserved_on dg before after (protected_boundary c - mutable_protected))
            ''protected boundary values are unchanged''
            ''candidate mutates or omits a protected boundary register'',
          check ''sector_preserved'' (preserved_on dg before after (sector_registers c))
            ''sector registers are unchanged'' ''candidate changes a sector register''])"

text \<open>
  The two measurements and the transition contract, run only when the component has one kind
  and one aggregate value per register.
\<close>

record contract_result =
  before_ledger :: "ledger option"
  after_ledger :: "ledger option"
  score_reads :: "string set"
  transition_ok :: bool
  transition_detail :: string

definition evaluate_contract :: "(json \<Rightarrow> string) \<Rightarrow> engine \<Rightarrow> repair_proposal list \<Rightarrow>
    repair_collar \<Rightarrow> regs \<Rightarrow> contract_result res" where
  "evaluate_contract dg e ps c post =
     (if length (uniq (map transition_kind ps)) = 1 \<and>
         snd (combine_updates dg (concat (map updates ps))) = []
      then rbind (measure_with_trace e (state e) c) (\<lambda>(before, before_reads).
           rbind (measure_with_trace e post c) (\<lambda>(after, after_reads).
           if (transition_kind (hd ps) = REVERSIBLE_PROPAGATION \<or>
               transition_kind (hd ps) = GAUGE_STUTTER) \<and>
              \<not> list_all (\<lambda>p. updates_thaw (inverse_updates p)) ps then Inl TypeError else
           let (ok, text) = transition_contract dg (transition_kind (hd ps)) (state e) post ps c
                              (changed_registers dg (state e) post) before after
           in Inr \<lparr>before_ledger = Some before, after_ledger = Some after,
                   score_reads = before_reads \<union> after_reads, transition_ok = ok,
                   transition_detail = text\<rparr>))
      else Inr \<lparr>before_ledger = None, after_ledger = None, score_reads = {},
                transition_ok = False,
                transition_detail = ''transition contract was not evaluated''\<rparr>)"

definition contract_checks :: "(json \<Rightarrow> string) \<Rightarrow> repair_proposal list \<Rightarrow> contract_result \<Rightarrow>
    verification_check list" where
  "contract_checks dg ps k =
     (let reads = union_of declared_read_set ps;
          snapshotted = union_of (\<lambda>p. snapshot_read_set (snapshot p)) ps;
          trace_complete = (length (uniq (map transition_kind ps)) = 1 \<and>
            snd (combine_updates dg (concat (map updates ps))) = [] \<and>
            score_reads k \<subseteq> reads \<and> score_reads k \<subseteq> snapshotted)
      in [check ''mismatch_read_trace_complete'' trace_complete
            ''all before/after mismatch-evaluator reads are in the declared component snapshot''
            (''mismatch evaluator read undeclared or unsnapshotted registers: ''
             @ repr_list (sorted_list_of_set (score_reads k - (reads \<inter> snapshotted)))),
          \<lparr>name = ''transition_contract'', passed = transition_ok k, detail = transition_detail k\<rparr>])"

definition with_atomic_check :: "verification_check list \<Rightarrow> verification_check list" where
  "with_atomic_check checks = checks @ [check ''atomic_union_revalidated'' (list_all passed checks)
     ''the complete conflict component passed one atomic union-collar evaluation''
     ''atomic component was rejected; no primitive member may commit independently'']"

definition evaluate_component :: "(json \<Rightarrow> string) \<Rightarrow> engine \<Rightarrow> repair_proposal list \<Rightarrow>
    evaluation res" where
  "evaluate_component dg e component =
     (let ps = sort_key proposal_id component;
          post = component_post_state dg (state e) ps in
      if ps = [] then Inl ValueError
      else rbind (union_collar dg ps) (\<lambda>c.
        if \<not> list_all (\<lambda>p. updates_thaw (updates p)) ps then Inl TypeError
        else rbind (evaluate_contract dg e ps c post) (\<lambda>k.
        let checks = with_atomic_check (proposal_checks dg e ps @ graph_checks ps
              @ state_checks dg (state e) post ps c (transition_kind (hd ps))
              @ contract_checks dg ps k);
            fps = component_footprints ps
        in Inr \<lparr>validation = \<lparr>v_proposal_ids = map proposal_id ps, v_checks = checks,
                   v_mismatch_before = before_ledger k, v_mismatch_after = after_ledger k,
                   v_pre_state_hash = state_hash dg (state e),
                   v_candidate_state_hash = state_hash dg post\<rparr>,
                post_state = post, read_set = union_of declared_read_set ps,
                ev_write_set = union_of write_set ps, protected_set = protected_boundary c,
                ev_parent_event_ids = sorted_list_of_set (set (concat (map parent_event_ids ps))),
                ev_collar = c, ev_proposal_footprints = fps,
                ev_score_observed_reads = sorted_list_of_set (score_reads k),
                ev_score_snapshot_reads =
                  sorted_list_of_set (union_of (\<lambda>p. snapshot_read_set (snapshot p)) ps),
                ev_conflict_edges = expected_conflict_edges fps\<rparr>)))"

definition assess :: "(json \<Rightarrow> string) \<Rightarrow> engine \<Rightarrow> repair_proposal \<Rightarrow> proposal_validation res" where
  "assess dg e p = rbind (evaluate_component dg e [p]) (\<lambda>ev. Inr (validation ev))"

section \<open>Receipts of an operation\<close>

text \<open>\<open>_make_receipt\<close> hashes the sets and version maps and seals the receipt with its own hash.\<close>

definition make_receipt :: "(json \<Rightarrow> string) \<Rightarrow> repair_receipt \<Rightarrow> string set \<Rightarrow> string set \<Rightarrow>
    string set \<Rightarrow> version_map \<Rightarrow> version_map \<Rightarrow> repair_receipt" where
  "make_receipt dg r reads written protected vs_before vs_after =
     (let sealed = r\<lparr>r_read_set_hash := dg (jstrs (sorted_list_of_set reads)),
            r_write_set_hash := dg (jstrs (sorted_list_of_set written)),
            r_protected_boundary_hash := dg (jstrs (sorted_list_of_set protected)),
            r_versions_before_hash := versions_hash dg vs_before,
            r_versions_after_hash := versions_hash dg vs_after,
            r_conflict_support_hash := dg (conflict_support_payload (r_proposal_footprints r)
               (r_score_observed_reads r) (r_score_snapshot_reads r) (r_conflict_edges r)),
            r_rollback_root := r_pre_state_hash r\<rparr>
      in sealed\<lparr>r_commit_id := dg (commit_seed sealed)\<rparr>)"

text \<open>The identifiers of the events a committed, non-heuristic transition emits.\<close>

definition transition_event_id :: "(json \<Rightarrow> string) \<Rightarrow> evaluation \<Rightarrow> transition_kind_t \<Rightarrow>
    string \<Rightarrow> string" where
  "transition_event_id dg ev kind post_hash = dg (jobj
     [(''event_domain'', JStr ''finite_transition''),
      (''canonical_payload'', jobj
         [(''proposal_ids'', jstrs (v_proposal_ids (validation ev))),
          (''transition_kind'', JStr (kind_value kind)),
          (''pre'', JStr (v_pre_state_hash (validation ev))), (''post'', JStr post_hash)]),
      (''visible_footprint'', jstrs (sorted_list_of_set (read_set ev \<union> ev_write_set ev))),
      (''semantic_parents'', jstrs (ev_parent_event_ids ev))])"

definition semantic_record_event_id :: "(json \<Rightarrow> string) \<Rightarrow> evaluation \<Rightarrow> string \<Rightarrow> string" where
  "semantic_record_event_id dg ev tid = dg (jobj
     [(''event_domain'', JStr ''semantic_record_commit''),
      (''transition_event_id'', JStr tid),
      (''semantic_parents'', jstrs (ev_parent_event_ids ev))])"

section \<open>Commit\<close>

text \<open>\<open>for ref in changed: self._versions[ref] += 1\<close>, for registers that have a version.\<close>

definition bump :: "string set \<Rightarrow> version_map \<Rightarrow> version_map" where
  "bump changed vs = fmmap_keys (\<lambda>r v. if r \<in> changed then v + 1 else v) vs"

definition sorted_classes :: "repair_proposal list \<Rightarrow> proposal_class_t list" where
  "sorted_classes ps = sort_key class_value (uniq (map proposal_class ps))"

definition commit_receipt :: "(json \<Rightarrow> string) \<Rightarrow> evaluation \<Rightarrow> repair_proposal list \<Rightarrow> bool \<Rightarrow>
    regs \<Rightarrow> version_map \<Rightarrow> version_map \<Rightarrow> repair_receipt" where
  "commit_receipt dg ev ps committed after vs_before vs_after =
     (let v = validation ev; kind = transition_kind (hd ps); classes = sorted_classes ps;
          creates = (committed \<and> DIAGNOSTIC_HEURISTIC \<notin> set classes \<and>
                     (kind = STRICT_REPAIR \<or> kind = RECORD_COMMIT));
          tid = (if creates then Some (transition_event_id dg ev kind (state_hash dg after)) else None);
          sid = (if kind = RECORD_COMMIT
                 then map_option (semantic_record_event_id dg ev) tid else None)
      in make_receipt dg
           \<lparr>r_proposal_ids = v_proposal_ids v, r_transition_kind = kind,
            r_proposal_classes = classes, r_checks = v_checks v, r_committed = committed,
            r_pre_state_hash = v_pre_state_hash v, r_post_state_hash = state_hash dg after,
            r_mismatch_before = v_mismatch_before v, r_mismatch_after = v_mismatch_after v,
            r_snapshot_hashes = map (\<lambda>p. snapshot_hash dg (snapshot p)) ps,
            r_proposal_footprints = ev_proposal_footprints ev,
            r_score_observed_reads = ev_score_observed_reads ev,
            r_score_snapshot_reads = ev_score_snapshot_reads ev,
            r_conflict_edges = ev_conflict_edges ev, r_conflict_support_hash = [],
            r_read_set_hash = [], r_write_set_hash = [], r_protected_boundary_hash = [],
            r_versions_before_hash = [], r_versions_after_hash = [], r_rollback_root = [],
            r_parent_event_ids = ev_parent_event_ids ev, r_transition_event_id = tid,
            r_semantic_record_event_id = sid, r_commit_id = []\<rparr>
           (read_set ev) (ev_write_set ev) (protected_set ev) vs_before vs_after)"

text \<open>
  \<open>_commit_component\<close>.  An exception of the evaluation leaves the engine as it was.  A changed
  register without a version would raise in the version loop, after the state was replaced.
\<close>

definition commit_component :: "(json \<Rightarrow> string) \<Rightarrow> engine \<Rightarrow> repair_proposal list \<Rightarrow>
    repair_receipt res \<times> engine" where
  "commit_component dg e component =
     (let ps = sort_key proposal_id component in
      case evaluate_component dg e ps of
        Inl err \<Rightarrow> (Inl err, e)
      | Inr ev \<Rightarrow>
        (if \<not> admissible (validation ev)
         then (Inr (commit_receipt dg ev ps False (state e) (versions e) (versions e)), e)
         else let changed = changed_registers dg (state e) (post_state ev);
                  e1 = e\<lparr>state := post_state ev, versions := bump changed (versions e)\<rparr>
              in if \<not> changed \<subseteq> fmdom' (versions e) then (Inl KeyError, e1)
                 else let r = commit_receipt dg ev ps True (state e1) (versions e) (versions e1)
                      in (Inr r, e1\<lparr>archives := fmupd (r_commit_id r)
                            \<lparr>a_pre_state = state e, a_post_state_hash = r_post_state_hash r,
                             a_receipt = r, a_collar = ev_collar ev\<rparr> (archives e1)\<rparr>)))"

definition commit :: "(json \<Rightarrow> string) \<Rightarrow> engine \<Rightarrow> repair_proposal \<Rightarrow> repair_receipt res \<times> engine" where
  "commit dg e p = commit_component dg e [p]"

text \<open>A batch commits its components in order; an exception keeps the earlier commits.\<close>

fun commit_components :: "(json \<Rightarrow> string) \<Rightarrow> engine \<Rightarrow> repair_proposal list list \<Rightarrow>
    repair_receipt list res \<times> engine" where
  "commit_components dg e [] = (Inr [], e)"
| "commit_components dg e (c # cs) =
     (case commit_component dg e c of
        (Inl err, e1) \<Rightarrow> (Inl err, e1)
      | (Inr r, e1) \<Rightarrow> (case commit_components dg e1 cs of
           (Inl err, e2) \<Rightarrow> (Inl err, e2) | (Inr rs, e2) \<Rightarrow> (Inr (r # rs), e2)))"

definition commit_batch :: "(json \<Rightarrow> string) \<Rightarrow> engine \<Rightarrow> repair_proposal list \<Rightarrow>
    repair_receipt list res \<times> engine" where
  "commit_batch dg e proposals = (case conflict_components proposals of
     Inl err \<Rightarrow> (Inl err, e) | Inr cs \<Rightarrow> commit_components dg e cs)"

definition prepare :: "(json \<Rightarrow> string) \<Rightarrow> engine \<Rightarrow> string \<Rightarrow> transition_kind_t \<Rightarrow> proposal_class_t \<Rightarrow>
    repair_collar \<Rightarrow> string list \<Rightarrow> (string, pyval) fmap option tracked \<Rightarrow>
    (string, pyval) fmap option \<Rightarrow> (string, pyval) fmap \<Rightarrow> string list \<Rightarrow> repair_proposal res" where
  "prepare dg e pid kind cls c declared recovery inv_arg params parents =
     prepare_proposal dg (state e) (versions e) pid kind cls c declared recovery inv_arg params parents"

section \<open>Rollback\<close>

definition rollback_checks :: "(json \<Rightarrow> string) \<Rightarrow> engine \<Rightarrow> string \<Rightarrow> verification_check list" where
  "rollback_checks dg e cid =
     (let found = fmlookup (archives e) cid;
          current = (case found of None \<Rightarrow> False
                     | Some a \<Rightarrow> state_hash dg (state e) = a_post_state_hash a)
      in [check ''rollback_root_exists'' (found \<noteq> None) ''archived commit exists''
            (''unknown rollback root '' @ repr_str cid),
          check ''rollback_snapshot_current'' current
            ''current state equals archived post-state''
            ''rollback rejected because later or divergent state is current''])"

definition rollback_receipt :: "(json \<Rightarrow> string) \<Rightarrow> string \<Rightarrow> verification_check list \<Rightarrow> bool \<Rightarrow>
    ledger option \<Rightarrow> ledger option \<Rightarrow> regs \<Rightarrow> regs \<Rightarrow> string set \<Rightarrow> string set \<Rightarrow>
    version_map \<Rightarrow> version_map \<Rightarrow> repair_receipt" where
  "rollback_receipt dg cid checks committed before after pre post written protected vs_before vs_after =
     make_receipt dg
       \<lparr>r_proposal_ids = [''rollback:'' @ cid], r_transition_kind = ROLLBACK,
        r_proposal_classes = [], r_checks = checks, r_committed = committed,
        r_pre_state_hash = state_hash dg pre, r_post_state_hash = state_hash dg post,
        r_mismatch_before = before, r_mismatch_after = after, r_snapshot_hashes = [],
        r_proposal_footprints = [], r_score_observed_reads = [], r_score_snapshot_reads = [],
        r_conflict_edges = [], r_conflict_support_hash = [], r_read_set_hash = [],
        r_write_set_hash = [], r_protected_boundary_hash = [], r_versions_before_hash = [],
        r_versions_after_hash = [], r_rollback_root = [], r_parent_event_ids = [],
        r_transition_event_id = None, r_semantic_record_event_id = None, r_commit_id = []\<rparr>
       (fmdom' post) written protected vs_before vs_after"

text \<open>The archived state is thawed as a whole, so every value of it must thaw.\<close>

definition rollback :: "(json \<Rightarrow> string) \<Rightarrow> engine \<Rightarrow> string \<Rightarrow> repair_receipt res \<times> engine" where
  "rollback dg e cid =
     (let checks = rollback_checks dg e cid in
      case fmlookup (archives e) cid of
        None \<Rightarrow> (Inr (rollback_receipt dg cid checks False None None (state e) (state e) {} {}
                   (versions e) (versions e)), e)
      | Some a \<Rightarrow>
        (if \<not> list_all passed checks
         then (Inr (rollback_receipt dg cid checks False None None (state e) (state e) {} {}
                (versions e) (versions e)), e)
         else let restored = a_pre_state a in
           if \<not> thawable (FzMap (items_of restored)) then (Inl TypeError, e) else
           (case rbind (measure_with_trace e (state e) (a_collar a)) (\<lambda>(before, _).
                 rbind (measure_with_trace e restored (a_collar a)) (\<lambda>(after, _).
                 Inr (before, after))) of
              Inl err \<Rightarrow> (Inl err, e)
            | Inr (before, after) \<Rightarrow>
                (let changed = changed_registers dg (state e) restored;
                     e1 = e\<lparr>state := restored, versions := bump changed (versions e)\<rparr>
                 in if \<not> changed \<subseteq> fmdom' (versions e) then (Inl KeyError, e1)
                    else (Inr (rollback_receipt dg cid checks True (Some before) (Some after)
                            (state e) restored changed (protected_boundary (a_collar a))
                            (versions e) (versions e1)), e1)))))"

end
