(* ===== verification/Repair_Safety.thy ===== *)
theory Repair_Safety
  imports Repair_Commit
begin

text \<open>
  What an admissible component means, and the safety of the engine's operations: a rejected
  component changes nothing, a committed one writes only where it declared, versions grow with
  every change, and the receipts of a commit agree with what was evaluated.
\<close>

section \<open>Reading the checks of an evaluation\<close>

lemma passed_check [simp]: "passed (check n ok g b) = ok"
  by (simp add: check_def)

lemma name_check [simp]: "name (check n ok g b) = n"
  by (simp add: check_def)

lemma passed_lines_check [simp]: "passed (lines_check n bad g) \<longleftrightarrow> bad = []"
  by (simp add: lines_check_def)

lemma name_lines_check [simp]: "name (lines_check n bad g) = n"
  by (simp add: lines_check_def)

lemma with_atomic_all: "list_all passed (with_atomic_check cs) \<longleftrightarrow> list_all passed cs"
  by (auto simp: with_atomic_check_def)

text \<open>The union collar of a component, and what lets its evaluation get past the proposals.\<close>

definition joint_collar :: "(json \<Rightarrow> string) \<Rightarrow> repair_proposal list \<Rightarrow> repair_collar" where
  "joint_collar dg ps = (union_sets dg ps)\<lparr>forbidden_target_fields :=
     normalize_field ` forbidden_target_fields (union_sets dg ps)\<rparr>"

lemma union_collar_eq: "union_collar dg ps = Inr c \<Longrightarrow> c = joint_collar dg ps"
  by (simp add: union_collar_def mk_collar_def joint_collar_def split: if_splits)

lemma joint_collar_sel [simp]:
  "visible_read_set (joint_collar dg ps) = union_of (\<lambda>p. visible_read_set (collar p)) ps"
  "writable_registers (joint_collar dg ps) = union_of (\<lambda>p. writable_registers (collar p)) ps"
  "protected_boundary (joint_collar dg ps) = union_of (\<lambda>p. protected_boundary (collar p)) ps"
  "sector_registers (joint_collar dg ps) = union_of (\<lambda>p. sector_registers (collar p)) ps"
  "record_registers (joint_collar dg ps) = union_of (\<lambda>p. record_registers (collar p)) ps"
  "checkpoint_registers (joint_collar dg ps) = union_of (\<lambda>p. checkpoint_registers (collar p)) ps"
  by (simp_all add: joint_collar_def union_sets_def)

definition ready :: "(json \<Rightarrow> string) \<Rightarrow> repair_proposal list \<Rightarrow> bool" where
  "ready dg ps \<longleftrightarrow> union_collar dg ps = Inr (joint_collar dg ps) \<and>
     list_all (\<lambda>p. updates_thaw (updates p)) ps"

lemma evaluate_componentE:
  assumes "evaluate_component dg e component = Inr ev"
  obtains ps c post k where "ps = sort_key proposal_id component" "c = joint_collar dg ps"
    "post = component_post_state dg (state e) ps" "ps \<noteq> []" "ready dg ps"
    "evaluate_contract dg e ps c post = Inr k"
    "post_state ev = post" "ev_collar ev = c" "protected_set ev = protected_boundary c"
    "read_set ev = union_of declared_read_set ps" "ev_write_set ev = union_of write_set ps"
    "v_checks (validation ev) = with_atomic_check (proposal_checks dg e ps @ graph_checks ps
       @ state_checks dg (state e) post ps c (transition_kind (hd ps)) @ contract_checks dg ps k)"
    "v_mismatch_before (validation ev) = before_ledger k"
    "v_mismatch_after (validation ev) = after_ledger k"
    "v_pre_state_hash (validation ev) = state_hash dg (state e)"
    "ev_proposal_footprints ev = component_footprints ps"
    "ev_conflict_edges ev = expected_conflict_edges (component_footprints ps)"
    "ev_score_observed_reads ev = sorted_list_of_set (score_reads k)"
    "ev_score_snapshot_reads ev =
       sorted_list_of_set (union_of (\<lambda>p. snapshot_read_set (snapshot p)) ps)"
proof -
  let ?ps = "sort_key proposal_id component"
  obtain c where c: "union_collar dg ?ps = Inr c"
    using assms by (auto simp: evaluate_component_def Let_def split: if_splits elim!: rbind_eq_InrE)
  note j = union_collar_eq [OF c]
  obtain k where k: "evaluate_contract dg e ?ps c (component_post_state dg (state e) ?ps) = Inr k"
    using assms c by (auto simp: evaluate_component_def Let_def split: if_splits elim!: rbind_eq_InrE)
  show thesis
    by (rule that [of ?ps c "component_post_state dg (state e) ?ps" k])
      (use assms c k in \<open>auto simp: evaluate_component_def Let_def ready_def j split: if_splits\<close>)
qed

lemma complete_details_Nil: "complete_details p = [] \<longleftrightarrow>
    required_reads_of p \<subseteq> declared_read_set p \<and> observed_read_set p \<subseteq> declared_read_set p \<and>
    snapshot_read_set (snapshot p) = declared_read_set p"
  by (auto simp: complete_details_def Let_def)

lemma fresh_details_Nil: "fresh_details dg e p = [] \<longleftrightarrow> (\<forall>item \<in> set (snapshot p).
    \<exists>z. fmlookup (state e) (ref item) = Some z \<and> same_value dg z (frozen_value item) \<and>
        fmlookup (versions e) (ref item) = Some (version item))"
  by (fastforce simp: fresh_details_def split: option.splits if_splits)

lemma local_details_Nil: "local_details p = [] \<longleftrightarrow> write_set p \<subseteq> writable_registers (collar p)"
  by (auto simp: local_details_def Let_def)

definition admissible_component :: "(json \<Rightarrow> string) \<Rightarrow> engine \<Rightarrow> repair_proposal list \<Rightarrow>
    contract_result \<Rightarrow> bool" where
  "admissible_component dg e ps k \<longleftrightarrow>
     distinct (map proposal_id ps) \<and>
     (\<forall>p \<in> set ps. complete_details p = [] \<and> fresh_details dg e p = [] \<and> local_details p = [] \<and>
        target_details p = []) \<and>
     footprint_conflict_receipt (component_footprints ps)
       (expected_conflict_edges (component_footprints ps)) \<and>
     length (uniq (map transition_kind ps)) = 1 \<and>
     snd (combine_updates dg (concat (map updates ps))) = [] \<and>
     changed_registers dg (state e) (component_post_state dg (state e) ps) \<subseteq> union_of write_set ps \<and>
     preserved_on dg (state e) (component_post_state dg (state e) ps)
       (protected_boundary (joint_collar dg ps) -
        (if transition_kind (hd ps) = RECORD_COMMIT then record_registers (joint_collar dg ps) else {})) \<and>
     preserved_on dg (state e) (component_post_state dg (state e) ps)
       (sector_registers (joint_collar dg ps)) \<and>
     score_reads k \<subseteq> union_of declared_read_set ps \<and>
     score_reads k \<subseteq> union_of (\<lambda>p. snapshot_read_set (snapshot p)) ps \<and>
     transition_ok k"

lemma admissible_checks:
  "list_all passed (with_atomic_check (proposal_checks dg e ps @ graph_checks ps
     @ state_checks dg (state e) (component_post_state dg (state e) ps) ps (joint_collar dg ps)
         (transition_kind (hd ps)) @ contract_checks dg ps k))
   \<longleftrightarrow> admissible_component dg e ps k"
  unfolding with_atomic_all admissible_component_def
  by (auto simp: proposal_checks_def graph_checks_def state_checks_def contract_checks_def Let_def)

lemma admissible_evaluationE:
  assumes "evaluate_component dg e component = Inr ev" "admissible (validation ev)"
  obtains ps k where "ps = sort_key proposal_id component" "ps \<noteq> []"
    "evaluate_contract dg e ps (joint_collar dg ps) (component_post_state dg (state e) ps) = Inr k"
    "post_state ev = component_post_state dg (state e) ps" "ev_collar ev = joint_collar dg ps"
    "admissible_component dg e ps k"
  using assms by (elim evaluate_componentE) (simp add: admissible_def admissible_checks)

section \<open>The aggregate update\<close>

lemma combine_fold_dom:
  "fmdom' (fst (fold (combine_step dg) us acc)) = fmdom' (fst acc) \<union> set (map fst us)"
proof (induction us arbitrary: acc)
  case (Cons u us)
  have "fmdom' (fst (combine_step dg u acc)) = insert (fst u) (fmdom' (fst acc))"
    by (auto simp: combine_step_def fmlookup_dom'_iff split: option.splits)
  then show ?case by (simp add: Cons.IH)
qed simp

lemma combine_dom: "fmdom' (fst (combine_updates dg us)) = set (map fst us)"
  by (simp add: combine_updates_def combine_fold_dom)

lemma updates_written: "set (map fst (concat (map updates ps))) = union_of write_set ps"
  by (auto simp: union_of_def write_set_def)

lemma component_post_cases:
  obtains comb where "fmdom' comb = union_of write_set ps" "component_post_state dg st ps = st ++\<^sub>f comb"
    "comb = fst (combine_updates dg (concat (map updates ps)))"
    "snd (combine_updates dg (concat (map updates ps))) = []"
  | "component_post_state dg st ps = st" "snd (combine_updates dg (concat (map updates ps))) \<noteq> []"
proof (cases "snd (combine_updates dg (concat (map updates ps))) = []")
  case True
  then have "component_post_state dg st ps = st ++\<^sub>f fst (combine_updates dg (concat (map updates ps)))"
    by (simp add: component_post_state_def case_prod_beta)
  with True show thesis
    using that(1) combine_dom [of dg "concat (map updates ps)"] updates_written by metis
next
  case False
  then show thesis using that(2) by (simp add: component_post_state_def case_prod_beta)
qed

lemma component_post_outside:
  assumes "r \<notin> union_of write_set ps"
  shows "fmlookup (component_post_state dg st ps) r = fmlookup st r"
proof (cases rule: component_post_cases [of ps dg st])
  case (1 comb)
  with assms show ?thesis by (metis fmlookup_fmadd_outside)
next
  case 2
  then show ?thesis by simp
qed

lemma component_post_dom:
  assumes "union_of write_set ps \<subseteq> fmdom' st"
  shows "fmdom' (component_post_state dg st ps) = fmdom' st"
proof (cases rule: component_post_cases [of ps dg st])
  case (1 comb)
  with assms show ?thesis by (auto simp: fmdom'_alt_def)
next
  case 2
  then show ?thesis by simp
qed

section \<open>Changed registers and versions\<close>

lemma changed_registers_iff: "r \<in> changed_registers dg s t \<longleftrightarrow>
    (r \<in> fmdom' s \<union> fmdom' t) \<and> \<not> (\<exists>x y. fmlookup s r = Some x \<and> fmlookup t r = Some y \<and> same_value dg x y)"
  by (auto simp: changed_registers_def split: option.splits)

lemma same_value_refl [simp]: "same_value dg x x"
  by (simp add: same_value_def)

lemma same_value_sym: "same_value dg x y \<longleftrightarrow> same_value dg y x"
  by (auto simp: same_value_def)

lemma changed_registers_sym: "changed_registers dg s t = changed_registers dg t s"
  by (rule set_eqI) (auto simp: changed_registers_iff same_value_sym)

lemma changed_registers_sub: "changed_registers dg s t \<subseteq> fmdom' s \<union> fmdom' t"
  by (auto simp: changed_registers_iff)

lemma fmlookup_bump: "fmlookup (bump C vs) r =
    map_option (\<lambda>v. if r \<in> C then v + 1 else v) (fmlookup vs r)"
  by (simp add: bump_def)

lemma fmdom'_bump [simp]: "fmdom' (bump C vs) = fmdom' vs"
  by (auto simp: fmlookup_dom'_iff fmlookup_bump)

section \<open>The engine invariant\<close>

definition wf_engine :: "engine \<Rightarrow> bool" where
  "wf_engine e \<longleftrightarrow> fmdom' (versions e) = fmdom' (state e) \<and> [] \<notin> fmdom' (state e) \<and>
     fmdom' (state e) \<noteq> {} \<and> fmpred (\<lambda>_ v. 0 \<le> v) (versions e) \<and>
     fmpred (\<lambda>_ a. fmdom' (a_pre_state a) = fmdom' (state e)) (archives e)"

lemma writes_in_state:
  assumes "admissible_component dg e ps k"
  shows "union_of write_set ps \<subseteq> fmdom' (state e)"
proof
  fix r assume "r \<in> union_of write_set ps"
  then obtain p where p: "p \<in> set ps" "r \<in> write_set p" by (auto simp: union_of_def)
  then have c: "complete_details p = []" and f: "fresh_details dg e p = []"
    using assms by (auto simp: admissible_component_def)
  from c p(2) have "r \<in> snapshot_read_set (snapshot p)"
    by (auto simp: complete_details_Nil required_reads_of_def)
  then obtain item where "item \<in> set (snapshot p)" "ref item = r"
    by (auto simp: snapshot_read_set_def)
  with f show "r \<in> fmdom' (state e)" by (fastforce simp: fresh_details_Nil fmlookup_dom'_iff)
qed

lemma admissible_post_dom:
  assumes "admissible_component dg e ps k"
  shows "fmdom' (component_post_state dg (state e) ps) = fmdom' (state e)"
  using component_post_dom writes_in_state [OF assms] by blast

lemma sort_key_idem: "sort_key f (sort_key f xs) = sort_key f xs"
  by (simp add: sort_key_id_if_sorted)

text \<open>The three outcomes of a component commit.\<close>

lemma r_make_receipt [simp]:
  "r_committed (make_receipt dg r a b c d f) = r_committed r"
  "r_checks (make_receipt dg r a b c d f) = r_checks r"
  "r_proposal_ids (make_receipt dg r a b c d f) = r_proposal_ids r"
  "r_transition_kind (make_receipt dg r a b c d f) = r_transition_kind r"
  "r_proposal_classes (make_receipt dg r a b c d f) = r_proposal_classes r"
  "r_mismatch_before (make_receipt dg r a b c d f) = r_mismatch_before r"
  "r_mismatch_after (make_receipt dg r a b c d f) = r_mismatch_after r"
  "r_pre_state_hash (make_receipt dg r a b c d f) = r_pre_state_hash r"
  "r_post_state_hash (make_receipt dg r a b c d f) = r_post_state_hash r"
  "r_proposal_footprints (make_receipt dg r a b c d f) = r_proposal_footprints r"
  "r_score_observed_reads (make_receipt dg r a b c d f) = r_score_observed_reads r"
  "r_score_snapshot_reads (make_receipt dg r a b c d f) = r_score_snapshot_reads r"
  "r_conflict_edges (make_receipt dg r a b c d f) = r_conflict_edges r"
  "r_transition_event_id (make_receipt dg r a b c d f) = r_transition_event_id r"
  "r_semantic_record_event_id (make_receipt dg r a b c d f) = r_semantic_record_event_id r"
  "r_conflict_support_hash (make_receipt dg r a b c d f) =
     dg (conflict_support_payload (r_proposal_footprints r) (r_score_observed_reads r)
          (r_score_snapshot_reads r) (r_conflict_edges r))"
  by (simp_all add: make_receipt_def Let_def)

lemma r_commit_receipt [simp]:
  "r_committed (commit_receipt dg ev ps b st v1 v2) = b"
  "r_checks (commit_receipt dg ev ps b st v1 v2) = v_checks (validation ev)"
  "r_proposal_ids (commit_receipt dg ev ps b st v1 v2) = v_proposal_ids (validation ev)"
  "r_transition_kind (commit_receipt dg ev ps b st v1 v2) = transition_kind (hd ps)"
  "r_proposal_classes (commit_receipt dg ev ps b st v1 v2) = sorted_classes ps"
  "r_mismatch_before (commit_receipt dg ev ps b st v1 v2) = v_mismatch_before (validation ev)"
  "r_mismatch_after (commit_receipt dg ev ps b st v1 v2) = v_mismatch_after (validation ev)"
  "r_pre_state_hash (commit_receipt dg ev ps b st v1 v2) = v_pre_state_hash (validation ev)"
  "r_post_state_hash (commit_receipt dg ev ps b st v1 v2) = state_hash dg st"
  "r_proposal_footprints (commit_receipt dg ev ps b st v1 v2) = ev_proposal_footprints ev"
  "r_score_observed_reads (commit_receipt dg ev ps b st v1 v2) = ev_score_observed_reads ev"
  "r_score_snapshot_reads (commit_receipt dg ev ps b st v1 v2) = ev_score_snapshot_reads ev"
  "r_conflict_edges (commit_receipt dg ev ps b st v1 v2) = ev_conflict_edges ev"
  "r_conflict_support_hash (commit_receipt dg ev ps b st v1 v2) =
     dg (conflict_support_payload (ev_proposal_footprints ev) (ev_score_observed_reads ev)
          (ev_score_snapshot_reads ev) (ev_conflict_edges ev))"
  by (simp_all add: commit_receipt_def Let_def)

lemma commit_component_cases:
  assumes "wf_engine e" "commit_component dg e component = (out, e')"
  obtains (exception) err where "out = Inl err" "e' = e"
      "evaluate_component dg e (sort_key proposal_id component) = Inl err"
  | (rejected) ev where "evaluate_component dg e (sort_key proposal_id component) = Inr ev"
      "\<not> admissible (validation ev)" "e' = e"
      "out = Inr (commit_receipt dg ev (sort_key proposal_id component) False (state e)
                    (versions e) (versions e))"
  | (committed) ev ps k C r where "ps = sort_key proposal_id component"
      "evaluate_component dg e ps = Inr ev" "admissible (validation ev)" "ps \<noteq> []"
      "admissible_component dg e ps k"
      "evaluate_contract dg e ps (joint_collar dg ps) (component_post_state dg (state e) ps) = Inr k"
      "C = changed_registers dg (state e) (component_post_state dg (state e) ps)"
      "r = commit_receipt dg ev ps True (component_post_state dg (state e) ps) (versions e)
             (bump C (versions e))"
      "out = Inr r"
      "e' = e\<lparr>state := component_post_state dg (state e) ps, versions := bump C (versions e),
              archives := fmupd (r_commit_id r)
                \<lparr>a_pre_state = state e, a_post_state_hash = r_post_state_hash r, a_receipt = r,
                 a_collar = joint_collar dg ps\<rparr> (archives e)\<rparr>"
proof (cases "evaluate_component dg e (sort_key proposal_id component)")
  case (Inl err)
  with assms(2) show thesis by (intro exception [of err]) (auto simp: commit_component_def Let_def)
next
  case (Inr ev)
  show thesis
  proof (cases "admissible (validation ev)")
    case False
    with Inr assms(2) show thesis by (intro rejected [of ev]) (auto simp: commit_component_def Let_def)
  next
    case True
    obtain ps k where pk: "ps = sort_key proposal_id (sort_key proposal_id component)" "ps \<noteq> []"
      "evaluate_contract dg e ps (joint_collar dg ps) (component_post_state dg (state e) ps) = Inr k"
      "post_state ev = component_post_state dg (state e) ps" "ev_collar ev = joint_collar dg ps"
      "admissible_component dg e ps k"
      using Inr True by (elim admissible_evaluationE) blast
    have ps: "ps = sort_key proposal_id component" using pk(1) by (simp add: sort_key_idem)
    let ?C = "changed_registers dg (state e) (component_post_state dg (state e) ps)"
    have "?C \<subseteq> fmdom' (versions e)"
      using assms(1) changed_registers_sub [of dg "state e" "component_post_state dg (state e) ps"]
      by (simp add: wf_engine_def admissible_post_dom [OF pk(6)])
    then have "commit_component dg e component =
       (let r = commit_receipt dg ev ps True (component_post_state dg (state e) ps) (versions e)
                  (bump ?C (versions e))
        in (Inr r, e\<lparr>state := component_post_state dg (state e) ps, versions := bump ?C (versions e),
              archives := fmupd (r_commit_id r)
                \<lparr>a_pre_state = state e, a_post_state_hash = r_post_state_hash r, a_receipt = r,
                 a_collar = joint_collar dg ps\<rparr> (archives e)\<rparr>))"
      using Inr True by (simp add: commit_component_def Let_def ps [symmetric] pk(4,5))
    then show thesis
      using assms(2) Inr True pk(2,3,6) ps
      by (intro committed [of ps ev k ?C, OF _ _ _ _ _ _ refl refl]) (simp_all add: Let_def)
  qed
qed
end
