(* ===== verification/Repair_Run.thy ===== *)
theory Repair_Run
  imports Repair_Safety
begin

text \<open>
  Runs of the engine: every public operation (\<open>commit\<close>, \<open>commit_batch\<close>, \<open>rollback\<close>) as a
  step, the invariant of the engine, and the order \<open>advances\<close> that every run respects: the
  registers and the evaluator stay, versions grow, and a version that did not grow pins the
  value of its register.
\<close>

section \<open>Preservation of the invariant\<close>

lemma bump_nonneg: "fmpred (\<lambda>_ v. 0 \<le> v) vs \<Longrightarrow> fmpred (\<lambda>_ v. 0 \<le> (v::int)) (bump C vs)"
  by (force simp: fmpred_iff fmlookup_bump)

lemma wf_engine_update:
  assumes "wf_engine e" "fmdom' s = fmdom' (state e)"
  shows "wf_engine (e\<lparr>state := s, versions := bump C (versions e)\<rparr>)"
  using assms by (simp add: wf_engine_def bump_nonneg)

lemma wf_engine_archive:
  assumes "wf_engine e" "fmdom' (a_pre_state a) = fmdom' (state e)"
  shows "wf_engine (e\<lparr>archives := fmupd cid a (archives e)\<rparr>)"
  using assms by (auto simp: wf_engine_def fmpred_iff)

definition advances :: "(json \<Rightarrow> string) \<Rightarrow> engine \<Rightarrow> engine \<Rightarrow> bool" where
  "advances dg e e' \<longleftrightarrow> fmdom' (state e') = fmdom' (state e) \<and>
     mismatch_evaluator e' = mismatch_evaluator e \<and>
     (\<forall>r v. fmlookup (versions e) r = Some v \<longrightarrow> (\<exists>w. fmlookup (versions e') r = Some w \<and> v \<le> w \<and>
        (w = v \<longrightarrow> (\<exists>x y. fmlookup (state e) r = Some x \<and> fmlookup (state e') r = Some y \<and>
                      same_value dg x y))))"

lemma advances_refl: "wf_engine e \<Longrightarrow> advances dg e e"
  by (auto simp: advances_def wf_engine_def fmlookup_dom'_iff set_eq_iff)

lemma same_value_trans: "same_value dg x y \<Longrightarrow> same_value dg y z \<Longrightarrow> same_value dg x z"
  by (simp add: same_value_def)

lemma advances_trans:
  assumes "advances dg e f" "advances dg f g"
  shows "advances dg e g"
  unfolding advances_def
proof (intro conjI allI impI)
  show "fmdom' (state g) = fmdom' (state e)" "mismatch_evaluator g = mismatch_evaluator e"
    using assms by (auto simp: advances_def)
  fix r v assume "fmlookup (versions e) r = Some v"
  then obtain w where w: "fmlookup (versions f) r = Some w" "v \<le> w"
    "w = v \<longrightarrow> (\<exists>x y. fmlookup (state e) r = Some x \<and> fmlookup (state f) r = Some y \<and> same_value dg x y)"
    using assms(1) unfolding advances_def by blast
  then obtain u where u: "fmlookup (versions g) r = Some u" "w \<le> u"
    "u = w \<longrightarrow> (\<exists>x y. fmlookup (state f) r = Some x \<and> fmlookup (state g) r = Some y \<and> same_value dg x y)"
    using assms(2) unfolding advances_def by blast
  show "\<exists>u. fmlookup (versions g) r = Some u \<and> v \<le> u \<and>
      (u = v \<longrightarrow> (\<exists>x y. fmlookup (state e) r = Some x \<and> fmlookup (state g) r = Some y \<and> same_value dg x y))"
  proof (rule exI [of _ u], intro conjI impI)
    show "fmlookup (versions g) r = Some u" "v \<le> u" using u w by auto
    assume "u = v"
    then have "w = v" "u = w" using u(2) w(2) by auto
    then obtain x y y' z where "fmlookup (state e) r = Some x" "fmlookup (state f) r = Some y"
      "same_value dg x y" "fmlookup (state f) r = Some y'" "fmlookup (state g) r = Some z"
      "same_value dg y' z" using u(3) w(3) by blast
    then show "\<exists>x y. fmlookup (state e) r = Some x \<and> fmlookup (state g) r = Some y \<and> same_value dg x y"
      by (auto intro: same_value_trans)
  qed
qed

lemma advances_update:
  assumes "wf_engine e" "fmdom' s = fmdom' (state e)" "C = changed_registers dg (state e) s"
  shows "advances dg e (e\<lparr>state := s, versions := bump C (versions e)\<rparr>)"
proof -
  have "\<exists>x y. fmlookup (state e) r = Some x \<and> fmlookup s r = Some y \<and> same_value dg x y"
    if "r \<notin> C" "r \<in> fmdom' (state e)" for r
    using that assms(2,3) by (auto simp: changed_registers_iff)
  moreover have "r \<in> fmdom' (state e)" if "fmlookup (versions e) r = Some v" for r v
    using that assms(1) by (metis wf_engine_def fmdom'I)
  ultimately show ?thesis
    using assms(2) by (auto simp: advances_def fmlookup_bump)
qed

lemma advances_archive: "advances dg e f \<Longrightarrow> advances dg e (f\<lparr>archives := A\<rparr>)"
  by (simp add: advances_def)

lemma commit_component_advances:
  assumes "wf_engine e" "commit_component dg e component = (out, e')"
  shows "wf_engine e' \<and> advances dg e e'"
  using assms
proof (cases rule: commit_component_cases)
  case (committed ev ps k C r)
  let ?e1 = "e\<lparr>state := component_post_state dg (state e) ps, versions := bump C (versions e)\<rparr>"
  have dom: "fmdom' (component_post_state dg (state e) ps) = fmdom' (state e)"
    by (rule admissible_post_dom [OF committed(5)])
  have e': "e' = ?e1\<lparr>archives := fmupd (r_commit_id r)
     \<lparr>a_pre_state = state e, a_post_state_hash = r_post_state_hash r, a_receipt = r,
      a_collar = joint_collar dg ps\<rparr> (archives ?e1)\<rparr>" using committed(10) by simp
  have "wf_engine e'" unfolding e' using assms(1) dom
    by (intro wf_engine_archive wf_engine_update) simp_all
  moreover have "advances dg e e'" unfolding e' using assms(1) dom committed(7)
    by (intro advances_archive advances_update)
  ultimately show ?thesis ..
qed (use assms advances_refl in auto)

lemma commit_components_advances:
  assumes "wf_engine e" "commit_components dg e cs = (out, e')"
  shows "wf_engine e' \<and> advances dg e e'"
  using assms
proof (induction cs arbitrary: e e' out)
  case (Cons c cs)
  obtain out1 e1 where 1: "commit_component dg e c = (out1, e1)" by fastforce
  then have e1: "wf_engine e1" "advances dg e e1" using commit_component_advances Cons.prems(1) by blast+
  show ?case
  proof (cases out1)
    case (Inl err)
    with Cons.prems 1 e1 show ?thesis by simp
  next
    case (Inr r)
    obtain out2 e2 where 2: "commit_components dg e1 cs = (out2, e2)" by fastforce
    with Cons.prems 1 Inr have "e' = e2" by (auto split: sum.splits)
    with Cons.IH [OF e1(1) 2] e1(2) show ?thesis by (metis advances_trans 2)
  qed
qed (simp add: advances_refl)

lemma commit_batch_advances:
  assumes "wf_engine e" "commit_batch dg e ps = (out, e')"
  shows "wf_engine e' \<and> advances dg e e'"
  using assms commit_components_advances
  by (auto simp: commit_batch_def advances_refl split: sum.splits)

lemma rollback_cases:
  assumes "wf_engine e" "rollback dg e cid = (out, e')"
  obtains (failed) err where "out = Inl err" "e' = e"
  | (rejected) r where "out = Inr r" "\<not> r_committed r" "e' = e"
  | (restored) a r where "out = Inr r" "r_committed r" "fmlookup (archives e) cid = Some a"
      "state_hash dg (state e) = a_post_state_hash a"
      "e' = e\<lparr>state := a_pre_state a,
              versions := bump (changed_registers dg (state e) (a_pre_state a)) (versions e)\<rparr>"
proof (cases "fmlookup (archives e) cid")
  case None
  with assms(2) show thesis
    by (intro rejected) (auto simp: rollback_def rollback_receipt_def Let_def)
next
  case (Some a)
  have "fmdom' (a_pre_state a) = fmdom' (state e)"
    using assms(1) Some by (auto simp: wf_engine_def dest: fmpredD)
  then have sub: "changed_registers dg (state e) (a_pre_state a) \<subseteq> fmdom' (versions e)"
    using assms(1) changed_registers_sub [of dg "state e" "a_pre_state a"] by (simp add: wf_engine_def)
  show thesis
  proof (cases "list_all passed (rollback_checks dg e cid)")
    case False
    with Some assms(2) show thesis
      by (intro rejected) (auto simp: rollback_def rollback_receipt_def Let_def)
  next
    case True
    then have "state_hash dg (state e) = a_post_state_hash a"
      using Some by (simp add: rollback_checks_def Let_def)
    then show thesis
      using Some True sub assms(2)
      by (auto simp: rollback_def rollback_receipt_def Let_def
          split: if_splits sum.splits prod.splits intro: failed restored)
  qed
qed

lemma rollback_advances:
  assumes "wf_engine e" "rollback dg e cid = (out, e')"
  shows "wf_engine e' \<and> advances dg e e'"
  using assms
proof (cases rule: rollback_cases)
  case (restored a r)
  then have "fmdom' (a_pre_state a) = fmdom' (state e)"
    using assms(1) by (auto simp: wf_engine_def dest: fmpredD)
  with restored assms(1) show ?thesis
    by (simp add: wf_engine_update advances_update)
qed (use assms advances_refl in auto)

section \<open>Operations as steps\<close>

inductive engine_step :: "(json \<Rightarrow> string) \<Rightarrow> engine \<Rightarrow> engine \<Rightarrow> bool" for dg where
  step_commit: "commit dg e p = (out, e') \<Longrightarrow> engine_step dg e e'"
| step_batch: "commit_batch dg e ps = (out, e') \<Longrightarrow> engine_step dg e e'"
| step_rollback: "rollback dg e cid = (out, e') \<Longrightarrow> engine_step dg e e'"

inductive engine_run :: "(json \<Rightarrow> string) \<Rightarrow> engine \<Rightarrow> engine \<Rightarrow> bool" for dg where
  run_refl: "engine_run dg e e"
| run_step: "engine_run dg e f \<Longrightarrow> engine_step dg f g \<Longrightarrow> engine_run dg e g"

lemma engine_step_advances:
  assumes "engine_step dg e e'" "wf_engine e"
  shows "wf_engine e' \<and> advances dg e e'"
  using assms
proof cases
  case (step_commit p out)
  then show ?thesis using assms(2) commit_component_advances by (simp add: commit_def)
next
  case (step_batch ps out)
  then show ?thesis using assms(2) commit_batch_advances by simp
next
  case (step_rollback cid out)
  then show ?thesis using assms(2) rollback_advances by simp
qed

lemma engine_run_advances:
  assumes "engine_run dg e e'" "wf_engine e"
  shows "wf_engine e' \<and> advances dg e e'"
  using assms
proof induction
  case (run_refl e)
  then show ?case by (simp add: advances_refl)
next
  case (run_step e f g)
  then show ?case using engine_step_advances advances_trans by blast
qed

lemma engine_run_trans:
  assumes "engine_run dg f g" "engine_run dg e f"
  shows "engine_run dg e g"
  using assms by induction (auto intro: run_step)
lemma freeze_regs_dom:
  assumes "freeze_regs dg m = Inr st"
  shows "fmdom' st = fmdom' m"
proof -
  obtain kvs where k: "rmap (\<lambda>r. rbind (freeze dg (the (fmlookup m r))) (\<lambda>z. Inr (r, z)))
     (sorted_list_of_fset (fmdom m)) = Inr kvs" and st: "st = fmap_of_list kvs"
    using assms by (auto simp: freeze_regs_def elim!: rbind_eq_InrE)
  have "map fst kvs = sorted_list_of_fset (fmdom m)"
  proof (rule nth_equalityI)
    fix i assume "i < length (map fst kvs)"
    then have "i < length (sorted_list_of_fset (fmdom m))" by (simp add: rmap_Inr_length [OF k])
    from rmap_Inr_nth [OF k this] show "map fst kvs ! i = sorted_list_of_fset (fmdom m) ! i"
      using \<open>i < length (map fst kvs)\<close> by (auto elim!: rbind_eq_InrE) (metis fst_conv)
  qed (simp add: rmap_Inr_length [OF k])
  then have "set (map fst kvs) = fmdom' m" by (simp add: fmdom'_alt_def)
  then show ?thesis by (simp add: st fmdom'_alt_def fset_of_list.rep_eq)
qed

lemma init_engine_wf:
  assumes "init_engine dg initial ev vs = Inr e"
  shows "wf_engine e"
proof -
  obtain st where st: "freeze_regs dg initial = Inr st" and ne: "[] \<notin> fmdom' initial" "fmdom' initial \<noteq> {}"
    using assms by (auto simp: init_engine_def split: if_splits elim!: rbind_eq_InrE)
  note dom = freeze_regs_dom [OF st]
  show ?thesis
  proof (cases vs)
    case None
    then have "e = \<lparr>state = st, versions = fmmap (\<lambda>_. 0) st, mismatch_evaluator = ev, archives = fmempty\<rparr>"
      using assms st ne by (simp add: init_engine_def)
    then show ?thesis using ne dom by (auto simp: wf_engine_def fmpred_iff fmdom'_alt_def)
  next
    case (Some v)
    then have "e = \<lparr>state = st, versions = v, mismatch_evaluator = ev, archives = fmempty\<rparr>"
      and v: "fmdom' v = fmdom' st" "\<forall>r \<in> fmdom' v. 0 \<le> the (fmlookup v r)"
      using assms st ne by (auto simp: init_engine_def not_less split: if_splits)
    then show ?thesis using ne dom
      by (auto simp: wf_engine_def fmpred_iff fmlookup_dom'_iff)
         (metis fmdom'I option.sel v(1) v(2))
  qed
qed

section \<open>Receipts of committed components\<close>

lemma check_valueI:
  assumes "distinct (map name cs)" "list_all passed cs" "n \<in> set (map name cs)"
  shows "check_value cs n"
proof -
  obtain c where c: "c \<in> set cs" "name c = n" using assms(3) by auto
  have "set (filter (\<lambda>c. name c = n) cs) = {c}"
    using c assms(1) by (auto simp: distinct_map dest: inj_onD)
  moreover have "distinct (filter (\<lambda>c. name c = n) cs)" using assms(1) by (simp add: distinct_map)
  ultimately have "filter (\<lambda>c. name c = n) cs = [c]" by (intro singleton_listI)
  then show ?thesis using c assms(2) by (simp add: check_value_def list_all_iff)
qed

lemma transaction_names:
  "map name (with_atomic_check (proposal_checks dg e ps @ graph_checks ps
     @ state_checks dg s post ps c kind @ contract_checks dg ps k)) = transaction_check_names"
  by (simp add: with_atomic_check_def proposal_checks_def graph_checks_def state_checks_def
      contract_checks_def transaction_check_names_def Let_def)

lemma transaction_names_distinct: "distinct transaction_check_names"
  by code_simp

lemma declared_finite: "complete_details p = [] \<Longrightarrow> finite (declared_read_set p)"
  by (metis complete_details_Nil snapshot_read_set_def List.finite_set)

lemma footprint_read_complete:
  assumes "complete_details p = []"
  shows "read_complete (footprint_of p)" "set (declared_reads (footprint_of p)) = declared_read_set p"
proof -
  have d: "required_reads_of p \<subseteq> declared_read_set p" "observed_read_set p \<subseteq> declared_read_set p"
    "snapshot_read_set (snapshot p) = declared_read_set p"
    using assms by (auto simp: complete_details_Nil)
  moreover note f = declared_finite [OF assms]
  moreover have "finite (required_reads_of p)" "finite (observed_read_set p)"
    using d f finite_subset by blast+
  ultimately show "read_complete (footprint_of p)"
    "set (declared_reads (footprint_of p)) = declared_read_set p"
    by (simp_all add: read_complete_def footprint_of_def)
qed

lemma committed_read_set:
  assumes "admissible_component dg e ps k"
  shows "list_all read_complete (component_footprints ps)"
    "set (concat (map declared_reads (component_footprints ps))) = union_of declared_read_set ps"
    "finite (union_of declared_read_set ps)"
proof -
  have c: "complete_details p = []" if "p \<in> set ps" for p
    using assms that by (auto simp: admissible_component_def)
  show "list_all read_complete (component_footprints ps)"
    using c by (auto simp: list_all_iff component_footprints_def footprint_read_complete)
  show "set (concat (map declared_reads (component_footprints ps))) = union_of declared_read_set ps"
    using c by (auto simp: component_footprints_def union_of_def footprint_read_complete)
  show "finite (union_of declared_read_set ps)"
    using c by (auto simp: union_of_def declared_finite)
qed

lemma footprints_empty: "component_footprints ps = [] \<longleftrightarrow> ps = []"
  by (metis component_footprints_def map_is_Nil_conv set_empty set_sort)

lemma snapshots_finite: "finite (union_of (\<lambda>p. snapshot_read_set (snapshot p)) ps)"
  by (simp add: union_of_def snapshot_read_set_def)

text \<open>The transition law of an admissible component.\<close>

lemma transition_ok_kind: "fst (transition_contract dg kind s t ps c C b a) \<longleftrightarrow> (case kind of
     STRICT_REPAIR \<Rightarrow> strict_repair_ok c C b a
   | REVERSIBLE_PROPAGATION \<Rightarrow> reversible_ok dg s t ps c C b a
   | GAUGE_STUTTER \<Rightarrow> reversible_ok dg s t ps c C b a
   | RECORD_COMMIT \<Rightarrow> record_commit_ok s t c C b a
   | _ \<Rightarrow> False)"
  by (cases kind) (simp_all add: transition_contract_def Let_def)

lemma admissible_contractE:
  assumes "admissible_component dg e ps k"
    "evaluate_contract dg e ps c (component_post_state dg (state e) ps) = Inr k"
  obtains b a rb ra where "before_ledger k = Some b" "after_ledger k = Some a"
    "measure_with_trace e (state e) c = Inr (b, rb)"
    "measure_with_trace e (component_post_state dg (state e) ps) c = Inr (a, ra)"
    "score_reads k = rb \<union> ra"
    "fst (transition_contract dg (transition_kind (hd ps)) (state e)
       (component_post_state dg (state e) ps) ps c
       (changed_registers dg (state e) (component_post_state dg (state e) ps)) b a)"
  using assms
  by (auto simp: evaluate_contract_def admissible_component_def Let_def case_prod_beta
      elim!: rbind_eq_InrE split: if_splits)

lemma commit_receipt_sound:
  assumes adm: "admissible_component dg e ps k" and ne: "ps \<noteq> []"
    and con: "evaluate_contract dg e ps (joint_collar dg ps) (component_post_state dg (state e) ps) = Inr k"
    and ev: "evaluate_component dg e ps = Inr ev" and srt: "sort_key proposal_id ps = ps"
  shows "all_checks_passed (commit_receipt dg ev ps b st v1 v2)"
    "complete_read_set_receipt (commit_receipt dg ev ps b st v1 v2)"
    "conflict_component_support_receipt dg (commit_receipt dg ev ps b st v1 v2)"
    "atomic_union_revalidation_receipt dg (commit_receipt dg ev ps b st v1 v2)"
proof -
  let ?r = "commit_receipt dg ev ps b st v1 v2"
  note E = evaluate_componentE [OF ev, unfolded srt]
  have k: "v_checks (validation ev) = with_atomic_check (proposal_checks dg e ps @ graph_checks ps
       @ state_checks dg (state e) (component_post_state dg (state e) ps) ps (joint_collar dg ps)
           (transition_kind (hd ps)) @ contract_checks dg ps k)"
    and led: "v_mismatch_before (validation ev) = before_ledger k"
      "v_mismatch_after (validation ev) = after_ledger k"
    and fps: "ev_proposal_footprints ev = component_footprints ps"
      "ev_conflict_edges ev = expected_conflict_edges (component_footprints ps)"
    and sc: "ev_score_observed_reads ev = sorted_list_of_set (score_reads k)"
      "ev_score_snapshot_reads ev =
       sorted_list_of_set (union_of (\<lambda>p. snapshot_read_set (snapshot p)) ps)"
    by - (rule E, use con in simp)+
  note names = transaction_names [of dg e ps "state e" "component_post_state dg (state e) ps"
      "joint_collar dg ps" "transition_kind (hd ps)" k, folded k]
  have pass: "list_all passed (v_checks (validation ev))"
    using adm unfolding k admissible_checks .
  have nonempty: "v_checks (validation ev) \<noteq> []" unfolding k by (simp add: with_atomic_check_def)
  show all: "all_checks_passed ?r"
    using pass nonempty by (simp add: all_checks_passed_def)
  have rd: "score_reads k \<subseteq> union_of declared_read_set ps"
    "score_reads k \<subseteq> union_of (\<lambda>p. snapshot_read_set (snapshot p)) ps"
    using adm by (auto simp: admissible_component_def)
  then have fin: "finite (score_reads k)" using snapshots_finite finite_subset by blast
  show read: "complete_read_set_receipt ?r"
    using committed_read_set [OF adm] rd fin ne snapshots_finite
    by (simp add: complete_read_set_receipt_def fps sc Let_def footprints_empty)
  show supp: "conflict_component_support_receipt dg ?r"
    using adm by (simp add: conflict_component_support_receipt_def fps admissible_component_def)
  have val: "check_value (v_checks (validation ev)) n" if "n \<in> set transaction_check_names" for n
    using that pass by (intro check_valueI) (simp_all add: names transaction_names_distinct)
  obtain bl al where l: "before_ledger k = Some bl" "after_ledger k = Some al"
    "fst (transition_contract dg (transition_kind (hd ps)) (state e)
       (component_post_state dg (state e) ps) ps (joint_collar dg ps)
       (changed_registers dg (state e) (component_post_state dg (state e) ps)) bl al)"
    using admissible_contractE [OF adm con] by metis
  have "transition_kind (hd ps) \<noteq> ROLLBACK" using l(3) by (auto simp: transition_ok_kind)
  then have "check_schema_complete (v_checks (validation ev)) (transition_kind (hd ps))"
    by (simp add: check_schema_complete_def names transaction_names_distinct)
  moreover have "strict_repair_descends_from al bl" if "transition_kind (hd ps) = STRICT_REPAIR"
    using l(3) that by (simp add: transition_ok_kind strict_repair_ok_def)
  ultimately show "atomic_union_revalidation_receipt dg ?r"
    using read supp val [of "''atomic_union_revalidated''"] val [of "''transition_contract''"] led l(1,2)
    by (simp add: atomic_union_revalidation_receipt_def transaction_check_names_def)
qed
end
