(* ===== verification/Repair_Locality.thy ===== *)
theory Repair_Locality
  imports Repair_Run
begin

text \<open>
  Locality of the verifier: an admissible strict repair or record commit depends on nothing but
  the registers its proposals declare (a tracked evaluator cannot observe a register it does
  not read), so components without a conflict commit independently and in any order.
\<close>

section \<open>Locality of reads\<close>

lemma names_of_dom: "fmdom' s = fmdom' t \<Longrightarrow> names_of s = names_of t"
  by (simp add: names_of_def fmdom'_alt_def fset_inject)

lemma run_tracked_agree:
  assumes "fmdom' s = fmdom' t" "\<And>r. r \<in> snd (run_tracked s m) \<Longrightarrow> fmlookup s r = fmlookup t r"
  shows "run_tracked t m = run_tracked s m"
  using assms
proof (induction m)
  case (Get r k)
  show ?case
  proof (cases "r = []")
    case True
    then show ?thesis using Get.IH [of "k (Inl TypeError)"] Get.prems by simp
  next
    case False
    then have g: "getitem t r = getitem s r" using Get.prems(2) [of r] by (simp add: getitem_def Let_def)
    have "run_tracked t (k (getitem s r)) = run_tracked s (k (getitem s r))"
      using Get.prems False by (intro Get.IH) (auto simp: Let_def)
    with False g show ?thesis by (simp add: Let_def)
  qed
next
  case (Names k)
  have n: "names_of t = names_of s" using names_of_dom Names.prems(1) by metis
  have "run_tracked t (k (names_of s)) = run_tracked s (k (names_of s))"
    using Names.prems by (intro Names.IH) (auto simp: Let_def)
  then show ?case using n Names.prems(1) by (simp add: Let_def)
next
  case (Count k)
  have n: "names_of t = names_of s" using names_of_dom Count.prems(1) by metis
  have "run_tracked t (k (length (names_of s))) = run_tracked s (k (length (names_of s)))"
    using Count.prems by (intro Count.IH) (auto simp: Let_def)
  then show ?case using n Count.prems(1) by (simp add: Let_def)
qed simp_all

definition agree_on :: "string set \<Rightarrow> engine \<Rightarrow> engine \<Rightarrow> bool" where
  "agree_on D e f \<longleftrightarrow> fmdom' (state e) = fmdom' (state f) \<and>
     mismatch_evaluator e = mismatch_evaluator f \<and>
     (\<forall>r \<in> D. fmlookup (state e) r = fmlookup (state f) r \<and>
              fmlookup (versions e) r = fmlookup (versions f) r)"

lemma agree_on_sym: "agree_on D e f \<Longrightarrow> agree_on D f e"
  by (simp add: agree_on_def)

lemma measure_agree:
  assumes "measure_with_trace e s c = Inr (L, rd)" "mismatch_evaluator f = mismatch_evaluator e"
    "fmdom' s = fmdom' t" "\<And>r. r \<in> rd \<Longrightarrow> fmlookup s r = fmlookup t r"
  shows "measure_with_trace f t c = Inr (L, rd)"
proof -
  have "snd (run_tracked s (mismatch_evaluator e c)) = rd"
    using assms(1) by (auto simp: measure_with_trace_def Let_def case_prod_beta
        elim!: rbind_eq_InrE split: option.splits)
  then have "run_tracked t (mismatch_evaluator e c) = run_tracked s (mismatch_evaluator e c)"
    using assms(3,4) by (intro run_tracked_agree) auto
  then show ?thesis using assms(1,2) by (simp add: measure_with_trace_def)
qed

text \<open>The aggregate update depends on the proposals alone, so the post-states stay in step.\<close>

lemma component_post_agree:
  assumes "\<And>r. r \<in> D \<Longrightarrow> fmlookup s r = fmlookup t r" "r \<in> D"
  shows "fmlookup (component_post_state dg s ps) r = fmlookup (component_post_state dg t ps) r"
  using assms by (simp add: component_post_state_def case_prod_beta fmdom'_alt_def)

lemma component_changed_agree:
  assumes "fmdom' s = fmdom' t" "\<And>r. r \<in> D \<Longrightarrow> fmlookup s r = fmlookup t r"
    "union_of write_set ps \<subseteq> D"
  shows "changed_registers dg s (component_post_state dg s ps) =
    changed_registers dg t (component_post_state dg t ps)"
proof (rule set_eqI)
  fix r
  show "r \<in> changed_registers dg s (component_post_state dg s ps) \<longleftrightarrow>
    r \<in> changed_registers dg t (component_post_state dg t ps)"
  proof (cases "r \<in> D")
    case True
    then have "fmlookup s r = fmlookup t r"
      "fmlookup (component_post_state dg s ps) r = fmlookup (component_post_state dg t ps) r"
      using assms(2) component_post_agree [of D s t] by blast+
    then show ?thesis by (simp add: changed_registers_iff fmlookup_dom'_iff)
  next
    case False
    then have "r \<notin> union_of write_set ps" using assms(3) by blast
    then show ?thesis
      by (auto simp: changed_registers_iff component_post_outside fmlookup_dom'_iff)
  qed
qed

lemma preserved_on_agree:
  assumes "\<And>r. r \<in> R \<Longrightarrow> fmlookup s r = fmlookup t r \<and> fmlookup s' r = fmlookup t' r"
  shows "preserved_on dg s s' R = preserved_on dg t t' R"
  using assms by (simp add: preserved_on_def)

definition local_kind :: "transition_kind_t \<Rightarrow> bool" where
  "local_kind kind \<longleftrightarrow> kind = STRICT_REPAIR \<or> kind = RECORD_COMMIT"

lemma union_of_upper: "p \<in> set ps \<Longrightarrow> f p \<subseteq> union_of f ps"
  by (auto simp: union_of_def)

lemma union_of_least: "(\<And>p. p \<in> set ps \<Longrightarrow> f p \<subseteq> X) \<Longrightarrow> union_of f ps \<subseteq> X"
  by (auto simp: union_of_def)

lemma declared_collar:
  assumes "admissible_component dg e ps k" "p \<in> set ps"
  shows "required_reads_of p \<subseteq> union_of declared_read_set ps"
proof -
  have "complete_details p = []" using assms by (simp add: admissible_component_def)
  then show ?thesis using union_of_upper [OF assms(2)] by (meson complete_details_Nil order_trans)
qed

lemma joint_collar_declared:
  assumes "admissible_component dg e ps k"
  shows "protected_boundary (joint_collar dg ps) \<subseteq> union_of declared_read_set ps"
    "sector_registers (joint_collar dg ps) \<subseteq> union_of declared_read_set ps"
    "record_registers (joint_collar dg ps) \<subseteq> union_of declared_read_set ps"
    "union_of write_set ps \<subseteq> union_of declared_read_set ps"
proof -
  have r: "protected_boundary (collar p) \<subseteq> union_of declared_read_set ps"
    "sector_registers (collar p) \<subseteq> union_of declared_read_set ps"
    "record_registers (collar p) \<subseteq> union_of declared_read_set ps"
    "write_set p \<subseteq> union_of declared_read_set ps" if "p \<in> set ps" for p
    using declared_collar [OF assms that] by (simp_all add: required_reads_of_def)
  show "protected_boundary (joint_collar dg ps) \<subseteq> union_of declared_read_set ps"
    "sector_registers (joint_collar dg ps) \<subseteq> union_of declared_read_set ps"
    "record_registers (joint_collar dg ps) \<subseteq> union_of declared_read_set ps"
    "union_of write_set ps \<subseteq> union_of declared_read_set ps"
    by (simp_all add: union_of_least r)
qed

lemma fresh_details_agree:
  assumes "agree_on D e f" "snapshot_read_set (snapshot p) \<subseteq> D"
  shows "fresh_details dg e p = [] \<longleftrightarrow> fresh_details dg f p = []"
proof -
  have "fmlookup (state e) (ref i) = fmlookup (state f) (ref i)"
    "fmlookup (versions e) (ref i) = fmlookup (versions f) (ref i)" if "i \<in> set (snapshot p)" for i
    using assms that by (auto simp: agree_on_def snapshot_read_set_def)
  then show ?thesis by (simp add: fresh_details_Nil)
qed

lemma record_commit_ok_agree:
  assumes "\<And>r. r \<in> record_registers c \<Longrightarrow> fmlookup s r = fmlookup t r \<and> fmlookup s' r = fmlookup t' r"
  shows "record_commit_ok s s' c C b a = record_commit_ok t t' c C b a"
  using assms unfolding record_commit_ok_def by (intro conj_cong ball_cong refl) auto

lemma evaluate_contract_agree:
  assumes ag: "agree_on (union_of declared_read_set ps) e f"
    and adm: "admissible_component dg e ps k" and kind: "local_kind (transition_kind (hd ps))"
    and con: "evaluate_contract dg e ps (joint_collar dg ps) (component_post_state dg (state e) ps) = Inr k"
  shows "evaluate_contract dg f ps (joint_collar dg ps) (component_post_state dg (state f) ps) = Inr k"
proof -
  let ?D = "union_of declared_read_set ps" and ?c = "joint_collar dg ps"
  let ?s = "component_post_state dg (state e) ps" and ?t = "component_post_state dg (state f) ps"
  note sub = joint_collar_declared [OF adm]
  have dom: "fmdom' (state e) = fmdom' (state f)" and look: "\<And>r. r \<in> ?D \<Longrightarrow>
      fmlookup (state e) r = fmlookup (state f) r" and me: "mismatch_evaluator f = mismatch_evaluator e"
    using ag by (auto simp: agree_on_def)
  note post = component_post_agree [OF look]
  have "union_of write_set ps \<subseteq> fmdom' (state e)" by (rule writes_in_state [OF adm])
  then have pdom: "fmdom' ?s = fmdom' ?t" using dom component_post_dom by metis
  have ch: "changed_registers dg (state e) ?s = changed_registers dg (state f) ?t"
    using dom look sub(4) by (rule component_changed_agree)
  obtain b a rb ra where k: "before_ledger k = Some b" "after_ledger k = Some a"
    "measure_with_trace e (state e) ?c = Inr (b, rb)" "measure_with_trace e ?s ?c = Inr (a, ra)"
    "score_reads k = rb \<union> ra" using admissible_contractE [OF adm con] by metis
  have rd: "rb \<subseteq> ?D" "ra \<subseteq> ?D" using adm k(5) by (auto simp: admissible_component_def)
  have m: "measure_with_trace f (state f) ?c = Inr (b, rb)" "measure_with_trace f ?t ?c = Inr (a, ra)"
    using rd look post by (auto intro!: measure_agree [OF k(3) me dom] measure_agree [OF k(4) me pdom])
  have rec: "record_commit_ok (state e) ?s ?c C b a = record_commit_ok (state f) ?t ?c C b a" for C
    using sub(3) look post by (intro record_commit_ok_agree) blast
  have nk: "transition_kind (hd ps) \<noteq> REVERSIBLE_PROPAGATION" "transition_kind (hd ps) \<noteq> GAUGE_STUTTER"
    using kind by (auto simp: local_kind_def)
  have "transition_contract dg (transition_kind (hd ps)) (state f) ?t ps ?c
      (changed_registers dg (state f) ?t) b a
    = transition_contract dg (transition_kind (hd ps)) (state e) ?s ps ?c
      (changed_registers dg (state e) ?s) b a"
    using kind ch rec by (auto simp: local_kind_def transition_contract_def)
  then show ?thesis
    using con k(3,4) m adm nk by (simp add: evaluate_contract_def admissible_component_def)
qed

lemma admissible_agree:
  assumes ag: "agree_on (union_of declared_read_set ps) e f"
    and adm: "admissible_component dg e ps k"
  shows "admissible_component dg f ps k"
proof -
  let ?D = "union_of declared_read_set ps" and ?c = "joint_collar dg ps"
  let ?s = "component_post_state dg (state e) ps" and ?t = "component_post_state dg (state f) ps"
  note sub = joint_collar_declared [OF adm]
  have dom: "fmdom' (state e) = fmdom' (state f)" and look: "\<And>r. r \<in> ?D \<Longrightarrow>
      fmlookup (state e) r = fmlookup (state f) r" using ag by (auto simp: agree_on_def)
  note post = component_post_agree [OF look]
  have ch: "changed_registers dg (state e) ?s = changed_registers dg (state f) ?t"
    using dom look sub(4) by (rule component_changed_agree)
  have pres: "preserved_on dg (state e) ?s R = preserved_on dg (state f) ?t R" if "R \<subseteq> ?D" for R
    using that look post by (intro preserved_on_agree) blast
  have pb: "protected_boundary ?c - X \<subseteq> ?D" for X using sub(1) by blast
  have fr: "fresh_details dg f p = []" if "p \<in> set ps" for p
  proof -
    have "snapshot_read_set (snapshot p) \<subseteq> ?D" "fresh_details dg e p = []"
      using adm that by (auto simp: admissible_component_def complete_details_Nil union_of_def)
    then show ?thesis using fresh_details_agree [OF ag] by blast
  qed
  show ?thesis
    using adm fr unfolding admissible_component_def ch pres [OF sub(2)] pres [OF pb] by simp
qed

lemma commit_agree:
  assumes wf: "wf_engine e" "wf_engine f" and com: "commit_component dg e c = (Inr r, e')" "r_committed r"
    and ps: "ps = sort_key proposal_id c" and kind: "local_kind (transition_kind (hd ps))"
    and ag: "agree_on (union_of declared_read_set ps) e f"
  shows "\<exists>r' f'. commit_component dg f c = (Inr r', f') \<and> r_committed r' \<and>
     state f' = component_post_state dg (state f) ps \<and>
     versions f' = bump (changed_registers dg (state e) (component_post_state dg (state e) ps)) (versions f)"
proof -
  from wf(1) com(1) obtain k where adm: "admissible_component dg e ps k"
    and con: "evaluate_contract dg e ps (joint_collar dg ps) (component_post_state dg (state e) ps) = Inr k"
    and ne: "ps \<noteq> []" and ev0: "\<exists>ev. evaluate_component dg e ps = Inr ev"
    by (cases rule: commit_component_cases) (use com(2) ps in auto)
  have ch: "changed_registers dg (state f) (component_post_state dg (state f) ps) =
    changed_registers dg (state e) (component_post_state dg (state e) ps)"
    using ag joint_collar_declared(4) [OF adm]
    by (intro component_changed_agree [symmetric]) (auto simp: agree_on_def)
  note adm' = admissible_agree [OF ag adm]
  note con' = evaluate_contract_agree [OF ag adm kind con]
  have srt: "sort_key proposal_id ps = ps" by (simp add: ps sort_key_idem)
  have ready: "ready dg ps" using ev0 by (metis evaluate_componentE srt)
  obtain ev where ev: "evaluate_component dg f ps = Inr ev"
    using con' ne ready by (auto simp: evaluate_component_def srt Let_def ready_def)
  have "v_checks (validation ev) = with_atomic_check (proposal_checks dg f ps @ graph_checks ps
       @ state_checks dg (state f) (component_post_state dg (state f) ps) ps (joint_collar dg ps)
           (transition_kind (hd ps)) @ contract_checks dg ps k)"
    by (rule evaluate_componentE [OF ev, unfolded srt]) (use con' in simp)
  then have good: "admissible (validation ev)"
    using adm' admissible_checks by (simp add: admissible_def with_atomic_check_def)
  obtain out f' where out: "commit_component dg f c = (out, f')" by fastforce
  from wf(2) out show ?thesis
    by (cases rule: commit_component_cases) (use ev good ps ch out in auto)
qed
section \<open>Independent components\<close>

definition independent :: "repair_proposal list \<Rightarrow> repair_proposal list \<Rightarrow> bool" where
  "independent ps qs \<longleftrightarrow> list_all (\<lambda>p. list_all (\<lambda>q. \<not> proposals_conflict p q) qs) ps"

lemma independent_sym: "independent ps qs \<Longrightarrow> independent qs ps"
  using proposals_conflict_sym by (fastforce simp: independent_def list_all_iff)

lemma independent_disjoint:
  assumes "independent ps qs"
  shows "union_of write_set ps \<inter> union_of declared_read_set qs = {}"
    "union_of write_set ps \<inter> union_of write_set qs = {}"
  using assms by (auto simp: independent_def list_all_iff proposals_conflict_def union_of_def)

lemma list_all_sort [simp]: "list_all P (sort_key f xs) = list_all P xs"
  by (simp add: list_all_iff)

lemma union_of_sort [simp]: "union_of f (sort_key g ps) = union_of f ps"
  by (simp add: union_of_def)

text \<open>What a committed component does to the engine.\<close>

lemma committedE:
  assumes "wf_engine e" "commit_component dg e c = (Inr r, e')" "r_committed r"
  obtains ps k C where "ps = sort_key proposal_id c" "admissible_component dg e ps k" "ps \<noteq> []"
    "evaluate_contract dg e ps (joint_collar dg ps) (component_post_state dg (state e) ps) = Inr k"
    "C = changed_registers dg (state e) (component_post_state dg (state e) ps)"
    "C \<subseteq> union_of write_set ps" "state e' = component_post_state dg (state e) ps"
    "versions e' = bump C (versions e)" "mismatch_evaluator e' = mismatch_evaluator e"
  using assms(1,2)
proof (cases rule: commit_component_cases)
  case (committed ev ps k C r')
  then show thesis by (intro that [of ps k C]) (auto simp: admissible_component_def)
qed (use assms(3) in auto)

lemma fmlookup_bump_outside: "r \<notin> C \<Longrightarrow> fmlookup (bump C vs) r = fmlookup vs r"
  by (cases "fmlookup vs r") (simp_all add: fmlookup_bump)

lemma committed_kind:
  assumes "wf_engine e" "commit_component dg e c = (Inr r, e')" "r_committed r"
  shows "\<exists>ps k C. ps = sort_key proposal_id c \<and> admissible_component dg e ps k \<and>
    C = changed_registers dg (state e) (component_post_state dg (state e) ps) \<and>
    state e' = component_post_state dg (state e) ps \<and> versions e' = bump C (versions e) \<and>
    transition_kind (hd ps) = r_transition_kind r"
  using assms(1,2) by (cases rule: commit_component_cases) (use assms(3) in auto)

lemma committed_agree:
  assumes "wf_engine e" "commit_component dg e c = (Inr r, e')" "r_committed r" "independent c d"
  shows "agree_on (union_of declared_read_set d) e e'"
proof -
  obtain ps k C where c: "ps = sort_key proposal_id c" "admissible_component dg e ps k" 
    "C \<subseteq> union_of write_set ps" "state e' = component_post_state dg (state e) ps"
    "versions e' = bump C (versions e)" "mismatch_evaluator e' = mismatch_evaluator e"
    using assms(1-3) by (elim committedE) blast
  have out: "r \<notin> union_of write_set ps" if "r \<in> union_of declared_read_set d" for r
    using independent_disjoint(1) [OF assms(4)] that c(1) by auto
  have "fmlookup (versions e) r = fmlookup (versions e') r" if "r \<in> union_of declared_read_set d" for r
  proof -
    have "r \<notin> C" using out [OF that] c(3) by blast
    then show ?thesis by (simp add: c(5) fmlookup_bump_outside)
  qed
  moreover have "fmlookup (state e) r = fmlookup (state e') r"
    if "r \<in> union_of declared_read_set d" for r
    unfolding c(4) using component_post_outside [of r ps dg "state e"] out [OF that] c(1) by simp
  moreover have "fmdom' (state e) = fmdom' (state e')"
    unfolding c(4) by (rule admissible_post_dom [OF c(2), symmetric])
  ultimately show ?thesis
    using c(6) by (simp add: agree_on_def)
qed

lemma bump_bump: "bump C (bump D vs) = bump D (bump C vs)"
proof (rule fmap_ext)
  fix r
  show "fmlookup (bump C (bump D vs)) r = fmlookup (bump D (bump C vs)) r"
    by (cases "fmlookup vs r") (simp_all add: fmlookup_bump)
qed

lemma component_post_commute:
  assumes "independent ps qs"
  shows "component_post_state dg (component_post_state dg s ps) qs =
    component_post_state dg (component_post_state dg s qs) ps"
proof -
  let ?a = "fst (combine_updates dg (concat (map updates ps)))"
    and ?b = "fst (combine_updates dg (concat (map updates qs)))"
  have "fmdom' ?a \<inter> fmdom' ?b = {}"
    unfolding combine_dom updates_written by (rule independent_disjoint(2) [OF assms])
  then have "s ++\<^sub>f ?a ++\<^sub>f ?b = s ++\<^sub>f ?b ++\<^sub>f ?a" by (rule fmadd_disjoint_commute)
  then show ?thesis by (simp add: component_post_state_def case_prod_beta)
qed

end
