(* ===== verification/Repair_Batch.thy ===== *)
theory Repair_Batch
  imports Repair_Locality
begin

text \<open>
  Batches: the conflict components of a batch (the search of \<open>Graph_Search\<close> interpreted on
  \<open>proposals_conflict\<close>) partition it into connected, mutually independent parts, and a batch
  of independent components commits each of them as if it were alone.
\<close>

section \<open>The components of a batch\<close>

lemma mset_concat_sort: "mset (concat (sort_key f xss)) = mset (concat xss)"
  by (metis mset_concat mset_map mset_sort sum_mset_sum_list)

lemma conflict_componentsE:
  assumes "conflict_components ps = Inr cs"
  obtains ordered where "ordered = sort_key proposal_id ps" "distinct ordered"
    "set cs = set (conflict_groups proposals_conflict ordered)"
    "mset (concat cs) = mset (concat (conflict_groups proposals_conflict ordered))"
  using assms that [OF refl]
  by (auto simp: conflict_components_def Let_def mset_concat_sort distinct_map split: if_splits)

lemma conflict_components_mset:
  assumes "conflict_components ps = Inr cs"
  shows "mset (concat cs) = mset ps"
  by (rule conflict_componentsE [OF assms]) (simp add: groups_mset)

lemma conflict_components_independent:
  assumes "conflict_components ps = Inr cs" "A \<in> set cs" "B \<in> set cs" "A \<noteq> B"
  shows "independent A B"
  by (rule conflict_componentsE [OF assms(1)])
    (use assms(2-4) pc.groups_cross_free in \<open>simp add: independent_def list_all_iff\<close>)

lemma conflict_components_joined:
  assumes "conflict_components ps = Inr cs" "A \<in> set cs"
  shows "A \<noteq> [] \<and> (\<forall>p \<in> set A. \<forall>q \<in> set A. joined proposals_conflict (set A) p q)"
  by (rule conflict_componentsE [OF assms(1)]) (use assms(2) pc.groups_joined in simp)

lemma commit_components_all:
  assumes "wf_engine e" "sorted_wrt independent cs"
    "\<And>c. c \<in> set cs \<Longrightarrow> \<exists>r e'. commit_component dg e c = (Inr r, e') \<and> r_committed r \<and>
       local_kind (r_transition_kind r)"
  shows "\<exists>rs e'. commit_components dg e cs = (Inr rs, e') \<and> length rs = length cs \<and>
    list_all r_committed rs \<and>
    (\<forall>c \<in> set cs. \<forall>x \<in> union_of write_set c. fmlookup (state e') x =
       fmlookup (component_post_state dg (state e) (sort_key proposal_id c)) x) \<and>
    (\<forall>x. (\<forall>c \<in> set cs. x \<notin> union_of write_set c) \<longrightarrow> fmlookup (state e') x = fmlookup (state e) x)"
  using assms
proof (induction cs arbitrary: e)
  case (Cons c cs)
  obtain r e1 where 1: "commit_component dg e c = (Inr r, e1)" "r_committed r"
    using Cons.prems(3) [of c] by auto
  have wf1: "wf_engine e1" using commit_component_advances [OF Cons.prems(1) 1(1)] by blast
  have ind: "independent c d" if "d \<in> set cs" for d using Cons.prems(2) that by simp
  have ag: "agree_on (union_of declared_read_set d) e e1" if "d \<in> set cs" for d
    by (rule committed_agree [OF Cons.prems(1) 1 ind [OF that]])
  obtain k0 where adm0: "admissible_component dg e (sort_key proposal_id c) k0"
    and st1: "state e1 = component_post_state dg (state e) (sort_key proposal_id c)"
    using committed_kind [OF Cons.prems(1) 1] by blast
  have com: "\<exists>r' f'. commit_component dg e1 d = (Inr r', f') \<and> r_committed r' \<and>
      local_kind (r_transition_kind r')" if d: "d \<in> set cs" for d
  proof -
    obtain rd ed where rd: "commit_component dg e d = (Inr rd, ed)" "r_committed rd"
      "local_kind (r_transition_kind rd)" using Cons.prems(3) [of d] d by auto
    have kind: "local_kind (transition_kind (hd (sort_key proposal_id d)))"
      using committed_kind [OF Cons.prems(1) rd(1,2)] rd(3) by auto
    have "agree_on (union_of declared_read_set (sort_key proposal_id d)) e e1" using ag [OF d] by simp
    then obtain r' f' where r': "commit_component dg e1 d = (Inr r', f')" "r_committed r'"
      using commit_agree [OF Cons.prems(1) wf1 rd(1,2) refl kind] by blast
    moreover have "local_kind (r_transition_kind r')"
      using committed_kind [OF wf1 r'] kind by auto
    ultimately show ?thesis by blast
  qed
  have "sorted_wrt independent cs" using Cons.prems(2) by simp
  from Cons.IH [OF wf1 this com] obtain rs e' where IH: "commit_components dg e1 cs = (Inr rs, e')"
    "length rs = length cs" "list_all r_committed rs"
    "\<And>d x. d \<in> set cs \<Longrightarrow> x \<in> union_of write_set d \<Longrightarrow> fmlookup (state e') x =
       fmlookup (component_post_state dg (state e1) (sort_key proposal_id d)) x"
    "\<And>x. (\<forall>d \<in> set cs. x \<notin> union_of write_set d) \<Longrightarrow> fmlookup (state e') x = fmlookup (state e1) x"
    by blast
  have old: "fmlookup (state e') x =
      fmlookup (component_post_state dg (state e) (sort_key proposal_id c)) x"
    if "x \<in> union_of write_set c" for x
    using IH(5) [of x] independent_disjoint(2) [OF ind] that st1 by fastforce
  have new: "fmlookup (state e') x =
      fmlookup (component_post_state dg (state e) (sort_key proposal_id d)) x"
    if d: "d \<in> set cs" and x: "x \<in> union_of write_set d" for d x
  proof -
    obtain rd ed where rd: "commit_component dg e d = (Inr rd, ed)" "r_committed rd"
      using Cons.prems(3) [of d] d by auto
    obtain kd where "admissible_component dg e (sort_key proposal_id d) kd"
      using committed_kind [OF Cons.prems(1) rd] by blast
    then have "x \<in> union_of declared_read_set d"
      using joint_collar_declared(4) x by fastforce
    then have "fmlookup (component_post_state dg (state e) (sort_key proposal_id d)) x =
      fmlookup (component_post_state dg (state e1) (sort_key proposal_id d)) x"
      using ag [OF d] by (intro component_post_agree) (auto simp: agree_on_def)
    then show ?thesis using IH(4) [OF d x] by simp
  qed
  have rest: "fmlookup (state e') x = fmlookup (state e) x"
    if "\<forall>d \<in> set (c # cs). x \<notin> union_of write_set d" for x
    using IH(5) [of x] that component_post_outside [of x "sort_key proposal_id c" dg "state e"] st1 by simp
  show ?case
  proof (intro exI conjI)
    show "commit_components dg e (c # cs) = (Inr (r # rs), e')" using 1(1) IH(1) by simp
  qed (use IH(2,3) 1(2) old new rest in auto)
qed simp

lemma conflict_components_pairwise:
  assumes "conflict_components ps = Inr cs"
  shows "sorted_wrt independent cs"
proof -
  have "distinct ps" using assms
    by (auto simp: conflict_components_def Let_def distinct_map split: if_splits)
  then have "distinct (concat cs)"
    using conflict_components_mset [OF assms] by (metis mset_eq_imp_distinct_iff)
  moreover have "[] \<notin> set cs" using conflict_components_joined [OF assms] by blast
  ultimately have "distinct cs" by (simp add: distinct_concat_iff)
  then show ?thesis
    using conflict_components_independent [OF assms]
    by (auto simp: sorted_wrt_iff_nth_less nth_eq_iff_index_eq)
qed
end
