(* ===== verification/Repair_Demo.thy ===== *)
theory Repair_Demo
  imports Repair_Commit
begin

text \<open>
  A small concrete engine with two registers, an evaluator that reads the register of the
  touched collar, a digest, and strict repairs that clear one register each.  The witnesses of
  the engine properties evaluate on it.
\<close>

fun demo_dg :: "json \<Rightarrow> string" where
  "demo_dg (JInt i) = (if i = 0 then ''0'' else ''1'')"
| "demo_dg _ = ''h''"

definition demo_ledger :: "frozen res \<Rightarrow> ledger option tracked" where
  "demo_ledger v = (case v of Inr (FzLeaf (LInt i)) \<Rightarrow>
      Done (Some \<lparr>overlap = of_int i, local_constraint = 0, sector = 0, record_mismatch = 0,
                  holonomy = 0, physical_auxiliary = []\<rparr>)
    | _ \<Rightarrow> Done None)"

definition demo_engine :: engine where
  "demo_engine = \<lparr>state = fmap_of_list [(''a'', FzLeaf (LInt 1)), (''b'', FzLeaf (LInt 1))],
     versions = fmap_of_list [(''a'', 0), (''b'', 0)],
     mismatch_evaluator = (\<lambda>c. if ''a'' \<in> visible_read_set c then Get ''a'' demo_ledger else Get ''b'' demo_ledger), archives = fmempty\<rparr>"

definition demo_collar :: "string \<Rightarrow> repair_collar" where
  "demo_collar r = \<lparr>collar_id = ''c'', visible_read_set = {r}, writable_registers = {r},
     protected_boundary = {}, sector_registers = {}, record_registers = {}, checkpoint_registers = {},
     interior_registers = {}, carrier_ids = {}, seam_ids = {}, forbidden_target_fields = {}\<rparr>"

definition demo_proposal :: "string \<Rightarrow> repair_proposal" where
  "demo_proposal r = \<lparr>proposal_id = r, transition_kind = STRICT_REPAIR,
     proposal_class = EXACT_SPLICE, collar = demo_collar r,
     snapshot = [\<lparr>ref = r, frozen_value = FzLeaf (LInt 1), version = 0\<rparr>],
     declared_read_set = {r}, observed_read_set = {r},
     updates = [(r, FzLeaf (LInt 0))], inverse_updates = [], source_parameters = FzMap [],
     parent_event_ids = []\<rparr>"

lemma demo_commits:
  "(case commit_component demo_dg demo_engine [demo_proposal ''a''] of
      (Inr r, e1) \<Rightarrow> r_committed r \<and> r_transition_kind r = STRICT_REPAIR | _ \<Rightarrow> False)"
  "(case commit_component demo_dg demo_engine [demo_proposal ''b''] of
      (Inr r, e1) \<Rightarrow> r_committed r \<and> r_transition_kind r = STRICT_REPAIR | _ \<Rightarrow> False)"
  by code_simp+

end
