(* ===== verification/Repair_Properties.thy ===== *)
theory Repair_Properties
  imports Repair_Batch Repair_Demo
begin

text \<open>
  The properties of the transactional repair engine, each with a witness on the concrete
  engine of \<open>Repair_Demo\<close>: independence of components, fail-closed commits, the scope of a
  commit, the verdicts of receipts, descent of the ledger, histories and rollback, and batches.
\<close>

section \<open>Commits\<close>

lemma demo_wf: "wf_engine demo_engine"
  by (auto simp: wf_engine_def demo_engine_def fmdom'_alt_def fset_of_list.rep_eq fmpred_iff split: if_splits)
lemma demo_a:
  obtains r e1 where "commit_component demo_dg demo_engine [demo_proposal ''a''] = (Inr r, e1)"
    "r_committed r" "r_transition_kind r = STRICT_REPAIR"
  using demo_commits(1) by (auto split: prod.splits sum.splits)
lemma demo_b:
  obtains r e1 where "commit_component demo_dg demo_engine [demo_proposal ''b''] = (Inr r, e1)"
    "r_committed r" "r_transition_kind r = STRICT_REPAIR"
  using demo_commits(2) by (auto split: prod.splits sum.splits)
lemma demo_independent: "independent [demo_proposal ''a''] [demo_proposal ''b'']"
  by code_simp
text \<open>C1: Two strict repairs or record commits without a conflict (neither writes what the other
  declares or writes) that each commit from the same engine also commit one after the other, in
  either order, and both orders end in the same state with the same versions.\<close>

theorem independent_components_commute:
  assumes wf: "wf_engine e"
    and 1: "commit_component dg e c = (Inr r1, e1)" "r_committed r1" "local_kind (r_transition_kind r1)"
    and 2: "commit_component dg e d = (Inr r2, e2)" "r_committed r2" "local_kind (r_transition_kind r2)"
    and ind: "independent c d"
  shows "\<exists>s12 e12 s21 e21. commit_component dg e1 d = (Inr s12, e12) \<and> r_committed s12 \<and>
    commit_component dg e2 c = (Inr s21, e21) \<and> r_committed s21 \<and>
    state e12 = state e21 \<and> versions e12 = versions e21"
proof -
  obtain ps k C where p: "ps = sort_key proposal_id c" "admissible_component dg e ps k"
    "C = changed_registers dg (state e) (component_post_state dg (state e) ps)"
    "state e1 = component_post_state dg (state e) ps" "versions e1 = bump C (versions e)"
    "transition_kind (hd ps) = r_transition_kind r1"
    using committed_kind [OF wf 1(1,2)] by blast
  obtain qs l D where q: "qs = sort_key proposal_id d" "admissible_component dg e qs l"
    "D = changed_registers dg (state e) (component_post_state dg (state e) qs)"
    "state e2 = component_post_state dg (state e) qs" "versions e2 = bump D (versions e)"
    "transition_kind (hd qs) = r_transition_kind r2"
    using committed_kind [OF wf 2(1,2)] by blast
  have wf12: "wf_engine e1" "wf_engine e2"
    using commit_component_advances [OF wf] 1(1) 2(1) by blast+
  have "agree_on (union_of declared_read_set qs) e e1"
    using committed_agree [OF wf 1(1,2) ind] q(1) by simp
  then obtain s12 e12 where A: "commit_component dg e1 d = (Inr s12, e12)" "r_committed s12"
    "state e12 = component_post_state dg (state e1) qs" "versions e12 = bump D (versions e1)"
    using commit_agree [OF wf wf12(1) 2(1,2) q(1)] 2(3) q(3,6) by auto
  have "agree_on (union_of declared_read_set ps) e e2"
    using committed_agree [OF wf 2(1,2) independent_sym [OF ind]] p(1) by simp
  then obtain s21 e21 where B: "commit_component dg e2 c = (Inr s21, e21)" "r_committed s21"
    "state e21 = component_post_state dg (state e2) ps" "versions e21 = bump C (versions e2)"
    using commit_agree [OF wf wf12(2) 1(1,2) p(1)] 1(3) p(3,6) by auto
  have "independent ps qs" using ind p(1) q(1) by (simp add: independent_def)
  then have "state e12 = state e21" using A(3) B(3) p(4) q(4) component_post_commute by metis
  moreover have "versions e12 = versions e21" using A(4) B(4) p(5) q(5) bump_bump by metis
  ultimately show ?thesis using A(1,2) B(1,2) by blast
qed

theorem independent_components_commute_witness:
  "\<exists>r1 e1 r2 e2 s12 e12 s21 e21.
    commit_component demo_dg demo_engine [demo_proposal ''a''] = (Inr r1, e1) \<and> r_committed r1 \<and>
    commit_component demo_dg demo_engine [demo_proposal ''b''] = (Inr r2, e2) \<and> r_committed r2 \<and>
    commit_component demo_dg e1 [demo_proposal ''b''] = (Inr s12, e12) \<and> r_committed s12 \<and>
    commit_component demo_dg e2 [demo_proposal ''a''] = (Inr s21, e21) \<and> r_committed s21 \<and>
    state e12 = state e21 \<and> versions e12 = versions e21"
proof (rule demo_a, rule demo_b)
  fix r1 e1 r2 e2
  assume "commit_component demo_dg demo_engine [demo_proposal ''a''] = (Inr r1, e1)" "r_committed r1"
    "r_transition_kind r1 = STRICT_REPAIR"
    "commit_component demo_dg demo_engine [demo_proposal ''b''] = (Inr r2, e2)" "r_committed r2"
    "r_transition_kind r2 = STRICT_REPAIR"
  moreover from this independent_components_commute [OF demo_wf this(1,2) _ this(4,5) _ demo_independent]
  have "\<exists>s12 e12 s21 e21. commit_component demo_dg e1 [demo_proposal ''b''] = (Inr s12, e12) \<and>
    r_committed s12 \<and> commit_component demo_dg e2 [demo_proposal ''a''] = (Inr s21, e21) \<and>
    r_committed s21 \<and> state e12 = state e21 \<and> versions e12 = versions e21"
    by (simp add: local_kind_def)
  ultimately show ?thesis by blast
qed

text \<open>C2: A component that is not committed, because a check fails or because an exception
  leaves the evaluation, changes nothing: state, versions and archives are as before.\<close>

theorem commit_fail_closed:
  assumes "wf_engine e" "commit_component dg e c = (out, e')"
    "\<forall>r. out = Inr r \<longrightarrow> \<not> r_committed r"
  shows "e' = e"
  using assms(1,2) by (cases rule: commit_component_cases) (use assms(3) in auto)

lemma demo_stale:
  "(case commit_component demo_dg demo_engine [demo_proposal ''a''\<lparr>snapshot := []\<rparr>] of
      (Inr r, e1) \<Rightarrow> \<not> r_committed r | _ \<Rightarrow> False)"
  by code_simp

theorem commit_fail_closed_witness:
  "snd (commit_component demo_dg demo_engine [demo_proposal ''a''\<lparr>snapshot := []\<rparr>]) = demo_engine"
proof -
  obtain out e' where o: "commit_component demo_dg demo_engine [demo_proposal ''a''\<lparr>snapshot := []\<rparr>]
    = (out, e')" by fastforce
  have "\<forall>r. out = Inr r \<longrightarrow> \<not> r_committed r" using demo_stale o by auto
  from commit_fail_closed [OF demo_wf o this] o show ?thesis by simp
qed

text \<open>C3: A commit changes registers only inside the writable collars of its proposals, adds and
  removes no register, preserves every sector register and every protected boundary register
  (record registers of a record commit excepted), and bumps the version of exactly the changed
  registers by one.\<close>

theorem commit_scope:
  assumes "wf_engine e" "commit_component dg e c = (Inr r, e')" "r_committed r"
  shows "fmdom' (state e') = fmdom' (state e) \<and>
    (\<forall>x. x \<notin> union_of (\<lambda>p. writable_registers (collar p)) c \<longrightarrow>
       fmlookup (state e') x = fmlookup (state e) x) \<and>
    preserved_on dg (state e) (state e') (union_of (\<lambda>p. sector_registers (collar p)) c) \<and>
    preserved_on dg (state e) (state e') (union_of (\<lambda>p. protected_boundary (collar p)) c -
      (if r_transition_kind r = RECORD_COMMIT
       then union_of (\<lambda>p. record_registers (collar p)) c else {})) \<and>
    versions e' = bump (changed_registers dg (state e) (state e')) (versions e)"
proof -
  obtain ps k C where c: "ps = sort_key proposal_id c" "admissible_component dg e ps k"
    "C = changed_registers dg (state e) (component_post_state dg (state e) ps)"
    "state e' = component_post_state dg (state e) ps" "versions e' = bump C (versions e)"
    "transition_kind (hd ps) = r_transition_kind r"
    using committed_kind [OF assms] by blast
  have w: "x \<notin> union_of write_set ps" if "x \<notin> union_of (\<lambda>p. writable_registers (collar p)) c" for x
  proof -
    have "write_set p \<subseteq> writable_registers (collar p)" if "p \<in> set ps" for p
      using c(2) that by (simp add: admissible_component_def local_details_Nil)
    then show ?thesis using that c(1) by (force simp: union_of_def)
  qed
  have dom: "fmdom' (state e') = fmdom' (state e)"
    unfolding c(4) by (rule admissible_post_dom [OF c(2)])
  have out: "fmlookup (state e') x = fmlookup (state e) x"
    if "x \<notin> union_of (\<lambda>p. writable_registers (collar p)) c" for x
    unfolding c(4) by (rule component_post_outside [OF w [OF that]])
  have "preserved_on dg (state e) (state e') (sector_registers (joint_collar dg ps))"
    "preserved_on dg (state e) (state e') (protected_boundary (joint_collar dg ps) -
      (if r_transition_kind r = RECORD_COMMIT then record_registers (joint_collar dg ps) else {}))"
    unfolding c(4) c(6) [symmetric] using c(2) by (simp_all add: admissible_component_def)
  moreover have "sector_registers (joint_collar dg ps) = union_of (\<lambda>p. sector_registers (collar p)) c"
    "protected_boundary (joint_collar dg ps) = union_of (\<lambda>p. protected_boundary (collar p)) c"
    "record_registers (joint_collar dg ps) = union_of (\<lambda>p. record_registers (collar p)) c"
    by (simp_all add: c(1))
  moreover have "versions e' = bump (changed_registers dg (state e) (state e')) (versions e)"
    using c(3,4,5) by simp
  ultimately show ?thesis using dom out by auto
qed

theorem commit_scope_witness:
  "\<exists>r e1. commit_component demo_dg demo_engine [demo_proposal ''a''] = (Inr r, e1) \<and>
     fmlookup (state e1) ''b'' = fmlookup (state demo_engine) ''b''"
proof (rule demo_a)
  fix r e1
  assume a: "commit_component demo_dg demo_engine [demo_proposal ''a''] = (Inr r, e1)" "r_committed r"
  have "''b'' \<notin> union_of (\<lambda>p. writable_registers (collar p)) [demo_proposal ''a'']"
    by (simp add: union_of_def demo_proposal_def demo_collar_def)
  then show ?thesis using commit_scope [OF demo_wf a] a(1) by blast
qed

text \<open>The receipts agree with what was evaluated: a committed receipt passes every check and
  every recomputed sub-receipt, its verdict is VALID_PASS exactly when the component was
  committed, and it is a physical repair receipt exactly for a committed strict repair without a
  diagnostic proposal.\<close>

theorem commit_receipt_verdicts:
  assumes "wf_engine e" "commit_component dg e c = (Inr r, e')"
  shows "(r_committed r \<longrightarrow> all_checks_passed r \<and> complete_read_set_receipt r \<and>
      conflict_component_support_receipt dg r \<and> atomic_union_revalidation_receipt dg r) \<and>
    (verdict r = ''VALID_PASS'' \<longleftrightarrow> r_committed r) \<and>
    (physical_repair_receipt dg r \<longleftrightarrow> r_committed r \<and> r_transition_kind r = STRICT_REPAIR \<and>
       \<not> diagnostic_only r)"
  using assms
proof (cases rule: commit_component_cases)
  case (committed ev ps k C r')
  have srt: "sort_key proposal_id ps = ps" by (simp add: committed(1) sort_key_idem)
  have "all_checks_passed r \<and> complete_read_set_receipt r \<and>
      conflict_component_support_receipt dg r \<and> atomic_union_revalidation_receipt dg r"
    using commit_receipt_sound [OF committed(5,4,6,2) srt] committed(8,9) by blast
  then show ?thesis by (simp add: verdict_def physical_repair_receipt_def)
qed (auto simp: verdict_def physical_repair_receipt_def)

theorem commit_receipt_verdicts_witness:
  "\<exists>r e1. commit_component demo_dg demo_engine [demo_proposal ''a''] = (Inr r, e1) \<and>
     verdict r = ''VALID_PASS''"
proof (rule demo_a)
  fix r e1
  assume a: "commit_component demo_dg demo_engine [demo_proposal ''a''] = (Inr r, e1)" "r_committed r"
  show ?thesis using commit_receipt_verdicts [OF demo_wf a(1)] a by blast
qed

text \<open>C6: A committed strict repair is measured on the union collar before and after, both traces
  lie in the declared reads, the ledger strictly descends in both orders of the ledger, at
  least one register changes, and no record or checkpoint register does.\<close>

theorem strict_commit_descends:
  assumes "wf_engine e" "commit_component dg e c = (Inr r, e')" "r_committed r"
    "r_transition_kind r = STRICT_REPAIR"
  shows "\<exists>b a rb ra. r_mismatch_before r = Some b \<and> r_mismatch_after r = Some a \<and>
    measure_with_trace e (state e) (joint_collar dg (sort_key proposal_id c)) = Inr (b, rb) \<and>
    measure_with_trace e (state e') (joint_collar dg (sort_key proposal_id c)) = Inr (a, ra) \<and>
    rb \<union> ra \<subseteq> union_of declared_read_set c \<and>
    strict_repair_descends_from a b \<and> strictly_descends_from a b \<and>
    changed_registers dg (state e) (state e') \<noteq> {} \<and>
    changed_registers dg (state e) (state e') \<inter>
      union_of (\<lambda>p. record_registers (collar p) \<union> checkpoint_registers (collar p)) c = {}"
  using assms(1,2)
proof (cases rule: commit_component_cases)
  case (committed ev ps k C r')
  have r: "r = r'" using committed(9) by simp
  obtain b a rb ra where k: "before_ledger k = Some b" "after_ledger k = Some a"
    "measure_with_trace e (state e) (joint_collar dg ps) = Inr (b, rb)"
    "measure_with_trace e (component_post_state dg (state e) ps) (joint_collar dg ps) = Inr (a, ra)"
    "score_reads k = rb \<union> ra"
    "fst (transition_contract dg (transition_kind (hd ps)) (state e)
       (component_post_state dg (state e) ps) ps (joint_collar dg ps) C b a)"
    using admissible_contractE [OF committed(5,6)] committed(7) by metis
  have st: "state e' = component_post_state dg (state e) ps" using committed(10) by simp
  have "transition_kind (hd ps) = STRICT_REPAIR" using assms(4) r committed(8) by simp
  then have ok: "strict_repair_ok (joint_collar dg ps) C b a" using k(6) by (simp add: transition_ok_kind)
  then have sd: "strict_repair_descends_from a b" by (simp add: strict_repair_ok_def)
  have ch: "C \<noteq> {}" "C \<inter> union_of (\<lambda>p. record_registers (collar p) \<union> checkpoint_registers (collar p)) c = {}"
    using ok committed(1) by (auto simp: strict_repair_ok_def union_of_def)
  have rd: "rb \<union> ra \<subseteq> union_of declared_read_set c"
    using committed(1,5) k(5) by (auto simp: admissible_component_def)
  have sorted: "sort_key proposal_id ps = ps" by (simp add: committed(1) sort_key_idem)
  have "v_mismatch_before (validation ev) = before_ledger k" "v_mismatch_after (validation ev) = after_ledger k"
    by - (rule evaluate_componentE [OF committed(2), unfolded sorted], use committed(6) in simp)+
  then show ?thesis
    using k(1-4) r committed(1,7,8) st sd strict_repair_imp_strictly_descends [OF sd] ch rd by simp
qed (use assms(3) in auto)

theorem strict_commit_descends_witness:
  "\<exists>r e1 a b. commit_component demo_dg demo_engine [demo_proposal ''a''] = (Inr r, e1) \<and>
     r_mismatch_before r = Some b \<and> r_mismatch_after r = Some a \<and> strictly_descends_from a b"
proof (rule demo_a)
  fix r e1
  assume a: "commit_component demo_dg demo_engine [demo_proposal ''a''] = (Inr r, e1)" "r_committed r"
    "r_transition_kind r = STRICT_REPAIR"
  from strict_commit_descends [OF demo_wf a] a(1) show ?thesis by blast
qed

section \<open>Histories of the engine\<close>

text \<open>C7: From a constructed engine every sequence of commits, batches and rollbacks keeps the
  engine invariant and the set of registers, and no version ever decreases.\<close>

theorem engine_run_invariant:
  assumes "init_engine dg initial ev vs = Inr e" "engine_run dg e e'"
  shows "wf_engine e' \<and> fmdom' (state e') = fmdom' initial \<and>
    (\<forall>r v. fmlookup (versions e) r = Some v \<longrightarrow>
       (\<exists>w. fmlookup (versions e') r = Some w \<and> v \<le> w))"
proof -
  have wf: "wf_engine e" by (rule init_engine_wf [OF assms(1)])
  have adv: "wf_engine e'" "advances dg e e'" using engine_run_advances [OF assms(2) wf] by auto
  have "fmdom' (state e) = fmdom' initial"
    using assms(1) freeze_regs_dom
    by (auto simp: init_engine_def split: if_splits option.splits elim!: rbind_eq_InrE)
  then show ?thesis using adv by (simp add: advances_def) blast
qed

definition demo_initial :: "(string, pyval) fmap" where
  "demo_initial = fmap_of_list [(''a'', PLeaf (LInt 1)), (''b'', PLeaf (LInt 1))]"

lemma demo_init:
  "(case init_engine demo_dg demo_initial (mismatch_evaluator demo_engine) None of
      Inr e \<Rightarrow> fmlookup (versions e) ''a'' = Some 0 | _ \<Rightarrow> False)"
  by code_simp

theorem engine_run_invariant_witness:
  "\<exists>e. init_engine demo_dg demo_initial (mismatch_evaluator demo_engine) None = Inr e \<and>
     wf_engine (snd (commit demo_dg e (demo_proposal ''a'')))"
proof -
  obtain e where e: "init_engine demo_dg demo_initial (mismatch_evaluator demo_engine) None = Inr e"
    using demo_init by (auto split: sum.splits)
  have "engine_run demo_dg e (snd (commit demo_dg e (demo_proposal ''a'')))"
    by (metis run_refl run_step step_commit prod.collapse)
  with engine_run_invariant [OF e this] e show ?thesis by blast
qed

text \<open>A register whose version is the same before and after any run has the same canonical
  value: versions detect every change, also one that was undone in between.\<close>

theorem version_pins_value:
  assumes "wf_engine e" "engine_run dg e e'" "fmlookup (versions e) r = Some v"
    "fmlookup (versions e') r = Some v"
  shows "\<exists>x y. fmlookup (state e) r = Some x \<and> fmlookup (state e') r = Some y \<and> same_value dg x y"
  using engine_run_advances [OF assms(2,1)] assms(3,4) by (fastforce simp: advances_def)

theorem version_pins_value_witness:
  "\<exists>x y. fmlookup (state demo_engine) ''a'' = Some x \<and> fmlookup (state demo_engine) ''a'' = Some y \<and>
     same_value demo_dg x y"
  by (rule version_pins_value [OF demo_wf run_refl, of "''a''" 0]) (simp_all add: demo_engine_def)

lemma stale_version:
  assumes "item \<in> set (snapshot p)" "p \<in> set c" "fmlookup (versions e) (ref item) \<noteq> Some (version item)"
    "wf_engine e" "commit_component dg e c = (out, e')"
  shows "e' = e \<and> (\<forall>r. out = Inr r \<longrightarrow> \<not> r_committed r)"
  using assms(4,5)
proof (cases rule: commit_component_cases)
  case (committed ev ps k C r)
  then have "fresh_details dg e p = []" using assms(2) by (simp add: admissible_component_def)
  then show ?thesis using assms(1,3) by (auto simp: fresh_details_Nil)
qed simp_all

text \<open>C4: A proposal that captured a register at some version is rejected, together with its whole
  component, after any run in which that register changed, even when a later operation wrote
  the captured value back.\<close>

theorem stale_proposal_rejected:
  assumes "wf_engine e" "engine_run dg e m" "engine_run dg m e'"
    and captured: "item \<in> set (snapshot p)" "fmlookup (versions e) (ref item) = Some (version item)"
    and changed: "ref item \<in> changed_registers dg (state e) (state m)"
    and "p \<in> set c" "commit_component dg e' c = (out, f)"
  shows "f = e' \<and> (\<forall>r. out = Inr r \<longrightarrow> \<not> r_committed r)"
proof -
  have m: "wf_engine m" "advances dg e m" using engine_run_advances [OF assms(2,1)] by auto
  have e': "wf_engine e'" "advances dg m e'" using engine_run_advances [OF assms(3) m(1)] by auto
  obtain w where w: "fmlookup (versions m) (ref item) = Some w" "version item \<le> w"
    "w = version item \<longrightarrow> ref item \<notin> changed_registers dg (state e) (state m)"
    using m(2) captured(2) by (fastforce simp: advances_def changed_registers_iff)
  then obtain u where u: "fmlookup (versions e') (ref item) = Some u" "w \<le> u"
    using e'(2) by (fastforce simp: advances_def)
  have "u \<noteq> version item" using w u changed by auto
  then show ?thesis
    using stale_version [OF captured(1) assms(7) _ e'(1) assms(8)] u(1) by simp
qed

lemma demo_changed:
  "(case commit_component demo_dg demo_engine [demo_proposal ''a''] of
      (Inr r, e1) \<Rightarrow> ''a'' \<in> changed_registers demo_dg (state demo_engine) (state e1) | _ \<Rightarrow> False)"
  by code_simp

theorem stale_proposal_rejected_witness:
  "\<exists>r e1. commit_component demo_dg demo_engine [demo_proposal ''a''] = (Inr r, e1) \<and>
     snd (commit_component demo_dg e1 [demo_proposal ''a'']) = e1"
proof (rule demo_a)
  fix r e1
  assume a: "commit_component demo_dg demo_engine [demo_proposal ''a''] = (Inr r, e1)"
  let ?i = "\<lparr>ref = ''a'', frozen_value = FzLeaf (LInt 1), version = 0\<rparr>"
  have run: "engine_run demo_dg demo_engine e1"
    by (rule run_step [OF run_refl step_commit [OF a [folded commit_def]]])
  have i: "?i \<in> set (snapshot (demo_proposal ''a''))" "fmlookup (versions demo_engine) (ref ?i) = Some (version ?i)"
    by (simp_all add: demo_proposal_def demo_engine_def)
  have ch: "ref ?i \<in> changed_registers demo_dg (state demo_engine) (state e1)"
    using demo_changed a by simp
  have "demo_proposal ''a'' \<in> set [demo_proposal ''a'']" by simp
  from stale_proposal_rejected [OF demo_wf run run_refl i ch this prod.collapse [symmetric]] a
  show ?thesis by blast
qed

text \<open>C5: Rolling a commit back at once succeeds exactly when the old state thaws as a whole (a set
  nested in a set does not): then the state before the commit is restored, the versions of the
  changed registers grow once more, and the two ledgers of the receipt are exchanged; otherwise
  TypeError escapes and the engine stays where the commit left it.\<close>

theorem commit_then_rollback:
  assumes wf: "wf_engine e" and c: "commit_component dg e c = (Inr r, e1)" "r_committed r"
  shows "if thawable (FzMap (items_of (state e)))
    then \<exists>s e2. rollback dg e1 (r_commit_id r) = (Inr s, e2) \<and> r_committed s \<and>
      state e2 = state e \<and> versions e2 = bump (changed_registers dg (state e) (state e1)) (versions e1) \<and>
      r_mismatch_before s = r_mismatch_after r \<and> r_mismatch_after s = r_mismatch_before r \<and>
      verdict s = ''VALID_PASS''
    else rollback dg e1 (r_commit_id r) = (Inl TypeError, e1)"
  using wf c(1)
proof (cases rule: commit_component_cases)
  case (committed ev ps k C r')
  have r: "r' = r" using committed(9) by simp
  obtain b a rb ra where k: "before_ledger k = Some b" "after_ledger k = Some a"
    "measure_with_trace e (state e) (joint_collar dg ps) = Inr (b, rb)"
    "measure_with_trace e (component_post_state dg (state e) ps) (joint_collar dg ps) = Inr (a, ra)"
    using admissible_contractE [OF committed(5,6)] by metis
  let ?a = "\<lparr>a_pre_state = state e, a_post_state_hash = r_post_state_hash r, a_receipt = r,
              a_collar = joint_collar dg ps\<rparr>"
  have e1: "state e1 = component_post_state dg (state e) ps" "mismatch_evaluator e1 = mismatch_evaluator e"
    "fmlookup (archives e1) (r_commit_id r) = Some ?a"
    using committed(10) r by simp_all
  have m: "measure_with_trace e1 (state e1) (joint_collar dg ps) = Inr (a, ra)"
    "measure_with_trace e1 (state e) (joint_collar dg ps) = Inr (b, rb)"
    using k(3,4) e1(1,2) by (simp_all add: measure_with_trace_def)
  have sorted: "sort_key proposal_id ps = ps" by (simp add: committed(1) sort_key_idem)
  have led: "v_mismatch_before (validation ev) = before_ledger k" "v_mismatch_after (validation ev) = after_ledger k"
    by - (rule evaluate_componentE [OF committed(2), unfolded sorted], use committed(6) in simp)+
  have hash: "state_hash dg (state e1) = r_post_state_hash r" using committed(8) r e1(1) by simp
  have checks: "list_all passed (rollback_checks dg e1 (r_commit_id r))"
    "rollback_checks dg e1 (r_commit_id r) \<noteq> []"
    using e1(3) hash by (simp_all add: rollback_checks_def Let_def)
  have wf1: "wf_engine e1" using commit_component_advances [OF wf c(1)] by blast
  have dom: "fmdom' (state e) = fmdom' (state e1)"
    unfolding e1(1) by (rule admissible_post_dom [OF committed(5), symmetric])
  have sub: "changed_registers dg (state e1) (state e) \<subseteq> fmdom' (versions e1)"
    using changed_registers_sub [of dg "state e1" "state e"] wf1 dom by (simp add: wf_engine_def)
  have "changed_registers dg (state e1) (state e) = changed_registers dg (state e) (state e1)"
    by (rule changed_registers_sym)
  then show ?thesis
    using e1(3) checks m sub k(1,2) led committed(8) r
    by (simp add: rollback_def Let_def rollback_receipt_def verdict_def all_checks_passed_def)
qed (use c(2) in auto)

lemma demo_thawable: "thawable (FzMap (items_of (state demo_engine)))"
  by code_simp

theorem commit_then_rollback_witness:
  "\<exists>r e1 s e2. commit_component demo_dg demo_engine [demo_proposal ''a''] = (Inr r, e1) \<and>
     rollback demo_dg e1 (r_commit_id r) = (Inr s, e2) \<and> state e2 = state demo_engine"
proof (rule demo_a)
  fix r e1
  assume a: "commit_component demo_dg demo_engine [demo_proposal ''a''] = (Inr r, e1)" "r_committed r"
  from commit_then_rollback [OF demo_wf a] demo_thawable a show ?thesis by auto
qed

section \<open>Batches\<close>

text \<open>The conflict components of a batch are a partition of its proposals: each component
  is non-empty and connected through conflicts inside it, and proposals of different components
  never conflict.\<close>

theorem batch_components_partition:
  assumes "conflict_components ps = Inr cs"
  shows "mset (concat cs) = mset ps \<and>
    (\<forall>A \<in> set cs. A \<noteq> [] \<and> (\<forall>p \<in> set A. \<forall>q \<in> set A. joined proposals_conflict (set A) p q)) \<and>
    sorted_wrt (\<lambda>A B. \<forall>p \<in> set A. \<forall>q \<in> set B. \<not> proposals_conflict p q) cs"
proof -
  have "sorted_wrt (\<lambda>A B. \<forall>p \<in> set A. \<forall>q \<in> set B. \<not> proposals_conflict p q) cs"
    using conflict_components_pairwise [OF assms]
    by (rule sorted_wrt_mono_rel [rotated]) (simp add: independent_def list_all_iff)
  then show ?thesis using conflict_components_mset conflict_components_joined assms by blast
qed

lemma demo_components: "conflict_components [demo_proposal ''b'', demo_proposal ''a''] =
    Inr [[demo_proposal ''a''], [demo_proposal ''b'']]"
proof -
  have "sort_key proposal_id [demo_proposal ''b'', demo_proposal ''a''] = 
    [demo_proposal ''a'', demo_proposal ''b'']" by code_simp
  moreover have "components (index_conflict proposals_conflict [demo_proposal ''a'', demo_proposal ''b'']) [0..<2]
    = [[0], [1]]" by code_simp
  moreover have "proposal_id (demo_proposal r) = r" for r by (simp add: demo_proposal_def)
  ultimately show ?thesis
    by (simp add: conflict_components_def conflict_groups_def numeral_2_eq_2 Let_def insort_key_left_comm del: upt_Suc)
qed

theorem batch_components_partition_witness:
  "mset (concat [[demo_proposal ''a''], [demo_proposal ''b'']]) =
   mset [demo_proposal ''b'', demo_proposal ''a'']"
  using batch_components_partition [OF demo_components] by blast

text \<open>When every component of a batch would commit alone, the batch commits all of them, every
  written register ends with the value its own component gives it from the initial engine, and
  the other registers keep theirs.\<close>

theorem batch_commits_components:
  assumes "wf_engine e" "conflict_components ps = Inr cs"
    "\<forall>c \<in> set cs. \<exists>r e'. commit_component dg e c = (Inr r, e') \<and> r_committed r \<and>
       local_kind (r_transition_kind r)"
  shows "\<exists>rs e'. commit_batch dg e ps = (Inr rs, e') \<and> length rs = length cs \<and>
    list_all r_committed rs \<and>
    (\<forall>c \<in> set cs. \<forall>x \<in> union_of write_set c.
       fmlookup (state e') x = fmlookup (state (snd (commit_component dg e c))) x) \<and>
    (\<forall>x. (\<forall>c \<in> set cs. x \<notin> union_of write_set c) \<longrightarrow> fmlookup (state e') x = fmlookup (state e) x)"
proof -
  have post: "component_post_state dg (state e) (sort_key proposal_id c) =
      state (snd (commit_component dg e c))" if c: "c \<in> set cs" for c
  proof -
    obtain r e' where r: "commit_component dg e c = (Inr r, e')" "r_committed r"
      using assms(3) c by blast
    then show ?thesis using committed_kind [OF assms(1) r] by auto
  qed
  have "sorted_wrt independent cs" by (rule conflict_components_pairwise [OF assms(2)])
  from commit_components_all [OF assms(1) this, of dg] assms(3) obtain rs e' where
    b: "commit_components dg e cs = (Inr rs, e')" "length rs = length cs" "list_all r_committed rs"
    "\<forall>c \<in> set cs. \<forall>x \<in> union_of write_set c. fmlookup (state e') x =
       fmlookup (component_post_state dg (state e) (sort_key proposal_id c)) x"
    "\<forall>x. (\<forall>c \<in> set cs. x \<notin> union_of write_set c) \<longrightarrow> fmlookup (state e') x = fmlookup (state e) x"
    by metis
  have "commit_batch dg e ps = (Inr rs, e')" using b(1) by (simp add: commit_batch_def assms(2))
  moreover have "\<forall>c \<in> set cs. \<forall>x \<in> union_of write_set c.
      fmlookup (state e') x = fmlookup (state (snd (commit_component dg e c))) x"
    using b(4) post by simp
  ultimately show ?thesis using b(2,3,5) by blast
qed

theorem batch_commits_components_witness:
  "\<exists>rs e'. commit_batch demo_dg demo_engine [demo_proposal ''b'', demo_proposal ''a''] = (Inr rs, e') \<and>
     length rs = 2 \<and> list_all r_committed rs"
proof -
  have "\<forall>c \<in> set [[demo_proposal ''a''], [demo_proposal ''b'']].
      \<exists>r e'. commit_component demo_dg demo_engine c = (Inr r, e') \<and> r_committed r \<and>
       local_kind (r_transition_kind r)"
    by (auto simp: local_kind_def intro: demo_a demo_b)
  from batch_commits_components [OF demo_wf demo_components this] show ?thesis by auto
qed

definition record_engine :: engine where
  "record_engine = \<lparr>state = fmap_of_list [(''log'', FzTuple [FzLeaf (LInt 1)])],
     versions = fmap_of_list [(''log'', 0)], mismatch_evaluator = (\<lambda>c. demo_ledger (Inr (FzLeaf (LInt 0)))),
     archives = fmempty\<rparr>"

definition record_proposal :: repair_proposal where
  "record_proposal = (demo_proposal ''log'')\<lparr>transition_kind := RECORD_COMMIT,
     collar := (demo_collar ''log'')\<lparr>record_registers := {''log''}\<rparr>,
     snapshot := [\<lparr>ref = ''log'', frozen_value = FzTuple [FzLeaf (LInt 1)], version = 0\<rparr>],
     updates := [(''log'', FzTuple [FzLeaf (LBool True), FzLeaf (LInt 2)])]\<rparr>"

fun log_dg :: "json \<Rightarrow> string" where
  "log_dg (JObj kvs) = concat (map (log_dg \<circ> snd) kvs)"
| "log_dg (JArr xs) = CHR ''['' # concat (map log_dg xs) @ '']''"
| "log_dg (JBool b) = ''b''"
| "log_dg (JInt i) = (if i = 0 then ''0'' else ''1'')"
| "log_dg _ = ''h''"

text \<open>The append-only law of record commits compares with Python's equality, so a committed
  record transition can replace the recorded integer 1 by the boolean True, a value with a
  different canonical hash.\<close>

theorem record_commit_rewrites_prefix:
  "(case commit_component log_dg record_engine [record_proposal] of
      (Inr r, e1) \<Rightarrow> r_committed r \<and> r_transition_kind r = RECORD_COMMIT \<and>
        fmlookup (state record_engine) ''log'' = Some (FzTuple [FzLeaf (LInt 1)]) \<and>
        fmlookup (state e1) ''log'' = Some (FzTuple [FzLeaf (LBool True), FzLeaf (LInt 2)])
    | _ \<Rightarrow> False)"
  by code_simp

text \<open>A set with a set as its element is accepted and frozen, but capturing a snapshot of it
  raises TypeError, because thawing builds the unhashable inner set.\<close>

theorem nested_frozensets_break_snapshots:
  "\<exists>z. freeze dg (PSet True [PSet True [PLeaf (LInt 1)]]) = Inr z \<and>
     mk_register_snapshot ''a'' z 0 = Inl TypeError"
  by (simp add: freeze_leaf_def mk_register_snapshot_def thawable_def)

end
