(* ===== verification/Consensus_Tx.thy ===== *)
theory Consensus_Tx
  imports Repair_Engine
begin

text \<open>
  Prepared quotient repair transactions (\<open>oph_fpe/consensus/transactional_repair.py\<close>):
  preparation, freshness, commit, conflict components, aggregation, the diamond report and the
  transactional repair receipt.  A state maps register names to values of any type \<open>'v\<close>.
  The parameter \<open>h\<close> is \<open>canonical_state_hash\<close> on the states whose values the evidence encoder
  supports; \<open>meas\<close> (\<open>measure\<close>) and \<open>boundary\<close> are the caller's functions, and the type of measures is
  ordered (the code raises when two measures cannot be compared).
\<close>

section \<open>Transactions\<close>

type_synonym 'v cstate = "(string, 'v) fmap"
type_synonym 'v hash_fn = "'v cstate \<Rightarrow> string"

record 'v tx =
  tx_id :: string
  tx_reads :: "string set"
  tx_writes :: "string set"
  tx_snapshot :: "(string \<times> 'v) list"
  tx_payload :: "(string \<times> 'v) list"
  tx_read_versions :: "(string \<times> 'v) list"

text \<open>\<open>dict(pairs)\<close>: a later pair replaces an earlier one and keys keep their first place.\<close>

definition dict_of :: "(string \<times> 'v) list \<Rightarrow> (string, 'v) fmap" where
  "dict_of xs = fold (\<lambda>(k, v) m. fmupd k v m) xs fmempty"

definition dict_items :: "(string \<times> 'v) list \<Rightarrow> (string \<times> 'v) list" where
  "dict_items xs = map (\<lambda>k. (k, the (fmlookup (dict_of xs) k))) (uniq (map fst xs))"

definition take_refs :: "string set \<Rightarrow> (string, 'v) fmap \<Rightarrow> (string \<times> 'v) list" where
  "take_refs reads m = map (\<lambda>k. (k, the (fmlookup m k))) (sorted_list_of_set reads)"

definition prepare_transaction ::
  "'v cstate \<Rightarrow> string \<Rightarrow> string set \<Rightarrow> (string, 'v) fmap \<Rightarrow> (string, 'v) fmap option \<Rightarrow> 'v tx res" where
  "prepare_transaction st i reads pay vs =
     (if \<not> reads \<subseteq> fmdom' st then Inl KeyError
      else if fmdom' pay = {} then Inl ValueError
      else (case vs of
          None \<Rightarrow> Inr \<lparr>tx_id = i, tx_reads = reads, tx_writes = fmdom' pay,
                   tx_snapshot = take_refs reads st, tx_payload = items_of pay,
                   tx_read_versions = []\<rparr>
        | Some v \<Rightarrow> if \<not> reads \<subseteq> fmdom' v then Inl KeyError
            else Inr \<lparr>tx_id = i, tx_reads = reads, tx_writes = fmdom' pay,
                   tx_snapshot = take_refs reads st, tx_payload = items_of pay,
                   tx_read_versions = take_refs reads v\<rparr>))"

definition apply_payload :: "'v cstate \<Rightarrow> 'v tx \<Rightarrow> 'v cstate" where
  "apply_payload st tx = st ++\<^sub>f dict_of (tx_payload tx)"

section \<open>Freshness\<close>

definition value_key :: "'v hash_fn \<Rightarrow> 'v \<Rightarrow> string" where
  "value_key h v = h (fmap_of_list [(''value'', v)])"

definition differs :: "'v hash_fn \<Rightarrow> (string, 'v) fmap \<Rightarrow> string \<times> 'v \<Rightarrow> bool" where
  "differs h m kv = (case fmlookup m (fst kv) of None \<Rightarrow> True
     | Some w \<Rightarrow> value_key h w \<noteq> value_key h (snd kv))"

definition freshness_failure ::
  "'v hash_fn \<Rightarrow> 'v cstate \<Rightarrow> 'v tx \<Rightarrow> (string, 'v) fmap option \<Rightarrow> (string \<times> string) option" where
  "freshness_failure h st tx vs =
     (let read_versions = dict_items (tx_read_versions tx) in
      if read_versions \<noteq> [] \<and> vs = None
      then Some (''MISSING_READ_VERSIONS'',
        ''transaction carries read versions but no current version map was supplied'')
      else (case find (differs h (case vs of None \<Rightarrow> fmempty | Some v \<Rightarrow> v)) read_versions of
          Some kv \<Rightarrow> Some (''STALE_READ_VERSION'',
            ''register '' @ repr_str (fst kv) @ '' version changed since prepare'')
        | None \<Rightarrow> (case find (differs h st) (dict_items (tx_snapshot tx)) of
            Some kv \<Rightarrow> Some (''STALE_SNAPSHOT'',
              ''register '' @ repr_str (fst kv) @ '' changed since prepare'')
          | None \<Rightarrow> None)))"

section \<open>Commit\<close>

record ('v, 'm, 'b) commit_result =
  cr_status :: string
  cr_committed :: bool
  cr_state :: "'v cstate"
  cr_before_measure :: 'm
  cr_after_measure :: 'm
  cr_before_boundary :: 'b
  cr_after_boundary :: 'b
  cr_reason :: "string option"

definition commit_transaction ::
  "'v hash_fn \<Rightarrow> ('v cstate \<Rightarrow> 'm::order) \<Rightarrow> ('v cstate \<Rightarrow> 'b) \<Rightarrow> 'v cstate \<Rightarrow> 'v tx \<Rightarrow>
   (string, 'v) fmap option \<Rightarrow> ('v, 'm, 'b) commit_result" where
  "commit_transaction h meas boundary before tx vs =
     (case freshness_failure h before tx vs of
        Some (status, reason) \<Rightarrow>
          \<lparr>cr_status = status, cr_committed = False, cr_state = before,
           cr_before_measure = meas before, cr_after_measure = meas before,
           cr_before_boundary = boundary before, cr_after_boundary = boundary before,
           cr_reason = Some reason\<rparr>
      | None \<Rightarrow>
        (let after = apply_payload before tx;
             result = \<lparr>cr_status = ''COMMITTED'', cr_committed = True, cr_state = after,
               cr_before_measure = meas before, cr_after_measure = meas after,
               cr_before_boundary = boundary before, cr_after_boundary = boundary after,
               cr_reason = None\<rparr>
         in if boundary after \<noteq> boundary before
            then result\<lparr>cr_status := ''BOUNDARY_CHANGED'', cr_committed := False, cr_state := before,
              cr_reason := Some ''transaction changed protected boundary/sector data''\<rparr>
            else if \<not> meas after < meas before
            then result\<lparr>cr_status := ''NO_DESCENT'', cr_committed := False, cr_state := before,
              cr_reason := Some ''transaction did not strictly lower the declared measure''\<rparr>
            else result))"

section \<open>Conflict components and aggregation\<close>

definition transactions_conflict :: "'v tx \<Rightarrow> 'v tx \<Rightarrow> bool" where
  "transactions_conflict l r \<longleftrightarrow> tx_writes l \<inter> (tx_reads r \<union> tx_writes r) \<noteq> {} \<or>
     tx_writes r \<inter> (tx_reads l \<union> tx_writes l) \<noteq> {}"

text \<open>
  A component lists its members in the order of their identifiers; the indices are positions
  in the sorted batch, so ascending indices is that order.
\<close>

definition tx_components :: "'v tx list \<Rightarrow> 'v tx list list" where
  "tx_components transactions =
     conflict_groups transactions_conflict (sort_key tx_id transactions)"

definition aggregate_step ::
  "'v hash_fn \<Rightarrow> (string, 'v) fmap \<Rightarrow> string \<times> 'v \<Rightarrow> (string, 'v) fmap res" where
  "aggregate_step h pay kv = (case fmlookup pay (fst kv) of
     Some w \<Rightarrow> if value_key h w \<noteq> value_key h (snd kv) then Inl ValueError
               else Inr (fmupd (fst kv) (snd kv) pay)
   | None \<Rightarrow> Inr (fmupd (fst kv) (snd kv) pay))"

definition aggregate_component ::
  "'v hash_fn \<Rightarrow> 'v cstate \<Rightarrow> 'v tx list \<Rightarrow> string option \<Rightarrow> (string, 'v) fmap option \<Rightarrow> 'v tx res" where
  "aggregate_component h st component i vs =
     (let ordered = sort_key tx_id component in
      if component = [] then Inl ValueError
      else if \<not> list_all (\<lambda>tx. freshness_failure h st tx vs = None) ordered then Inl ValueError
      else rbind (rfold (aggregate_step h) fmempty (concat (map (\<lambda>tx. dict_items (tx_payload tx)) ordered)))
        (\<lambda>pay. prepare_transaction st
           (if i = None \<or> i = Some [] then join_with ''+'' (map tx_id ordered) else the i)
           (\<Union> (tx_reads ` set ordered) \<union> fmdom' pay) pay None))"

section \<open>The diamond report\<close>

datatype ('v, 'm, 'b) diamond_report =
    ConflictRequiresAggregate bool
  | DiamondFailure string "('v, 'm, 'b) commit_result"
  | DiamondTerminals "'v cstate" "'v cstate" bool "string option"

definition atomic_diamond_report ::
  "'v hash_fn \<Rightarrow> ('v cstate \<Rightarrow> 'm::order) \<Rightarrow> ('v cstate \<Rightarrow> 'b) \<Rightarrow> 'v cstate \<Rightarrow> 'v tx \<Rightarrow> 'v tx \<Rightarrow>
   ('v, 'm, 'b) diamond_report" where
  "atomic_diamond_report h meas boundary st left right =
     (if transactions_conflict left right then ConflictRequiresAggregate (tx_id left = tx_id right)
      else let run = (\<lambda>s tx. commit_transaction h meas boundary s tx None);
        left_first = run st left in
        if \<not> cr_committed left_first then DiamondFailure ''left_first_failed'' left_first else
        let left_then_right = run (cr_state left_first) right in
        if \<not> cr_committed left_then_right
        then DiamondFailure ''left_then_right_failed'' left_then_right else
        let right_first = run st right in
        if \<not> cr_committed right_first then DiamondFailure ''right_first_failed'' right_first else
        let right_then_left = run (cr_state right_first) left in
        if \<not> cr_committed right_then_left
        then DiamondFailure ''right_then_left_failed'' right_then_left else
        let same = (h (cr_state left_then_right) = h (cr_state right_then_left)) in
        DiamondTerminals (cr_state left_then_right) (cr_state right_then_left) same
          (if same then Some (h (cr_state left_then_right)) else None))"

fun diamond_receipt :: "('v, 'm, 'b) diamond_report \<Rightarrow> bool" where
  "diamond_receipt (DiamondTerminals l r same nf) = same"
| "diamond_receipt _ = False"

definition validation_support :: "string set \<Rightarrow> string set list \<Rightarrow> string set" where
  "validation_support ws supports = \<Union> (set (filter (\<lambda>term. term \<inter> ws \<noteq> {}) supports))"

section \<open>The transactional repair receipt\<close>

record 'm aggregate_row =
  component_index :: nat
  primitive_ids :: "string list"
  row_status :: string
  row_committed :: bool
  row_before :: 'm
  row_after :: 'm
  stale_primitives :: "(string \<times> string \<times> string) list"

definition stale_primitives_of ::
  "'v hash_fn \<Rightarrow> 'v cstate \<Rightarrow> (string, 'v) fmap option \<Rightarrow> 'v tx list \<Rightarrow>
   (string \<times> string \<times> string) list" where
  "stale_primitives_of h st vs component = concat (map (\<lambda>tx. (case freshness_failure h st tx vs of
     None \<Rightarrow> [] | Some (status, reason) \<Rightarrow> [(tx_id tx, status, reason)])) component)"

definition stale_status :: "(string \<times> string \<times> string) list \<Rightarrow> string" where
  "stale_status stale = (let statuses = map (\<lambda>(i, s, r). s) stale in
     if ''MISSING_READ_VERSIONS'' \<in> set statuses then ''MISSING_PRIMITIVE_READ_VERSIONS''
     else if ''STALE_READ_VERSION'' \<in> set statuses then ''STALE_PRIMITIVE_READ_VERSION''
     else ''STALE_PRIMITIVE_SNAPSHOT'')"

text \<open>One component: the row of the report and the state that follows.\<close>

definition repair_component ::
  "'v hash_fn \<Rightarrow> ('v cstate \<Rightarrow> 'm::order) \<Rightarrow> ('v cstate \<Rightarrow> 'b) \<Rightarrow> (string, 'v) fmap option \<Rightarrow>
   nat \<Rightarrow> 'v tx list \<Rightarrow> 'v cstate \<Rightarrow> ('m aggregate_row \<times> 'v cstate) res" where
  "repair_component h meas boundary vs i component current =
     (let stale = stale_primitives_of h current vs component;
          row = \<lparr>component_index = i, primitive_ids = map tx_id component, row_status = [],
                 row_committed = False, row_before = meas current, row_after = meas current,
                 stale_primitives = stale\<rparr>
      in if stale \<noteq> [] then Inr (row\<lparr>row_status := stale_status stale\<rparr>, current)
      else (case aggregate_component h current component (Some (''component_'' @ str_nat i)) vs of
          Inl ValueError \<Rightarrow> Inr (row\<lparr>row_status := ''INCOMPATIBLE_OVERLAPPING_WRITES''\<rparr>, current)
        | Inl err \<Rightarrow> Inl err
        | Inr aggregate \<Rightarrow>
            (let result = commit_transaction h meas boundary current aggregate None in
             Inr (row\<lparr>row_status := cr_status result, row_committed := cr_committed result,
                      row_before := cr_before_measure result, row_after := cr_after_measure result\<rparr>,
                  if cr_committed result then cr_state result else current))))"

fun repair_components ::
  "'v hash_fn \<Rightarrow> ('v cstate \<Rightarrow> 'm::order) \<Rightarrow> ('v cstate \<Rightarrow> 'b) \<Rightarrow> (string, 'v) fmap option \<Rightarrow>
   nat \<Rightarrow> 'v tx list list \<Rightarrow> 'v cstate \<Rightarrow> ('m aggregate_row list \<times> 'v cstate) res" where
  "repair_components h meas boundary vs i [] current = Inr ([], current)"
| "repair_components h meas boundary vs i (c # cs) current =
     rbind (repair_component h meas boundary vs i c current) (\<lambda>(row, next).
     rbind (repair_components h meas boundary vs (Suc i) cs next) (\<lambda>(rows, final).
     Inr (row # rows, final)))"

record ('v, 'm) repair_report =
  rr_receipt :: bool
  rr_rows :: "'m aggregate_row list"
  rr_component_count :: nat
  rr_final_state :: "'v cstate"
  rr_normal_form_hash :: string

definition transactional_repair_receipt ::
  "'v hash_fn \<Rightarrow> ('v cstate \<Rightarrow> 'm::order) \<Rightarrow> ('v cstate \<Rightarrow> 'b) \<Rightarrow> 'v cstate \<Rightarrow> 'v tx list \<Rightarrow>
   (string, 'v) fmap option \<Rightarrow> ('v, 'm) repair_report res" where
  "transactional_repair_receipt h meas boundary st transactions vs =
     (let cs = tx_components transactions in
      rbind (repair_components h meas boundary vs 0 cs st) (\<lambda>(rows, final).
      Inr \<lparr>rr_receipt = (transactions \<noteq> [] \<and> length rows = length cs \<and> list_all row_committed rows),
           rr_rows = rows, rr_component_count = length cs, rr_final_state = final,
           rr_normal_form_hash = h final\<rparr>))"

section \<open>Commits of one transaction\<close>

lemma commit_transaction_cases:
  obtains (stale) s r where "freshness_failure h st tx vs = Some (s, r)"
      "\<not> cr_committed (commit_transaction h meas boundary st tx vs)"
      "cr_state (commit_transaction h meas boundary st tx vs) = st"
      "cr_status (commit_transaction h meas boundary st tx vs) = s"
  | (boundary) "freshness_failure h st tx vs = None" "boundary (apply_payload st tx) \<noteq> boundary st"
      "\<not> cr_committed (commit_transaction h meas boundary st tx vs)"
      "cr_state (commit_transaction h meas boundary st tx vs) = st"
      "cr_status (commit_transaction h meas boundary st tx vs) = ''BOUNDARY_CHANGED''"
  | (no_descent) "freshness_failure h st tx vs = None" "boundary (apply_payload st tx) = boundary st"
      "\<not> meas (apply_payload st tx) < meas st"
      "\<not> cr_committed (commit_transaction h meas boundary st tx vs)"
      "cr_state (commit_transaction h meas boundary st tx vs) = st"
      "cr_status (commit_transaction h meas boundary st tx vs) = ''NO_DESCENT''"
  | (committed) "freshness_failure h st tx vs = None" "boundary (apply_payload st tx) = boundary st"
      "meas (apply_payload st tx) < meas st"
      "cr_committed (commit_transaction h meas boundary st tx vs)"
      "cr_state (commit_transaction h meas boundary st tx vs) = apply_payload st tx"
      "cr_status (commit_transaction h meas boundary st tx vs) = ''COMMITTED''"
  by (cases "freshness_failure h st tx vs"; cases "boundary (apply_payload st tx) = boundary st";
      cases "meas (apply_payload st tx) < meas st")
    (auto simp: commit_transaction_def Let_def)

lemma fold_upd_dom: "fmdom' (fold (\<lambda>(k, v) m. fmupd k v m) xs m) = fmdom' m \<union> fst ` set xs"
  by (induction xs arbitrary: m) auto

lemma dict_of_dom: "fmdom' (dict_of xs) = fst ` set xs"
  by (simp add: dict_of_def fold_upd_dom)

lemma apply_payload_outside: "r \<notin> fst ` set (tx_payload tx) \<Longrightarrow>
    fmlookup (apply_payload st tx) r = fmlookup st r"
  unfolding apply_payload_def by (rule fmlookup_fmadd_outside) (simp add: dict_of_dom)

text \<open>The sets of a prepared transaction are the keys of its tables.\<close>

definition wf_tx :: "'v tx \<Rightarrow> bool" where
  "wf_tx tx \<longleftrightarrow> tx_writes tx = fst ` set (tx_payload tx) \<and> tx_writes tx \<noteq> {} \<and>
     fst ` set (tx_snapshot tx) = tx_reads tx \<and> finite (tx_reads tx) \<and>
     fst ` set (tx_read_versions tx) \<subseteq> tx_reads tx \<and>
     distinct (map fst (tx_payload tx)) \<and> distinct (map fst (tx_snapshot tx)) \<and>
     distinct (map fst (tx_read_versions tx))"

lemma take_refs_keys: "map fst (take_refs reads m) = sorted_list_of_set reads"
  by (simp add: take_refs_def comp_def)

lemma take_refs_set: "finite reads \<Longrightarrow> fst ` set (take_refs reads m) = reads"
  by (force simp: take_refs_def)

lemma prepare_wf:
  assumes "prepare_transaction st i reads pay vs = Inr tx"
  shows "wf_tx tx" "tx_reads tx = reads" "tx_writes tx = fmdom' pay" "tx_id tx = i"
    "tx_payload tx = items_of pay" "reads \<subseteq> fmdom' st" "tx_snapshot tx = take_refs reads st"
proof -
  have fin: "finite reads" if "reads \<subseteq> fmdom' (m :: (string, 'a) fmap)" for m
    using that finite_fmdom' finite_subset by blast
  have keys: "fst ` set (items_of pay) = fmdom' pay"
    by (metis items_of_keys set_map sorted_list_of_fset_simps(1) fmdom'_alt_def)
  have d: "distinct (map fst (items_of pay))" by (simp add: items_of_keys sorted_list_of_fset.rep_eq)
  show "tx_reads tx = reads" "tx_writes tx = fmdom' pay" "tx_id tx = i"
    "tx_payload tx = items_of pay" "reads \<subseteq> fmdom' st" "tx_snapshot tx = take_refs reads st"
    using assms by (auto simp: prepare_transaction_def split: if_splits option.splits)
  then have f: "finite reads" using fin by blast
  have ne: "fmdom' pay \<noteq> {}" and "tx_read_versions tx = [] \<or> (\<exists>v. tx_read_versions tx = take_refs reads v)"
    using assms by (auto simp: prepare_transaction_def split: if_splits option.splits)
  then have "fst ` set (tx_read_versions tx) \<subseteq> reads \<and> distinct (map fst (tx_read_versions tx))"
    by (elim disjE exE) (simp_all add: take_refs_set [OF f] take_refs_keys)
  then show "wf_tx tx"
    using \<open>tx_reads tx = reads\<close> \<open>tx_writes tx = fmdom' pay\<close> \<open>tx_payload tx = items_of pay\<close>
      \<open>tx_snapshot tx = take_refs reads st\<close> keys d f ne
    by (simp add: wf_tx_def take_refs_set take_refs_keys)
qed

section \<open>Independent transactions\<close>

lemma transactions_conflict_sym: "transactions_conflict l r \<Longrightarrow> transactions_conflict r l"
  by (auto simp: transactions_conflict_def)

interpretation tc: symmetric_conflict transactions_conflict
  by unfold_locales (rule transactions_conflict_sym)

lemma find_cong: "(\<And>x. x \<in> set xs \<Longrightarrow> P x = Q x) \<Longrightarrow> find P xs = find Q xs"
  by (induction xs) auto

lemma dict_items_keys: "kv \<in> set (dict_items xs) \<Longrightarrow> fst kv \<in> fst ` set xs"
  by (force simp: dict_items_def)

lemma freshness_agree:
  assumes "\<And>r. r \<in> fst ` set (tx_snapshot tx) \<Longrightarrow> fmlookup st r = fmlookup st' r"
  shows "freshness_failure h st tx vs = freshness_failure h st' tx vs"
proof -
  have "find (differs h st) (dict_items (tx_snapshot tx)) = find (differs h st') (dict_items (tx_snapshot tx))"
  proof (rule find_cong)
    fix kv assume "kv \<in> set (dict_items (tx_snapshot tx))"
    then have "fmlookup st (fst kv) = fmlookup st' (fst kv)" by (intro assms dict_items_keys)
    then show "differs h st kv = differs h st' kv" by (simp add: differs_def)
  qed
  then show ?thesis unfolding freshness_failure_def by (simp only:)
qed

lemma apply_payload_commute:
  assumes "wf_tx l" "wf_tx r" "\<not> transactions_conflict l r"
  shows "apply_payload (apply_payload st l) r = apply_payload (apply_payload st r) l"
  unfolding apply_payload_def
  by (rule fmadd_disjoint_commute)
    (use assms in \<open>auto simp: wf_tx_def transactions_conflict_def dict_of_dom\<close>)

lemma freshness_unaffected:
  assumes "wf_tx l" "wf_tx r" "\<not> transactions_conflict l r"
  shows "freshness_failure h (apply_payload st l) r vs = freshness_failure h st r vs"
proof (rule freshness_agree)
  fix x assume "x \<in> fst ` set (tx_snapshot r)"
  then have "x \<notin> fst ` set (tx_payload l)"
    using assms by (auto simp: wf_tx_def transactions_conflict_def)
  then show "fmlookup (apply_payload st l) x = fmlookup st x" by (rule apply_payload_outside)
qed

section \<open>Aggregation\<close>

lemma aggregate_fold:
  "rfold (aggregate_step h) pay us = Inr pay' \<Longrightarrow>
    fmdom' pay' = fmdom' pay \<union> fst ` set us \<and>
    (\<forall>k v. (k, v) \<in> set us \<or> fmlookup pay k = Some v \<longrightarrow>
       (\<exists>w. fmlookup pay' k = Some w \<and> value_key h w = value_key h v))"
proof (induction us arbitrary: pay)
  case (Cons u us)
  obtain k v where u: "u = (k, v)" by fastforce
  obtain p where p: "aggregate_step h pay u = Inr p" "rfold (aggregate_step h) p us = Inr pay'"
    using Cons.prems by (auto elim: rbind_eq_InrE)
  then have pd: "p = fmupd k v pay" and same: "\<And>w. fmlookup pay k = Some w \<Longrightarrow> value_key h w = value_key h v"
    by (auto simp: aggregate_step_def u split: option.splits if_splits)
  note IH = Cons.IH [OF p(2)]
  have "\<exists>w. fmlookup pay' k' = Some w \<and> value_key h w = value_key h v'"
    if "(k', v') \<in> set (u # us) \<or> fmlookup pay k' = Some v'" for k' v'
  proof (cases "(k', v') \<in> set us")
    case True
    then show ?thesis using IH by blast
  next
    case False
    then have "\<exists>w. fmlookup p k' = Some w \<and> value_key h w = value_key h v'"
      using that u pd same by (cases "k' = k") auto
    then show ?thesis using IH by metis
  qed
  then show ?case using IH by (auto simp: pd u)
qed auto

lemma dict_items_fst: "fst ` set (dict_items xs) = fst ` set xs"
  by (force simp: dict_items_def)

lemma aggregate_componentE:
  assumes "aggregate_component h st component i vs = Inr agg"
  obtains pay where "component \<noteq> []"
    "list_all (\<lambda>tx. freshness_failure h st tx vs = None) (sort_key tx_id component)"
    "rfold (aggregate_step h) fmempty
       (concat (map (\<lambda>tx. dict_items (tx_payload tx)) (sort_key tx_id component))) = Inr pay"
    "wf_tx agg" "tx_writes agg = fmdom' pay" "tx_payload agg = items_of pay"
    "tx_reads agg = \<Union> (tx_reads ` set component) \<union> fmdom' pay" "tx_reads agg \<subseteq> fmdom' st"
    "tx_snapshot agg = take_refs (tx_reads agg) st"
    "tx_read_versions agg = []"
proof -
  obtain pay i' where p: "component \<noteq> []"
    "list_all (\<lambda>tx. freshness_failure h st tx vs = None) (sort_key tx_id component)"
    "rfold (aggregate_step h) fmempty
       (concat (map (\<lambda>tx. dict_items (tx_payload tx)) (sort_key tx_id component))) = Inr pay"
    "prepare_transaction st i' (\<Union> (tx_reads ` set component) \<union> fmdom' pay) pay None = Inr agg"
    using assms by (auto simp: aggregate_component_def Let_def split: if_splits elim!: rbind_eq_InrE)
  note w = prepare_wf [OF p(4)]
  have "tx_read_versions agg = []" using p(4) by (auto simp: prepare_transaction_def split: if_splits)
  then show thesis using p w that by simp
qed

lemma snapshot_fresh: "list_all (\<lambda>kv. \<not> differs h st kv) (dict_items (take_refs reads st)) \<or>
    \<not> reads \<subseteq> fmdom' st"
proof (cases "reads \<subseteq> fmdom' st")
  case True
  have "\<not> differs h st kv" if "kv \<in> set (dict_items (take_refs reads st))" for kv
  proof -
    have "finite reads" using True finite_fmdom' finite_subset by blast
    have fold: "fmlookup (fold (\<lambda>(k, v) m. fmupd k v m) (map (\<lambda>k. (k, the (fmlookup st k))) ks) m) k =
        (if k \<in> set ks then Some (the (fmlookup st k)) else fmlookup m k)" for ks m k
      by (induction ks arbitrary: m) auto
    obtain k where k: "kv = (k, the (fmlookup (dict_of (take_refs reads st)) k))"
      "k \<in> fst ` set (take_refs reads st)" using \<open>kv \<in> _\<close> by (auto simp: dict_items_def)
    then have "k \<in> reads" using take_refs_set [OF \<open>finite reads\<close>] by blast
    then have "fmlookup (dict_of (take_refs reads st)) k = Some (the (fmlookup st k))"
      using \<open>finite reads\<close> by (simp add: dict_of_def take_refs_def fold)
    moreover have "fmlookup st k \<noteq> None" using \<open>k \<in> reads\<close> True by (auto simp: fmlookup_dom'_iff)
    ultimately show ?thesis using k by (auto simp: differs_def)
  qed
  then show ?thesis by (simp add: list_all_iff)
qed simp

lemma aggregate_fresh:
  assumes "aggregate_component h st component i vs = Inr agg"
  shows "freshness_failure h st agg None = None"
proof (rule aggregate_componentE [OF assms])
  assume a: "tx_snapshot agg = take_refs (tx_reads agg) st" "tx_reads agg \<subseteq> fmdom' st" "tx_read_versions agg = []"
  then have "find (differs h st) (dict_items (tx_snapshot agg)) = None"
    using snapshot_fresh [of h st "tx_reads agg"] by (auto simp: find_None_iff list_all_iff)
  then show ?thesis using a(3) by (simp add: freshness_failure_def dict_items_def)
qed

lemma aggregate_payload:
  assumes "aggregate_component h st component i vs = Inr agg" "list_all wf_tx component"
  shows "tx_writes agg = \<Union> (tx_writes ` set component) \<and> wf_tx agg \<and>
    tx_reads agg = \<Union> (tx_reads ` set component) \<union> tx_writes agg \<and>
    (\<forall>tx \<in> set component. \<forall>(k, v) \<in> set (dict_items (tx_payload tx)).
      \<exists>w. (k, w) \<in> set (tx_payload agg) \<and> value_key h w = value_key h v)"
proof (rule aggregate_componentE [OF assms(1)])
  fix pay
  let ?us = "concat (map (\<lambda>tx. dict_items (tx_payload tx)) (sort_key tx_id component))"
  assume p: "rfold (aggregate_step h) fmempty ?us = Inr pay" "wf_tx agg" "tx_writes agg = fmdom' pay"
    "tx_payload agg = items_of pay" "tx_reads agg = \<Union> (tx_reads ` set component) \<union> fmdom' pay"
  note f = aggregate_fold [OF p(1)]
  have "fst ` set ?us = \<Union> ((\<lambda>tx. fst ` set (dict_items (tx_payload tx))) ` set component)"
    by (simp add: image_UN)
  also have "\<dots> = \<Union> (tx_writes ` set component)"
    using assms(2) by (simp add: dict_items_fst list_all_iff wf_tx_def)
  finally have "fst ` set ?us = \<Union> (tx_writes ` set component)" .
  moreover have "\<exists>w. (k, w) \<in> set (tx_payload agg) \<and> value_key h w = value_key h v"
    if "tx \<in> set component" "(k, v) \<in> set (dict_items (tx_payload tx))" for tx k v
  proof -
    have "(k, v) \<in> set ?us" using that by auto
    then show ?thesis using f p(4) by (metis set_items_of)
  qed
  ultimately show ?thesis using f p(2,3,5) by auto
qed
section \<open>Repairing components one after the other\<close>

text \<open>What one component does to the state, whatever its row reports.\<close>

lemma repair_component_effect:
  assumes "repair_component h meas boundary vs i c cur = Inr (row, next)" "list_all wf_tx c"
  shows "boundary next = boundary cur \<and> row_before row = meas cur \<and>
    (if row_committed row then meas next < meas cur \<and> row_after row = meas next
     else next = cur) \<and>
    (\<forall>r. r \<notin> \<Union> (tx_writes ` set c) \<longrightarrow> fmlookup next r = fmlookup cur r) \<and>
    (stale_primitives row = [] \<longleftrightarrow> list_all (\<lambda>tx. freshness_failure h cur tx vs = None) c)"
proof -
  have st: "stale_primitives_of h cur vs c = [] \<longleftrightarrow> list_all (\<lambda>tx. freshness_failure h cur tx vs = None) c"
    by (induction c) (auto simp: stale_primitives_of_def split: option.splits)
  show ?thesis
  proof (cases "stale_primitives_of h cur vs c = []")
    case False
    then show ?thesis using assms(1) st by (auto simp: repair_component_def Let_def)
  next
    case True
    show ?thesis
    proof (cases "aggregate_component h cur c (Some (''component_'' @ str_nat i)) vs")
      case (Inl err)
      then show ?thesis using assms(1) True st
        by (cases err) (auto simp: repair_component_def Let_def)
    next
      case (Inr agg)
      have out: "fmlookup (apply_payload cur agg) r = fmlookup cur r"
        if "r \<notin> \<Union> (tx_writes ` set c)" for r
      proof (rule apply_payload_outside)
        have "fst ` set (tx_payload agg) = \<Union> (tx_writes ` set c)"
          using aggregate_payload [OF Inr assms(2)] by (metis wf_tx_def)
        then show "r \<notin> fst ` set (tx_payload agg)" using that by simp
      qed
      have row: "row_committed row = cr_committed (commit_transaction h meas boundary cur agg None)"
        "row_after row = cr_after_measure (commit_transaction h meas boundary cur agg None)"
        "row_before row = cr_before_measure (commit_transaction h meas boundary cur agg None)"
        "stale_primitives row = []"
        "next = (if row_committed row then cr_state (commit_transaction h meas boundary cur agg None) else cur)"
        using assms(1) True Inr by (auto simp: repair_component_def Let_def)
      have m: "cr_before_measure (commit_transaction h meas boundary cur agg None) = meas cur"
        "cr_committed (commit_transaction h meas boundary cur agg None) \<Longrightarrow>
         cr_after_measure (commit_transaction h meas boundary cur agg None) = meas (apply_payload cur agg)"
        by (auto simp: commit_transaction_def Let_def split: option.splits if_splits prod.splits)
      show ?thesis
        by (rule commit_transaction_cases [of h cur agg None meas boundary])
          (use row m out True st in auto)
    qed
  qed
qed

lemma repair_components_effect:
  assumes "repair_components h meas boundary vs i cs cur = Inr (rows, final)"
    "list_all (list_all wf_tx) cs"
  shows "boundary final = boundary cur \<and> length rows = length cs \<and> meas final \<le> meas cur \<and>
    (list_ex row_committed rows \<longrightarrow> meas final < meas cur) \<and>
    (\<not> list_ex row_committed rows \<longrightarrow> final = cur) \<and>
    (\<forall>r. r \<notin> \<Union> (tx_writes ` \<Union> (set ` set cs)) \<longrightarrow> fmlookup final r = fmlookup cur r) \<and>
    (\<forall>row \<in> set rows. row_committed row \<longrightarrow> row_after row < row_before row)"
  using assms
proof (induction cs arbitrary: i cur rows)
  case (Cons c cs)
  obtain row nxt rows' where 1: "repair_component h meas boundary vs i c cur = Inr (row, nxt)"
    and 2: "repair_components h meas boundary vs (Suc i) cs nxt = Inr (rows', final)"
    and rows: "rows = row # rows'"
    using Cons.prems(1) by (auto elim!: rbind_eq_InrE)
  have wf: "list_all wf_tx c" "list_all (list_all wf_tx) cs" using Cons.prems(2) by auto
  note e = repair_component_effect [OF 1 wf(1)]
  note IH = Cons.IH [OF 2 wf(2)]
  have "fmlookup final r = fmlookup cur r" if "r \<notin> \<Union> (tx_writes ` \<Union> (set ` set (c # cs)))" for r
  proof -
    have "r \<notin> \<Union> (tx_writes ` set c)" "r \<notin> \<Union> (tx_writes ` \<Union> (set ` set cs))" using that by auto
    then show ?thesis using e IH by metis
  qed
  moreover have "meas final \<le> meas cur" "list_ex row_committed rows \<longrightarrow> meas final < meas cur"
    "\<not> list_ex row_committed rows \<longrightarrow> final = cur"
    using e IH rows by (auto split: if_splits)
  moreover have "\<forall>r \<in> set rows. row_committed r \<longrightarrow> row_after r < row_before r"
    using e IH rows by (auto split: if_splits)
  ultimately show ?case using e IH rows by simp
qed simp

section \<open>Payloads that introduce a register\<close>

text \<open>
  The aggregate of a component declares what it writes as read, so a payload key that the state
  does not have is a missing read.
\<close>

lemma dict_items_distinct: "distinct (map fst (dict_items xs))"
  by (simp add: dict_items_def comp_def)

lemma fresh_reads:
  assumes "wf_tx tx" "freshness_failure h st tx vs = None"
  shows "tx_reads tx \<subseteq> fmdom' st"
proof
  fix r assume "r \<in> tx_reads tx"
  then obtain kv where kv: "kv \<in> set (dict_items (tx_snapshot tx))" "fst kv = r"
    using assms(1) dict_items_fst [of "tx_snapshot tx"] by (force simp: wf_tx_def)
  have "find (differs h st) (dict_items (tx_snapshot tx)) = None"
    using assms(2) by (auto simp: freshness_failure_def Let_def split: if_splits option.splits)
  then have "\<not> differs h st kv" using kv(1) by (cases kv) (auto simp: find_None_iff)
  then show "r \<in> fmdom' st" using kv(2) by (auto simp: differs_def fmlookup_dom'_iff split: option.splits)
qed

lemma aggregate_one:
  "distinct (map fst us) \<Longrightarrow> fst ` set us \<inter> fmdom' pay = {} \<Longrightarrow> \<exists>pay'. rfold (aggregate_step h) pay us = Inr pay'"
proof (induction us arbitrary: pay)
  case (Cons u us)
  then have "fmlookup pay (fst u) = None" by (auto simp: fmlookup_dom'_iff)
  then have "aggregate_step h pay u = Inr (fmupd (fst u) (snd u) pay)" by (simp add: aggregate_step_def)
  then show ?case using Cons by auto
qed simp

lemma aggregate_errors:
  assumes "aggregate_component h st c i vs = Inl err" "list_all wf_tx c"
  shows "err = ValueError \<or> err = KeyError \<and> \<not> \<Union> (tx_writes ` set c) \<subseteq> fmdom' st"
proof -
  let ?us = "concat (map (\<lambda>tx. dict_items (tx_payload tx)) (sort_key tx_id c))"
  show ?thesis
  proof (cases "c = [] \<or> \<not> list_all (\<lambda>tx. freshness_failure h st tx vs = None) (sort_key tx_id c)")
    case True
    then show ?thesis using assms(1) by (cases "c = []") (auto simp: aggregate_component_def Let_def)
  next
    case False
    show ?thesis
    proof (cases "rfold (aggregate_step h) fmempty ?us")
      case (Inl e)
      then have "e = ValueError"
        by (rule rfold_error [rotated]) (auto simp: aggregate_step_def split: option.splits if_splits)
      then show ?thesis using assms(1) False Inl by (simp add: aggregate_component_def Let_def)
    next
      case (Inr pay)
      have "fmdom' pay = \<Union> (tx_writes ` set c)"
        using aggregate_fold [OF Inr] assms(2) by (simp add: image_UN dict_items_fst list_all_iff wf_tx_def)
      moreover have "\<Union> (tx_reads ` set c) \<subseteq> fmdom' st"
        using False assms(2) fresh_reads [of _ h st vs] by (fastforce simp: list_all_iff)
      ultimately show ?thesis using assms(1) False Inr
        by (auto simp: aggregate_component_def prepare_transaction_def Let_def split: if_splits)
    qed
  qed
qed

lemma repair_component_error:
  assumes "repair_component h meas boundary vs i c cur = Inl err" "list_all wf_tx c"
  shows "err = KeyError \<and> \<not> \<Union> (tx_writes ` set c) \<subseteq> fmdom' cur"
proof -
  obtain e where e: "aggregate_component h cur c (Some (''component_'' @ str_nat i)) vs = Inl e" "e \<noteq> ValueError" "e = err"
    using assms(1) by (auto simp: repair_component_def Let_def split: if_splits sum.splits py_error.splits)
  from aggregate_errors [OF e(1) assms(2)] e(2,3) show ?thesis by blast
qed

lemma repair_component_dom:
  assumes "repair_component h meas boundary vs i c cur = Inr (row, next)"
  shows "fmdom' next = fmdom' cur"
proof (cases "next = cur")
  case False
  then obtain agg where agg: "aggregate_component h cur c (Some (''component_'' @ str_nat i)) vs = Inr agg"
    and n: "next = cr_state (commit_transaction h meas boundary cur agg None)"
    using assms by (auto simp: repair_component_def Let_def split: if_splits sum.splits py_error.splits)
  have "next = apply_payload cur agg"
    using False n by (rule_tac commit_transaction_cases [of h cur agg None meas boundary]) auto
  moreover have "fst ` set (tx_payload agg) \<subseteq> fmdom' cur"
    by (rule aggregate_componentE [OF agg]) (auto simp: wf_tx_def)
  ultimately show ?thesis by (auto simp: apply_payload_def dict_of_dom fmdom'_add)
qed simp

lemma repair_component_new_register:
  assumes "wf_tx tx" "freshness_failure h cur tx vs = None" "\<not> tx_writes tx \<subseteq> fmdom' cur"
  shows "repair_component h meas boundary vs i [tx] cur = Inl KeyError"
proof -
  obtain pay where pay: "rfold (aggregate_step h) fmempty (dict_items (tx_payload tx)) = Inr pay"
    using aggregate_one [OF dict_items_distinct, of "tx_payload tx" fmempty h] by auto
  have "fmdom' pay = tx_writes tx" using aggregate_fold [OF pay] assms(1) by (simp add: dict_items_fst wf_tx_def)
  then have "aggregate_component h cur [tx] (Some (''component_'' @ str_nat i)) vs = Inl KeyError"
    using assms(2,3) pay by (auto simp: aggregate_component_def prepare_transaction_def Let_def)
  then show ?thesis using assms(2) by (simp add: repair_component_def stale_primitives_of_def)
qed

lemma repair_components_error:
  assumes "repair_components h meas boundary vs i cs cur = Inl err" "list_all (list_all wf_tx) cs"
  shows "err = KeyError \<and> (\<exists>c \<in> set cs. \<exists>tx \<in> set c. \<not> tx_writes tx \<subseteq> fmdom' cur)"
  using assms
proof (induction cs arbitrary: i cur)
  case (Cons c cs)
  show ?case
  proof (cases "repair_component h meas boundary vs i c cur")
    case (Inl e)
    then show ?thesis using repair_component_error [OF Inl] Cons.prems by auto
  next
    case (Inr p)
    obtain row nxt where p: "p = (row, nxt)" by fastforce
    have "repair_components h meas boundary vs (Suc i) cs nxt = Inl err"
      using Cons.prems(1) Inr p by (cases "repair_components h meas boundary vs (Suc i) cs nxt") auto
    from Cons.IH [OF this] Cons.prems(2) repair_component_dom [OF Inr [unfolded p]] show ?thesis by auto
  qed
qed simp

lemma repair_components_new_register:
  assumes "wf_tx tx" "list_all (list_all wf_tx) cs" "[tx] \<in> set cs"
    and "\<forall>c \<in> set cs. c = [tx] \<or> (\<forall>q \<in> set c. \<not> transactions_conflict tx q)"
    and "freshness_failure h cur tx vs = None" "\<not> tx_writes tx \<subseteq> fmdom' cur"
  shows "repair_components h meas boundary vs i cs cur = Inl KeyError"
  using assms(2-6)
proof (induction cs arbitrary: i cur)
  case (Cons c cs)
  show ?case
  proof (cases "repair_component h meas boundary vs i c cur")
    case (Inl e)
    then show ?thesis using repair_component_error [OF Inl] Cons.prems(1) by simp
  next
    case (Inr p)
    obtain row nxt where p: "p = (row, nxt)" by fastforce
    have "repair_component h meas boundary vs i [tx] cur = Inl KeyError"
      by (rule repair_component_new_register [OF assms(1) Cons.prems(4,5)])
    then have c: "c \<noteq> [tx]" using Inr by auto
    have same: "fmlookup nxt r = fmlookup cur r" if "r \<in> tx_reads tx" for r
    proof -
      have "r \<notin> \<Union> (tx_writes ` set c)" using Cons.prems(3) c that by (auto simp: transactions_conflict_def)
      then show ?thesis using repair_component_effect [OF Inr [unfolded p]] Cons.prems(1) by simp
    qed
    have "freshness_failure h nxt tx vs = freshness_failure h cur tx vs"
      by (rule freshness_agree) (use same assms(1) in \<open>simp add: wf_tx_def\<close>)
    then have "repair_components h meas boundary vs (Suc i) cs nxt = Inl KeyError"
      using Cons.IH [of nxt "Suc i"] Cons.prems c repair_component_dom [OF Inr [unfolded p]] by simp
    then show ?thesis using Inr p by simp
  qed
qed simp

text \<open>A transaction that conflicts with no other is a component of its own.\<close>

lemma isolated_component:
  assumes "distinct txs" "tx \<in> set txs" "\<forall>q \<in> set txs. q = tx \<or> \<not> transactions_conflict tx q"
    and "c \<in> set (tx_components txs)" "tx \<in> set c"
  shows "c = [tx]"
proof -
  have ms: "mset (concat (tx_components txs)) = mset txs" by (simp add: tx_components_def groups_mset)
  then have "distinct (concat (tx_components txs))" using assms(1) mset_eq_imp_distinct_iff by blast
  then have d: "distinct c" using assms(4) by (simp add: distinct_concat_iff)
  have sub: "set c \<subseteq> set txs" using ms assms(4) by (metis UN_upper set_concat set_mset_mset)
  have "y = tx" if "joined transactions_conflict (set c) tx y" for y
    using that unfolding joined_def by induction (use assms(3) sub in auto)
  moreover have "joined transactions_conflict (set c) tx y" if "y \<in> set c" for y
    using tc.groups_joined [of c "sort_key tx_id txs"] assms(4,5) that by (simp add: tx_components_def)
  ultimately have "set c = {tx}" using assms(5) by blast
  then show ?thesis using d by (cases c; cases "tl c") auto
qed

lemma receipt_component:
  assumes "transactional_repair_receipt h meas boundary st txs vs = Inl err"
  shows "repair_components h meas boundary vs 0 (tx_components txs) st = Inl err"
  using assms by (cases "repair_components h meas boundary vs 0 (tx_components txs) st")
    (auto simp: transactional_repair_receipt_def Let_def)

lemma components_members:
  "\<Union> (set ` set (tx_components txs)) = set txs"
  by (metis groups_mset set_concat set_mset_mset tx_components_def set_sort)

end
