(* ===== verification/Consensus_Graph.thy ===== *)
theory Consensus_Graph
  imports Consensus_Tx
begin

text \<open>
  The exhaustive check of a finite repair net and the gauge relabeling check
  (\<open>oph_fpe/consensus/transactional_repair.py\<close>): nodes are state hashes, the adjacency
  dictionary is built from the declared states and their transitions, and the report collects
  every violation.  Strongly connected components are found by Tarjan's recursive search.
\<close>

section \<open>The transition graph\<close>

type_synonym adjacency = "(string \<times> string list) list"

definition declared_hashes :: "'v hash_fn \<Rightarrow> 'v cstate list \<Rightarrow> string list" where
  "declared_hashes h rows = uniq (map h rows)"

text \<open>A dictionary comprehension keeps the last state of a hash; \<open>setdefault\<close> the first target.\<close>

definition last_row :: "'v hash_fn \<Rightarrow> 'v cstate list \<Rightarrow> string \<Rightarrow> 'v cstate" where
  "last_row h rows x = last (filter (\<lambda>s. h s = x) rows)"

definition undeclared_targets ::
  "'v hash_fn \<Rightarrow> 'v cstate list \<Rightarrow> ('v cstate \<Rightarrow> 'v cstate list) \<Rightarrow> (string \<times> 'v cstate) list" where
  "undeclared_targets h rows step =
     filter (\<lambda>(x, t). x \<notin> set (declared_hashes h rows))
       (concat (map (\<lambda>s. map (\<lambda>t. (h t, t)) (step s)) rows))"

definition all_hashes ::
  "'v hash_fn \<Rightarrow> 'v cstate list \<Rightarrow> ('v cstate \<Rightarrow> 'v cstate list) \<Rightarrow> string list" where
  "all_hashes h rows step =
     declared_hashes h rows @ uniq (map fst (undeclared_targets h rows step))"

definition by_hash ::
  "'v hash_fn \<Rightarrow> 'v cstate list \<Rightarrow> ('v cstate \<Rightarrow> 'v cstate list) \<Rightarrow> string \<Rightarrow> 'v cstate" where
  "by_hash h rows step x = (if x \<in> set (declared_hashes h rows) then last_row h rows x
     else the (map_of (undeclared_targets h rows step) x))"

definition adjacency_of ::
  "'v hash_fn \<Rightarrow> 'v cstate list \<Rightarrow> ('v cstate \<Rightarrow> 'v cstate list) \<Rightarrow> adjacency" where
  "adjacency_of h rows step =
     map (\<lambda>x. (x, map h (step (last_row h rows x)))) (declared_hashes h rows)
     @ map (\<lambda>x. (x, [])) (uniq (map fst (undeclared_targets h rows step)))"

record 'm edge_row =
  er_source :: string
  er_target :: string
  er_before :: 'm
  er_after :: 'm
  er_strict :: bool

definition edge_rows ::
  "'v hash_fn \<Rightarrow> ('v cstate \<Rightarrow> 'm::order) \<Rightarrow> 'v cstate list \<Rightarrow> ('v cstate \<Rightarrow> 'v cstate list) \<Rightarrow>
   'm edge_row list" where
  "edge_rows h meas rows step = concat (map (\<lambda>s. map (\<lambda>t.
     \<lparr>er_source = h s, er_target = h t, er_before = meas s, er_after = meas t,
      er_strict = (meas t < meas s)\<rparr>) (step s)) rows)"

section \<open>Strongly connected components\<close>

text \<open>
  The state of the search; the top of the stack is the head of the list, and a node is on the
  stack exactly when it is a member of it.  The recursion depth is bounded by the fuel, which
  the number of nodes suffices for.
\<close>

record scc_state =
  next_index :: nat
  scc_stack :: "string list"
  node_index :: "(string, nat) fmap"
  lowlink :: "(string, nat) fmap"
  scc_list :: "string list list"

definition enter_node :: "string \<Rightarrow> scc_state \<Rightarrow> scc_state" where
  "enter_node v t = t\<lparr>node_index := fmupd v (next_index t) (node_index t),
     lowlink := fmupd v (next_index t) (lowlink t), next_index := Suc (next_index t),
     scc_stack := v # scc_stack t\<rparr>"

definition low_of :: "scc_state \<Rightarrow> string \<Rightarrow> nat" where
  "low_of t v = the (fmlookup (lowlink t) v)"

definition index_of :: "scc_state \<Rightarrow> string \<Rightarrow> nat" where
  "index_of t v = the (fmlookup (node_index t) v)"

definition lower_link :: "string \<Rightarrow> nat \<Rightarrow> scc_state \<Rightarrow> scc_state" where
  "lower_link v n t = t\<lparr>lowlink := fmupd v (min (low_of t v) n) (lowlink t)\<rparr>"

definition close_node :: "string \<Rightarrow> scc_state \<Rightarrow> scc_state" where
  "close_node v t = (if low_of t v = index_of t v
     then t\<lparr>scc_stack := drop 1 (dropWhile (\<lambda>w. w \<noteq> v) (scc_stack t)),
            scc_list := scc_list t @ [sort (takeWhile (\<lambda>w. w \<noteq> v) (scc_stack t) @ [v])]\<rparr>
     else t)"

fun visit :: "nat \<Rightarrow> adjacency \<Rightarrow> string \<Rightarrow> scc_state \<Rightarrow> scc_state option"
  and visit_succs :: "nat \<Rightarrow> adjacency \<Rightarrow> string \<Rightarrow> string list \<Rightarrow> scc_state \<Rightarrow> scc_state option" where
  "visit 0 adj v t = None"
| "visit (Suc n) adj v t =
     map_option (close_node v) (visit_succs n adj v (succs adj v) (enter_node v t))"
| "visit_succs n adj v [] t = Some t"
| "visit_succs n adj v (w # ws) t =
     (if w \<notin> fmdom' (node_index t)
      then (case visit n adj w t of None \<Rightarrow> None
            | Some t' \<Rightarrow> visit_succs n adj v ws (lower_link v (low_of t' w) t'))
      else if w \<in> set (scc_stack t) then visit_succs n adj v ws (lower_link v (index_of t w) t)
      else visit_succs n adj v ws t)"

fun visit_all :: "nat \<Rightarrow> adjacency \<Rightarrow> string list \<Rightarrow> scc_state \<Rightarrow> scc_state option" where
  "visit_all n adj [] t = Some t"
| "visit_all n adj (v # vs) t =
     (if v \<in> fmdom' (node_index t) then visit_all n adj vs t
      else (case visit n adj v t of None \<Rightarrow> None | Some t' \<Rightarrow> visit_all n adj vs t'))"

definition scc_search :: "adjacency \<Rightarrow> scc_state option" where
  "scc_search adj = visit_all (length adj) adj (sort (map fst adj))
     \<lparr>next_index = 0, scc_stack = [], node_index = fmempty, lowlink = fmempty, scc_list = []\<rparr>"

definition strongly_connected_components :: "adjacency \<Rightarrow> string list list" where
  "strongly_connected_components adj = (case scc_search adj of None \<Rightarrow> [] | Some t \<Rightarrow> scc_list t)"

section \<open>The exhaustive report\<close>

definition local_diamond_violations :: "adjacency \<Rightarrow> (string \<times> string \<times> string) list" where
  "local_diamond_violations adj = concat (map (\<lambda>(x, ss).
     map (\<lambda>(l, r). (x, l, r)) (filter (\<lambda>(l, r). reachable_from adj l \<inter> reachable_from adj r = {})
       (pairs_of (sort (uniq ss))))) adj)"

definition terminals_of :: "adjacency \<Rightarrow> string \<Rightarrow> string list" where
  "terminals_of adj x =
     sorted_list_of_set (Set.filter (\<lambda>n. succs adj n = []) (reachable_from adj x))"

definition terminal_violations :: "adjacency \<Rightarrow> string list \<Rightarrow> (string \<times> string list) list" where
  "terminal_violations adj nodes = map (\<lambda>x. (x, terminals_of adj x))
     (filter (\<lambda>x. length (terminals_of adj x) \<noteq> 1) nodes)"

definition terminal_consistency_violations ::
  "adjacency \<Rightarrow> (string \<Rightarrow> bool) \<Rightarrow> string list \<Rightarrow> (string \<times> string) list" where
  "terminal_consistency_violations adj consistent nodes = concat (map (\<lambda>x.
     map (Pair x) (filter (\<lambda>y. \<not> consistent y) (terminals_of adj x))) nodes)"

definition consistent_nonterminal_violations ::
  "adjacency \<Rightarrow> (string \<Rightarrow> bool) \<Rightarrow> string list \<Rightarrow> (string \<times> string list) list" where
  "consistent_nonterminal_violations adj consistent nodes =
     map (\<lambda>x. (x, sort (uniq (succs adj x))))
       (filter (\<lambda>x. consistent x \<and> succs adj x \<noteq> []) nodes)"

definition nontrivial_sccs :: "adjacency \<Rightarrow> string list list" where
  "nontrivial_sccs adj = filter (\<lambda>c. 1 < length c \<or> list_ex (\<lambda>v. v \<in> set (succs adj v)) c)
     (strongly_connected_components adj)"

record graph_report =
  graph_receipt :: bool
  closure_receipt :: bool
  diamond_ok :: bool
  completeness_receipt :: bool
  descent_receipt :: bool
  state_count :: nat
  declared_count :: nat
  edge_count :: nat

definition exhaustive_transition_graph_report ::
  "'v hash_fn \<Rightarrow> ('v cstate \<Rightarrow> 'm::order) \<Rightarrow> 'v cstate list \<Rightarrow> ('v cstate \<Rightarrow> 'v cstate list) \<Rightarrow>
   ('v cstate \<Rightarrow> bool) option \<Rightarrow> graph_report" where
  "exhaustive_transition_graph_report h meas rows step consistency =
     (let adj = adjacency_of h rows step;
          nodes = sort (all_hashes h rows step);
          es = edge_rows h meas rows step;
          closed = (filter (\<lambda>r. er_target r \<notin> set (declared_hashes h rows)) es = []);
          descending = (filter (\<lambda>r. \<not> er_strict r) es = []);
          diamonds = (local_diamond_violations adj = []);
          unique = (terminal_violations adj nodes = []);
          exact = (case consistency of None \<Rightarrow> True | Some f \<Rightarrow>
             terminal_consistency_violations adj (f \<circ> by_hash h rows step) nodes = [] \<and>
             consistent_nonterminal_violations adj (f \<circ> by_hash h rows step) nodes = []);
          nonempty = (declared_hashes h rows \<noteq> [])
      in \<lparr>graph_receipt = (nonempty \<and> consistency \<noteq> None \<and> closed \<and> descending \<and> diamonds \<and> unique \<and>
             exact \<and> nontrivial_sccs adj = []),
          closure_receipt = (nonempty \<and> closed), diamond_ok = (nonempty \<and> closed \<and> diamonds),
          completeness_receipt = (nonempty \<and> consistency \<noteq> None \<and> closed \<and> unique \<and> exact),
          descent_receipt = (nonempty \<and> closed \<and> descending),
          state_count = length nodes, declared_count = length (declared_hashes h rows),
          edge_count = length es\<rparr>)"

section \<open>Gauge relabeling\<close>

definition quotient_groups ::
  "'v hash_fn \<Rightarrow> ('r \<Rightarrow> 'v cstate) \<Rightarrow> 'r list \<Rightarrow> (string \<times> 'r list) list" where
  "quotient_groups h qm reps = map (\<lambda>q. (q, filter (\<lambda>r. h (qm r) = q) reps))
     (uniq (map (\<lambda>r. h (qm r)) reps))"

definition target_hashes ::
  "'v hash_fn \<Rightarrow> ('r \<Rightarrow> 'v cstate) \<Rightarrow> ('r \<Rightarrow> 'r list) \<Rightarrow> 'r \<Rightarrow> string list" where
  "target_hashes h qm step r = sort (map (\<lambda>t. h (qm t)) (step r))"

record gauge_report =
  gauge_receipt :: bool
  class_count :: nat
  representative_pairs :: nat
  gauge_violations :: "(string \<times> nat) list"

definition gauge_relabeling_report ::
  "'v hash_fn \<Rightarrow> ('r \<Rightarrow> 'v cstate) \<Rightarrow> ('r \<Rightarrow> 'r list) \<Rightarrow> 'r list \<Rightarrow> gauge_report" where
  "gauge_relabeling_report h qm step reps =
     (let groups = quotient_groups h qm reps;
          violations = map (\<lambda>(q, rs). (q, length rs)) (filter (\<lambda>(q, rs).
            list_ex (\<lambda>r. target_hashes h qm step r \<noteq> target_hashes h qm step (hd rs)) (drop 1 rs))
            groups);
          pairs = sum_list (map (\<lambda>(q, rs). length rs * (length rs - 1) div 2) groups)
      in \<lparr>gauge_receipt = (0 < pairs \<and> violations = []), class_count = length groups,
          representative_pairs = pairs, gauge_violations = violations\<rparr>)"

section \<open>The fuel of the component search suffices\<close>

lemma visit_succs_fuel:
  assumes P: "\<And>w t. w \<in> V \<Longrightarrow> w \<notin> fmdom' (node_index t) \<Longrightarrow> card (V - fmdom' (node_index t)) \<le> n \<Longrightarrow>
      \<exists>t'. visit n adj w t = Some t' \<and> fmdom' (node_index t) \<subseteq> fmdom' (node_index t')"
    and "finite V" "set ws \<subseteq> V" "card (V - fmdom' (node_index t)) \<le> n"
  shows "\<exists>t'. visit_succs n adj v ws t = Some t' \<and> fmdom' (node_index t) \<subseteq> fmdom' (node_index t')"
  using assms(3,4)
proof (induction ws arbitrary: t)
  case (Cons w ws)
  show ?case
  proof (cases "w \<in> fmdom' (node_index t)")
    case True
    have "\<exists>t'. visit_succs n adj v ws s = Some t' \<and> fmdom' (node_index t) \<subseteq> fmdom' (node_index t')"
      if "node_index s = node_index t" for s using Cons.IH [of s] Cons.prems that by simp
    then show ?thesis using True by (simp add: lower_link_def)
  next
    case False
    then obtain t1 where t1: "visit n adj w t = Some t1" "fmdom' (node_index t) \<subseteq> fmdom' (node_index t1)"
      using P [of w t] Cons.prems by auto
    have "card (V - fmdom' (node_index t1)) \<le> card (V - fmdom' (node_index t))"
      using t1(2) assms(2) by (intro card_mono) auto
    then have "\<exists>t'. visit_succs n adj v ws (lower_link v (low_of t1 w) t1) = Some t' \<and>
        fmdom' (node_index t1) \<subseteq> fmdom' (node_index t')"
      using Cons.IH [of "lower_link v (low_of t1 w) t1"] Cons.prems by (simp add: lower_link_def)
    then show ?thesis using False t1 by auto
  qed
qed simp

lemma visit_fuel:
  assumes "finite V" "\<And>x. x \<in> V \<Longrightarrow> set (succs adj x) \<subseteq> V"
  shows "v \<in> V \<Longrightarrow> v \<notin> fmdom' (node_index t) \<Longrightarrow> card (V - fmdom' (node_index t)) \<le> n \<Longrightarrow>
    \<exists>t'. visit n adj v t = Some t' \<and> insert v (fmdom' (node_index t)) \<subseteq> fmdom' (node_index t')"
proof (induction n arbitrary: v t)
  case 0
  then have "V - fmdom' (node_index t) = {}" using assms(1) by simp
  with 0 show ?case by blast
next
  case (Suc n)
  have ix: "fmdom' (node_index (enter_node v t)) = insert v (fmdom' (node_index t))"
    by (simp add: enter_node_def)
  have "V - fmdom' (node_index (enter_node v t)) = (V - fmdom' (node_index t)) - {v}"
    unfolding ix by blast
  then have "card (V - fmdom' (node_index (enter_node v t))) \<le> n"
    using Suc.prems assms(1) by simp
  then obtain t1 where "visit_succs n adj v (succs adj v) (enter_node v t) = Some t1"
    "fmdom' (node_index (enter_node v t)) \<subseteq> fmdom' (node_index t1)"
    using visit_succs_fuel [of V n adj "succs adj v" "enter_node v t" v] Suc.IH assms Suc.prems(1)
    by (metis insert_subset)
  moreover have "node_index (close_node v t1) = node_index t1" by (simp add: close_node_def)
  ultimately show ?case using ix by simp
qed

lemma visit_all_fuel:
  assumes "finite V" "\<And>x. x \<in> V \<Longrightarrow> set (succs adj x) \<subseteq> V" "card V \<le> n"
  shows "set vs \<subseteq> V \<Longrightarrow> \<exists>t'. visit_all n adj vs t = Some t' \<and>
    fmdom' (node_index t) \<union> set vs \<subseteq> fmdom' (node_index t')"
proof (induction vs arbitrary: t)
  case (Cons v vs)
  show ?case
  proof (cases "v \<in> fmdom' (node_index t)")
    case True
    then show ?thesis using Cons.IH [of t] Cons.prems by auto
  next
    case False
    have "card (V - fmdom' (node_index t)) \<le> n"
      using assms(1,3) card_mono [of V "V - fmdom' (node_index t)"] by auto
    then obtain t1 where t1: "visit n adj v t = Some t1"
      "insert v (fmdom' (node_index t)) \<subseteq> fmdom' (node_index t1)"
      using visit_fuel [OF assms(1,2), of v t n] False Cons.prems by auto
    obtain t2 where "visit_all n adj vs t1 = Some t2" "fmdom' (node_index t1) \<union> set vs \<subseteq> fmdom' (node_index t2)"
      using Cons.IH [of t1] Cons.prems by auto
    then show ?thesis using False t1 by auto
  qed
qed simp

definition closed_adjacency :: "adjacency \<Rightarrow> bool" where
  "closed_adjacency adj \<longleftrightarrow> list_all (\<lambda>(x, ss). set ss \<subseteq> fst ` set adj) adj"

lemma closed_succs: "closed_adjacency adj \<Longrightarrow> set (succs adj x) \<subseteq> fst ` set adj"
  by (cases "map_of adj x") (auto simp: closed_adjacency_def succs_def list_all_iff dest!: map_of_SomeD)

lemma scc_search_returns:
  assumes "closed_adjacency adj"
  shows "\<exists>t. scc_search adj = Some t \<and> fst ` set adj \<subseteq> fmdom' (node_index t)"
proof -
  have "card (fst ` set adj) \<le> length adj"
    by (metis card_image_le card_length le_trans List.finite_set)
  then show ?thesis
    using visit_all_fuel [of "fst ` set adj" adj "length adj" "sort (map fst adj)"]
      closed_succs [OF assms] unfolding scc_search_def by simp blast
qed

section \<open>What the report's graph is\<close>

lemma map_of_tagged: "map_of (map (\<lambda>x. (x, f x)) xs) x = (if x \<in> set xs then Some (f x) else None)"
  by (induction xs) auto

lemma adjacency_keys: "fst ` set (adjacency_of h rows step) = set (all_hashes h rows step)"
  by (simp add: adjacency_of_def all_hashes_def image_Un image_image)

lemma succs_declared: "x \<in> set (declared_hashes h rows) \<Longrightarrow>
    succs (adjacency_of h rows step) x = map h (step (last_row h rows x))"
  by (simp add: succs_def adjacency_of_def map_of_tagged map_add_def split: option.splits)

lemma succs_other: "x \<notin> set (declared_hashes h rows) \<Longrightarrow> succs (adjacency_of h rows step) x = []"
  by (simp add: succs_def adjacency_of_def map_of_tagged map_add_def split: option.splits)

lemma last_row: "x \<in> set (declared_hashes h rows) \<Longrightarrow>
    last_row h rows x \<in> set rows \<and> h (last_row h rows x) = x"
proof -
  assume "x \<in> set (declared_hashes h rows)"
  then have "filter (\<lambda>s. h s = x) rows \<noteq> []" by (auto simp: declared_hashes_def filter_empty_conv)
  then have "last (filter (\<lambda>s. h s = x) rows) \<in> set (filter (\<lambda>s. h s = x) rows)" by (rule last_in_set)
  then show ?thesis by (simp add: last_row_def)
qed

lemma adjacency_closed: "closed_adjacency (adjacency_of h rows step)"
proof -
  have "h t \<in> set (all_hashes h rows step)" if "s \<in> set rows" "t \<in> set (step s)" for s t
    using that by (force simp: all_hashes_def undeclared_targets_def)
  note targets = this
  have "set ss \<subseteq> set (all_hashes h rows step)"
    if xs: "(x, ss) \<in> set (adjacency_of h rows step)" for x ss
  proof -
    consider "ss = []" | "x \<in> set (declared_hashes h rows)" "ss = map h (step (last_row h rows x))"
      using xs by (auto simp: adjacency_of_def)
    then show ?thesis
    proof cases
      case 2
      then show ?thesis using last_row [OF 2(1)] targets by auto
    qed simp
  qed
  then show ?thesis by (auto simp: closed_adjacency_def list_all_iff adjacency_keys)
qed

lemma finite_edges_adjacency: "finite (edges (adjacency_of h rows step))"
proof (rule finite_subset)
  show "edges (adjacency_of h rows step) \<subseteq>
    set (all_hashes h rows step) \<times> set (all_hashes h rows step)"
  proof (rule subrelI)
    fix x y assume "(x, y) \<in> edges (adjacency_of h rows step)"
    then have y: "y \<in> set (succs (adjacency_of h rows step) x)" by (simp add: edges_def)
    then have "x \<in> fst ` set (adjacency_of h rows step)" using succs_outside by fastforce
    then show "(x, y) \<in> set (all_hashes h rows step) \<times> set (all_hashes h rows step)"
      using y closed_succs [OF adjacency_closed] adjacency_keys by blast
  qed
qed simp

lemma terminals_of_set: "set (terminals_of (adjacency_of h rows step) x) =
    {y. (x, y) \<in> (edges (adjacency_of h rows step))\<^sup>* \<and> succs (adjacency_of h rows step) y = []}"
proof -
  have "finite {y. (x, y) \<in> (edges (adjacency_of h rows step))\<^sup>*}"
    using finite_edges_adjacency by (metis finite_rtrancl_Image Image_singleton finite.emptyI finite.insertI)
  then show ?thesis by (simp add: terminals_of_def reachable_from_eq Collect_conj_eq [symmetric])
qed

lemma reportE:
  assumes "graph_receipt (exhaustive_transition_graph_report h meas rows step consistency)"
  obtains f where "consistency = Some f"
    "\<And>s t. s \<in> set rows \<Longrightarrow> t \<in> set (step s) \<Longrightarrow> h t \<in> set (declared_hashes h rows) \<and> meas t < meas s"
    "undeclared_targets h rows step = []"
    "\<And>x. x \<in> set (declared_hashes h rows) \<Longrightarrow> length (terminals_of (adjacency_of h rows step) x) = 1 \<and>
       list_all (f \<circ> last_row h rows) (terminals_of (adjacency_of h rows step) x) \<and>
       (f (last_row h rows x) \<longrightarrow> succs (adjacency_of h rows step) x = [])"
proof -
  let ?adj = "adjacency_of h rows step" and ?b = "by_hash h rows step"
  obtain f where f: "consistency = Some f"
    using assms by (auto simp: exhaustive_transition_graph_report_def Let_def)
  have r: "\<forall>r \<in> set (edge_rows h meas rows step). er_target r \<in> set (declared_hashes h rows) \<and> er_strict r"
    "terminal_violations ?adj (sort (all_hashes h rows step)) = []"
    "terminal_consistency_violations ?adj (f \<circ> ?b) (sort (all_hashes h rows step)) = []"
    "consistent_nonterminal_violations ?adj (f \<circ> ?b) (sort (all_hashes h rows step)) = []"
    using assms by (auto simp: exhaustive_transition_graph_report_def Let_def f filter_empty_conv)
  have e: "h t \<in> set (declared_hashes h rows) \<and> meas t < meas s" if "s \<in> set rows" "t \<in> set (step s)" for s t
    using r(1) that by (auto simp: edge_rows_def)
  then have no_targets: "undeclared_targets h rows step = []"
    by (auto simp: undeclared_targets_def filter_empty_conv)
  then have all: "set (all_hashes h rows step) = set (declared_hashes h rows)" by (simp add: all_hashes_def)
  have t: "length (terminals_of ?adj x) = 1"
    "\<And>y. y \<in> set (terminals_of ?adj x) \<Longrightarrow> f (?b y)"
    "f (?b x) \<Longrightarrow> succs ?adj x = []" if "x \<in> set (declared_hashes h rows)" for x
    using r(2-4) that all
    by (auto simp: terminal_violations_def terminal_consistency_violations_def
        consistent_nonterminal_violations_def filter_empty_conv)
  have sub: "set (terminals_of ?adj x) \<subseteq> set (declared_hashes h rows)"
    if x: "x \<in> set (declared_hashes h rows)" for x
  proof
    fix y assume "y \<in> set (terminals_of ?adj x)"
    then have "(x, y) \<in> (edges ?adj)\<^sup>*" by (simp add: terminals_of_set)
    then show "y \<in> set (declared_hashes h rows)"
      using x closed_succs [OF adjacency_closed, of h rows step] adjacency_keys [of h rows step] all
      by (induction rule: rtrancl_induct) (auto simp: edges_def)
  qed
  have b: "?b y = last_row h rows y" if "y \<in> set (declared_hashes h rows)" for y
    using that by (simp add: by_hash_def)
  show thesis
  proof (rule that [OF f e no_targets])
    fix x assume x: "x \<in> set (declared_hashes h rows)"
    have "list_all (f \<circ> last_row h rows) (terminals_of ?adj x)"
      using t(2) [OF x] sub [OF x] b by (fastforce simp: list_all_iff)
    then show "length (terminals_of ?adj x) = 1 \<and> list_all (f \<circ> last_row h rows) (terminals_of ?adj x) \<and>
       (f (last_row h rows x) \<longrightarrow> succs ?adj x = [])"
      using t(1,3) [OF x] b [OF x] by simp
  qed
qed

lemma terminals_single:
  assumes "length (terminals_of (adjacency_of h rows step) x) = 1"
  shows "\<exists>!y. (x, y) \<in> (edges (adjacency_of h rows step))\<^sup>* \<and> succs (adjacency_of h rows step) y = []"
proof -
  obtain y where "terminals_of (adjacency_of h rows step) x = [y]"
    using assms by (cases "terminals_of (adjacency_of h rows step) x") auto
  then have "z \<in> {y. (x, y) \<in> (edges (adjacency_of h rows step))\<^sup>* \<and>
      succs (adjacency_of h rows step) y = []} \<longleftrightarrow> z = y" for z
    unfolding terminals_of_set [symmetric] by simp
  then show ?thesis unfolding mem_Collect_eq by (intro ex1I [of _ y]) simp_all
qed

lemma descending_acyclic:
  assumes "\<And>s t. s \<in> set rows \<Longrightarrow> t \<in> set (step s) \<Longrightarrow> h t \<in> set (declared_hashes h rows) \<and> meas t < (meas s :: 'm::order)"
    and inj: "\<And>s t. s \<in> set rows \<Longrightarrow> t \<in> set (step s) \<Longrightarrow> meas (last_row h rows (h t)) = meas t"
  shows "acyclic (edges (adjacency_of h rows step))" "wf ((edges (adjacency_of h rows step))\<inverse>)"
proof -
  let ?m = "\<lambda>x. meas (last_row h rows x)"
  have "?m y < ?m x" if "(x, y) \<in> edges (adjacency_of h rows step)" for x y
  proof -
    have y: "y \<in> set (succs (adjacency_of h rows step) x)" using that by (simp add: edges_def)
    then have x: "x \<in> set (declared_hashes h rows)" using succs_other by fastforce
    then obtain t where "t \<in> set (step (last_row h rows x))" "y = h t"
      using y by (auto simp: succs_declared)
    then show ?thesis using assms last_row [OF x] by metis
  qed
  then have "(edges (adjacency_of h rows step)) \<subseteq> {(x, y). ?m y < ?m x}" by auto
  moreover have "acyclic {(x, y). ?m y < ?m x}"
  proof -
    have "?m y < ?m x" if "(x, y) \<in> {(x, y). ?m y < ?m x}\<^sup>+" for x y
      using that by (induction rule: trancl_induct) auto
    then show ?thesis unfolding acyclic_def by blast
  qed
  ultimately show ac: "acyclic (edges (adjacency_of h rows step))" by (rule acyclic_subset [rotated])
  show "wf ((edges (adjacency_of h rows step))\<inverse>)"
    by (rule finite_acyclic_wf_converse [OF finite_edges_adjacency ac])
qed

end
