(* ===== verification/Consensus_Properties.thy ===== *)
theory Consensus_Properties
  imports Consensus_Tx
begin

text \<open>
  The properties of the prepared quotient transactions, with witnesses on a small integer
  state: the diamond report, the repair receipt, aggregation, conflict components, and an
  unhandled exception of the receipt.
\<close>

section \<open>Properties\<close>

text \<open>C10: Two independent prepared transactions: whenever the diamond report reaches its
  terminal comparison, the two orders end in the same state, the receipt is granted and carries
  the hash of that state, the measure went down and the boundary is unchanged.\<close>

theorem diamond_terminals_agree:
  assumes "wf_tx l" "wf_tx r"
    "atomic_diamond_report h meas boundary st l r = DiamondTerminals a b same nf"
  shows "a = b \<and> same \<and> nf = Some (h a) \<and> a = apply_payload (apply_payload st l) r \<and>
    meas a < meas st \<and> boundary a = boundary st"
proof -
  let ?c = "\<lambda>s tx. commit_transaction h meas boundary s tx None"
  have nc: "\<not> transactions_conflict l r" using assms(3) by (auto simp: atomic_diamond_report_def)
  have com: "cr_committed (?c st l)" "cr_committed (?c (cr_state (?c st l)) r)"
    "cr_committed (?c st r)" "cr_committed (?c (cr_state (?c st r)) l)"
    and ab: "a = cr_state (?c (cr_state (?c st l)) r)" "b = cr_state (?c (cr_state (?c st r)) l)"
      "same = (h a = h b)" "nf = (if same then Some (h a) else None)"
    using assms(3) by (auto simp: atomic_diamond_report_def Let_def split: if_splits)
  have eff: "cr_state (?c s tx) = apply_payload s tx \<and> meas (apply_payload s tx) < meas s \<and>
      boundary (apply_payload s tx) = boundary s" if "cr_committed (?c s tx)" for s tx
    using that by (rule_tac commit_transaction_cases [of h s tx None meas boundary]) auto
  have "a = apply_payload (apply_payload st l) r" "b = apply_payload (apply_payload st r) l"
    using ab(1,2) com eff by metis+
  moreover from this have "a = b" using apply_payload_commute [OF assms(1,2) nc] by metis
  moreover have "meas a < meas st" "boundary a = boundary st"
    using eff [OF com(1)] eff [OF com(2)] ab(1) by auto
  ultimately show ?thesis using ab(3,4) by simp
qed

text \<open>C8: The transactional repair receipt never makes things worse: the boundary data is
  preserved, the measure does not grow and strictly drops as soon as one component commits,
  nothing changes when none does, registers no transaction writes keep their values, and a
  granted receipt means that at least one component exists and every component committed.\<close>

theorem repair_receipt_effect:
  assumes "transactional_repair_receipt h meas boundary st txs vs = Inr rep" "list_all wf_tx txs"
  shows "boundary (rr_final_state rep) = boundary st \<and> meas (rr_final_state rep) \<le> meas st \<and>
    (list_ex row_committed (rr_rows rep) \<longrightarrow> meas (rr_final_state rep) < meas st) \<and>
    (\<not> list_ex row_committed (rr_rows rep) \<longrightarrow> rr_final_state rep = st) \<and>
    (\<forall>r. r \<notin> \<Union> (tx_writes ` set txs) \<longrightarrow> fmlookup (rr_final_state rep) r = fmlookup st r) \<and>
    (rr_receipt rep \<longrightarrow> list_all row_committed (rr_rows rep) \<and> rr_rows rep \<noteq> [] \<and>
       meas (rr_final_state rep) < meas st) \<and>
    rr_normal_form_hash rep = h (rr_final_state rep)"
proof -
  let ?cs = "tx_components txs"
  obtain rows final where run: "repair_components h meas boundary vs 0 ?cs st = Inr (rows, final)"
    and rep: "rr_rows rep = rows" "rr_final_state rep = final" "rr_normal_form_hash rep = h final"
      "rr_receipt rep = (txs \<noteq> [] \<and> length rows = length ?cs \<and> list_all row_committed rows)"
    using assms(1) by (auto simp: transactional_repair_receipt_def Let_def elim!: rbind_eq_InrE)
  have ms: "mset (concat ?cs) = mset txs" by (simp add: tx_components_def groups_mset)
  then have sets: "\<Union> (set ` set ?cs) = set txs" by (metis set_concat set_mset_mset)
  then have "list_all (list_all wf_tx) ?cs" using assms(2) by (fastforce simp: list_all_iff)
  from repair_components_effect [OF run this]
  have e: "boundary final = boundary st" "length rows = length ?cs" "meas final \<le> meas st"
    "list_ex row_committed rows \<longrightarrow> meas final < meas st" "\<not> list_ex row_committed rows \<longrightarrow> final = st"
    "\<forall>r. r \<notin> \<Union> (tx_writes ` set txs) \<longrightarrow> fmlookup final r = fmlookup st r"
    by (simp_all add: sets)
  have ne: "rows \<noteq> []" if "txs \<noteq> []"
  proof -
    have "?cs \<noteq> []" using that ms by auto
    then show ?thesis using e(2) by auto
  qed
  then have "list_ex row_committed rows" if "txs \<noteq> []" "list_all row_committed rows"
    using that by (cases rows) auto
  then show ?thesis using e ne rep by auto
qed

text \<open>An aggregate writes exactly the registers its members write, with values equal to
  every member's, reads what they read or write, and is fresh where it was built, so its own
  commit can only fail on the boundary or on descent.\<close>

theorem aggregate_represents_members:
  assumes "aggregate_component h st component i vs = Inr agg" "list_all wf_tx component"
  shows "tx_writes agg = \<Union> (tx_writes ` set component) \<and>
    tx_reads agg = \<Union> (tx_reads ` set component) \<union> tx_writes agg \<and>
    (\<forall>tx \<in> set component. \<forall>(k, v) \<in> set (dict_items (tx_payload tx)).
      \<exists>w. (k, w) \<in> set (tx_payload agg) \<and> value_key h w = value_key h v) \<and>
    cr_status (commit_transaction h meas boundary st agg None) \<in>
      {''COMMITTED'', ''BOUNDARY_CHANGED'', ''NO_DESCENT''}"
proof -
  have "cr_status (commit_transaction h meas boundary st agg None) \<in>
      {''COMMITTED'', ''BOUNDARY_CHANGED'', ''NO_DESCENT''}"
    by (rule commit_transaction_cases [of h st agg None meas boundary])
      (simp_all add: aggregate_fresh [OF assms(1)])
  then show ?thesis using aggregate_payload [OF assms] by (elim conjE, intro conjI)
qed

text \<open>The components of a transaction batch partition it; each is non-empty and connected
  by conflicts, and transactions of different components do not conflict.\<close>

theorem tx_components_partition:
  assumes "distinct txs"
  shows "mset (concat (tx_components txs)) = mset txs \<and>
    (\<forall>A \<in> set (tx_components txs). A \<noteq> [] \<and>
      (\<forall>p \<in> set A. \<forall>q \<in> set A. joined transactions_conflict (set A) p q)) \<and>
    sorted_wrt (\<lambda>A B. \<forall>p \<in> set A. \<forall>q \<in> set B. \<not> transactions_conflict p q) (tx_components txs)"
proof -
  have "sorted_wrt (\<lambda>A B. \<forall>p \<in> set A. \<forall>q \<in> set B. \<not> transactions_conflict p q) (tx_components txs)"
    unfolding tx_components_def using assms by (intro tc.groups_pairwise) simp
  moreover have "mset (concat (tx_components txs)) = mset txs"
    by (simp add: tx_components_def groups_mset)
  ultimately show ?thesis using tc.groups_joined unfolding tx_components_def by blast
qed

section \<open>A concrete run\<close>

definition dh :: "int hash_fn" where
  "dh st = concat (map (\<lambda>(k, v). k @ ''='' @ str_int v @ '';'') (items_of st))"

definition value_at :: "string \<Rightarrow> int cstate \<Rightarrow> int" where
  "value_at k st = (case fmlookup st k of None \<Rightarrow> 0 | Some v \<Rightarrow> v)"

definition demo_sum :: "int cstate \<Rightarrow> int" where
  "demo_sum st = value_at ''a'' st + value_at ''b'' st"

definition demo_state :: "int cstate" where
  "demo_state = fmap_of_list [(''a'', 1), (''b'', 1), (''z'', 7)]"

definition demo_tx :: "string \<Rightarrow> (string \<times> int) list \<Rightarrow> int tx" where
  "demo_tx r pay = \<lparr>tx_id = r, tx_reads = {r}, tx_writes = set (map fst pay), tx_snapshot = [(r, 1)],
     tx_payload = pay, tx_read_versions = []\<rparr>"

lemma demo_tx_wf: "wf_tx (demo_tx ''a'' [(''a'', 0)])" "wf_tx (demo_tx ''b'' [(''b'', 0)])"
  by (simp_all add: wf_tx_def demo_tx_def)

definition demo_txs :: "int tx list" where
  "demo_txs = [demo_tx ''b'' [(''b'', 0)], demo_tx ''a'' [(''a'', 0)]]"

lemma demo_diamond:
  "(case atomic_diamond_report dh demo_sum (value_at ''z'') demo_state
      (demo_tx ''a'' [(''a'', 0)]) (demo_tx ''b'' [(''b'', 0)]) of
      DiamondTerminals a b same nf \<Rightarrow> True | _ \<Rightarrow> False)"
  by code_simp

lemma demo_receipt:
  "(case transactional_repair_receipt dh demo_sum (value_at ''z'') demo_state demo_txs None of
      Inr rep \<Rightarrow> rr_receipt rep | _ \<Rightarrow> False)"
  by code_simp

lemma demo_aggregate:
  "(case aggregate_component dh demo_state [demo_tx ''a'' [(''a'', 0)]] None None of
      Inr agg \<Rightarrow> True | _ \<Rightarrow> False)"
  by code_simp

theorem diamond_terminals_agree_witness:
  "\<exists>a nf. atomic_diamond_report dh demo_sum (value_at ''z'') demo_state
      (demo_tx ''a'' [(''a'', 0)]) (demo_tx ''b'' [(''b'', 0)]) = DiamondTerminals a a True nf"
proof -
  obtain a b same nf where d: "atomic_diamond_report dh demo_sum (value_at ''z'') demo_state
      (demo_tx ''a'' [(''a'', 0)]) (demo_tx ''b'' [(''b'', 0)]) = DiamondTerminals a b same nf"
    using demo_diamond by (auto split: diamond_report.splits)
  from diamond_terminals_agree [OF demo_tx_wf d] d show ?thesis by auto
qed

theorem repair_receipt_effect_witness:
  "\<exists>rep. transactional_repair_receipt dh demo_sum (value_at ''z'') demo_state demo_txs None = Inr rep \<and>
     demo_sum (rr_final_state rep) < demo_sum demo_state"
proof -
  obtain rep where r: "transactional_repair_receipt dh demo_sum (value_at ''z'') demo_state demo_txs None
      = Inr rep" "rr_receipt rep" using demo_receipt by (auto split: sum.splits)
  have "list_all wf_tx demo_txs" using demo_tx_wf by (simp add: demo_txs_def)
  from repair_receipt_effect [OF r(1) this] r show ?thesis by blast
qed

theorem aggregate_represents_members_witness:
  "\<exists>agg. aggregate_component dh demo_state [demo_tx ''a'' [(''a'', 0)]] None None = Inr agg \<and>
     tx_writes agg = {''a''}"
proof -
  obtain agg where a: "aggregate_component dh demo_state [demo_tx ''a'' [(''a'', 0)]] None None = Inr agg"
    using demo_aggregate by (auto split: sum.splits)
  have "list_all wf_tx [demo_tx ''a'' [(''a'', 0)]]" using demo_tx_wf by simp
  from aggregate_represents_members [OF a this, where meas = demo_sum and boundary = demo_sum]
  have "tx_writes agg = \<Union> (tx_writes ` set [demo_tx ''a'' [(''a'', 0)]])" by blast
  with a show ?thesis by (simp add: demo_tx_def)
qed

theorem tx_components_partition_witness: "mset (concat (tx_components demo_txs)) = mset demo_txs"
proof -
  have "distinct demo_txs" by (simp add: demo_txs_def demo_tx_def)
  from tx_components_partition [OF this] show ?thesis by blast
qed




end
