(* ===== verification/Consensus_Graph_Properties.thy ===== *)
theory Consensus_Graph_Properties
  imports Consensus_Graph Consensus_Properties
begin

text \<open>
  The properties of the exhaustive transition graph report and of the gauge relabeling report,
  with witnesses on a counter that runs down to zero.
\<close>

text \<open>C9: A granted exhaustive receipt means what it says of the declared net: every transition
  leads to a declared state and strictly lowers the measure, from every declared state exactly
  one terminal state can be reached, that state is consistent, and a declared state is
  consistent exactly when it is terminal.\<close>

theorem exhaustive_receipt_sound:
  assumes "graph_receipt (exhaustive_transition_graph_report h meas rows step (Some f))"
  shows "(\<forall>s \<in> set rows. \<forall>t \<in> set (step s). h t \<in> h ` set rows \<and> meas t < meas s) \<and>
    (\<forall>s \<in> set rows. \<exists>!y. (h s, y) \<in> (edges (adjacency_of h rows step))\<^sup>* \<and>
       succs (adjacency_of h rows step) y = []) \<and>
    (\<forall>s \<in> set rows. \<forall>y. (h s, y) \<in> (edges (adjacency_of h rows step))\<^sup>* \<and>
       succs (adjacency_of h rows step) y = [] \<longrightarrow> f (last_row h rows y)) \<and>
    (\<forall>s \<in> set rows. f (last_row h rows (h s)) \<longleftrightarrow> succs (adjacency_of h rows step) (h s) = [])"
  using assms
proof (rule reportE)
  fix g
  let ?adj = "adjacency_of h rows step"
  assume g: "Some f = Some g"
    and e: "\<And>s t. s \<in> set rows \<Longrightarrow> t \<in> set (step s) \<Longrightarrow> h t \<in> set (declared_hashes h rows) \<and> meas t < meas s"
    and t: "\<And>x. x \<in> set (declared_hashes h rows) \<Longrightarrow> length (terminals_of ?adj x) = 1 \<and>
       list_all (g \<circ> last_row h rows) (terminals_of ?adj x) \<and> (g (last_row h rows x) \<longrightarrow> succs ?adj x = [])"
  have d: "h s \<in> set (declared_hashes h rows)" if "s \<in> set rows" for s
    using that by (simp add: declared_hashes_def)
  have fin: "f (last_row h rows y)" if "s \<in> set rows" "(h s, y) \<in> (edges ?adj)\<^sup>*" "succs ?adj y = []" for s y
    using t [OF d [OF that(1)]] that(2,3) g terminals_of_set [of h rows step "h s"]
    by (auto simp: list_all_iff)
  then have "f (last_row h rows (h s)) \<longleftrightarrow> succs ?adj (h s) = []" if "s \<in> set rows" for s
    using t [OF d [OF that]] g that by blast
  moreover have "\<exists>!y. (h s, y) \<in> (edges ?adj)\<^sup>* \<and> succs ?adj y = []" if "s \<in> set rows" for s
    using t [OF d [OF that]] terminals_single by blast
  moreover have "h t \<in> h ` set rows \<and> meas t < meas s" if "s \<in> set rows" "t \<in> set (step s)" for s t
    using e [OF that] by (simp add: declared_hashes_def)
  ultimately show ?thesis using fin by blast
qed

definition count_state :: "int \<Rightarrow> int cstate" where
  "count_state n = fmap_of_list [(''n'', n)]"

definition count_step :: "int cstate \<Rightarrow> int cstate list" where
  "count_step st = (let n = value_at ''n'' st in
     if n = 2 then [count_state 1, count_state 0] else if n = 1 then [count_state 0] else [])"

definition count_rows :: "int cstate list" where
  "count_rows = [count_state 0, count_state 1, count_state 2]"

definition at_zero :: "int cstate \<Rightarrow> bool" where
  "at_zero st \<longleftrightarrow> value_at ''n'' st = 0"

lemma count_receipt: "graph_receipt
    (exhaustive_transition_graph_report dh (value_at ''n'') count_rows count_step (Some at_zero))"
  by code_simp

theorem exhaustive_receipt_sound_witness:
  "at_zero (last_row dh count_rows (dh (count_state 0))) \<longleftrightarrow>
     succs (adjacency_of dh count_rows count_step) (dh (count_state 0)) = []"
  using exhaustive_receipt_sound [OF count_receipt] by (simp add: count_rows_def)

text \<open>When states with the same hash have the same measure, a granted receipt makes the
  transition graph terminating and confluent: it has no infinite path, and any two states
  reached from a declared state reach a common one.\<close>

theorem exhaustive_receipt_normalizes:
  assumes "graph_receipt (exhaustive_transition_graph_report h meas rows step consistency)"
    "\<forall>s t. h s = h t \<longrightarrow> meas s = meas t"
  shows "wf ((edges (adjacency_of h rows step))\<inverse>) \<and>
    (\<forall>s \<in> set rows. \<forall>y z. (h s, y) \<in> (edges (adjacency_of h rows step))\<^sup>* \<and>
       (h s, z) \<in> (edges (adjacency_of h rows step))\<^sup>* \<longrightarrow>
       (\<exists>w. (y, w) \<in> (edges (adjacency_of h rows step))\<^sup>* \<and>
            (z, w) \<in> (edges (adjacency_of h rows step))\<^sup>*))"
  using assms(1)
proof (rule reportE)
  fix g
  let ?E = "edges (adjacency_of h rows step)"
  assume e: "\<And>s t. s \<in> set rows \<Longrightarrow> t \<in> set (step s) \<Longrightarrow> h t \<in> set (declared_hashes h rows) \<and> meas t < meas s"
    and none: "undeclared_targets h rows step = []"
    and t: "\<And>x. x \<in> set (declared_hashes h rows) \<Longrightarrow> length (terminals_of (adjacency_of h rows step) x) = 1 \<and>
       list_all (g \<circ> last_row h rows) (terminals_of (adjacency_of h rows step) x) \<and>
       (g (last_row h rows x) \<longrightarrow> succs (adjacency_of h rows step) x = [])"
  have "meas (last_row h rows (h t)) = meas t" if "s \<in> set rows" "t \<in> set (step s)" for s t
    using last_row e [OF that] assms(2) by blast
  then have "wf (?E\<inverse>)" using descending_acyclic(2) e by blast
  moreover have "\<exists>w. (y, w) \<in> ?E\<^sup>* \<and> (z, w) \<in> ?E\<^sup>*"
    if s: "s \<in> set rows" and y: "(h s, y) \<in> ?E\<^sup>*" and z: "(h s, z) \<in> ?E\<^sup>*" for s y z
  proof -
    have dec: "v \<in> set (declared_hashes h rows)" if "(h s, v) \<in> ?E\<^sup>*" for v
      using that s none closed_succs [OF adjacency_closed, of h rows step] adjacency_keys [of h rows step]
      by (induction rule: rtrancl_induct) (auto simp: edges_def all_hashes_def declared_hashes_def)
    obtain w w' where w: "(y, w) \<in> ?E\<^sup>*" "succs (adjacency_of h rows step) w = []"
      and w': "(z, w') \<in> ?E\<^sup>*" "succs (adjacency_of h rows step) w' = []"
      using terminals_single t dec y z by metis
    have "h s \<in> set (declared_hashes h rows)" using s by (simp add: declared_hashes_def)
    then have "\<exists>!v. (h s, v) \<in> ?E\<^sup>* \<and> succs (adjacency_of h rows step) v = []"
      using terminals_single t by blast
    moreover have "(h s, w) \<in> ?E\<^sup>*" "(h s, w') \<in> ?E\<^sup>*"
      using y z w(1) w'(1) by (blast intro: rtrancl_trans)+
    ultimately have "w = w'" using w(2) w'(2) by blast
    then show ?thesis using w(1) w'(1) by blast
  qed
  ultimately show ?thesis by blast
qed

definition const_hash :: "int hash_fn" where
  "const_hash st = str_int (value_at ''n'' st)"

lemma str_int_inject: "str_int i = str_int j \<longleftrightarrow> i = j"
proof -
  have neg: "str_nat n \<noteq> CHR ''-'' # s" for n s
    using str_nat_digits [of n] by (cases "str_nat n") (auto simp: is_digit_def)
  show ?thesis using neg neg [symmetric] by (auto simp: str_int_def str_nat_inject)
qed

lemma count_receipt': "graph_receipt
    (exhaustive_transition_graph_report const_hash (value_at ''n'') count_rows count_step (Some at_zero))"
  by code_simp

theorem exhaustive_receipt_normalizes_witness:
  "wf ((edges (adjacency_of const_hash count_rows count_step))\<inverse>)"
proof -
  have "\<forall>s t. const_hash s = const_hash t \<longrightarrow> value_at ''n'' s = value_at ''n'' t"
    by (simp add: const_hash_def str_int_inject)
  from exhaustive_receipt_normalizes [OF count_receipt' this] show ?thesis by blast
qed

text \<open>The recursive search for strongly connected components always returns on the graph of
  the report, with the number of nodes as a bound of the recursion depth, and visits every
  node.\<close>

theorem component_search_returns:
  "\<exists>t. scc_search (adjacency_of h rows step) = Some t \<and>
     set (all_hashes h rows step) \<subseteq> fmdom' (node_index t) \<and>
     strongly_connected_components (adjacency_of h rows step) = scc_list t"
proof -
  obtain t where "scc_search (adjacency_of h rows step) = Some t"
    "fst ` set (adjacency_of h rows step) \<subseteq> fmdom' (node_index t)"
    using scc_search_returns [OF adjacency_closed] by blast
  then show ?thesis by (simp add: adjacency_keys strongly_connected_components_def)
qed

lemma sum_list_pos: "0 < sum_list (xs :: nat list) \<Longrightarrow> \<exists>n \<in> set xs. 0 < n"
  by (induction xs) auto

text \<open>A granted gauge receipt means that two representatives of one quotient class have the
  same multiset of quotient targets, and that at least one class has two representatives.\<close>

theorem gauge_receipt_sound:
  assumes "gauge_receipt (gauge_relabeling_report h qm step reps)"
  shows "(\<forall>r \<in> set reps. \<forall>s \<in> set reps. h (qm r) = h (qm s) \<longrightarrow>
      mset (map (\<lambda>t. h (qm t)) (step r)) = mset (map (\<lambda>t. h (qm t)) (step s))) \<and>
    (\<exists>i < length reps. \<exists>j < length reps. i \<noteq> j \<and> h (qm (reps ! i)) = h (qm (reps ! j)))"
proof
  let ?T = "target_hashes h qm step"
  have v: "\<forall>(q, rs) \<in> set (quotient_groups h qm reps).
      \<not> list_ex (\<lambda>r. ?T r \<noteq> ?T (hd rs)) (drop 1 rs)"
    using assms by (auto simp: gauge_relabeling_report_def Let_def filter_empty_conv)
  have same: "?T r = ?T (hd (filter (\<lambda>s. h (qm s) = h (qm r)) reps))" if "r \<in> set reps" for r
  proof -
    let ?rs = "filter (\<lambda>s. h (qm s) = h (qm r)) reps"
    have "(h (qm r), ?rs) \<in> set (quotient_groups h qm reps)" using that by (auto simp: quotient_groups_def)
    then have "\<forall>s \<in> set (drop 1 ?rs). ?T s = ?T (hd ?rs)" using v by (auto simp: list_ex_iff)
    moreover have "r \<in> set ?rs" using that by simp
    ultimately show ?thesis by (cases ?rs) auto
  qed
  show "\<forall>r \<in> set reps. \<forall>s \<in> set reps. h (qm r) = h (qm s) \<longrightarrow>
      mset (map (\<lambda>t. h (qm t)) (step r)) = mset (map (\<lambda>t. h (qm t)) (step s))"
  proof (intro ballI impI)
    fix r s assume "r \<in> set reps" "s \<in> set reps" "h (qm r) = h (qm s)"
    then have "?T r = ?T s" using same [of r] same [of s] by simp
    then show "mset (map (\<lambda>t. h (qm t)) (step r)) = mset (map (\<lambda>t. h (qm t)) (step s))"
      unfolding target_hashes_def by (metis mset_sort)
  qed
  have "0 < sum_list (map (\<lambda>(q, rs). length rs * (length rs - 1) div 2) (quotient_groups h qm reps))"
    using assms by (simp add: gauge_relabeling_report_def Let_def)
  then have "\<exists>n \<in> set (map (\<lambda>(q, rs). length rs * (length rs - 1) div 2) (quotient_groups h qm reps)). 0 < n"
    by (rule sum_list_pos)
  then obtain q rs where q: "(q, rs) \<in> set (quotient_groups h qm reps)" "0 < length rs * (length rs - 1) div 2"
    by auto
  then have len: "2 \<le> length rs" by (cases "length rs"; cases "length rs - 1") auto
  have rs: "rs = filter (\<lambda>r. h (qm r) = q) reps" using q(1) by (auto simp: quotient_groups_def)
  let ?I = "{i. i < length reps \<and> h (qm (reps ! i)) = q}"
  have "card ?I = length rs" unfolding rs by (simp add: length_filter_conv_card)
  then have "\<not> card ?I \<le> Suc 0" using len by simp
  moreover have "finite ?I" by simp
  ultimately have "\<not> (\<forall>i \<in> ?I. \<forall>j \<in> ?I. i = j)" using card_le_Suc0_iff_eq by blast
  then obtain i j where "i \<in> ?I" "j \<in> ?I" "i \<noteq> j" by blast
  then show "\<exists>i < length reps. \<exists>j < length reps. i \<noteq> j \<and> h (qm (reps ! i)) = h (qm (reps ! j))"
    by auto
qed

definition gauge_step :: "int \<times> bool \<Rightarrow> (int \<times> bool) list" where
  "gauge_step r = (if fst r = 0 then [] else [(fst r - 1, snd r)])"

theorem gauge_receipt_sound_witness:
  "mset (map (\<lambda>t. dh (count_state (fst t))) (gauge_step (1, True))) =
   mset (map (\<lambda>t. dh (count_state (fst t))) (gauge_step (1, False)))"
proof -
  have "gauge_receipt (gauge_relabeling_report dh (\<lambda>r. count_state (fst r)) gauge_step
      [(1, True), (1, False), (0, True)])" by code_simp
  from gauge_receipt_sound [OF this, THEN conjunct1, rule_format, of "(1, True)" "(1, False)"]
  show ?thesis by simp
qed

end
