(* ===== verification/Consensus_Fiber.thy ===== *)
theory Consensus_Fiber
  imports Consensus_Tx
begin

text \<open>
  Selected fibers and union repair (\<open>oph_fpe/consensus/transactional_repair.py\<close>): the
  functional extension of a boundary value along a parent map, the branch elimination report,
  and the classification of consistent minimizers.
\<close>

section \<open>Functional extension\<close>

text \<open>
  One pass over the pending children: a child whose parent has a value gets its own, the others
  stay pending.  A missing extension map raises \<open>KeyError\<close>.
\<close>

fun extension_pass ::
  "(string, 'v \<Rightarrow> 'b \<Rightarrow> 'v) fmap \<Rightarrow> 'b \<Rightarrow> (string \<times> string) list \<Rightarrow> 'v cstate \<Rightarrow>
   ('v cstate \<times> (string \<times> string) list) res" where
  "extension_pass ext b [] st = Inr (st, [])"
| "extension_pass ext b ((child, parent) # rest) st =
     (case fmlookup st parent of
        None \<Rightarrow> rbind (extension_pass ext b rest st) (\<lambda>(st', left). Inr (st', (child, parent) # left))
      | Some v \<Rightarrow> (case fmlookup ext child of
            None \<Rightarrow> Inl KeyError
          | Some f \<Rightarrow> extension_pass ext b rest (fmupd child (f v b) st)))"

lemma extension_pass_length:
  "extension_pass ext b pending st = Inr (st', left) \<Longrightarrow> length left \<le> length pending"
  by (induction ext b pending st arbitrary: st' left rule: extension_pass.induct)
    (fastforce split: option.splits elim!: rbind_eq_InrE)+

function extension_loop ::
  "(string, 'v \<Rightarrow> 'b \<Rightarrow> 'v) fmap \<Rightarrow> 'b \<Rightarrow> (string \<times> string) list \<Rightarrow> 'v cstate \<Rightarrow> 'v cstate res" where
  "extension_loop ext b pending st =
     (if pending = [] then Inr st
      else (case extension_pass ext b pending st of
          Inl err \<Rightarrow> Inl err
        | Inr (st', left) \<Rightarrow> if length left = length pending then Inl ValueError
                          else extension_loop ext b left st'))"
  by pat_completeness auto
termination
  by (relation "measure (\<lambda>(ext, b, pending, st). length pending)")
    (auto dest: extension_pass_length simp: le_neq_implies_less)

declare extension_loop.simps [simp del]

text \<open>The parent map is a dictionary: its keys are distinct.\<close>

definition functional_extension ::
  "string \<Rightarrow> 'v \<Rightarrow> (string \<times> string) list \<Rightarrow> (string, 'v \<Rightarrow> 'b \<Rightarrow> 'v) fmap \<Rightarrow> 'b \<Rightarrow> 'v cstate res" where
  "functional_extension root root_value parents ext b =
     extension_loop ext b parents (fmupd root root_value fmempty)"

section \<open>Reports\<close>

record 'v fiber_report =
  fb_status :: string
  fb_elimination :: bool
  fb_confluence :: bool
  fb_hash_receipt :: bool
  fb_selected :: "'v cstate"
  fb_candidate_count :: nat
  fb_inconsistent :: "'v cstate list"
  fb_normal_hash :: "string option"
  fb_normal_hashes :: "string list"

definition selected_fiber_report ::
  "'v hash_fn \<Rightarrow> 'b \<Rightarrow> string \<Rightarrow> 'v \<Rightarrow> (string \<times> string) list \<Rightarrow> (string, 'v \<Rightarrow> 'b \<Rightarrow> 'v) fmap \<Rightarrow>
   'v cstate list \<Rightarrow> ('v cstate \<Rightarrow> bool) \<Rightarrow> ('v cstate \<Rightarrow> 'v cstate) \<Rightarrow> 'v fiber_report res" where
  "selected_fiber_report h b root root_value parents ext candidates consistent normalizer =
     rbind (functional_extension root root_value parents ext b) (\<lambda>selected.
       let ok = consistent selected;
           hashes = map (h \<circ> normalizer) candidates;
           selected_hash = (if ok then Some (h selected) else None);
           inconsistent = filter (\<lambda>row. \<not> consistent row) candidates;
           same = (hashes \<noteq> [] \<and> ok \<and> h selected \<noteq> [] \<and> set hashes = {h selected});
           nontrivial = (2 \<le> length candidates \<and> inconsistent \<noteq> []);
           receipt = (nontrivial \<and> ok \<and> same)
       in Inr \<lparr>fb_status = (if receipt then ''SELECTED_FIBER_ELIMINATED''
                 else if \<not> ok then ''OBSTRUCTED'' else ''INCOMPLETE_EVIDENCE''),
               fb_elimination = receipt, fb_confluence = (ok \<and> same),
               fb_hash_receipt = (ok \<and> h selected \<noteq> []), fb_selected = selected,
               fb_candidate_count = length candidates, fb_inconsistent = inconsistent,
               fb_normal_hash = selected_hash, fb_normal_hashes = hashes\<rparr>)"

record 'v union_report =
  un_status :: string
  un_selected :: "'v cstate option"
  un_candidate_count :: nat
  un_minimizer_count :: nat
  un_witnesses :: "'v cstate list"

definition classify_union_repair ::
  "'v hash_fn \<Rightarrow> 'v cstate list \<Rightarrow> ('v cstate \<Rightarrow> bool) \<Rightarrow> ('v cstate \<Rightarrow> 's::linorder) \<Rightarrow>
   'v union_report" where
  "classify_union_repair h candidates consistent score =
     (let rows = filter consistent candidates in
      if rows = [] then \<lparr>un_status = ''OBSTRUCTED'', un_selected = None, un_candidate_count = 0,
        un_minimizer_count = 0, un_witnesses = []\<rparr>
      else let best = Min (set (map score rows));
               minimizers = filter (\<lambda>row. score row = best) rows
           in if 1 < length (uniq (map h minimizers))
              then \<lparr>un_status = ''AMBIGUOUS_UNION_REPAIR'', un_selected = None,
                un_candidate_count = length rows, un_minimizer_count = length minimizers,
                un_witnesses = take 2 minimizers\<rparr>
              else \<lparr>un_status = ''UNIQUE_UNION_REPAIR'', un_selected = Some (hd minimizers),
                un_candidate_count = length rows, un_minimizer_count = length minimizers,
                un_witnesses = []\<rparr>)"

section \<open>What an extension satisfies\<close>

text \<open>A child has the value its map gives on its parent's value.\<close>

definition extends_at ::
  "(string, 'v \<Rightarrow> 'b \<Rightarrow> 'v) fmap \<Rightarrow> 'b \<Rightarrow> 'v cstate \<Rightarrow> string \<times> string \<Rightarrow> bool" where
  "extends_at ext b st cp = (case (fmlookup ext (fst cp), fmlookup st (snd cp)) of
     (Some f, Some v) \<Rightarrow> (case fmlookup st (fst cp) of None \<Rightarrow> False | Some w \<Rightarrow> w = f v b) | _ \<Rightarrow> False)"

lemma extends_at_mono:
  "extends_at ext b st cp \<Longrightarrow> st \<subseteq>\<^sub>f st' \<Longrightarrow> extends_at ext b st' cp"
  by (auto simp: extends_at_def fmsubset.rep_eq map_le_def fmlookup_dom_iff dom_def split: option.splits)

lemma extension_pass_spec:
  assumes "extension_pass ext b pending st = Inr (st', left)" "distinct (map fst pending)"
    "fst ` set pending \<inter> fmdom' st = {}"
  shows "st \<subseteq>\<^sub>f st' \<and> set left \<subseteq> set pending \<and> distinct (map fst left) \<and>
    fst ` set left \<inter> fmdom' st' = {} \<and>
    fmdom' st' = fmdom' st \<union> fst ` (set pending - set left) \<and>
    (\<forall>cp \<in> set pending - set left. extends_at ext b st' cp)"
  using assms
proof (induction ext b pending st arbitrary: st' left rule: extension_pass.induct)
  case (1 ext b st)
  then show ?case by (simp add: fmsubset.rep_eq)
next
  case (2 ext b c p rest st)
  have d: "c \<notin> fst ` set rest" "distinct (map fst rest)" "c \<notin> fmdom' st" "fst ` set rest \<inter> fmdom' st = {}"
    using "2.prems"(2,3) by auto
  show ?case
  proof (cases "fmlookup st p")
    case None
    then obtain left' where l: "extension_pass ext b rest st = Inr (st', left')" "left = (c, p) # left'"
      using "2.prems"(1) by (auto elim!: rbind_eq_InrE)
    have sub: "st \<subseteq>\<^sub>f st'" and lsub: "set left' \<subseteq> set rest" and ld: "distinct (map fst left')"
      and ldom: "fst ` set left' \<inter> fmdom' st' = {}"
      and dom: "fmdom' st' = fmdom' st \<union> fst ` (set rest - set left')"
      and ex: "\<forall>cp \<in> set rest - set left'. extends_at ext b st' cp"
      using "2.IH"(1) [OF None l(1) d(2,4)] by - (elim conjE, assumption)+
    have "(c, p) \<notin> set rest" using d(1) by force
    then have diff: "set ((c, p) # rest) - set ((c, p) # left') = set rest - set left'" by auto
    have c1: "c \<notin> fst ` set left'" using d(1) lsub by blast
    have c2: "c \<notin> fmdom' st'" unfolding dom using d(1,3) by blast
    show ?thesis unfolding l(2)
    proof (intro conjI)
      show "set ((c, p) # left') \<subseteq> set ((c, p) # rest)" using lsub by auto
      show "distinct (map fst ((c, p) # left'))" using ld c1 by simp
      show "fst ` set ((c, p) # left') \<inter> fmdom' st' = {}" using ldom c2 by simp
      show "fmdom' st' = fmdom' st \<union> fst ` (set ((c, p) # rest) - set ((c, p) # left'))"
        unfolding diff by (rule dom)
      show "\<forall>cp \<in> set ((c, p) # rest) - set ((c, p) # left'). extends_at ext b st' cp"
        unfolding diff by (rule ex)
    qed (rule sub)
  next
    case (Some v)
    then obtain f where f: "fmlookup ext c = Some f"
      and run: "extension_pass ext b rest (fmupd c (f v b) st) = Inr (st', left)"
      using "2.prems"(1) by (auto split: option.splits)
    let ?s = "fmupd c (f v b) st"
    have sub: "?s \<subseteq>\<^sub>f st'" and lsub: "set left \<subseteq> set rest" and ld: "distinct (map fst left)"
      and ldom: "fst ` set left \<inter> fmdom' st' = {}"
      and dom: "fmdom' st' = fmdom' ?s \<union> fst ` (set rest - set left)"
      and ex: "\<forall>cp \<in> set rest - set left. extends_at ext b st' cp"
      by - (use "2.IH"(2) [OF Some f run d(2)] d(1,4) in \<open>simp, (elim conjE, assumption)?\<close>)+
    have "p \<noteq> c" using Some d(3) by (auto simp: fmlookup_dom'_iff)
    then have "extends_at ext b ?s (c, p)" using f Some by (simp add: extends_at_def)
    then have here: "extends_at ext b st' (c, p)" by (rule extends_at_mono [OF _ sub])
    have "st \<subseteq>\<^sub>f ?s" using d(3) by (auto simp: fmsubset.rep_eq map_le_def fmlookup_dom'_iff)
    then have sub': "st \<subseteq>\<^sub>f st'" using sub by (meson fmsubset.rep_eq map_le_trans)
    have "(c, p) \<notin> set left" using lsub d(1) by force
    then have diff: "set ((c, p) # rest) - set left = insert (c, p) (set rest - set left)" by auto
    show ?thesis
    proof (intro conjI)
      show "set left \<subseteq> set ((c, p) # rest)" using lsub by auto
      show "fmdom' st' = fmdom' st \<union> fst ` (set ((c, p) # rest) - set left)"
        unfolding diff dom by simp
      show "\<forall>cp \<in> set ((c, p) # rest) - set left. extends_at ext b st' cp"
        unfolding diff using ex here by simp
    qed (fact sub' ld ldom)+
  qed
qed

lemma extension_loop_spec:
  assumes "extension_loop ext b pending st = Inr st'" "distinct (map fst pending)"
    "fst ` set pending \<inter> fmdom' st = {}"
  shows "st \<subseteq>\<^sub>f st' \<and> fmdom' st' = fmdom' st \<union> fst ` set pending \<and>
    (\<forall>cp \<in> set pending. extends_at ext b st' cp)"
  using assms
proof (induction ext b pending st rule: extension_loop.induct)
  case (1 ext b pending st)
  show ?case
  proof (cases "pending = []")
    case True
    then show ?thesis using "1.prems"(1) by (simp add: extension_loop.simps fmsubset.rep_eq)
  next
    case False
    then obtain s1 left where p: "extension_pass ext b pending st = Inr (s1, left)"
      "length left \<noteq> length pending" "extension_loop ext b left s1 = Inr st'"
      using "1.prems"(1) by (subst (asm) extension_loop.simps) (auto split: sum.splits if_splits)
    have sub: "st \<subseteq>\<^sub>f s1" and lsub: "set left \<subseteq> set pending" and ld: "distinct (map fst left)"
      and ldom: "fst ` set left \<inter> fmdom' s1 = {}"
      and dom: "fmdom' s1 = fmdom' st \<union> fst ` (set pending - set left)"
      and ex: "\<forall>cp \<in> set pending - set left. extends_at ext b s1 cp"
      using extension_pass_spec [OF p(1) "1.prems"(2,3)] by - (elim conjE, assumption)+
    have sub2: "s1 \<subseteq>\<^sub>f st'" and dom2: "fmdom' st' = fmdom' s1 \<union> fst ` set left"
      and ex2: "\<forall>cp \<in> set left. extends_at ext b st' cp"
      using "1.IH" [OF False p(1) refl p(2,3) ld ldom] by - (elim conjE, assumption)+
    show ?thesis
    proof (intro conjI ballI)
      show "st \<subseteq>\<^sub>f st'" using sub sub2 by (meson fmsubset.rep_eq map_le_trans)
      have "fst ` set pending = fst ` (set pending - set left) \<union> fst ` set left"
        using lsub by (metis Un_Diff_cancel2 image_Un sup.absorb1)
      then show "fmdom' st' = fmdom' st \<union> fst ` set pending" by (simp add: dom dom2 Un_assoc)
      show "extends_at ext b st' cp" if "cp \<in> set pending" for cp
      proof (cases "cp \<in> set left")
        case False
        then have "extends_at ext b s1 cp" using that ex by simp
        then show ?thesis using sub2 by (rule extends_at_mono)
      qed (use ex2 in simp)
    qed
  qed
qed

end
