(* ===== verification/Consensus_Fiber_Properties.thy ===== *)
theory Consensus_Fiber_Properties
  imports Consensus_Fiber Consensus_Properties
begin

text \<open>
  The properties of functional extensions, of union repair and of branch elimination, with
  witnesses on a chain of two extension maps.
\<close>

text \<open>When the functional extension along a parent map with distinct children returns, the
  state holds the root value and gives every child exactly the value its extension map computes
  from its parent's final value, and it holds no other register.\<close>

theorem functional_extension_correct:
  assumes "functional_extension root v parents ext b = Inr st" "distinct (map fst parents)"
    "root \<notin> fst ` set parents"
  shows "fmlookup st root = Some v \<and> fmdom' st = insert root (fst ` set parents) \<and>
    (\<forall>cp \<in> set parents. extends_at ext b st cp)"
proof -
  have "fst ` set parents \<inter> fmdom' (fmupd root v fmempty) = {}" using assms(3) by simp
  from extension_loop_spec [OF assms(1) [unfolded functional_extension_def] assms(2) this]
  have "fmupd root v fmempty \<subseteq>\<^sub>f st" "fmdom' st = insert root (fst ` set parents)"
    "\<forall>cp \<in> set parents. extends_at ext b st cp" by simp_all
  moreover from this(1) have "fmlookup st root = Some v"
    by (simp add: fmsubset.rep_eq map_le_def)
  ultimately show ?thesis by blast
qed

definition demo_parents :: "(string \<times> string) list" where
  "demo_parents = [(''c'', ''b''), (''b'', ''root'')]"

definition demo_ext :: "(string, int \<Rightarrow> int \<Rightarrow> int) fmap" where
  "demo_ext = fmap_of_list [(''b'', (\<lambda>v w. v + w)), (''c'', (\<lambda>v w. v * w))]"

lemma demo_extension: "(case functional_extension ''root'' 1 demo_parents demo_ext (2::int) of
    Inr st \<Rightarrow> fmlookup st ''c'' = Some 6 | _ \<Rightarrow> False)"
  by code_simp

theorem functional_extension_correct_witness:
  "\<exists>st. functional_extension ''root'' 1 demo_parents demo_ext (2::int) = Inr st \<and>
     fmlookup st ''root'' = Some 1"
proof -
  obtain st where st: "functional_extension ''root'' 1 demo_parents demo_ext (2::int) = Inr st"
    using demo_extension by (auto split: sum.splits)
  from functional_extension_correct [OF st] st show ?thesis by (simp add: demo_parents_def)
qed

definition demo_fixed :: "int cstate" where
  "demo_fixed = fmap_of_list [(''root'', 1), (''b'', 3), (''c'', 6)]"

definition best_repair ::
  "'v cstate list \<Rightarrow> ('v cstate \<Rightarrow> bool) \<Rightarrow> ('v cstate \<Rightarrow> 's::linorder) \<Rightarrow> 'v cstate \<Rightarrow> bool" where
  "best_repair candidates consistent score x \<longleftrightarrow> x \<in> set candidates \<and> consistent x \<and>
     (\<forall>y \<in> set candidates. consistent y \<longrightarrow> score x \<le> score y)"

text \<open>Union repair selects a state only when it is consistent, has the least score among the
  consistent candidates, and every other candidate with that score has the same hash; it
  reports an obstruction exactly when no candidate is consistent and an ambiguity exactly when
  two best consistent candidates differ in their hash.\<close>

theorem union_repair_selection:
  "(un_selected (classify_union_repair h candidates consistent score) = Some s \<longrightarrow>
      best_repair candidates consistent score s \<and>
      (\<forall>t. best_repair candidates consistent score t \<longrightarrow> h t = h s)) \<and>
    (un_status (classify_union_repair h candidates consistent score) = ''OBSTRUCTED'' \<longleftrightarrow>
      (\<forall>x \<in> set candidates. \<not> consistent x)) \<and>
    (un_status (classify_union_repair h candidates consistent score) = ''AMBIGUOUS_UNION_REPAIR'' \<longleftrightarrow>
      (\<exists>x y. best_repair candidates consistent score x \<and>
        best_repair candidates consistent score y \<and> h x \<noteq> h y))"
proof (cases "filter consistent candidates = []")
  case True
  let ?best = "best_repair candidates consistent score"
  have none: "\<forall>x \<in> set candidates. \<not> consistent x" using True by (simp add: filter_empty_conv)
  then have "\<not> ?best x" for x by (simp add: best_repair_def)
  with True none show ?thesis by (simp add: classify_union_repair_def)
next
  case False
  let ?best = "best_repair candidates consistent score"
  let ?rep = "classify_union_repair h candidates consistent score"
  let ?rows = "filter consistent candidates"
  let ?min = "filter (\<lambda>r. score r = Min (set (map score ?rows))) ?rows"
  have fin: "finite (score ` set ?rows)" "score ` set ?rows \<noteq> {}"
    using False by (simp, simp only: image_is_empty set_empty not_False_eq_True)
  have best: "x \<in> set ?min \<longleftrightarrow> ?best x" for x
  proof
    assume "x \<in> set ?min"
    then show "?best x" by (auto simp: best_repair_def)
  next
    assume b: "?best x"
    then have "Min (score ` set ?rows) = score x"
      by (intro Min_eqI) (auto simp: best_repair_def)
    then show "x \<in> set ?min" using b by (simp add: best_repair_def)
  qed
  obtain m where m: "m \<in> set ?rows" "score m = Min (score ` set ?rows)"
    using Min_in [OF fin] by auto
  from m(1) have some: "\<exists>x \<in> set candidates. consistent x" by auto
  from m have ne: "?min \<noteq> []" by (auto simp: filter_empty_conv)
  
  let ?hs = "uniq (map h ?min)"
  have amb: "1 < length ?hs \<longleftrightarrow> (\<exists>x y. ?best x \<and> ?best y \<and> h x \<noteq> h y)"
  proof -
    have "\<not> length ?hs \<le> 1 \<longleftrightarrow> \<not> (\<forall>a \<in> set ?hs. \<forall>b \<in> set ?hs. a = b)"
      using card_le_Suc0_iff_eq [of "set ?hs"] distinct_card [of ?hs] by simp
    then show ?thesis using best by (auto simp: not_le)
  qed
  show ?thesis
  proof (cases "1 < length ?hs")
    case True
    then show ?thesis
      using False some amb by (simp add: classify_union_repair_def Let_def)
  next
    case uni: False
    have sel: "un_selected ?rep = Some (hd ?min)" "un_status ?rep = ''UNIQUE_UNION_REPAIR''"
      using False uni by (simp_all add: classify_union_repair_def Let_def)
    have b1: "?best (hd ?min)" using best hd_in_set [OF ne] by blast
    have same: "h x = h y" if "?best x" "?best y" for x y using uni amb that by blast
    have "?best s \<and> (\<forall>t. ?best t \<longrightarrow> h t = h s)" if "Some (hd ?min) = Some s"
    proof -
      have "hd ?min = s" using that by (rule option.inject [THEN iffD1])
      then have "?best s" using b1 by (rule subst)
      then show ?thesis using same by blast
    qed
    moreover have "\<not> (\<exists>x y. ?best x \<and> ?best y \<and> h x \<noteq> h y)" using same by blast
    moreover have "\<not> (\<forall>x \<in> set candidates. \<not> consistent x)" using some by blast
    moreover have "''UNIQUE_UNION_REPAIR'' \<noteq> ''OBSTRUCTED''"
      "''UNIQUE_UNION_REPAIR'' \<noteq> ''AMBIGUOUS_UNION_REPAIR''" by simp_all
    ultimately show ?thesis unfolding sel by blast
  qed
qed

theorem union_repair_selection_witness:
  "best_repair [demo_fixed, fmempty] (\<lambda>st. True) (value_at ''c'') fmempty"
proof -
  have "(case un_selected (classify_union_repair dh [demo_fixed, fmempty] (\<lambda>st. True) (value_at ''c'')) of
      Some st \<Rightarrow> fmlookup st ''c'' = None | None \<Rightarrow> False)" by code_simp
  then obtain s where s: "un_selected (classify_union_repair dh [demo_fixed, fmempty] (\<lambda>st. True)
      (value_at ''c'')) = Some s" "fmlookup s ''c'' = None" by (auto split: option.splits)
  from union_repair_selection [of dh "[demo_fixed, fmempty]" "\<lambda>st. True" "value_at ''c''" s] s
  have "best_repair [demo_fixed, fmempty] (\<lambda>st. True) (value_at ''c'') s" by blast
  moreover have "demo_fixed \<noteq> s" using s(2) by (auto simp: demo_fixed_def)
  ultimately show ?thesis by (auto simp: best_repair_def)
qed

text \<open>A granted branch elimination names a consistent extension of the boundary whose hash is
  the hash of every candidate's normal form, for at least two candidates of which at least one
  is inconsistent.\<close>

theorem branch_elimination_sound:
  assumes "selected_fiber_report h b root v parents ext candidates consistent normalizer = Inr rep"
    "fb_elimination rep"
  shows "functional_extension root v parents ext b = Inr (fb_selected rep) \<and>
    consistent (fb_selected rep) \<and> 2 \<le> length candidates \<and>
    (\<exists>row \<in> set candidates. \<not> consistent row) \<and>
    (\<forall>row \<in> set candidates. h (normalizer row) = h (fb_selected rep)) \<and>
    fb_normal_hash rep = Some (h (fb_selected rep)) \<and> fb_status rep = ''SELECTED_FIBER_ELIMINATED''"
proof -
  obtain sel where s: "functional_extension root v parents ext b = Inr sel"
    using assms(1) by (auto simp: selected_fiber_report_def elim: rbind_eq_InrE)
  note rep = assms(1) [unfolded selected_fiber_report_def s rbind_Inr Let_def sum.inject]
  have r: "fb_selected rep = sel" "consistent sel" "2 \<le> length candidates"
    "filter (\<lambda>row. \<not> consistent row) candidates \<noteq> []" "(\<lambda>x. h (normalizer x)) ` set candidates = {h sel}"
    "fb_normal_hash rep = Some (h sel)" "fb_status rep = ''SELECTED_FIBER_ELIMINATED''"
    using assms(2) unfolding rep [symmetric] by simp_all
  from r(4) have "\<exists>row \<in> set candidates. \<not> consistent row" by (simp add: filter_empty_conv)
  moreover have "h (normalizer row) = h sel" if "row \<in> set candidates" for row
    using r(5) that by (metis imageI singletonD)
  ultimately show ?thesis using s r by simp
qed

lemma demo_fiber: "(case selected_fiber_report dh (2::int) ''root'' 1 demo_parents demo_ext
    [demo_fixed, fmempty] (\<lambda>st. fmlookup st ''c'' = Some 6) (\<lambda>st. demo_fixed) of
    Inr rep \<Rightarrow> fb_elimination rep | _ \<Rightarrow> False)"
  by code_simp

theorem branch_elimination_sound_witness:
  "\<exists>rep. selected_fiber_report dh (2::int) ''root'' 1 demo_parents demo_ext
    [demo_fixed, fmempty] (\<lambda>st. fmlookup st ''c'' = Some 6) (\<lambda>st. demo_fixed) = Inr rep \<and>
    fmlookup (fb_selected rep) ''c'' = Some 6"
proof -
  obtain rep where r: "selected_fiber_report dh (2::int) ''root'' 1 demo_parents demo_ext
    [demo_fixed, fmempty] (\<lambda>st. fmlookup st ''c'' = Some 6) (\<lambda>st. demo_fixed) = Inr rep" "fb_elimination rep"
    using demo_fiber by (auto split: sum.splits)
  from branch_elimination_sound [OF r] r(1) show ?thesis by blast
qed

end
