(* ===== verification/Small_Universe.thy ===== *)
theory Small_Universe
  imports Graph_Search "HOL-Library.Product_Lexorder"
begin

text \<open>
  The small calibration universe (\<open>oph_fpe/small_universe/model.py\<close> and
  \<open>oph_repair.py\<close>): a rooted spanning tree found by breadth-first search, Z2 offsets on the
  edges, exponentially weighted tree edges, and the parent-copy repair.  The graph (a networkx
  graph), its cycle basis and the random bits are parameters: the graph is its adjacency list
  and its list of edges.
\<close>

section \<open>Data\<close>

type_synonym edge = "nat \<times> nat"
type_synonym ustate = "int list"

record small_universe =
  patch_count :: nat
  u_root :: nat
  u_parent :: "(nat \<times> nat) list"
  u_depth :: "(nat \<times> nat) list"
  u_target :: ustate
  u_offsets :: "(edge \<times> int) list"
  u_weights :: "(edge \<times> int) list"
  tree_edges :: "edge list"
  flipped_edge :: "edge option"

definition ekey :: "nat \<Rightarrow> nat \<Rightarrow> edge" where
  "ekey u v = (if u < v then (u, v) else (v, u))"

text \<open>The search: neighbours in ascending order, each node entered when it is first seen.\<close>

definition bfs_new :: "(nat \<times> nat list) list \<Rightarrow> nat \<Rightarrow> (nat \<times> nat) list \<Rightarrow> nat list" where
  "bfs_new adj u dep = filter (\<lambda>v. map_of dep v = None) (uniq (sort (succs adj u)))"

definition graph_nodes :: "(nat \<times> nat list) list \<Rightarrow> nat set" where
  "graph_nodes adj = set (concat (map snd adj))"

lemma bfs_new_sub: "set (bfs_new adj u dep) \<subseteq> graph_nodes adj - fst ` set dep"
proof
  fix v assume "v \<in> set (bfs_new adj u dep)"
  then have v: "v \<in> set (succs adj u)" "v \<notin> fst ` set dep"
    by (auto simp: bfs_new_def map_of_eq_None_iff)
  then obtain ns where "map_of adj u = Some ns" "v \<in> set ns"
    by (cases "map_of adj u") (auto simp: succs_def)
  then have "v \<in> graph_nodes adj" by (force simp: graph_nodes_def dest: map_of_SomeD)
  with v show "v \<in> graph_nodes adj - fst ` set dep" by blast
qed

lemma bfs_measure:
  "2 * card (graph_nodes adj - fst ` set (dep @ map (\<lambda>v. (v, f v)) (bfs_new adj u dep)))
     + length (bfs_new adj u dep) \<le> 2 * card (graph_nodes adj - fst ` set dep)"
proof -
  let ?new = "bfs_new adj u dep" and ?S = "graph_nodes adj - fst ` set dep"
  have d: "distinct ?new" by (simp add: bfs_new_def)
  have fin: "finite ?S" by (simp add: graph_nodes_def)
  have "graph_nodes adj - fst ` set (dep @ map (\<lambda>v. (v, f v)) ?new) = ?S - set ?new"
    by (auto simp: image_Un image_image)
  then have "card (graph_nodes adj - fst ` set (dep @ map (\<lambda>v. (v, f v)) ?new)) = card ?S - length ?new"
    using bfs_new_sub by (simp add: card_Diff_subset distinct_card [OF d])
  moreover have "length ?new \<le> card ?S"
    using card_mono [OF fin bfs_new_sub [of adj u dep]] by (simp add: distinct_card [OF d])
  ultimately show ?thesis by simp
qed

function bfs ::
  "(nat \<times> nat list) list \<Rightarrow> nat list \<Rightarrow> (nat \<times> nat) list \<Rightarrow> (nat \<times> nat) list \<Rightarrow>
   (nat \<times> nat) list \<times> (nat \<times> nat) list" where
  "bfs adj [] par dep = (par, dep)"
| "bfs adj (u # queue) par dep =
     bfs adj (queue @ bfs_new adj u dep) (par @ map (\<lambda>v. (v, u)) (bfs_new adj u dep))
       (dep @ map (\<lambda>v. (v, Suc (the (map_of dep u)))) (bfs_new adj u dep))"
  by pat_completeness auto
termination
proof (relation "measure (\<lambda>(adj, queue, par, dep).
    2 * card (graph_nodes adj - fst ` set dep) + length queue)", goal_cases)
  case (2 adj u queue par dep)
  show ?case
    using bfs_measure [of adj dep "\<lambda>v. Suc (the (map_of dep u))" u] by simp
qed simp

definition base_weight :: int where "base_weight = 64"

definition child_of :: "(nat \<times> nat) list \<Rightarrow> edge \<Rightarrow> nat" where
  "child_of par e = (if map_of par (fst e) = Some (snd e) then fst e else snd e)"

definition edge_weight ::
  "(nat \<times> nat) list \<Rightarrow> (nat \<times> nat) list \<Rightarrow> edge list \<Rightarrow> edge \<Rightarrow> int" where
  "edge_weight par dep tree e = (if e \<in> set tree
     then base_weight ^ (Max (set (map snd dep)) - the (map_of dep (child_of par e)) + 1) else 1)"

definition flip_offset :: "edge \<Rightarrow> (edge \<times> int) list \<Rightarrow> (edge \<times> int) list" where
  "flip_offset e xs = map (\<lambda>(k, v). (k, if k = e then xor v 1 else v)) xs"

text \<open>
  \<open>build_icosa12_universe\<close>: the random bits are the list \<open>bits\<close>, one for every node but the root.
\<close>

definition build_universe ::
  "(nat \<times> nat list) list \<Rightarrow> edge list \<Rightarrow> nat \<Rightarrow> int list \<Rightarrow> nat \<Rightarrow> bool \<Rightarrow> small_universe res" where
  "build_universe adj es n bits seed frustrate =
     (let (par, dep) = bfs adj [0] [] [(0, 0)];
          target = 0 # bits;
          offsets = map (\<lambda>(u, v). (ekey u v, xor (target ! u) (target ! v))) es;
          tree = map (\<lambda>(v, p). ekey p v) par;
          non_tree = sort (filter (\<lambda>e. e \<notin> set tree) (uniq (map fst offsets)));
          universe = \<lparr>patch_count = n, u_root = 0, u_parent = par, u_depth = dep,
            u_target = target, u_offsets = offsets,
            u_weights = map (\<lambda>(e, w). (e, edge_weight par dep tree e)) offsets,
            tree_edges = tree, flipped_edge = None\<rparr>
      in if \<not> frustrate then Inr universe
         else if non_tree = [] then Inl ZeroDivisionError
         else let e = non_tree ! (seed mod length non_tree)
              in Inr (universe\<lparr>u_offsets := flip_offset e offsets, flipped_edge := Some e\<rparr>))"

section \<open>Mismatch and repair\<close>

definition offset_of :: "small_universe \<Rightarrow> edge \<Rightarrow> int" where
  "offset_of u e = the (map_of (u_offsets u) e)"

definition weight_of :: "small_universe \<Rightarrow> edge \<Rightarrow> int" where
  "weight_of u e = the (map_of (u_weights u) e)"

definition edge_mismatch :: "small_universe \<Rightarrow> ustate \<Rightarrow> edge \<Rightarrow> int" where
  "edge_mismatch u s e = (if xor (s ! fst e) (s ! snd e) \<noteq> offset_of u e then 1 else 0)"

definition phi :: "small_universe \<Rightarrow> ustate \<Rightarrow> int" where
  "phi u s = sum_list (map (\<lambda>e. weight_of u e * edge_mismatch u s e) (map fst (u_offsets u)))"

definition globally_consistent :: "small_universe \<Rightarrow> ustate \<Rightarrow> bool" where
  "globally_consistent u s = list_all (\<lambda>e. edge_mismatch u s e = 0) (map fst (u_offsets u))"

fun bit_strings :: "nat \<Rightarrow> int list list" where
  "bit_strings 0 = [[]]"
| "bit_strings (Suc n) = map (Cons 0) (bit_strings n) @ map (Cons 1) (bit_strings n)"

definition all_root_pinned_states :: "small_universe \<Rightarrow> ustate list" where
  "all_root_pinned_states u = map (Cons 0) (bit_strings (patch_count u - 1))"

definition cycle_edges :: "nat list \<Rightarrow> edge list" where
  "cycle_edges cycle = map (\<lambda>(a, b). ekey a b) (zip cycle (drop 1 cycle @ take 1 cycle))"

definition cycle_holonomy :: "small_universe \<Rightarrow> nat list \<Rightarrow> int" where
  "cycle_holonomy u cycle = fold (\<lambda>e acc. xor acc (offset_of u e)) (cycle_edges cycle) 0"

definition expected_value :: "small_universe \<Rightarrow> ustate \<Rightarrow> nat \<Rightarrow> nat \<Rightarrow> int" where
  "expected_value u s p v = xor (s ! p) (offset_of u (ekey p v))"

definition enabled_repairs :: "small_universe \<Rightarrow> ustate \<Rightarrow> nat list" where
  "enabled_repairs u s = map fst (filter (\<lambda>(v, p). s ! v \<noteq> expected_value u s p v)
     (sort_key fst (u_parent u)))"

definition apply_repair :: "small_universe \<Rightarrow> ustate \<Rightarrow> nat \<Rightarrow> ustate res" where
  "apply_repair u s v = (case map_of (u_parent u) v of
     None \<Rightarrow> Inl KeyError
   | Some p \<Rightarrow> Inr (if s ! v = expected_value u s p v then s else s[v := expected_value u s p v]))"

record transition_row =
  tr_state :: ustate
  tr_node :: nat
  tr_next :: ustate
  tr_phi_before :: int
  tr_phi_after :: int
  tr_accepted :: bool

definition repair_transition_rows ::
  "small_universe \<Rightarrow> ustate list \<Rightarrow> transition_row list res" where
  "repair_transition_rows u states = rbind (rmap (\<lambda>s. rmap (\<lambda>v. rbind (apply_repair u s v) (\<lambda>t.
       Inr \<lparr>tr_state = s, tr_node = v, tr_next = t, tr_phi_before = phi u s, tr_phi_after = phi u t,
            tr_accepted = (phi u t < phi u s)\<rparr>)) (enabled_repairs u s)) states)
     (\<lambda>rows. Inr (concat rows))"

end
