(* ===== verification/Descent_System.thy ===== *)
theory Descent_System
  imports Prelude
begin

text \<open>
  The contract of a repair dynamics: enabled moves lower a rank and keep the good states, so
  every run ends; when in addition each good state has a value that no move changes and that a
  terminal state equals, every run ends in that value.
\<close>

definition repair_steps :: "('s \<Rightarrow> 'n list) \<Rightarrow> ('s \<Rightarrow> 'n \<Rightarrow> 's) \<Rightarrow> ('s \<times> 's) set" where
  "repair_steps enabled app = {(s, t). \<exists>n \<in> set (enabled s). t = app s n}"

locale descent_system =
  fixes enabled :: "'s \<Rightarrow> 'n list" and app :: "'s \<Rightarrow> 'n \<Rightarrow> 's" and rank :: "'s \<Rightarrow> nat"
    and good :: "'s \<Rightarrow> bool"
  assumes keeps: "good s \<Longrightarrow> n \<in> set (enabled s) \<Longrightarrow> good (app s n)"
    and descends: "good s \<Longrightarrow> n \<in> set (enabled s) \<Longrightarrow> rank (app s n) < rank s"
begin

lemma good_reached: "(s, t) \<in> (repair_steps enabled app)\<^sup>* \<Longrightarrow> good s \<Longrightarrow> good t"
  by (induction rule: rtrancl_induct) (auto simp: repair_steps_def keeps)

lemma rank_bound: "(s, t) \<in> (repair_steps enabled app) ^^ k \<Longrightarrow> good s \<Longrightarrow> rank t + k \<le> rank s"
proof (induction k arbitrary: t)
  case (Suc k)
  then obtain m where m: "(s, m) \<in> (repair_steps enabled app) ^^ k" "(m, t) \<in> repair_steps enabled app"
    by auto
  then have "good m" using good_reached Suc.prems(2) relpow_imp_rtrancl by blast
  then have "rank t < rank m" using m(2) descends by (auto simp: repair_steps_def)
  with Suc.IH [OF m(1) Suc.prems(2)] show ?case by simp
qed simp

lemma run_ends: "good s \<Longrightarrow> \<exists>t. (s, t) \<in> (repair_steps enabled app)\<^sup>* \<and> enabled t = []"
proof (induction "rank s" arbitrary: s rule: less_induct)
  case less
  show ?case
  proof (cases "enabled s")
    case (Cons n ns)
    then have n: "n \<in> set (enabled s)" by simp
    from less.hyps [OF descends [OF less.prems n] keeps [OF less.prems n]] obtain t where
      "(app s n, t) \<in> (repair_steps enabled app)\<^sup>*" "enabled t = []" by blast
    moreover have "(s, app s n) \<in> repair_steps enabled app" using n by (auto simp: repair_steps_def)
    ultimately show ?thesis by (meson converse_rtrancl_into_rtrancl)
  qed blast
qed

end

locale normalizing_system = descent_system +
  fixes nf :: "'a \<Rightarrow> 'a"
  assumes stable: "good s \<Longrightarrow> n \<in> set (enabled s) \<Longrightarrow> nf (app s n) = nf s"
    and final: "good s \<Longrightarrow> enabled s = [] \<Longrightarrow> nf s = s"
begin

lemma nf_reached: "(s, t) \<in> (repair_steps enabled app)\<^sup>* \<Longrightarrow> good s \<Longrightarrow> nf t = nf s"
proof (induction rule: rtrancl_induct)
  case (step t u)
  then show ?case using good_reached stable by (fastforce simp: repair_steps_def)
qed simp

lemma normal_form: "good s \<Longrightarrow> (s, nf s) \<in> (repair_steps enabled app)\<^sup>* \<and> enabled (nf s) = []"
  using run_ends nf_reached final good_reached by metis

lemma normal_form_unique:
  "good s \<Longrightarrow> (s, t) \<in> (repair_steps enabled app)\<^sup>* \<Longrightarrow> enabled t = [] \<Longrightarrow> t = nf s"
  using nf_reached final good_reached by metis

lemma reaches_normal_form:
  "good s \<Longrightarrow> (s, t) \<in> (repair_steps enabled app)\<^sup>* \<Longrightarrow> (t, nf s) \<in> (repair_steps enabled app)\<^sup>*"
  using normal_form nf_reached good_reached by metis

end

end
