(* ===== verification/Small_Repair.thy ===== *)
theory Small_Repair
  imports Small_Universe Descent_System
begin

text \<open>
  The parent-copy repair of the small universe: well-formed universes, the mismatch energy
  \<open>phi\<close> as a rank (the edge to the parent outweighs every other edge at a node together), and
  the target as the only state in which no repair is enabled.
\<close>

section \<open>Well-formed universes\<close>

definition depth_of :: "small_universe \<Rightarrow> nat \<Rightarrow> nat" where
  "depth_of u v = the (map_of (u_depth u) v)"

definition max_depth :: "small_universe \<Rightarrow> nat" where
  "max_depth u = Max (set (map snd (u_depth u)))"

definition touches :: "nat \<Rightarrow> edge \<Rightarrow> bool" where
  "touches v e \<longleftrightarrow> fst e = v \<or> snd e = v"

definition is_bit :: "int \<Rightarrow> bool" where
  "is_bit b \<longleftrightarrow> b = 0 \<or> b = 1"

text \<open>States with the root bit at zero, and states that satisfy every tree edge, as the target does.\<close>

definition pinned_state :: "small_universe \<Rightarrow> ustate \<Rightarrow> bool" where
  "pinned_state u s \<longleftrightarrow> length s = patch_count u \<and> list_all is_bit s \<and> s ! u_root u = 0"

definition tree_consistent :: "small_universe \<Rightarrow> ustate \<Rightarrow> bool" where
  "tree_consistent u s \<longleftrightarrow> list_all (\<lambda>(v, p). s ! v = expected_value u s p v) (u_parent u)"

definition wf_universe :: "small_universe \<Rightarrow> bool" where
  "wf_universe u \<longleftrightarrow> u_root u < patch_count u \<and> distinct (map fst (u_parent u)) \<and>
     set (map fst (u_parent u)) = {0..<patch_count u} - {u_root u} \<and>
     list_all (\<lambda>(v, p). p < patch_count u \<and> depth_of u v = Suc (depth_of u p) \<and>
        depth_of u v \<le> max_depth u \<and> ekey p v \<in> set (map fst (u_offsets u))) (u_parent u) \<and>
     distinct (map fst (u_offsets u)) \<and>
     list_all (\<lambda>(e, w). fst e < snd e \<and> snd e < patch_count u \<and> is_bit w) (u_offsets u) \<and>
     list_all (\<lambda>v. length (filter (touches v) (map fst (u_offsets u))) < 64) [0..<patch_count u] \<and>
     tree_edges u = map (\<lambda>(v, p). ekey p v) (u_parent u) \<and>
     list_all (\<lambda>e. weight_of u e = edge_weight (u_parent u) (u_depth u) (tree_edges u) e)
       (map fst (u_offsets u)) \<and>
     pinned_state u (u_target u) \<and> tree_consistent u (u_target u)"

lemma xor_bits: "is_bit a \<Longrightarrow> is_bit b \<Longrightarrow> xor a b = (if a = b then 0 else 1)"
  by (auto simp: is_bit_def)

lemma bit_xor: "is_bit a \<Longrightarrow> is_bit b \<Longrightarrow> is_bit (xor a b)"
  by (simp add: xor_bits is_bit_def)

lemma ekey_cases: "ekey p v = (p, v) \<or> ekey p v = (v, p)"
  by (simp add: ekey_def)

lemma touches_ekey: "touches x (ekey p v) \<longleftrightarrow> x = p \<or> x = v"
  by (auto simp: touches_def ekey_def)

lemma ekey_inject: "ekey p v = ekey q c \<Longrightarrow> (p = q \<and> v = c) \<or> (p = c \<and> v = q)"
  by (auto simp: ekey_def split: if_splits)


lemma parentD:
  assumes wf: "wf_universe u" and vp: "(v, p) \<in> set (u_parent u)"
  shows "p < patch_count u" "v < patch_count u" "depth_of u v = Suc (depth_of u p)"
    "depth_of u v \<le> max_depth u" "ekey p v \<in> set (map fst (u_offsets u))" "v \<noteq> u_root u" "p \<noteq> v"
    "map_of (u_parent u) v = Some p"
proof -
  show *: "p < patch_count u" "depth_of u v = Suc (depth_of u p)" "depth_of u v \<le> max_depth u"
    "ekey p v \<in> set (map fst (u_offsets u))"
    using wf vp unfolding wf_universe_def list_all_iff by blast+
  have "v \<in> set (map fst (u_parent u))" using vp by force
  then show "v < patch_count u" "v \<noteq> u_root u" using wf by (auto simp: wf_universe_def)
  show "p \<noteq> v" using *(2) by auto
  show "map_of (u_parent u) v = Some p" using wf vp by (simp add: wf_universe_def)
qed

lemma parent_ex: "wf_universe u \<Longrightarrow> v < patch_count u \<Longrightarrow> v \<noteq> u_root u \<Longrightarrow> \<exists>p. (v, p) \<in> set (u_parent u)"
proof -
  assume "wf_universe u" "v < patch_count u" "v \<noteq> u_root u"
  then have "v \<in> set (map fst (u_parent u))" by (simp add: wf_universe_def)
  then show ?thesis by auto
qed

lemma child_of_tree:
  assumes "wf_universe u" "(v, p) \<in> set (u_parent u)"
  shows "child_of (u_parent u) (ekey p v) = v"
proof -
  note v = parentD [OF assms]
  have "map_of (u_parent u) p \<noteq> Some v"
  proof
    assume "map_of (u_parent u) p = Some v"
    then have "(p, v) \<in> set (u_parent u)" by (rule map_of_SomeD)
    from parentD(3) [OF assms(1) this] v(3) show False by simp
  qed
  then show ?thesis using v(8) by (simp add: child_of_def ekey_def)
qed

lemma offset_edge:
  assumes wf: "wf_universe u" and "e \<in> set (map fst (u_offsets u))"
  shows "fst e < snd e" "snd e < patch_count u" "is_bit (offset_of u e)"
proof -
  obtain w where w: "(e, w) \<in> set (u_offsets u)" using assms(2) by auto
  then have "map_of (u_offsets u) e = Some w" using wf by (simp add: wf_universe_def)
  then have "offset_of u e = w" by (simp add: offset_of_def)
  then show "fst e < snd e" "snd e < patch_count u" "is_bit (offset_of u e)"
    using w wf unfolding wf_universe_def list_all_iff by blast+
qed

lemma weight_eq: "wf_universe u \<Longrightarrow> e \<in> set (map fst (u_offsets u)) \<Longrightarrow>
    weight_of u e = edge_weight (u_parent u) (u_depth u) (tree_edges u) e"
  unfolding wf_universe_def list_all_iff by blast

lemma weight_pos: "wf_universe u \<Longrightarrow> e \<in> set (map fst (u_offsets u)) \<Longrightarrow> 1 \<le> weight_of u e"
  by (simp add: weight_eq edge_weight_def base_weight_def one_le_power del: power_Suc)

lemma tree_weight:
  assumes "wf_universe u" "(v, p) \<in> set (u_parent u)"
  shows "weight_of u (ekey p v) = base_weight ^ (max_depth u - depth_of u v + 1)"
proof -
  have "ekey p v \<in> set (tree_edges u)" using assms by (force simp: wf_universe_def)
  then show ?thesis
    using weight_eq [OF assms(1) parentD(5) [OF assms]]
    by (simp add: edge_weight_def child_of_tree [OF assms] max_depth_def depth_of_def)
qed

text \<open>Every other edge at a node weighs a base factor less than the edge to its parent.\<close>

lemma other_weight:
  assumes wf: "wf_universe u" and vp: "(v, p) \<in> set (u_parent u)"
    and e: "e \<in> set (map fst (u_offsets u))" "touches v e" "e \<noteq> ekey p v"
  shows "weight_of u e \<le> base_weight ^ (max_depth u - depth_of u v)"
proof (cases "e \<in> set (tree_edges u)")
  case True
  then obtain c q where c: "(c, q) \<in> set (u_parent u)" "e = ekey q c"
    using wf by (auto simp: wf_universe_def)
  have "c \<noteq> v"
  proof
    assume "c = v"
    then have "q = p" using parentD(8) [OF wf c(1)] parentD(8) [OF wf vp] by simp
    then show False using \<open>c = v\<close> c(2) e(3) by simp
  qed
  then have "q = v" using e(2) c(2) by (simp add: touches_ekey)
  then have "depth_of u c = Suc (depth_of u v)" "depth_of u c \<le> max_depth u"
    using parentD [OF wf c(1)] by auto
  then show ?thesis using tree_weight [OF wf c(1)] c(2) by (simp add: Suc_diff_Suc Suc_diff_le)
next
  case False
  then have "weight_of u e = 1" using weight_eq [OF wf e(1)] by (simp add: edge_weight_def)
  then show ?thesis by (simp add: base_weight_def)
qed

section \<open>Descent\<close>

text \<open>The state after an accepted repair of \<open>v\<close>.\<close>

definition repaired :: "small_universe \<Rightarrow> ustate \<Rightarrow> nat \<Rightarrow> ustate" where
  "repaired u s v = s[v := expected_value u s (the (map_of (u_parent u) v)) v]"

lemma enabled_iff:
  "v \<in> set (enabled_repairs u s) \<longleftrightarrow> (\<exists>p. (v, p) \<in> set (u_parent u) \<and> s ! v \<noteq> expected_value u s p v)"
  by (force simp: enabled_repairs_def)

lemma expected_bit:
  assumes "wf_universe u" "pinned_state u s" "(v, p) \<in> set (u_parent u)"
  shows "is_bit (expected_value u s p v)"
proof -
  have "is_bit (s ! p)" using parentD(1) [OF assms(1,3)] assms(2) by (simp add: pinned_state_def list_all_length)
  moreover have "is_bit (offset_of u (ekey p v))"
    using offset_edge(3) [OF assms(1) parentD(5) [OF assms(1,3)]] .
  ultimately show ?thesis unfolding expected_value_def by (rule bit_xor)
qed

lemma repaired_pinned:
  assumes "wf_universe u" "pinned_state u s" "v \<in> set (enabled_repairs u s)"
  shows "pinned_state u (repaired u s v)"
proof -
  obtain p where p: "(v, p) \<in> set (u_parent u)" using assms(3) by (auto simp: enabled_iff)
  have r: "repaired u s v = s[v := expected_value u s p v]"
    by (simp add: repaired_def parentD(8) [OF assms(1) p])
  have "is_bit (repaired u s v ! n)" if "n < patch_count u" for n
    using assms(2) expected_bit [OF assms(1,2) p] \<open>n < patch_count u\<close>
    by (cases "n = v") (auto simp: r pinned_state_def list_all_length)
  then show ?thesis
    using assms(2) parentD(6) [OF assms(1) p] by (simp add: r pinned_state_def list_all_length)
qed

lemma mismatch_bound: "0 \<le> edge_mismatch u s e" "edge_mismatch u s e \<le> 1"
  by (simp_all add: edge_mismatch_def)

lemma phi_nonneg:
  assumes "wf_universe u" shows "0 \<le> phi u s"
  unfolding phi_def
proof (rule sum_list_nonneg)
  fix x assume "x \<in> set (map (\<lambda>e. weight_of u e * edge_mismatch u s e) (map fst (u_offsets u)))"
  then obtain e where e: "e \<in> set (map fst (u_offsets u))" "x = weight_of u e * edge_mismatch u s e"
    unfolding set_map [of _ "map fst (u_offsets u)"] by blast
  show "0 \<le> x" using weight_pos [OF assms e(1)] mismatch_bound(1) [of u s e] e(2) by simp
qed

lemma sum_list_diff: "sum_list (map f xs) - sum_list (map g xs) = sum_list (map (\<lambda>x. f x - g x :: int) xs)"
  by (induction xs) auto

lemma sum_list_split: "sum_list (map f xs) = sum_list (map f (filter P xs)) +
    (sum_list (map f (filter (\<lambda>x. \<not> P x) xs)) :: int)"
  by (induction xs) auto

lemma sum_list_bound: "(\<And>x. x \<in> set xs \<Longrightarrow> f x \<le> b) \<Longrightarrow> sum_list (map f xs) \<le> int (length xs) * b"
  by (induction xs) (auto simp: algebra_simps intro: add_mono)

lemma touching_split: "distinct xs \<Longrightarrow> k \<in> set xs \<Longrightarrow> P k \<Longrightarrow> 
    sum_list (map f (filter P xs)) = f k + (sum_list (map f (filter (\<lambda>x. P x \<and> x \<noteq> k) xs)) :: int) \<and>
    length (filter P xs) = Suc (length (filter (\<lambda>x. P x \<and> x \<noteq> k) xs))"
proof (induction xs)
  case (Cons x xs)
  show ?case
  proof (cases "x = k")
    case True
    then have "filter (\<lambda>x. P x \<and> x \<noteq> k) xs = filter P xs"
      using Cons.prems(1) by (intro filter_cong) auto
    then show ?thesis using True Cons.prems(3) by simp
  next
    case False
    then show ?thesis using Cons by auto
  qed
qed simp

lemma ekey_ends: "f (fst (ekey p v)) = f p \<and> f (snd (ekey p v)) = f v \<or>
    f (fst (ekey p v)) = f v \<and> f (snd (ekey p v)) = f p"
  by (simp add: ekey_def)

lemma tree_mismatch:
  "is_bit (s ! v) \<Longrightarrow> is_bit (s ! p) \<Longrightarrow> is_bit (offset_of u (ekey p v)) \<Longrightarrow>
   edge_mismatch u s (ekey p v) = (if s ! v = expected_value u s p v then 0 else 1)"
  unfolding is_bit_def edge_mismatch_def expected_value_def using ekey_ends [of "(!) s" p v] by fastforce

lemma repair_descends:
  assumes wf: "wf_universe u" and s: "pinned_state u s" and v: "v \<in> set (enabled_repairs u s)"
  shows "phi u (repaired u s v) < phi u s"
proof -
  obtain p where vp: "(v, p) \<in> set (u_parent u)" and ne: "s ! v \<noteq> expected_value u s p v"
    using v by (auto simp: enabled_iff)
  note P = parentD [OF wf vp]
  let ?t = "repaired u s v" and ?es = "map fst (u_offsets u)" and ?k = "ekey p v"
  let ?M = "base_weight ^ (max_depth u - depth_of u v)"
  let ?f = "\<lambda>e. weight_of u e * edge_mismatch u ?t e - weight_of u e * edge_mismatch u s e"
  let ?rest = "filter (\<lambda>e. touches v e \<and> e \<noteq> ?k) ?es"
  have t: "?t = s[v := expected_value u s p v]" by (simp add: repaired_def P(8))
  have len: "length s = patch_count u" using s by (simp add: pinned_state_def)
  have bits: "is_bit (s ! v)" "is_bit (s ! p)" "is_bit (offset_of u ?k)"
    using s P(1,2) offset_edge(3) [OF wf P(5)] by (simp_all add: pinned_state_def list_all_length)
  have "edge_mismatch u s ?k = 1" using ne tree_mismatch [OF bits] by simp
  moreover have "edge_mismatch u ?t ?k = 0"
    using tree_mismatch [of ?t v p u] P(1,2,7) len bits expected_bit [OF wf s vp] by (simp add: t expected_value_def)
  ultimately have fk: "?f ?k = - (64 * ?M)" using tree_weight [OF wf vp] by (simp add: base_weight_def)
  have d: "distinct ?es" and deg: "length (filter (touches v) ?es) < 64"
    using wf P(2) by (auto simp: wf_universe_def list_all_iff)
  have "sum_list (map ?f (filter (\<lambda>e. \<not> touches v e) ?es)) \<le> int (length (filter (\<lambda>e. \<not> touches v e) ?es)) * 0"
    by (rule sum_list_bound) (auto simp: t edge_mismatch_def touches_def)
  moreover have "sum_list (map ?f (filter (touches v) ?es)) = ?f ?k + sum_list (map ?f ?rest)"
    and l: "length (filter (touches v) ?es) = Suc (length ?rest)"
    using touching_split [OF d P(5), of "touches v"] by (auto simp: touches_ekey)
  moreover have "sum_list (map ?f ?rest) \<le> int (length ?rest) * ?M"
  proof (rule sum_list_bound)
    fix e assume "e \<in> set ?rest"
    then have e: "e \<in> set ?es" "touches v e" "e \<noteq> ?k" by auto
    have "0 \<le> weight_of u e" using weight_pos [OF wf e(1)] by simp
    then have "?f e \<le> weight_of u e" by (auto simp: edge_mismatch_def)
    then show "?f e \<le> ?M" using other_weight [OF wf vp e] by simp
  qed
  moreover have "int (length ?rest) * ?M < 64 * ?M"
    using l deg by (intro mult_strict_right_mono) (auto simp: base_weight_def)
  ultimately have "sum_list (map ?f ?es) < 0"
    using sum_list_split [of ?f ?es "touches v"] fk by linarith
  then show ?thesis unfolding phi_def sum_list_diff [symmetric] by simp
qed

section \<open>The normal form\<close>

lemma apply_repair_enabled: "v \<in> set (enabled_repairs u s) \<Longrightarrow> wf_universe u \<Longrightarrow> 
    apply_repair u s v = Inr (repaired u s v)"
  using parentD(8) [of u v] by (auto simp: enabled_iff apply_repair_def repaired_def)

lemma quiet_iff: "enabled_repairs u s = [] \<longleftrightarrow> tree_consistent u s"
proof -
  have "enabled_repairs u s = [] \<longleftrightarrow> (\<forall>v. v \<notin> set (enabled_repairs u s))" by (simp only: set_empty2 [symmetric]) auto
  then show ?thesis by (auto simp: enabled_iff tree_consistent_def list_all_iff)
qed

lemma tree_state_unique:
  assumes wf: "wf_universe u" and s: "pinned_state u s" "tree_consistent u s"
    and t: "pinned_state u t" "tree_consistent u t"
  shows "s = t"
proof -
  have "s ! v = t ! v" if "v < patch_count u" for v using that
  proof (induction "depth_of u v" arbitrary: v rule: less_induct)
    case less
    show ?case
    proof (cases "v = u_root u")
      case False
      then obtain p where vp: "(v, p) \<in> set (u_parent u)" using parent_ex [OF wf less.prems] by blast
      then have "s ! p = t ! p" using parentD(1,3) [OF wf vp] less.hyps by simp
      moreover have "s ! v = expected_value u s p v" "t ! v = expected_value u t p v"
        using vp s(2) t(2) by (auto simp: tree_consistent_def list_all_iff)
      ultimately show ?thesis by (simp add: expected_value_def)
    qed (use s(1) t(1) in \<open>simp add: pinned_state_def\<close>)
  qed
  then show ?thesis using s(1) t(1) by (simp add: pinned_state_def list_eq_iff_nth_eq)
qed

lemma target_tree: "wf_universe u \<Longrightarrow> pinned_state u (u_target u) \<and> tree_consistent u (u_target u)"
  by (simp add: wf_universe_def)

text \<open>
  The universe of the contract: well-formed universes with their root-pinned states.  The
  universe itself is a parameter of the interpretation.
\<close>

interpretation ur: normalizing_system "enabled_repairs u" "repaired u" "\<lambda>s. nat (phi u s)"
  "\<lambda>s. wf_universe u \<and> pinned_state u s" "\<lambda>_. u_target u" for u
proof (unfold_locales, goal_cases)
  case (1 s n)
  then show ?case using repaired_pinned by blast
next
  case (2 s n)
  then show ?case using repair_descends [of u s n] phi_nonneg [of u "repaired u s n"] by auto
next
  case (4 s)
  then show ?case using tree_state_unique target_tree quiet_iff by metis
qed simp

lemma consistent_tree:
  assumes wf: "wf_universe u" and s: "pinned_state u s" and c: "globally_consistent u s"
  shows "tree_consistent u s"
  unfolding tree_consistent_def list_all_iff
proof clarify
  fix v p assume vp: "(v, p) \<in> set (u_parent u)"
  note P = parentD [OF wf vp]
  have "edge_mismatch u s (ekey p v) = 0" using c P(5) unfolding globally_consistent_def list_all_iff by blast
  moreover have "is_bit (s ! v)" "is_bit (s ! p)" "is_bit (offset_of u (ekey p v))"
    using s P(1,2) offset_edge(3) [OF wf P(5)] by (simp_all add: pinned_state_def list_all_length)
  ultimately show "s ! v = expected_value u s p v" using tree_mismatch by (metis zero_neq_one)
qed

lemma consistent_is_target: "wf_universe u \<Longrightarrow> pinned_state u s \<Longrightarrow> globally_consistent u s \<Longrightarrow> s = u_target u"
  using tree_state_unique consistent_tree target_tree by blast

lemma phi_zero_iff:
  assumes wf: "wf_universe u"
  shows "phi u s = 0 \<longleftrightarrow> globally_consistent u s"
proof -
  define es where "es = map fst (u_offsets u)"
  have nn: "0 \<le> weight_of u e * edge_mismatch u s e" if "e \<in> set es" for e
    using weight_pos [OF wf that [unfolded es_def]] mismatch_bound(1) [of u s e] by simp
  have "phi u s = 0 \<longleftrightarrow> (\<forall>e \<in> set es. weight_of u e * edge_mismatch u s e = 0)"
    unfolding phi_def es_def [symmetric] using nn by (subst sum_list_nonneg_eq_0_iff) auto
  also have "\<dots> \<longleftrightarrow> (\<forall>e \<in> set es. edge_mismatch u s e = 0)"
    using weight_pos [OF wf, folded es_def] by (metis mult_eq_0_iff not_one_le_zero)
  finally show ?thesis by (simp add: globally_consistent_def list_all_iff es_def)
qed

lemma bit_strings_iff: "xs \<in> set (bit_strings n) \<longleftrightarrow> length xs = n \<and> list_all is_bit xs"
proof (induction n arbitrary: xs)
  case (Suc n)
  show ?case by (cases xs) (auto simp: image_iff Suc.IH is_bit_def)
qed auto

lemma pinned_states_all:
  assumes "0 < patch_count u" "u_root u = 0"
  shows "s \<in> set (all_root_pinned_states u) \<longleftrightarrow> pinned_state u s"
  using assms by (cases s) (auto simp: all_root_pinned_states_def bit_strings_iff pinned_state_def is_bit_def)

lemma transition_rows_accepted:
  assumes wf: "wf_universe u" and st: "\<And>s. s \<in> set states \<Longrightarrow> pinned_state u s"
  shows "\<exists>rows. repair_transition_rows u states = Inr rows \<and> list_all tr_accepted rows \<and>
    map (\<lambda>r. (tr_state r, tr_node r)) rows = concat (map (\<lambda>s. map (Pair s) (enabled_repairs u s)) states)"
proof -
  let ?row = "\<lambda>s v. \<lparr>tr_state = s, tr_node = v, tr_next = repaired u s v, tr_phi_before = phi u s,
    tr_phi_after = phi u (repaired u s v), tr_accepted = (phi u (repaired u s v) < phi u s)\<rparr>"
  have inner: "rmap (\<lambda>v. rbind (apply_repair u s v) (\<lambda>t. Inr \<lparr>tr_state = s, tr_node = v, tr_next = t,
      tr_phi_before = phi u s, tr_phi_after = phi u t, tr_accepted = (phi u t < phi u s)\<rparr>))
      (enabled_repairs u s) = Inr (map (?row s) (enabled_repairs u s))" for s
    by (rule rmap_Inr_map) (simp add: apply_repair_enabled wf)
  have "repair_transition_rows u states = Inr (concat (map (\<lambda>s. map (?row s) (enabled_repairs u s)) states))"
    unfolding repair_transition_rows_def inner by (subst rmap_Inr_map [where g = "\<lambda>s. map (?row s) (enabled_repairs u s)"]) auto
  moreover have "list_all tr_accepted (concat (map (\<lambda>s. map (?row s) (enabled_repairs u s)) states))"
    using repair_descends [OF wf] st by (auto simp: list_all_iff)
  ultimately show ?thesis by (auto simp: map_concat comp_def)
qed

end
