(* ===== verification/Small_Build.thy ===== *)
theory Small_Build
  imports Small_Repair
begin

text \<open>
  Construction of the small universe.  The graph is given twice, as an adjacency list (what
  \<open>graph.neighbors\<close> returns) and as an edge list (\<open>graph.edges()\<close>); \<open>graph_ok\<close> says that both
  describe the same simple connected graph of degree below the weight base.  The breadth-first
  search reaches every node, and the universe built from it is well-formed whatever edge is
  flipped.
\<close>

definition graph_ok :: "nat \<Rightarrow> (nat \<times> nat list) list \<Rightarrow> edge list \<Rightarrow> bool" where
  "graph_ok n adj es \<longleftrightarrow> 0 < n \<and>
     list_all (\<lambda>(a, b). a < n \<and> b < n \<and> a \<noteq> b) es \<and>
     distinct (map (\<lambda>(a, b). ekey a b) es) \<and>
     list_all (\<lambda>(a, bs). a < n \<and> list_all (\<lambda>b. b < n \<and> ekey a b \<in> set (map (\<lambda>(a, b). ekey a b) es)) bs) adj \<and>
     list_all (\<lambda>v. length (filter (touches v) (map (\<lambda>(a, b). ekey a b) es)) < 64) [0..<n] \<and>
     list_all (\<lambda>v. v \<in> reachable_from adj 0) [0..<n]"

section \<open>Breadth-first search\<close>

text \<open>What holds of the dictionaries while the search runs.\<close>

definition bfs_inv ::
  "(nat \<times> nat list) list \<Rightarrow> nat list \<Rightarrow> (nat \<times> nat) list \<Rightarrow> (nat \<times> nat) list \<Rightarrow> bool" where
  "bfs_inv adj queue par dep \<longleftrightarrow> distinct (map fst dep) \<and> map fst dep = 0 # map fst par \<and>
     set queue \<subseteq> fst ` set dep \<and>
     (\<forall>(v, p) \<in> set par. v \<in> set (succs adj p) \<and> p \<in> fst ` set dep \<and>
        map_of dep v = Some (Suc (the (map_of dep p)))) \<and>
     (\<forall>x \<in> fst ` set dep. x \<in> set queue \<or> set (succs adj x) \<subseteq> fst ` set dep)"

lemma bfs_inv_parent:
  "bfs_inv adj queue par dep \<Longrightarrow> (v, p) \<in> set par \<Longrightarrow>
    v \<in> set (succs adj p) \<and> p \<in> fst ` set dep \<and> map_of dep v = Some (Suc (the (map_of dep p)))"
  unfolding bfs_inv_def by (elim conjE, drule (1) bspec, simp)

lemma bfs_new_iff: "v \<in> set (bfs_new adj u dep) \<longleftrightarrow> v \<in> set (succs adj u) \<and> v \<notin> fst ` set dep"
  by (auto simp: bfs_new_def map_of_eq_None_iff)

lemma distinct_bfs_new: "distinct (bfs_new adj u dep)"
  by (simp add: bfs_new_def)

lemma map_of_tag: "map_of (map (\<lambda>v. (v, c)) xs) v = (if v \<in> set xs then Some c else None)"
  by (induction xs) auto

lemma bfs_step:
  assumes inv: "bfs_inv adj (u # queue) par dep"
  shows "bfs_inv adj (queue @ bfs_new adj u dep) (par @ map (\<lambda>v. (v, u)) (bfs_new adj u dep))
    (dep @ map (\<lambda>v. (v, Suc (the (map_of dep u)))) (bfs_new adj u dep))"
proof -
  let ?new = "bfs_new adj u dep" and ?d = "Suc (the (map_of dep u))"
  let ?dep = "dep @ map (\<lambda>v. (v, ?d)) ?new"
  have dom: "fst ` set ?dep = fst ` set dep \<union> set ?new" by (force simp: image_Un image_image)
  have u: "u \<in> fst ` set dep" using inv by (simp add: bfs_inv_def)
  have old: "map_of ?dep x = map_of dep x" if "x \<in> fst ` set dep" for x
    using that by (simp add: map_add_def map_of_tag bfs_new_iff split: option.split)
  have fresh: "map_of ?dep x = Some ?d" if "x \<in> set ?new" for x
    using that by (auto simp: map_add_def map_of_tag bfs_new_iff map_of_eq_None_iff [symmetric] split: option.splits)
  have 1: "distinct (map fst ?dep)"
  proof -
    have "distinct (map fst dep)" using inv unfolding bfs_inv_def by blast
    moreover have "set ?new \<inter> set (map fst dep) = {}" by (auto simp: bfs_new_iff rev_image_eqI)
    ultimately show ?thesis using distinct_bfs_new [of adj u dep] by (simp add: comp_def Int_commute)
  qed
  have 2: "map fst ?dep = 0 # map fst (par @ map (\<lambda>v. (v, u)) ?new)"
    using inv by (simp add: bfs_inv_def comp_def)
  have "set queue \<subseteq> fst ` set dep" using inv by (simp add: bfs_inv_def)
  then have 3: "set (queue @ ?new) \<subseteq> fst ` set ?dep" unfolding dom by auto
  have 4: "v \<in> set (succs adj p) \<and> p \<in> fst ` set ?dep \<and> map_of ?dep v = Some (Suc (the (map_of ?dep p)))"
    if "(v, p) \<in> set (par @ map (\<lambda>v. (v, u)) ?new)" for v p
  proof (cases "(v, p) \<in> set par")
    case True
    then have *: "v \<in> set (succs adj p)" "p \<in> fst ` set dep" "map_of dep v = Some (Suc (the (map_of dep p)))"
      using bfs_inv_parent [OF inv] by auto
    then have "v \<in> fst ` set dep" by (metis map_of_eq_None_iff option.distinct(1))
    with * show ?thesis by (simp only: dom old) simp
  next
    case False
    then have "v \<in> set ?new" "p = u" using that by auto
    then show ?thesis using u fresh [of v] old [OF u] unfolding dom by (simp add: bfs_new_iff)
  qed
  have 5: "x \<in> set (queue @ ?new) \<or> set (succs adj x) \<subseteq> fst ` set ?dep" if "x \<in> fst ` set ?dep" for x
  proof (cases "x = u")
    case True
    then show ?thesis unfolding dom by (auto simp: bfs_new_iff)
  next
    case False
    show ?thesis
    proof (cases "x \<in> set ?new")
      case False
      then have "x \<in> fst ` set dep" using that by (simp only: dom) blast
      then have "x \<in> set (u # queue) \<or> set (succs adj x) \<subseteq> fst ` set dep" using inv unfolding bfs_inv_def by blast
      then show ?thesis using \<open>x \<noteq> u\<close> unfolding dom by auto
    qed simp
  qed
  show ?thesis unfolding bfs_inv_def using 1 2 3 4 5 by blast
qed

lemma bfs_result: "bfs_inv adj queue par dep \<Longrightarrow> bfs adj queue par dep = (par', dep') \<Longrightarrow> bfs_inv adj [] par' dep'"
proof (induction adj queue par dep rule: bfs.induct)
  case (2 adj u queue par dep)
  then show ?case using bfs_step [OF "2.prems"(1)] by simp
qed simp

lemma bfs_root: "bfs adj [0] [] [(0, 0)] = (par, dep) \<Longrightarrow> bfs_inv adj [] par dep"
  by (erule bfs_result [rotated]) (simp add: bfs_inv_def)

lemma bfs_closed:
  assumes inv: "bfs_inv adj [] par dep" and r: "v \<in> reachable_from adj 0"
  shows "v \<in> fst ` set dep"
proof -
  have "(0, v) \<in> (edges adj)\<^sup>*" using r by (simp add: reachable_from_eq)
  then show ?thesis
  proof (induction rule: rtrancl_induct)
    case base
    have "0 \<in> set (map fst dep)" using inv by (simp add: bfs_inv_def)
    then show ?case by simp
  next
    case (step y z)
    then show ?case using inv by (auto simp: bfs_inv_def edges_def)
  qed
qed

lemma graph_succ:
  assumes "graph_ok n adj es" "v \<in> set (succs adj p)"
  shows "p < n \<and> v < n \<and> ekey p v \<in> set (map (\<lambda>(a, b). ekey a b) es)"
proof -
  obtain bs where bs: "map_of adj p = Some bs" "v \<in> set bs"
    using assms(2) by (cases "map_of adj p") (auto simp: succs_def)
  then have "(p, bs) \<in> set adj" by (simp add: map_of_SomeD)
  then show ?thesis using assms(1) bs(2) unfolding graph_ok_def list_all_iff by blast
qed

lemma bfs_graph:
  assumes ok: "graph_ok n adj es" and inv: "bfs_inv adj [] par dep"
  shows "distinct (map fst par)" "set (map fst par) = {0..<n} - {0}"
    "\<And>v p. (v, p) \<in> set par \<Longrightarrow> v < n \<and> p < n \<and> ekey p v \<in> set (map (\<lambda>(a, b). ekey a b) es) \<and>
       map_of dep v = Some (Suc (the (map_of dep p)))"
    "\<And>v p. (v, p) \<in> set par \<Longrightarrow> the (map_of dep v) \<in> set (map snd dep)"
proof -
  have e: "map fst dep = 0 # map fst par" and "distinct (map fst dep)" using inv unfolding bfs_inv_def by blast+
  then have d: "distinct (0 # map fst par)" by (simp only:)
  show "distinct (map fst par)" using d by simp
  show P: "v < n \<and> p < n \<and> ekey p v \<in> set (map (\<lambda>(a, b). ekey a b) es) \<and>
      map_of dep v = Some (Suc (the (map_of dep p)))" if "(v, p) \<in> set par" for v p
    using bfs_inv_parent [OF inv that] graph_succ [OF ok, of v p] by simp
  show "the (map_of dep v) \<in> set (map snd dep)" if "(v, p) \<in> set par" for v p
  proof -
    have "(v, the (map_of dep v)) \<in> set dep" using P [OF that] by (auto intro: map_of_SomeD)
    then show ?thesis by force
  qed
  have "{0..<n} \<subseteq> set (map fst dep)"
    using bfs_closed [OF inv] ok by (auto simp: graph_ok_def list_all_iff)
  moreover have "set (map fst par) \<subseteq> {0..<n}" using P by auto
  moreover have "0 \<notin> set (map fst par)" using d by simp
  ultimately show "set (map fst par) = {0..<n} - {0}" unfolding e list.set by blast
qed

section \<open>The built universe is well-formed\<close>

definition edge_keys :: "edge list \<Rightarrow> edge list" where
  "edge_keys es = map (\<lambda>(a, b). ekey a b) es"

lemma offsets_by_key: "map (\<lambda>(a, b). (ekey a b, xor (t ! a) (t ! b :: int))) es =
    map (\<lambda>e. (e, xor (t ! fst e) (t ! snd e))) (edge_keys es)"
  by (auto simp: edge_keys_def ekey_def xor.commute)

lemma map_of_keyed: "map_of (map (\<lambda>e. (e, f e)) ks) e = (if e \<in> set ks then Some (f e) else None)"
  by (induction ks) auto

lemma flip_by_key: "flip_offset e (map (\<lambda>k. (k, f k)) ks) = map (\<lambda>k. (k, if k = e then xor (f k) 1 else f k)) ks"
  by (simp add: flip_offset_def)

text \<open>The result in terms of the keys of the graph.\<close>

lemma build_universeE:
  assumes "build_universe adj es n bits seed fr = Inr u"
  obtains par dep g where "bfs adj [0] [] [(0, 0)] = (par, dep)"
    "patch_count u = n" "u_root u = 0" "u_parent u = par" "u_depth u = dep" "u_target u = 0 # bits"
    "tree_edges u = map (\<lambda>(v, p). ekey p v) par"
    "u_weights u = map (\<lambda>k. (k, edge_weight par dep (tree_edges u) k)) (edge_keys es)"
    "u_offsets u = map (\<lambda>k. (k, g k)) (edge_keys es)"
    "g = (\<lambda>k. if flipped_edge u = Some k then xor (xor ((0 # bits) ! fst k) ((0 # bits) ! snd k)) 1
       else xor ((0 # bits) ! fst k) ((0 # bits) ! snd k))"
    "fr = (flipped_edge u \<noteq> None)"
    "\<And>k. flipped_edge u = Some k \<Longrightarrow> k \<in> set (edge_keys es) - set (tree_edges u)"
proof -
  obtain par dep where b: "bfs adj [0] [] [(0, 0)] = (par, dep)" by fastforce
  let ?g = "\<lambda>k. xor ((0 # bits) ! fst k) ((0 # bits) ! snd k)"
  let ?tree = "map (\<lambda>(v, p). ekey p v) par"
  let ?non = "sort (filter (\<lambda>e. e \<notin> set ?tree) (uniq (edge_keys es)))"
  let ?u = "\<lparr>patch_count = n, u_root = 0, u_parent = par, u_depth = dep, u_target = 0 # bits,
    u_offsets = map (\<lambda>k. (k, ?g k)) (edge_keys es),
    u_weights = map (\<lambda>k. (k, edge_weight par dep ?tree k)) (edge_keys es), tree_edges = ?tree, flipped_edge = None\<rparr>"
  let ?e = "?non ! (seed mod length ?non)"
  have "build_universe adj es n bits seed fr = (if \<not> fr then Inr ?u else if ?non = [] then Inl ZeroDivisionError
      else Inr (?u\<lparr>u_offsets := flip_offset ?e (u_offsets ?u), flipped_edge := Some ?e\<rparr>))"
    unfolding build_universe_def b Let_def prod.case offsets_by_key map_map comp_def fst_conv snd_conv map_ident
    by (simp only: small_universe.simps refl)
  then consider "\<not> fr" "u = ?u" | "fr" "?non \<noteq> []" "u = ?u\<lparr>u_offsets := flip_offset ?e (u_offsets ?u), flipped_edge := Some ?e\<rparr>"
    using assms by (auto split: if_splits)
  then show thesis
  proof cases
    case 1
    show thesis by (rule that [OF b]) (simp_all add: 1)
  next
    case 2
    have "0 < length ?non" using 2(2) by (simp only: length_greater_0_conv not_False_eq_True)
    then have "?e \<in> set ?non" using mod_less_divisor nth_mem by blast
    then have e: "?e \<in> set (edge_keys es) - set ?tree" by simp
    have f: "flipped_edge u = Some ?e" by (simp add: 2(3))
    have t: "tree_edges u = ?tree" by (simp add: 2(3))
    have o: "u_offsets u = map (\<lambda>k. (k, if flipped_edge u = Some k then xor (?g k) 1 else ?g k)) (edge_keys es)"
      unfolding f 2(3) by (simp only: small_universe.simps flip_by_key) (simp add: eq_commute cong: if_cong)
    show thesis
      by (rule that [OF b _ _ _ _ _ _ _ o refl]) (use e in \<open>auto simp: t f 2(1)\<close>, simp_all add: 2(3))
  qed
qed

lemma built_universe_wf:
  assumes ok: "graph_ok n adj es" and len: "length bits = n - 1" and bits: "list_all is_bit bits"
    and u: "build_universe adj es n bits seed fr = Inr u"
  shows "wf_universe u"
proof -
  obtain par dep g where b: "bfs adj [0] [] [(0, 0)] = (par, dep)"
    and U: "patch_count u = n" "u_root u = 0" "u_parent u = par" "u_depth u = dep" "u_target u = 0 # bits"
      "tree_edges u = map (\<lambda>(v, p). ekey p v) par"
      "u_weights u = map (\<lambda>k. (k, edge_weight par dep (tree_edges u) k)) (edge_keys es)"
      "u_offsets u = map (\<lambda>k. (k, g k)) (edge_keys es)"
    and g: "g = (\<lambda>k. if flipped_edge u = Some k then xor (xor ((0 # bits) ! fst k) ((0 # bits) ! snd k)) 1
       else xor ((0 # bits) ! fst k) ((0 # bits) ! snd k))"
    and fl: "\<And>k. flipped_edge u = Some k \<Longrightarrow> k \<in> set (edge_keys es) - set (tree_edges u)"
    by (rule build_universeE [OF u], rule that; assumption)
  note B = bfs_graph [OF ok bfs_root [OF b], folded edge_keys_def]
  have n: "0 < n" using ok by (simp add: graph_ok_def)
  have keys: "map fst (u_offsets u) = edge_keys es" by (simp add: U(8) comp_def)
  have ends: "fst k < snd k \<and> snd k < n" if "k \<in> set (edge_keys es)" for k
    using that ok by (auto simp: edge_keys_def graph_ok_def list_all_iff ekey_def)
  have tb: "is_bit ((0 # bits) ! i)" if "i < n" for i
    using bits len that n by (cases i) (auto simp: list_all_length is_bit_def)
  have gb: "is_bit (g k)" if "k \<in> set (edge_keys es)" for k
    unfolding g using ends [OF that] tb [of "fst k"] tb [of "snd k"] by (simp add: bit_xor is_bit_def [of 1])
  have 1: "list_all (\<lambda>(v, p). p < patch_count u \<and> depth_of u v = Suc (depth_of u p) \<and>
      depth_of u v \<le> max_depth u \<and> ekey p v \<in> set (map fst (u_offsets u))) (u_parent u)"
    unfolding list_all_iff keys U(3) using B(3,4) by (fastforce simp: U depth_of_def max_depth_def)
  have 2: "list_all (\<lambda>(e, w). fst e < snd e \<and> snd e < patch_count u \<and> is_bit w) (u_offsets u)"
    unfolding U(1,8) using ends gb by (auto simp: list_all_iff)
  have 3: "list_all (\<lambda>v. length (filter (touches v) (map fst (u_offsets u))) < 64) [0..<patch_count u]"
    and dk: "distinct (edge_keys es)"
    unfolding keys U(1) using ok unfolding graph_ok_def edge_keys_def by blast+
  have 4: "list_all (\<lambda>e. weight_of u e = edge_weight (u_parent u) (u_depth u) (tree_edges u) e)
      (map fst (u_offsets u))"
    unfolding keys by (simp add: list_all_iff weight_of_def U(3,4,7) map_of_keyed)
  have 5: "pinned_state u (u_target u)"
    using len bits n by (simp add: pinned_state_def U(1,2,5) is_bit_def [of 0])
  have 6: "tree_consistent u (u_target u)"
    unfolding tree_consistent_def list_all_iff U(3)
  proof clarify
    fix v p assume vp: "(v, p) \<in> set par"
    then have k: "ekey p v \<in> set (edge_keys es)" "v < n" "p < n" using B(3) by auto
    have "ekey p v \<in> set (tree_edges u)" using vp by (force simp: U(6))
    then have "flipped_edge u \<noteq> Some (ekey p v)" using fl by blast
    then have "g (ekey p v) = xor ((0 # bits) ! fst (ekey p v)) ((0 # bits) ! snd (ekey p v))"
      by (simp add: g)
    then have "offset_of u (ekey p v) = xor ((0 # bits) ! p) ((0 # bits) ! v)"
      using k(1) by (simp add: offset_of_def U(8) map_of_keyed ekey_def xor.commute)
    then show "u_target u ! v = expected_value u (u_target u) p v"
      using tb [OF k(2)] tb [OF k(3)] by (auto simp: expected_value_def U(5) is_bit_def)
  qed
  show ?thesis
    unfolding wf_universe_def using 1 2 3 4 5 6 n dk B(1,2) by (simp only: keys U(1,2,3,6))
qed

lemma built_target:
  assumes ok: "graph_ok n adj es" and len: "length bits = n - 1" and bits: "list_all is_bit bits"
    and u: "build_universe adj es n bits seed fr = Inr u"
  shows "phi u (u_target u) = (if fr then 1 else 0)"
proof -
  obtain par dep g where b: "bfs adj [0] [] [(0, 0)] = (par, dep)"
    and U: "patch_count u = n" "u_target u = 0 # bits"
      "u_weights u = map (\<lambda>k. (k, edge_weight par dep (tree_edges u) k)) (edge_keys es)"
      "u_offsets u = map (\<lambda>k. (k, g k)) (edge_keys es)"
    and g: "g = (\<lambda>k. if flipped_edge u = Some k then xor (xor ((0 # bits) ! fst k) ((0 # bits) ! snd k)) 1
       else xor ((0 # bits) ! fst k) ((0 # bits) ! snd k))"
    and fr: "fr = (flipped_edge u \<noteq> None)"
    and fl: "\<And>k. flipped_edge u = Some k \<Longrightarrow> k \<in> set (edge_keys es) - set (tree_edges u)"
    by (rule build_universeE [OF u], rule that; assumption)
  have keys: "map fst (u_offsets u) = edge_keys es" by (simp add: U(4) comp_def)
  have d: "distinct (edge_keys es)" using ok by (simp add: graph_ok_def edge_keys_def)
  let ?f = "\<lambda>k. weight_of u k * edge_mismatch u (u_target u) k"
  have flip: "xor (x :: int) 1 \<noteq> x" for x by (metis add.right_neutral even_xor_iff odd_one)
  have val: "?f k = (if flipped_edge u = Some k then 1 else 0)" if k: "k \<in> set (edge_keys es)" for k
  proof -
    have o: "offset_of u k = g k" using k by (simp add: offset_of_def U(4) map_of_keyed)
    have "weight_of u k = 1" if "flipped_edge u = Some k"
      using fl [OF that] k by (simp add: weight_of_def U(3) map_of_keyed edge_weight_def)
    then show ?thesis
      using flip [of "xor ((0 # bits) ! fst k) ((0 # bits) ! snd k)"]
      by (auto simp: edge_mismatch_def o g U(2))
  qed
  have "phi u (u_target u) = sum_list (map (\<lambda>k. if flipped_edge u = Some k then 1 else 0) (edge_keys es))"
    unfolding phi_def keys using val by (intro arg_cong [of _ _ sum_list] map_cong) auto
  also have "\<dots> = (if fr then 1 else 0)"
  proof (cases "flipped_edge u")
    case (Some k)
    then have "k \<in> set (edge_keys es)" using fl by simp
    then have "sum_list (map (\<lambda>j. if k = j then 1 else 0 :: int) (edge_keys es)) = 1"
      using d by (induction "edge_keys es" arbitrary: es rule: list.induct)
        (simp_all add: sum_list_distinct_conv_sum_set)
    then show ?thesis using Some fr by simp
  qed (use fr in simp)
  finally show ?thesis .
qed
end
