(* ===== verification/Small_Properties.thy ===== *)
theory Small_Properties
  imports Small_Build
begin

text \<open>
  The properties of the small universe, with witnesses on the icosahedral graph the code uses.
\<close>

section \<open>The icosahedral graph\<close>

definition icosa_adjacency :: "(nat \<times> nat list) list" where
  "icosa_adjacency = [(0, [1, 5, 7, 8, 11]),
     (1, [0, 2, 5, 6, 8]),
     (2, [1, 3, 6, 8, 9]),
     (3, [2, 4, 6, 9, 10]),
     (4, [3, 5, 6, 10, 11]),
     (5, [0, 1, 4, 6, 11]),
     (6, [1, 2, 3, 4, 5]),
     (7, [0, 8, 9, 10, 11]),
     (8, [0, 1, 2, 7, 9]),
     (9, [2, 3, 7, 8, 10]),
     (10, [3, 4, 7, 9, 11]),
     (11, [0, 4, 5, 7, 10])]"

definition icosa_edges :: "edge list" where
  "icosa_edges = [
     (0, 1), (0, 5), (0, 7), (0, 8), (0, 11),
     (1, 2), (1, 5), (1, 6), (1, 8),
     (2, 3), (2, 6), (2, 8), (2, 9),
     (3, 4), (3, 6), (3, 9), (3, 10),
     (4, 5), (4, 6), (4, 10), (4, 11),
     (5, 6), (5, 11),
     (7, 8), (7, 9), (7, 10), (7, 11),
     (8, 9),
     (9, 10),
     (10, 11)]"

definition icosa_bits :: "int list" where
  "icosa_bits = [1, 0, 1, 1, 0, 0, 1, 0, 1, 0, 1]"

definition icosa_universe :: "bool \<Rightarrow> small_universe res" where
  "icosa_universe fr = build_universe icosa_adjacency icosa_edges 12 icosa_bits 7 fr"

lemma icosa_graph_ok: "graph_ok 12 icosa_adjacency icosa_edges"
  by code_simp

lemma icosa_bits_ok: "length icosa_bits = 12 - 1" "list_all is_bit icosa_bits"
  by code_simp+

lemma icosa_total: "case icosa_universe fr of Inl _ \<Rightarrow> False | Inr _ \<Rightarrow> True"
proof -
  have "case icosa_universe True of Inl _ \<Rightarrow> False | Inr _ \<Rightarrow> True" by code_simp
  moreover have "case icosa_universe False of Inl _ \<Rightarrow> False | Inr _ \<Rightarrow> True" by code_simp
  ultimately show ?thesis by (cases fr) simp_all
qed

lemma icosa_built: obtains u where "icosa_universe fr = Inr u" "wf_universe u"
proof -
  obtain u where u: "icosa_universe fr = Inr u" using icosa_total [of fr] by (auto split: sum.splits)
  then show thesis
    using built_universe_wf [OF icosa_graph_ok icosa_bits_ok] that by (simp add: icosa_universe_def)
qed

section \<open>Cycle holonomy\<close>

lemma fold_xor: "fold (\<lambda>e acc. xor acc (x e :: int)) es a = xor a (fold (\<lambda>e acc. xor acc (x e)) es 0)"
proof (induction es arbitrary: a)
  case (Cons e es)
  show ?case using Cons.IH [of "xor a (x e)"] Cons.IH [of "x e"] by (simp add: ac_simps)
qed simp

lemma fold_xor_split: "fold (\<lambda>e acc. xor acc (xor (x e) (y e))) es 0 =
    xor (fold (\<lambda>e acc. xor acc (x e :: int)) es 0) (fold (\<lambda>e acc. xor acc (y e)) es 0)"
proof (induction es)
  case (Cons e es)
  show ?case
    using Cons.IH fold_xor [of "\<lambda>e. xor (x e) (y e)" es "xor (x e) (y e)"] fold_xor [of x es "x e"]
      fold_xor [of y es "y e"] by (simp add: ac_simps)
qed simp

lemma fold_xor_path:
  "fold (\<lambda>e acc. xor acc (xor (t ! fst e) (t ! snd e :: int))) (map (\<lambda>(a, b). ekey a b) (zip (x # xs) (xs @ [y]))) 0
     = xor (t ! x) (t ! y)"
proof (induction xs arbitrary: x)
  case Nil
  then show ?case by (simp add: ekey_def xor.commute)
next
  case (Cons z xs)
  have "xor (t ! fst (ekey x z)) (t ! snd (ekey x z)) = xor (t ! x) (t ! z)" by (simp add: ekey_def xor.commute)
  then show ?case
    using Cons.IH [of z] fold_xor [of "\<lambda>e. xor (t ! fst e) (t ! snd e)" _ "xor (t ! x) (t ! z)"]
    by (simp add: ac_simps)
qed

lemma fold_xor_count:
  "fold (\<lambda>e acc. xor acc (if e = k then 1 else 0 :: int)) es 0 = (if odd (count_list es k) then 1 else 0)"
proof (induction es)
  case (Cons e es)
  then show ?case
    using fold_xor [of "\<lambda>e. if e = k then 1 else 0" es "if e = k then 1 else 0"] by (auto split: if_splits)
qed simp

lemma fold_xor_cycle:
  "fold (\<lambda>e acc. xor acc (xor (t ! fst e) (t ! snd e :: int))) (cycle_edges c) 0 = 0"
proof (cases c)
  case (Cons x xs)
  then show ?thesis using fold_xor_path [of t x xs x] by (simp add: cycle_edges_def)
qed (simp add: cycle_edges_def)

lemma built_holonomy:
  assumes u: "build_universe adj es n bits seed fr = Inr u"
    and c: "list_all (\<lambda>e. e \<in> set (edge_keys es)) (cycle_edges cycle)"
  shows "cycle_holonomy u cycle = (case flipped_edge u of None \<Rightarrow> 0
      | Some e \<Rightarrow> if odd (count_list (cycle_edges cycle) e) then 1 else 0)"
proof -
  obtain g where o: "u_offsets u = map (\<lambda>k. (k, g k)) (edge_keys es)"
    and g: "g = (\<lambda>k. if flipped_edge u = Some k then xor (xor ((0 # bits) ! fst k) ((0 # bits) ! snd k)) 1
       else xor ((0 # bits) ! fst k) ((0 # bits) ! snd k))"
    by (rule build_universeE [OF u], rule that; assumption)
  let ?t = "\<lambda>k. xor ((0 # bits) ! fst k) ((0 # bits) ! snd k) :: int"
  let ?d = "\<lambda>k. if flipped_edge u = Some k then 1 else 0 :: int"
  have "cycle_holonomy u cycle = fold (\<lambda>e acc. xor acc (xor (?t e) (?d e))) (cycle_edges cycle) 0"
    unfolding cycle_holonomy_def
    by (rule fold_cong) (use c in \<open>auto simp: list_all_iff offset_of_def o map_of_keyed g\<close>)
  also have "\<dots> = fold (\<lambda>e acc. xor acc (?d e)) (cycle_edges cycle) 0"
    unfolding fold_xor_split [of ?t ?d] fold_xor_cycle by simp
  also have "\<dots> = (case flipped_edge u of None \<Rightarrow> 0
      | Some e \<Rightarrow> if odd (count_list (cycle_edges cycle) e) then 1 else 0)"
  proof (cases "flipped_edge u")
    case None
    have "fold (\<lambda>e acc. xor acc (0 :: int)) es 0 = 0" for es :: "edge list" by (induction es) simp_all
    then show ?thesis using None by simp
  next
    case (Some k)
    then show ?thesis using fold_xor_count [of k] by (simp add: eq_commute [of k])
  qed
  finally show ?thesis .
qed

section \<open>Properties\<close>

text \<open>C12: the parent-copy repair of a well-formed universe terminates in the target.  Every
  enabled repair returns a root-pinned state of strictly smaller energy; after \<open>k\<close> repairs the
  energy has fallen by at least \<open>k\<close>; the target can still be reached from every reached state, and
  a reached state in which no repair is enabled is the target.\<close>

theorem universe_repair_normalizes:
  assumes "wf_universe u" "pinned_state u s"
  shows "(\<forall>v \<in> set (enabled_repairs u s). \<exists>t. apply_repair u s v = Inr t \<and> pinned_state u t \<and> phi u t < phi u s)
    \<and> (\<forall>k t. (s, t) \<in> (repair_steps (enabled_repairs u) (repaired u)) ^^ k \<longrightarrow> phi u t + int k \<le> phi u s)
    \<and> (\<forall>t. (s, t) \<in> (repair_steps (enabled_repairs u) (repaired u))\<^sup>* \<longrightarrow>
          (t, u_target u) \<in> (repair_steps (enabled_repairs u) (repaired u))\<^sup>* \<and>
          (enabled_repairs u t = [] \<longrightarrow> t = u_target u))"
proof (intro conjI ballI allI impI)
  fix v assume v: "v \<in> set (enabled_repairs u s)"
  show "\<exists>t. apply_repair u s v = Inr t \<and> pinned_state u t \<and> phi u t < phi u s"
    using apply_repair_enabled [OF v assms(1)] repaired_pinned [OF assms v] repair_descends [OF assms v] by blast
next
  fix k t assume "(s, t) \<in> (repair_steps (enabled_repairs u) (repaired u)) ^^ k"
  from ur.rank_bound [OF this] assms have "nat (phi u t) + k \<le> nat (phi u s)" by blast
  then show "phi u t + int k \<le> phi u s" using phi_nonneg [OF assms(1)] by (simp add: le_nat_iff nat_le_iff)
next
  fix t assume r: "(s, t) \<in> (repair_steps (enabled_repairs u) (repaired u))\<^sup>*"
  show "(t, u_target u) \<in> (repair_steps (enabled_repairs u) (repaired u))\<^sup>*"
    using ur.reaches_normal_form [of u s t] r assms by blast
  assume "enabled_repairs u t = []"
  then show "t = u_target u" using ur.normal_form_unique [of u s t] r assms by blast
qed

theorem universe_repair_normalizes_witness:
  "\<exists>u s. icosa_universe True = Inr u \<and> pinned_state u s \<and>
     (\<forall>v \<in> set (enabled_repairs u s). \<exists>t. apply_repair u s v = Inr t \<and> pinned_state u t \<and> phi u t < phi u s)"
proof -
  obtain u where u: "icosa_universe True = Inr u" "wf_universe u" by (rule icosa_built)
  then have "pinned_state u (u_target u)" using target_tree by blast
  with universe_repair_normalizes [OF u(2), of "u_target u"] u(1) show ?thesis by blast
qed

text \<open>What \<open>build_icosa12_universe\<close> builds on a simple connected graph is well-formed.  The
  unfrustrated target has energy zero and is the only consistent root-pinned state; flipping an
  edge outside the tree leaves the target with energy one and no consistent root-pinned state.\<close>

theorem built_universe_consistency:
  assumes "graph_ok n adj es" "length bits = n - 1" "list_all is_bit bits"
    and "build_universe adj es n bits seed fr = Inr u"
  shows "wf_universe u \<and> phi u (u_target u) = (if fr then 1 else 0) \<and>
    (\<forall>s. pinned_state u s \<longrightarrow> globally_consistent u s = (\<not> fr \<and> s = u_target u))"
proof -
  note wf = built_universe_wf [OF assms] and phi = built_target [OF assms]
  have "globally_consistent u s = (\<not> fr \<and> s = u_target u)" if s: "pinned_state u s" for s
    using phi phi_zero_iff [OF wf, of "u_target u"] consistent_is_target [OF wf s] by (cases fr) auto
  then show ?thesis using wf phi by blast
qed

theorem built_universe_consistency_witness:
  "\<exists>u. icosa_universe True = Inr u \<and> wf_universe u \<and> phi u (u_target u) = 1"
proof -
  obtain u where u: "icosa_universe True = Inr u" by (rule icosa_built)
  from built_universe_consistency [OF icosa_graph_ok icosa_bits_ok u [unfolded icosa_universe_def]] u
  show ?thesis by simp
qed

text \<open>The enumeration of root-pinned states is complete, and every row of the transition table
  over it is accepted (the energy falls); a state has no row exactly when it is the target.\<close>

theorem transition_table_accepted:
  assumes "wf_universe u" "u_root u = 0"
  shows "\<exists>rows. repair_transition_rows u (all_root_pinned_states u) = Inr rows \<and> list_all tr_accepted rows \<and>
    (\<forall>s. s \<in> set (all_root_pinned_states u) \<longleftrightarrow> pinned_state u s) \<and>
    (\<forall>s. pinned_state u s \<longrightarrow> (s \<notin> tr_state ` set rows \<longleftrightarrow> s = u_target u))"
proof -
  have "0 < patch_count u" using assms by (simp add: wf_universe_def)
  note all = pinned_states_all [OF this assms(2)]
  obtain rows where r: "repair_transition_rows u (all_root_pinned_states u) = Inr rows" "list_all tr_accepted rows"
    "map (\<lambda>r. (tr_state r, tr_node r)) rows =
       concat (map (\<lambda>s. map (Pair s) (enabled_repairs u s)) (all_root_pinned_states u))"
    using transition_rows_accepted [OF assms(1)] all by blast
  have "tr_state ` set rows = fst ` set (map (\<lambda>r. (tr_state r, tr_node r)) rows)" by (simp add: image_image)
  also have "\<dots> = {s. pinned_state u s \<and> enabled_repairs u s \<noteq> []}"
    unfolding r(3) set_concat set_map image_UN image_image fst_conv image_constant_conv
    using all by (auto split: if_splits)
  finally have rows: "s \<in> tr_state ` set rows \<longleftrightarrow> pinned_state u s \<and> enabled_repairs u s \<noteq> []" for s by simp
  have "enabled_repairs u s = [] \<longleftrightarrow> s = u_target u" if "pinned_state u s" for s
    using that tree_state_unique [OF assms(1)] target_tree [OF assms(1)] quiet_iff by metis
  then show ?thesis using r(1,2) all rows by blast
qed

theorem transition_table_accepted_witness:
  "\<exists>u rows. icosa_universe False = Inr u \<and> repair_transition_rows u (all_root_pinned_states u) = Inr rows \<and>
     list_all tr_accepted rows"
proof -
  obtain u where u: "icosa_universe False = Inr u" "wf_universe u" by (rule icosa_built)
  have "u_root u = 0" using build_universeE [OF u(1) [unfolded icosa_universe_def]] by metis
  from transition_table_accepted [OF u(2) this] u(1) show ?thesis by blast
qed

text \<open>The holonomy of a cycle of graph edges vanishes in an unfrustrated universe, and in a
  frustrated one it is the parity with which the cycle runs through the flipped edge.\<close>

theorem cycle_holonomy_counts_flips:
  assumes "build_universe adj es n bits seed fr = Inr u"
    and "list_all (\<lambda>e. e \<in> set (edge_keys es)) (cycle_edges cycle)"
  shows "cycle_holonomy u cycle = (case flipped_edge u of None \<Rightarrow> 0
      | Some e \<Rightarrow> if odd (count_list (cycle_edges cycle) e) then 1 else 0) \<and> (fr \<longleftrightarrow> flipped_edge u \<noteq> None)"
  using built_holonomy [OF assms] build_universeE [OF assms(1)] by metis

theorem cycle_holonomy_counts_flips_witness:
  "\<exists>u. icosa_universe False = Inr u \<and> cycle_holonomy u [0, 1, 5] = 0"
proof -
  obtain u where u: "icosa_universe False = Inr u" by (rule icosa_built)
  have "list_all (\<lambda>e. e \<in> set (edge_keys icosa_edges)) (cycle_edges [0, 1, 5])" by code_simp
  from cycle_holonomy_counts_flips [OF u [unfolded icosa_universe_def] this] have "cycle_holonomy u [0, 1, 5] = 0"
    by (cases "flipped_edge u") simp_all
  with u show ?thesis by blast
qed

end
