(* ===== verification/Artifact_Values.thy ===== *)
theory Artifact_Values
  imports Repair_Run
begin

text \<open>
  Serialized artifacts of \<open>oph_fpe/repair/transaction.py\<close>: the Python values a decoded JSON
  document consists of, the field and type checks of the artifact parsers, exact fractions and
  ledgers written and read back, and the canonical tree of an unfrozen value.  Artifacts are
  Python values (theory \<open>Register_Values\<close>); a dictionary is its list of items.
\<close>

section \<open>Reading dictionaries\<close>

abbreviation pstr :: "string \<Rightarrow> pyval" where "pstr s \<equiv> PLeaf (LStr s)"

abbreviation pint :: "int \<Rightarrow> pyval" where "pint i \<equiv> PLeaf (LInt i)"

abbreviation pbool :: "bool \<Rightarrow> pyval" where "pbool b \<equiv> PLeaf (LBool b)"

abbreviation pnone :: pyval where "pnone \<equiv> PLeaf LNone"

type_synonym items = "(pyval \<times> pyval) list"

definition ditems :: "(string \<times> pyval) list \<Rightarrow> items" where
  "ditems kvs = map (\<lambda>(k, v). (pstr k, v)) kvs"

definition pdict :: "(string \<times> pyval) list \<Rightarrow> pyval" where
  "pdict kvs = PDict (ditems kvs)"

definition pstrs :: "string list \<Rightarrow> pyval" where
  "pstrs xs = PList (map (\<lambda>s. pstr s) xs)"

definition get :: "items \<Rightarrow> string \<Rightarrow> pyval" where
  "get kvs k = (case map_of kvs (pstr k) of None \<Rightarrow> pnone | Some v \<Rightarrow> v)"

definition fields_are :: "items \<Rightarrow> string list \<Rightarrow> bool" where
  "fields_are kvs names \<longleftrightarrow> fst ` set kvs = (\<lambda>s. pstr s) ` set names"

definition valid_keys :: "items \<Rightarrow> bool" where
  "valid_keys kvs \<longleftrightarrow> list_all (\<lambda>kv. case str_key (fst kv) of Inl _ \<Rightarrow> False | Inr _ \<Rightarrow> True) kvs"

definition as_items :: "pyval \<Rightarrow> items res" where
  "as_items v = (case v of PDict kvs \<Rightarrow> Inr kvs | _ \<Rightarrow> Inl TypeError)"

text \<open>\<open>_require_exact_mapping_fields\<close>\<close>

definition require_fields :: "pyval \<Rightarrow> string list \<Rightarrow> items res" where
  "require_fields v names = rbind (as_items v) (\<lambda>kvs.
     if \<not> fields_are kvs names then Inl ValueError
     else if \<not> valid_keys kvs then Inl TypeError else Inr kvs)"

section \<open>Plain JSON\<close>

definition plain_leaf :: "leaf \<Rightarrow> unit res" where
  "plain_leaf l = (case l of
     LNone \<Rightarrow> Inr () | LBool _ \<Rightarrow> Inr () | LInt _ \<Rightarrow> Inr () | LStr _ \<Rightarrow> Inr ()
   | LFloat f \<Rightarrow> if is_finite_float f then Inr () else Inl ValueError
   | _ \<Rightarrow> Inl TypeError)"

fun check_all :: "('a \<Rightarrow> unit res) \<Rightarrow> 'a list \<Rightarrow> unit res" where
  "check_all f [] = Inr ()"
| "check_all f (x # xs) = rbind (f x) (\<lambda>_. check_all f xs)"

lemma check_all_cong [fundef_cong]:
  "xs = ys \<Longrightarrow> (\<And>x. x \<in> set ys \<Longrightarrow> f x = g x) \<Longrightarrow> check_all f xs = check_all g ys"
  by (induction ys arbitrary: xs) auto

lemma check_all_ok: "check_all f xs = Inr () \<longleftrightarrow> (\<forall>x \<in> set xs. f x = Inr ())"
  by (induction xs) (auto simp: rbind_eq_Inr)

fun plain_json :: "pyval \<Rightarrow> unit res" where
  "plain_json (PLeaf l) = plain_leaf l"
| "plain_json (PList xs) = check_all plain_json xs"
| "plain_json (PDict kvs) =
     (if \<not> valid_keys kvs then Inl TypeError else check_all (\<lambda>kv. plain_json (snd kv)) kvs)"
| "plain_json _ = Inl TypeError"

section \<open>Python equality of unfrozen values\<close>

text \<open>Two dictionaries are equal when they have the same keys with equal values.\<close>

fun py_eq :: "pyval \<Rightarrow> pyval \<Rightarrow> bool"
  and py_eq_list :: "pyval list \<Rightarrow> pyval list \<Rightarrow> bool" where
  "py_eq (PLeaf l) (PLeaf r) = leaf_eq l r"
| "py_eq (PList xs) (PList ys) = py_eq_list xs ys"
| "py_eq (PTuple xs) (PTuple ys) = py_eq_list xs ys"
| "py_eq (PSet _ xs) (PSet _ ys) = (length xs = length ys \<and> (\<forall>x \<in> set xs. \<exists>y \<in> set ys. py_eq x y))"
| "py_eq (PDict xs) (PDict ys) = (length xs = length ys \<and>
     (\<forall>x \<in> set xs. \<exists>y \<in> set ys. py_eq (fst x) (fst y) \<and> py_eq (snd x) (snd y)))"
| "py_eq _ _ = False"
| "py_eq_list [] [] = True"
| "py_eq_list (x # xs) (y # ys) = (py_eq x y \<and> py_eq_list xs ys)"
| "py_eq_list _ _ = False"

section \<open>The canonical tree of an unfrozen value\<close>

text \<open>
  \<open>_canonical\<close> on values that are not frozen: a dictionary needs non-empty string keys and is
  written in their order, a list and a tuple become arrays, and the items of a set are sorted by
  the text \<open>rp\<close> of their canonical trees (\<open>repr\<close>, a parameter).
\<close>

fun canonical_raw :: "(json \<Rightarrow> string) \<Rightarrow> pyval \<Rightarrow> json res" where
  "canonical_raw rp (PLeaf l) = Inr (canonical_leaf l)"
| "canonical_raw rp (PDict kvs) =
     rbind (rmap (\<lambda>kv. str_key (fst kv)) kvs) (\<lambda>keys.
     rbind (rmap (\<lambda>kv. canonical_raw rp (snd kv)) kvs) (\<lambda>vals. Inr (jobj (zip keys vals))))"
| "canonical_raw rp (PList xs) = rbind (rmap (canonical_raw rp) xs) (\<lambda>ys. Inr (JArr ys))"
| "canonical_raw rp (PTuple xs) = rbind (rmap (canonical_raw rp) xs) (\<lambda>ys. Inr (JArr ys))"
| "canonical_raw rp (PSet _ xs) = rbind (rmap (canonical_raw rp) xs) (\<lambda>ys. Inr (JArr (sort_key rp ys)))"
| "canonical_raw rp (POther ty) = Inl TypeError"

text \<open>Python equality of canonical trees: numbers are compared by value.\<close>

definition json_num :: "json \<Rightarrow> rat option" where
  "json_num j = (case j of JBool b \<Rightarrow> Some (if b then 1 else 0) | JInt i \<Rightarrow> Some (of_int i)
   | JNum f \<Rightarrow> num_value (LFloat f) | _ \<Rightarrow> None)"

fun json_eq :: "json \<Rightarrow> json \<Rightarrow> bool"
  and json_eq_list :: "json list \<Rightarrow> json list \<Rightarrow> bool" where
  "json_eq (JArr xs) (JArr ys) = json_eq_list xs ys"
| "json_eq (JObj xs) (JObj ys) = (length xs = length ys \<and>
     (\<forall>x \<in> set xs. \<exists>y \<in> set ys. fst x = fst y \<and> json_eq (snd x) (snd y)))"
| "json_eq x y = (case (json_num x, json_num y) of
     (Some a, Some b) \<Rightarrow> a = b | (None, None) \<Rightarrow> x = y \<and> x \<noteq> JNum FNan | _ \<Rightarrow> False)"
| "json_eq_list [] [] = True"
| "json_eq_list (x # xs) (y # ys) = (json_eq x y \<and> json_eq_list xs ys)"
| "json_eq_list _ _ = False"

section \<open>Field types\<close>

definition as_text :: "pyval \<Rightarrow> string res" where
  "as_text v = str_key v"

definition as_list :: "pyval \<Rightarrow> pyval list res" where
  "as_list v = (case v of PList xs \<Rightarrow> Inr xs | _ \<Rightarrow> Inl TypeError)"

definition as_bool :: "pyval \<Rightarrow> bool res" where
  "as_bool v = (case v of PLeaf l \<Rightarrow> (case l of LBool b \<Rightarrow> Inr b | _ \<Rightarrow> Inl TypeError) | _ \<Rightarrow> Inl TypeError)"

definition as_int :: "pyval \<Rightarrow> int res" where
  "as_int v = (case v of PLeaf l \<Rightarrow> (case l of LInt i \<Rightarrow> Inr i | _ \<Rightarrow> Inl TypeError) | _ \<Rightarrow> Inl TypeError)"

text \<open>\<open>_string_tuple\<close> and \<open>_canonical_ref_tuple\<close>\<close>

definition string_tuple :: "pyval \<Rightarrow> string list res" where
  "string_tuple v = rbind (as_list v) (rmap as_text)"

definition canonical_ref_tuple :: "pyval \<Rightarrow> string list res" where
  "canonical_ref_tuple v = rbind (string_tuple v) (\<lambda>xs.
     if sorted_list_of_set (set xs) \<noteq> xs then Inl ValueError else Inr xs)"

text \<open>
  The check of a SHA-256 text: 64 characters, equal to its lower-case form, and accepted by
  \<open>int(value, 16)\<close>, which skips white space and takes a sign, a \<open>0x\<close> prefix and single
  underscores.
\<close>

definition lower_latin :: "char \<Rightarrow> bool" where
  "lower_latin c = (let n = of_char c :: nat in \<not> (65 \<le> n \<and> n \<le> 90 \<or> 192 \<le> n \<and> n \<le> 222 \<and> n \<noteq> 215))"

definition int_space :: "char \<Rightarrow> bool" where
  "int_space c = (of_char c \<in> {9, 10, 11, 12, 13, 32, 133, 160 :: nat})"

definition hex_char :: "char \<Rightarrow> bool" where
  "hex_char c = (let n = of_char c :: nat in 48 \<le> n \<and> n \<le> 57 \<or> 97 \<le> n \<and> n \<le> 102 \<or> 65 \<le> n \<and> n \<le> 70)"

text \<open>Digits with single underscores between them, none at the end.\<close>

fun hex_digits :: "string \<Rightarrow> bool" where
  "hex_digits [] = False"
| "hex_digits [c] = hex_char c"
| "hex_digits (c # d # cs) =
     (hex_char c \<and> (if d = CHR ''_'' then hex_digits cs else hex_digits (d # cs)))"

definition skip_sign :: "string \<Rightarrow> string" where
  "skip_sign s = (case s of c # cs \<Rightarrow> if c = CHR ''+'' \<or> c = CHR ''-'' then cs else s | [] \<Rightarrow> [])"

definition skip_prefix :: "string \<Rightarrow> string" where
  "skip_prefix s = (case s of
     c # d # cs \<Rightarrow> if c = CHR ''0'' \<and> (d = CHR ''x'' \<or> d = CHR ''X'')
       then (case cs of x # xs \<Rightarrow> if x = CHR ''_'' then xs else cs | [] \<Rightarrow> []) else s
   | _ \<Rightarrow> s)"

definition int16_parses :: "string \<Rightarrow> bool" where
  "int16_parses s = (let body = dropWhile int_space (rev (dropWhile int_space (rev s)))
     in hex_digits (skip_prefix (skip_sign body)))"

definition sha_text :: "pyval \<Rightarrow> string res" where
  "sha_text v = (case v of
     PLeaf l \<Rightarrow> (case l of
         LStr s \<Rightarrow> if length s \<noteq> 64 \<or> \<not> list_all lower_latin s then Inl TypeError
                  else if \<not> int16_parses s then Inl ValueError else Inr s
       | _ \<Rightarrow> Inl TypeError)
   | _ \<Rightarrow> Inl TypeError)"

definition optional_sha :: "pyval \<Rightarrow> string option res" where
  "optional_sha v = (if v = pnone then Inr None else rbind (sha_text v) (\<lambda>s. Inr (Some s)))"

section \<open>Fractions and ledgers\<close>

definition fraction_dict :: "rat \<Rightarrow> pyval" where
  "fraction_dict q = pdict [(''numerator'', pint (fst (quotient_of q))),
     (''denominator'', pint (snd (quotient_of q)))]"

definition fraction_from_artifact :: "pyval \<Rightarrow> rat res" where
  "fraction_from_artifact v = rbind (as_items v) (\<lambda>kvs.
     if \<not> fields_are kvs [''numerator'', ''denominator''] then Inl TypeError
     else rbind (as_int (get kvs ''numerator'')) (\<lambda>n. rbind (as_int (get kvs ''denominator'')) (\<lambda>d.
       if d \<le> 0 then Inl TypeError else Inr (Fract n d))))"

definition ledger_fields :: "string list" where
  "ledger_fields = [''record'', ''sector'', ''holonomy'', ''overlap'', ''local_constraint'',
     ''physical_auxiliary'', ''lexicographic_order'']"

definition ledger_dict :: "ledger \<Rightarrow> pyval" where
  "ledger_dict L = pdict
     [(''record'', fraction_dict (record_mismatch L)), (''sector'', fraction_dict (sector L)),
      (''holonomy'', fraction_dict (holonomy L)), (''overlap'', fraction_dict (overlap L)),
      (''local_constraint'', fraction_dict (local_constraint L)),
      (''physical_auxiliary'', pdict (map (\<lambda>(n, q). (n, fraction_dict q)) (physical_auxiliary L))),
      (''lexicographic_order'', pstrs ([''record'', ''sector'', ''holonomy'', ''overlap'',
         ''local_constraint''] @ auxiliary_names L))]"

text \<open>A ledger is rebuilt through the constructor, and the text must be the ledger's own.\<close>

definition ledger_from_artifact :: "pyval \<Rightarrow> ledger option res" where
  "ledger_from_artifact v = (if v = pnone then Inr None else
     rbind (as_items v) (\<lambda>kvs.
     if \<not> fields_are kvs ledger_fields then Inl ValueError
     else rbind (as_items (get kvs ''physical_auxiliary'')) (\<lambda>aux.
     if \<not> valid_keys aux then Inl TypeError
     else rbind (fraction_from_artifact (get kvs ''record'')) (\<lambda>rec.
     rbind (fraction_from_artifact (get kvs ''sector'')) (\<lambda>sec.
     rbind (fraction_from_artifact (get kvs ''holonomy'')) (\<lambda>hol.
     rbind (fraction_from_artifact (get kvs ''overlap'')) (\<lambda>ov.
     rbind (fraction_from_artifact (get kvs ''local_constraint'')) (\<lambda>lc.
     rbind (rmap (\<lambda>kv. rbind (as_text (fst kv)) (\<lambda>n.
        rbind (fraction_from_artifact (snd kv)) (\<lambda>q. Inr (n, PLeaf (LFrac q))))) aux) (\<lambda>entries.
     rbind (mk_ledger (PLeaf (LFrac ov)) (PLeaf (LFrac lc)) (PLeaf (LFrac sec)) (PLeaf (LFrac rec))
              (PLeaf (LFrac hol)) entries) (\<lambda>L.
     if \<not> py_eq (ledger_dict L) v then Inl ValueError else Inr (Some L)))))))))))"

section \<open>Dictionaries built by the code\<close>

lemma get_ditems: "get (ditems kvs) k = (case map_of kvs k of None \<Rightarrow> pnone | Some v \<Rightarrow> v)"
proof -
  have "map_of (ditems kvs) (pstr k) = map_of kvs k" by (induction kvs) (auto simp: ditems_def)
  then show ?thesis by (simp add: get_def)
qed

lemma as_items_pdict [simp]: "as_items (pdict kvs) = Inr (ditems kvs)"
  by (simp add: as_items_def pdict_def)

lemma pdict_not_none [simp]: "pdict kvs \<noteq> pnone"
  by (simp add: pdict_def)

lemma fields_ditems: "fields_are (ditems kvs) names \<longleftrightarrow> fst ` set kvs = set names"
proof -
  have "fst ` set (ditems kvs) = (\<lambda>s. pstr s) ` (fst ` set kvs)"
    by (force simp: ditems_def image_image)
  moreover have "inj (\<lambda>s. pstr s)" by (simp add: inj_def)
  ultimately show ?thesis unfolding fields_are_def by (simp add: inj_image_eq_iff)
qed

lemma valid_keys_iff: "valid_keys kvs \<longleftrightarrow> (\<forall>kv \<in> set kvs. \<exists>s. fst kv = pstr s \<and> s \<noteq> [])"
proof -
  have "(case str_key k of Inl _ \<Rightarrow> False | Inr _ \<Rightarrow> True) \<longleftrightarrow> (\<exists>s. k = pstr s \<and> s \<noteq> [])" for k
    using str_key_eq [of k] by (cases "str_key k") auto
  then show ?thesis by (simp add: valid_keys_def list_all_iff)
qed

lemma valid_keys_ditems: "valid_keys (ditems kvs) \<longleftrightarrow> [] \<notin> fst ` set kvs"
  by (force simp: valid_keys_iff ditems_def)

lemmas dict_simps = get_ditems fields_ditems valid_keys_ditems

lemma as_text_pstr [simp]: "as_text (pstr s) = (if s = [] then Inl TypeError else Inr s)"
  by (simp add: as_text_def str_key_def)

lemma as_text_Inr: "as_text v = Inr s \<longleftrightarrow> v = pstr s \<and> s \<noteq> []"
  by (simp add: as_text_def str_key_eq)

lemma as_int_pint [simp]: "as_int (pint i) = Inr i"
  by (simp add: as_int_def)

lemma as_bool_pbool [simp]: "as_bool (pbool b) = Inr b"
  by (simp add: as_bool_def)

lemma as_bool_Inr: "as_bool v = Inr b \<longleftrightarrow> v = pbool b"
  by (auto simp: as_bool_def split: pyval.splits leaf.splits)

lemma as_int_Inr: "as_int v = Inr b \<longleftrightarrow> v = pint b"
  by (auto simp: as_int_def split: pyval.splits leaf.splits)

lemma string_tuple_pstrs: "[] \<notin> set xs \<Longrightarrow> string_tuple (pstrs xs) = Inr xs"
proof -
  assume "[] \<notin> set xs"
  then have "rmap as_text (map (\<lambda>s. pstr s) xs) = Inr xs"
    by (induction xs) auto
  then show ?thesis by (simp add: string_tuple_def pstrs_def as_list_def)
qed

lemma string_tuple_Inr: "string_tuple v = Inr xs \<longleftrightarrow> v = pstrs xs \<and> [] \<notin> set xs"
proof
  assume "string_tuple v = Inr xs"
  then obtain ys where v: "v = PList ys" and ys: "rmap as_text ys = Inr xs"
    by (cases v) (auto simp: string_tuple_def as_list_def)
  from ys have "ys = map (\<lambda>s. pstr s) xs \<and> [] \<notin> set xs"
    by (induction ys arbitrary: xs) (auto simp: rbind_eq_Inr as_text_Inr)
  then show "v = pstrs xs \<and> [] \<notin> set xs" by (simp add: v pstrs_def)
qed (simp add: string_tuple_pstrs)

lemma canonical_ref_tuple_Inr:
  "canonical_ref_tuple v = Inr xs \<longleftrightarrow> v = pstrs xs \<and> [] \<notin> set xs \<and> sorted_list_of_set (set xs) = xs"
  by (auto simp: canonical_ref_tuple_def rbind_eq_Inr string_tuple_Inr split: if_splits)

section \<open>Plain values equal themselves\<close>

lemma leaf_eq_refl: "l \<noteq> LFloat FNan \<Longrightarrow> leaf_eq l l"
  by (auto simp: leaf_eq_def split: option.splits)

lemma py_eq_list_refl: "(\<And>x. x \<in> set xs \<Longrightarrow> py_eq x x) \<Longrightarrow> py_eq_list xs xs"
  by (induction xs) auto

lemma plain_leaf_eq: "plain_leaf l = Inr () \<Longrightarrow> leaf_eq l l"
  by (rule leaf_eq_refl) (auto simp: plain_leaf_def is_finite_float_def)

lemma key_eq_refl: "valid_keys kvs \<Longrightarrow> kv \<in> set kvs \<Longrightarrow> py_eq (fst kv) (fst kv)"
  by (auto simp: valid_keys_iff leaf_eq_refl)

lemma plain_json_eq: "plain_json v = Inr () \<Longrightarrow> py_eq v v"
proof (induction v rule: plain_json.induct)
  case (1 l)
  then show ?case by (simp add: plain_leaf_eq)
next
  case (2 xs)
  then show ?case by (auto simp: check_all_ok intro: py_eq_list_refl)
next
  case (3 kvs)
  then have v: "valid_keys kvs" and e: "\<And>kv. kv \<in> set kvs \<Longrightarrow> py_eq (snd kv) (snd kv)"
    by (auto simp: check_all_ok split: if_splits)
  have "\<exists>y \<in> set kvs. py_eq (fst x) (fst y) \<and> py_eq (snd x) (snd y)" if "x \<in> set kvs" for x
    using key_eq_refl [OF v that] e [OF that] that by blast
  then show ?case by simp
qed simp_all

section \<open>The ledger round trip\<close>

lemma fraction_round_trip [simp]: "fraction_from_artifact (fraction_dict q) = Inr q"
proof -
  have "0 < snd (quotient_of q)" by (rule quotient_of_denom_pos')
  moreover have "Fract (fst (quotient_of q)) (snd (quotient_of q)) = q"
    by (metis Fract_of_int_quotient prod.collapse quotient_of_div)
  ultimately show ?thesis
    by (simp add: fraction_from_artifact_def fraction_dict_def dict_simps)
qed

lemma fraction_plain: "plain_json (fraction_dict q) = Inr ()"
  by (simp add: fraction_dict_def pdict_def valid_keys_ditems) (simp add: ditems_def plain_leaf_def)

lemma pstrs_plain: "plain_json (pstrs xs) = Inr ()"
  by (simp add: pstrs_def check_all_ok plain_leaf_def)

lemma pdict_plain: "[] \<notin> fst ` set kvs \<Longrightarrow> (\<And>k v. (k, v) \<in> set kvs \<Longrightarrow> plain_json v = Inr ()) \<Longrightarrow>
    plain_json (pdict kvs) = Inr ()"
  by (simp add: pdict_def valid_keys_ditems) (auto simp: ditems_def check_all_ok)

lemma ledger_plain: "wf_ledger L \<Longrightarrow> plain_json (ledger_dict L) = Inr ()"
  unfolding ledger_dict_def
  by (intro pdict_plain) (auto simp: fraction_plain pstrs_plain wf_ledger_def list_all_iff intro!: pdict_plain)

lemma check_aux_fractions:
  "list_all (\<lambda>(n, q). n \<noteq> [] \<and> 0 \<le> q) aux \<Longrightarrow> distinct (map fst aux) \<Longrightarrow> set (map fst aux) \<inter> seen = {} \<Longrightarrow>
   check_aux seen (map (\<lambda>(n, q). (n, PLeaf (LFrac q))) aux) = Inr aux"
  by (induction aux arbitrary: seen) (auto simp: exact_def)

lemma entries_round_trip:
  "list_all (\<lambda>(n, q). n \<noteq> []) aux \<Longrightarrow> rmap (\<lambda>kv. rbind (as_text (fst kv)) (\<lambda>n. rbind (fraction_from_artifact (snd kv))
     (\<lambda>q. Inr (n, PLeaf (LFrac q))))) (map (\<lambda>(n, q). (pstr n, fraction_dict q)) aux)
   = Inr (map (\<lambda>(n, q). (n, PLeaf (LFrac q))) aux)"
  by (induction aux) auto

lemma ledger_round_trip:
  assumes wf: "wf_ledger L"
  shows "ledger_from_artifact (ledger_dict L) = Inr (Some L)"
proof -
  let ?aux = "map (\<lambda>(n, q). (pstr n, fraction_dict q)) (physical_auxiliary L)"
  have aux: "ditems (map (\<lambda>(n, q). (n, fraction_dict q)) (physical_auxiliary L)) = ?aux"
    by (simp add: ditems_def comp_def split_def)
  have entries: "rmap (\<lambda>kv. rbind (as_text (fst kv)) (\<lambda>n. rbind (fraction_from_artifact (snd kv))
        (\<lambda>q. Inr (n, PLeaf (LFrac q))))) ?aux = Inr (map (\<lambda>(n, q). (n, PLeaf (LFrac q))) (physical_auxiliary L))"
    by (rule entries_round_trip) (use wf in \<open>auto simp: wf_ledger_def list_all_iff\<close>)
  have valid: "valid_keys ?aux"
    using wf by (auto simp: valid_keys_iff list_all_iff wf_ledger_def)
  have "mk_ledger (PLeaf (LFrac (overlap L))) (PLeaf (LFrac (local_constraint L))) (PLeaf (LFrac (sector L)))
      (PLeaf (LFrac (record_mismatch L))) (PLeaf (LFrac (holonomy L)))
      (map (\<lambda>(n, q). (n, PLeaf (LFrac q))) (physical_auxiliary L)) = Inr L"
    using wf check_aux_fractions [of "physical_auxiliary L" "{}"]
    by (simp add: mk_ledger_def exact_def wf_ledger_def auxiliary_names_def sort_key_sorted)
  then show ?thesis
    using entries valid plain_json_eq [OF ledger_plain [OF wf]]
    by (simp add: ledger_from_artifact_def ledger_dict_def dict_simps ledger_fields_def aux)
qed

lemma ledger_from_artifact_wf:
  assumes "ledger_from_artifact v = Inr (Some L)"
  shows "wf_ledger L \<and> py_eq (ledger_dict L) v"
proof -
  obtain ov lc sec rec hol entries where "mk_ledger ov lc sec rec hol entries = Inr L" "py_eq (ledger_dict L) v"
    using assms unfolding ledger_from_artifact_def
    by (simp split: if_splits) (elim rbind_eq_InrE, simp split: if_splits, elim rbind_eq_InrE, auto split: if_splits elim!: rbind_eq_InrE)
  then show ?thesis using mk_ledger_wf by blast
qed

section \<open>Digest texts\<close>

definition hex_text :: "string \<Rightarrow> bool" where
  "hex_text s \<longleftrightarrow> length s = 64 \<and> list_all (\<lambda>c. c \<in> set ''0123456789abcdef'') s"

lemma hex_text_chars: "c \<in> set ''0123456789abcdef'' \<Longrightarrow>
    hex_char c \<and> lower_latin c \<and> \<not> int_space c \<and> c \<noteq> CHR ''_'' \<and> c \<noteq> CHR ''+'' \<and> c \<noteq> CHR ''-'' \<and>
    c \<noteq> CHR ''x'' \<and> c \<noteq> CHR ''X''"
proof -
  have "list_all (\<lambda>c. hex_char c \<and> lower_latin c \<and> \<not> int_space c \<and> c \<noteq> CHR ''_'' \<and> c \<noteq> CHR ''+'' \<and>
    c \<noteq> CHR ''-'' \<and> c \<noteq> CHR ''x'' \<and> c \<noteq> CHR ''X'') ''0123456789abcdef''" by code_simp
  then show "c \<in> set ''0123456789abcdef'' \<Longrightarrow> ?thesis" unfolding list_all_iff by blast
qed

lemma hex_digits_all: "list_all (\<lambda>c. hex_char c \<and> c \<noteq> CHR ''_'') s \<Longrightarrow> s \<noteq> [] \<Longrightarrow> hex_digits s"
  by (induction s rule: hex_digits.induct) auto

lemma skip_sign_id: "CHR ''+'' \<notin> set s \<Longrightarrow> CHR ''-'' \<notin> set s \<Longrightarrow> skip_sign s = s"
  by (cases s) (auto simp: skip_sign_def)

lemma skip_prefix_id: "CHR ''x'' \<notin> set s \<Longrightarrow> CHR ''X'' \<notin> set s \<Longrightarrow> skip_prefix s = s"
  by (cases s; cases "tl s") (auto simp: skip_prefix_def)

lemma dropWhile_none: "(\<And>c. c \<in> set s \<Longrightarrow> \<not> P c) \<Longrightarrow> dropWhile P s = s"
  by (cases s) auto

lemma hex_text_sha: "hex_text s \<Longrightarrow> sha_text (pstr s) = Inr s"
proof -
  assume h: "hex_text s"
  have c: "hex_char c \<and> lower_latin c \<and> \<not> int_space c \<and> c \<noteq> CHR ''_'' \<and> c \<noteq> CHR ''+'' \<and> c \<noteq> CHR ''-'' \<and>
    c \<noteq> CHR ''x'' \<and> c \<noteq> CHR ''X''" if "c \<in> set s" for c
    using h that hex_text_chars unfolding hex_text_def list_all_iff by blast
  have len: "length s = 64" using h unfolding hex_text_def by blast
  have "dropWhile int_space s = s" by (rule dropWhile_none) (use c in blast)
  moreover have "dropWhile int_space (rev s) = rev s"
    by (rule dropWhile_none) (use c in \<open>unfold set_rev, blast\<close>)
  moreover have "skip_sign s = s" by (rule skip_sign_id) (use c in blast)+
  moreover have "skip_prefix s = s" by (rule skip_prefix_id) (use c in blast)+
  moreover have "list_all (\<lambda>c. hex_char c \<and> c \<noteq> CHR ''_'') s" using c unfolding list_all_iff by blast
  then have "hex_digits s" by (rule hex_digits_all) (use len in auto)
  ultimately have "int16_parses s" by (simp add: int16_parses_def)
  moreover have "list_all lower_latin s" using c unfolding list_all_iff by blast
  ultimately show ?thesis using len by (simp add: sha_text_def)
qed

lemma hex_text_nonempty: "hex_text s \<Longrightarrow> s \<noteq> []"
  by (auto simp: hex_text_def)

end
