(* ===== verification/Receipt_Artifact.thy ===== *)
theory Receipt_Artifact
  imports Artifact_Values
begin

text \<open>
  Serialized receipts (\<open>RepairCommitReceipt.as_dict\<close>) and their self-consistency diagnostic
  (\<open>_verify_repair_receipt_self_consistency\<close>, \<open>verify_repair_receipt_artifact\<close> of
  \<open>oph_fpe/repair/transaction.py\<close>): the artifact is parsed field by field into a receipt, and
  every claim of the artifact is compared with what the parsed primitives imply.
\<close>

section \<open>Writing a receipt\<close>

definition receipt_nonclaims :: "string list" where
  "receipt_nonclaims = [''physical source provenance'', ''probability or vacuum selection'',
     ''H3 or event geometry'', ''KMS clock normalization'', ''continuum or Standard Model emergence'']"

definition receipt_scope :: string where
  "receipt_scope = ''finite quotient-visible transactional repair''"

definition check_dict :: "verification_check \<Rightarrow> pyval" where
  "check_dict c = pdict [(''name'', pstr (name c)), (''passed'', pbool (passed c)), (''detail'', pstr (detail c))]"

definition footprint_dict :: "proposal_footprint \<Rightarrow> pyval" where
  "footprint_dict f = pdict [(''proposal_id'', pstr (fp_proposal_id f)),
     (''declared_reads'', pstrs (declared_reads f)), (''observed_reads'', pstrs (observed_reads f)),
     (''required_reads'', pstrs (required_reads f)), (''snapshot_reads'', pstrs (snapshot_reads f)),
     (''writes'', pstrs (writes f))]"

definition ledger_value :: "ledger option \<Rightarrow> pyval" where
  "ledger_value v = (case v of None \<Rightarrow> pnone | Some L \<Rightarrow> ledger_dict L)"

definition text_value :: "string option \<Rightarrow> pyval" where
  "text_value v = (case v of None \<Rightarrow> pnone | Some s \<Rightarrow> pstr s)"

text \<open>The claims that the receipt derives from its primitive fields.\<close>

definition claimed_fields :: "(json \<Rightarrow> string) \<Rightarrow> repair_receipt \<Rightarrow> (string \<times> bool) list" where
  "claimed_fields dg r =
     [(''COMPLETE_READ_SET_RECEIPT'', complete_read_set_receipt r),
      (''CONFLICT_COMPONENT_SUPPORT_RECEIPT'', conflict_component_support_receipt dg r),
      (''ATOMIC_UNION_REVALIDATION_RECEIPT'', atomic_union_revalidation_receipt dg r),
      (''TRANSACTIONAL_REPAIR_RECEIPT'', physical_repair_receipt dg r),
      (''physical_repair_receipt'', physical_repair_receipt dg r),
      (''semantic_record_written'', semantic_record_written r),
      (''transition_event_emitted'', transition_event_emitted r),
      (''diagnostic_only'', diagnostic_only r)]"

definition receipt_fields :: "(json \<Rightarrow> string) \<Rightarrow> repair_receipt \<Rightarrow> (string \<times> pyval) list" where
  "receipt_fields dg r =
     [(''schema'', pstr ''oph_receipt_v2''), (''receipt_type'', pstr ''TRANSACTIONAL_REPAIR''),
      (''contract_version'', pstr ''repair-contract-r1''),
      (''verifier_version'', pstr ''oph-fpe-transaction-verifier-v1''),
      (''proposal_ids'', pstrs (r_proposal_ids r)),
      (''transition_kind'', pstr (kind_value (r_transition_kind r))),
      (''proposal_classes'', pstrs (map class_value (r_proposal_classes r))),
      (''checks'', PList (map check_dict (r_checks r))),
      (''committed'', pbool (r_committed r)), (''verdict'', pstr (verdict r))]
     @ map (\<lambda>(k, b). (k, pbool b)) (claimed_fields dg r) @
     [(''claim_tier'', pstr (claim_tier dg r)),
      (''pre_state_hash'', pstr (r_pre_state_hash r)), (''post_state_hash'', pstr (r_post_state_hash r)),
      (''mismatch_before'', ledger_value (r_mismatch_before r)),
      (''mismatch_after'', ledger_value (r_mismatch_after r)),
      (''snapshot_hashes'', pstrs (r_snapshot_hashes r)),
      (''proposal_footprints'', PList (map footprint_dict (r_proposal_footprints r))),
      (''score_observed_reads'', pstrs (r_score_observed_reads r)),
      (''score_snapshot_reads'', pstrs (r_score_snapshot_reads r)),
      (''conflict_edges'', PList (map (\<lambda>e. pstrs [fst e, snd e]) (r_conflict_edges r))),
      (''conflict_support_hash'', pstr (r_conflict_support_hash r)),
      (''read_set_hash'', pstr (r_read_set_hash r)), (''write_set_hash'', pstr (r_write_set_hash r)),
      (''protected_boundary_hash'', pstr (r_protected_boundary_hash r)),
      (''versions_before_hash'', pstr (r_versions_before_hash r)),
      (''versions_after_hash'', pstr (r_versions_after_hash r)),
      (''rollback_root'', pstr (r_rollback_root r)),
      (''parent_event_ids'', pstrs (r_parent_event_ids r)),
      (''transition_event_id'', text_value (r_transition_event_id r)),
      (''semantic_record_event_id'', text_value (r_semantic_record_event_id r)),
      (''commit_id'', pstr (r_commit_id r)), (''scope'', pstr receipt_scope),
      (''nonclaims'', pstrs receipt_nonclaims)]"

definition receipt_dict :: "(json \<Rightarrow> string) \<Rightarrow> repair_receipt \<Rightarrow> pyval" where
  "receipt_dict dg r = pdict (receipt_fields dg r)"

definition serialized_receipt_fields :: "string list" where
  "serialized_receipt_fields = [''schema'', ''receipt_type'', ''contract_version'', ''verifier_version'',
     ''proposal_ids'', ''transition_kind'', ''proposal_classes'', ''checks'', ''committed'', ''verdict'',
     ''physical_repair_receipt'', ''COMPLETE_READ_SET_RECEIPT'', ''CONFLICT_COMPONENT_SUPPORT_RECEIPT'',
     ''ATOMIC_UNION_REVALIDATION_RECEIPT'', ''TRANSACTIONAL_REPAIR_RECEIPT'', ''diagnostic_only'',
     ''claim_tier'', ''pre_state_hash'', ''post_state_hash'', ''mismatch_before'', ''mismatch_after'',
     ''snapshot_hashes'', ''proposal_footprints'', ''score_observed_reads'', ''score_snapshot_reads'',
     ''conflict_edges'', ''conflict_support_hash'', ''read_set_hash'', ''write_set_hash'',
     ''protected_boundary_hash'', ''versions_before_hash'', ''versions_after_hash'', ''rollback_root'',
     ''parent_event_ids'', ''transition_event_id'', ''transition_event_emitted'',
     ''semantic_record_event_id'', ''semantic_record_written'', ''commit_id'', ''scope'', ''nonclaims'']"

section \<open>Parsing a receipt\<close>

definition parse_header :: "pyval \<Rightarrow> items res" where
  "parse_header raw = rbind (as_items raw) (\<lambda>kvs.
     if \<not> fields_are kvs serialized_receipt_fields then Inl ValueError
     else if get kvs ''schema'' \<noteq> pstr ''oph_receipt_v2'' then Inl ValueError
     else if get kvs ''receipt_type'' \<noteq> pstr ''TRANSACTIONAL_REPAIR'' then Inl ValueError
     else if get kvs ''contract_version'' \<noteq> pstr ''repair-contract-r1'' then Inl ValueError
     else if get kvs ''verifier_version'' \<noteq> pstr ''oph-fpe-transaction-verifier-v1'' then Inl ValueError
     else Inr kvs)"

definition all_kinds :: "transition_kind_t list" where
  "all_kinds = [STRICT_REPAIR, REVERSIBLE_PROPAGATION, RECORD_COMMIT, CONTROLLED_EXPLORATION,
     GAUGE_STUTTER, ROLLBACK]"

definition all_classes :: "proposal_class_t list" where
  "all_classes = [EXACT_SPLICE, CONDITIONAL_EXPECTATION, PETZ_RECOVERY, FAWZI_RENNER_RECOVERY,
     CSP_COMPLETION, PHYSICAL_CARRIER_RESPONSE, DIAGNOSTIC_HEURISTIC]"

text \<open>\<open>TransitionKind(value)\<close> and \<open>ProposalClass(value)\<close>\<close>

definition kind_of :: "pyval \<Rightarrow> transition_kind_t res" where
  "kind_of v = (case find (\<lambda>k. pstr (kind_value k) = v) all_kinds of None \<Rightarrow> Inl ValueError | Some k \<Rightarrow> Inr k)"

definition class_of :: "pyval \<Rightarrow> proposal_class_t res" where
  "class_of v = (case find (\<lambda>k. pstr (class_value k) = v) all_classes of None \<Rightarrow> Inl ValueError | Some k \<Rightarrow> Inr k)"

definition parse_ids :: "pyval \<Rightarrow> string list res" where
  "parse_ids v = canonical_ref_tuple v"

definition parse_classes :: "pyval \<Rightarrow> proposal_class_t list res" where
  "parse_classes v = rbind (as_list v) (\<lambda>xs. rbind (rmap class_of xs) (\<lambda>cs.
     if sort_key class_value (uniq cs) \<noteq> cs then Inl ValueError else Inr cs))"

text \<open>A row must be an object with exactly the given fields; either failure is a \<open>ValueError\<close>.\<close>

definition exact_row :: "pyval \<Rightarrow> string list \<Rightarrow> items res" where
  "exact_row row names = (case row of
     PDict kvs \<Rightarrow> if fields_are kvs names then Inr kvs else Inl ValueError
   | _ \<Rightarrow> Inl ValueError)"

definition as_detail :: "pyval \<Rightarrow> string res" where
  "as_detail v = (case v of PLeaf l \<Rightarrow> (case l of LStr s \<Rightarrow> Inr s | _ \<Rightarrow> Inl TypeError) | _ \<Rightarrow> Inl TypeError)"

definition parse_check :: "pyval \<Rightarrow> verification_check res" where
  "parse_check row = rbind (exact_row row [''name'', ''passed'', ''detail'']) (\<lambda>kvs.
     rbind (as_text (get kvs ''name'')) (\<lambda>n. rbind (as_bool (get kvs ''passed'')) (\<lambda>p.
     rbind (as_detail (get kvs ''detail'')) (\<lambda>d. Inr \<lparr>name = n, passed = p, detail = d\<rparr>))))"

definition parse_checks :: "pyval \<Rightarrow> transition_kind_t \<Rightarrow> verification_check list res" where
  "parse_checks v kind = rbind (as_list v) (\<lambda>rows.
     if rows = [] then Inl TypeError else rbind (rmap parse_check rows) (\<lambda>cs.
     if \<not> distinct (map name cs) then Inl ValueError
     else if \<not> check_schema_complete cs kind then Inl ValueError else Inr cs))"

definition footprint_fields :: "string list" where
  "footprint_fields = [''proposal_id'', ''declared_reads'', ''observed_reads'', ''required_reads'',
     ''snapshot_reads'', ''writes'']"

definition parse_footprint :: "pyval \<Rightarrow> proposal_footprint res" where
  "parse_footprint row = rbind (exact_row row footprint_fields) (\<lambda>kvs.
     rbind (as_text (get kvs ''proposal_id'')) (\<lambda>pid.
     rbind (canonical_ref_tuple (get kvs ''declared_reads'')) (\<lambda>dr.
     rbind (canonical_ref_tuple (get kvs ''observed_reads'')) (\<lambda>obs.
     rbind (canonical_ref_tuple (get kvs ''required_reads'')) (\<lambda>rr.
     rbind (canonical_ref_tuple (get kvs ''snapshot_reads'')) (\<lambda>sr.
     rbind (canonical_ref_tuple (get kvs ''writes'')) (\<lambda>ws.
     Inr \<lparr>fp_proposal_id = pid, declared_reads = dr, observed_reads = obs, required_reads = rr,
          snapshot_reads = sr, writes = ws\<rparr>)))))))"

definition parse_footprints :: "pyval \<Rightarrow> string list \<Rightarrow> proposal_footprint list res" where
  "parse_footprints v ids = rbind (as_list v) (\<lambda>rows. rbind (rmap parse_footprint rows) (\<lambda>fps.
     if map fp_proposal_id fps \<noteq> ids then Inl ValueError else Inr fps))"

text \<open>The edges are read as texts first; then each must have two ends.\<close>

definition parse_edges :: "pyval \<Rightarrow> (string \<times> string) list res" where
  "parse_edges v = rbind (as_list v) (\<lambda>rows. rbind (rmap string_tuple rows) (\<lambda>es.
     if \<not> list_all (\<lambda>e. length e = 2) es then Inl ValueError
     else Inr (map (\<lambda>e. (e ! 0, e ! 1)) es)))"

definition parse_snapshots :: "pyval \<Rightarrow> transition_kind_t \<Rightarrow> nat \<Rightarrow> string list res" where
  "parse_snapshots v kind n = rbind (string_tuple v) (\<lambda>hs.
     if kind \<noteq> ROLLBACK \<and> length hs \<noteq> n then Inl ValueError else Inr hs)"

definition parse_receipt :: "pyval \<Rightarrow> repair_receipt res" where
  "parse_receipt raw = rbind (parse_header raw) (\<lambda>kvs.
     rbind (parse_ids (get kvs ''proposal_ids'')) (\<lambda>ids.
     rbind (kind_of (get kvs ''transition_kind'')) (\<lambda>kind.
     rbind (parse_classes (get kvs ''proposal_classes'')) (\<lambda>classes.
     rbind (parse_checks (get kvs ''checks'') kind) (\<lambda>checks.
     rbind (parse_footprints (get kvs ''proposal_footprints'') ids) (\<lambda>fps.
     rbind (canonical_ref_tuple (get kvs ''score_observed_reads'')) (\<lambda>obs.
     rbind (canonical_ref_tuple (get kvs ''score_snapshot_reads'')) (\<lambda>snap.
     rbind (parse_edges (get kvs ''conflict_edges'')) (\<lambda>edges.
     rbind (as_bool (get kvs ''committed'')) (\<lambda>committed.
     rbind (ledger_from_artifact (get kvs ''mismatch_before'')) (\<lambda>before.
     rbind (ledger_from_artifact (get kvs ''mismatch_after'')) (\<lambda>after.
     rbind (parse_snapshots (get kvs ''snapshot_hashes'') kind (length fps)) (\<lambda>hashes.
     rbind (canonical_ref_tuple (get kvs ''parent_event_ids'')) (\<lambda>parents.
     rbind (sha_text (get kvs ''pre_state_hash'')) (\<lambda>pre.
     rbind (sha_text (get kvs ''post_state_hash'')) (\<lambda>post.
     rbind (sha_text (get kvs ''conflict_support_hash'')) (\<lambda>support.
     rbind (sha_text (get kvs ''read_set_hash'')) (\<lambda>rh.
     rbind (sha_text (get kvs ''write_set_hash'')) (\<lambda>wh.
     rbind (sha_text (get kvs ''protected_boundary_hash'')) (\<lambda>ph.
     rbind (sha_text (get kvs ''versions_before_hash'')) (\<lambda>vb.
     rbind (sha_text (get kvs ''versions_after_hash'')) (\<lambda>va.
     rbind (sha_text (get kvs ''rollback_root'')) (\<lambda>root.
     rbind (sha_text (get kvs ''commit_id'')) (\<lambda>cid.
     rbind (optional_sha (get kvs ''transition_event_id'')) (\<lambda>tid.
     rbind (optional_sha (get kvs ''semantic_record_event_id'')) (\<lambda>sid.
     Inr \<lparr>r_proposal_ids = ids, r_transition_kind = kind, r_proposal_classes = classes,
          r_checks = checks, r_committed = committed, r_pre_state_hash = pre, r_post_state_hash = post,
          r_mismatch_before = before, r_mismatch_after = after, r_snapshot_hashes = hashes,
          r_proposal_footprints = fps, r_score_observed_reads = obs, r_score_snapshot_reads = snap,
          r_conflict_edges = edges, r_conflict_support_hash = support, r_read_set_hash = rh,
          r_write_set_hash = wh, r_protected_boundary_hash = ph, r_versions_before_hash = vb,
          r_versions_after_hash = va, r_rollback_root = root, r_parent_event_ids = parents,
          r_transition_event_id = tid, r_semantic_record_event_id = sid, r_commit_id = cid\<rparr>))))))))))))))))))))))))))"

section \<open>The diagnostic\<close>

text \<open>A failure is an exception of the parser or a reason the verifier writes down.\<close>

datatype failure = Raised py_error | Reason string

definition failed :: "bool \<Rightarrow> string \<Rightarrow> failure list" where
  "failed bad text = (if bad then [Reason text] else [])"

definition read_union :: "repair_receipt \<Rightarrow> string set" where
  "read_union r = set (concat (map declared_reads (r_proposal_footprints r)))"

definition write_union :: "repair_receipt \<Rightarrow> string set" where
  "write_union r = set (concat (map writes (r_proposal_footprints r)))"

text \<open>The event identifiers that the parsed receipt implies.\<close>

definition expected_transition_event :: "(json \<Rightarrow> string) \<Rightarrow> repair_receipt \<Rightarrow> string option" where
  "expected_transition_event dg r =
     (if r_committed r \<and> \<not> diagnostic_only r \<and>
         (r_transition_kind r = STRICT_REPAIR \<or> r_transition_kind r = RECORD_COMMIT)
      then Some (dg (jobj
        [(''event_domain'', JStr ''finite_transition''),
         (''canonical_payload'', jobj
            [(''proposal_ids'', jstrs (r_proposal_ids r)),
             (''transition_kind'', JStr (kind_value (r_transition_kind r))),
             (''pre'', JStr (r_pre_state_hash r)), (''post'', JStr (r_post_state_hash r))]),
         (''visible_footprint'', jstrs (sorted_list_of_set (read_union r \<union> write_union r))),
         (''semantic_parents'', jstrs (r_parent_event_ids r))]))
      else None)"

definition expected_record_event :: "(json \<Rightarrow> string) \<Rightarrow> repair_receipt \<Rightarrow> string option" where
  "expected_record_event dg r =
     (if r_transition_kind r = RECORD_COMMIT
      then map_option (\<lambda>tid. dg (jobj [(''event_domain'', JStr ''semantic_record_commit''),
             (''transition_event_id'', JStr tid), (''semantic_parents'', jstrs (r_parent_event_ids r))]))
             (expected_transition_event dg r)
      else None)"

definition receipt_reasons :: "(json \<Rightarrow> string) \<Rightarrow> items \<Rightarrow> repair_receipt \<Rightarrow> failure list" where
  "receipt_reasons dg kvs r =
     failed (r_proposal_footprints r \<noteq> [] \<and> dg (jstrs (sorted_list_of_set (read_union r))) \<noteq> r_read_set_hash r)
       ''aggregate read_set_hash does not match proposal footprints'' @
     failed (r_proposal_footprints r \<noteq> [] \<and> dg (jstrs (sorted_list_of_set (write_union r))) \<noteq> r_write_set_hash r)
       ''aggregate write_set_hash does not match proposal footprints'' @
     failed (r_rollback_root r \<noteq> r_pre_state_hash r) ''rollback_root does not equal pre_state_hash'' @
     failed (r_transition_event_id r \<noteq> expected_transition_event dg r)
       ''transition_event_id violates the transition-event contract'' @
     failed (r_semantic_record_event_id r \<noteq> expected_record_event dg r)
       ''semantic_record_event_id violates the record-commit contract'' @
     failed (r_commit_id r \<noteq> dg (commit_seed r))
       ''commit_id does not match canonical primitive receipt fields'' @
     concat (map (\<lambda>(k, b). failed (get kvs k \<noteq> pbool b)
       (''caller-authored '' @ k @ '' disagrees with recomputed value'')) (claimed_fields dg r)) @
     failed (get kvs ''verdict'' \<noteq> pstr (verdict r)) ''verdict disagrees with recomputed checks'' @
     failed (get kvs ''claim_tier'' \<noteq> pstr (claim_tier dg r))
       ''claim_tier disagrees with recomputed transition status'' @
     failed (get kvs ''scope'' \<noteq> pstr receipt_scope) ''scope is noncanonical'' @
     failed (get kvs ''nonclaims'' \<noteq> pstrs receipt_nonclaims) ''nonclaims are missing or noncanonical''"

record consistency_report =
  integrity :: bool
  complete_receipt :: bool
  support_receipt :: bool
  atomic_receipt :: bool
  transactional_receipt :: bool
  report_commit_id :: "string option"
  artifact_hash :: "string option"
  failures :: "failure list"

definition raw_items :: "pyval \<Rightarrow> items" where
  "raw_items raw = (case raw of PDict kvs \<Rightarrow> kvs | _ \<Rightarrow> [])"

definition hash_artifact :: "(json \<Rightarrow> string) \<Rightarrow> (json \<Rightarrow> string) \<Rightarrow> pyval \<Rightarrow> string option \<times> failure list" where
  "hash_artifact dg rp raw = (case raw of
     PDict kvs \<Rightarrow> (case canonical_raw rp raw of
         Inl e \<Rightarrow> (None, [Reason ''artifact is not canonically hashable''])
       | Inr j \<Rightarrow> (Some (dg j), []))
   | _ \<Rightarrow> (None, []))"

definition self_consistency :: "(json \<Rightarrow> string) \<Rightarrow> (json \<Rightarrow> string) \<Rightarrow> pyval \<Rightarrow> consistency_report" where
  "self_consistency dg rp raw =
     (let derived = parse_receipt raw;
          found = (case derived of Inl e \<Rightarrow> [Raised e] | Inr r \<Rightarrow> receipt_reasons dg (raw_items raw) r);
          (hash, unhashable) = hash_artifact dg rp raw;
          bad = found @ unhashable
      in case derived of
           Inl e \<Rightarrow> \<lparr>integrity = False, complete_receipt = False, support_receipt = False,
             atomic_receipt = False, transactional_receipt = False, report_commit_id = None,
             artifact_hash = hash, failures = bad\<rparr>
         | Inr r \<Rightarrow> (let ok = (bad = []) in
             \<lparr>integrity = ok, complete_receipt = ok \<and> complete_read_set_receipt r,
              support_receipt = ok \<and> conflict_component_support_receipt dg r,
              atomic_receipt = ok \<and> atomic_union_revalidation_receipt dg r,
              transactional_receipt = ok \<and> physical_repair_receipt dg r,
              report_commit_id = Some (r_commit_id r), artifact_hash = hash, failures = bad\<rparr>))"

text \<open>
  \<open>verify_repair_receipt_artifact\<close>: the public entry point reports self-consistency and never a
  promotable receipt.
\<close>

record diagnostic_report =
  diag_self_consistent :: bool
  diag_integrity :: bool
  diag_transactional :: bool
  diag_commit_id :: "string option"
  diag_artifact_hash :: "string option"
  diag_failures :: "failure list"
  promotion_blockers :: "string list"

definition verify_receipt_artifact :: "(json \<Rightarrow> string) \<Rightarrow> (json \<Rightarrow> string) \<Rightarrow> pyval \<Rightarrow> diagnostic_report" where
  "verify_receipt_artifact dg rp raw = (let d = self_consistency dg rp raw in
     \<lparr>diag_self_consistent = integrity d, diag_integrity = False, diag_transactional = False,
      diag_commit_id = report_commit_id d, diag_artifact_hash = artifact_hash d,
      diag_failures = failures d, promotion_blockers = [''primitive_replay_envelope_required'']\<rparr>)"

section \<open>Reading back what was written\<close>

lemma receipt_field_names: "fst ` set (receipt_fields dg r) = set serialized_receipt_fields"
  unfolding receipt_fields_def claimed_fields_def serialized_receipt_fields_def by auto

lemma receipt_get [simp]:
  "get (ditems (receipt_fields dg r)) ''schema'' = pstr ''oph_receipt_v2''"
  "get (ditems (receipt_fields dg r)) ''receipt_type'' = pstr ''TRANSACTIONAL_REPAIR''"
  "get (ditems (receipt_fields dg r)) ''contract_version'' = pstr ''repair-contract-r1''"
  "get (ditems (receipt_fields dg r)) ''verifier_version'' = pstr ''oph-fpe-transaction-verifier-v1''"
  "get (ditems (receipt_fields dg r)) ''proposal_ids'' = pstrs (r_proposal_ids r)"
  "get (ditems (receipt_fields dg r)) ''transition_kind'' = pstr (kind_value (r_transition_kind r))"
  "get (ditems (receipt_fields dg r)) ''proposal_classes'' = pstrs (map class_value (r_proposal_classes r))"
  "get (ditems (receipt_fields dg r)) ''checks'' = PList (map check_dict (r_checks r))"
  "get (ditems (receipt_fields dg r)) ''committed'' = pbool (r_committed r)"
  "get (ditems (receipt_fields dg r)) ''verdict'' = pstr (verdict r)"
  "get (ditems (receipt_fields dg r)) ''claim_tier'' = pstr (claim_tier dg r)"
  by (simp_all add: receipt_fields_def claimed_fields_def get_ditems)

lemma receipt_get_data [simp]:
  "get (ditems (receipt_fields dg r)) ''pre_state_hash'' = pstr (r_pre_state_hash r)"
  "get (ditems (receipt_fields dg r)) ''post_state_hash'' = pstr (r_post_state_hash r)"
  "get (ditems (receipt_fields dg r)) ''mismatch_before'' = ledger_value (r_mismatch_before r)"
  "get (ditems (receipt_fields dg r)) ''mismatch_after'' = ledger_value (r_mismatch_after r)"
  "get (ditems (receipt_fields dg r)) ''snapshot_hashes'' = pstrs (r_snapshot_hashes r)"
  "get (ditems (receipt_fields dg r)) ''proposal_footprints'' = PList (map footprint_dict (r_proposal_footprints r))"
  "get (ditems (receipt_fields dg r)) ''score_observed_reads'' = pstrs (r_score_observed_reads r)"
  "get (ditems (receipt_fields dg r)) ''score_snapshot_reads'' = pstrs (r_score_snapshot_reads r)"
  "get (ditems (receipt_fields dg r)) ''conflict_edges'' = PList (map (\<lambda>e. pstrs [fst e, snd e]) (r_conflict_edges r))"
  "get (ditems (receipt_fields dg r)) ''conflict_support_hash'' = pstr (r_conflict_support_hash r)"
  by (simp_all add: receipt_fields_def claimed_fields_def get_ditems)

lemma receipt_get_hashes [simp]:
  "get (ditems (receipt_fields dg r)) ''read_set_hash'' = pstr (r_read_set_hash r)"
  "get (ditems (receipt_fields dg r)) ''write_set_hash'' = pstr (r_write_set_hash r)"
  "get (ditems (receipt_fields dg r)) ''protected_boundary_hash'' = pstr (r_protected_boundary_hash r)"
  "get (ditems (receipt_fields dg r)) ''versions_before_hash'' = pstr (r_versions_before_hash r)"
  "get (ditems (receipt_fields dg r)) ''versions_after_hash'' = pstr (r_versions_after_hash r)"
  "get (ditems (receipt_fields dg r)) ''rollback_root'' = pstr (r_rollback_root r)"
  "get (ditems (receipt_fields dg r)) ''parent_event_ids'' = pstrs (r_parent_event_ids r)"
  "get (ditems (receipt_fields dg r)) ''transition_event_id'' = text_value (r_transition_event_id r)"
  "get (ditems (receipt_fields dg r)) ''semantic_record_event_id'' = text_value (r_semantic_record_event_id r)"
  "get (ditems (receipt_fields dg r)) ''commit_id'' = pstr (r_commit_id r)"
  "get (ditems (receipt_fields dg r)) ''scope'' = pstr receipt_scope"
  "get (ditems (receipt_fields dg r)) ''nonclaims'' = pstrs receipt_nonclaims"
  by (simp_all add: receipt_fields_def claimed_fields_def get_ditems)

lemma receipt_get_flags:
  "get (ditems (receipt_fields dg r)) ''COMPLETE_READ_SET_RECEIPT'' = pbool (complete_read_set_receipt r)"
  "get (ditems (receipt_fields dg r)) ''CONFLICT_COMPONENT_SUPPORT_RECEIPT'' =
     pbool (conflict_component_support_receipt dg r)"
  "get (ditems (receipt_fields dg r)) ''ATOMIC_UNION_REVALIDATION_RECEIPT'' =
     pbool (atomic_union_revalidation_receipt dg r)"
  "get (ditems (receipt_fields dg r)) ''TRANSACTIONAL_REPAIR_RECEIPT'' = pbool (physical_repair_receipt dg r)"
  "get (ditems (receipt_fields dg r)) ''physical_repair_receipt'' = pbool (physical_repair_receipt dg r)"
  "get (ditems (receipt_fields dg r)) ''semantic_record_written'' = pbool (semantic_record_written r)"
  "get (ditems (receipt_fields dg r)) ''transition_event_emitted'' = pbool (transition_event_emitted r)"
  "get (ditems (receipt_fields dg r)) ''diagnostic_only'' = pbool (diagnostic_only r)"
  by (simp_all add: receipt_fields_def claimed_fields_def get_ditems)

lemma receipt_get_claims:
  "list_all (\<lambda>(k, b). get (ditems (receipt_fields dg r)) k = pbool b) (claimed_fields dg r)"
  unfolding claimed_fields_def by (simp add: receipt_get_flags)

lemma kind_of_value [simp]: "kind_of (pstr (kind_value k)) = Inr k"
  by (cases k) (simp_all add: kind_of_def all_kinds_def)

lemma class_of_value [simp]: "class_of (pstr (class_value c)) = Inr c"
  by (cases c) (simp_all add: class_of_def all_classes_def)

text \<open>What a parsed receipt satisfies, and what a receipt needs so that its text parses.\<close>

definition ref_list :: "string list \<Rightarrow> bool" where
  "ref_list xs \<longleftrightarrow> [] \<notin> set xs \<and> sorted_list_of_set (set xs) = xs"

definition wf_footprint :: "proposal_footprint \<Rightarrow> bool" where
  "wf_footprint f \<longleftrightarrow> fp_proposal_id f \<noteq> [] \<and> ref_list (declared_reads f) \<and> ref_list (observed_reads f) \<and>
     ref_list (required_reads f) \<and> ref_list (snapshot_reads f) \<and> ref_list (writes f)"

definition wf_receipt :: "repair_receipt \<Rightarrow> bool" where
  "wf_receipt r \<longleftrightarrow> ref_list (r_proposal_ids r) \<and>
     sort_key class_value (uniq (r_proposal_classes r)) = r_proposal_classes r \<and>
     r_checks r \<noteq> [] \<and> [] \<notin> set (map name (r_checks r)) \<and>
     check_schema_complete (r_checks r) (r_transition_kind r) \<and>
     list_all wf_footprint (r_proposal_footprints r) \<and>
     map fp_proposal_id (r_proposal_footprints r) = r_proposal_ids r \<and>
     ref_list (r_score_observed_reads r) \<and> ref_list (r_score_snapshot_reads r) \<and>
     list_all (\<lambda>e. fst e \<noteq> [] \<and> snd e \<noteq> []) (r_conflict_edges r) \<and>
     pred_option wf_ledger (r_mismatch_before r) \<and> pred_option wf_ledger (r_mismatch_after r) \<and>
     [] \<notin> set (r_snapshot_hashes r) \<and>
     (r_transition_kind r \<noteq> ROLLBACK \<longrightarrow> length (r_snapshot_hashes r) = length (r_proposal_footprints r)) \<and>
     ref_list (r_parent_event_ids r) \<and>
     list_all hex_text ([r_pre_state_hash r, r_post_state_hash r, r_conflict_support_hash r, r_read_set_hash r,
       r_write_set_hash r, r_protected_boundary_hash r, r_versions_before_hash r, r_versions_after_hash r,
       r_rollback_root r, r_commit_id r]) \<and>
     pred_option hex_text (r_transition_event_id r) \<and> pred_option hex_text (r_semantic_record_event_id r)"

lemma canonical_ref_pstrs [simp]: "ref_list xs \<Longrightarrow> canonical_ref_tuple (pstrs xs) = Inr xs"
  by (simp add: ref_list_def canonical_ref_tuple_Inr)

lemma rmap_inv: "(\<And>x. x \<in> set xs \<Longrightarrow> f (g x) = Inr x) \<Longrightarrow> rmap f (map g xs) = Inr xs"
  by (induction xs) auto

lemma exact_row_pdict [simp]: "exact_row (pdict kvs) names =
    (if fst ` set kvs = set names then Inr (ditems kvs) else Inl ValueError)"
  by (simp add: exact_row_def pdict_def fields_ditems)

lemma parse_check_dict: "name c \<noteq> [] \<Longrightarrow> parse_check (check_dict c) = Inr c"
  by (simp add: parse_check_def check_dict_def get_ditems as_detail_def)

lemma parse_footprint_dict: "wf_footprint f \<Longrightarrow> parse_footprint (footprint_dict f) = Inr f"
  by (simp add: parse_footprint_def footprint_dict_def footprint_fields_def get_ditems wf_footprint_def)

lemma parse_classes_values: "sort_key class_value (uniq cs) = cs \<Longrightarrow>
    parse_classes (pstrs (map class_value cs)) = Inr cs"
  using rmap_inv [of cs class_of "\<lambda>c. pstr (class_value c)"]
  by (simp add: parse_classes_def pstrs_def as_list_def comp_def)

lemma schema_distinct: "check_schema_complete cs k \<Longrightarrow> distinct (map name cs)"
  by (simp add: check_schema_complete_def Let_def)

lemma parse_checks_dict:
  "cs \<noteq> [] \<Longrightarrow> [] \<notin> set (map name cs) \<Longrightarrow> check_schema_complete cs k \<Longrightarrow>
   parse_checks (PList (map check_dict cs)) k = Inr cs"
proof -
  assume a: "cs \<noteq> []" "[] \<notin> set (map name cs)" "check_schema_complete cs k"
  have "rmap parse_check (map check_dict cs) = Inr cs"
    by (rule rmap_inv, rule parse_check_dict) (use a(2) in \<open>auto simp: image_iff\<close>)
  then show ?thesis using a schema_distinct [OF a(3)] by (simp add: parse_checks_def as_list_def)
qed

lemma parse_footprints_dict:
  "list_all wf_footprint fps \<Longrightarrow> map fp_proposal_id fps = ids \<Longrightarrow>
   parse_footprints (PList (map footprint_dict fps)) ids = Inr fps"
  using rmap_inv [of fps parse_footprint footprint_dict]
  by (simp add: parse_footprints_def as_list_def parse_footprint_dict list_all_iff)

lemma parse_edges_dict:
  assumes "list_all (\<lambda>e. fst e \<noteq> [] \<and> snd e \<noteq> []) es"
  shows "parse_edges (PList (map (\<lambda>e. pstrs [fst e, snd e]) es)) = Inr es"
proof -
  have "rmap string_tuple (map (\<lambda>e. pstrs [fst e, snd e]) es) = Inr (map (\<lambda>e. [fst e, snd e]) es)"
    using assms by (induction es) (auto simp: string_tuple_pstrs)
  then show ?thesis by (simp add: parse_edges_def as_list_def comp_def list_all_iff)
qed

lemma ledger_value_parse: "pred_option wf_ledger v \<Longrightarrow> ledger_from_artifact (ledger_value v) = Inr v"
  by (cases v) (simp_all add: ledger_value_def ledger_round_trip, simp add: ledger_from_artifact_def)

lemma optional_sha_parse: "pred_option hex_text v \<Longrightarrow> optional_sha (text_value v) = Inr v"
  by (cases v) (simp_all add: optional_sha_def text_value_def hex_text_sha)

lemma parse_header_dict: "parse_header (receipt_dict dg r) = Inr (ditems (receipt_fields dg r))"
  by (simp add: parse_header_def receipt_dict_def fields_ditems receipt_field_names)

lemma parse_snapshots_dict: "[] \<notin> set hs \<Longrightarrow> k \<noteq> ROLLBACK \<longrightarrow> length hs = n \<Longrightarrow>
    parse_snapshots (pstrs hs) k n = Inr hs"
  by (auto simp: parse_snapshots_def string_tuple_pstrs)

lemma parse_receipt_dict: "wf_receipt r \<Longrightarrow> parse_receipt (receipt_dict dg r) = Inr r"
  unfolding wf_receipt_def
  by (elim conjE) (simp add: parse_receipt_def parse_header_dict parse_ids_def parse_classes_values
    parse_checks_dict parse_footprints_dict parse_edges_dict ledger_value_parse optional_sha_parse
    parse_snapshots_dict hex_text_sha)

section \<open>Sealed receipts pass\<close>

definition sealed_receipt :: "(json \<Rightarrow> string) \<Rightarrow> repair_receipt \<Rightarrow> bool" where
  "sealed_receipt dg r \<longleftrightarrow>
     (r_proposal_footprints r \<noteq> [] \<longrightarrow> r_read_set_hash r = dg (jstrs (sorted_list_of_set (read_union r))) \<and>
        r_write_set_hash r = dg (jstrs (sorted_list_of_set (write_union r)))) \<and>
     r_rollback_root r = r_pre_state_hash r \<and>
     r_transition_event_id r = expected_transition_event dg r \<and>
     r_semantic_record_event_id r = expected_record_event dg r \<and>
     r_commit_id r = dg (commit_seed r)"

lemma failed_Nil [simp]: "failed bad t = [] \<longleftrightarrow> \<not> bad"
  by (simp add: failed_def)

lemma receipt_reasons_Nil: "receipt_reasons dg kvs r = [] \<longleftrightarrow> sealed_receipt dg r \<and>
    list_all (\<lambda>(k, b). get kvs k = pbool b) (claimed_fields dg r) \<and>
    get kvs ''verdict'' = pstr (verdict r) \<and> get kvs ''claim_tier'' = pstr (claim_tier dg r) \<and>
    get kvs ''scope'' = pstr receipt_scope \<and> get kvs ''nonclaims'' = pstrs receipt_nonclaims"
proof -
  have claims: "concat (map (\<lambda>(k, b). failed (get kvs k \<noteq> pbool b)
       (''caller-authored '' @ k @ '' disagrees with recomputed value'')) xs) = [] \<longleftrightarrow>
     list_all (\<lambda>(k, b). get kvs k = pbool b) xs" for xs
    by (induction xs) auto
  then show ?thesis unfolding receipt_reasons_def sealed_receipt_def append_is_Nil_conv failed_Nil claims
    by auto
qed

lemma canonical_plain: "plain_json v = Inr () \<Longrightarrow> \<exists>j. canonical_raw rp v = Inr j"
proof (induction v rule: plain_json.induct)
  case (2 xs)
  then have "\<exists>ys. rmap (canonical_raw rp) xs = Inr ys" by (auto simp: rmap_Inr_iff check_all_ok)
  then show ?case by auto
next
  case (3 kvs)
  then have v: "valid_keys kvs" and p: "\<forall>kv \<in> set kvs. \<exists>j. canonical_raw rp (snd kv) = Inr j"
    by (auto simp: check_all_ok split: if_splits)
  have "\<forall>kv \<in> set kvs. \<exists>s. str_key (fst kv) = Inr s" using v by (auto simp: valid_keys_iff str_key_eq)
  then obtain ks where "rmap (\<lambda>kv. str_key (fst kv)) kvs = Inr ks" using rmap_Inr_iff by metis
  moreover obtain vs where "rmap (\<lambda>kv. canonical_raw rp (snd kv)) kvs = Inr vs" using p rmap_Inr_iff by metis
  ultimately show ?case by simp
qed auto

lemma PList_plain: "plain_json (PList xs) = Inr () \<longleftrightarrow> (\<forall>x \<in> set xs. plain_json x = Inr ())"
  by (simp add: check_all_ok)

lemma leaf_plain [simp]: "plain_leaf (LStr s) = Inr ()" "plain_leaf (LBool b) = Inr ()"
  "plain_leaf LNone = Inr ()" "plain_leaf (LInt i) = Inr ()"
  by (simp_all add: plain_leaf_def)

lemma check_dict_plain: "plain_json (check_dict c) = Inr ()"
  unfolding check_dict_def by (rule pdict_plain) auto

lemma footprint_dict_plain: "plain_json (footprint_dict f) = Inr ()"
  unfolding footprint_dict_def by (rule pdict_plain) (auto simp: pstrs_plain)

lemma receipt_plain:
  assumes "pred_option wf_ledger (r_mismatch_before r)" "pred_option wf_ledger (r_mismatch_after r)"
  shows "plain_json (receipt_dict dg r) = Inr ()"
proof -
  have l: "plain_json (ledger_value v) = Inr ()" if "pred_option wf_ledger v" for v
    using that by (cases v) (simp_all add: ledger_value_def ledger_plain)
  have t: "plain_json (text_value v) = Inr ()" for v by (cases v) (simp_all add: text_value_def)
  have "list_all (\<lambda>(k, v). k \<noteq> [] \<and> plain_json v = Inr ()) (receipt_fields dg r)"
    unfolding receipt_fields_def claimed_fields_def
    by (simp add: l [OF assms(1)] l [OF assms(2)] t pstrs_plain PList_plain check_dict_plain
        footprint_dict_plain del: plain_json.simps(2,3))
  then show ?thesis unfolding receipt_dict_def by (intro pdict_plain) (auto simp: list_all_iff)
qed

lemma self_consistency_sealed:
  assumes wf: "wf_receipt r" and "sealed_receipt dg r"
  shows "integrity (self_consistency dg rp (receipt_dict dg r))"
    "transactional_receipt (self_consistency dg rp (receipt_dict dg r)) = physical_repair_receipt dg r"
    "report_commit_id (self_consistency dg rp (receipt_dict dg r)) = Some (r_commit_id r)"
proof -
  have "plain_json (receipt_dict dg r) = Inr ()"
    using wf by (intro receipt_plain) (auto simp: wf_receipt_def)
  then obtain j where "canonical_raw rp (receipt_dict dg r) = Inr j" using canonical_plain by blast
  then have h: "hash_artifact dg rp (receipt_dict dg r) = (Some (dg j), [])"
    by (simp add: hash_artifact_def receipt_dict_def pdict_def)
  have i: "raw_items (receipt_dict dg r) = ditems (receipt_fields dg r)"
    by (simp add: raw_items_def receipt_dict_def pdict_def)
  have "receipt_reasons dg (ditems (receipt_fields dg r)) r = []"
    using assms(2) receipt_get_claims by (simp add: receipt_reasons_Nil)
  then show "integrity (self_consistency dg rp (receipt_dict dg r))"
    "transactional_receipt (self_consistency dg rp (receipt_dict dg r)) = physical_repair_receipt dg r"
    "report_commit_id (self_consistency dg rp (receipt_dict dg r)) = Some (r_commit_id r)"
    by (simp_all add: self_consistency_def parse_receipt_dict [OF wf] h i)
qed

lemma integrityD:
  assumes "integrity (self_consistency dg rp raw)"
  obtains r where "parse_receipt raw = Inr r" "sealed_receipt dg r"
    "report_commit_id (self_consistency dg rp raw) = Some (r_commit_id r)"
    "transactional_receipt (self_consistency dg rp raw) = physical_repair_receipt dg r"
    "support_receipt (self_consistency dg rp raw) = conflict_component_support_receipt dg r"
    "list_all (\<lambda>(k, b). get (raw_items raw) k = pbool b) (claimed_fields dg r)"
    "get (raw_items raw) ''verdict'' = pstr (verdict r)"
proof (cases "parse_receipt raw")
  case (Inr r)
  have "receipt_reasons dg (raw_items raw) r = []"
    using assms by (auto simp: self_consistency_def Inr split: prod.splits)
  then show thesis
    using that [OF Inr] assms unfolding receipt_reasons_Nil
    by (auto simp: self_consistency_def Inr Let_def split: prod.splits)
qed (use assms in \<open>auto simp: self_consistency_def Let_def split: prod.splits\<close>)

end
