(* ===== verification/Receipt_Engine.thy ===== *)
theory Receipt_Engine
  imports Receipt_Artifact Repair_Batch
begin

text \<open>
  The receipts the engine writes are read back by the diagnostic: every receipt of a batch of
  well-named proposals parses, and every claim in it is the recomputed one.
\<close>

section \<open>Well-named proposals\<close>

definition clean_proposal :: "repair_proposal \<Rightarrow> bool" where
  "clean_proposal p \<longleftrightarrow> proposal_id p \<noteq> [] \<and> finite (declared_read_set p) \<and>
     [] \<notin> declared_read_set p \<union> observed_read_set p \<union> required_reads_of p \<union> snapshot_read_set (snapshot p) \<and>
     [] \<notin> set (parent_event_ids p)"

definition named_engine :: "engine \<Rightarrow> bool" where
  "named_engine e \<longleftrightarrow> [] \<notin> fmdom' (state e)"

text \<open>The evaluator returns ledgers that the constructor accepted.\<close>

definition lawful_evaluator :: "engine \<Rightarrow> bool" where
  "lawful_evaluator e \<longleftrightarrow>
     (\<forall>c st L. fst (run_tracked st (mismatch_evaluator e c)) = Inr (Some L) \<longrightarrow> wf_ledger L)"

definition hex_digest :: "(json \<Rightarrow> string) \<Rightarrow> bool" where
  "hex_digest dg \<longleftrightarrow> (\<forall>j. hex_text (dg j))"

lemma ref_list_sorted: "[] \<notin> A \<Longrightarrow> ref_list (sorted_list_of_set A)"
  by (cases "finite A") (auto simp: ref_list_def)

lemma run_tracked_named: "[] \<notin> fmdom' st \<Longrightarrow> [] \<notin> snd (run_tracked st m)"
  by (induction m) (auto simp: Let_def)

lemma clean_written: "clean_proposal p \<Longrightarrow> [] \<notin> write_set p"
  by (auto simp: clean_proposal_def required_reads_of_def)

lemma clean_footprint: "clean_proposal p \<Longrightarrow> wf_footprint (footprint_of p)"
  using clean_written [of p] by (simp add: wf_footprint_def footprint_of_def ref_list_sorted clean_proposal_def)

lemma evaluation_ids:
  assumes "evaluate_component dg e c = Inr ev"
  shows "v_proposal_ids (validation ev) = map proposal_id (sort_key proposal_id c)"
    "ev_parent_event_ids ev = sorted_list_of_set (set (concat (map parent_event_ids (sort_key proposal_id c))))"
  using assms by (auto simp: evaluate_component_def Let_def split: if_splits elim!: rbind_eq_InrE)

lemma component_footprint_ids: "map fp_proposal_id (component_footprints ps) = sort (map proposal_id ps)"
proof -
  have sorting: "map fp_proposal_id (sort_key fp_proposal_id fps) = sort (map fp_proposal_id fps)" for fps
    by (metis mset_map mset_sort properties_for_sort sorted_sort_key)
  have "map fp_proposal_id (map footprint_of ps) = map proposal_id ps" by (simp add: footprint_of_def)
  then show ?thesis unfolding component_footprints_def sorting by (simp only:)
qed

lemma set_component_footprints: "set (component_footprints ps) = footprint_of ` set ps"
  by (simp add: component_footprints_def)

lemma conflict_pairs_ids: "(a, b) \<in> set (conflict_pairs fps) \<Longrightarrow> a \<in> fp_proposal_id ` set fps \<and> b \<in> fp_proposal_id ` set fps"
  by (induction fps) auto

lemma edges_ids: "(a, b) \<in> set (expected_conflict_edges fps) \<Longrightarrow> a \<in> fp_proposal_id ` set fps \<and> b \<in> fp_proposal_id ` set fps"
  using conflict_pairs_ids [of a b "sort_key fp_proposal_id fps"] by (simp add: expected_conflict_edges_def)

lemma post_named:
  assumes "named_engine e" "\<forall>p \<in> set ps. clean_proposal p"
  shows "[] \<notin> fmdom' (component_post_state dg (state e) ps)"
proof -
  have "fmdom' (component_post_state dg (state e) ps) \<subseteq> fmdom' (state e) \<union> union_of write_set ps"
    using combine_dom [of dg "concat (map updates ps)"] updates_written [of ps]
    by (auto simp: component_post_state_def split: prod.splits if_splits)
  then show ?thesis using assms clean_written by (auto simp: named_engine_def union_of_def)
qed

lemma measure_named:
  assumes "measure_with_trace e st c = Inr (L, obs)" "[] \<notin> fmdom' st" "lawful_evaluator e"
  shows "wf_ledger L \<and> [] \<notin> obs"
proof -
  let ?r = "run_tracked st (mismatch_evaluator e c)"
  have "fst ?r = Inr (Some L)" "snd ?r = obs"
    using assms(1) by (auto simp: measure_with_trace_def rbind_eq_Inr split: prod.splits option.splits)
  then show ?thesis using assms(2,3) run_tracked_named [OF assms(2)] by (auto simp: lawful_evaluator_def)
qed

lemma contract_named:
  assumes k: "evaluate_contract dg e ps c post = Inr k" and n: "named_engine e" "[] \<notin> fmdom' post"
    and l: "lawful_evaluator e"
  shows "pred_option wf_ledger (before_ledger k) \<and> pred_option wf_ledger (after_ledger k) \<and> [] \<notin> score_reads k"
proof (cases "length (uniq (map transition_kind ps)) = 1 \<and> snd (combine_updates dg (concat (map updates ps))) = []")
  case True
  obtain b rb a ra where "measure_with_trace e (state e) c = Inr (b, rb)" "measure_with_trace e post c = Inr (a, ra)"
    "before_ledger k = Some b" "after_ledger k = Some a" "score_reads k = rb \<union> ra"
    using k True unfolding evaluate_contract_def
    by (auto simp: rbind_eq_Inr split: prod.splits if_splits)
  then show ?thesis using measure_named [OF _ _ l] n by (force simp: named_engine_def)
next
  case False
  then show ?thesis using k unfolding evaluate_contract_def by auto
qed

section \<open>The receipt of a component\<close>

lemma r_commit_receipt_more [simp]:
  "r_snapshot_hashes (commit_receipt dg ev ps b st v1 v2) = map (\<lambda>p. snapshot_hash dg (snapshot p)) ps"
  "r_read_set_hash (commit_receipt dg ev ps b st v1 v2) = dg (jstrs (sorted_list_of_set (read_set ev)))"
  "r_write_set_hash (commit_receipt dg ev ps b st v1 v2) = dg (jstrs (sorted_list_of_set (ev_write_set ev)))"
  "r_protected_boundary_hash (commit_receipt dg ev ps b st v1 v2) = dg (jstrs (sorted_list_of_set (protected_set ev)))"
  "r_versions_before_hash (commit_receipt dg ev ps b st v1 v2) = versions_hash dg v1"
  "r_versions_after_hash (commit_receipt dg ev ps b st v1 v2) = versions_hash dg v2"
  "r_rollback_root (commit_receipt dg ev ps b st v1 v2) = v_pre_state_hash (validation ev)"
  "r_parent_event_ids (commit_receipt dg ev ps b st v1 v2) = ev_parent_event_ids ev"
  by (simp_all add: commit_receipt_def make_receipt_def Let_def)

lemma commit_receipt_seal:
  "r_commit_id (commit_receipt dg ev ps b st v1 v2) = dg (commit_seed (commit_receipt dg ev ps b st v1 v2))"
  by (simp add: commit_receipt_def make_receipt_def Let_def commit_seed_def)

lemma commit_receipt_events:
  "r_transition_event_id (commit_receipt dg ev ps b st v1 v2) =
     (if b \<and> DIAGNOSTIC_HEURISTIC \<notin> set (sorted_classes ps) \<and>
         (transition_kind (hd ps) = STRICT_REPAIR \<or> transition_kind (hd ps) = RECORD_COMMIT)
      then Some (transition_event_id dg ev (transition_kind (hd ps)) (state_hash dg st)) else None)"
  "r_semantic_record_event_id (commit_receipt dg ev ps b st v1 v2) =
     (if transition_kind (hd ps) = RECORD_COMMIT then map_option (semantic_record_event_id dg ev)
        (r_transition_event_id (commit_receipt dg ev ps b st v1 v2)) else None)"
  by (simp_all add: commit_receipt_def make_receipt_def Let_def)

lemma commit_receipt_sealed:
  assumes ev: "evaluate_component dg e c = Inr ev" and ps: "ps = sort_key proposal_id c"
    and clean: "\<forall>p \<in> set c. clean_proposal p"
  shows "sealed_receipt dg (commit_receipt dg ev ps b st v1 v2)"
proof -
  let ?r = "commit_receipt dg ev ps b st v1 v2"
  have f: "ev_proposal_footprints ev = component_footprints ps" "read_set ev = union_of declared_read_set ps"
    "ev_write_set ev = union_of write_set ps"
    using evaluate_componentE [OF ev] ps by metis+
  have fin: "finite (declared_read_set p)" "finite (write_set p)" if "p \<in> set ps" for p
    using clean that ps by (auto simp: clean_proposal_def write_set_def)
  have reads: "read_union ?r = read_set ev"
    unfolding read_union_def f r_commit_receipt set_concat set_map set_component_footprints
    using fin by (auto simp: footprint_of_def union_of_def)
  have written: "write_union ?r = ev_write_set ev"
    unfolding write_union_def f r_commit_receipt set_concat set_map set_component_footprints
    using fin by (auto simp: footprint_of_def union_of_def)
  have tid: "r_transition_event_id ?r = expected_transition_event dg ?r"
    unfolding commit_receipt_events expected_transition_event_def reads written
    by (simp add: diagnostic_only_def transition_event_id_def)
  have "r_semantic_record_event_id ?r = expected_record_event dg ?r"
    unfolding commit_receipt_events(2) expected_record_event_def tid [symmetric]
    by (simp add: semantic_record_event_id_def [abs_def])
  then show ?thesis
    using tid commit_receipt_seal [of dg ev ps b st v1 v2] by (simp add: sealed_receipt_def reads written)
qed

lemma commit_receipt_wf:
  assumes ev: "evaluate_component dg e c = Inr ev" and ps: "ps = sort_key proposal_id c"
    and d: "distinct (map proposal_id c)" and clean: "\<forall>p \<in> set c. clean_proposal p"
    and e: "named_engine e" "lawful_evaluator e" and hex: "hex_digest dg"
    and kind: "transition_kind (hd ps) \<noteq> ROLLBACK"
  shows "wf_receipt (commit_receipt dg ev ps b st v1 v2)"
proof -
  let ?r = "commit_receipt dg ev ps b st v1 v2"
  obtain k where k: "evaluate_contract dg e ps (joint_collar dg ps) (component_post_state dg (state e) ps) = Inr k"
      "ps \<noteq> []"
      "v_checks (validation ev) = with_atomic_check (proposal_checks dg e ps @ graph_checks ps
       @ state_checks dg (state e) (component_post_state dg (state e) ps) ps (joint_collar dg ps)
           (transition_kind (hd ps)) @ contract_checks dg ps k)"
    and l: "v_mismatch_before (validation ev) = before_ledger k" "v_mismatch_after (validation ev) = after_ledger k"
    and v: "v_pre_state_hash (validation ev) = state_hash dg (state e)"
      "ev_proposal_footprints ev = component_footprints ps"
      "ev_conflict_edges ev = expected_conflict_edges (component_footprints ps)"
      "ev_score_observed_reads ev = sorted_list_of_set (score_reads k)"
      "ev_score_snapshot_reads ev = sorted_list_of_set (union_of (\<lambda>p. snapshot_read_set (snapshot p)) ps)"
    by (rule evaluate_componentE [OF ev]) (use ps in simp)
  have cp: "clean_proposal p" if "p \<in> set ps" for p using clean that ps by simp
  have srt: "sort (map proposal_id ps) = map proposal_id ps" by (rule sort_key_id_if_sorted) (simp add: ps)
  have dps: "distinct (map proposal_id ps)" using d ps by (simp add: distinct_map)
  have ids: "v_proposal_ids (validation ev) = map proposal_id ps" using evaluation_ids [OF ev] ps by simp
  have par: "ref_list (ev_parent_event_ids ev)"
    unfolding evaluation_ids [OF ev] ps [symmetric]
    by (rule ref_list_sorted) (use cp in \<open>auto simp: clean_proposal_def\<close>)
  have "sorted (map proposal_id ps)" by (simp add: ps)
  then have "sorted_list_of_set (set (map proposal_id ps)) = map proposal_id ps"
    using dps by (rule sorted_list_of_set.idem_if_sorted_distinct)
  moreover have "[] \<notin> set (map proposal_id ps)"
    unfolding set_map image_iff using cp clean_proposal_def by metis
  ultimately have rid: "ref_list (map proposal_id ps)" unfolding ref_list_def by blast
  note named = contract_named [OF k(1) e(1) post_named [OF e(1)] e(2)]
  have led: "pred_option wf_ledger (before_ledger k) \<and> pred_option wf_ledger (after_ledger k) \<and> [] \<notin> score_reads k"
    by (rule named) (use cp in blast)
  have names: "map name (v_checks (validation ev)) = transaction_check_names"
    unfolding k(3) by (rule transaction_names)
  from kind have schema: "check_schema_complete (v_checks (validation ev)) (transition_kind (hd ps))"
    unfolding check_schema_complete_def names using transaction_names_distinct by simp
  have edges: "list_all (\<lambda>x. fst x \<noteq> [] \<and> snd x \<noteq> []) (expected_conflict_edges (component_footprints ps))"
    unfolding list_all_iff
  proof clarify
    fix a b assume "(a, b) \<in> set (expected_conflict_edges (component_footprints ps))"
    then have "a \<in> set (map proposal_id ps)" "b \<in> set (map proposal_id ps)"
      using edges_ids [of a b "component_footprints ps"] component_footprint_ids [of ps]
      by (metis image_set set_sort)+
    then show "fst (a, b) \<noteq> [] \<and> snd (a, b) \<noteq> []" using cp by (auto simp: clean_proposal_def)
  qed
  have fps: "list_all wf_footprint (component_footprints ps)"
    using cp clean_footprint by (auto simp: list_all_iff set_component_footprints)
  have classes: "sort_key class_value (uniq (sorted_classes ps)) = sorted_classes ps"
    by (simp add: sorted_classes_def uniq_distinct sort_key_idem)
  have h: "hex_text (dg j)" for j using hex by (simp add: hex_digest_def)
  have hashes: "hex_text (state_hash dg s)" "hex_text (versions_hash dg w)" "hex_text (snapshot_hash dg sn)" for s w sn
    by (simp_all add: state_hash_def stable_hash_def versions_hash_def snapshot_hash_def h)
  have snaps: "[] \<notin> set (map (\<lambda>p. snapshot_hash dg (snapshot p)) ps)" unfolding set_map image_iff using hashes(3) hex_text_nonempty by metis
  have tid: "pred_option hex_text (r_transition_event_id ?r)"
    unfolding commit_receipt_events by (simp add: transition_event_id_def h)
  then have sid: "pred_option hex_text (r_semantic_record_event_id ?r)"
    unfolding commit_receipt_events(2)
    by (cases "r_transition_event_id ?r") (simp_all add: semantic_record_event_id_def h)
  have cid: "hex_text (r_commit_id ?r)" unfolding commit_receipt_seal by (rule h)
  have snap_named: "ref_list (sorted_list_of_set (union_of (\<lambda>p. snapshot_read_set (snapshot p)) ps))"
    by (rule ref_list_sorted) (use cp in \<open>auto simp: clean_proposal_def union_of_def\<close>)
  have cn: "v_checks (validation ev) \<noteq> [] \<and> [] \<notin> set (map name (v_checks (validation ev)))"
  proof -
    have "transaction_check_names \<noteq> [] \<and> [] \<notin> set transaction_check_names" by code_simp
    then show ?thesis using names by (metis list.simps(8))
  qed
  have n: "length (map (\<lambda>p. snapshot_hash dg (snapshot p)) ps) = length (component_footprints ps)"
    by (simp add: component_footprints_def)
  show ?thesis
    unfolding wf_receipt_def r_commit_receipt r_commit_receipt_more ids v l
    using rid classes cn schema fps component_footprint_ids [of ps] srt led ref_list_sorted snap_named edges snaps
      n par tid sid cid h hashes by (intro conjI) (simp_all add: list_all_iff)
qed

section \<open>Receipts of a batch\<close>

definition receipt_ready :: "repair_proposal list \<Rightarrow> bool" where
  "receipt_ready c \<longleftrightarrow> distinct (map proposal_id c) \<and> list_all clean_proposal c"

text \<open>
  The verifier knows only the checks of \<open>rollback\<close> for the kind \<open>ROLLBACK\<close>, so the receipt of a
  proposal of that kind (it is always rejected) carries checks that it does not accept.
\<close>

definition readable_receipt :: "(json \<Rightarrow> string) \<Rightarrow> repair_receipt \<Rightarrow> bool" where
  "readable_receipt dg r \<longleftrightarrow> sealed_receipt dg r \<and> map name (r_checks r) = transaction_check_names \<and>
     (r_transition_kind r \<noteq> ROLLBACK \<longrightarrow> wf_receipt r)"

lemma commit_receipt_readable:
  assumes ev: "evaluate_component dg e c = Inr ev" and ps: "ps = sort_key proposal_id c"
    and ready: "receipt_ready c" and e: "named_engine e" "lawful_evaluator e" and hex: "hex_digest dg"
  shows "readable_receipt dg (commit_receipt dg ev ps b st v1 v2)"
proof -
  have d: "distinct (map proposal_id c)" and cl: "\<forall>p \<in> set c. clean_proposal p"
    using ready by (auto simp: receipt_ready_def list_all_iff)
  obtain k where "v_checks (validation ev) = with_atomic_check (proposal_checks dg e ps @ graph_checks ps
       @ state_checks dg (state e) (component_post_state dg (state e) ps) ps (joint_collar dg ps)
           (transition_kind (hd ps)) @ contract_checks dg ps k)"
    by (rule evaluate_componentE [OF ev]) (use ps in simp)
  then show ?thesis
    using commit_receipt_wf [OF ev ps d cl e hex] commit_receipt_sealed [OF ev ps cl] transaction_names
    by (simp add: readable_receipt_def)
qed

lemma commit_component_receipt:
  assumes wf: "wf_engine e" and c: "commit_component dg e c = (Inr r, e')" and ready: "receipt_ready c"
    and e: "named_engine e" "lawful_evaluator e" and hex: "hex_digest dg"
  shows "readable_receipt dg r \<and> named_engine e' \<and> lawful_evaluator e'"
proof -
  let ?ps = "sort_key proposal_id c"
  have rd: "receipt_ready ?ps" using ready by (auto simp: receipt_ready_def list_all_iff distinct_map)
  have s: "?ps = sort_key proposal_id ?ps" by (simp add: sort_key_idem)
  show ?thesis using wf c
  proof (cases rule: commit_component_cases)
    case (rejected ev)
    then show ?thesis using commit_receipt_readable [OF rejected(1) s rd e hex] e by auto
  next
    case (committed ev ps k C r')
    have "\<forall>p \<in> set ps. clean_proposal p" using rd committed(1) by (auto simp: receipt_ready_def list_all_iff)
    then have post: "[] \<notin> fmdom' (component_post_state dg (state e) ps)" using post_named e(1) by blast
    have ev: "evaluate_component dg e ?ps = Inr ev" using committed(1,2) by simp
    have "r = commit_receipt dg ev ?ps True (component_post_state dg (state e) ps) (versions e) (bump C (versions e))"
      using committed(1,8,9) by simp
    then have "readable_receipt dg r" using commit_receipt_readable [OF ev s rd e hex] by simp
    moreover have "named_engine e' \<and> lawful_evaluator e'"
      using post e(2) by (simp add: committed(10) named_engine_def lawful_evaluator_def)
    ultimately show ?thesis by blast
  qed simp
qed

lemma commit_components_receipts:
  assumes "wf_engine e" "commit_components dg e cs = (Inr rs, e')" "\<forall>c \<in> set cs. receipt_ready c"
    "named_engine e" "lawful_evaluator e" "hex_digest dg"
  shows "\<forall>r \<in> set rs. readable_receipt dg r"
  using assms
proof (induction cs arbitrary: e rs)
  case (Cons c cs)
  obtain r e1 where c: "commit_component dg e c = (Inr r, e1)"
    using Cons.prems(2) by (auto split: prod.splits sum.splits)
  obtain rs' where rs: "commit_components dg e1 cs = (Inr rs', e')" "rs = r # rs'"
    using Cons.prems(2) c by (auto split: prod.splits sum.splits)
  have one: "readable_receipt dg r \<and> named_engine e1 \<and> lawful_evaluator e1"
    by (rule commit_component_receipt [OF Cons.prems(1) c]) (use Cons.prems in auto)
  have "wf_engine e1" using commit_component_advances [OF Cons.prems(1) c] by blast
  then show ?case using Cons.IH [OF _ rs(1)] one Cons.prems(3,6) rs(2) by simp
qed simp

lemma commit_batch_receipts:
  assumes wf: "wf_engine e" and b: "commit_batch dg e ps = (Inr rs, e')" and clean: "list_all clean_proposal ps"
    and e: "named_engine e" "lawful_evaluator e" "hex_digest dg"
  shows "\<forall>r \<in> set rs. readable_receipt dg r"
proof -
  obtain cs where cs: "conflict_components ps = Inr cs" "commit_components dg e cs = (Inr rs, e')"
    using b by (auto simp: commit_batch_def split: sum.splits)
  have d: "distinct (map proposal_id ps)"
    using cs(1) by (auto simp: conflict_components_def Let_def distinct_map split: if_splits)
  have m: "mset (concat cs) = mset ps" by (rule conflict_components_mset [OF cs(1)])
  then have "distinct (map proposal_id (concat cs))" using d by (metis mset_map mset_eq_imp_distinct_iff)
  then have "distinct (map proposal_id c)" if "c \<in> set cs" for c
    using that by (auto simp: map_concat distinct_concat_iff)
  moreover have "set (concat cs) = set ps" using m by (metis set_mset_mset)
  then have "list_all clean_proposal c" if "c \<in> set cs" for c
    using clean that by (auto simp: list_all_iff)
  ultimately show ?thesis by (intro commit_components_receipts [OF wf cs(2) _ e]) (simp add: receipt_ready_def)
qed

end
