(* ===== verification/Repair_Replay.thy ===== *)
theory Repair_Replay
  imports Receipt_Engine
begin

text \<open>
  Primitive replay (\<open>_instantiate_repair_replay\<close>, \<open>build_repair_replay_envelope\<close>,
  \<open>verify_repair_replay_envelope\<close> of \<open>oph_fpe/repair/transaction.py\<close>): an envelope holds the
  initial state and versions, an affine mismatch evaluator, and the proposals as data.  The
  verifier builds the engine and the proposals anew, commits them, and compares every output of
  the envelope with its own.
\<close>

section \<open>Programs on the tracked view\<close>

primrec tbind :: "'a tracked \<Rightarrow> ('a \<Rightarrow> 'b tracked) \<Rightarrow> 'b tracked" where
  "tbind (Done a) f = f a"
| "tbind (Fail e) f = Fail e"
| "tbind (Get r k) f = Get r (\<lambda>v. tbind (k v) f)"
| "tbind (Names k) f = Names (\<lambda>ns. tbind (k ns) f)"
| "tbind (Count k) f = Count (\<lambda>n. tbind (k n) f)"

definition lift_res :: "'a res \<Rightarrow> 'a tracked" where
  "lift_res r = (case r of Inl e \<Rightarrow> Fail e | Inr a \<Rightarrow> Done a)"

section \<open>Affine mismatch expressions\<close>

definition signed_fraction :: "pyval \<Rightarrow> rat res" where
  "signed_fraction v = (case v of
     PLeaf l \<Rightarrow> (case l of LInt i \<Rightarrow> Inr (of_int i) | _ \<Rightarrow> Inl TypeError)
   | PDict kvs \<Rightarrow>
       if \<not> fields_are kvs [''numerator'', ''denominator''] then Inl TypeError
       else rbind (as_int (get kvs ''numerator'')) (\<lambda>n. rbind (as_int (get kvs ''denominator'')) (\<lambda>d.
         if d \<le> 0 then Inl TypeError
         else if \<not> py_eq v (fraction_dict (Fract n d)) then Inl ValueError else Inr (Fract n d)))
   | _ \<Rightarrow> Inl TypeError)"

record expression =
  e_terms :: "(string \<times> rat) list"
  e_constant :: rat
  e_absolute :: bool

definition parse_term :: "pyval \<Rightarrow> (string \<times> rat) res" where
  "parse_term v = rbind (require_fields v [''register'', ''coefficient'']) (\<lambda>kvs.
     rbind (as_text (get kvs ''register'')) (\<lambda>r.
     rbind (signed_fraction (get kvs ''coefficient'')) (\<lambda>q. Inr (r, q))))"

definition parse_expression :: "pyval \<Rightarrow> expression res" where
  "parse_expression v = rbind (require_fields v [''terms'', ''constant'', ''transform'']) (\<lambda>kvs.
     rbind (as_list (get kvs ''terms'')) (\<lambda>raw. rbind (rmap parse_term raw) (\<lambda>ts.
     if sort_key fst ts \<noteq> ts then Inl ValueError
     else if \<not> distinct (map fst ts) then Inl ValueError
     else let tr = get kvs ''transform'' in
       if \<not> hashable tr then Inl TypeError
       else if tr \<noteq> pstr ''identity'' \<and> tr \<noteq> pstr ''absolute'' then Inl ValueError
       else rbind (signed_fraction (get kvs ''constant'')) (\<lambda>c.
         Inr \<lparr>e_terms = ts, e_constant = c, e_absolute = (tr = pstr ''absolute'')\<rparr>))))"

definition read_fraction :: "string \<Rightarrow> rat tracked" where
  "read_fraction r = Get r (\<lambda>v. lift_res (rbind v (\<lambda>z. rbind (thaw z) signed_fraction)))"

fun eval_terms :: "rat \<Rightarrow> (string \<times> rat) list \<Rightarrow> rat tracked" where
  "eval_terms acc [] = Done acc"
| "eval_terms acc ((r, c) # ts) = tbind (read_fraction r) (\<lambda>q. eval_terms (acc + c * q) ts)"

definition eval_expression :: "expression \<Rightarrow> rat tracked" where
  "eval_expression x = tbind (eval_terms (e_constant x) (e_terms x))
     (\<lambda>q. Done (if e_absolute x then \<bar>q\<bar> else q))"

fun eval_auxiliaries :: "(string \<times> expression) list \<Rightarrow> (string \<times> pyval) list tracked" where
  "eval_auxiliaries [] = Done []"
| "eval_auxiliaries ((n, x) # rest) = tbind (eval_expression x) (\<lambda>q.
     tbind (eval_auxiliaries rest) (\<lambda>out. Done ((n, PLeaf (LFrac q)) # out)))"

record replay_spec =
  s_holonomy :: expression
  s_local_constraint :: expression
  s_overlap :: expression
  s_record :: expression
  s_sector :: expression
  s_auxiliary :: "(string \<times> expression) list"

text \<open>The components are parsed and evaluated in the order of their names.\<close>

definition parse_evaluator :: "pyval \<Rightarrow> replay_spec res" where
  "parse_evaluator spec =
     rbind (require_fields spec [''kind'', ''components'', ''physical_auxiliary'']) (\<lambda>raw.
     if get raw ''kind'' \<noteq> pstr ''exact_affine_ledger_v1'' then Inl ValueError
     else rbind (require_fields (get raw ''components'')
            [''record'', ''sector'', ''holonomy'', ''overlap'', ''local_constraint'']) (\<lambda>cs.
     rbind (parse_expression (get cs ''holonomy'')) (\<lambda>h.
     rbind (parse_expression (get cs ''local_constraint'')) (\<lambda>l.
     rbind (parse_expression (get cs ''overlap'')) (\<lambda>ov.
     rbind (parse_expression (get cs ''record'')) (\<lambda>r.
     rbind (parse_expression (get cs ''sector'')) (\<lambda>s.
     rbind (as_items (get raw ''physical_auxiliary'')) (\<lambda>aux.
     if \<not> valid_keys aux then Inl TypeError
     else rbind (rmap (\<lambda>kv. as_text (fst kv)) aux) (\<lambda>names.
     rbind (rmap (\<lambda>(n, x). rbind (parse_expression x) (\<lambda>y. Inr (n, y)))
              (sort_key fst (zip names (map snd aux)))) (\<lambda>parsed.
     Inr \<lparr>s_holonomy = h, s_local_constraint = l, s_overlap = ov, s_record = r, s_sector = s,
          s_auxiliary = parsed\<rparr>))))))))))"

definition replay_evaluator :: "replay_spec \<Rightarrow> evaluator_t" where
  "replay_evaluator s c = tbind (eval_expression (s_holonomy s)) (\<lambda>h.
     tbind (eval_expression (s_local_constraint s)) (\<lambda>l. tbind (eval_expression (s_overlap s)) (\<lambda>ov.
     tbind (eval_expression (s_record s)) (\<lambda>r. tbind (eval_expression (s_sector s)) (\<lambda>sec.
     tbind (eval_auxiliaries (s_auxiliary s)) (\<lambda>aux.
     lift_res (rbind (mk_ledger (PLeaf (LFrac ov)) (PLeaf (LFrac l)) (PLeaf (LFrac sec)) (PLeaf (LFrac r))
       (PLeaf (LFrac h)) aux) (\<lambda>L. Inr (Some L)))))))))"

section \<open>Collars and recovery programs\<close>

definition collar_fields :: "string list" where
  "collar_fields = [''collar_id'', ''visible_read_set'', ''writable_registers'', ''protected_boundary'',
     ''sector_registers'', ''record_registers'', ''checkpoint_registers'', ''interior_registers'',
     ''carrier_ids'', ''seam_ids'', ''forbidden_target_fields'']"

definition ref_set :: "items \<Rightarrow> string \<Rightarrow> string set res" where
  "ref_set kvs n = rbind (canonical_ref_tuple (get kvs n)) (\<lambda>xs. Inr (set xs))"

definition parse_collar :: "pyval \<Rightarrow> repair_collar res" where
  "parse_collar v = rbind (require_fields v collar_fields) (\<lambda>kvs.
     rbind (as_text (get kvs ''collar_id'')) (\<lambda>cid.
     rbind (ref_set kvs ''visible_read_set'') (\<lambda>vis. rbind (ref_set kvs ''writable_registers'') (\<lambda>wr.
     rbind (ref_set kvs ''protected_boundary'') (\<lambda>pb. rbind (ref_set kvs ''sector_registers'') (\<lambda>sr.
     rbind (ref_set kvs ''record_registers'') (\<lambda>rr. rbind (ref_set kvs ''checkpoint_registers'') (\<lambda>cr.
     rbind (ref_set kvs ''interior_registers'') (\<lambda>ir. rbind (ref_set kvs ''carrier_ids'') (\<lambda>ci.
     rbind (ref_set kvs ''seam_ids'') (\<lambda>si. rbind (ref_set kvs ''forbidden_target_fields'') (\<lambda>ff.
     mk_collar \<lparr>collar_id = cid, visible_read_set = vis, writable_registers = wr, protected_boundary = pb,
       sector_registers = sr, record_registers = rr, checkpoint_registers = cr, interior_registers = ir,
       carrier_ids = ci, seam_ids = si, forbidden_target_fields = ff\<rparr>))))))))))))"

text \<open>The text keys of a validated dictionary and the dictionary as a finite map.\<close>

definition key_text :: "pyval \<Rightarrow> string" where
  "key_text v = (case v of PLeaf l \<Rightarrow> (case l of LStr s \<Rightarrow> s | _ \<Rightarrow> []) | _ \<Rightarrow> [])"

definition fmap_of_items :: "items \<Rightarrow> (string, pyval) fmap" where
  "fmap_of_items kvs = fmap_of_list (map (\<lambda>(k, v). (key_text k, v)) kvs)"

definition append_program :: "string \<Rightarrow> pyval \<Rightarrow> (string, pyval) fmap option tracked" where
  "append_program r v = Get r (\<lambda>out. lift_res (rbind out (\<lambda>z. rbind (thaw z) (\<lambda>current.
     rbind (as_list current) (\<lambda>xs. Inr (Some (fmap_of_list [(r, PList (xs @ [v]))])))))))"

definition parse_recovery :: "pyval \<Rightarrow> (string, pyval) fmap option tracked res" where
  "parse_recovery v = rbind (as_items v) (\<lambda>kvs.
     if get kvs ''kind'' = pstr ''literal_updates_v1'' then
       rbind (require_fields v [''kind'', ''updates'']) (\<lambda>raw.
       rbind (as_items (get raw ''updates'')) (\<lambda>ups.
       if \<not> valid_keys ups then Inl TypeError
       else rbind (plain_json (PDict ups)) (\<lambda>_. Inr (Done (Some (fmap_of_items ups))))))
     else if get kvs ''kind'' = pstr ''append_literal_v1'' then
       rbind (require_fields v [''kind'', ''register'', ''value'']) (\<lambda>raw.
       rbind (as_text (get raw ''register'')) (\<lambda>r.
       rbind (plain_json (get raw ''value'')) (\<lambda>_. Inr (append_program r (get raw ''value'')))))
     else Inl ValueError)"

section \<open>The replayed transaction\<close>

definition parse_version :: "pyval \<times> pyval \<Rightarrow> (string \<times> int) res" where
  "parse_version kv = rbind (as_int (snd kv)) (\<lambda>n.
     if n < 0 then Inl TypeError else Inr (key_text (fst kv), n))"

definition nonempty_items :: "pyval \<Rightarrow> items res" where
  "nonempty_items v = rbind (as_items v) (\<lambda>kvs. if kvs = [] then Inl TypeError else Inr kvs)"

definition replay_engine :: "(json \<Rightarrow> string) \<Rightarrow> pyval \<Rightarrow> pyval \<Rightarrow> pyval \<Rightarrow> engine res" where
  "replay_engine dg initial_state initial_versions evaluator_spec =
     rbind (nonempty_items initial_state) (\<lambda>st.
     if \<not> valid_keys st then Inl TypeError else
     rbind (plain_json initial_state) (\<lambda>_.
     rbind (as_items initial_versions) (\<lambda>vs.
     if \<not> valid_keys vs then Inl TypeError
     else if fst ` set vs \<noteq> fst ` set st then Inl ValueError else
     rbind (rmap parse_version vs) (\<lambda>versions.
     rbind (parse_evaluator evaluator_spec) (\<lambda>spec.
     init_engine dg (fmap_of_items st) (replay_evaluator spec) (Some (fmap_of_list versions)))))))"

definition replay_proposal_fields :: "string list" where
  "replay_proposal_fields = [''proposal_id'', ''transition_kind'', ''proposal_class'', ''collar'',
     ''declared_read_set'', ''recovery'', ''inverse_updates'', ''source_parameters'', ''parent_event_ids'']"

definition replay_proposal :: "(json \<Rightarrow> string) \<Rightarrow> engine \<Rightarrow> pyval \<Rightarrow> repair_proposal res" where
  "replay_proposal dg e v = rbind (require_fields v replay_proposal_fields) (\<lambda>kvs.
     rbind (as_text (get kvs ''proposal_id'')) (\<lambda>pid.
     rbind (canonical_ref_tuple (get kvs ''declared_read_set'')) (\<lambda>declared.
     rbind (as_items (get kvs ''inverse_updates'')) (\<lambda>inv.
     rbind (as_items (get kvs ''source_parameters'')) (\<lambda>src.
     if \<not> valid_keys inv then Inl TypeError else if \<not> valid_keys src then Inl TypeError else
     rbind (plain_json (PDict inv)) (\<lambda>_. rbind (plain_json (PDict src)) (\<lambda>_.
     rbind (canonical_ref_tuple (get kvs ''parent_event_ids'')) (\<lambda>parents.
     rbind (kind_of (get kvs ''transition_kind'')) (\<lambda>kind.
     rbind (class_of (get kvs ''proposal_class'')) (\<lambda>cls.
     rbind (parse_collar (get kvs ''collar'')) (\<lambda>c.
     rbind (parse_recovery (get kvs ''recovery'')) (\<lambda>recovery.
     prepare dg e pid kind cls c declared recovery (Some (fmap_of_items inv)) (fmap_of_items src)
       parents))))))))))))"

definition replay_proposals :: "(json \<Rightarrow> string) \<Rightarrow> engine \<Rightarrow> pyval \<Rightarrow> repair_proposal list res" where
  "replay_proposals dg e specs = (case specs of
     PList raw \<Rightarrow> if raw = [] then Inl TypeError else rbind (rmap (replay_proposal dg e) raw) (\<lambda>ps.
       if sort (map proposal_id ps) \<noteq> map proposal_id ps then Inl ValueError
       else rbind (conflict_components ps) (\<lambda>cs. if length cs \<noteq> 1 then Inl ValueError else Inr ps))
   | _ \<Rightarrow> Inl TypeError)"

record replay_outcome =
  o_receipt :: repair_receipt
  o_state :: pyval
  o_versions :: pyval

definition versions_value :: "version_map \<Rightarrow> pyval" where
  "versions_value vs = pdict (map (\<lambda>(r, n). (r, pint n)) (items_of vs))"

definition instantiate_replay :: "(json \<Rightarrow> string) \<Rightarrow> pyval \<Rightarrow> pyval \<Rightarrow> pyval \<Rightarrow> pyval \<Rightarrow> replay_outcome res" where
  "instantiate_replay dg initial_state initial_versions evaluator_spec specs =
     rbind (replay_engine dg initial_state initial_versions evaluator_spec) (\<lambda>e.
     rbind (replay_proposals dg e specs) (\<lambda>ps.
     let (out, e') = commit_batch dg e ps in
     rbind out (\<lambda>receipts. case receipts of
         [r] \<Rightarrow> rbind (thaw (FzMap (items_of (state e')))) (\<lambda>st.
           Inr \<lparr>o_receipt = r, o_state = st, o_versions = versions_value (versions e')\<rparr>)
       | _ \<Rightarrow> Inl RuntimeError)))"

section \<open>Envelopes\<close>

definition replay_nonclaims :: "string list" where
  "replay_nonclaims = [''physical source provenance'', ''probability or vacuum selection'',
     ''H3 or event geometry'', ''KMS clock normalization'', ''continuum or Standard Model emergence'']"

definition envelope_fields :: "(json \<Rightarrow> string) \<Rightarrow> pyval \<Rightarrow> pyval \<Rightarrow> pyval \<Rightarrow> pyval \<Rightarrow> replay_outcome \<Rightarrow>
    (string \<times> pyval) list" where
  "envelope_fields dg st vs spec specs out =
     [(''schema'', pstr ''oph.repair.replay-envelope.v1''),
      (''artifact_type'', pstr ''TRANSACTIONAL_REPAIR_REPLAY_ENVELOPE''),
      (''replay_verifier_version'', pstr ''oph-fpe-primitive-replay-verifier-v1''),
      (''initial_state'', st), (''initial_versions'', vs), (''mismatch_evaluator'', spec),
      (''proposals'', specs), (''expected_receipt'', receipt_dict dg (o_receipt out)),
      (''expected_post_state'', o_state out), (''expected_versions_after'', o_versions out),
      (''scope'', pstr ''finite primitive transactional-repair replay''),
      (''nonclaims'', pstrs replay_nonclaims)]"

definition build_envelope :: "(json \<Rightarrow> string) \<Rightarrow> pyval \<Rightarrow> pyval \<Rightarrow> pyval \<Rightarrow> pyval \<Rightarrow> pyval res" where
  "build_envelope dg st vs spec specs = rbind (instantiate_replay dg st vs spec specs) (\<lambda>out.
     let envelope = pdict (envelope_fields dg st vs spec specs out)
     in rbind (plain_json envelope) (\<lambda>_. Inr envelope))"

definition replay_envelope_fields :: "string list" where
  "replay_envelope_fields = [''schema'', ''artifact_type'', ''replay_verifier_version'', ''initial_state'',
     ''initial_versions'', ''mismatch_evaluator'', ''proposals'', ''expected_receipt'',
     ''expected_post_state'', ''expected_versions_after'', ''scope'', ''nonclaims'']"

definition envelope_header :: "pyval \<Rightarrow> items res" where
  "envelope_header artifact = rbind (require_fields artifact replay_envelope_fields) (\<lambda>kvs.
     rbind (plain_json artifact) (\<lambda>_.
     if get kvs ''schema'' \<noteq> pstr ''oph.repair.replay-envelope.v1'' then Inl ValueError
     else if get kvs ''artifact_type'' \<noteq> pstr ''TRANSACTIONAL_REPAIR_REPLAY_ENVELOPE'' then Inl ValueError
     else if get kvs ''replay_verifier_version'' \<noteq> pstr ''oph-fpe-primitive-replay-verifier-v1'' then Inl ValueError
     else if get kvs ''scope'' \<noteq> pstr ''finite primitive transactional-repair replay'' then Inl ValueError
     else if get kvs ''nonclaims'' \<noteq> pstrs replay_nonclaims then Inl ValueError
     else Inr kvs))"

definition replay_outcome_of :: "(json \<Rightarrow> string) \<Rightarrow> pyval \<Rightarrow> replay_outcome res" where
  "replay_outcome_of dg artifact = rbind (envelope_header artifact) (\<lambda>kvs.
     instantiate_replay dg (get kvs ''initial_state'') (get kvs ''initial_versions'')
       (get kvs ''mismatch_evaluator'') (get kvs ''proposals''))"

definition prefixed :: "failure \<Rightarrow> failure" where
  "prefixed f = (case f of Reason t \<Rightarrow> Reason (''expected_receipt:'' @ t) | Raised e \<Rightarrow> Raised e)"

text \<open>One comparison of canonical trees; an exception of either side ends the comparisons.\<close>

definition compared :: "(json \<Rightarrow> string) \<Rightarrow> pyval \<Rightarrow> pyval \<Rightarrow> string \<Rightarrow> failure list \<Rightarrow> failure list" where
  "compared rp claimed actual text rest =
     (case rbind (canonical_raw rp claimed) (\<lambda>a. rbind (canonical_raw rp actual) (\<lambda>b. Inr (a, b))) of
        Inl e \<Rightarrow> [Raised e]
      | Inr (a, b) \<Rightarrow> failed (\<not> json_eq a b) text @ rest)"

definition compare_outputs :: "(json \<Rightarrow> string) \<Rightarrow> (json \<Rightarrow> string) \<Rightarrow> items \<Rightarrow> replay_outcome \<Rightarrow> failure list" where
  "compare_outputs dg rp kvs out =
     (case as_items (get kvs ''expected_receipt'') of Inl e \<Rightarrow> [Raised e] | Inr _ \<Rightarrow>
       (let d = self_consistency dg rp (get kvs ''expected_receipt'')
        in (if integrity d then [] else map prefixed (failures d)) @
           compared rp (get kvs ''expected_receipt'') (receipt_dict dg (o_receipt out))
             ''expected_receipt_is_not_exact_replay_output''
             (case as_items (get kvs ''expected_post_state'') of Inl e \<Rightarrow> [Raised e] | Inr _ \<Rightarrow>
               compared rp (get kvs ''expected_post_state'') (o_state out)
                 ''expected_post_state_is_not_exact_replay_output''
                 (case as_items (get kvs ''expected_versions_after'') of Inl e \<Rightarrow> [Raised e] | Inr _ \<Rightarrow>
                   compared rp (get kvs ''expected_versions_after'') (o_versions out)
                     ''expected_versions_after_is_not_exact_replay_output'' []))))"

definition raw_same_value :: "(json \<Rightarrow> string) \<Rightarrow> pyval \<Rightarrow> pyval \<Rightarrow> bool" where
  "raw_same_value dg x y = (case (freeze dg x, freeze dg y) of
     (Inr a, Inr b) \<Rightarrow> same_value dg a b | _ \<Rightarrow> False)"

definition state_changes :: "(json \<Rightarrow> string) \<Rightarrow> items \<Rightarrow> items \<Rightarrow> (string \<times> pyval \<times> pyval) list" where
  "state_changes dg pre post = map (\<lambda>r. (r, get pre r, get post r)) (filter
     (\<lambda>r. pstr r \<notin> fst ` set pre \<or> pstr r \<notin> fst ` set post \<or> \<not> raw_same_value dg (get pre r) (get post r))
     (sorted_list_of_set (key_text ` (fst ` set pre \<union> fst ` set post))))"

record replay_report =
  replay_integrity :: bool
  replayed_transition :: bool
  replay_complete :: bool
  replay_support :: bool
  replay_atomic :: bool
  replay_transactional :: bool
  replay_record_commit :: bool
  replay_receipt :: "pyval option"
  replay_post_state :: "pyval option"
  replay_versions_after :: "pyval option"
  replay_state_changes :: "(string \<times> pyval \<times> pyval) list"
  replay_artifact_hash :: "string option"
  replay_failures :: "failure list"

definition verify_envelope :: "(json \<Rightarrow> string) \<Rightarrow> (json \<Rightarrow> string) \<Rightarrow> pyval \<Rightarrow> replay_report" where
  "verify_envelope dg rp artifact =
     (let hash = fst (hash_artifact dg rp artifact) in
      case replay_outcome_of dg artifact of
        Inl e \<Rightarrow> \<lparr>replay_integrity = False, replayed_transition = False, replay_complete = False,
          replay_support = False, replay_atomic = False, replay_transactional = False,
          replay_record_commit = False, replay_receipt = None, replay_post_state = None,
          replay_versions_after = None, replay_state_changes = [], replay_artifact_hash = hash,
          replay_failures = [Raised e]\<rparr>
      | Inr out \<Rightarrow>
        (let bad = compare_outputs dg rp (raw_items artifact) out; ok = (bad = []); r = o_receipt out;
             replayed = (ok \<and> r_committed r \<and> all_checks_passed r)
         in \<lparr>replay_integrity = ok, replayed_transition = replayed,
             replay_complete = ok \<and> complete_read_set_receipt r,
             replay_support = ok \<and> conflict_component_support_receipt dg r,
             replay_atomic = ok \<and> atomic_union_revalidation_receipt dg r,
             replay_transactional = ok \<and> physical_repair_receipt dg r,
             replay_record_commit = replayed \<and> r_transition_kind r = RECORD_COMMIT \<and> semantic_record_written r,
             replay_receipt = Some (receipt_dict dg r), replay_post_state = Some (o_state out),
             replay_versions_after = Some (o_versions out),
             replay_state_changes = (if ok then state_changes dg
                (raw_items (get (raw_items artifact) ''initial_state'')) (raw_items (o_state out)) else []),
             replay_artifact_hash = hash, replay_failures = bad\<rparr>))"

section \<open>Replayed engines and proposals are well-named\<close>

lemma run_tbind:
  "fst (run_tracked st (tbind m f)) = Inr x \<Longrightarrow>
   \<exists>a. fst (run_tracked st m) = Inr a \<and> fst (run_tracked st (f a)) = Inr x"
  by (induction m) (auto simp: Let_def split: if_splits)

lemma run_lift [simp]: "run_tracked st (lift_res r) = (r, {})"
  by (cases r) (simp_all add: lift_res_def)

lemma replay_evaluator_lawful:
  "fst (run_tracked st (replay_evaluator s c)) = Inr (Some L) \<Longrightarrow> wf_ledger L"
  unfolding replay_evaluator_def
  by (drule run_tbind, elim exE conjE, drule run_tbind, elim exE conjE, drule run_tbind, elim exE conjE,
      drule run_tbind, elim exE conjE, drule run_tbind, elim exE conjE, drule run_tbind, elim exE conjE)
    (auto simp: rbind_eq_Inr dest: mk_ledger_wf)

lemma replay_engine_ok:
  assumes "replay_engine dg st vs spec = Inr e"
  shows "wf_engine e \<and> named_engine e \<and> lawful_evaluator e"
proof -
  obtain kvs s v where i: "init_engine dg (fmap_of_items kvs) (replay_evaluator s) (Some v) = Inr e"
    using assms by (auto simp: replay_engine_def Let_def split: if_splits elim!: rbind_eq_InrE)
  have "mismatch_evaluator e = replay_evaluator s" "named_engine e"
    using i freeze_regs_dom by (auto simp: init_engine_def named_engine_def split: if_splits elim!: rbind_eq_InrE)
  then show ?thesis
    using init_engine_wf [OF i] replay_evaluator_lawful by (auto simp: lawful_evaluator_def)
qed

lemma refs_Inr: "refs xs = Inr A \<longleftrightarrow> A = set xs \<and> [] \<notin> set xs"
  by (auto simp: refs_def)

lemma updates_named: "updates_from_mapping dg m = Inr us \<Longrightarrow> [] \<notin> fst ` set us"
proof -
  assume u: "updates_from_mapping dg m = Inr us"
  show ?thesis
  proof (cases m)
    case (Some f)
    then have "fmlookup f [] = None" and
      r: "rmap (\<lambda>r. rbind (freeze dg (the (fmlookup f r))) (\<lambda>z. Inr (r, z))) (sorted_list_of_fset (fmdom f)) = Inr us"
      using u by (auto simp: updates_from_mapping_def split: if_splits)
    have "map fst ys = xs" if "rmap (\<lambda>r. rbind (freeze dg (the (fmlookup f r))) (\<lambda>z. Inr (r, z))) xs = Inr ys" for xs ys
      using that by (induction xs arbitrary: ys) (auto simp: rbind_eq_Inr)
    from this [OF r] have "fst ` set us = set (sorted_list_of_fset (fmdom f))" by (metis image_set)
    then show ?thesis using \<open>fmlookup f [] = None\<close> by (auto simp: fmlookup_dom_iff)
  qed (use u in \<open>simp add: updates_from_mapping_def\<close>)
qed

lemma capture_names: "capture st vs A = Inr sn \<Longrightarrow> snapshot_read_set sn \<subseteq> A"
proof -
  assume c: "capture st vs A = Inr sn"
  then obtain rs where rs: "rmap (\<lambda>r. mk_register_snapshot r (the (fmlookup st r)) (the (fmlookup vs r)))
      (sorted_list_of_set A) = Inr rs" "mk_snapshot rs = Inr sn"
    by (auto simp: capture_def split: if_splits elim!: rbind_eq_InrE)
  have "map ref ys = xs" if "rmap (\<lambda>r. mk_register_snapshot r (the (fmlookup st r)) (the (fmlookup vs r))) xs = Inr ys"
    for xs ys
    using that by (induction xs arbitrary: ys) (auto simp: rbind_eq_Inr mk_register_snapshot_def split: if_splits)
  from this [OF rs(1)] have "map ref rs = sorted_list_of_set A" .
  moreover have "set sn = set rs" using rs(2) by (auto simp: mk_snapshot_def Let_def split: if_splits)
  ultimately have "snapshot_read_set sn = set (sorted_list_of_set A)"
    unfolding snapshot_read_set_def by (metis image_set)
  then show ?thesis by (cases "finite A") auto
qed

lemma mk_collar_named: "mk_collar c = Inr c' \<Longrightarrow> [] \<notin> visible_read_set c' \<union> protected_boundary c' \<union>
    sector_registers c' \<union> record_registers c' \<union> checkpoint_registers c'"
  by (auto simp: mk_collar_def split: if_splits)

lemma prepare_clean:
  assumes p: "prepare dg e pid kind cls c declared recovery invs src parents = Inr p"
    and c: "[] \<notin> visible_read_set c \<union> protected_boundary c \<union> sector_registers c \<union> record_registers c \<union> checkpoint_registers c"
    and e: "named_engine e"
  shows "clean_proposal p \<and> proposal_id p = pid \<and> transition_kind p = kind"
proof -
  obtain out obs where o: "run_tracked (state e) recovery = (out, obs)" by fastforce
  have n: "[] \<notin> obs" using run_tracked_named [of "state e" recovery] e o by (simp add: named_engine_def)
  obtain reads sn upd raw par where q: "refs declared = Inr reads" "capture (state e) (versions e) reads = Inr sn"
    "updates_from_mapping dg raw = Inr upd" "refs parents = Inr par" "pid \<noteq> []"
    "collar p = c" "declared_read_set p = reads" "observed_read_set p = obs" "snapshot p = sn" "updates p = upd"
    "proposal_id p = pid" "transition_kind p = kind" "parent_event_ids p = sorted_list_of_set par"
    using p o by (auto simp: prepare_def prepare_proposal_def Let_def split: if_splits elim!: rbind_eq_InrE)
  have "[] \<notin> write_set p" using updates_named [OF q(3)] q(10) by (simp add: write_set_def)
  moreover have "[] \<notin> snapshot_read_set sn" using capture_names [OF q(2)] q(1) by (auto simp: refs_Inr)
  ultimately show ?thesis
    using q c n unfolding clean_proposal_def required_reads_of_def by (auto simp: refs_Inr)
qed

lemma parse_collar_named: "parse_collar v = Inr c \<Longrightarrow> [] \<notin> visible_read_set c \<union> protected_boundary c \<union>
    sector_registers c \<union> record_registers c \<union> checkpoint_registers c"
  unfolding parse_collar_def by (elim rbind_eq_InrE) (rule mk_collar_named)

lemma replay_proposal_clean:
  assumes "replay_proposal dg e v = Inr p" "named_engine e"
  shows "clean_proposal p \<and> (\<exists>kvs. as_items v = Inr kvs \<and> kind_of (get kvs ''transition_kind'') = Inr (transition_kind p))"
proof -
  obtain kvs pid kind cls c declared recovery invs src parents where
    q: "require_fields v replay_proposal_fields = Inr kvs" "kind_of (get kvs ''transition_kind'') = Inr kind"
      "parse_collar (get kvs ''collar'') = Inr c"
      "prepare dg e pid kind cls c declared recovery (Some (fmap_of_items invs)) (fmap_of_items src) parents = Inr p"
    using assms(1) unfolding replay_proposal_def
    by (auto split: if_splits elim!: rbind_eq_InrE)
  have "as_items v = Inr kvs" using q(1) by (auto simp: require_fields_def split: if_splits elim!: rbind_eq_InrE)
  then show ?thesis using prepare_clean [OF q(4) parse_collar_named [OF q(3)] assms(2)] q(2) by blast
qed

section \<open>Comparing a value with itself\<close>

lemma json_eq_list_refl: "(\<And>x. x \<in> set xs \<Longrightarrow> json_eq x x) \<Longrightarrow> json_eq_list xs xs"
  by (induction xs) auto

lemma canonical_leaf_eq: "plain_leaf l = Inr () \<Longrightarrow> json_eq (canonical_leaf l) (canonical_leaf l)"
  by (cases l) (auto simp: canonical_leaf_def plain_leaf_def json_num_def is_finite_float_def
    split: if_splits option.splits)

lemma rmap_Inr_set: "rmap f xs = Inr ys \<Longrightarrow> y \<in> set ys \<Longrightarrow> \<exists>x \<in> set xs. f x = Inr y"
  by (induction xs arbitrary: ys) (auto simp: rbind_eq_Inr)

lemma canonical_plain_eq: "plain_json v = Inr () \<Longrightarrow> canonical_raw rp v = Inr j \<Longrightarrow> json_eq j j"
proof (induction v arbitrary: j rule: plain_json.induct)
  case (1 l)
  then show ?case using canonical_leaf_eq by auto
next
  case (2 xs)
  then obtain ys where ys: "rmap (canonical_raw rp) xs = Inr ys" "j = JArr ys" by (auto simp: rbind_eq_Inr)
  have "json_eq y y" if "y \<in> set ys" for y
    using rmap_Inr_set [OF ys(1) that] 2 by (auto simp: check_all_ok)
  then show ?case using ys(2) by (simp add: json_eq_list_refl)
next
  case (3 kvs)
  then obtain ks vs where r: "rmap (\<lambda>kv. canonical_raw rp (snd kv)) kvs = Inr vs" "j = jobj (zip ks vs)"
    by (auto simp: rbind_eq_Inr)
  have p: "\<forall>kv \<in> set kvs. plain_json (snd kv) = Inr ()" and v: "valid_keys kvs"
    using "3.prems"(1) by (auto simp: check_all_ok split: if_splits)
  have "json_eq y y" if "y \<in> set vs" for y
    using rmap_Inr_set [OF r(1) that] 3(1) p v by auto
  then have "\<forall>x \<in> set (zip ks vs). json_eq (snd x) (snd x)" by (auto dest: set_zip_rightD)
  then show ?case using r(2) by (auto simp: jobj_def)
qed auto

lemma compared_self: "plain_json v = Inr () \<Longrightarrow> compared rp v v t rest = rest"
proof -
  assume v: "plain_json v = Inr ()"
  then obtain j where j: "canonical_raw rp v = Inr j" using canonical_plain by blast
  with canonical_plain_eq [OF v] show ?thesis by (simp add: compared_def failed_def)
qed

section \<open>Envelopes and their verification\<close>

lemma envelope_get:
  "get (ditems (envelope_fields dg st vs spec specs out)) ''schema'' = pstr ''oph.repair.replay-envelope.v1''"
  "get (ditems (envelope_fields dg st vs spec specs out)) ''artifact_type'' = pstr ''TRANSACTIONAL_REPAIR_REPLAY_ENVELOPE''"
  "get (ditems (envelope_fields dg st vs spec specs out)) ''replay_verifier_version'' =
     pstr ''oph-fpe-primitive-replay-verifier-v1''"
  "get (ditems (envelope_fields dg st vs spec specs out)) ''initial_state'' = st"
  "get (ditems (envelope_fields dg st vs spec specs out)) ''initial_versions'' = vs"
  "get (ditems (envelope_fields dg st vs spec specs out)) ''mismatch_evaluator'' = spec"
  "get (ditems (envelope_fields dg st vs spec specs out)) ''proposals'' = specs"
  "get (ditems (envelope_fields dg st vs spec specs out)) ''expected_receipt'' = receipt_dict dg (o_receipt out)"
  "get (ditems (envelope_fields dg st vs spec specs out)) ''expected_post_state'' = o_state out"
  "get (ditems (envelope_fields dg st vs spec specs out)) ''expected_versions_after'' = o_versions out"
  "get (ditems (envelope_fields dg st vs spec specs out)) ''scope'' = pstr ''finite primitive transactional-repair replay''"
  "get (ditems (envelope_fields dg st vs spec specs out)) ''nonclaims'' = pstrs replay_nonclaims"
  by (simp_all add: envelope_fields_def get_ditems)

lemma build_envelopeE:
  assumes "build_envelope dg st vs spec specs = Inr env"
  obtains out where "instantiate_replay dg st vs spec specs = Inr out"
    "env = pdict (envelope_fields dg st vs spec specs out)" "plain_json env = Inr ()"
  using assms by (auto simp: build_envelope_def Let_def elim!: rbind_eq_InrE)

lemma plain_dict_value: "plain_json (pdict kvs) = Inr () \<Longrightarrow> (k, v) \<in> set kvs \<Longrightarrow> plain_json v = Inr ()"
  by (force simp: pdict_def ditems_def check_all_ok split: if_splits)

text \<open>An envelope with arbitrary claims is replayed from its inputs.\<close>

lemma claimed_header:
  assumes "plain_json (pdict (envelope_fields dg st vs spec specs claimed)) = Inr ()"
    and "instantiate_replay dg st vs spec specs = Inr out"
  shows "replay_outcome_of dg (pdict (envelope_fields dg st vs spec specs claimed)) = Inr out"
    "raw_items (pdict (envelope_fields dg st vs spec specs claimed)) = ditems (envelope_fields dg st vs spec specs claimed)"
proof -
  let ?env = "pdict (envelope_fields dg st vs spec specs claimed)"
  have f: "fst ` set (envelope_fields dg st vs spec specs claimed) = set replay_envelope_fields"
    by (auto simp: envelope_fields_def replay_envelope_fields_def)
  have "[] \<notin> set replay_envelope_fields" by (simp add: replay_envelope_fields_def)
  then have "require_fields ?env replay_envelope_fields = Inr (ditems (envelope_fields dg st vs spec specs claimed))"
    by (simp add: require_fields_def dict_simps f)
  then show "replay_outcome_of dg ?env = Inr out"
    using assms by (simp add: replay_outcome_of_def envelope_header_def envelope_get)
  show "raw_items ?env = ditems (envelope_fields dg st vs spec specs claimed)"
    by (simp add: raw_items_def pdict_def)
qed

lemma built_header:
  assumes "build_envelope dg st vs spec specs = Inr env" "instantiate_replay dg st vs spec specs = Inr out"
  shows "replay_outcome_of dg env = Inr out" "raw_items env = ditems (envelope_fields dg st vs spec specs out)"
proof -
  have env: "env = pdict (envelope_fields dg st vs spec specs out)" "plain_json env = Inr ()"
    using build_envelopeE [OF assms(1)] assms(2) by (metis sum.inject(2))+
  show "replay_outcome_of dg env = Inr out" "raw_items env = ditems (envelope_fields dg st vs spec specs out)"
    using claimed_header [OF env(2) [unfolded env(1)] assms(2)] env(1) by simp_all
qed

lemma thaw_map_items: "thaw (FzMap kvs) = Inr v \<Longrightarrow> \<exists>items. as_items v = Inr items"
  by (auto simp: as_items_def elim!: rbind_eq_InrE)

text \<open>The single receipt of a replay, with the engine and the proposals it came from.\<close>

lemma instantiateE:
  assumes "instantiate_replay dg st vs spec specs = Inr out"
  obtains e ps e' where "replay_engine dg st vs spec = Inr e" "replay_proposals dg e specs = Inr ps"
    "commit_batch dg e ps = (Inr [o_receipt out], e')" "thaw (FzMap (items_of (state e'))) = Inr (o_state out)"
    "o_versions out = versions_value (versions e')"
proof -
  obtain e where e: "replay_engine dg st vs spec = Inr e"
    using assms unfolding instantiate_replay_def by (elim rbind_eq_InrE)
  obtain ps where ps: "replay_proposals dg e specs = Inr ps"
    using assms unfolding instantiate_replay_def e rbind_Inr by (elim rbind_eq_InrE)
  obtain res e' where c: "commit_batch dg e ps = (res, e')" by fastforce
  have i: "rbind res (\<lambda>receipts. case receipts of
         [r] \<Rightarrow> rbind (thaw (FzMap (items_of (state e')))) (\<lambda>st.
           Inr \<lparr>o_receipt = r, o_state = st, o_versions = versions_value (versions e')\<rparr>)
       | _ \<Rightarrow> Inl RuntimeError) = Inr out"
    using assms unfolding instantiate_replay_def e ps rbind_Inr Let_def c prod.case .
  then obtain rs where rs: "res = Inr rs" by (elim rbind_eq_InrE)
  with i obtain r where r: "rs = [r]" by (auto split: list.splits)
  from i rs r obtain w where "thaw (FzMap (items_of (state e'))) = Inr w"
    "out = \<lparr>o_receipt = r, o_state = w, o_versions = versions_value (versions e')\<rparr>"
    by (auto simp del: thaw.simps elim!: rbind_eq_InrE)
  then show thesis using that [OF e ps, of e'] c rs r by simp
qed

lemma replay_proposals_clean:
  assumes "replay_proposals dg e specs = Inr ps" "named_engine e"
  shows "list_all clean_proposal ps"
proof -
  obtain raw where "rmap (replay_proposal dg e) raw = Inr ps"
    using assms(1) by (auto simp: replay_proposals_def split: pyval.splits if_splits elim!: rbind_eq_InrE)
  then show ?thesis by (rule rmap_list_all) (use replay_proposal_clean assms(2) in blast)
qed

lemma instantiate_readable:
  assumes "instantiate_replay dg st vs spec specs = Inr out" "hex_digest dg"
  shows "readable_receipt dg (o_receipt out)"
proof -
  obtain e ps e' where i: "replay_engine dg st vs spec = Inr e" "replay_proposals dg e specs = Inr ps"
    "commit_batch dg e ps = (Inr [o_receipt out], e')"
    using instantiateE [OF assms(1)] by metis
  note e = replay_engine_ok [OF i(1)]
  have "\<forall>r \<in> set [o_receipt out]. readable_receipt dg r"
    by (rule commit_batch_receipts [OF _ i(3) replay_proposals_clean [OF i(2)]]) (use e assms(2) in auto)
  then show ?thesis by simp
qed

lemma unreadable_rollback:
  assumes "map name (r_checks r) = transaction_check_names" "r_transition_kind r = ROLLBACK"
  shows "\<not> integrity (self_consistency dg rp (receipt_dict dg r))"
proof
  assume "integrity (self_consistency dg rp (receipt_dict dg r))"
  then obtain r' where p: "parse_receipt (receipt_dict dg r) = Inr r'" by (rule integrityD)
  obtain cs where "parse_checks (PList (map check_dict (r_checks r))) (r_transition_kind r) = Inr cs"
    using p unfolding parse_receipt_def parse_header_dict by (auto elim!: rbind_eq_InrE)
  then have cs: "parse_checks (PList (map check_dict (r_checks r))) ROLLBACK = Inr cs" by (simp only: assms(2))
  then have rm: "rmap parse_check (map check_dict (r_checks r)) = Inr cs" and sc: "check_schema_complete cs ROLLBACK"
    by (auto simp: parse_checks_def as_list_def rbind_eq_Inr split: if_splits)
  have "list_all (\<lambda>c. name c \<noteq> []) (r_checks r)"
  proof -
    have "list_all (\<lambda>n. n \<noteq> []) transaction_check_names" by code_simp
    then have "list_all (\<lambda>n. n \<noteq> []) (map name (r_checks r))" unfolding assms(1) .
    then show ?thesis by (simp add: list_all_iff)
  qed
  then have "rmap parse_check (map check_dict (r_checks r)) = Inr (r_checks r)"
    by (intro rmap_inv parse_check_dict) (simp add: list_all_iff)
  then have "check_schema_complete (r_checks r) ROLLBACK" using rm sc by simp
  then have "set transaction_check_names = set rollback_check_names"
    using assms(1) by (simp add: check_schema_complete_def)
  moreover have "set transaction_check_names \<noteq> set rollback_check_names" by code_simp
  ultimately show False by simp
qed

lemma integrity_iff: "integrity (self_consistency dg rp raw) \<longleftrightarrow> failures (self_consistency dg rp raw) = []"
  by (auto simp: self_consistency_def Let_def split: sum.splits prod.splits)

lemma built_compare:
  assumes b: "build_envelope dg st vs spec specs = Inr env" and i: "instantiate_replay dg st vs spec specs = Inr out"
  shows "compare_outputs dg rp (raw_items env) out = [] \<longleftrightarrow>
    integrity (self_consistency dg rp (receipt_dict dg (o_receipt out)))"
proof -
  have p: "plain_json (pdict (envelope_fields dg st vs spec specs out)) = Inr ()"
    using build_envelopeE [OF b] i by (metis sum.inject(2))
  have pr: "plain_json (receipt_dict dg (o_receipt out)) = Inr ()"
    by (rule plain_dict_value [OF p, of "''expected_receipt''"]) (simp add: envelope_fields_def)
  have ps: "plain_json (o_state out) = Inr ()"
    by (rule plain_dict_value [OF p, of "''expected_post_state''"]) (simp add: envelope_fields_def)
  have pv: "plain_json (o_versions out) = Inr ()"
    by (rule plain_dict_value [OF p, of "''expected_versions_after''"]) (simp add: envelope_fields_def)
  obtain s where s: "as_items (o_state out) = Inr s" using instantiateE [OF i] thaw_map_items by metis
  obtain v where v: "as_items (o_versions out) = Inr v"
    using instantiateE [OF i] by (metis versions_value_def as_items_pdict)
  have r: "as_items (receipt_dict dg x) = Inr (ditems (receipt_fields dg x))" for x by (simp add: receipt_dict_def)
  show ?thesis
    unfolding compare_outputs_def built_header(2) [OF b i] envelope_get
    by (simp add: r s v compared_self pr ps pv Let_def integrity_iff)
qed

end
