(* ===== verification/Replay_Properties.thy ===== *)
theory Replay_Properties
  imports Repair_Replay Repair_Demo
begin

text \<open>
  The properties of serialized receipts and of replay envelopes, with witnesses on a small
  envelope.
\<close>

section \<open>The commit identifier binds the receipt\<close>

lemma jobj_inject:
  assumes "map fst xs = map fst ys" "distinct (map fst xs)"
  shows "jobj xs = jobj ys \<longleftrightarrow> xs = ys"
proof
  assume "jobj xs = jobj ys"
  then have m: "set xs = set ys" by (metis jobj_def json.inject(7) set_sort)
  show "xs = ys"
  proof (rule nth_equalityI)
    show "length xs = length ys" using assms(1) by (metis length_map)
    fix i assume i: "i < length xs"
    then have "xs ! i \<in> set ys" unfolding m [symmetric] by (rule nth_mem)
    moreover have "fst (xs ! i) = fst (ys ! i)" using assms(1) i by (metis length_map nth_map)
    moreover have "ys ! i \<in> set ys" using i assms(1) by (metis length_map nth_mem)
    moreover have "distinct (map fst ys)" using assms by simp
    ultimately show "xs ! i = ys ! i" by (metis distinct_map inj_onD)
  qed
qed simp

lemma fraction_json_inject: "fraction_json p = fraction_json q \<longleftrightarrow> p = q"
  unfolding fraction_json_def by (subst jobj_inject) (auto simp: prod_eq_iff intro: quotient_of_inject)

lemma aux_json_inject:
  assumes "sorted (map fst xs)" "sorted (map fst ys)"
    and "jobj (map (\<lambda>(n, q). (n, fraction_json q)) xs) = jobj (map (\<lambda>(n, q). (n, fraction_json q)) ys)"
  shows "xs = ys"
proof -
  have s: "sort_key fst (map (\<lambda>(n, q). (n, fraction_json q)) zs) = map (\<lambda>(n, q). (n, fraction_json q)) zs"
    if "sorted (map fst zs)" for zs :: "(string \<times> rat) list"
    by (rule sort_key_sorted) (use that in \<open>simp add: comp_def split_def\<close>)
  have "map (\<lambda>(n, q). (n, fraction_json q)) xs = map (\<lambda>(n, q). (n, fraction_json q)) ys"
    using assms(3) unfolding jobj_def s [OF assms(1)] s [OF assms(2)] by simp
  then show ?thesis by (rule map_inject) (auto simp: fraction_json_inject)
qed

lemma ledger_json_inject: "wf_ledger A \<Longrightarrow> wf_ledger B \<Longrightarrow> ledger_json A = ledger_json B \<Longrightarrow> A = B"
  unfolding ledger_json_def
  by (subst (asm) jobj_inject, simp, simp)
    (auto simp: fraction_json_inject wf_ledger_def auxiliary_names_def intro: ledger.equality dest: aux_json_inject)

lemma ledger_json_object: "ledger_json L \<noteq> JNull"
  by (simp add: ledger_json_def jobj_def)

lemma jledger_inject: "pred_option wf_ledger a \<Longrightarrow> pred_option wf_ledger b \<Longrightarrow>
    jledger_option a = jledger_option b \<Longrightarrow> a = b"
  by (cases a; cases b)
    (auto simp: jledger_option_def ledger_json_object ledger_json_object [symmetric] dest: ledger_json_inject)

lemma jstrs_inject: "jstrs xs = jstrs ys \<longleftrightarrow> xs = ys"
  by (simp add: jstrs_def inj_map_eq_map inj_def)

lemma jstr_option_inject: "jstr_option a = jstr_option b \<longleftrightarrow> a = b"
  by (cases a; cases b) (simp_all add: jstr_option_def)

lemma kind_value_inject: "kind_value a = kind_value b \<longleftrightarrow> a = b"
  by (cases a; cases b) simp_all

lemma class_value_inject: "class_value a = class_value b \<longleftrightarrow> a = b"
  by (cases a; cases b) simp_all

lemma classes_inject: "map class_value xs = map class_value ys \<longleftrightarrow> xs = ys"
  by (rule inj_map_eq_map) (simp add: inj_def class_value_inject)

lemma checks_inject: fixes xs ys :: "verification_check list" shows "map (\<lambda>c. JArr [JStr (name c), JBool (passed c), JStr (detail c)]) xs =
    map (\<lambda>c. JArr [JStr (name c), JBool (passed c), JStr (detail c)]) ys \<longleftrightarrow> xs = ys"
  by (rule inj_map_eq_map, rule injI, rule verification_check.equality) simp_all

lemma footprint_json_inject: "footprint_json f = footprint_json g \<longleftrightarrow> f = g"
  unfolding footprint_json_def by (subst jobj_inject) (auto simp: jstrs_inject intro: proposal_footprint.equality)

lemma commit_seed_binds:
  assumes "commit_seed r = commit_seed s"
    and "pred_option wf_ledger (r_mismatch_before r)" "pred_option wf_ledger (r_mismatch_before s)"
    and "pred_option wf_ledger (r_mismatch_after r)" "pred_option wf_ledger (r_mismatch_after s)"
  shows "r_proposal_ids r = r_proposal_ids s" "r_transition_kind r = r_transition_kind s"
    "r_proposal_classes r = r_proposal_classes s" "r_checks r = r_checks s" "r_committed r = r_committed s"
    "r_pre_state_hash r = r_pre_state_hash s" "r_post_state_hash r = r_post_state_hash s"
    "r_mismatch_before r = r_mismatch_before s" "r_mismatch_after r = r_mismatch_after s"
    "r_snapshot_hashes r = r_snapshot_hashes s" "r_conflict_support_hash r = r_conflict_support_hash s"
    "r_read_set_hash r = r_read_set_hash s" "r_write_set_hash r = r_write_set_hash s"
    "r_protected_boundary_hash r = r_protected_boundary_hash s"
    "r_versions_before_hash r = r_versions_before_hash s" "r_versions_after_hash r = r_versions_after_hash s"
    "r_parent_event_ids r = r_parent_event_ids s" "r_transition_event_id r = r_transition_event_id s"
    "r_semantic_record_event_id r = r_semantic_record_event_id s"
proof -
  note q = assms(1) [unfolded commit_seed_def]
  note e = q [THEN iffD1 [OF jobj_inject, rotated 2], simplified]
  have l: "r_mismatch_before r = r_mismatch_before s" "r_mismatch_after r = r_mismatch_after s"
    using e by (auto intro: jledger_inject assms(2-5))
  show "r_proposal_ids r = r_proposal_ids s" "r_transition_kind r = r_transition_kind s"
    "r_proposal_classes r = r_proposal_classes s" "r_checks r = r_checks s" "r_committed r = r_committed s"
    "r_pre_state_hash r = r_pre_state_hash s" "r_post_state_hash r = r_post_state_hash s"
    "r_mismatch_before r = r_mismatch_before s" "r_mismatch_after r = r_mismatch_after s"
    "r_snapshot_hashes r = r_snapshot_hashes s" "r_conflict_support_hash r = r_conflict_support_hash s"
    "r_read_set_hash r = r_read_set_hash s" "r_write_set_hash r = r_write_set_hash s"
    "r_protected_boundary_hash r = r_protected_boundary_hash s"
    "r_versions_before_hash r = r_versions_before_hash s" "r_versions_after_hash r = r_versions_after_hash s"
    "r_parent_event_ids r = r_parent_event_ids s" "r_transition_event_id r = r_transition_event_id s"
    "r_semantic_record_event_id r = r_semantic_record_event_id s"
    using e l by (simp_all add: jstrs_inject jstr_option_inject kind_value_inject classes_inject checks_inject)
qed

lemma payload_binds:
  assumes "conflict_support_payload f o1 s1 e1 = conflict_support_payload g o2 s2 e2"
  shows "f = g \<and> o1 = o2 \<and> s1 = s2 \<and> e1 = e2"
proof -
  have "map footprint_json f = map footprint_json g \<and> o1 = o2 \<and> s1 = s2 \<and>
      map (\<lambda>e. jstrs [fst e, snd e]) e1 = map (\<lambda>e. jstrs [fst e, snd e]) e2"
    using assms unfolding conflict_support_payload_def
    by (subst (asm) jobj_inject) (auto simp: jstrs_inject)
  moreover have "f = g" if "map footprint_json f = map footprint_json g"
    using that by (rule map_inject) (simp add: footprint_json_inject)
  moreover have "e1 = e2" if "map (\<lambda>e. jstrs [fst e, snd e]) e1 = map (\<lambda>e. jstrs [fst e, snd e]) e2"
    using that by (rule map_inject) (simp add: jstrs_inject prod_eq_iff)
  ultimately show ?thesis by blast
qed

lemma same_commit_id:
  assumes a: "integrity (self_consistency dg rp a)" "parse_receipt a = Inr r"
    and b: "integrity (self_consistency dg rp b)" "parse_receipt b = Inr s"
  shows "sealed_receipt dg r" "sealed_receipt dg s"
  using assms by (metis integrityD sum.inject(2))+

lemma parsed_ledgers: "parse_receipt raw = Inr r \<Longrightarrow>
    \<exists>x y. ledger_from_artifact x = Inr (r_mismatch_before r) \<and> ledger_from_artifact y = Inr (r_mismatch_after r)"
  unfolding parse_receipt_def by (elim rbind_eq_InrE) auto

lemma parse_receipt_ledgers:
  "parse_receipt raw = Inr r \<Longrightarrow> pred_option wf_ledger (r_mismatch_before r) \<and> pred_option wf_ledger (r_mismatch_after r)"
proof -
  assume p: "parse_receipt raw = Inr r"
  have w: "pred_option wf_ledger v" if "ledger_from_artifact x = Inr v" for x v
    using ledger_from_artifact_wf that by (cases v) auto
  show ?thesis using parsed_ledgers [OF p] w by blast
qed

section \<open>A small envelope\<close>

fun wide_dg :: "json \<Rightarrow> string" where
  "wide_dg (JInt i) = (if i = 0 then replicate 64 CHR ''0'' else replicate 64 CHR ''1'')"
| "wide_dg _ = replicate 64 CHR ''a''"

definition demo_expression :: "(string \<times> pyval) list \<Rightarrow> pyval" where
  "demo_expression ts = pdict [(''terms'', PList (map (\<lambda>(r, c). pdict [(''register'', pstr r), (''coefficient'', c)]) ts)),
     (''constant'', pint 0), (''transform'', pstr ''absolute'')]"

definition demo_evaluator :: pyval where
  "demo_evaluator = pdict [(''kind'', pstr ''exact_affine_ledger_v1''),
     (''components'', pdict [(''record'', demo_expression []), (''sector'', demo_expression []),
        (''holonomy'', demo_expression []), (''overlap'', demo_expression [(''a'', pint 1)]),
        (''local_constraint'', demo_expression [])]),
     (''physical_auxiliary'', pdict [])]"

definition demo_spec :: "string \<Rightarrow> pyval" where
  "demo_spec kind = pdict [(''proposal_id'', pstr ''p''), (''transition_kind'', pstr kind),
     (''proposal_class'', pstr ''EXACT_SPLICE''),
     (''collar'', pdict (map (\<lambda>f. (f, if f = ''collar_id'' then pstr ''c''
        else if f = ''visible_read_set'' \<or> f = ''writable_registers'' then pstrs [''a''] else pstrs [])) collar_fields)),
     (''declared_read_set'', pstrs [''a'']),
     (''recovery'', pdict [(''kind'', pstr ''literal_updates_v1''), (''updates'', pdict [(''a'', pint 0)])]),
     (''inverse_updates'', pdict []), (''source_parameters'', pdict []), (''parent_event_ids'', pstrs [])]"

definition demo_envelope :: "string \<Rightarrow> pyval res" where
  "demo_envelope kind = build_envelope wide_dg (pdict [(''a'', pint 1)]) (pdict [(''a'', pint 0)]) demo_evaluator
     (PList [demo_spec kind])"

lemma wide_dg_hex: "hex_digest wide_dg"
proof -
  have "hex_text (wide_dg j)" for j
    by (cases j) (simp_all add: hex_text_def list_all_length)
  then show ?thesis by (simp add: hex_digest_def)
qed

lemma demo_outcome:
  "(case instantiate_replay wide_dg (pdict [(''a'', pint 1)]) (pdict [(''a'', pint 0)]) demo_evaluator
     (PList [demo_spec ''STRICT_REPAIR'']) of Inl _ \<Rightarrow> False | Inr out \<Rightarrow>
       physical_repair_receipt wide_dg (o_receipt out) \<and> o_state out = pdict [(''a'', pint 0)] \<and>
       plain_json (o_versions out) = Inr ())"
  by code_simp

lemma demo_outcomeE:
  obtains out where "instantiate_replay wide_dg (pdict [(''a'', pint 1)]) (pdict [(''a'', pint 0)]) demo_evaluator
      (PList [demo_spec ''STRICT_REPAIR'']) = Inr out"
    "physical_repair_receipt wide_dg (o_receipt out)" "o_state out = pdict [(''a'', pint 0)]"
    "plain_json (o_versions out) = Inr ()"
  using demo_outcome by (auto split: sum.splits)

lemma demo_envelope_plain:
  assumes "instantiate_replay wide_dg (pdict [(''a'', pint 1)]) (pdict [(''a'', pint 0)]) demo_evaluator
      (PList [demo_spec ''STRICT_REPAIR'']) = Inr out" "physical_repair_receipt wide_dg (o_receipt out)"
    "plain_json (o_versions out) = Inr ()" "plain_json (o_state c) = Inr ()"
    "o_receipt c = o_receipt out" "o_versions c = o_versions out"
  shows "plain_json (pdict (envelope_fields wide_dg (pdict [(''a'', pint 1)]) (pdict [(''a'', pint 0)]) demo_evaluator
      (PList [demo_spec ''STRICT_REPAIR'']) c)) = Inr ()"
proof -
  have inputs: "plain_json (pdict [(''a'', pint 1)]) = Inr ()" "plain_json (pdict [(''a'', pint 0)]) = Inr ()"
    "plain_json demo_evaluator = Inr ()" "plain_json (PList [demo_spec ''STRICT_REPAIR'']) = Inr ()"
    by code_simp+
  have "readable_receipt wide_dg (o_receipt out)" by (rule instantiate_readable [OF assms(1) wide_dg_hex])
  then have "wf_receipt (o_receipt out)"
    using assms(2) by (simp add: readable_receipt_def physical_repair_receipt_def)
  then have r: "plain_json (receipt_dict wide_dg (o_receipt c)) = Inr ()"
    unfolding assms(5) by (simp add: wf_receipt_def receipt_plain)
  have v: "plain_json (o_versions c) = Inr ()" unfolding assms(6) by (rule assms(3))
  show ?thesis unfolding envelope_fields_def
    by (rule pdict_plain) (use inputs r v assms(4) in \<open>auto simp: pstrs_plain\<close>)
qed

lemma demo_built: "case demo_envelope ''STRICT_REPAIR'' of Inl _ \<Rightarrow> False | Inr _ \<Rightarrow> True"
proof -
  obtain out where i: "instantiate_replay wide_dg (pdict [(''a'', pint 1)]) (pdict [(''a'', pint 0)]) demo_evaluator
      (PList [demo_spec ''STRICT_REPAIR'']) = Inr out" "physical_repair_receipt wide_dg (o_receipt out)"
      "o_state out = pdict [(''a'', pint 0)]" "plain_json (o_versions out) = Inr ()"
    by (rule demo_outcomeE)
  have "plain_json (o_state out) = Inr ()" unfolding i(3) by code_simp
  from demo_envelope_plain [OF i(1,2,4) this refl refl] show ?thesis
    by (simp add: demo_envelope_def build_envelope_def i(1))
qed

text \<open>Two values have the same canonical tree, up to Python's equality of numbers.\<close>

definition same_tree :: "(json \<Rightarrow> string) \<Rightarrow> pyval \<Rightarrow> pyval \<Rightarrow> bool" where
  "same_tree rp a b \<longleftrightarrow> (\<exists>j k. canonical_raw rp a = Inr j \<and> canonical_raw rp b = Inr k \<and> json_eq j k)"

lemma compared_Nil: "compared rp a b (c # t) rest = [] \<longleftrightarrow> same_tree rp a b \<and> rest = []"
  by (auto simp: compared_def same_tree_def failed_def rbind_eq_Inr split: sum.splits prod.splits)

section \<open>Properties\<close>

text \<open>Reading a ledger from its own text gives the ledger back, and whatever text a ledger is read
  from, the ledger is one the constructor accepts and its text equals the text that was read.\<close>

theorem ledger_text_round_trip:
  "(wf_ledger L \<longrightarrow> ledger_from_artifact (ledger_dict L) = Inr (Some L)) \<and>
   (ledger_from_artifact v = Inr (Some M) \<longrightarrow> wf_ledger M \<and> py_eq (ledger_dict M) v)"
  using ledger_round_trip ledger_from_artifact_wf by blast

theorem ledger_text_round_trip_witness:
  "ledger_from_artifact (ledger_dict \<lparr>overlap = 1 / 2, local_constraint = 0, sector = 0, record_mismatch = 0,
     holonomy = 3, physical_auxiliary = [(''x'', 2)]\<rparr>) = Inr (Some \<lparr>overlap = 1 / 2, local_constraint = 0,
     sector = 0, record_mismatch = 0, holonomy = 3, physical_auxiliary = [(''x'', 2)]\<rparr>)"
  by (rule ledger_text_round_trip [THEN conjunct1, rule_format]) (simp add: wf_ledger_def auxiliary_names_def)

text \<open>C16: every receipt that a batch of well-named proposals returns from a well-formed engine with a
  lawful evaluator is accepted by the receipt diagnostic, which reports the receipt's own commit
  identifier and repair verdict; the one exception is a (rejected) proposal of kind \<open>ROLLBACK\<close>,
  whose receipt is refused.\<close>

theorem batch_receipts_verify:
  assumes "wf_engine e" "lawful_evaluator e" "hex_digest dg" "list_all clean_proposal ps"
    and "commit_batch dg e ps = (Inr rs, e')" "r \<in> set rs"
  shows "integrity (self_consistency dg rp (receipt_dict dg r)) = (r_transition_kind r \<noteq> ROLLBACK) \<and>
    (r_transition_kind r \<noteq> ROLLBACK \<longrightarrow>
      report_commit_id (self_consistency dg rp (receipt_dict dg r)) = Some (r_commit_id r) \<and>
      transactional_receipt (self_consistency dg rp (receipt_dict dg r)) = physical_repair_receipt dg r)"
proof -
  have "named_engine e" using assms(1) by (simp add: wf_engine_def named_engine_def)
  then have r: "readable_receipt dg r" using commit_batch_receipts assms by blast
  show ?thesis
  proof (cases "r_transition_kind r = ROLLBACK")
    case True
    then show ?thesis using r unreadable_rollback by (simp add: readable_receipt_def)
  next
    case False
    then have "wf_receipt r" "sealed_receipt dg r" using r by (auto simp: readable_receipt_def)
    from self_consistency_sealed [OF this] False show ?thesis by simp
  qed
qed

theorem batch_receipts_verify_witness:
  "\<exists>e ps r e'. commit_batch wide_dg e ps = (Inr [r], e') \<and> physical_repair_receipt wide_dg r \<and>
     integrity (self_consistency wide_dg wide_dg (receipt_dict wide_dg r))"
proof -
  obtain out where out: "instantiate_replay wide_dg (pdict [(''a'', pint 1)]) (pdict [(''a'', pint 0)]) demo_evaluator
      (PList [demo_spec ''STRICT_REPAIR'']) = Inr out" "physical_repair_receipt wide_dg (o_receipt out)"
    by (rule demo_outcomeE)
  obtain e ps e' where i: "replay_engine wide_dg (pdict [(''a'', pint 1)]) (pdict [(''a'', pint 0)]) demo_evaluator = Inr e"
    "replay_proposals wide_dg e (PList [demo_spec ''STRICT_REPAIR'']) = Inr ps"
    "commit_batch wide_dg e ps = (Inr [o_receipt out], e')"
    using instantiateE [OF out(1)] by metis
  note e = replay_engine_ok [OF i(1)]
  have "list_all clean_proposal ps" using replay_proposals_clean [OF i(2)] e by blast
  then have "integrity (self_consistency wide_dg wide_dg (receipt_dict wide_dg (o_receipt out)))"
    using batch_receipts_verify [OF _ _ wide_dg_hex _ i(3)] e out(2) by (auto simp: physical_repair_receipt_def)
  then show ?thesis using i(3) out(2) by blast
qed

text \<open>C15: an envelope that was built is accepted by the verifier, which recomputes the same receipt,
  state and versions; it reports a transactional repair exactly when the replayed receipt is a
  physical repair.  Only the envelope of a \<open>ROLLBACK\<close> proposal is built and then refused.\<close>

theorem replay_envelope_round_trip:
  assumes "hex_digest dg" "build_envelope dg st vs spec specs = Inr env"
  shows "\<exists>out. instantiate_replay dg st vs spec specs = Inr out \<and>
    replay_integrity (verify_envelope dg rp env) = (r_transition_kind (o_receipt out) \<noteq> ROLLBACK) \<and>
    replay_transactional (verify_envelope dg rp env) = physical_repair_receipt dg (o_receipt out) \<and>
    replay_receipt (verify_envelope dg rp env) = Some (receipt_dict dg (o_receipt out)) \<and>
    replay_post_state (verify_envelope dg rp env) = Some (o_state out) \<and>
    replay_versions_after (verify_envelope dg rp env) = Some (o_versions out)"
proof -
  obtain out where i: "instantiate_replay dg st vs spec specs = Inr out" using build_envelopeE [OF assms(2)] .
  note h = built_header [OF assms(2) i]
  have r: "readable_receipt dg (o_receipt out)" by (rule instantiate_readable [OF i assms(1)])
  have "integrity (self_consistency dg rp (receipt_dict dg (o_receipt out))) = (r_transition_kind (o_receipt out) \<noteq> ROLLBACK)"
    using r unreadable_rollback self_consistency_sealed by (auto simp: readable_receipt_def)
  then have c: "compare_outputs dg rp (raw_items env) out = [] \<longleftrightarrow> r_transition_kind (o_receipt out) \<noteq> ROLLBACK"
    unfolding built_compare [OF assms(2) i] .
  have "physical_repair_receipt dg (o_receipt out) \<longrightarrow> r_transition_kind (o_receipt out) \<noteq> ROLLBACK"
    by (simp add: physical_repair_receipt_def)
  then show ?thesis using i c by (intro exI [of _ out]) (simp add: verify_envelope_def h(1) Let_def, blast)
qed

theorem replay_envelope_round_trip_witness:
  "\<exists>env. demo_envelope ''STRICT_REPAIR'' = Inr env \<and> replay_transactional (verify_envelope wide_dg wide_dg env)"
proof -
  obtain env where env: "demo_envelope ''STRICT_REPAIR'' = Inr env"
    using demo_built by (auto split: sum.splits)
  obtain out where "instantiate_replay wide_dg (pdict [(''a'', pint 1)]) (pdict [(''a'', pint 0)]) demo_evaluator
      (PList [demo_spec ''STRICT_REPAIR'']) = Inr out" "physical_repair_receipt wide_dg (o_receipt out)"
    by (rule demo_outcomeE)
  then show ?thesis
    using replay_envelope_round_trip [OF wide_dg_hex env [unfolded demo_envelope_def], of wide_dg] env by auto
qed

text \<open>C13: an accepted envelope describes a run of the engine: the engine and the proposals can be
  rebuilt from its data, the batch returns exactly one receipt, and the claimed receipt, state and
  versions equal the engine's as canonical trees under the equality of the verifier, Python's
  \<open>==\<close>, which identifies \<open>False\<close> with 0 and \<open>True\<close> with 1.  When the verifier reports a transactional
  repair, that receipt is a committed strict repair whose recorded ledger strictly descends.\<close>

theorem replay_verification_sound:
  assumes "replay_integrity (verify_envelope dg rp env)"
  shows "\<exists>kvs e ps r e' post. as_items env = Inr kvs \<and>
    replay_engine dg (get kvs ''initial_state'') (get kvs ''initial_versions'') (get kvs ''mismatch_evaluator'') = Inr e \<and>
    replay_proposals dg e (get kvs ''proposals'') = Inr ps \<and> commit_batch dg e ps = (Inr [r], e') \<and>
    thaw (FzMap (items_of (state e'))) = Inr post \<and>
    same_tree rp (get kvs ''expected_receipt'') (receipt_dict dg r) \<and>
    same_tree rp (get kvs ''expected_post_state'') post \<and>
    same_tree rp (get kvs ''expected_versions_after'') (versions_value (versions e')) \<and>
    integrity (self_consistency dg rp (get kvs ''expected_receipt'')) \<and>
    (replay_transactional (verify_envelope dg rp env) \<longrightarrow> r_committed r \<and> all_checks_passed r \<and>
      r_transition_kind r = STRICT_REPAIR \<and> (\<exists>b a. r_mismatch_before r = Some b \<and> r_mismatch_after r = Some a \<and>
        strict_repair_descends_from a b))"
proof -
  obtain out where o: "replay_outcome_of dg env = Inr out" using assms
    by (cases "replay_outcome_of dg env") (auto simp: verify_envelope_def Let_def)
  obtain kvs where h: "envelope_header env = Inr kvs"
    and i: "instantiate_replay dg (get kvs ''initial_state'') (get kvs ''initial_versions'')
       (get kvs ''mismatch_evaluator'') (get kvs ''proposals'') = Inr out"
    using o by (auto simp: replay_outcome_of_def elim!: rbind_eq_InrE)
  have k: "as_items env = Inr kvs"
    using h by (auto simp: envelope_header_def require_fields_def split: if_splits elim!: rbind_eq_InrE)
  then have kvs: "raw_items env = kvs" by (cases env) (auto simp: as_items_def raw_items_def)
  have c: "compare_outputs dg rp kvs out = []" using assms by (simp add: verify_envelope_def o Let_def kvs)
  have d: "integrity (self_consistency dg rp (get kvs ''expected_receipt''))"
    "same_tree rp (get kvs ''expected_receipt'') (receipt_dict dg (o_receipt out))"
    "same_tree rp (get kvs ''expected_post_state'') (o_state out)"
    "same_tree rp (get kvs ''expected_versions_after'') (o_versions out)"
    using c unfolding compare_outputs_def
    by (auto simp: Let_def compared_Nil integrity_iff split: sum.splits if_splits)
  obtain e ps e' where e: "replay_engine dg (get kvs ''initial_state'') (get kvs ''initial_versions'')
      (get kvs ''mismatch_evaluator'') = Inr e" "replay_proposals dg e (get kvs ''proposals'') = Inr ps"
    "commit_batch dg e ps = (Inr [o_receipt out], e')" "thaw (FzMap (items_of (state e'))) = Inr (o_state out)"
    "o_versions out = versions_value (versions e')"
    by (rule instantiateE [OF i])
  have t: "replay_transactional (verify_envelope dg rp env) \<longrightarrow> physical_repair_receipt dg (o_receipt out)"
    by (simp add: verify_envelope_def o Let_def)
  have p: "physical_repair_receipt dg (o_receipt out) \<Longrightarrow> r_committed (o_receipt out) \<and> all_checks_passed (o_receipt out) \<and>
      r_transition_kind (o_receipt out) = STRICT_REPAIR \<and> (\<exists>b a. r_mismatch_before (o_receipt out) = Some b \<and>
      r_mismatch_after (o_receipt out) = Some a \<and> strict_repair_descends_from a b)"
    by (auto simp: physical_repair_receipt_def atomic_union_revalidation_receipt_def Let_def split: option.splits)
  show ?thesis using k e d t p by (intro exI conjI) (assumption | simp)+
qed

lemma demo_accepted:
  obtains env where "demo_envelope ''STRICT_REPAIR'' = Inr env" "replay_integrity (verify_envelope wide_dg wide_dg env)"
    "replay_transactional (verify_envelope wide_dg wide_dg env)"
proof -
  obtain out where i: "instantiate_replay wide_dg (pdict [(''a'', pint 1)]) (pdict [(''a'', pint 0)]) demo_evaluator
      (PList [demo_spec ''STRICT_REPAIR'']) = Inr out" "physical_repair_receipt wide_dg (o_receipt out)"
    by (rule demo_outcomeE)
  obtain env where env: "demo_envelope ''STRICT_REPAIR'' = Inr env"
    using demo_built by (auto split: sum.splits)
  note h = built_header [OF env [unfolded demo_envelope_def] i(1)]
  have "readable_receipt wide_dg (o_receipt out)" by (rule instantiate_readable [OF i(1) wide_dg_hex])
  then have "integrity (self_consistency wide_dg wide_dg (receipt_dict wide_dg (o_receipt out)))"
    using i(2) self_consistency_sealed by (auto simp: readable_receipt_def physical_repair_receipt_def)
  then have "compare_outputs wide_dg wide_dg (raw_items env) out = []"
    unfolding built_compare [OF env [unfolded demo_envelope_def] i(1)] .
  then show thesis using that [OF env] i(2) by (simp add: verify_envelope_def h(1) Let_def)
qed

theorem replay_verification_sound_witness:
  "\<exists>e ps r e' b a. commit_batch wide_dg e ps = (Inr [r], e') \<and> r_committed r \<and>
     r_mismatch_before r = Some b \<and> r_mismatch_after r = Some a \<and> strict_repair_descends_from a b"
proof -
  obtain env where "replay_integrity (verify_envelope wide_dg wide_dg env)"
    "replay_transactional (verify_envelope wide_dg wide_dg env)" by (rule demo_accepted)
  from replay_verification_sound [OF this(1)] this(2) show ?thesis by blast
qed

text \<open>C14: two accepted receipts with the same commit identifier and a supported conflict component
  are the same receipt, unless their commit payloads or their support payloads are different trees
  with the same digest.\<close>

theorem commit_id_binds_receipt:
  assumes "integrity (self_consistency dg rp a)" "integrity (self_consistency dg rp b)"
    and "support_receipt (self_consistency dg rp a)" "support_receipt (self_consistency dg rp b)"
    and "report_commit_id (self_consistency dg rp a) = report_commit_id (self_consistency dg rp b)"
  shows "\<exists>r s. parse_receipt a = Inr r \<and> parse_receipt b = Inr s \<and>
    (r = s \<or> commit_seed r \<noteq> commit_seed s \<and> dg (commit_seed r) = dg (commit_seed s) \<or>
     (let p = conflict_support_payload (r_proposal_footprints r) (r_score_observed_reads r)
            (r_score_snapshot_reads r) (r_conflict_edges r);
          q = conflict_support_payload (r_proposal_footprints s) (r_score_observed_reads s)
            (r_score_snapshot_reads s) (r_conflict_edges s)
      in p \<noteq> q \<and> dg p = dg q))"
proof -
  obtain r where r: "parse_receipt a = Inr r" "sealed_receipt dg r" "conflict_component_support_receipt dg r"
    "report_commit_id (self_consistency dg rp a) = Some (r_commit_id r)"
    using integrityD [OF assms(1)] assms(3) by metis
  obtain s where s: "parse_receipt b = Inr s" "sealed_receipt dg s" "conflict_component_support_receipt dg s"
    "report_commit_id (self_consistency dg rp b) = Some (r_commit_id s)"
    using integrityD [OF assms(2)] assms(4) by metis
  have id: "r_commit_id r = r_commit_id s" using assms(5) r(4) s(4) by simp
  then have seed: "dg (commit_seed r) = dg (commit_seed s)" using r(2) s(2) by (simp add: sealed_receipt_def)
  note l = parse_receipt_ledgers [OF r(1)] parse_receipt_ledgers [OF s(1)]
  let ?p = "\<lambda>x. conflict_support_payload (r_proposal_footprints x) (r_score_observed_reads x)
     (r_score_snapshot_reads x) (r_conflict_edges x)"
  have h: "r_conflict_support_hash r = dg (?p r)" "r_conflict_support_hash s = dg (?p s)"
    using r(3) s(3) by (auto simp: conflict_component_support_receipt_def Let_def)
  have "r = s" if c: "commit_seed r = commit_seed s" and p: "?p r = ?p s"
  proof -
    note f = commit_seed_binds [OF c] l
    have "r_rollback_root r = r_rollback_root s" using r(2) s(2) f by (simp add: sealed_receipt_def)
    then show ?thesis using f payload_binds [OF p] id by (intro repair_receipt.equality) simp_all
  qed
  then show ?thesis using r(1) s(1) seed h commit_seed_binds(11) [of r s] l by (metis (no_types, lifting))
qed

theorem commit_id_binds_receipt_witness:
  "\<exists>a r. integrity (self_consistency wide_dg wide_dg a) \<and> parse_receipt a = Inr r"
proof -
  obtain out where out: "instantiate_replay wide_dg (pdict [(''a'', pint 1)]) (pdict [(''a'', pint 0)]) demo_evaluator
      (PList [demo_spec ''STRICT_REPAIR'']) = Inr out" "physical_repair_receipt wide_dg (o_receipt out)"
    by (rule demo_outcomeE)
  let ?a = "receipt_dict wide_dg (o_receipt out)"
  have "readable_receipt wide_dg (o_receipt out)" by (rule instantiate_readable [OF out(1) wide_dg_hex])
  then have ok: "integrity (self_consistency wide_dg wide_dg ?a)"
    and w: "wf_receipt (o_receipt out)"
    using out(2) self_consistency_sealed by (auto simp: readable_receipt_def physical_repair_receipt_def)
  have "support_receipt (self_consistency wide_dg wide_dg ?a)"
    by (rule integrityD [OF ok])
      (use out(2) parse_receipt_dict [OF w] in \<open>auto simp: physical_repair_receipt_def atomic_union_revalidation_receipt_def\<close>)
  from commit_id_binds_receipt [OF ok ok this this] ok show ?thesis by blast
qed

text \<open>The comparison of the outputs uses Python's equality, which identifies booleans with
  integers: an envelope that claims the post-state \<open>False\<close> is accepted although the replay
  writes the integer 0.\<close>

theorem replay_accepts_bool_state:
  "\<exists>env. replay_integrity (verify_envelope wide_dg wide_dg env) \<and>
     get (raw_items env) ''expected_post_state'' = pdict [(''a'', pbool False)] \<and>
     replay_post_state (verify_envelope wide_dg wide_dg env) = Some (pdict [(''a'', pint 0)])"
proof -
  obtain out where out: "instantiate_replay wide_dg (pdict [(''a'', pint 1)]) (pdict [(''a'', pint 0)]) demo_evaluator
      (PList [demo_spec ''STRICT_REPAIR'']) = Inr out" "physical_repair_receipt wide_dg (o_receipt out)"
      "o_state out = pdict [(''a'', pint 0)]" "plain_json (o_versions out) = Inr ()"
    by (rule demo_outcomeE)
  let ?fields = "envelope_fields wide_dg (pdict [(''a'', pint 1)]) (pdict [(''a'', pint 0)]) demo_evaluator
      (PList [demo_spec ''STRICT_REPAIR''])"
  let ?claim = "out\<lparr>o_state := pdict [(''a'', pbool False)]\<rparr>"
  let ?env = "pdict (?fields ?claim)"
  obtain env where env: "demo_envelope ''STRICT_REPAIR'' = Inr env"
    using demo_built by (auto split: sum.splits)
  then have p: "plain_json (pdict (?fields out)) = Inr ()"
    using build_envelopeE [OF env [unfolded demo_envelope_def]] out(1) by (metis sum.inject(2))
  have "plain_json (pdict [(''a'', pbool False)]) = Inr ()" by code_simp
  then have "plain_json (o_state ?claim) = Inr ()" by simp
  from demo_envelope_plain [OF out(1,2,4) this] have "plain_json ?env = Inr ()" by simp
  note h = claimed_header [OF this out(1)]
  have "readable_receipt wide_dg (o_receipt out)" by (rule instantiate_readable [OF out(1) wide_dg_hex])
  then have ok: "integrity (self_consistency wide_dg wide_dg (receipt_dict wide_dg (o_receipt out)))"
    using out(2) self_consistency_sealed by (auto simp: readable_receipt_def physical_repair_receipt_def)
  have pr: "plain_json (receipt_dict wide_dg (o_receipt out)) = Inr ()" "plain_json (o_versions out) = Inr ()"
    by (rule plain_dict_value [OF p, of "''expected_receipt''"], simp add: envelope_fields_def,
        rule plain_dict_value [OF p, of "''expected_versions_after''"], simp add: envelope_fields_def)
  obtain v where v: "as_items (o_versions out) = Inr v"
    using instantiateE [OF out(1)] by (metis versions_value_def as_items_pdict)
  have "compared wide_dg (pdict [(''a'', pbool False)]) (pdict [(''a'', pint 0)]) t rest = rest" for t rest
    by (simp add: compared_def pdict_def ditems_def str_key_def canonical_leaf_def jobj_def failed_def json_num_def)
  then have "compare_outputs wide_dg wide_dg (raw_items ?env) out = []"
    unfolding compare_outputs_def h(2) envelope_get
    by (simp add: receipt_dict_def [of _ "o_receipt out"] v ok [unfolded receipt_dict_def]
        compared_self [OF pr(1) [unfolded receipt_dict_def]] compared_self [OF pr(2)] out(3) Let_def)
  then have "replay_integrity (verify_envelope wide_dg wide_dg ?env) \<and>
      replay_post_state (verify_envelope wide_dg wide_dg ?env) = Some (pdict [(''a'', pint 0)])"
    by (simp add: verify_envelope_def h(1) Let_def out(3))
  moreover have "get (raw_items ?env) ''expected_post_state'' = pdict [(''a'', pbool False)]"
    unfolding h(2) envelope_get by simp
  ultimately show ?thesis by blast
qed

end
