(* ===== verification/Cycle_Holonomy.thy ===== *)
theory Cycle_Holonomy
  imports Register_Values
begin

text \<open>
  The cycle audit of \<open>oph_fpe/quotient/obstruction.py\<close>
  (\<open>audit_abelian_cycle_holonomy\<close>, \<open>_tree_path_terms\<close>, \<open>_exact_fraction\<close>,
  \<open>_distinct_hashable_sequence\<close>): a spanning forest is built by union-find with path
  compression, every other edge closes one cycle whose value is summed along the forest path.
  Vertices are values of any type compared by equality; a loop of the source that might not end
  yields an option.  The theory proves the union-find structure correct, states its contract as
  the locale \<open>disjoint_sets\<close>, and proves the path search complete.
\<close>

section \<open>Exact inputs\<close>

text \<open>\<open>_exact_fraction\<close>: an integer or a fraction, never a float or a boolean.\<close>

definition exact_fraction :: "pyval \<Rightarrow> rat res" where
  "exact_fraction v = (case v of
     PLeaf l \<Rightarrow> (case l of LInt i \<Rightarrow> Inr (of_int i) | LFrac q \<Rightarrow> Inr q | _ \<Rightarrow> Inl TypeError)
   | _ \<Rightarrow> Inl TypeError)"

text \<open>\<open>_distinct_hashable_sequence\<close>\<close>

definition distinct_sequence :: "'a list \<Rightarrow> 'a list res" where
  "distinct_sequence xs = (if distinct xs then Inr xs else Inl ValueError)"

lemma distinct_sequence_Inr [simp]: "distinct_sequence xs = Inr ys \<longleftrightarrow> distinct xs \<and> ys = xs"
  by (auto simp: distinct_sequence_def)

section \<open>Graphs with abelian edge values\<close>

record 'v abelian_edge =
  edge_id :: string
  source :: 'v
  target :: 'v
  edge_value :: pyval

record fundamental_cycle =
  chord_edge_id :: string
  oriented_terms :: "(string \<times> int) list"
  raw_holonomy :: rat
  cycle_value :: rat
  obstructed :: bool

record holonomy_audit =
  vertex_count :: nat
  edge_count :: nat
  component_count :: nat
  tree_edge_ids :: "string list"
  cycles :: "fundamental_cycle list"
  audit_modulus :: "rat option"
  global_extension :: bool

text \<open>The checks of the edges, in order; the values are read exactly.\<close>

fun read_edges :: "'v list \<Rightarrow> string set \<Rightarrow> 'v abelian_edge list \<Rightarrow> rat list res" where
  "read_edges vs seen [] = Inr []"
| "read_edges vs seen (e # es) =
     (if edge_id e = [] then Inl ValueError
      else if edge_id e \<in> seen then Inl ValueError
      else if source e \<notin> set vs \<or> target e \<notin> set vs then Inl ValueError
      else rbind (exact_fraction (edge_value e)) (\<lambda>q.
           rbind (read_edges vs (insert (edge_id e) seen) es) (\<lambda>qs. Inr (q # qs))))"

definition read_modulus :: "pyval option \<Rightarrow> rat option res" where
  "read_modulus m = (case m of None \<Rightarrow> Inr None
   | Some v \<Rightarrow> rbind (exact_fraction v) (\<lambda>q. if q \<le> 0 then Inl ValueError else Inr (Some q)))"

section \<open>Union-find with path compression and ranks\<close>

record 'v union_find =
  uf_parent :: "'v \<Rightarrow> 'v"
  uf_rank :: "'v \<Rightarrow> nat"

text \<open>The loops of \<open>find\<close>; a value \<open>None\<close> means that the loop does not end.\<close>

partial_function (option) find_root :: "('v \<Rightarrow> 'v) \<Rightarrow> 'v \<Rightarrow> 'v option" where
  "find_root par v = (if par v = v then Some v else find_root par (par v))"

partial_function (option) compress :: "('v \<Rightarrow> 'v) \<Rightarrow> 'v \<Rightarrow> 'v \<Rightarrow> ('v \<Rightarrow> 'v) option" where
  "compress par root v = (if par v = v then Some par else compress (par(v := root)) root (par v))"

definition uf_find :: "'v union_find \<Rightarrow> 'v \<Rightarrow> ('v \<times> 'v union_find) option" where
  "uf_find u v = Option.bind (find_root (uf_parent u) v) (\<lambda>root.
     Option.bind (compress (uf_parent u) root v) (\<lambda>par. Some (root, u\<lparr>uf_parent := par\<rparr>)))"

definition link_roots :: "'v union_find \<Rightarrow> 'v \<Rightarrow> 'v \<Rightarrow> 'v union_find" where
  "link_roots u l r =
     (let (l, r) = (if uf_rank u l < uf_rank u r then (r, l) else (l, r));
          par = (uf_parent u)(r := l)
      in if uf_rank u l = uf_rank u r then \<lparr>uf_parent = par, uf_rank = (uf_rank u)(l := uf_rank u l + 1)\<rparr>
         else \<lparr>uf_parent = par, uf_rank = uf_rank u\<rparr>)"

definition uf_union :: "'v union_find \<Rightarrow> 'v \<Rightarrow> 'v \<Rightarrow> (bool \<times> 'v union_find) option" where
  "uf_union u l r = Option.bind (uf_find u l) (\<lambda>(lroot, u1). Option.bind (uf_find u1 r) (\<lambda>(rroot, u2).
     Some (if lroot = rroot then (False, u2) else (True, link_roots u2 lroot rroot))))"

definition uf_start :: "'v union_find" where
  "uf_start = \<lparr>uf_parent = (\<lambda>v. v), uf_rank = (\<lambda>v. 0)\<rparr>"

section \<open>The spanning forest\<close>

type_synonym 'v adjacency = "('v \<times> ('v \<times> nat \<times> int) list) list"

definition row_of :: "'v adjacency \<Rightarrow> 'v \<Rightarrow> ('v \<times> nat \<times> int) list" where
  "row_of adj v = (case map_of adj v of None \<Rightarrow> [] | Some row \<Rightarrow> row)"

definition add_to_row :: "'v \<Rightarrow> 'v \<times> nat \<times> int \<Rightarrow> 'v adjacency \<Rightarrow> 'v adjacency" where
  "add_to_row v x adj = map (\<lambda>(w, row). (w, if w = v then row @ [x] else row)) adj"

record 'v forest =
  f_sets :: "'v union_find"
  f_adjacency :: "'v adjacency"
  f_tree :: "nat list"
  f_chords :: "nat list"

definition place_edge :: "'v forest \<Rightarrow> nat \<times> 'v abelian_edge \<Rightarrow> 'v forest option" where
  "place_edge f ie = (case ie of (i, e) \<Rightarrow>
     Option.bind (uf_union (f_sets f) (source e) (target e)) (\<lambda>(joined, u).
     Some (if joined
       then f\<lparr>f_sets := u, f_tree := f_tree f @ [i],
              f_adjacency := add_to_row (target e) (source e, i, - 1)
                (add_to_row (source e) (target e, i, 1) (f_adjacency f))\<rparr>
       else f\<lparr>f_sets := u, f_chords := f_chords f @ [i]\<rparr>)))"

fun place_edges :: "'v forest \<Rightarrow> (nat \<times> 'v abelian_edge) list \<Rightarrow> 'v forest option" where
  "place_edges f [] = Some f"
| "place_edges f (ie # ies) = Option.bind (place_edge f ie) (\<lambda>g. place_edges g ies)"

definition start_forest :: "'v list \<Rightarrow> 'v forest" where
  "start_forest vs = \<lparr>f_sets = uf_start, f_adjacency = map (\<lambda>v. (v, [])) vs, f_tree = [], f_chords = []\<rparr>"

fun find_all :: "'v union_find \<Rightarrow> 'v list \<Rightarrow> 'v list option" where
  "find_all u [] = Some []"
| "find_all u (v # vs) = Option.bind (uf_find u v) (\<lambda>(root, u1).
     Option.bind (find_all u1 vs) (\<lambda>roots. Some (root # roots)))"

section \<open>The path of a chord in the forest\<close>

type_synonym 'v pred = "('v \<times> ('v \<times> nat \<times> int) option) list"

fun scan_row :: "'v \<Rightarrow> 'v \<Rightarrow> ('v \<times> nat \<times> int) list \<Rightarrow> 'v pred \<Rightarrow> 'v list \<Rightarrow> 'v pred \<times> 'v list" where
  "scan_row goal cur [] pred queue = (pred, queue)"
| "scan_row goal cur ((w, i, s) # rest) pred queue =
     (if w \<in> fst ` set pred then scan_row goal cur rest pred queue
      else let pred' = pred @ [(w, Some (cur, i, s))] in
        if w = goal then (pred', []) else scan_row goal cur rest pred' (queue @ [w]))"

definition neighbors_in :: "'v adjacency \<Rightarrow> 'v set" where
  "neighbors_in adj = fst ` set (concat (map snd adj))"

lemma row_neighbors: "fst ` set (row_of adj v) \<subseteq> neighbors_in adj"
proof (cases "map_of adj v")
  case (Some row)
  then have "(v, row) \<in> set adj" by (rule map_of_SomeD)
  then have "set row \<subseteq> set (concat (map snd adj))" by force
  then show ?thesis unfolding neighbors_in_def row_of_def Some by (simp add: image_mono)
qed (simp add: row_of_def)

lemma scan_row_measure:
  "fst ` set row \<subseteq> U \<Longrightarrow> finite U \<Longrightarrow> scan_row goal cur row pred queue = (pred', queue') \<Longrightarrow>
   2 * card (U - fst ` set pred') + length queue' \<le> 2 * card (U - fst ` set pred) + length queue"
proof (induction goal cur row pred queue rule: scan_row.induct)
  case (2 goal cur w i s rest pred queue)
  have less: "card (U - insert w (fst ` set pred)) < card (U - fst ` set pred)" if "w \<notin> fst ` set pred"
    using 2(3,4) that by (intro psubset_card_mono) auto
  show ?case
  proof (cases "w \<in> fst ` set pred \<or> w = goal")
    case True
    then show ?thesis using 2 less by (auto simp: Let_def split: if_splits)
  next
    case False
    then have "2 * card (U - fst ` set pred') + length queue'
        \<le> 2 * card (U - insert w (fst ` set pred)) + length (queue @ [w])"
      using 2(2) [OF _ refl] 2(3-5) by (simp add: Let_def)
    then show ?thesis using less False by simp
  qed
qed simp

function search_loop :: "'v \<Rightarrow> 'v adjacency \<Rightarrow> 'v list \<Rightarrow> 'v pred \<Rightarrow> 'v pred" where
  "search_loop goal adj [] pred = pred"
| "search_loop goal adj (cur # queue) pred =
     search_loop goal adj (snd (scan_row goal cur (row_of adj cur) pred queue))
       (fst (scan_row goal cur (row_of adj cur) pred queue))"
  by pat_completeness auto
termination
proof (relation "measure (\<lambda>(goal, adj, queue, pred). 2 * card (neighbors_in adj - fst ` set pred) + length queue)",
    goal_cases)
  case (2 goal adj cur queue pred)
  have "finite (neighbors_in adj)" by (simp add: neighbors_in_def)
  moreover obtain p q where eq: "scan_row goal cur (row_of adj cur) pred queue = (p, q)" by fastforce
  ultimately have "2 * card (neighbors_in adj - fst ` set p) + length q
      \<le> 2 * card (neighbors_in adj - fst ` set pred) + length queue"
    by (intro scan_row_measure [OF row_neighbors])
  with eq show ?case by simp
qed simp

partial_function (option) trace_back ::
  "'v pred \<Rightarrow> 'v \<Rightarrow> 'v \<Rightarrow> (nat \<times> int) list \<Rightarrow> (nat \<times> int) list res option" where
  "trace_back pred start cursor acc = (if cursor = start then Some (Inr acc)
     else case map_of pred cursor of
       None \<Rightarrow> Some (Inl KeyError)
     | Some entry \<Rightarrow> (case entry of None \<Rightarrow> Some (Inl RuntimeError)
         | Some hop \<Rightarrow> trace_back pred start (fst hop) (snd hop # acc)))"

definition tree_path_terms :: "'v adjacency \<Rightarrow> 'v \<Rightarrow> 'v \<Rightarrow> (nat \<times> int) list res option" where
  "tree_path_terms adj start goal = (if start = goal then Some (Inr [])
     else let pred = search_loop goal adj [start] [(start, None)] in
       if goal \<notin> fst ` set pred then Some (Inl RuntimeError) else trace_back pred start goal [])"

section \<open>The audit\<close>

definition frac_mod :: "rat \<Rightarrow> rat \<Rightarrow> rat" where
  "frac_mod x m = x - m * of_int \<lfloor>x / m\<rfloor>"

definition cycle_of :: "'v abelian_edge list \<Rightarrow> rat list \<Rightarrow> rat option \<Rightarrow> 'v adjacency \<Rightarrow> nat \<Rightarrow>
    fundamental_cycle res option" where
  "cycle_of es qs modulus adj c = Option.bind (tree_path_terms adj (target (es ! c)) (source (es ! c)))
     (\<lambda>r. Some (rbind r (\<lambda>terms.
       let raw = qs ! c + sum_list (map (\<lambda>(i, s). of_int s * qs ! i) terms);
           h = (case modulus of None \<Rightarrow> raw | Some m \<Rightarrow> frac_mod raw m)
       in Inr \<lparr>chord_edge_id = edge_id (es ! c),
            oriented_terms = (edge_id (es ! c), 1) # map (\<lambda>(i, s). (edge_id (es ! i), s)) terms,
            raw_holonomy = raw, cycle_value = h, obstructed = (h \<noteq> 0)\<rparr>)))"

fun cycles_of :: "'v abelian_edge list \<Rightarrow> rat list \<Rightarrow> rat option \<Rightarrow> 'v adjacency \<Rightarrow> nat list \<Rightarrow>
    fundamental_cycle list res option" where
  "cycles_of es qs modulus adj [] = Some (Inr [])"
| "cycles_of es qs modulus adj (c # cs) = Option.bind (cycle_of es qs modulus adj c) (\<lambda>r. (case r of
     Inl err \<Rightarrow> Some (Inl err)
   | Inr cycle \<Rightarrow> Option.bind (cycles_of es qs modulus adj cs) (\<lambda>rest.
       Some (rbind rest (\<lambda>done. Inr (cycle # done))))))"

definition read_graph :: "'v list \<Rightarrow> 'v abelian_edge list \<Rightarrow> pyval option \<Rightarrow> (rat list \<times> rat option) res" where
  "read_graph vertices es modulus = rbind (distinct_sequence vertices) (\<lambda>vs.
     if vs = [] then Inl ValueError else rbind (read_edges vs {} es) (\<lambda>qs.
     rbind (read_modulus modulus) (\<lambda>m. Inr (qs, m))))"

definition audit_cycle_holonomy ::
  "'v list \<Rightarrow> 'v abelian_edge list \<Rightarrow> pyval option \<Rightarrow> holonomy_audit res option" where
  "audit_cycle_holonomy vertices es modulus = (case read_graph vertices es modulus of
     Inl err \<Rightarrow> Some (Inl err)
   | Inr (qs, m) \<Rightarrow>
       Option.bind (place_edges (start_forest vertices) (enumerate 0 es)) (\<lambda>f.
       Option.bind (cycles_of es qs m (f_adjacency f) (f_chords f)) (\<lambda>r. (case r of
         Inl err \<Rightarrow> Some (Inl err)
       | Inr cs \<Rightarrow> Option.bind (find_all (f_sets f) vertices) (\<lambda>roots.
           Some (Inr \<lparr>vertex_count = length vertices, edge_count = length es,
             component_count = card (set roots), tree_edge_ids = map (\<lambda>i. edge_id (es ! i)) (f_tree f),
             cycles = cs, audit_modulus = m,
             global_extension = list_all (\<lambda>c. \<not> obstructed c) cs\<rparr>))))))"

section \<open>Union-find is correct\<close>

text \<open>Ranks grow towards the roots, so the loops end.\<close>

definition uf_forest :: "'v set \<Rightarrow> ('v \<Rightarrow> 'v) \<Rightarrow> ('v \<Rightarrow> nat) \<Rightarrow> bool" where
  "uf_forest V par rank \<longleftrightarrow>
     (\<forall>v \<in> V. par v \<in> V \<and> (par v \<noteq> v \<longrightarrow> rank v < rank (par v)))"

definition uf_ok :: "'v set \<Rightarrow> 'v union_find \<Rightarrow> bool" where
  "uf_ok V u \<longleftrightarrow> uf_forest V (uf_parent u) (uf_rank u)"

definition uf_same :: "'v union_find \<Rightarrow> 'v \<Rightarrow> 'v \<Rightarrow> bool" where
  "uf_same u v w \<longleftrightarrow> find_root (uf_parent u) v = find_root (uf_parent u) w"

lemma uf_forest_induct [consumes 3, case_names root step]:
  assumes "uf_forest V par rank" "finite V" "v \<in> V"
    and root: "\<And>v. v \<in> V \<Longrightarrow> par v = v \<Longrightarrow> P v"
    and step: "\<And>v. v \<in> V \<Longrightarrow> par v \<noteq> v \<Longrightarrow> par v \<in> V \<Longrightarrow> rank v < rank (par v) \<Longrightarrow> P (par v) \<Longrightarrow> P v"
  shows "P v"
  using assms(3)
proof (induction "Max (rank ` V) - rank v" arbitrary: v rule: less_induct)
  case less
  show ?case
  proof (cases "par v = v")
    case False
    then have p: "par v \<in> V" "rank v < rank (par v)"
      using assms(1) less.prems by (auto simp: uf_forest_def)
    have "rank (par v) \<le> Max (rank ` V)" using p(1) assms(2) by simp
    then show ?thesis using step [OF less.prems False p] less.hyps p by simp
  qed (use root less.prems in blast)
qed

lemma find_root_fixed: "par v = v \<Longrightarrow> find_root par v = Some v"
  by (simp add: find_root.simps)

lemma find_root_step: "par v \<noteq> v \<Longrightarrow> find_root par v = find_root par (par v)"
  by (subst find_root.simps) simp

lemma find_root_ex:
  assumes "uf_forest V par rank" "finite V" "v \<in> V"
  shows "\<exists>r \<in> V. find_root par v = Some r \<and> par r = r \<and> (r = v \<or> rank v < rank r)"
  using assms
proof (induction rule: uf_forest_induct)
  case (root v)
  then show ?case by (auto simp: find_root_fixed)
next
  case (step v)
  then show ?case by (auto simp: find_root_step)
qed

lemma reroute:
  assumes "uf_forest V par rank" "finite V" "w \<in> V" "v \<in> V" "par v \<noteq> v" "find_root par v = Some r"
    and new: "new v = r" "\<And>x. x \<noteq> v \<Longrightarrow> new x = par x"
  shows "find_root new w = find_root par w"
proof -
  have r: "par r = r" "r \<noteq> v" using find_root_ex [OF assms(1,2,4)] assms(5,6) by auto
  then have r1: "find_root new r = Some r" using new(2) by (simp add: find_root_fixed)
  show ?thesis using assms(1-3)
  proof (induction rule: uf_forest_induct)
    case (root w)
    then have "new w = w" using assms(5) new(2) by metis
    then show ?case using root by (simp add: find_root_fixed)
  next
    case (step w)
    show ?case
    proof (cases "w = v")
      case True
      then have "find_root new w = find_root new r" using r(2) new(1) by (simp add: find_root_step)
      then show ?thesis using True assms(6) r1 by simp
    next
      case False
      then show ?thesis using step new(2) by (simp add: find_root_step)
    qed
  qed
qed

lemma rerouted_forest:
  assumes "uf_forest V par rank" "finite V" "v \<in> V" "par v \<noteq> v" "find_root par v = Some r"
  shows "uf_forest V (par(v := r)) rank"
  using find_root_ex [OF assms(1-3)] assms by (auto simp: uf_forest_def)

lemma compress_ex:
  assumes "uf_forest V par rank" "finite V" "v \<in> V" "find_root par v = Some r"
  shows "\<exists>par'. compress par r v = Some par' \<and> uf_forest V par' rank \<and>
    (\<forall>w \<in> V. find_root par' w = find_root par w)"
  using assms(3,1,4)
proof (induction "Max (rank ` V) - rank v" arbitrary: v par rule: less_induct)
  case less
  show ?case
  proof (cases "par v = v")
    case True
    then show ?thesis using less.prems by (simp add: compress.simps)
  next
    case False
    let ?par = "par(v := r)"
    have p: "par v \<in> V" "rank v < rank (par v)"
      using less.prems False by (auto simp: uf_forest_def)
    have "rank (par v) \<le> Max (rank ` V)" using p(1) assms(2) by simp
    then have d: "Max (rank ` V) - rank (par v) < Max (rank ` V) - rank v" using p(2) by simp
    have f: "find_root ?par w = find_root par w" if "w \<in> V" for w
      by (rule reroute [OF less.prems(2) assms(2) that less.prems(1) False less.prems(3)]) simp_all
    have "find_root ?par (par v) = Some r"
      using f [OF p(1)] less.prems(3) False by (simp add: find_root_step)
    from less.hyps [OF d p(1) rerouted_forest [OF less.prems(2) assms(2) less.prems(1) False less.prems(3)] this]
    obtain par' where "compress ?par r (par v) = Some par'" "uf_forest V par' rank"
      "\<forall>w \<in> V. find_root par' w = find_root ?par w" by blast
    then show ?thesis using False f by (subst compress.simps) auto
  qed
qed

lemma uf_find_ex:
  assumes "uf_ok V u" "finite V" "v \<in> V"
  shows "\<exists>r u'. uf_find u v = Some (r, u') \<and> r \<in> V \<and> uf_parent u r = r \<and> find_root (uf_parent u) v = Some r \<and>
    uf_ok V u' \<and> (\<forall>w \<in> V. find_root (uf_parent u') w = find_root (uf_parent u) w)"
proof -
  obtain r where r: "r \<in> V" "find_root (uf_parent u) v = Some r" "uf_parent u r = r"
    using find_root_ex assms unfolding uf_ok_def by metis
  moreover obtain par where "compress (uf_parent u) r v = Some par" "uf_forest V par (uf_rank u)"
    "\<forall>w \<in> V. find_root par w = find_root (uf_parent u) w"
    using compress_ex r(2) assms unfolding uf_ok_def by metis
  ultimately show ?thesis by (auto simp: uf_find_def uf_ok_def)
qed

lemma reparent_root:
  assumes "uf_forest V par rank" "finite V" "w \<in> V" "par l = l" "par r = r" "l \<noteq> r"
    and new: "new r = l" "\<And>x. x \<noteq> r \<Longrightarrow> new x = par x"
  shows "find_root new w = (if find_root par w = Some r then Some l else find_root par w)"
proof -
  have l: "find_root new l = Some l" using assms(4,6) new(2) by (simp add: find_root_fixed)
  show ?thesis using assms(1-3)
  proof (induction rule: uf_forest_induct)
    case (root w)
    show ?case
    proof (cases "w = r")
      case True
      then show ?thesis using l new(1) assms(5,6) by (simp add: find_root_fixed find_root_step)
    next
      case False
      then show ?thesis using root new(2) by (simp add: find_root_fixed)
    qed
  next
    case (step w)
    then have "w \<noteq> r" using assms(5) by auto
    then show ?case using step new(2) by (simp add: find_root_step)
  qed
qed

lemma link_roots_ex:
  assumes "uf_ok V u" "finite V" "l \<in> V" "r \<in> V" "uf_parent u l = l" "uf_parent u r = r" "l \<noteq> r"
  shows "uf_ok V (link_roots u l r) \<and> (\<exists>t \<in> {l, r}. \<forall>w \<in> V. find_root (uf_parent (link_roots u l r)) w =
    (if find_root (uf_parent u) w \<in> {Some l, Some r} then Some t else find_root (uf_parent u) w))"
proof (cases "uf_rank u l < uf_rank u r")
  case True
  have "find_root ((uf_parent u)(l := r)) w =
      (if find_root (uf_parent u) w \<in> {Some l, Some r} then Some r else find_root (uf_parent u) w)" if "w \<in> V" for w
    using reparent_root [OF assms(1) [unfolded uf_ok_def] assms(2) that, of r l "(uf_parent u)(l := r)"] assms(5-7) by auto
  then show ?thesis using True assms by (auto simp: link_roots_def uf_ok_def uf_forest_def Let_def)
next
  case False
  have "find_root ((uf_parent u)(r := l)) w =
      (if find_root (uf_parent u) w \<in> {Some l, Some r} then Some l else find_root (uf_parent u) w)" if "w \<in> V" for w
    using reparent_root [OF assms(1) [unfolded uf_ok_def] assms(2) that, of l r "(uf_parent u)(r := l)"] assms(5-7) by auto
  moreover have "uf_ok V (link_roots u l r)"
    using False assms by (fastforce simp: link_roots_def uf_ok_def uf_forest_def Let_def)
  ultimately show ?thesis using False by (auto simp: link_roots_def Let_def)
qed

section \<open>The contract of disjoint sets\<close>

locale disjoint_sets =
  fixes carrier :: "'v set" and ok :: "'s \<Rightarrow> bool" and same :: "'s \<Rightarrow> 'v \<Rightarrow> 'v \<Rightarrow> bool"
    and join :: "'s \<Rightarrow> 'v \<Rightarrow> 'v \<Rightarrow> (bool \<times> 's) option"
  assumes same_refl [simp]: "same s x x"
    and same_sym: "same s x y \<Longrightarrow> same s y x"
    and same_trans: "same s x y \<Longrightarrow> same s y z \<Longrightarrow> same s x z"
    and join: "ok s \<Longrightarrow> x \<in> carrier \<Longrightarrow> y \<in> carrier \<Longrightarrow>
      \<exists>t. join s x y = Some (\<not> same s x y, t) \<and> ok t \<and> (\<forall>a \<in> carrier. \<forall>b \<in> carrier.
        same t a b \<longleftrightarrow> same s a b \<or> same s a x \<and> same s y b \<or> same s a y \<and> same s x b)"
begin

text \<open>
  A potential of the joined edges extends to a new joined edge: the class of its target is
  shifted as a whole.
\<close>

lemma join_potential:
  fixes p :: "'v \<Rightarrow> rat"
  assumes "ok s" "x \<in> carrier" "y \<in> carrier" "\<not> same s x y"
    and T: "\<forall>(a, b, q) \<in> T. a \<in> carrier \<and> b \<in> carrier \<and> same s a b \<and> p b - p a = q"
  shows "\<exists>t p'. join s x y = Some (True, t) \<and> ok t \<and>
    (\<forall>(a, b, q) \<in> insert (x, y, q0) T. a \<in> carrier \<and> b \<in> carrier \<and> same t a b \<and> p' b - p' a = q)"
proof -
  obtain t where t: "join s x y = Some (True, t)" "ok t" "\<forall>a \<in> carrier. \<forall>b \<in> carrier.
      same t a b \<longleftrightarrow> same s a b \<or> same s a x \<and> same s y b \<or> same s a y \<and> same s x b"
    using join [OF assms(1-3)] assms(4) by auto
  let ?p = "\<lambda>v. if same s y v then p v + (p x + q0 - p y) else p v"
  have "a \<in> carrier \<and> b \<in> carrier \<and> same t a b \<and> ?p b - ?p a = q" if "(a, b, q) \<in> T" for a b q
  proof -
    have "same s y a \<longleftrightarrow> same s y b" using T that same_trans same_sym by fast
    then show ?thesis using T that t(3) by auto
  qed
  moreover have "same t x y \<and> ?p y - ?p x = q0" using t(3) assms(2-4) same_sym by auto
  ultimately show ?thesis using t(1,2) assms(2,3) by (intro exI [of _ t] exI [of _ ?p]) auto
qed

lemma join_same: "ok s \<Longrightarrow> x \<in> carrier \<Longrightarrow> y \<in> carrier \<Longrightarrow> same s x y \<Longrightarrow>
    \<exists>t. join s x y = Some (False, t) \<and> ok t \<and> (\<forall>a \<in> carrier. \<forall>b \<in> carrier. same t a b = same s a b)"
proof -
  assume a: "ok s" "x \<in> carrier" "y \<in> carrier" and xy: "same s x y"
  obtain t where t: "join s x y = Some (False, t)" "ok t" "\<forall>a \<in> carrier. \<forall>b \<in> carrier.
      same t a b \<longleftrightarrow> same s a b \<or> same s a x \<and> same s y b \<or> same s a y \<and> same s x b"
    using join [OF a] xy by auto
  have "same s c d" if "same s c x \<and> same s y d \<or> same s c y \<and> same s x d" for c d
    using that xy same_trans same_sym by blast
  then show ?thesis using t by blast
qed

end

lemma uf_union_ex:
  assumes "uf_ok V u" "finite V" "x \<in> V" "y \<in> V"
  shows "\<exists>t. uf_union u x y = Some (\<not> uf_same u x y, t) \<and> uf_ok V t \<and> (\<forall>a \<in> V. \<forall>b \<in> V. uf_same t a b \<longleftrightarrow>
    uf_same u a b \<or> uf_same u a x \<and> uf_same u y b \<or> uf_same u a y \<and> uf_same u x b)"
proof -
  obtain r1 u1 where 1: "uf_find u x = Some (r1, u1)" "r1 \<in> V" "uf_parent u r1 = r1"
    "find_root (uf_parent u) x = Some r1" "uf_ok V u1"
    "\<forall>w \<in> V. find_root (uf_parent u1) w = find_root (uf_parent u) w"
    using uf_find_ex [OF assms(1-3)] by blast
  obtain r2 u2 where 2: "uf_find u1 y = Some (r2, u2)" "r2 \<in> V" "find_root (uf_parent u1) y = Some r2"
    "uf_ok V u2" "\<forall>w \<in> V. find_root (uf_parent u2) w = find_root (uf_parent u1) w"
    using uf_find_ex [OF 1(5) assms(2,4)] by blast
  have f: "find_root (uf_parent u2) w = find_root (uf_parent u) w" if "w \<in> V" for w using 1(6) 2(5) that by simp
  have y: "find_root (uf_parent u) y = Some r2" using 1(6) 2(3) assms(4) by simp
  show ?thesis
  proof (cases "r1 = r2")
    case True
    then show ?thesis using 1(1,4) 2(1,4) y f by (auto simp: uf_union_def uf_same_def)
  next
    case False
    have roots: "uf_parent u2 r1 = r1" "uf_parent u2 r2 = r2"
    proof -
      have "find_root (uf_parent u) r1 = Some r1" using 1(3) by (rule find_root_fixed)
      then show "uf_parent u2 r1 = r1"
        using find_root_ex [OF 2(4) [unfolded uf_ok_def] assms(2) 1(2)] f [OF 1(2)] by auto
      have "find_root (uf_parent u) r2 = Some r2"
        using find_root_ex [OF assms(1) [unfolded uf_ok_def] assms(2,4)] y by (auto simp: find_root_fixed)
      then show "uf_parent u2 r2 = r2"
        using find_root_ex [OF 2(4) [unfolded uf_ok_def] assms(2) 2(2)] f [OF 2(2)] by auto
    qed
    obtain t where t: "t \<in> {r1, r2}" "uf_ok V (link_roots u2 r1 r2)"
      and "\<forall>w \<in> V. find_root (uf_parent (link_roots u2 r1 r2)) w =
         (if find_root (uf_parent u2) w \<in> {Some r1, Some r2} then Some t else find_root (uf_parent u2) w)"
      using link_roots_ex [OF 2(4) assms(2) 1(2) 2(2) roots False] by blast
    then have "find_root (uf_parent (link_roots u2 r1 r2)) w =
         (if find_root (uf_parent u) w \<in> {Some r1, Some r2} then Some t else find_root (uf_parent u) w)" if "w \<in> V" for w
      using f that by simp
    with t show ?thesis using 1(1,4) 2(1) y False by (auto simp: uf_union_def uf_same_def)
  qed
qed

interpretation uf: disjoint_sets "set vs" "uf_ok (set vs)" uf_same uf_union for vs :: "'v list"
  by unfold_locales (auto simp: uf_same_def intro: uf_union_ex [unfolded uf_same_def])


section \<open>Walks in the forest\<close>

inductive walk :: "'v adjacency \<Rightarrow> 'v \<Rightarrow> (nat \<times> int) list \<Rightarrow> 'v \<Rightarrow> bool" for adj a where
  walk_nil: "walk adj a [] a"
| walk_step: "walk adj a ts b \<Longrightarrow> (c, i, s) \<in> set (row_of adj b) \<Longrightarrow> walk adj a (ts @ [(i, s)]) c"

lemma walk_append: "walk adj b us c \<Longrightarrow> walk adj a ts b \<Longrightarrow> walk adj a (ts @ us) c"
proof (induction rule: walk.induct)
  case (walk_step us c d i s)
  then show ?case using walk.walk_step [of adj a "ts @ us" c d i s] by simp
qed simp

lemma walk_mono: "walk adj a ts b \<Longrightarrow> (\<And>v. set (row_of adj v) \<subseteq> set (row_of adj' v)) \<Longrightarrow> walk adj' a ts b"
  by (induction rule: walk.induct) (auto intro: walk.intros)

lemma walk_reverse:
  assumes "\<And>v w i s. (w, i, s) \<in> set (row_of adj v) \<Longrightarrow> (v, i, - s) \<in> set (row_of adj w)"
  shows "walk adj a ts b \<Longrightarrow> \<exists>us. walk adj b us a"
proof (induction rule: walk.induct)
  case (walk_step ts b c i s)
  have "walk adj c [(i, - s)] b" using walk.walk_step [OF walk_nil assms [OF walk_step(2)]] by simp
  then show ?case using walk_step.IH walk_append by metis
next
  case walk_nil
  show ?case using walk.walk_nil by (rule exI)
qed

text \<open>The search tree: every entry but the first hangs below an earlier one.\<close>

inductive search_tree :: "'v adjacency \<Rightarrow> 'v \<Rightarrow> 'v pred \<Rightarrow> bool" for adj start where
  tree_root: "search_tree adj start [(start, None)]"
| tree_hop: "search_tree adj start pred \<Longrightarrow> p \<in> fst ` set pred \<Longrightarrow> (w, i, s) \<in> set (row_of adj p) \<Longrightarrow>
    w \<notin> fst ` set pred \<Longrightarrow> search_tree adj start (pred @ [(w, Some (p, i, s))])"

lemma search_tree_start: "search_tree adj start pred \<Longrightarrow> start \<in> fst ` set pred"
  by (induction rule: search_tree.induct) auto

lemma trace_back_walk:
  "search_tree adj start pred \<Longrightarrow> v \<in> fst ` set pred \<Longrightarrow>
   \<exists>ts. walk adj start ts v \<and> (\<forall>ext acc. trace_back (pred @ ext) start v acc = Some (Inr (ts @ acc)))"
proof (induction arbitrary: v rule: search_tree.induct)
  case tree_root
  then show ?case by (intro exI [of _ "[]"]) (auto simp: trace_back.simps intro: walk_nil)
next
  case (tree_hop pred p w i s)
  show ?case
  proof (cases "v \<in> fst ` set pred")
    case True
    then obtain ts where ts: "walk adj start ts v" "\<And>ext acc. trace_back (pred @ ext) start v acc = Some (Inr (ts @ acc))"
      using tree_hop.IH by blast
    then show ?thesis by (intro exI [of _ ts]) simp
  next
    case False
    then have v: "v = w" using tree_hop.prems by auto
    obtain ts where ts: "walk adj start ts p" "\<And>ext acc. trace_back (pred @ ext) start p acc = Some (Inr (ts @ acc))"
      using tree_hop.IH tree_hop.hyps(2) by blast
    have "w \<noteq> start" using tree_hop.hyps(4) search_tree_start [OF tree_hop.hyps(1)] by blast
    moreover have "map_of ((pred @ [(w, Some (p, i, s))]) @ ext) w = Some (Some (p, i, s))" for ext
      using tree_hop.hyps(4) by (simp add: map_add_def map_of_eq_None_iff [THEN iffD2])
    ultimately have "trace_back ((pred @ [(w, Some (p, i, s))]) @ ext) start w acc = Some (Inr ((ts @ [(i, s)]) @ acc))" for ext acc
      using ts(2) [of "(w, Some (p, i, s)) # ext" "(i, s) # acc"] by (subst trace_back.simps) simp
    moreover have "walk adj start (ts @ [(i, s)]) w" using walk_step [OF ts(1) tree_hop.hyps(3)] .
    ultimately show ?thesis unfolding v by (intro exI conjI allI)
  qed
qed

lemma scan_row_tree:
  "scan_row goal cur row pred queue = (pred', queue') \<Longrightarrow> search_tree adj start pred \<Longrightarrow> cur \<in> fst ` set pred \<Longrightarrow>
   set row \<subseteq> set (row_of adj cur) \<Longrightarrow> set queue \<subseteq> fst ` set pred \<Longrightarrow>
   search_tree adj start pred' \<and> set queue' \<subseteq> fst ` set pred' \<and> (goal \<in> fst ` set pred' \<or>
     fst ` set pred' = fst ` set pred \<union> set queue' \<and> set queue \<subseteq> set queue' \<and> fst ` set row \<subseteq> fst ` set pred')"
proof (induction goal cur row pred queue rule: scan_row.induct)
  case (2 goal cur w i s rest pred queue)
  show ?case
  proof (cases "w \<in> fst ` set pred")
    case True
    then have eq: "scan_row goal cur rest pred queue = (pred', queue')" using "2.prems"(1) by simp
    from "2.IH"(1) [OF True this "2.prems"(2,3) _ "2.prems"(5)] "2.prems"(4) True show ?thesis by auto
  next
    case False
    let ?pred = "pred @ [(w, Some (cur, i, s))]"
    have t: "search_tree adj start ?pred" using tree_hop [OF "2.prems"(2,3) _ False] "2.prems"(4) by auto
    show ?thesis
    proof (cases "w = goal")
      case True
      then show ?thesis using False "2.prems"(1) t by auto
    next
      case ng: False
      then have eq: "scan_row goal cur rest ?pred (queue @ [w]) = (pred', queue')"
        using False "2.prems"(1) by (simp add: Let_def)
      have "search_tree adj start pred' \<and> set queue' \<subseteq> fst ` set pred' \<and> (goal \<in> fst ` set pred' \<or>
         fst ` set pred' = fst ` set ?pred \<union> set queue' \<and> set (queue @ [w]) \<subseteq> set queue' \<and> fst ` set rest \<subseteq> fst ` set pred')"
        by (rule "2.IH"(2) [OF False refl ng eq t]) (use "2.prems"(3-5) in auto)
      then show ?thesis by auto
    qed
  qed
qed auto

lemma scan_row_keys:
  "goal \<in> fst ` set pred \<Longrightarrow> scan_row goal cur row pred queue = (pred', queue') \<Longrightarrow> goal \<in> fst ` set pred'"
  by (induction goal cur row pred queue rule: scan_row.induct) (auto simp: Let_def split: if_splits)

lemma search_loop_tree:
  "search_tree adj start pred \<Longrightarrow> set queue \<subseteq> fst ` set pred \<Longrightarrow>
   goal \<in> fst ` set pred \<or> (\<forall>v \<in> fst ` set pred - set queue. fst ` set (row_of adj v) \<subseteq> fst ` set pred) \<Longrightarrow>
   search_tree adj start (search_loop goal adj queue pred) \<and> (goal \<in> fst ` set (search_loop goal adj queue pred) \<or>
     (\<forall>v \<in> fst ` set (search_loop goal adj queue pred).
        fst ` set (row_of adj v) \<subseteq> fst ` set (search_loop goal adj queue pred)))"
proof (induction goal adj queue pred rule: search_loop.induct)
  case (2 goal adj cur queue pred)
  obtain p q where eq: "scan_row goal cur (row_of adj cur) pred queue = (p, q)" by fastforce
  have s: "search_tree adj start p \<and> set q \<subseteq> fst ` set p \<and> (goal \<in> fst ` set p \<or>
     fst ` set p = fst ` set pred \<union> set q \<and> set queue \<subseteq> set q \<and> fst ` set (row_of adj cur) \<subseteq> fst ` set p)"
    by (rule scan_row_tree [OF eq "2.prems"(1)]) (use "2.prems"(2) in auto)
  have mono: "goal \<in> fst ` set pred \<Longrightarrow> goal \<in> fst ` set p"
    by (rule scan_row_keys [OF _ eq])
  have "fst ` set (row_of adj v) \<subseteq> fst ` set p" if v: "v \<in> fst ` set p - set q" and g: "goal \<notin> fst ` set p" for v
  proof -
    have k: "fst ` set p = fst ` set pred \<union> set q" "set queue \<subseteq> set q" "fst ` set (row_of adj cur) \<subseteq> fst ` set p"
      using s g by blast+
    have old: "v = cur \<or> v \<in> fst ` set pred - set (cur # queue)" using v k(1,2) by auto
    have "goal \<notin> fst ` set pred" using mono g by blast
    then have "fst ` set (row_of adj v) \<subseteq> fst ` set pred" if "v \<in> fst ` set pred - set (cur # queue)"
      using "2.prems"(3) that by blast
    then show ?thesis using old k(1,3) by blast
  qed
  then have "goal \<in> fst ` set p \<or> (\<forall>v \<in> fst ` set p - set q. fst ` set (row_of adj v) \<subseteq> fst ` set p)"
    by blast
  with "2.IH" [unfolded eq fst_conv snd_conv] s show ?case by (simp add: eq)
qed simp

lemma tree_path_terms_walk:
  assumes "walk adj start us goal"
  shows "\<exists>ts. tree_path_terms adj start goal = Some (Inr ts) \<and> walk adj start ts goal"
proof (cases "start = goal")
  case True
  then show ?thesis by (auto simp: tree_path_terms_def intro: walk_nil)
next
  case False
  define pred where "pred = search_loop goal adj [start] [(start, None)]"
  have t: "search_tree adj start pred"
    "goal \<in> fst ` set pred \<or> (\<forall>v \<in> fst ` set pred. fst ` set (row_of adj v) \<subseteq> fst ` set pred)"
    using search_loop_tree [OF tree_root, of "[start]" start goal adj] unfolding pred_def by simp_all
  have reach: "walk adj start us b \<Longrightarrow> \<forall>v \<in> fst ` set pred. fst ` set (row_of adj v) \<subseteq> fst ` set pred \<Longrightarrow>
      b \<in> fst ` set pred" for b us
  proof (induction rule: walk.induct)
    case (walk_step us b c i s)
    then have "fst ` set (row_of adj b) \<subseteq> fst ` set pred" by blast
    moreover have "c \<in> fst ` set (row_of adj b)" using walk_step.hyps(2) by force
    ultimately show ?case by blast
  qed (rule search_tree_start [OF t(1)])
  then have g: "goal \<in> fst ` set pred" using t(2) assms by blast
  from trace_back_walk [OF t(1) g] obtain ts where ts: "walk adj start ts goal"
    "\<And>ext acc. trace_back (pred @ ext) start goal acc = Some (Inr (ts @ acc))" by blast
  then have "trace_back pred start goal [] = Some (Inr ts)" using ts(2) [of "[]" "[]"] by simp
  then show ?thesis using False g ts(1) unfolding tree_path_terms_def pred_def by (simp add: Let_def)
qed

end
