(* ===== verification/Finite_Quotients.thy ===== *)
theory Finite_Quotients
  imports Cycle_Holonomy Repair_Proposal Finite_Groups
begin

text \<open>
  Boundary fibers and lumpability (\<open>oph_fpe/quotient/obstruction.py\<close>:
  \<open>classify_boundary_fiber\<close>, \<open>verify_quotient_lumpability\<close>,
  \<open>_is_forbidden_presentation_dependency\<close>).  States and quotient values are of any type compared
  by equality, a kernel is the list of its rows, and the caller's maps are functions.  The lemmas
  read the verdict of the audit as a statement on the flow of a state into a quotient state and
  carry it to the kernel of several steps.
\<close>

section \<open>Presentation dependencies\<close>

definition replace_char :: "char \<Rightarrow> char \<Rightarrow> string \<Rightarrow> string" where
  "replace_char a b s = map (\<lambda>c. if c = a then b else c) s"

definition presentation_tokens :: "string list" where
  "presentation_tokens = [''worker'', ''scheduler'', ''schedule'', ''queue'', ''process'', ''thread'', ''retry'',
     ''attempt'', ''executor'', ''runtime'', ''wall'', ''memory'', ''storage'', ''uuid'', ''pid'', ''rng'']"

definition is_forbidden_dependency :: "string \<Rightarrow> bool" where
  "is_forbidden_dependency field =
     (let normalized = replace_char CHR ''-'' CHR ''_'' (map lower_char (strip field));
          tokens = filter (\<lambda>t. t \<noteq> []) (split_on CHR ''_'' (replace_char CHR ''.'' CHR ''_'' normalized))
      in list_ex (\<lambda>t. t \<in> set presentation_tokens) tokens)"

definition forbidden_dependencies :: "string list \<Rightarrow> string list" where
  "forbidden_dependencies names = filter is_forbidden_dependency (sorted_list_of_set (set names))"

section \<open>One boundary fiber\<close>

datatype fiber_status = UNREALIZABLE | UNIQUE | AMBIGUOUS | UNKNOWN

record 'a fiber_classification =
  fc_status :: fiber_status
  fc_matching_count :: nat
  fc_consistent_count :: nat
  fc_witnesses :: "'a list"
  fc_complete :: bool
  fc_exact :: bool

definition classify_boundary_fiber ::
  "'a list \<Rightarrow> 'b \<Rightarrow> ('a \<Rightarrow> 'b) \<Rightarrow> ('a \<Rightarrow> bool) \<Rightarrow> bool \<Rightarrow> 'a fiber_classification res" where
  "classify_boundary_fiber states boundary_value boundary_map is_consistent complete =
     rbind (distinct_sequence states) (\<lambda>finite_states.
     let matching = filter (\<lambda>s. boundary_map s = boundary_value) finite_states;
         witnesses = filter is_consistent matching
     in Inr \<lparr>fc_status = (if \<not> complete then UNKNOWN else if witnesses = [] then UNREALIZABLE
           else if length witnesses = 1 then UNIQUE else AMBIGUOUS),
         fc_matching_count = length matching, fc_consistent_count = length witnesses,
         fc_witnesses = witnesses, fc_complete = complete, fc_exact = complete\<rparr>)"

section \<open>Lumpability of a kernel\<close>

datatype kernel_kind = PROBABILITY | RATE

definition kernel_kind_of :: "string \<Rightarrow> kernel_kind res" where
  "kernel_kind_of s = (if s = ''PROBABILITY'' then Inr PROBABILITY
     else if s = ''RATE'' then Inr RATE else Inl ValueError)"

type_synonym ('a, 'w) kernel = "('a \<times> ('a \<times> 'w) list) list"

definition read_weight :: "'a \<times> pyval \<Rightarrow> ('a \<times> rat) res" where
  "read_weight tv = rbind (exact_fraction (snd tv)) (\<lambda>w. if w < 0 then Inl ValueError else Inr (fst tv, w))"

definition read_kernel_row :: "kernel_kind \<Rightarrow> 'a list \<Rightarrow> ('a \<times> pyval) list \<Rightarrow> ('a \<times> rat) list res" where
  "read_kernel_row kind states row =
     (if \<not> fst ` set row \<subseteq> set states then Inl ValueError
      else rbind (rmap read_weight row) (\<lambda>exact_row.
        if kind = PROBABILITY \<and> sum_list (map snd exact_row) \<noteq> 1 then Inl ValueError else Inr exact_row))"

definition read_kernel :: "kernel_kind \<Rightarrow> 'a list \<Rightarrow> ('a, pyval) kernel \<Rightarrow> ('a, rat) kernel res" where
  "read_kernel kind states raw_kernel = rmap (\<lambda>s. (case map_of raw_kernel s of
       None \<Rightarrow> Inl KeyError
     | Some row \<Rightarrow> rbind (read_kernel_row kind states row) (\<lambda>r. Inr (s, r)))) states"

definition row_totals :: "('a \<Rightarrow> 'q) \<Rightarrow> ('a \<times> rat) list \<Rightarrow> 'q \<Rightarrow> rat" where
  "row_totals quot row = fold (\<lambda>(t, w) totals. totals(quot t := totals (quot t) + w)) row (\<lambda>q. 0)"

definition aggregate_of :: "('a \<Rightarrow> 'q) \<Rightarrow> 'q list \<Rightarrow> ('a \<times> rat) list \<Rightarrow> ('q \<times> rat) list" where
  "aggregate_of quot order row = (let totals = row_totals quot row in map (\<lambda>q. (q, totals q)) order)"

record ('a, 'q) lumpability_defect =
  source_quotient :: 'q
  left_representative :: 'a
  right_representative :: 'a
  left_aggregates :: "('q \<times> rat) list"
  right_aggregates :: "('q \<times> rat) list"

definition fiber_defects :: "('a \<Rightarrow> ('q \<times> rat) list) \<Rightarrow> 'q \<Rightarrow> 'a list \<Rightarrow> ('a, 'q) lumpability_defect list" where
  "fiber_defects agg q fiber = (case fiber of [] \<Rightarrow> [] | reference # rest \<Rightarrow>
     map (\<lambda>r. \<lparr>source_quotient = q, left_representative = reference, right_representative = r,
            left_aggregates = agg reference, right_aggregates = agg r\<rparr>)
       (filter (\<lambda>r. agg r \<noteq> agg reference) rest))"

record ('a, 'q) lumpability_audit =
  la_kind :: kernel_kind
  la_state_count :: nat
  la_quotient_count :: nat
  la_nontrivial_count :: nat
  la_aggregate_equality :: bool
  la_firewall_passed :: bool
  la_forbidden :: "string list"
  la_defects :: "('a, 'q) lumpability_defect list"
  la_lumpable :: bool

definition verify_quotient_lumpability ::
  "'a list \<Rightarrow> ('a, pyval) kernel \<Rightarrow> ('a \<Rightarrow> 'q) \<Rightarrow> string \<Rightarrow> string list \<Rightarrow> ('a, 'q) lumpability_audit res" where
  "verify_quotient_lumpability presentation_states raw_kernel quot kind_name dependencies =
     rbind (distinct_sequence presentation_states) (\<lambda>states.
     if states = [] then Inl ValueError
     else if fst ` set raw_kernel \<noteq> set states then Inl ValueError
     else rbind (kernel_kind_of kind_name) (\<lambda>kind.
     rbind (read_kernel kind states raw_kernel) (\<lambda>exact.
     let order = uniq (map quot states);
         agg = (\<lambda>s. aggregate_of quot order (the (map_of exact s)));
         fiber = (\<lambda>q. filter (\<lambda>s. quot s = q) states);
         defects = concat (map (\<lambda>q. fiber_defects agg q (fiber q)) order);
         forbidden = forbidden_dependencies dependencies
     in Inr \<lparr>la_kind = kind, la_state_count = length states, la_quotient_count = length order,
          la_nontrivial_count = length (filter (\<lambda>q. 1 < length (fiber q)) order),
          la_aggregate_equality = (defects = []), la_firewall_passed = (forbidden = []),
          la_forbidden = forbidden, la_defects = defects,
          la_lumpable = (defects = [] \<and> forbidden = [])\<rparr>)))"

section \<open>The flow between quotient states\<close>

text \<open>The entry of an exact kernel and the flow of a state into a quotient state.\<close>

definition entry :: "('a, rat) kernel \<Rightarrow> 'a \<Rightarrow> 'a \<Rightarrow> rat" where
  "entry k s t = (case map_of k s of None \<Rightarrow> 0 | Some row \<Rightarrow> (case map_of row t of None \<Rightarrow> 0 | Some w \<Rightarrow> w))"

definition flow :: "'a list \<Rightarrow> ('a \<Rightarrow> 'a \<Rightarrow> rat) \<Rightarrow> ('a \<Rightarrow> 'q) \<Rightarrow> 'a \<Rightarrow> 'q \<Rightarrow> rat" where
  "flow states K quot s q = (\<Sum>t \<in> {t \<in> set states. quot t = q}. K s t)"

text \<open>The kernel of several steps.\<close>

primrec kernel_power :: "'a list \<Rightarrow> ('a \<Rightarrow> 'a \<Rightarrow> rat) \<Rightarrow> nat \<Rightarrow> 'a \<Rightarrow> 'a \<Rightarrow> rat" where
  "kernel_power states K 0 s t = (if s = t then 1 else 0)"
| "kernel_power states K (Suc n) s t = (\<Sum>u \<in> set states. K s u * kernel_power states K n u t)"

definition lumpable :: "'a list \<Rightarrow> ('a \<Rightarrow> 'a \<Rightarrow> rat) \<Rightarrow> ('a \<Rightarrow> 'q) \<Rightarrow> bool" where
  "lumpable states K quot \<longleftrightarrow> (\<forall>s \<in> set states. \<forall>t \<in> set states. quot s = quot t \<longrightarrow>
     (\<forall>q. flow states K quot s q = flow states K quot t q))"

lemma row_totals_sum: "row_totals quot row q = sum_list (map snd (filter (\<lambda>(t, w). quot t = q) row))"
proof -
  have "fold (\<lambda>(t, w) totals. totals(quot t := totals (quot t) + w)) row f q =
      f q + sum_list (map snd (filter (\<lambda>(t, w). quot t = q) row))" for f
    by (induction row arbitrary: f) auto
  then show ?thesis by (simp add: row_totals_def)
qed

lemma sum_map_of:
  fixes row :: "('a \<times> rat) list"
  assumes "distinct (map fst row)" "fst ` set row \<subseteq> S" "finite S"
  shows "sum_list (map snd (filter (\<lambda>(t, w). P t) row)) =
    (\<Sum>t \<in> {t \<in> S. P t}. case map_of row t of None \<Rightarrow> 0 | Some w \<Rightarrow> w)"
  using assms(1,2)
proof (induction row)
  case (Cons tw row)
  obtain t w where tw: "tw = (t, w)" by fastforce
  let ?g = "\<lambda>u. case map_of row u of None \<Rightarrow> 0 | Some w \<Rightarrow> w"
  have t: "t \<notin> fst ` set row" "t \<in> S" using Cons.prems tw by auto
  then have g: "?g t = 0" by (simp add: map_of_eq_None_iff [THEN iffD2])
  have "(\<Sum>u \<in> {u \<in> S. P u}. case map_of (tw # row) u of None \<Rightarrow> 0 | Some w \<Rightarrow> w) =
      (\<Sum>u \<in> {u \<in> S. P u}. (if u = t then w else 0) + ?g u)"
    using g tw by (intro sum.cong) auto
  also have "\<dots> = (if P t then w else 0) + (\<Sum>u \<in> {u \<in> S. P u}. ?g u)"
    using assms(3) t(2) by (simp add: sum.distrib)
  finally show ?case using Cons tw by simp
qed simp

lemma quotient_flow:
  assumes "lumpable states K quot" "s \<in> set states" "t \<in> set states" "quot s = quot t"
  shows "flow states (kernel_power states K n) quot s q = flow states (kernel_power states K n) quot t q"
  using assms(2-4)
proof (induction n arbitrary: s t)
  case 0
  have "flow states (kernel_power states K 0) quot r q = (if quot r = q then 1 else 0)" if "r \<in> set states" for r
    using that by (simp add: flow_def)
  then show ?case using 0 by metis
next
  case (Suc n)
  let ?F = "flow states (kernel_power states K n) quot"
  define G where "G x = ?F (SOME u. u \<in> set states \<and> quot u = x) q" for x
  have G: "?F u q = G (quot u)" if "u \<in> set states" for u
    unfolding G_def using that Suc.IH by (metis (mono_tags, lifting) someI_ex)
  have "flow states (kernel_power states K (Suc n)) quot r q =
      (\<Sum>x \<in> quot ` set states. flow states K quot r x * G x)" for r
  proof -
    have "flow states (kernel_power states K (Suc n)) quot r q = (\<Sum>u \<in> set states. K r u * ?F u q)"
      unfolding flow_def by (simp add: sum_distrib_left) (rule sum.swap)
    also have "\<dots> = (\<Sum>u \<in> set states. K r u * G (quot u))" using G by simp
    also have "\<dots> = (\<Sum>x \<in> quot ` set states. \<Sum>u \<in> {u \<in> set states. quot u = x}. K r u * G (quot u))"
      by (rule sum.group [symmetric]) auto
    also have "\<dots> = (\<Sum>x \<in> quot ` set states. flow states K quot r x * G x)"
      unfolding flow_def by (intro sum.cong refl) (simp add: sum_distrib_right)
    finally show ?thesis .
  qed
  note step = this
  have "flow states K quot s x = flow states K quot t x" for x
    using assms(1) Suc.prems unfolding lumpable_def by blast
  then show ?case unfolding step [of s] step [of t] by simp
qed

lemma fiber_defects_Nil: "fiber_defects agg q fiber = [] \<longleftrightarrow> (\<forall>s \<in> set fiber. \<forall>t \<in> set fiber. agg s = agg t)"
  by (auto simp: fiber_defects_def filter_empty_conv split: list.splits)


text \<open>The entry of a kernel as it is given.\<close>

definition raw_entry :: "('a, pyval) kernel \<Rightarrow> 'a \<Rightarrow> 'a \<Rightarrow> rat" where
  "raw_entry k s t = (case map_of k s of None \<Rightarrow> 0 | Some row \<Rightarrow> (case map_of row t of None \<Rightarrow> 0
     | Some v \<Rightarrow> (case exact_fraction v of Inl _ \<Rightarrow> 0 | Inr w \<Rightarrow> w)))"

lemma read_weight_Inr: "read_weight (t, v) = Inr x \<longleftrightarrow> (\<exists>w. exact_fraction v = Inr w \<and> 0 \<le> w \<and> x = (t, w))"
  by (cases "exact_fraction v") (auto simp: read_weight_def)

lemma read_row_entries:
  "rmap read_weight row = Inr r \<Longrightarrow> map fst r = map fst row \<and> (\<forall>(t, w) \<in> set r. 0 \<le> w) \<and>
   map_of r t = (case map_of row t of None \<Rightarrow> None | Some v \<Rightarrow> (case exact_fraction v of Inl _ \<Rightarrow> None | Inr w \<Rightarrow> Some w))"
proof (induction row arbitrary: r)
  case (Cons tv row)
  obtain u v where tv: "tv = (u, v)" by fastforce
  obtain w r' where r: "exact_fraction v = Inr w" "0 \<le> w" "r = (u, w) # r'" "rmap read_weight row = Inr r'"
    using Cons.prems unfolding tv by (auto simp: read_weight_Inr elim!: rbind_eq_InrE)
  from Cons.IH [OF r(4)] r show ?case unfolding tv by simp
qed simp

lemma read_kernel_row_Inr:
  assumes "read_kernel_row kind states row = Inr r"
  shows "fst ` set row \<subseteq> set states" "kind = PROBABILITY \<Longrightarrow> sum_list (map snd r) = 1"
    and "map fst r = map fst row"
    and "map_of r t = (case map_of row t of None \<Rightarrow> None | Some v \<Rightarrow> (case exact_fraction v of Inl _ \<Rightarrow> None | Inr w \<Rightarrow> Some w))"
proof -
  have sub: "fst ` set row \<subseteq> set states"
    using assms by (cases "fst ` set row \<subseteq> set states") (simp_all add: read_kernel_row_def)
  then have "rbind (rmap read_weight row) (\<lambda>x. if kind = PROBABILITY \<and> sum_list (map snd x) \<noteq> 1 then Inl ValueError
      else Inr x) = Inr r" using assms by (simp add: read_kernel_row_def)
  then obtain "rmap read_weight row = Inr r" "kind = PROBABILITY \<longrightarrow> sum_list (map snd r) = 1"
    by (elim rbind_eq_InrE) (auto split: if_splits)
  with read_row_entries [OF this(1)] sub show "fst ` set row \<subseteq> set states" "kind = PROBABILITY \<Longrightarrow> sum_list (map snd r) = 1"
    "map fst r = map fst row"
    "map_of r t = (case map_of row t of None \<Rightarrow> None | Some v \<Rightarrow> (case exact_fraction v of Inl _ \<Rightarrow> None | Inr w \<Rightarrow> Some w))"
    by simp_all
qed

lemma read_kernel_Inr:
  "read_kernel kind states K = Inr ex \<Longrightarrow> s \<in> set states \<Longrightarrow>
   \<exists>row r. map_of K s = Some row \<and> read_kernel_row kind states row = Inr r \<and> map_of ex s = Some r"
proof -
  let ?f = "\<lambda>s. (case map_of K s of None \<Rightarrow> Inl KeyError
     | Some row \<Rightarrow> rbind (read_kernel_row kind states row) (\<lambda>r. Inr (s, r)))"
  have "rmap ?f xs = Inr ys \<Longrightarrow> s \<in> set xs \<Longrightarrow>
      \<exists>row r. map_of K s = Some row \<and> read_kernel_row kind states row = Inr r \<and> map_of ys s = Some r" for xs ys
    by (induction xs arbitrary: ys) (auto elim!: rbind_eq_InrE split: option.splits)
  then show "read_kernel kind states K = Inr ex \<Longrightarrow> s \<in> set states \<Longrightarrow>
      \<exists>row r. map_of K s = Some row \<and> read_kernel_row kind states row = Inr r \<and> map_of ex s = Some r"
    unfolding read_kernel_def .
qed

lemma kernel_rows:
  assumes "read_kernel kind states K = Inr ex" "\<forall>row \<in> snd ` set K. distinct (map fst row)" "s \<in> set states"
  shows "aggregate_of quot order (the (map_of ex s)) = map (\<lambda>q. (q, flow states (raw_entry K) quot s q)) order"
    and "kind = PROBABILITY \<Longrightarrow> (\<Sum>t \<in> set states. raw_entry K s t) = 1"
proof -
  obtain row r where r: "map_of K s = Some row" "read_kernel_row kind states row = Inr r" "map_of ex s = Some r"
    using read_kernel_Inr [OF assms(1,3)] by blast
  note i = read_kernel_row_Inr [OF r(2)]
  have "row \<in> snd ` set K" using map_of_SomeD [OF r(1)] by force
  from bspec [OF assms(2) this] have d: "distinct (map fst r)" unfolding i(3) .
  have sub: "fst ` set r \<subseteq> set states" using i(1,3) by (metis set_map)
  have e: "raw_entry K s t = (case map_of r t of None \<Rightarrow> 0 | Some w \<Rightarrow> w)" for t
    unfolding raw_entry_def r(1) i(4) by (auto split: option.splits sum.splits)
  have "sum_list (map snd (filter (\<lambda>(t, w). P t) r)) = (\<Sum>t \<in> {t \<in> set states. P t}. raw_entry K s t)" for P
    unfolding e using sum_map_of [OF d sub finite_set] .
  note f = this
  show "aggregate_of quot order (the (map_of ex s)) = map (\<lambda>q. (q, flow states (raw_entry K) quot s q)) order"
    using f [of "\<lambda>t. quot t = _"] by (simp add: aggregate_of_def r(3) row_totals_sum flow_def)
  show "kind = PROBABILITY \<Longrightarrow> (\<Sum>t \<in> set states. raw_entry K s t) = 1"
    using f [of "\<lambda>t. True"] i(2) by simp
qed

lemma audit_lumpable:
  assumes "verify_quotient_lumpability states K quot kind deps = Inr a"
    and "\<forall>row \<in> snd ` set K. distinct (map fst row)"
  shows "la_aggregate_equality a \<longleftrightarrow> lumpable states (raw_entry K) quot"
    and "la_lumpable a \<longleftrightarrow> la_aggregate_equality a \<and> forbidden_dependencies deps = []"
    and "la_kind a = PROBABILITY \<Longrightarrow> s \<in> set states \<Longrightarrow> (\<Sum>t \<in> set states. raw_entry K s t) = 1"
proof -
  obtain k ex where k: "read_kernel k states K = Inr ex" "la_kind a = k"
    and a: "la_aggregate_equality a \<longleftrightarrow> concat (map (\<lambda>q. fiber_defects
        (\<lambda>s. aggregate_of quot (uniq (map quot states)) (the (map_of ex s))) q (filter (\<lambda>s. quot s = q) states))
        (uniq (map quot states))) = []"
      "la_lumpable a \<longleftrightarrow> la_aggregate_equality a \<and> forbidden_dependencies deps = []"
    using assms(1) by (auto simp: verify_quotient_lumpability_def Let_def elim!: rbind_eq_InrE split: if_splits)
  let ?agg = "\<lambda>s. aggregate_of quot (uniq (map quot states)) (the (map_of ex s))"
  have agg: "?agg s = ?agg t \<longleftrightarrow> (\<forall>q \<in> quot ` set states. flow states (raw_entry K) quot s q = flow states (raw_entry K) quot t q)"
    if "s \<in> set states" "t \<in> set states" for s t
    unfolding kernel_rows(1) [OF k(1) assms(2) that(1)] kernel_rows(1) [OF k(1) assms(2) that(2)] by simp
  have none: "flow states (raw_entry K) quot s q = 0" if "q \<notin> quot ` set states" for s q
  proof -
    have "{t \<in> set states. quot t = q} = {}" using that by auto
    then show ?thesis unfolding flow_def by (simp only: sum.empty)
  qed
  have "la_aggregate_equality a \<longleftrightarrow>
      (\<forall>s \<in> set states. \<forall>t \<in> set states. quot s = quot t \<longrightarrow> ?agg s = ?agg t)"
    unfolding a(1) by (simp add: fiber_defects_Nil) (metis (mono_tags, lifting))
  also have "\<dots> \<longleftrightarrow> lumpable states (raw_entry K) quot"
    unfolding lumpable_def using agg none by metis
  finally show "la_aggregate_equality a \<longleftrightarrow> lumpable states (raw_entry K) quot" .
  show "la_lumpable a \<longleftrightarrow> la_aggregate_equality a \<and> forbidden_dependencies deps = []" by (rule a(2))
  show "la_kind a = PROBABILITY \<Longrightarrow> s \<in> set states \<Longrightarrow> (\<Sum>t \<in> set states. raw_entry K s t) = 1"
    using kernel_rows(2) [OF k(1) assms(2)] k(2) by simp
qed

end
