(* ===== verification/Repair_Paths.thy ===== *)
theory Repair_Paths
  imports Finite_Quotients
begin

text \<open>
  Exhaustion of repair paths (\<open>exhaust_accepted_repair_paths\<close> of
  \<open>oph_fpe/quotient/obstruction.py\<close>): all simple paths of a repair table are walked with a
  shared budget, paths that end in a terminal state and paths that close a cycle are kept, and the
  audit reads termination and unique quotient endpoints off them.  The lemmas show which paths are
  found, that they decide reachability and termination, and that a large enough budget always
  yields the same audit.
\<close>

section \<open>The search\<close>

record 'a path_search =
  explored :: nat
  terminal_found :: "'a list list"
  cycle_found :: "'a list list"

definition count_path :: "int \<Rightarrow> 'a path_search \<Rightarrow> 'a path_search res" where
  "count_path limit st = (let st = st\<lparr>explored := explored st + 1\<rparr> in
     if limit < int (explored st) then Inl RuntimeError else Inr st)"

definition keys_left :: "('a \<times> 'a list) list \<Rightarrow> 'a list \<Rightarrow> nat" where
  "keys_left succ path = card (fst ` set succ - set path)"

lemma keys_left_less: "t \<in> fst ` set succ \<Longrightarrow> t \<notin> set path \<Longrightarrow> keys_left succ (path @ [t]) < keys_left succ path"
  unfolding keys_left_def by (rule psubset_card_mono) auto

text \<open>
  \<open>visit current path\<close> and its loop over the successors; the keys of the table that are not on the
  path become fewer with every nested call.
\<close>

function (sequential) visit_paths :: "('a \<times> 'a list) list \<Rightarrow> int \<Rightarrow> 'a \<Rightarrow> 'a list \<Rightarrow> 'a path_search \<Rightarrow> 'a path_search res"
  and visit_targets :: "('a \<times> 'a list) list \<Rightarrow> int \<Rightarrow> 'a list \<Rightarrow> 'a list \<Rightarrow> 'a path_search \<Rightarrow> 'a path_search res" where
  "visit_paths succ limit current path st = (case map_of succ current of
      None \<Rightarrow> Inl KeyError
    | Some next_states \<Rightarrow>
        if next_states = [] then
          rbind (count_path limit st) (\<lambda>st. Inr (st\<lparr>terminal_found := terminal_found st @ [path]\<rparr>))
        else visit_targets succ limit path next_states st)"
| "visit_targets succ limit path [] st = Inr st"
| "visit_targets succ limit path (t # ts) st =
     rbind (count_path limit st) (\<lambda>st.
     rbind (if t \<in> set path then Inr (st\<lparr>cycle_found := cycle_found st @ [path @ [t]]\<rparr>)
            else visit_paths succ limit t (path @ [t]) st) (\<lambda>st.
     visit_targets succ limit path ts st))"
  by pat_completeness auto
termination
proof (relation "inv_image (less_than <*lex*> less_than <*lex*> less_than) (\<lambda>x. case x of
     Inl (succ, limit, current, path, st) \<Rightarrow> (keys_left succ path, if current \<in> fst ` set succ then 2 else 0, 0)
   | Inr (succ, limit, path, ts, st) \<Rightarrow> (keys_left succ path, 1, length ts))", goal_cases)
  case 1
  show ?case by (intro wf_inv_image wf_lex_prod wf_less_than)
next
  case (2 succ limit current path st ns)
  then have "current \<in> fst ` set succ" using map_of_SomeD [OF 2(1)] by force
  then show ?case by simp
next
  case (3 succ limit path t ts st st')
  show ?case
  proof (cases "t \<in> fst ` set succ")
    case True
    then show ?thesis using keys_left_less 3 by fastforce
  next
    case False
    then have "fst ` set succ - set (path @ [t]) = fst ` set succ - set path" by auto
    then show ?thesis using False by (simp add: keys_left_def)
  qed
qed auto

declare visit_paths.simps [simp del] visit_targets.simps [simp del]

section \<open>The audit\<close>

record ('a, 'q) initial_audit =
  ia_state :: 'a
  ia_terminal_paths :: "'a list list"
  ia_cycle_paths :: "'a list list"
  ia_terminals :: "'a list"
  ia_quotients :: "'q list"
  ia_status :: fiber_status

definition audit_initial ::
  "('a \<times> 'a list) list \<Rightarrow> int \<Rightarrow> ('a \<Rightarrow> 'q) \<Rightarrow> bool \<Rightarrow> 'a \<Rightarrow> nat \<Rightarrow> (('a, 'q) initial_audit \<times> nat) res" where
  "audit_initial succ limit quot complete initial seen =
     rbind (visit_paths succ limit initial [initial] \<lparr>explored = seen, terminal_found = [], cycle_found = []\<rparr>) (\<lambda>st.
     let terminals = uniq (map last (terminal_found st)); quotients = uniq (map quot terminals)
     in Inr (\<lparr>ia_state = initial, ia_terminal_paths = terminal_found st, ia_cycle_paths = cycle_found st,
           ia_terminals = terminals, ia_quotients = quotients,
           ia_status = (if \<not> complete \<or> cycle_found st \<noteq> [] \<or> quotients = [] then UNKNOWN
             else if length quotients = 1 then UNIQUE else AMBIGUOUS)\<rparr>, explored st))"

fun audit_initials ::
  "('a \<times> 'a list) list \<Rightarrow> int \<Rightarrow> ('a \<Rightarrow> 'q) \<Rightarrow> bool \<Rightarrow> 'a list \<Rightarrow> nat \<Rightarrow> ('a, 'q) initial_audit list res" where
  "audit_initials succ limit quot complete [] seen = Inr []"
| "audit_initials succ limit quot complete (s # ss) seen =
     rbind (audit_initial succ limit quot complete s seen) (\<lambda>(audit, seen').
     rbind (audit_initials succ limit quot complete ss seen') (\<lambda>audits. Inr (audit # audits)))"

record ('a, 'q) path_audit =
  pa_state_count :: nat
  pa_transition_count :: nat
  pa_initial_count :: nat
  pa_coverage :: bool
  pa_states_complete :: bool
  pa_relation_complete :: bool
  pa_exhaustion :: bool
  pa_terminating :: bool
  pa_termination_certified :: bool
  pa_presentation_independent :: bool
  pa_quotient_independent :: bool
  pa_ambiguous :: "'a list"
  pa_nonterminating :: "'a list"
  pa_forbidden :: "string list"
  pa_initials :: "('a, 'q) initial_audit list"
  pa_receipt :: bool

definition successor_row :: "('a \<times> 'a list) list \<Rightarrow> 'a list \<Rightarrow> 'a \<Rightarrow> ('a \<times> 'a list) res" where
  "successor_row repairs states s = (case map_of repairs s of None \<Rightarrow> Inl KeyError
     | Some row \<Rightarrow> rbind (distinct_sequence row) (\<lambda>row.
         if \<not> set row \<subseteq> set states then Inl ValueError else Inr (s, row)))"

text \<open>The checks of the arguments, then the report of the audits of the initial states.\<close>

definition read_repairs ::
  "'a list \<Rightarrow> ('a \<times> 'a list) list \<Rightarrow> 'a list option \<Rightarrow> int \<Rightarrow> (('a \<times> 'a list) list \<times> 'a list) res" where
  "read_repairs states repairs initial_states max_paths =
     rbind (distinct_sequence states) (\<lambda>finite_states.
     if finite_states = [] then Inl ValueError
     else if fst ` set repairs \<noteq> set finite_states then Inl ValueError
     else if max_paths \<le> 0 then Inl ValueError
     else rbind (rmap (successor_row repairs finite_states) finite_states) (\<lambda>succ.
     rbind (case initial_states of None \<Rightarrow> Inr finite_states | Some xs \<Rightarrow> distinct_sequence xs) (\<lambda>initials.
     if initials = [] then Inl ValueError
     else if \<not> set initials \<subseteq> set finite_states then Inl ValueError
     else Inr (succ, initials))))"

definition path_report ::
  "'a list \<Rightarrow> ('a \<times> 'a list) list \<Rightarrow> 'a list \<Rightarrow> bool \<Rightarrow> bool \<Rightarrow> string list \<Rightarrow>
   ('a, 'q) initial_audit list \<Rightarrow> ('a, 'q) path_audit" where
  "path_report states succ initials states_complete relation_complete dependencies audits =
     (let complete = (states_complete \<and> relation_complete);
          coverage = (set initials = set states);
          terminating = list_all (\<lambda>a. ia_cycle_paths a = []) audits;
          certified = (complete \<and> terminating);
          unique = (certified \<and> list_all (\<lambda>a. length (ia_quotients a) = 1) audits);
          forbidden = forbidden_dependencies dependencies;
          independent = (unique \<and> forbidden = [])
      in \<lparr>pa_state_count = length states,
          pa_transition_count = sum_list (map (\<lambda>(s, row). length row) succ),
          pa_initial_count = length initials, pa_coverage = coverage,
          pa_states_complete = states_complete, pa_relation_complete = relation_complete,
          pa_exhaustion = complete, pa_terminating = terminating, pa_termination_certified = certified,
          pa_presentation_independent = (certified \<and> list_all (\<lambda>a. length (ia_terminals a) = 1) audits),
          pa_quotient_independent = independent,
          pa_ambiguous = map ia_state (filter (\<lambda>a. 1 < length (ia_quotients a)) audits),
          pa_nonterminating = map ia_state (filter (\<lambda>a. ia_cycle_paths a \<noteq> []) audits),
          pa_forbidden = forbidden, pa_initials = audits,
          pa_receipt = (coverage \<and> certified \<and> independent)\<rparr>)"

definition exhaust_repair_paths ::
  "'a list \<Rightarrow> ('a \<times> 'a list) list \<Rightarrow> ('a \<Rightarrow> 'q) \<Rightarrow> 'a list option \<Rightarrow> bool \<Rightarrow> bool \<Rightarrow> string list \<Rightarrow> int \<Rightarrow>
   ('a, 'q) path_audit res" where
  "exhaust_repair_paths states repairs quot initial_states states_complete relation_complete dependencies max_paths =
     rbind (read_repairs states repairs initial_states max_paths) (\<lambda>(succ, initials).
     rbind (audit_initials succ max_paths quot (states_complete \<and> relation_complete) initials 0) (\<lambda>audits.
     Inr (path_report states succ initials states_complete relation_complete dependencies audits)))"

section \<open>What the search finds\<close>

fun chain :: "('a \<times> 'a list) list \<Rightarrow> 'a \<Rightarrow> 'a list \<Rightarrow> bool" where
  "chain succ a [] = True"
| "chain succ a (b # bs) = (b \<in> set (succs succ a) \<and> chain succ b bs)"

text \<open>The simple paths that end in a terminal state, and those that close a cycle.\<close>

definition terminal_paths :: "('a \<times> 'a list) list \<Rightarrow> 'a \<Rightarrow> 'a list \<Rightarrow> 'a list set" where
  "terminal_paths succ a path = {path @ ext |ext. chain succ a ext \<and> distinct (path @ ext) \<and>
     succs succ (last (a # ext)) = []}"

definition cycle_paths :: "('a \<times> 'a list) list \<Rightarrow> 'a \<Rightarrow> 'a list \<Rightarrow> 'a list set" where
  "cycle_paths succ a path = {path @ ext @ [t] |ext t. chain succ a (ext @ [t]) \<and> distinct (path @ ext) \<and>
     t \<in> set (path @ ext)}"

definition closed_table :: "('a \<times> 'a list) list \<Rightarrow> bool" where
  "closed_table succ \<longleftrightarrow> (\<forall>v. set (succs succ v) \<subseteq> fst ` set succ)"

definition explores :: "(int \<Rightarrow> 'a path_search \<Rightarrow> 'a path_search res) \<Rightarrow> nat \<Rightarrow> 'a list list \<Rightarrow> 'a list list \<Rightarrow> bool" where
  "explores f n ts cs \<longleftrightarrow> (\<forall>limit st. int (explored st) \<le> limit \<longrightarrow> f limit st =
     (if int (explored st + n) \<le> limit then Inr (st\<lparr>explored := explored st + n,
        terminal_found := terminal_found st @ ts, cycle_found := cycle_found st @ cs\<rparr>) else Inl RuntimeError))"

lemma terminal_paths_stop: "succs succ a = [] \<Longrightarrow> distinct path \<Longrightarrow> terminal_paths succ a path = {path}"
proof -
  assume a: "succs succ a = []" "distinct path"
  have "chain succ a ext \<longleftrightarrow> ext = []" for ext using a(1) by (cases ext) auto
  then show ?thesis using a unfolding terminal_paths_def by auto
qed

lemma cycle_paths_stop: "succs succ a = [] \<Longrightarrow> cycle_paths succ a path = {}"
proof -
  assume a: "succs succ a = []"
  have "\<not> chain succ a (ext @ [t])" for ext t using a by (cases ext) auto
  then show ?thesis unfolding cycle_paths_def by auto
qed

lemma terminal_paths_go:
  assumes "succs succ a \<noteq> []"
  shows "terminal_paths succ a path = (\<Union>t \<in> set (succs succ a) - set path. terminal_paths succ t (path @ [t]))"
proof -
  have "x \<in> terminal_paths succ a path \<longleftrightarrow>
      (\<exists>t \<in> set (succs succ a) - set path. x \<in> terminal_paths succ t (path @ [t]))" for x
  proof
    assume "x \<in> terminal_paths succ a path"
    then obtain ext where x: "x = path @ ext" "chain succ a ext" "distinct (path @ ext)" "succs succ (last (a # ext)) = []"
      by (auto simp: terminal_paths_def)
    moreover obtain t us where "ext = t # us" using x(4) assms by (cases ext) auto
    ultimately show "\<exists>t \<in> set (succs succ a) - set path. x \<in> terminal_paths succ t (path @ [t])"
      by (intro bexI [of _ t]) (auto simp: terminal_paths_def)
  next
    assume "\<exists>t \<in> set (succs succ a) - set path. x \<in> terminal_paths succ t (path @ [t])"
    then obtain t us where "t \<in> set (succs succ a)" "x = path @ t # us" "chain succ t us" "distinct (path @ t # us)"
      "succs succ (last (t # us)) = []" by (auto simp: terminal_paths_def)
    then show "x \<in> terminal_paths succ a path"
      unfolding terminal_paths_def by (intro CollectI exI [of _ "t # us"]) simp
  qed
  then show ?thesis by blast
qed

lemma cycle_paths_go:
  assumes "distinct path"
  shows "cycle_paths succ a path = (\<lambda>t. path @ [t]) ` (set (succs succ a) \<inter> set path) \<union>
    (\<Union>t \<in> set (succs succ a) - set path. cycle_paths succ t (path @ [t]))"
proof -
  have "x \<in> cycle_paths succ a path \<longleftrightarrow> (\<exists>t \<in> set (succs succ a) \<inter> set path. x = path @ [t]) \<or>
      (\<exists>t \<in> set (succs succ a) - set path. x \<in> cycle_paths succ t (path @ [t]))" for x
  proof
    assume "x \<in> cycle_paths succ a path"
    then obtain ext t where x: "x = path @ ext @ [t]" "chain succ a (ext @ [t])" "distinct (path @ ext)"
      "t \<in> set (path @ ext)" by (auto simp: cycle_paths_def)
    show "(\<exists>t \<in> set (succs succ a) \<inter> set path. x = path @ [t]) \<or>
      (\<exists>t \<in> set (succs succ a) - set path. x \<in> cycle_paths succ t (path @ [t]))"
    proof (cases ext)
      case Nil
      then show ?thesis using x by auto
    next
      case (Cons u us)
      then have "u \<in> set (succs succ a) - set path" "x \<in> cycle_paths succ u (path @ [u])"
        using x by (auto simp: cycle_paths_def)
      then show ?thesis by blast
    qed
  next
    assume "(\<exists>t \<in> set (succs succ a) \<inter> set path. x = path @ [t]) \<or>
      (\<exists>t \<in> set (succs succ a) - set path. x \<in> cycle_paths succ t (path @ [t]))"
    then consider t where "t \<in> set (succs succ a)" "t \<in> set path" "x = path @ [t]"
      | u us t where "u \<in> set (succs succ a)" "x = path @ (u # us) @ [t]" "chain succ u (us @ [t])"
          "distinct (path @ u # us)" "t \<in> set (path @ u # us)" by (auto simp: cycle_paths_def)
    then show "x \<in> cycle_paths succ a path"
    proof cases
      case 1
      then show ?thesis using assms unfolding cycle_paths_def by (intro CollectI exI [of _ "[]"] exI [of _ t]) simp
    next
      case 2
      then show ?thesis unfolding cycle_paths_def by (intro CollectI exI [of _ "u # us"] exI [of _ t]) simp
    qed
  qed
  then show ?thesis by blast
qed

lemma targets_explore:
  assumes "\<And>t. t \<in> set targets \<Longrightarrow> t \<notin> set path \<Longrightarrow> \<exists>n ts cs.
      explores (\<lambda>limit. visit_paths succ limit t (path @ [t])) n ts cs \<and>
      set ts = terminal_paths succ t (path @ [t]) \<and> set cs = cycle_paths succ t (path @ [t])"
  shows "\<exists>n ts cs. explores (\<lambda>limit. visit_targets succ limit path targets) n ts cs \<and>
    set ts = (\<Union>t \<in> set targets - set path. terminal_paths succ t (path @ [t])) \<and>
    set cs = (\<lambda>t. path @ [t]) ` (set targets \<inter> set path) \<union>
      (\<Union>t \<in> set targets - set path. cycle_paths succ t (path @ [t]))"
  using assms
proof (induction targets)
  case Nil
  show ?case by (intro exI [of _ 0] exI [of _ "[]"]) (simp add: explores_def visit_targets.simps)
next
  case (Cons t targets)
  obtain n ts cs where rest: "explores (\<lambda>limit. visit_targets succ limit path targets) n ts cs"
    "set ts = (\<Union>t \<in> set targets - set path. terminal_paths succ t (path @ [t]))"
    "set cs = (\<lambda>t. path @ [t]) ` (set targets \<inter> set path) \<union>
      (\<Union>t \<in> set targets - set path. cycle_paths succ t (path @ [t]))"
    using Cons.IH Cons.prems by auto
  show ?case
  proof (cases "t \<in> set path")
    case True
    have "explores (\<lambda>limit. visit_targets succ limit path (t # targets)) (Suc n) ts ((path @ [t]) # cs)"
      using rest(1) True unfolding explores_def by (auto simp: visit_targets.simps count_path_def)
    then show ?thesis using rest(2,3) True by (intro exI conjI) auto
  next
    case False
    obtain n' ts' cs' where v: "explores (\<lambda>limit. visit_paths succ limit t (path @ [t])) n' ts' cs'"
      "set ts' = terminal_paths succ t (path @ [t])" "set cs' = cycle_paths succ t (path @ [t])"
      using Cons.prems [of t] False by auto
    have "explores (\<lambda>limit. visit_targets succ limit path (t # targets)) (Suc (n' + n)) (ts' @ ts) (cs' @ cs)"
      using rest(1) v(1) False unfolding explores_def by (auto simp: visit_targets.simps count_path_def)
    then show ?thesis using rest(2,3) v(2,3) False by (intro exI conjI) auto
  qed
qed

lemma visit_explores:
  assumes "closed_table succ"
  shows "a \<in> fst ` set succ \<Longrightarrow> distinct path \<Longrightarrow> \<exists>n ts cs.
    explores (\<lambda>limit. visit_paths succ limit a path) n ts cs \<and>
    set ts = terminal_paths succ a path \<and> set cs = cycle_paths succ a path"
proof (induction "keys_left succ path" arbitrary: a path rule: less_induct)
  case less
  obtain row where row: "map_of succ a = Some row" "succs succ a = row"
    using less.prems(1) by (cases "map_of succ a") (auto simp: succs_def map_of_eq_None_iff)
  show ?case
  proof (cases "row = []")
    case True
    have "explores (\<lambda>limit. visit_paths succ limit a path) 1 [path] []"
      using row True unfolding explores_def by (auto simp: visit_paths.simps count_path_def)
    moreover have "terminal_paths succ a path = {path}" "cycle_paths succ a path = {}"
      using row(2) True less.prems(2) by (simp_all add: terminal_paths_stop cycle_paths_stop)
    ultimately show ?thesis by (intro exI [of _ 1] exI [of _ "[path]"] exI [of _ "[]"]) simp
  next
    case False
    have found: "\<exists>n ts cs. explores (\<lambda>limit. visit_targets succ limit path row) n ts cs \<and>
      set ts = (\<Union>t \<in> set row - set path. terminal_paths succ t (path @ [t])) \<and>
      set cs = (\<lambda>t. path @ [t]) ` (set row \<inter> set path) \<union>
        (\<Union>t \<in> set row - set path. cycle_paths succ t (path @ [t]))"
    proof (rule targets_explore)
      fix t assume t: "t \<in> set row" "t \<notin> set path"
      then have k: "t \<in> fst ` set succ" using assms row(2) unfolding closed_table_def by blast
      show "\<exists>n ts cs. explores (\<lambda>limit. visit_paths succ limit t (path @ [t])) n ts cs \<and>
        set ts = terminal_paths succ t (path @ [t]) \<and> set cs = cycle_paths succ t (path @ [t])"
        using less.hyps [OF keys_left_less [OF k t(2)] k] less.prems(2) t(2) by simp
    qed
    have "(\<lambda>limit. visit_paths succ limit a path) = (\<lambda>limit. visit_targets succ limit path row)"
      using row(1) False by (intro ext) (simp add: visit_paths.simps)
    moreover have "terminal_paths succ a path = (\<Union>t \<in> set row - set path. terminal_paths succ t (path @ [t]))"
      using terminal_paths_go [of succ a path] row(2) False by simp
    moreover note cycle_paths_go [OF less.prems(2), of succ a, unfolded row(2)]
    ultimately show ?thesis using found by (simp only:)
  qed
qed



section \<open>Paths and reachability\<close>

lemma chain_append: "chain succ a (xs @ ys) \<longleftrightarrow> chain succ a xs \<and> chain succ (last (a # xs)) ys"
  by (induction xs arbitrary: a) auto

lemma chain_reaches: "chain succ a xs \<Longrightarrow> (a, last (a # xs)) \<in> (edges succ)\<^sup>*"
proof (induction xs arbitrary: a)
  case (Cons b xs)
  then have "(a, b) \<in> edges succ" "(b, last (b # xs)) \<in> (edges succ)\<^sup>*" by (simp_all add: edges_def)
  then show ?case by (simp add: converse_rtrancl_into_rtrancl)
qed simp

lemma chain_loops: "chain succ a (xs @ [t]) \<Longrightarrow> (a, t) \<in> (edges succ)\<^sup>+"
proof -
  assume "chain succ a (xs @ [t])"
  then have c: "chain succ a xs" "t \<in> set (succs succ (last (a # xs)))" by (simp_all add: chain_append)
  then have "(last (a # xs), t) \<in> edges succ" unfolding edges_def by blast
  with chain_reaches [OF c(1)] show ?thesis by (rule rtrancl_into_trancl1)
qed

lemma chain_suffix: "chain succ a xs \<Longrightarrow> a # xs = us @ b # vs \<Longrightarrow> chain succ b vs"
  by (cases us) (auto simp: chain_append)

lemma simple_chain: "(a, b) \<in> (edges succ)\<^sup>* \<Longrightarrow> \<exists>xs. chain succ a xs \<and> distinct (a # xs) \<and> last (a # xs) = b"
proof (induction rule: converse_rtrancl_induct)
  case base
  show ?case by (intro exI [of _ "[]"]) simp
next
  case (step a c)
  then obtain xs where xs: "chain succ c xs" "distinct (c # xs)" "last (c # xs) = b" by blast
  show ?case
  proof (cases "a \<in> set (c # xs)")
    case True
    then obtain us vs where s: "c # xs = us @ a # vs" by (meson split_list)
    have "chain succ a vs" by (rule chain_suffix [OF xs(1) s])
    moreover have "distinct (a # vs)" "last (a # vs) = b" using xs(2,3) unfolding s by auto
    ultimately show ?thesis by blast
  next
    case False
    then show ?thesis using xs step.hyps(1) by (intro exI [of _ "c # xs"]) (auto simp: edges_def)
  qed
qed

lemma terminal_path_ends: "last ` terminal_paths succ a [a] = {b. (a, b) \<in> (edges succ)\<^sup>* \<and> succs succ b = []}"
proof (intro equalityI subsetI)
  fix b assume "b \<in> last ` terminal_paths succ a [a]"
  then show "b \<in> {b. (a, b) \<in> (edges succ)\<^sup>* \<and> succs succ b = []}"
    using chain_reaches by (fastforce simp: terminal_paths_def)
next
  fix b assume "b \<in> {b. (a, b) \<in> (edges succ)\<^sup>* \<and> succs succ b = []}"
  then obtain xs where "chain succ a xs" "distinct (a # xs)" "last (a # xs) = b" "succs succ b = []"
    using simple_chain [of a b succ] by auto
  then show "b \<in> last ` terminal_paths succ a [a]"
    by (intro image_eqI [of _ _ "[a] @ xs"]) (auto simp: terminal_paths_def)
qed

lemma repeating_chain: "chain succ a xs \<Longrightarrow> \<not> distinct (a # xs) \<Longrightarrow> cycle_paths succ a [a] \<noteq> {}"
proof (induction xs rule: rev_induct)
  case (snoc t xs)
  show ?case
  proof (cases "distinct (a # xs)")
    case True
    then have "t \<in> set ([a] @ xs)" using snoc.prems(2) by auto
    then have "[a] @ xs @ [t] \<in> cycle_paths succ a [a]"
      using snoc.prems(1) True unfolding cycle_paths_def by (intro CollectI exI [of _ xs] exI [of _ t]) simp
    then show ?thesis by blast
  next
    case False
    then show ?thesis using snoc by (simp add: chain_append)
  qed
qed simp

lemma no_cycle_paths: "cycle_paths succ a [a] = {} \<longleftrightarrow> (\<forall>b. (a, b) \<in> (edges succ)\<^sup>* \<longrightarrow> (b, b) \<notin> (edges succ)\<^sup>+)"
proof (intro iffI allI impI notI)
  fix b assume none: "cycle_paths succ a [a] = {}" and ab: "(a, b) \<in> (edges succ)\<^sup>*" and bb: "(b, b) \<in> (edges succ)\<^sup>+"
  obtain xs where xs: "chain succ a xs" "last (a # xs) = b" using simple_chain [OF ab] by blast
  obtain c where c: "(b, c) \<in> edges succ" "(c, b) \<in> (edges succ)\<^sup>*" using bb by (meson tranclD)
  obtain ys where ys: "chain succ c ys" "last (c # ys) = b" using simple_chain [OF c(2)] by blast
  have walk: "chain succ a (xs @ c # ys)" using xs ys(1) c(1) by (simp add: chain_append edges_def)
  have "b \<in> set (a # xs)" "b \<in> set (c # ys)"
    using last_in_set [of "a # xs"] last_in_set [of "c # ys"] unfolding xs(2) ys(2) by simp_all
  then have "\<not> distinct (a # xs @ c # ys)" by auto
  from repeating_chain [OF walk this] none show False by simp
next
  assume acyc: "\<forall>b. (a, b) \<in> (edges succ)\<^sup>* \<longrightarrow> (b, b) \<notin> (edges succ)\<^sup>+"
  show "cycle_paths succ a [a] = {}"
  proof (rule ccontr)
    assume "cycle_paths succ a [a] \<noteq> {}"
    then obtain xs t where x: "chain succ a (xs @ [t])" "t \<in> set (a # xs)" by (auto simp: cycle_paths_def)
    obtain us vs where s: "a # xs = us @ t # vs" using x(2) by (meson split_list)
    have "chain succ t (vs @ [t])" using chain_suffix [OF x(1), of us t "vs @ [t]"] s by simp
    then have "(t, t) \<in> (edges succ)\<^sup>+" by (rule chain_loops)
    moreover have "(a, t) \<in> (edges succ)\<^sup>*" using chain_reaches [OF x(1)] by simp
    ultimately show False using acyc by blast
  qed
qed

section \<open>The verdict of the audit\<close>

definition sound_initial :: "('a \<times> 'a list) list \<Rightarrow> ('a \<Rightarrow> 'q) \<Rightarrow> 'a \<Rightarrow> ('a, 'q) initial_audit \<Rightarrow> bool" where
  "sound_initial succ quot s a \<longleftrightarrow> ia_state a = s \<and>
     set (ia_terminal_paths a) = terminal_paths succ s [s] \<and> set (ia_cycle_paths a) = cycle_paths succ s [s] \<and>
     ia_terminals a = uniq (map last (ia_terminal_paths a)) \<and> ia_quotients a = uniq (map quot (ia_terminals a))"

lemma audit_initials_result:
  assumes "closed_table succ"
  shows "set ss \<subseteq> fst ` set succ \<Longrightarrow> \<exists>n audits. list_all2 (sound_initial succ quot) ss audits \<and>
    (\<forall>limit seen. int seen \<le> limit \<longrightarrow> audit_initials succ limit quot complete ss seen =
       (if int (seen + n) \<le> limit then Inr audits else Inl RuntimeError))"
proof (induction ss)
  case Nil
  show ?case by (intro exI [of _ 0] exI [of _ "[]"]) simp
next
  case (Cons s ss)
  obtain n audits where rest: "list_all2 (sound_initial succ quot) ss audits"
    "\<And>limit seen. int seen \<le> limit \<Longrightarrow> audit_initials succ limit quot complete ss seen =
       (if int (seen + n) \<le> limit then Inr audits else Inl RuntimeError)"
    using Cons.IH Cons.prems by auto
  obtain m ts cs where v: "explores (\<lambda>limit. visit_paths succ limit s [s]) m ts cs"
    "set ts = terminal_paths succ s [s]" "set cs = cycle_paths succ s [s]"
    using visit_explores [OF assms, of s "[s]"] Cons.prems by auto
  let ?terminals = "uniq (map last ts)"
  let ?audit = "\<lparr>ia_state = s, ia_terminal_paths = ts, ia_cycle_paths = cs, ia_terminals = ?terminals,
     ia_quotients = uniq (map quot ?terminals),
     ia_status = (if \<not> complete \<or> cs \<noteq> [] \<or> uniq (map quot ?terminals) = [] then UNKNOWN
             else if length (uniq (map quot ?terminals)) = 1 then UNIQUE else AMBIGUOUS)\<rparr>"
  have a: "audit_initial succ limit quot complete s seen =
      (if int (seen + m) \<le> limit then Inr (?audit, seen + m) else Inl RuntimeError)" if "int seen \<le> limit" for limit seen
    using v(1) that unfolding explores_def audit_initial_def by (simp add: Let_def)
  have "audit_initials succ limit quot complete (s # ss) seen =
      (if int (seen + (m + n)) \<le> limit then Inr (?audit # audits) else Inl RuntimeError)" if "int seen \<le> limit" for limit seen
    using rest(2) [of "seen + m" limit] unfolding audit_initials.simps a [OF that] by (auto simp: add.assoc)
  moreover have "sound_initial succ quot s ?audit" using v(2,3) by (simp add: sound_initial_def)
  ultimately show ?case using rest(1) by (intro exI [of _ "m + n"] exI [of _ "?audit # audits"]) simp
qed

lemma sound_initialD:
  assumes "sound_initial succ quot s a"
  shows "set (ia_terminals a) = {b. (s, b) \<in> (edges succ)\<^sup>* \<and> succs succ b = []}"
    and "set (ia_quotients a) = quot ` {b. (s, b) \<in> (edges succ)\<^sup>* \<and> succs succ b = []}"
    and "ia_cycle_paths a = [] \<longleftrightarrow> (\<forall>b. (s, b) \<in> (edges succ)\<^sup>* \<longrightarrow> (b, b) \<notin> (edges succ)\<^sup>+)"
    and "distinct (ia_quotients a)"
    and "ia_terminal_paths a = [] \<longleftrightarrow> {b. (s, b) \<in> (edges succ)\<^sup>* \<and> succs succ b = []} = {}"
proof -
  show t: "set (ia_terminals a) = {b. (s, b) \<in> (edges succ)\<^sup>* \<and> succs succ b = []}"
    using assms terminal_path_ends [of succ s] by (simp add: sound_initial_def)
  then show "set (ia_quotients a) = quot ` {b. (s, b) \<in> (edges succ)\<^sup>* \<and> succs succ b = []}"
    using assms by (simp add: sound_initial_def)
  show "ia_cycle_paths a = [] \<longleftrightarrow> (\<forall>b. (s, b) \<in> (edges succ)\<^sup>* \<longrightarrow> (b, b) \<notin> (edges succ)\<^sup>+)"
    using assms no_cycle_paths [of succ s] by (auto simp: sound_initial_def)
  show "distinct (ia_quotients a)" using assms by (simp add: sound_initial_def)
  show "ia_terminal_paths a = [] \<longleftrightarrow> {b. (s, b) \<in> (edges succ)\<^sup>* \<and> succs succ b = []} = {}"
  proof -
    have "ia_terminals a = [] \<longleftrightarrow> ia_terminal_paths a = []" using assms by (simp add: sound_initial_def)
    then show ?thesis unfolding t [symmetric] by simp
  qed
qed


lemma successor_rows:
  assumes "rmap (successor_row repairs states) states = Inr succ" "fst ` set repairs = set states"
  shows "map fst succ = states" "succs succ v = succs repairs v" "closed_table succ"
proof -
  have row: "successor_row repairs states s = Inr x \<longleftrightarrow>
      (\<exists>row. map_of repairs s = Some row \<and> distinct row \<and> set row \<subseteq> set states \<and> x = (s, row))" for s x
    by (auto simp: successor_row_def distinct_sequence_def split: option.splits)
  have "rmap (successor_row repairs states) xs = Inr ys \<Longrightarrow> map fst ys = xs \<and>
      (\<forall>s \<in> set xs. map_of ys s = map_of repairs s \<and> (\<exists>row. map_of repairs s = Some row \<and> set row \<subseteq> set states))" for xs ys
  proof (induction xs arbitrary: ys)
    case (Cons x xs)
    then obtain r ys' where "successor_row repairs states x = Inr r" "rmap (successor_row repairs states) xs = Inr ys'"
      "ys = r # ys'" by (auto elim!: rbind_eq_InrE)
    with Cons.IH [OF this(2)] show ?case unfolding row by auto
  qed simp
  note f = this [OF assms(1)]
  show keys: "map fst succ = states" using f by blast
  then have k: "fst ` set succ = set states" by (metis set_map)
  show eq: "succs succ v = succs repairs v" for v
  proof (cases "v \<in> set states")
    case True
    then show ?thesis using f by (simp add: succs_def)
  next
    case False
    then show ?thesis using k assms(2) by (simp add: succs_outside)
  qed
  show "closed_table succ"
    unfolding closed_table_def
  proof
    fix v
    show "set (succs succ v) \<subseteq> fst ` set succ"
    proof (cases "v \<in> set states")
      case True
      then obtain row where "map_of succ v = Some row" "set row \<subseteq> set states" using f by metis
      then show ?thesis using k by (simp add: succs_def)
    next
      case False
      then have "succs succ v = []" using k by (intro succs_outside) simp
      then show ?thesis by simp
    qed
  qed
qed

lemma read_repairs_Inr:
  assumes "read_repairs states repairs init limit = Inr (succ, initials)"
  shows "distinct states" "fst ` set repairs = set states" "0 < limit"
    and "rmap (successor_row repairs states) states = Inr succ"
    and "initials = (case init of None \<Rightarrow> states | Some xs \<Rightarrow> xs)" "initials \<noteq> []" "set initials \<subseteq> set states"
proof -
  have d1: "distinct states"
    using assms by (cases "distinct states") (simp_all add: read_repairs_def distinct_sequence_def)
  have d0: "states \<noteq> []" using assms by (cases "states = []") (simp_all add: read_repairs_def distinct_sequence_def)
  have d2: "fst ` set repairs = set states"
    using assms d1 d0 by (cases "fst ` set repairs = set states") (simp_all add: read_repairs_def distinct_sequence_def)
  have d3: "0 < limit"
    using assms d1 d0 d2 by (cases "0 < limit") (simp_all add: read_repairs_def distinct_sequence_def)
  have "rbind (rmap (successor_row repairs states) states) (\<lambda>succ.
     rbind (case init of None \<Rightarrow> Inr states | Some xs \<Rightarrow> distinct_sequence xs) (\<lambda>initials.
     if initials = [] then Inl ValueError
     else if \<not> set initials \<subseteq> set states then Inl ValueError else Inr (succ, initials))) = Inr (succ, initials)"
    using assms d1 d2 d3 d0 by (simp add: read_repairs_def distinct_sequence_def)
  then obtain rows xs where rows: "rmap (successor_row repairs states) states = Inr rows"
    and xs: "(case init of None \<Rightarrow> Inr states | Some xs \<Rightarrow> distinct_sequence xs) = Inr xs"
    and last: "(if xs = [] then Inl ValueError else if \<not> set xs \<subseteq> set states then Inl ValueError
       else Inr (rows, xs)) = Inr (succ, initials)" by (elim rbind_eq_InrE)
  have l: "rows = succ" "xs = initials" "initials \<noteq> []" "set initials \<subseteq> set states"
    using last by (cases "xs = []"; cases "set xs \<subseteq> set states"; simp)+
  show "rmap (successor_row repairs states) states = Inr succ" using rows l(1) by simp
  show "initials = (case init of None \<Rightarrow> states | Some xs \<Rightarrow> xs)" using xs l(2) by (cases init) simp_all
  show "initials \<noteq> []" "set initials \<subseteq> set states" by (fact l)+
  show "distinct states" "fst ` set repairs = set states" "0 < limit" by (fact d1 d2 d3)+
qed

text \<open>
  A state is settled when every run from it ends and all terminal states it reaches have one
  quotient value.
\<close>

definition loop_free :: "('a \<times> 'a list) list \<Rightarrow> 'a \<Rightarrow> bool" where
  "loop_free repairs s \<longleftrightarrow> (\<forall>b. (s, b) \<in> (edges repairs)\<^sup>* \<longrightarrow> (b, b) \<notin> (edges repairs)\<^sup>+)"

definition terminals_from :: "('a \<times> 'a list) list \<Rightarrow> 'a \<Rightarrow> 'a set" where
  "terminals_from repairs s = {b. (s, b) \<in> (edges repairs)\<^sup>* \<and> succs repairs b = []}"

text \<open>What an audit that was returned says about the repair relation.\<close>

lemma exhaust_result:
  assumes "exhaust_repair_paths states repairs quot init sc rc deps limit = Inr a"
  shows "pa_initials a \<noteq> [] \<and> set (map ia_state (pa_initials a)) = set (case init of None \<Rightarrow> states | Some xs \<Rightarrow> xs) \<and>
    distinct states \<and> fst ` set repairs = set states \<and>
    (pa_coverage a \<longleftrightarrow> set (case init of None \<Rightarrow> states | Some xs \<Rightarrow> xs) = set states) \<and>
    (\<forall>i \<in> set (pa_initials a). set (ia_terminals i) = terminals_from repairs (ia_state i) \<and>
      set (ia_quotients i) = quot ` terminals_from repairs (ia_state i) \<and>
      (ia_cycle_paths i = [] \<longleftrightarrow> loop_free repairs (ia_state i)) \<and> distinct (ia_quotients i) \<and>
      (ia_terminal_paths i = [] \<longleftrightarrow> terminals_from repairs (ia_state i) = {})) \<and>
    (pa_terminating a \<longleftrightarrow> (\<forall>i \<in> set (pa_initials a). loop_free repairs (ia_state i))) \<and>
    (pa_quotient_independent a \<longleftrightarrow> sc \<and> rc \<and> pa_terminating a \<and> forbidden_dependencies deps = [] \<and>
      (\<forall>i \<in> set (pa_initials a). \<exists>q. quot ` terminals_from repairs (ia_state i) = {q})) \<and>
    (pa_receipt a \<longleftrightarrow> pa_coverage a \<and> pa_quotient_independent a)"
proof -
  obtain succ initials audits where rd: "read_repairs states repairs init limit = Inr (succ, initials)"
    and au: "audit_initials succ limit quot (sc \<and> rc) initials 0 = Inr audits"
    and ar: "a = path_report states succ initials sc rc deps audits"
    using assms unfolding exhaust_repair_paths_def by (auto elim!: rbind_eq_InrE)
  note r = read_repairs_Inr [OF rd]
  have a: "pa_initials a = audits" "pa_coverage a \<longleftrightarrow> set initials = set states"
      "pa_terminating a \<longleftrightarrow> list_all (\<lambda>a. ia_cycle_paths a = []) audits"
      "pa_quotient_independent a \<longleftrightarrow> (sc \<and> rc) \<and> pa_terminating a \<and>
         list_all (\<lambda>a. length (ia_quotients a) = 1) audits \<and> forbidden_dependencies deps = []"
      "pa_receipt a \<longleftrightarrow> pa_coverage a \<and> pa_quotient_independent a"
    unfolding ar path_report_def Let_def by auto
  note s = successor_rows [OF r(4,2)]
  have e: "edges succ = edges repairs" using s(2) by (simp add: edges_def)
  have k: "fst ` set succ = set states" using s(1) by (metis set_map)
  have "set initials \<subseteq> fst ` set succ" unfolding k by (fact r(7))
  from audit_initials_result [OF s(3) this, of quot "sc \<and> rc"] obtain n audits'
    where na: "list_all2 (sound_initial succ quot) initials audits'"
      "\<And>limit seen. int seen \<le> limit \<Longrightarrow> audit_initials succ limit quot (sc \<and> rc) initials seen =
         (if int (seen + n) \<le> limit then Inr audits' else Inl RuntimeError)" by blast
  have "audits = audits'" using na(2) [of 0 limit] au r(3) by (simp split: if_splits)
  with na(1) have "list_all2 (sound_initial succ quot) initials audits" by simp
  then have l: "length audits = length initials" "\<And>j. j < length initials \<Longrightarrow> sound_initial succ quot (initials ! j) (audits ! j)"
    by (simp_all add: list_all2_conv_all_nth)
  then have "map ia_state audits = initials" by (intro nth_equalityI) (auto simp: sound_initial_def)
  then have st: "set (map ia_state audits) = set initials" by simp
  have i: "set (ia_terminals i) = terminals_from repairs (ia_state i) \<and>
      set (ia_quotients i) = quot ` terminals_from repairs (ia_state i) \<and>
      (ia_cycle_paths i = [] \<longleftrightarrow> loop_free repairs (ia_state i)) \<and> distinct (ia_quotients i) \<and>
      (ia_terminal_paths i = [] \<longleftrightarrow> terminals_from repairs (ia_state i) = {})"
    if mem: "i \<in> set audits" for i
  proof -
    obtain j where "j < length initials" "i = audits ! j" using mem l(1) by (auto simp: in_set_conv_nth)
    then have "sound_initial succ quot (ia_state i) i" using l(2) by (auto simp: sound_initial_def)
    from sound_initialD [OF this] show ?thesis by (simp add: e s(2) loop_free_def terminals_from_def)
  qed
  have one: "length (ia_quotients i) = 1 \<longleftrightarrow> (\<exists>q. quot ` terminals_from repairs (ia_state i) = {q})"
    if "i \<in> set audits" for i
    using length_one_set [of "ia_quotients i"] i [OF that] by simp
  have t: "pa_terminating a \<longleftrightarrow> (\<forall>i \<in> set audits. loop_free repairs (ia_state i))"
    using i unfolding a(3) list_all_iff by blast
  have q: "list_all (\<lambda>a. length (ia_quotients a) = 1) audits \<longleftrightarrow>
      (\<forall>i \<in> set audits. \<exists>q. quot ` terminals_from repairs (ia_state i) = {q})"
    using one unfolding list_all_iff by blast
  have n: "audits \<noteq> []" using l(1) r(6) by auto
  show ?thesis
    unfolding a(1) r(5) [symmetric]
    apply (intro conjI ballI)
    subgoal by (fact n)
    subgoal by (fact st)
    subgoal by (fact r(1))
    subgoal by (fact r(2))
    subgoal by (fact a(2))
    subgoal using i by blast
    subgoal using i by blast
    subgoal using i by blast
    subgoal using i by blast
    subgoal using i by blast
    subgoal by (fact t)
    subgoal using a(4) q by blast
    subgoal by (fact a(5))
    done
qed

text \<open>With a large enough budget the audit is returned, and the budget does not change it.\<close>

lemma exhaust_returns:
  assumes "distinct states" "states \<noteq> []" "fst ` set repairs = set states" "\<forall>(s, row) \<in> set repairs. distinct row \<and> set row \<subseteq> set states"
  shows "\<exists>n a. \<forall>limit > 0. exhaust_repair_paths states repairs quot None sc rc deps limit =
    (if int n \<le> limit then Inr a else Inl RuntimeError)"
proof -
  have "\<exists>r. successor_row repairs states s = Inr r" if "s \<in> set states" for s
  proof -
    have "map_of repairs s \<noteq> None" using that assms(3) by (simp add: map_of_eq_None_iff)
    then obtain row where row: "map_of repairs s = Some row" by blast
    then have "(s, row) \<in> set repairs" by (rule map_of_SomeD)
    then show ?thesis using assms(4) row by (auto simp: successor_row_def distinct_sequence_def)
  qed
  then have "\<exists>succ. rmap (successor_row repairs states) states = Inr succ" unfolding rmap_Inr_iff ..
  then obtain succ where succ: "rmap (successor_row repairs states) states = Inr succ" ..
  note s = successor_rows [OF succ assms(3)]
  have k: "fst ` set succ = set states" using s(1) by (metis set_map)
  have "set states \<subseteq> fst ` set succ" unfolding k ..
  from audit_initials_result [OF s(3) this, of quot "sc \<and> rc"] obtain n audits
    where "\<And>limit seen. int seen \<le> limit \<Longrightarrow> audit_initials succ limit quot (sc \<and> rc) states seen =
      (if int (seen + n) \<le> limit then Inr audits else Inl RuntimeError)" by blast
  from this [of 0] have "audit_initials succ limit quot (sc \<and> rc) states 0 =
      (if int n \<le> limit then Inr audits else Inl RuntimeError)" if "0 < limit" for limit using that by simp
  then show ?thesis
    using assms(1-3) succ unfolding exhaust_repair_paths_def read_repairs_def
    by (intro exI [of _ n]) (auto simp: distinct_sequence_def)
qed

end
