(* ===== verification/Observable_Forms.thy ===== *)
theory Observable_Forms
  imports Repair_Paths
begin

text \<open>
  Observation-determined normal forms (\<open>verify_observation_determined_normal_form\<close> of
  \<open>oph_fpe/quotient/observable_normal_form.py\<close>) and the field classification of
  \<open>oph_fpe/ontology/firewall.py\<close> it uses.  The audit compares two properties of a finite table
  of states and repairs: consistent states with one observation have one quotient value, and all
  terminal states reached from sources with one observation have one quotient value.
\<close>

section \<open>Field names of the source firewall\<close>

datatype field_category = HIDDEN_PRESENTATION | DOWNSTREAM_TARGET

definition presentation_only_fields :: "string list" where
  "presentation_only_fields = [''cache_state'', ''carrier_local_coordinates'', ''diagnostic_metadata'', ''executor_id'',
     ''local_coordinates'', ''local_port_names'', ''memory_address'', ''object_memory_address'',
     ''port_coordinates'', ''port_names'', ''presentation_state'', ''process_id'', ''process_ids'',
     ''queue_index'', ''queue_position'', ''queue_state'', ''retry_count'', ''retry_counter'', ''rng_state'',
     ''scheduler_state'', ''storage_address'', ''trace_uuid'', ''wall_clock'', ''wall_clock_ns'',
     ''worker_assignment'', ''worker_id'', ''worker_ownership'', ''worker_state'']"

definition downstream_target_fields :: "string list" where
  "downstream_target_fields = [''acceptance_threshold'', ''candidate_clock_scale'', ''candidate_geometry'',
     ''candidate_kms_normalization'', ''candidate_model'', ''comparison_data'', ''comparison_residual'',
     ''desired_branch'', ''expected_normalization'', ''fit_output'', ''fit_result'', ''measured_target'',
     ''observed_cosmology'', ''pass_threshold'', ''preferred_geometry'', ''preferred_kms_normalization'',
     ''target_beta'', ''target_coupling'', ''target_geometry'', ''target_scale'', ''target_signature'',
     ''target_vacuum'']"

definition presentation_prefixes :: "string list" where
  "presentation_prefixes = [''cache_'', ''executor_'', ''memory_'', ''queue_'', ''retry_'', ''rng_'', ''scheduler_'',
     ''wall_clock_'', ''worker_'']"

definition target_prefixes :: "string list" where
  "target_prefixes = [''candidate_'', ''desired_'', ''expected_'', ''observed_'', ''preferred_'', ''target_'']"

definition is_upper :: "char \<Rightarrow> bool" where
  "is_upper c \<longleftrightarrow> 65 \<le> (of_char c :: nat) \<and> (of_char c :: nat) \<le> 90"

text \<open>
  An underscore goes before every capital that follows a small letter or a digit; what is not a
  letter or a digit becomes an underscore, and the name is put into small letters (before the
  other characters are replaced, which gives the same name).
\<close>

fun mark_humps :: "string \<Rightarrow> string" where
  "mark_humps (c # d # cs) =
     (if is_name_char c \<and> is_upper d then c # CHR ''_'' # mark_humps (d # cs) else c # mark_humps (d # cs))"
| "mark_humps cs = cs"

definition normalize_field_name :: "string \<Rightarrow> string" where
  "normalize_field_name s = normalize_field (mark_humps s)"

definition classify_forbidden_field :: "string \<Rightarrow> field_category option" where
  "classify_forbidden_field name = (let normalized = normalize_field_name name in
     if normalized \<in> set presentation_only_fields \<or> ends_with normalized ''_uuid'' then Some HIDDEN_PRESENTATION
     else if list_ex (starts_with normalized) presentation_prefixes then Some HIDDEN_PRESENTATION
     else if normalized \<in> set downstream_target_fields \<or> list_ex (starts_with normalized) target_prefixes
     then Some DOWNSTREAM_TARGET else None)"

definition dependency_names :: "string list \<Rightarrow> string list res" where
  "dependency_names values = rbind (rmap (\<lambda>v. if strip v = [] then Inl TypeError else Inr (strip v)) values)
     (\<lambda>names. Inr (sorted_list_of_set (set names)))"

section \<open>Observation-determined normal forms\<close>

fun pairs_from :: "'a list \<Rightarrow> ('a \<times> 'a) list" where
  "pairs_from [] = []"
| "pairs_from (x # xs) = map (Pair x) (x # xs) @ pairs_from xs"

record ('a, 'o) observation_leak =
  leak_source :: 'a
  leak_target :: 'a
  leak_source_observation :: 'o
  leak_target_observation :: 'o

record ('a, 'o, 'q) boundary_defect =
  bd_observation :: 'o
  bd_left :: 'a
  bd_right :: 'a
  bd_left_quotient :: 'q
  bd_right_quotient :: 'q

record ('a, 'o, 'q) endpoint_defect =
  ed_observation :: 'o
  ed_left_source :: 'a
  ed_right_source :: 'a
  ed_left_endpoint :: 'a
  ed_right_endpoint :: 'a
  ed_left_quotient :: 'q
  ed_right_quotient :: 'q

record ('a, 'o, 'q) normal_form_audit =
  nf_state_count :: nat
  nf_transition_count :: nat
  nf_terminals :: "'a list"
  nf_consistent :: "'a list"
  nf_firewall_passed :: bool
  nf_forbidden :: "string list"
  nf_observation_preserving :: bool
  nf_leaks :: "('a, 'o) observation_leak list"
  nf_terminals_consistent :: bool
  nf_boundary_identifies :: bool
  nf_boundary_defects :: "('a, 'o, 'q) boundary_defect list"
  nf_endpoint_unique :: bool
  nf_endpoint_defects :: "('a, 'o, 'q) endpoint_defect list"
  nf_weakly_normalizing :: bool
  nf_all_terminate :: bool
  nf_hypotheses :: bool
  nf_equivalence :: bool
  nf_receipt :: bool

definition leaks_of :: "('a \<Rightarrow> 'o) \<Rightarrow> ('a \<times> 'a list) list \<Rightarrow> ('a, 'o) observation_leak list" where
  "leaks_of obs succ = concat (map (\<lambda>(s, row). map (\<lambda>t. \<lparr>leak_source = s, leak_target = t,
     leak_source_observation = obs s, leak_target_observation = obs t\<rparr>)
     (filter (\<lambda>t. obs s \<noteq> obs t) row)) succ)"

definition boundary_defects_of :: "('a \<Rightarrow> 'o) \<Rightarrow> ('a \<Rightarrow> 'q) \<Rightarrow> 'a list \<Rightarrow> ('a, 'o, 'q) boundary_defect list" where
  "boundary_defects_of obs quot consistent = map (\<lambda>(l, r). \<lparr>bd_observation = obs l, bd_left = l, bd_right = r,
     bd_left_quotient = quot l, bd_right_quotient = quot r\<rparr>)
     (filter (\<lambda>(l, r). obs l = obs r \<and> quot l \<noteq> quot r) (pairs_of consistent))"

definition endpoints_of :: "('a, 'q) initial_audit list \<Rightarrow> 'a \<Rightarrow> 'a list" where
  "endpoints_of audits s = (case find (\<lambda>a. ia_state a = s) audits of None \<Rightarrow> [] | Some a \<Rightarrow> ia_terminals a)"

definition endpoint_defects_of ::
  "('a \<Rightarrow> 'o) \<Rightarrow> ('a \<Rightarrow> 'q) \<Rightarrow> ('a, 'q) initial_audit list \<Rightarrow> 'a list \<Rightarrow> ('a, 'o, 'q) endpoint_defect list" where
  "endpoint_defects_of obs quot audits states = concat (map (\<lambda>(l, r). if obs l \<noteq> obs r then []
     else concat (map (\<lambda>le. map (\<lambda>re. \<lparr>ed_observation = obs l, ed_left_source = l, ed_right_source = r,
         ed_left_endpoint = le, ed_right_endpoint = re, ed_left_quotient = quot le, ed_right_quotient = quot re\<rparr>)
         (filter (\<lambda>re. quot le \<noteq> quot re) (endpoints_of audits r))) (endpoints_of audits l))) (pairs_from states))"

definition max_states :: int where "max_states = 4096"

definition max_transitions :: int where "max_transitions = 100000"

definition read_table :: "'a list \<Rightarrow> ('a \<times> 'a list) list \<Rightarrow> ('a \<times> 'a list) list res" where
  "read_table states repairs = rbind (distinct_sequence states) (\<lambda>finite_states.
     if finite_states = [] then Inl ValueError
     else if max_states < int (length finite_states) then Inl ValueError
     else if fst ` set repairs \<noteq> set finite_states then Inl ValueError
     else rbind (rmap (successor_row repairs finite_states) finite_states) (\<lambda>succ.
       if max_transitions < int (sum_list (map (\<lambda>(s, row). length row) succ)) then Inl ValueError else Inr succ))"

definition normal_form_report ::
  "'a list \<Rightarrow> ('a \<times> 'a list) list \<Rightarrow> ('a \<Rightarrow> 'o) \<Rightarrow> ('a \<Rightarrow> bool) \<Rightarrow> ('a \<Rightarrow> 'q) \<Rightarrow> bool \<Rightarrow> bool \<Rightarrow>
   ('a, 'q) path_audit \<Rightarrow> string list \<Rightarrow> ('a, 'o, 'q) normal_form_audit" where
  "normal_form_report states succ obs is_consistent quot states_complete relation_complete repair_audit names =
     (let consistent = filter is_consistent states;
          terminals = filter (\<lambda>s. succs succ s = []) states;
          leaks = leaks_of obs succ;
          boundary = boundary_defects_of obs quot consistent;
          endpoint = endpoint_defects_of obs quot (pa_initials repair_audit) states;
          weakly = list_all (\<lambda>a. ia_terminal_paths a \<noteq> []) (pa_initials repair_audit);
          all_end = pa_terminating repair_audit;
          forbidden = filter (\<lambda>n. classify_forbidden_field n \<noteq> None) names;
          hypotheses = (states_complete \<and> relation_complete \<and> leaks = [] \<and> set terminals = set consistent \<and> forbidden = []);
          equivalence = (hypotheses \<and> (boundary = []) = (endpoint = []))
      in \<lparr>nf_state_count = length states, nf_transition_count = sum_list (map (\<lambda>(s, row). length row) succ),
          nf_terminals = terminals, nf_consistent = consistent, nf_firewall_passed = (forbidden = []),
          nf_forbidden = forbidden, nf_observation_preserving = (leaks = []), nf_leaks = leaks,
          nf_terminals_consistent = (set terminals = set consistent),
          nf_boundary_identifies = (boundary = []), nf_boundary_defects = boundary,
          nf_endpoint_unique = (endpoint = []), nf_endpoint_defects = endpoint,
          nf_weakly_normalizing = weakly, nf_all_terminate = all_end,
          nf_hypotheses = hypotheses, nf_equivalence = equivalence,
          nf_receipt = (equivalence \<and> boundary = [] \<and> endpoint = [] \<and> weakly \<and> all_end)\<rparr>)"

definition verify_normal_form ::
  "'a list \<Rightarrow> ('a \<times> 'a list) list \<Rightarrow> ('a \<Rightarrow> 'o) \<Rightarrow> ('a \<Rightarrow> bool) \<Rightarrow> ('a \<Rightarrow> 'q) \<Rightarrow> bool \<Rightarrow> bool \<Rightarrow> string list \<Rightarrow>
   int \<Rightarrow> ('a, 'o, 'q) normal_form_audit res" where
  "verify_normal_form states repairs obs is_consistent quot states_complete relation_complete dependencies max_paths =
     rbind (read_table states repairs) (\<lambda>succ.
     rbind (exhaust_repair_paths states succ quot (Some states) states_complete relation_complete [] max_paths)
       (\<lambda>repair_audit.
     rbind (dependency_names dependencies) (\<lambda>names.
     Inr (normal_form_report states succ obs is_consistent quot states_complete relation_complete repair_audit names))))"

section \<open>The theorem behind the audit\<close>

lemma pairs_of_cover: "l \<in> set xs \<Longrightarrow> r \<in> set xs \<Longrightarrow> l = r \<or> (l, r) \<in> set (pairs_of xs) \<or> (r, l) \<in> set (pairs_of xs)"
  by (induction xs) auto

lemma pairs_of_sub: "(l, r) \<in> set (pairs_of xs) \<Longrightarrow> l \<in> set xs \<and> r \<in> set xs"
  by (induction xs) auto

lemma pairs_from_cover: "l \<in> set xs \<Longrightarrow> r \<in> set xs \<Longrightarrow> (l, r) \<in> set (pairs_from xs) \<or> (r, l) \<in> set (pairs_from xs)"
  by (induction xs) auto

lemma pairs_from_sub: "(l, r) \<in> set (pairs_from xs) \<Longrightarrow> l \<in> set xs \<and> r \<in> set xs"
  by (induction xs) auto

lemma boundary_iff: "boundary_defects_of obs quot xs = [] \<longleftrightarrow>
    (\<forall>l \<in> set xs. \<forall>r \<in> set xs. obs l = obs r \<longrightarrow> quot l = quot r)"
proof
  assume "boundary_defects_of obs quot xs = []"
  then have "\<forall>(l, r) \<in> set (pairs_of xs). obs l = obs r \<longrightarrow> quot l = quot r"
    by (auto simp: boundary_defects_of_def filter_empty_conv)
  then show "\<forall>l \<in> set xs. \<forall>r \<in> set xs. obs l = obs r \<longrightarrow> quot l = quot r"
    using pairs_of_cover [of _ xs] by fastforce
next
  assume "\<forall>l \<in> set xs. \<forall>r \<in> set xs. obs l = obs r \<longrightarrow> quot l = quot r"
  then show "boundary_defects_of obs quot xs = []"
    by (auto simp: boundary_defects_of_def filter_empty_conv dest: pairs_of_sub)
qed

lemma endpoint_iff: "endpoint_defects_of obs quot audits xs = [] \<longleftrightarrow>
    (\<forall>l \<in> set xs. \<forall>r \<in> set xs. obs l = obs r \<longrightarrow>
       (\<forall>t \<in> set (endpoints_of audits l). \<forall>u \<in> set (endpoints_of audits r). quot t = quot u))"
proof -
  let ?P = "\<lambda>l r. obs l = obs r \<longrightarrow>
     (\<forall>t \<in> set (endpoints_of audits l). \<forall>u \<in> set (endpoints_of audits r). quot t = quot u)"
  have "endpoint_defects_of obs quot audits xs = [] \<longleftrightarrow> (\<forall>(l, r) \<in> set (pairs_from xs). ?P l r)"
    by (force simp: endpoint_defects_of_def filter_empty_conv split: if_splits)
  also have "\<dots> \<longleftrightarrow> (\<forall>l \<in> set xs. \<forall>r \<in> set xs. ?P l r)"
  proof
    assume "\<forall>(l, r) \<in> set (pairs_from xs). ?P l r"
    then have "?P l r \<or> ?P r l" if "l \<in> set xs" "r \<in> set xs" for l r using pairs_from_cover [OF that] by blast
    then show "\<forall>l \<in> set xs. \<forall>r \<in> set xs. ?P l r" by metis
  next
    assume "\<forall>l \<in> set xs. \<forall>r \<in> set xs. ?P l r"
    then show "\<forall>(l, r) \<in> set (pairs_from xs). ?P l r" using pairs_from_sub by fast
  qed
  finally show ?thesis .
qed

lemma leaks_iff: "leaks_of obs succ = [] \<longleftrightarrow> (\<forall>(s, row) \<in> set succ. \<forall>t \<in> set row. obs s = obs t)"
  by (auto simp: leaks_of_def filter_empty_conv)

lemma observation_kept: "(s, t) \<in> (edges succ)\<^sup>* \<Longrightarrow> leaks_of obs succ = [] \<Longrightarrow> obs s = obs t"
proof (induction rule: rtrancl_induct)
  case (step t u)
  obtain row where "map_of succ t = Some row" "u \<in> set row"
    using step.hyps(2) by (cases "map_of succ t") (auto simp: edges_def succs_def)
  then have "(t, row) \<in> set succ" by (simp add: map_of_SomeD)
  then show ?case using step leaks_iff \<open>u \<in> set row\<close> by fastforce
qed simp

lemma loop_free_ends:
  assumes "loop_free succ s" "s \<in> S" "finite S" "\<And>v. v \<in> S \<Longrightarrow> set (succs succ v) \<subseteq> S"
  shows "terminals_from succ s \<noteq> {}"
proof -
  let ?Q = "{v. (s, v) \<in> (edges succ)\<^sup>*}" and ?R = "edges succ \<inter> {v. (s, v) \<in> (edges succ)\<^sup>*} \<times> UNIV"
  have in_S: "v \<in> S" if "(s, v) \<in> (edges succ)\<^sup>*" for v
    using that by (induction rule: rtrancl_induct) (use assms(2,4) in \<open>auto simp: edges_def\<close>)
  have "?R \<subseteq> S \<times> S" using in_S assms(4) by (auto simp: edges_def)
  then have fin: "finite ?R" using assms(3) by (meson finite_SigmaI finite_subset)
  have "acyclic ?R"
  proof (rule acyclicI, intro allI notI)
    fix v assume v: "(v, v) \<in> ?R\<^sup>+"
    then have "(s, v) \<in> (edges succ)\<^sup>*" by (auto dest: tranclD)
    moreover have "(v, v) \<in> (edges succ)\<^sup>+" using v by (rule trancl_mono) blast
    ultimately show False using assms(1) by (auto simp: loop_free_def)
  qed
  then have "wf (?R\<inverse>)" using fin by (rule finite_acyclic_wf_converse [rotated])
  moreover have "s \<in> ?Q" by simp
  ultimately obtain z where z: "z \<in> ?Q" "\<And>y. (y, z) \<in> ?R\<inverse> \<Longrightarrow> y \<notin> ?Q" by (rule wfE_min) blast
  have "succs succ z = []"
  proof (rule ccontr)
    assume "succs succ z \<noteq> []"
    then obtain y where "y \<in> set (succs succ z)" by (meson last_in_set)
    then have "(z, y) \<in> edges succ" by (simp add: edges_def)
    then show False using z by (auto intro: rtrancl_into_rtrancl)
  qed
  then show ?thesis using z(1) unfolding terminals_from_def by blast
qed


text \<open>Every terminal state keeps its source's observation; what follows relates the two checks.\<close>

lemma read_table_Inr:
  assumes "read_table states repairs = Inr succ"
  shows "distinct states" "states \<noteq> []" "fst ` set repairs = set states"
    and "rmap (successor_row repairs states) states = Inr succ"
proof -
  show d: "distinct states"
    using assms by (cases "distinct states") (simp_all add: read_table_def distinct_sequence_def)
  show n: "states \<noteq> []" using assms by (cases "states = []") (simp_all add: read_table_def distinct_sequence_def)
  show k: "fst ` set repairs = set states"
    using assms d n by (cases "max_states < int (length states)"; cases "fst ` set repairs = set states")
      (simp_all add: read_table_def distinct_sequence_def)
  have "rbind (rmap (successor_row repairs states) states) (\<lambda>succ.
      if max_transitions < int (sum_list (map (\<lambda>(s, row). length row) succ)) then Inl ValueError else Inr succ) = Inr succ"
    using assms d n k by (cases "max_states < int (length states)") (simp_all add: read_table_def distinct_sequence_def)
  then show "rmap (successor_row repairs states) states = Inr succ"
    by (elim rbind_eq_InrE) (simp split: if_splits)
qed

lemma endpoints_audits:
  assumes "s \<in> set (map ia_state audits)" "\<And>i. i \<in> set audits \<Longrightarrow> set (ia_terminals i) = T (ia_state i)"
  shows "set (endpoints_of audits s) = T s"
proof -
  obtain i where i: "find (\<lambda>a. ia_state a = s) audits = Some i"
    using assms(1) find_None_iff [of "\<lambda>a. ia_state a = s" audits] by (cases "find (\<lambda>a. ia_state a = s) audits") auto
  then have "i \<in> set audits" "ia_state i = s" by (auto simp: find_Some_iff)
  then show ?thesis using assms(2) i by (simp add: endpoints_of_def)
qed

lemma normal_form_audit:
  assumes "verify_normal_form states repairs obs is_consistent quot sc rc deps limit = Inr a"
  shows "distinct states" "fst ` set repairs = set states" "\<And>s. s \<in> set states \<Longrightarrow> set (succs repairs s) \<subseteq> set states"
    and "nf_boundary_identifies a \<longleftrightarrow> (\<forall>l \<in> set (filter is_consistent states). \<forall>r \<in> set (filter is_consistent states).
       obs l = obs r \<longrightarrow> quot l = quot r)"
    and "nf_endpoint_unique a \<longleftrightarrow> (\<forall>l \<in> set states. \<forall>r \<in> set states. obs l = obs r \<longrightarrow>
       (\<forall>t \<in> terminals_from repairs l. \<forall>u \<in> terminals_from repairs r. quot t = quot u))"
    and "nf_all_terminate a \<longleftrightarrow> (\<forall>s \<in> set states. loop_free repairs s)"
    and "nf_weakly_normalizing a \<longleftrightarrow> (\<forall>s \<in> set states. terminals_from repairs s \<noteq> {})"
    and "nf_hypotheses a \<Longrightarrow> (s, t) \<in> (edges repairs)\<^sup>* \<Longrightarrow> obs s = obs t"
    and "nf_hypotheses a \<Longrightarrow> s \<in> set states \<Longrightarrow> is_consistent s \<longleftrightarrow> succs repairs s = []"
    and "nf_equivalence a \<longleftrightarrow> nf_hypotheses a \<and> nf_boundary_identifies a = nf_endpoint_unique a"
    and "nf_receipt a \<longleftrightarrow> nf_equivalence a \<and> nf_boundary_identifies a \<and> nf_endpoint_unique a \<and>
       nf_weakly_normalizing a \<and> nf_all_terminate a"
proof -
  obtain succ ra names where rt: "read_table states repairs = Inr succ"
    and ex: "exhaust_repair_paths states succ quot (Some states) sc rc [] limit = Inr ra"
    and ar: "a = normal_form_report states succ obs is_consistent quot sc rc ra names"
    using assms unfolding verify_normal_form_def by (elim rbind_eq_InrE) (metis sum.inject(2))
  have a: "nf_boundary_identifies a \<longleftrightarrow> boundary_defects_of obs quot (filter is_consistent states) = []"
      "nf_endpoint_unique a \<longleftrightarrow> endpoint_defects_of obs quot (pa_initials ra) states = []"
      "nf_weakly_normalizing a \<longleftrightarrow> list_all (\<lambda>a. ia_terminal_paths a \<noteq> []) (pa_initials ra)"
      "nf_all_terminate a \<longleftrightarrow> pa_terminating ra"
      "nf_hypotheses a \<Longrightarrow> leaks_of obs succ = [] \<and>
         set (filter (\<lambda>s. succs succ s = []) states) = set (filter is_consistent states)"
      "nf_equivalence a \<longleftrightarrow> nf_hypotheses a \<and> nf_boundary_identifies a = nf_endpoint_unique a"
      "nf_receipt a \<longleftrightarrow> nf_equivalence a \<and> nf_boundary_identifies a \<and> nf_endpoint_unique a \<and>
         nf_weakly_normalizing a \<and> nf_all_terminate a"
    unfolding ar normal_form_report_def Let_def by simp_all
  note t = read_table_Inr [OF rt]
  note s = successor_rows [OF t(4,3)]
  have e: "edges succ = edges repairs" using s(2) by (simp add: edges_def)
  have stop: "terminals_from succ = terminals_from repairs" by (intro ext) (simp add: terminals_from_def e s(2))
  have loop: "loop_free succ = loop_free repairs" by (intro ext) (simp add: loop_free_def e)
  note r = exhaust_result [OF ex, unfolded stop loop option.case]
  have states: "set (map ia_state (pa_initials ra)) = set states" using r by (elim conjE)
  have per: "\<forall>i \<in> set (pa_initials ra). set (ia_terminals i) = terminals_from repairs (ia_state i) \<and>
      set (ia_quotients i) = quot ` terminals_from repairs (ia_state i) \<and>
      (ia_cycle_paths i = [] \<longleftrightarrow> loop_free repairs (ia_state i)) \<and> distinct (ia_quotients i) \<and>
      (ia_terminal_paths i = [] \<longleftrightarrow> terminals_from repairs (ia_state i) = {})" using r by (elim conjE)
  have fin: "pa_terminating ra \<longleftrightarrow> (\<forall>i \<in> set (pa_initials ra). loop_free repairs (ia_state i))"
    using r by (elim conjE)
  have audits: "set (ia_terminals i) = terminals_from repairs (ia_state i)"
    "ia_terminal_paths i = [] \<longleftrightarrow> terminals_from repairs (ia_state i) = {}" if "i \<in> set (pa_initials ra)" for i
    using bspec [OF per that] by simp_all
  have ends: "set (endpoints_of (pa_initials ra) s) = terminals_from repairs s" if "s \<in> set states" for s
    using endpoints_audits [of s "pa_initials ra" "terminals_from repairs"] that audits(1) unfolding states by blast
  show "distinct states" "fst ` set repairs = set states" by (fact t)+
  have k: "fst ` set succ = set states" using s(1) by (metis set_map)
  show "set (succs repairs v) \<subseteq> set states" if "v \<in> set states" for v
    using s(3) unfolding closed_table_def k s(2) by blast
  show "nf_boundary_identifies a \<longleftrightarrow> (\<forall>l \<in> set (filter is_consistent states). \<forall>r \<in> set (filter is_consistent states).
       obs l = obs r \<longrightarrow> quot l = quot r)" unfolding a(1) by (rule boundary_iff)
  show "nf_endpoint_unique a \<longleftrightarrow> (\<forall>l \<in> set states. \<forall>r \<in> set states. obs l = obs r \<longrightarrow>
       (\<forall>t \<in> terminals_from repairs l. \<forall>u \<in> terminals_from repairs r. quot t = quot u))"
    unfolding a(2) endpoint_iff by (simp add: ends)
  have all: "(\<forall>i \<in> set (pa_initials ra). P (ia_state i)) \<longleftrightarrow> (\<forall>s \<in> set states. P s)" for P
    unfolding states [symmetric] by simp
  show "nf_all_terminate a \<longleftrightarrow> (\<forall>s \<in> set states. loop_free repairs s)"
    unfolding a(4) all [symmetric] by (fact fin)
  show "nf_weakly_normalizing a \<longleftrightarrow> (\<forall>s \<in> set states. terminals_from repairs s \<noteq> {})"
    unfolding a(3) all [symmetric] list_all_iff using audits(2) by blast
  show "nf_hypotheses a \<Longrightarrow> (s, t) \<in> (edges repairs)\<^sup>* \<Longrightarrow> obs s = obs t"
    using a(5) observation_kept [of s t succ obs] unfolding e by blast
  show "is_consistent s \<longleftrightarrow> succs repairs s = []" if "nf_hypotheses a" "s \<in> set states"
  proof -
    have "s \<in> set (filter (\<lambda>s. succs succ s = []) states) \<longleftrightarrow> s \<in> set (filter is_consistent states)"
      using a(5) [OF that(1)] by blast
    then show ?thesis using that(2) s(2) by simp
  qed
  show "nf_equivalence a \<longleftrightarrow> nf_hypotheses a \<and> nf_boundary_identifies a = nf_endpoint_unique a" by (fact a(6))
  show "nf_receipt a \<longleftrightarrow> nf_equivalence a \<and> nf_boundary_identifies a \<and> nf_endpoint_unique a \<and>
       nf_weakly_normalizing a \<and> nf_all_terminate a" by (fact a(7))
qed

end
