(* ===== verification/Resampling.thy ===== *)
theory Resampling
  imports Observable_Forms
begin

text \<open>
  Recognition of the kernel that resamples a state inside its observation fiber
  (\<open>recognize_conditional_resampling_kernel\<close> of
  \<open>oph_fpe/quotient/observable_normal_form.py\<close>).  The audit evaluates three local conditions
  R1 (support), R2 (equal rows) and R3 (detailed balance) and the closed formula of the kernel;
  the lemmas show that on a stochastic table the conditions and the formula say the same.
\<close>

section \<open>The audit\<close>

datatype kernel_check =
  R1_FIBER_SUPPORT | R2_FIBER_ROW_CONSTANT | R3_WEIGHTED_DETAILED_BALANCE | EXPLICIT_FIBER_FORMULA

record 'a entry_defect =
  en_check :: kernel_check
  en_left :: 'a
  en_right :: 'a
  en_actual :: rat
  en_expected :: rat

record 'a row_defect =
  rd_check :: kernel_check
  rd_left :: 'a
  rd_right :: 'a
  rd_targets :: "'a list"

record 'a resampling_audit =
  rs_state_count :: nat
  rs_fiber_count :: nat
  rs_positive :: bool
  rs_normalized :: bool
  rs_nonnegative :: bool
  rs_stochastic :: bool
  rs_r1 :: bool
  rs_r2 :: bool
  rs_r3 :: bool
  rs_formula :: bool
  rs_entry_defects :: "'a entry_defect list"
  rs_row_defects :: "'a row_defect list"
  rs_hypotheses :: bool
  rs_receipt :: bool

text \<open>A row of the kernel holds every declared state; what the caller left out is zero.\<close>

definition full_row :: "'a list \<Rightarrow> ('a \<times> rat) list \<Rightarrow> ('a \<times> rat) list" where
  "full_row states row = map (\<lambda>t. (t, case map_of row t of None \<Rightarrow> 0 | Some w \<Rightarrow> w)) states"

definition read_value :: "'a \<times> pyval \<Rightarrow> ('a \<times> rat) res" where
  "read_value tv = rbind (exact_fraction (snd tv)) (\<lambda>w. Inr (fst tv, w))"

definition read_full_row :: "'a list \<Rightarrow> ('a, pyval) kernel \<Rightarrow> 'a \<Rightarrow> ('a \<times> ('a \<times> rat) list) res" where
  "read_full_row states raw_kernel s = (case map_of raw_kernel s of
     None \<Rightarrow> Inl KeyError
   | Some row \<Rightarrow> if \<not> fst ` set row \<subseteq> set states then Inl ValueError
       else rbind (rmap read_value row) (\<lambda>r. Inr (s, full_row states r)))"

definition read_state_weight :: "('a \<times> pyval) list \<Rightarrow> 'a \<Rightarrow> ('a \<times> rat) res" where
  "read_state_weight weights s = (case map_of weights s of
     None \<Rightarrow> Inl KeyError
   | Some v \<Rightarrow> rbind (exact_fraction v) (\<lambda>w. Inr (s, w)))"

definition read_resampling ::
  "'a list \<Rightarrow> ('a, pyval) kernel \<Rightarrow> ('a \<times> pyval) list \<Rightarrow> (('a \<times> rat) list \<times> ('a, rat) kernel) res" where
  "read_resampling states raw_kernel weights = rbind (distinct_sequence states) (\<lambda>finite_states.
     if finite_states = [] then Inl ValueError
     else if max_states < int (length finite_states) then Inl ValueError
     else if fst ` set weights \<noteq> set finite_states then Inl ValueError
     else if fst ` set raw_kernel \<noteq> set finite_states then Inl ValueError
     else rbind (rmap (read_state_weight weights) finite_states) (\<lambda>exact_weights.
       if list_ex (\<lambda>(s, w). w \<le> 0) exact_weights then Inl ValueError
       else rbind (rmap (read_full_row finite_states raw_kernel) finite_states) (\<lambda>exact_kernel.
         Inr (exact_weights, exact_kernel))))"

definition support_defects :: "'a list \<Rightarrow> ('a \<Rightarrow> 'o) \<Rightarrow> ('a \<Rightarrow> 'a \<Rightarrow> rat) \<Rightarrow> 'a entry_defect list" where
  "support_defects states obs K = concat (map (\<lambda>s. map (\<lambda>t. \<lparr>en_check = R1_FIBER_SUPPORT,
       en_left = s, en_right = t, en_actual = K s t, en_expected = 0\<rparr>)
     (filter (\<lambda>t. obs s \<noteq> obs t \<and> K s t \<noteq> 0) states)) states)"

definition row_defects :: "'a list \<Rightarrow> ('a \<Rightarrow> 'o) \<Rightarrow> ('a \<Rightarrow> 'a \<Rightarrow> rat) \<Rightarrow> 'a row_defect list" where
  "row_defects states obs K = concat (map (\<lambda>(l, r). if obs l \<noteq> obs r then []
     else let differing = filter (\<lambda>t. K l t \<noteq> K r t) states
       in if differing = [] then [] else [\<lparr>rd_check = R2_FIBER_ROW_CONSTANT, rd_left = l, rd_right = r,
            rd_targets = differing\<rparr>]) (pairs_of states))"

definition balance_defects :: "'a list \<Rightarrow> ('a \<Rightarrow> rat) \<Rightarrow> ('a \<Rightarrow> 'a \<Rightarrow> rat) \<Rightarrow> 'a entry_defect list" where
  "balance_defects states w K = concat (map (\<lambda>l. map (\<lambda>r. \<lparr>en_check = R3_WEIGHTED_DETAILED_BALANCE,
       en_left = l, en_right = r, en_actual = w l * K l r, en_expected = w r * K r l\<rparr>)
     (filter (\<lambda>r. w l * K l r \<noteq> w r * K r l) states)) states)"

definition fiber_mass :: "'a list \<Rightarrow> ('a \<Rightarrow> 'o) \<Rightarrow> ('a \<Rightarrow> rat) \<Rightarrow> 'a \<Rightarrow> rat" where
  "fiber_mass states obs w s = sum_list (map w (filter (\<lambda>t. obs t = obs s) states))"

definition fiber_formula :: "'a list \<Rightarrow> ('a \<Rightarrow> 'o) \<Rightarrow> ('a \<Rightarrow> rat) \<Rightarrow> 'a \<Rightarrow> 'a \<Rightarrow> rat" where
  "fiber_formula states obs w s t = (if obs t = obs s then w t / fiber_mass states obs w s else 0)"

definition formula_defects :: "'a list \<Rightarrow> ('a \<Rightarrow> 'o) \<Rightarrow> ('a \<Rightarrow> rat) \<Rightarrow> ('a \<Rightarrow> 'a \<Rightarrow> rat) \<Rightarrow> 'a entry_defect list" where
  "formula_defects states obs w K = concat (map (\<lambda>s. map (\<lambda>t. \<lparr>en_check = EXPLICIT_FIBER_FORMULA,
       en_left = s, en_right = t, en_actual = K s t, en_expected = fiber_formula states obs w s t\<rparr>)
     (filter (\<lambda>t. K s t \<noteq> fiber_formula states obs w s t) states)) states)"

definition resampling_report ::
  "'a list \<Rightarrow> ('a \<Rightarrow> 'o) \<Rightarrow> ('a \<times> rat) list \<Rightarrow> ('a, rat) kernel \<Rightarrow> 'a resampling_audit" where
  "resampling_report states obs weights kernel_table =
     (let w = (\<lambda>s. the (map_of weights s)); K = (\<lambda>s t. the (map_of (the (map_of kernel_table s)) t));
          normalized = (sum_list (map snd weights) = 1);
          nonnegative = list_all (\<lambda>(s, row). list_all (\<lambda>(t, v). 0 \<le> v) row) kernel_table;
          stochastic = list_all (\<lambda>(s, row). sum_list (map snd row) = 1) kernel_table;
          support = support_defects states obs K; rows = row_defects states obs K;
          balance = balance_defects states w K; formula = formula_defects states obs w K;
          defects = support @ balance @ formula;
          r1 = list_all (\<lambda>d. en_check d \<noteq> R1_FIBER_SUPPORT) support;
          r2 = (rows = []);
          r3 = list_all (\<lambda>d. en_check d \<noteq> R3_WEIGHTED_DETAILED_BALANCE) (support @ balance);
          formula_match = list_all (\<lambda>d. en_check d \<noteq> EXPLICIT_FIBER_FORMULA) defects;
          hypotheses = (normalized \<and> nonnegative \<and> stochastic)
      in \<lparr>rs_state_count = length states, rs_fiber_count = length (uniq (map obs states)), rs_positive = True,
          rs_normalized = normalized, rs_nonnegative = nonnegative, rs_stochastic = stochastic,
          rs_r1 = r1, rs_r2 = r2, rs_r3 = r3, rs_formula = formula_match,
          rs_entry_defects = defects, rs_row_defects = rows, rs_hypotheses = hypotheses,
          rs_receipt = (hypotheses \<and> r1 \<and> r2 \<and> r3 \<and> formula_match)\<rparr>)"

definition recognize_resampling ::
  "'a list \<Rightarrow> ('a, pyval) kernel \<Rightarrow> ('a \<times> pyval) list \<Rightarrow> ('a \<Rightarrow> 'o) \<Rightarrow> 'a resampling_audit res" where
  "recognize_resampling states raw_kernel weights obs =
     rbind (read_resampling states raw_kernel weights) (\<lambda>(exact_weights, exact_kernel).
     Inr (resampling_report states obs exact_weights exact_kernel))"

section \<open>The conditions and the formula\<close>

definition supported :: "'a set \<Rightarrow> ('a \<Rightarrow> 'o) \<Rightarrow> ('a \<Rightarrow> 'a \<Rightarrow> rat) \<Rightarrow> bool" where
  "supported S obs K \<longleftrightarrow> (\<forall>s \<in> S. \<forall>t \<in> S. obs s \<noteq> obs t \<longrightarrow> K s t = 0)"

definition rows_constant :: "'a set \<Rightarrow> ('a \<Rightarrow> 'o) \<Rightarrow> ('a \<Rightarrow> 'a \<Rightarrow> rat) \<Rightarrow> bool" where
  "rows_constant S obs K \<longleftrightarrow> (\<forall>l \<in> S. \<forall>r \<in> S. obs l = obs r \<longrightarrow> (\<forall>t \<in> S. K l t = K r t))"

definition balanced :: "'a set \<Rightarrow> ('a \<Rightarrow> rat) \<Rightarrow> ('a \<Rightarrow> 'a \<Rightarrow> rat) \<Rightarrow> bool" where
  "balanced S w K \<longleftrightarrow> (\<forall>l \<in> S. \<forall>r \<in> S. w l * K l r = w r * K r l)"

definition stochastic :: "'a set \<Rightarrow> ('a \<Rightarrow> 'a \<Rightarrow> rat) \<Rightarrow> bool" where
  "stochastic S K \<longleftrightarrow> (\<forall>s \<in> S. (\<Sum>t \<in> S. K s t) = 1)"

definition resamples :: "'a set \<Rightarrow> ('a \<Rightarrow> 'o) \<Rightarrow> ('a \<Rightarrow> rat) \<Rightarrow> ('a \<Rightarrow> 'a \<Rightarrow> rat) \<Rightarrow> bool" where
  "resamples S obs w K \<longleftrightarrow> (\<forall>s \<in> S. \<forall>t \<in> S.
     K s t = (if obs t = obs s then w t / (\<Sum>u \<in> {u \<in> S. obs u = obs s}. w u) else 0))"

lemma resamples_on: "resamples S obs w K \<Longrightarrow> s \<in> S \<Longrightarrow> t \<in> S \<Longrightarrow>
    K s t = (if obs t = obs s then w t / (\<Sum>u \<in> {u \<in> S. obs u = obs s}. w u) else 0)"
  unfolding resamples_def by blast

lemma mass_positive:
  fixes w :: "'a \<Rightarrow> rat"
  assumes "finite S" "\<forall>s \<in> S. 0 < w s" "s \<in> S"
  shows "0 < (\<Sum>u \<in> {u \<in> S. obs u = obs s}. w u)"
  using assms by (intro sum_pos) auto

lemma conditions_formula:
  fixes w :: "'a \<Rightarrow> rat"
  assumes "finite S" "\<forall>s \<in> S. 0 < w s"
    and "stochastic S K" "supported S obs K" "rows_constant S obs K" "balanced S w K"
  shows "resamples S obs w K"
  unfolding resamples_def
proof (intro ballI)
  fix s t
  assume st: "s \<in> S" "t \<in> S"
  let ?F = "{u \<in> S. obs u = obs s}"
  have same: "w s * K s u = w u * K s s" if "u \<in> ?F" for u
  proof -
    have "w s * K s u = w u * K u s" using assms(6) st(1) that unfolding balanced_def by blast
    moreover have "K u s = K s s" using assms(5) st(1) that unfolding rows_constant_def by blast
    ultimately show ?thesis by simp
  qed
  have "(\<Sum>u \<in> ?F. K s u) = (\<Sum>u \<in> S. K s u)"
    using assms(1,4) st(1) unfolding supported_def by (intro sum.mono_neutral_left) fastforce+
  also have "\<dots> = 1" using assms(3) st(1) by (simp add: stochastic_def)
  finally have "w s = (\<Sum>u \<in> ?F. w s * K s u)" unfolding sum_distrib_left [symmetric] by simp
  also have "\<dots> = (\<Sum>u \<in> ?F. w u) * K s s"
    unfolding sum_distrib_right by (rule sum.cong [OF refl same])
  finally have w: "w s = (\<Sum>u \<in> ?F. w u) * K s s" .
  have m: "0 < (\<Sum>u \<in> ?F. w u)" "0 < w s" by (rule mass_positive [OF assms(1,2) st(1)]) (rule bspec [OF assms(2) st(1)])
  show "K s t = (if obs t = obs s then w t / (\<Sum>u \<in> ?F. w u) else 0)"
  proof (cases "obs t = obs s")
    case True
    then have "w s * K s t = w t * K s s" using same st(2) by blast
    then have "(\<Sum>u \<in> ?F. w u) * K s s * K s t = w t * K s s" using w by simp
    moreover have "K s s \<noteq> 0" using w m(2) by auto
    ultimately have "(\<Sum>u \<in> ?F. w u) * K s t = w t" by (simp add: mult.commute mult.left_commute)
    then show ?thesis using m(1) True by (simp add: field_simps)
  next
    case False
    then show ?thesis using assms(4) st by (auto simp: supported_def)
  qed
qed

lemma formula_conditions:
  fixes w :: "'a \<Rightarrow> rat"
  assumes "finite S" "\<forall>s \<in> S. 0 < w s" "resamples S obs w K"
  shows "stochastic S K" "supported S obs K" "rows_constant S obs K" "balanced S w K"
    and "\<forall>s \<in> S. \<forall>t \<in> S. 0 \<le> K s t"
proof -
  note K = resamples_on [OF assms(3)]
  note m = mass_positive [OF assms(1,2), of _ obs]
  show "supported S obs K" using K by (simp add: supported_def)
  show "rows_constant S obs K" unfolding rows_constant_def using K by simp
  show "balanced S w K" unfolding balanced_def using K by (simp add: mult.commute)
  show "\<forall>s \<in> S. \<forall>t \<in> S. 0 \<le> K s t" using K m assms(2) by (simp add: less_imp_le)
  show "stochastic S K"
    unfolding stochastic_def
  proof
    fix s
    assume s: "s \<in> S"
    let ?F = "{u \<in> S. obs u = obs s}"
    have "(\<Sum>t \<in> S. K s t) = (\<Sum>t \<in> ?F. w t / (\<Sum>u \<in> ?F. w u))"
      using assms(1) s K by (intro sum.mono_neutral_cong_right) auto
    also have "\<dots> = 1" using m [OF s] by (simp add: sum_divide_distrib [symmetric])
    finally show "(\<Sum>t \<in> S. K s t) = 1" .
  qed
qed

text \<open>Resampling twice is resampling once, and the weights are a stationary measure.\<close>

lemma resamples_twice:
  fixes w :: "'a \<Rightarrow> rat"
  assumes "finite S" "\<forall>s \<in> S. 0 < w s" "resamples S obs w K" "s \<in> S" "t \<in> S"
  shows "(\<Sum>u \<in> S. K s u * K u t) = K s t" "(\<Sum>u \<in> S. w u * K u t) = w t"
proof -
  note c = formula_conditions [OF assms(1-3)]
  have rows: "(\<Sum>u \<in> S. K r u) = 1" if "r \<in> S" for r using c(1) that by (simp add: stochastic_def)
  have "K s u * K u t = K s u * K s t" if "u \<in> S" for u
  proof (cases "obs s = obs u")
    case True
    then have "K u t = K s t" using c(3) that assms(4,5) unfolding rows_constant_def by metis
    then show ?thesis by simp
  next
    case False
    then have "K s u = 0" using c(2) that assms(4) unfolding supported_def by blast
    then show ?thesis by simp
  qed
  then have "(\<Sum>u \<in> S. K s u * K u t) = (\<Sum>u \<in> S. K s u) * K s t"
    unfolding sum_distrib_right by (rule sum.cong [OF refl])
  then show "(\<Sum>u \<in> S. K s u * K u t) = K s t" using rows [OF assms(4)] by simp
  have "w u * K u t = w t * K t u" if "u \<in> S" for u using c(4) that assms(5) by (simp add: balanced_def)
  then have "(\<Sum>u \<in> S. w u * K u t) = w t * (\<Sum>u \<in> S. K t u)"
    unfolding sum_distrib_left by (rule sum.cong [OF refl])
  then show "(\<Sum>u \<in> S. w u * K u t) = w t" using rows [OF assms(5)] by simp
qed

section \<open>The defect lists\<close>

lemma support_defects_Nil: "support_defects states obs K = [] \<longleftrightarrow> supported (set states) obs K"
  unfolding support_defects_def supported_def by (simp add: filter_empty_conv) blast

lemma balance_defects_Nil: "balance_defects states w K = [] \<longleftrightarrow> balanced (set states) w K"
  unfolding balance_defects_def balanced_def by (simp add: filter_empty_conv)

lemma formula_defects_Nil: "formula_defects states obs w K = [] \<longleftrightarrow>
    (\<forall>s \<in> set states. \<forall>t \<in> set states. K s t = fiber_formula states obs w s t)"
  unfolding formula_defects_def by (simp add: filter_empty_conv)

lemma row_defects_Nil: "row_defects states obs K = [] \<longleftrightarrow> rows_constant (set states) obs K"
proof -
  have "row_defects states obs K = [] \<longleftrightarrow>
      (\<forall>(l, r) \<in> set (pairs_of states). obs l = obs r \<longrightarrow> (\<forall>t \<in> set states. K l t = K r t))"
    unfolding row_defects_def by (auto simp: Let_def filter_empty_conv split: if_splits)
  also have "\<dots> \<longleftrightarrow> rows_constant (set states) obs K"
  proof
    assume p: "\<forall>(l, r) \<in> set (pairs_of states). obs l = obs r \<longrightarrow> (\<forall>t \<in> set states. K l t = K r t)"
    have "K l t = K r t" if m: "l \<in> set states" "r \<in> set states" "obs l = obs r" "t \<in> set states" for l r t
      using pairs_of_cover [OF m(1,2)]
    proof (elim disjE)
      assume "(l, r) \<in> set (pairs_of states)"
      from bspec [OF p this] show ?thesis using m by simp
    next
      assume "(r, l) \<in> set (pairs_of states)"
      from bspec [OF p this] show ?thesis using m by simp
    qed simp
    then show "rows_constant (set states) obs K" unfolding rows_constant_def by blast
  next
    assume "rows_constant (set states) obs K"
    then show "\<forall>(l, r) \<in> set (pairs_of states). obs l = obs r \<longrightarrow> (\<forall>t \<in> set states. K l t = K r t)"
      unfolding rows_constant_def using pairs_of_sub by fast
  qed
  finally show ?thesis .
qed

lemma defect_checks:
  "list_all (\<lambda>d. en_check d = R1_FIBER_SUPPORT) (support_defects states obs K)"
  "list_all (\<lambda>d. en_check d = R3_WEIGHTED_DETAILED_BALANCE) (balance_defects states w K)"
  "list_all (\<lambda>d. en_check d = EXPLICIT_FIBER_FORMULA) (formula_defects states obs w K)"
  by (auto simp: support_defects_def balance_defects_def formula_defects_def list_all_iff)

lemma fiber_formula_sum: "distinct states \<Longrightarrow>
    fiber_mass states obs w s = (\<Sum>u \<in> {u \<in> set states. obs u = obs s}. w u)"
  unfolding fiber_mass_def by (simp add: sum_list_distinct_conv_sum_set)

section \<open>The audit and the caller's table\<close>

definition raw_weight :: "('a \<times> pyval) list \<Rightarrow> 'a \<Rightarrow> rat" where
  "raw_weight weights s = (case map_of weights s of None \<Rightarrow> 0
     | Some v \<Rightarrow> (case exact_fraction v of Inl _ \<Rightarrow> 0 | Inr w \<Rightarrow> w))"

lemma read_state_weight_Inr: "read_state_weight weights s = Inr x \<Longrightarrow> x = (s, raw_weight weights s)"
  by (auto simp: read_state_weight_def raw_weight_def split: option.splits elim!: rbind_eq_InrE)

lemma read_value_Inr: "read_value tv = Inr x \<longleftrightarrow> (\<exists>w. exact_fraction (snd tv) = Inr w \<and> x = (fst tv, w))"
  by (cases "exact_fraction (snd tv)") (auto simp: read_value_def)

lemma read_value_rows:
  "rmap read_value row = Inr r \<Longrightarrow> map_of r t =
     (case map_of row t of None \<Rightarrow> None | Some v \<Rightarrow> (case exact_fraction v of Inl _ \<Rightarrow> None | Inr w \<Rightarrow> Some w))"
proof (induction row arbitrary: r)
  case (Cons tv row)
  then obtain w r' where "exact_fraction (snd tv) = Inr w" "r = (fst tv, w) # r'" "rmap read_value row = Inr r'"
    by (auto simp: read_value_Inr elim!: rbind_eq_InrE)
  with Cons.IH [OF this(3)] show ?case by (cases tv) auto
qed simp

lemma read_full_row_Inr:
  assumes "read_full_row states K s = Inr x"
  shows "x = (s, map (\<lambda>t. (t, raw_entry K s t)) states)"
proof -
  obtain row where row: "map_of K s = Some row"
    using assms by (auto simp: read_full_row_def split: option.splits)
  then obtain r where r: "rmap read_value row = Inr r" "x = (s, full_row states r)"
    using assms by (auto simp: read_full_row_def split: if_splits elim!: rbind_eq_InrE)
  have "(case map_of r t of None \<Rightarrow> 0 | Some w \<Rightarrow> w) = raw_entry K s t" for t
    unfolding raw_entry_def row read_value_rows [OF r(1)] by (auto split: option.splits sum.splits)
  then show ?thesis using r(2) by (simp add: full_row_def)
qed

lemma rmap_determined:
  "rmap f xs = Inr ys \<Longrightarrow> (\<And>x y. f x = Inr y \<Longrightarrow> y = g x) \<Longrightarrow> ys = map g xs"
  by (induction xs arbitrary: ys) (auto elim!: rbind_eq_InrE)

lemma read_resampling_Inr:
  assumes "read_resampling states K weights = Inr (ws, ex)"
  shows "distinct states" "states \<noteq> []"
    and "ws = map (\<lambda>s. (s, raw_weight weights s)) states"
    and "\<forall>s \<in> set states. 0 < raw_weight weights s"
    and "ex = map (\<lambda>s. (s, map (\<lambda>t. (t, raw_entry K s t)) states)) states"
proof -
  show d: "distinct states"
    using assms by (cases "distinct states") (simp_all add: read_resampling_def distinct_sequence_def)
  obtain ws' ex' where r: "rmap (read_state_weight weights) states = Inr ws'"
      "\<not> list_ex (\<lambda>(s, w). w \<le> 0) ws'" "rmap (read_full_row states K) states = Inr ex'" "ws' = ws" "ex' = ex"
      "states \<noteq> []"
    using assms unfolding read_resampling_def by (auto split: if_splits elim!: rbind_eq_InrE)
  show "states \<noteq> []" by (fact r(6))
  show ws: "ws = map (\<lambda>s. (s, raw_weight weights s)) states"
    using rmap_determined [OF r(1) read_state_weight_Inr] r(4) by simp
  show "ex = map (\<lambda>s. (s, map (\<lambda>t. (t, raw_entry K s t)) states)) states"
    using rmap_determined [OF r(3) read_full_row_Inr] r(5) by simp
  show "\<forall>s \<in> set states. 0 < raw_weight weights s"
    using r(2) unfolding r(4) ws by (auto simp: list_ex_iff not_le)
qed

lemma map_of_table: "s \<in> set xs \<Longrightarrow> map_of (map (\<lambda>s. (s, f s)) xs) s = Some (f s)"
  by (induction xs) auto

lemma support_cong:
  assumes "\<And>s t. s \<in> set xs \<Longrightarrow> t \<in> set xs \<Longrightarrow> K s t = L s t"
  shows "supported (set xs) obs K \<longleftrightarrow> supported (set xs) obs L" "rows_constant (set xs) obs K \<longleftrightarrow> rows_constant (set xs) obs L"
  using assms by (simp_all add: supported_def rows_constant_def)

lemma sum_over_table: "distinct xs \<Longrightarrow> sum_list (map snd (map (\<lambda>s. (s, f s)) xs)) = (\<Sum>s \<in> set xs. f s :: rat)"
  by (simp add: o_def sum_list_distinct_conv_sum_set)

text \<open>Each flag of the audit is the corresponding statement on the caller's table.\<close>

lemma resampling_flags:
  assumes "recognize_resampling states K weights obs = Inr a"
  defines "S \<equiv> set states" and "w \<equiv> raw_weight weights" and "M \<equiv> raw_entry K"
  shows "rs_normalized a \<longleftrightarrow> (\<Sum>s \<in> S. w s) = 1"
    and "rs_nonnegative a \<longleftrightarrow> (\<forall>s \<in> S. \<forall>t \<in> S. 0 \<le> M s t)"
    and "rs_stochastic a \<longleftrightarrow> stochastic S M"
    and "rs_r1 a \<longleftrightarrow> supported S obs M" "rs_r2 a \<longleftrightarrow> rows_constant S obs M" "rs_r3 a \<longleftrightarrow> balanced S w M"
    and "rs_formula a \<longleftrightarrow> resamples S obs w M"
    and "rs_receipt a \<longleftrightarrow> rs_normalized a \<and> rs_nonnegative a \<and> rs_stochastic a \<and>
      rs_r1 a \<and> rs_r2 a \<and> rs_r3 a \<and> rs_formula a"
    and "\<forall>s \<in> S. 0 < w s"
proof -
  obtain ws ex where rd: "read_resampling states K weights = Inr (ws, ex)" and a: "a = resampling_report states obs ws ex"
    using assms(1) by (auto simp: recognize_resampling_def elim!: rbind_eq_InrE)
  note r = read_resampling_Inr [OF rd]
  let ?w = "\<lambda>s. the (map_of ws s)" and ?K = "\<lambda>s t. the (map_of (the (map_of ex s)) t)"
  have w: "?w s = w s" if "s \<in> S" for s using that by (simp add: map_of_table r(3) w_def S_def)
  have K: "?K s t = M s t" if "s \<in> S" "t \<in> S" for s t
    using that by (simp add: map_of_table r(5) M_def S_def)
  note n = defect_checks [unfolded list_all_iff]
  have c: "rs_r1 a \<longleftrightarrow> support_defects states obs ?K = []" "rs_r2 a \<longleftrightarrow> row_defects states obs ?K = []"
      "rs_r3 a \<longleftrightarrow> balance_defects states ?w ?K = []" "rs_formula a \<longleftrightarrow> formula_defects states obs ?w ?K = []"
    unfolding a resampling_report_def Let_def
    using n(1) [of states obs ?K] n(2) [of states ?w ?K] n(3) [of states obs ?w ?K]
    by (auto simp: list_all_iff)
  show "rs_normalized a \<longleftrightarrow> (\<Sum>s \<in> S. w s) = 1"
    unfolding a resampling_report_def Let_def by (simp add: r(3) sum_over_table [OF r(1), simplified] S_def w_def)
  show "rs_nonnegative a \<longleftrightarrow> (\<forall>s \<in> S. \<forall>t \<in> S. 0 \<le> M s t)"
    unfolding a resampling_report_def Let_def by (simp add: r(5) list_all_iff S_def M_def)
  show "rs_stochastic a \<longleftrightarrow> stochastic S M"
    unfolding a resampling_report_def Let_def stochastic_def
    by (simp add: r(5) list_all_iff S_def M_def o_def sum_list_distinct_conv_sum_set [OF r(1)])
  show "rs_r1 a \<longleftrightarrow> supported S obs M" "rs_r2 a \<longleftrightarrow> rows_constant S obs M"
    unfolding c support_defects_Nil row_defects_Nil S_def [symmetric] supported_def rows_constant_def
    using K by simp_all
  show "rs_r3 a \<longleftrightarrow> balanced S w M"
    unfolding c balance_defects_Nil S_def [symmetric] balanced_def using K w by simp
  have "fiber_mass states obs ?w s = (\<Sum>u \<in> {u \<in> S. obs u = obs s}. w u)" for s
    unfolding fiber_formula_sum [OF r(1)] S_def [symmetric] by (rule sum.cong) (use w in auto)
  then show "rs_formula a \<longleftrightarrow> resamples S obs w M"
    unfolding c formula_defects_Nil fiber_formula_def S_def [symmetric] resamples_def using K w by simp
  show "rs_receipt a \<longleftrightarrow> rs_normalized a \<and> rs_nonnegative a \<and> rs_stochastic a \<and>
      rs_r1 a \<and> rs_r2 a \<and> rs_r3 a \<and> rs_formula a"
    unfolding a resampling_report_def Let_def by simp
  show "\<forall>s \<in> S. 0 < w s" using r(4) unfolding S_def w_def .
qed

end
