(* ===== verification/Cycle_Potential.thy ===== *)
theory Cycle_Potential
  imports Cycle_Holonomy
begin

text \<open>
  Correctness of the cycle audit: the forest invariant along the edges, the value of a walk under
  a potential, and the result of the audit.
\<close>

section \<open>Congruence\<close>

definition congruent :: "rat option \<Rightarrow> rat \<Rightarrow> rat \<Rightarrow> bool" where
  "congruent m x y = (case m of None \<Rightarrow> x = y | Some k \<Rightarrow> \<exists>n. x - y = of_int n * k)"

lemma congruent_refl [simp]: "congruent m x x"
  by (cases m) (auto simp: congruent_def intro: exI [of _ 0])

lemma congruent_eq: "x = y \<Longrightarrow> congruent m x y"
  by simp

lemma congruent_add: "congruent m a b \<Longrightarrow> congruent m c d \<Longrightarrow> congruent m (a + c) (b + d)"
proof (cases m)
  case (Some k)
  assume "congruent m a b" "congruent m c d"
  then obtain i j where "a - b = of_int i * k" "c - d = of_int j * k" by (auto simp: congruent_def Some)
  then have "a + c - (b + d) = of_int (i + j) * k" by (simp add: algebra_simps)
  then show ?thesis unfolding congruent_def Some option.case by blast
qed (simp add: congruent_def)

lemma congruent_uminus: "congruent m a b \<Longrightarrow> congruent m (- a) (- b)"
proof (cases m)
  case (Some k)
  assume "congruent m a b"
  then obtain i where "a - b = of_int i * k" by (auto simp: congruent_def Some)
  then have "- a - - b = of_int (- i) * k" by simp
  then show ?thesis unfolding congruent_def Some option.case by blast
qed (simp add: congruent_def)

lemma congruent_sym: "congruent m a b \<Longrightarrow> congruent m b a"
  using congruent_add [OF congruent_uminus congruent_refl [of m "a + b"], of a b] by simp

lemma congruent_trans: "congruent m a b \<Longrightarrow> congruent m b c \<Longrightarrow> congruent m a c"
  using congruent_add [of m "a - b" 0 "b" c] congruent_add [of m a b "- b" "- b"] by simp

lemma congruent_cong: "congruent m a b \<Longrightarrow> congruent m a c \<longleftrightarrow> congruent m b c"
  using congruent_sym congruent_trans by blast

lemma congruent_move: "congruent m (q + d) 0 \<longleftrightarrow> congruent m (- d) q"
proof
  assume "congruent m (q + d) 0"
  from congruent_sym [OF congruent_add [OF this congruent_refl [of m "- d"]]] show "congruent m (- d) q" by simp
next
  assume "congruent m (- d) q"
  from congruent_sym [OF congruent_add [OF this congruent_refl [of m d]]] show "congruent m (q + d) 0" by simp
qed

lemma congruent_shift: "congruent m a (b + c) \<longleftrightarrow> congruent m (a - b) c"
  by (cases m) (auto simp: congruent_def algebra_simps)

lemma frac_mod_zero:
  assumes "0 < k"
  shows "frac_mod x k = 0 \<longleftrightarrow> congruent (Some k) x 0"
proof -
  have "frac_mod x k = 0 \<longleftrightarrow> x / k = of_int \<lfloor>x / k\<rfloor>"
    using assms by (auto simp: frac_mod_def field_simps)
  also have "\<dots> \<longleftrightarrow> (\<exists>n. x / k = of_int n)" by (metis floor_of_int)
  also have "\<dots> \<longleftrightarrow> congruent (Some k) x 0" using assms by (auto simp: congruent_def field_simps)
  finally show ?thesis .
qed

section \<open>The invariant of the forest\<close>

lemma row_of_add:
  "row_of (add_to_row v x adj) w = (if w = v \<and> v \<in> fst ` set adj then row_of adj w @ [x] else row_of adj w)"
proof -
  have "map_of (add_to_row v x adj) w = map_option (\<lambda>row. if w = v then row @ [x] else row) (map_of adj w)"
    by (induction adj) (auto simp: add_to_row_def)
  moreover have "v \<in> fst ` set adj \<longleftrightarrow> map_of adj v \<noteq> None" by (simp add: map_of_eq_None_iff)
  ultimately show ?thesis by (cases "map_of adj w") (auto simp: row_of_def)
qed

lemma keys_add [simp]: "map fst (add_to_row v x adj) = map fst adj"
  by (simp add: add_to_row_def comp_def case_prod_beta)

text \<open>An edge of the tree can be walked both ways.\<close>

definition hops :: "'v abelian_edge list \<Rightarrow> nat set \<Rightarrow> 'v \<Rightarrow> ('v \<times> nat \<times> int) set" where
  "hops es I v = {(w, i, s). i \<in> I \<and> (s = 1 \<and> source (es ! i) = v \<and> target (es ! i) = w \<or>
     s = - 1 \<and> target (es ! i) = v \<and> source (es ! i) = w)}"

definition forest_ok :: "'v list \<Rightarrow> 'v abelian_edge list \<Rightarrow> rat list \<Rightarrow> nat set \<Rightarrow> 'v forest \<Rightarrow> bool" where
  "forest_ok vs es qs D f \<longleftrightarrow> uf_ok (set vs) (f_sets f) \<and> map fst (f_adjacency f) = vs \<and>
     set (f_tree f) \<union> set (f_chords f) = D \<and>
     (\<forall>v \<in> set vs. set (row_of (f_adjacency f) v) = hops es (set (f_tree f)) v) \<and>
     (\<forall>a \<in> set vs. \<forall>b \<in> set vs. uf_same (f_sets f) a b \<longrightarrow> (\<exists>ts. walk (f_adjacency f) a ts b)) \<and>
     (\<forall>i \<in> set (f_chords f). source (es ! i) \<in> set vs \<and> target (es ! i) \<in> set vs \<and>
        uf_same (f_sets f) (source (es ! i)) (target (es ! i))) \<and>
     (\<exists>p. \<forall>(a, b, q) \<in> (\<lambda>i. (source (es ! i), target (es ! i), qs ! i)) ` set (f_tree f).
        a \<in> set vs \<and> b \<in> set vs \<and> uf_same (f_sets f) a b \<and> p b - p a = q) \<and>
     card (find_root (uf_parent (f_sets f)) ` set vs) + length (f_tree f) = length vs"

lemma start_forest_ok: "distinct vs \<Longrightarrow> forest_ok vs es qs {} (start_forest vs)"
proof -
  assume d: "distinct vs"
  have r: "find_root (\<lambda>v. v) v = Some v" for v :: 'a by (simp add: find_root_fixed)
  have "row_of (map (\<lambda>v. (v, [])) vs) v = []" for v :: 'a
    by (auto simp: row_of_def split: option.splits dest: map_of_SomeD)
  then show ?thesis
    by (auto simp: forest_ok_def start_forest_def uf_start_def uf_ok_def uf_forest_def uf_same_def r hops_def
        comp_def card_image inj_on_def distinct_card [OF d] intro: walk_nil)
qed

text \<open>Merging two classes leaves one class less.\<close>

lemma card_same_kernel: "(\<And>a b. a \<in> W \<Longrightarrow> b \<in> W \<Longrightarrow> f a = f b \<longleftrightarrow> g a = g b) \<Longrightarrow> card (f ` W) = card (g ` W)"
proof -
  assume k: "\<And>a b. a \<in> W \<Longrightarrow> b \<in> W \<Longrightarrow> f a = f b \<longleftrightarrow> g a = g b"
  have "bij_betw (\<lambda>y. g (inv_into W f y)) (f ` W) (g ` W)"
  proof (rule bij_betwI')
    fix x y assume "x \<in> f ` W" "y \<in> f ` W"
    then show "g (inv_into W f x) = g (inv_into W f y) \<longleftrightarrow> x = y"
      using k by (metis f_inv_into_f inv_into_into)
  next
    fix x assume "x \<in> f ` W"
    then show "g (inv_into W f x) \<in> g ` W" by (simp add: inv_into_into)
  next
    fix y assume "y \<in> g ` W"
    then obtain w where w: "w \<in> W" "y = g w" by blast
    then have "g (inv_into W f (f w)) = y" using k by (metis f_inv_into_f imageI inv_into_into)
    then show "\<exists>x \<in> f ` W. y = g (inv_into W f x)" using w(1) by blast
  qed
  then show ?thesis by (rule bij_betw_same_card)
qed

lemma card_merged:
  assumes "finite V" "x \<in> V" "y \<in> V" "f x \<noteq> f y"
    and m: "\<And>a b. a \<in> V \<Longrightarrow> b \<in> V \<Longrightarrow> g a = g b \<longleftrightarrow> f a = f b \<or> f a = f x \<and> f y = f b \<or> f a = f y \<and> f x = f b"
  shows "card (g ` V) + 1 = card (f ` V)"
proof -
  let ?W = "{a \<in> V. f a \<noteq> f y}"
  have "g ` V = g ` ?W"
  proof
    show "g ` V \<subseteq> g ` ?W"
    proof
      fix z assume "z \<in> g ` V"
      then obtain a where a: "a \<in> V" "z = g a" by blast
      show "z \<in> g ` ?W"
      proof (cases "f a = f y")
        case True
        then have "g a = g x" using m [OF a(1) assms(2)] by simp
        then show ?thesis using assms(2,4) a(2) by auto
      qed (use a in auto)
    qed
  qed auto
  moreover have "card (g ` ?W) = card (f ` ?W)"
    using m by (intro card_same_kernel) auto
  moreover have "f ` V = insert (f y) (f ` ?W)" "f y \<notin> f ` ?W" using assms(3) by auto
  ultimately show ?thesis using assms(1) by simp
qed

lemma place_edge_ok:
  assumes ok: "forest_ok vs es qs D f" and i: "source (es ! i) \<in> set vs" "target (es ! i) \<in> set vs"
  shows "\<exists>g. place_edge f (i, es ! i) = Some g \<and> forest_ok vs es qs (insert i D) g"
proof -
  let ?s = "source (es ! i)" and ?t = "target (es ! i)" and ?u = "f_sets f" and ?adj = "f_adjacency f"
  have u: "uf_ok (set vs) ?u" and keys: "map fst ?adj = vs"
    and D: "set (f_tree f) \<union> set (f_chords f) = D"
    and rows: "\<And>v. v \<in> set vs \<Longrightarrow> set (row_of ?adj v) = hops es (set (f_tree f)) v"
    and walks: "\<And>a b. a \<in> set vs \<Longrightarrow> b \<in> set vs \<Longrightarrow> uf_same ?u a b \<Longrightarrow> \<exists>ts. walk ?adj a ts b"
    and chords: "\<forall>i \<in> set (f_chords f). source (es ! i) \<in> set vs \<and> target (es ! i) \<in> set vs \<and>
       uf_same ?u (source (es ! i)) (target (es ! i))"
    and count: "card (find_root (uf_parent ?u) ` set vs) + length (f_tree f) = length vs"
    using ok unfolding forest_ok_def by blast+
  obtain p where p: "\<forall>(a, b, q) \<in> (\<lambda>i. (source (es ! i), target (es ! i), qs ! i)) ` set (f_tree f).
        a \<in> set vs \<and> b \<in> set vs \<and> uf_same ?u a b \<and> p b - p a = q"
    using ok unfolding forest_ok_def by blast
  show ?thesis
  proof (cases "uf_same ?u ?s ?t")
    case True
    obtain w where w: "uf_union ?u ?s ?t = Some (False, w)" "uf_ok (set vs) w"
      "\<And>a b. a \<in> set vs \<Longrightarrow> b \<in> set vs \<Longrightarrow> uf_same w a b = uf_same ?u a b"
      using uf.join_same [OF u i True] by blast
    have c: "card (find_root (uf_parent w) ` set vs) = card (find_root (uf_parent ?u) ` set vs)"
      using w(3) by (intro card_same_kernel) (simp add: uf_same_def)
    let ?g = "f\<lparr>f_sets := w, f_chords := f_chords f @ [i]\<rparr>"
    have "forest_ok vs es qs (insert i D) ?g"
      unfolding forest_ok_def
      apply (intro conjI)
      subgoal using w(2) by simp
      subgoal using keys by simp
      subgoal using D by auto
      subgoal using rows by simp
      subgoal using walks w(3) by simp
      subgoal using chords w(3) i True by auto
      subgoal using p w(3) by (intro exI [of _ p]) fastforce
      subgoal using c count by simp
      done
    then show ?thesis using w(1) by (simp add: place_edge_def)
  next
    case False
    obtain w where w: "uf_union ?u ?s ?t = Some (True, w)" "uf_ok (set vs) w" "\<forall>a \<in> set vs. \<forall>b \<in> set vs.
        uf_same w a b \<longleftrightarrow> uf_same ?u a b \<or> uf_same ?u a ?s \<and> uf_same ?u ?t b \<or> uf_same ?u a ?t \<and> uf_same ?u ?s b"
      using uf.join [OF u i] False by auto
    obtain p' where p': "\<forall>(a, b, q) \<in> insert (?s, ?t, qs ! i) ((\<lambda>i. (source (es ! i), target (es ! i), qs ! i)) ` set (f_tree f)).
        a \<in> set vs \<and> b \<in> set vs \<and> uf_same w a b \<and> p' b - p' a = q"
      using uf.join_potential [OF u i False p, of "qs ! i"] w(1) by auto
    have c: "card (find_root (uf_parent w) ` set vs) + 1 = card (find_root (uf_parent ?u) ` set vs)"
      using w(3) False i by (intro card_merged [of _ ?s ?t]) (auto simp: uf_same_def)
    let ?new = "add_to_row ?t (?s, i, - 1) (add_to_row ?s (?t, i, 1) ?adj)"
    let ?g = "f\<lparr>f_sets := w, f_tree := f_tree f @ [i], f_adjacency := ?new\<rparr>"
    have k: "fst ` set ?adj = set vs" using keys by (metis set_map)
    then have k': "fst ` set (add_to_row ?s (?t, i, 1) ?adj) = set vs" by (metis keys_add set_map)
    have row: "set (row_of ?new v) = set (row_of ?adj v) \<union> (if v = ?s then {(?t, i, 1)} else {}) \<union>
        (if v = ?t then {(?s, i, - 1)} else {})" for v
      using i by (simp add: row_of_add k k')
    have hops: "hops es (insert i I) v = hops es I v \<union> (if v = ?s then {(?t, i, 1)} else {}) \<union>
        (if v = ?t then {(?s, i, - 1)} else {})" for I v
      by (auto simp: hops_def)
    have mono: "walk ?new a ts b" if "walk ?adj a ts b" for a ts b
      using that by (rule walk_mono) (auto simp: row)
    have there: "walk ?new ?s [(i, 1)] ?t"
      using walk_step [OF walk_nil, of ?t i "1" ?new ?s] by (simp add: row)
    have return: "walk ?new ?t [(i, - 1)] ?s"
      using walk_step [OF walk_nil, of ?s i "- 1" ?new ?t] by (simp add: row)
    have via: "\<exists>ts. walk ?new a ts b" if "walk ?adj a us x" "walk ?new x hs y" "walk ?adj y ws b" for a b x y us hs ws
      using walk_append [OF mono [OF that(3)] walk_append [OF that(2) mono [OF that(1)]]] by blast
    have reach: "\<exists>ts. walk ?new a ts b" if ab: "a \<in> set vs" "b \<in> set vs" "uf_same w a b" for a b
    proof -
      consider "uf_same ?u a b" | "uf_same ?u a ?s" "uf_same ?u ?t b" | "uf_same ?u a ?t" "uf_same ?u ?s b"
        using w(3) ab by blast
      then show ?thesis
      proof cases
        case 1
        then show ?thesis using walks [OF ab(1,2)] mono by blast
      next
        case 2
        then show ?thesis using walks [OF ab(1) i(1)] walks [OF i(2) ab(2)] via there by blast
      next
        case 3
        then show ?thesis using walks [OF ab(1) i(2)] walks [OF i(1) ab(2)] via return by blast
      qed
    qed
    have "forest_ok vs es qs (insert i D) ?g"
      unfolding forest_ok_def
      apply (intro conjI)
      subgoal using w(2) by simp
      subgoal using keys by simp
      subgoal using D by auto
      subgoal using rows row hops by simp
      subgoal using reach by simp
      subgoal using chords w(3) by auto
      subgoal using p' by (intro exI [of _ p']) auto
      subgoal using c count by simp
      done
    then show ?thesis using w(1) by (simp add: place_edge_def)
  qed
qed


lemma place_edges_ok:
  "forest_ok vs es qs D f \<Longrightarrow> \<forall>(i, e) \<in> set ies. e = es ! i \<and> source e \<in> set vs \<and> target e \<in> set vs \<Longrightarrow>
   \<exists>g. place_edges f ies = Some g \<and> forest_ok vs es qs (D \<union> fst ` set ies) g \<and>
     length (f_tree g) + length (f_chords g) = length (f_tree f) + length (f_chords f) + length ies"
proof (induction ies arbitrary: f D)
  case (Cons ie ies)
  obtain i where ie: "ie = (i, es ! i)" "source (es ! i) \<in> set vs" "target (es ! i) \<in> set vs"
    using Cons.prems(2) by (cases ie) auto
  obtain g where g: "place_edge f (i, es ! i) = Some g" "forest_ok vs es qs (insert i D) g"
    using place_edge_ok [OF Cons.prems(1) ie(2,3)] by blast
  have "length (f_tree g) + length (f_chords g) = Suc (length (f_tree f) + length (f_chords f))"
    using g(1) by (auto simp: place_edge_def bind_eq_Some_conv split: if_splits)
  moreover obtain h where "place_edges g ies = Some h" "forest_ok vs es qs (insert i D \<union> fst ` set ies) h"
    "length (f_tree h) + length (f_chords h) = length (f_tree g) + length (f_chords g) + length ies"
    using Cons.IH [OF g(2)] Cons.prems(2) by auto
  ultimately show ?case using g(1) ie(1) by simp
qed simp

lemma read_edges_Inr:
  "read_edges vs seen es = Inr qs \<Longrightarrow> length qs = length es \<and> (\<forall>i < length es.
     source (es ! i) \<in> set vs \<and> target (es ! i) \<in> set vs \<and> exact_fraction (edge_value (es ! i)) = Inr (qs ! i))"
proof (induction vs seen es arbitrary: qs rule: read_edges.induct)
  case (2 vs seen e es)
  then obtain q qs' where "exact_fraction (edge_value e) = Inr q" "qs = q # qs'"
    "read_edges vs (insert (edge_id e) seen) es = Inr qs'" "source e \<in> set vs" "target e \<in> set vs"
    by (auto split: if_splits elim!: rbind_eq_InrE)
  with 2 show ?case by (auto simp: less_Suc_eq_0_disj split: if_splits)
qed simp

section \<open>Cycle values and potentials\<close>

definition tree_potential :: "rat option \<Rightarrow> 'v abelian_edge list \<Rightarrow> rat list \<Rightarrow> nat set \<Rightarrow> ('v \<Rightarrow> rat) \<Rightarrow> bool" where
  "tree_potential m es qs I p \<longleftrightarrow> (\<forall>i \<in> I. congruent m (p (target (es ! i)) - p (source (es ! i))) (qs ! i))"

lemma forest_row:
  assumes "forest_ok vs es qs D f" "(w, i, s) \<in> set (row_of (f_adjacency f) v)"
  shows "(w, i, s) \<in> hops es (set (f_tree f)) v"
proof (cases "v \<in> set vs")
  case True
  then show ?thesis using assms by (auto simp: forest_ok_def)
next
  case False
  have "fst ` set (f_adjacency f) = set vs" using assms(1) unfolding forest_ok_def by (metis set_map)
  then have "map_of (f_adjacency f) v = None" using False by (simp add: map_of_eq_None_iff)
  then show ?thesis using assms(2) by (simp add: row_of_def)
qed

lemma forest_potential: "forest_ok vs es qs D f \<Longrightarrow> \<exists>p. tree_potential m es qs (set (f_tree f)) p"
proof -
  assume "forest_ok vs es qs D f"
  then obtain p where p: "\<forall>(a, b, q) \<in> (\<lambda>i. (source (es ! i), target (es ! i), qs ! i)) ` set (f_tree f).
        a \<in> set vs \<and> b \<in> set vs \<and> uf_same (f_sets f) a b \<and> p b - p a = q"
    unfolding forest_ok_def by blast
  have "congruent m (p (target (es ! i)) - p (source (es ! i))) (qs ! i)" if "i \<in> set (f_tree f)" for i
    using bspec [OF p imageI [OF that]] by simp
  then show ?thesis unfolding tree_potential_def by blast
qed

lemma hop_potential:
  assumes "tree_potential m es qs I p" "(w, i, s) \<in> hops es I v"
  shows "congruent m (of_int s * qs ! i) (p w - p v)"
proof -
  have i: "congruent m (p (target (es ! i)) - p (source (es ! i))) (qs ! i)"
    using assms by (auto simp: tree_potential_def hops_def)
  show ?thesis
    using assms(2) congruent_sym [OF i] congruent_uminus [OF congruent_sym [OF i]] by (auto simp: hops_def)
qed

lemma walk_potential:
  assumes "forest_ok vs es qs D f" "tree_potential m es qs (set (f_tree f)) p"
  shows "walk (f_adjacency f) a ts b \<Longrightarrow>
    congruent m (sum_list (map (\<lambda>(i, s). of_int s * qs ! i) ts)) (p b - p a)"
proof (induction rule: walk.induct)
  case (walk_step ts b c i s)
  have "congruent m (of_int s * qs ! i) (p c - p b)"
    using hop_potential [OF assms(2)] forest_row [OF assms(1)] walk_step.hyps(2) by blast
  from congruent_add [OF walk_step.IH this] show ?case by simp
qed simp

lemma cycle_of_ok:
  assumes ok: "forest_ok vs es qs D f" and m: "pred_option ((<) 0) m" and c: "c \<in> set (f_chords f)"
  shows "\<exists>cy. cycle_of es qs m (f_adjacency f) c = Some (Inr cy) \<and> (\<forall>p. tree_potential m es qs (set (f_tree f)) p \<longrightarrow>
    (\<not> obstructed cy \<longleftrightarrow> congruent m (p (target (es ! c)) - p (source (es ! c))) (qs ! c)))"
proof -
  have "source (es ! c) \<in> set vs" "target (es ! c) \<in> set vs"
    and same: "uf_same (f_sets f) (target (es ! c)) (source (es ! c))"
    using ok c by (auto simp: forest_ok_def uf_same_def)
  then obtain us where "walk (f_adjacency f) (target (es ! c)) us (source (es ! c))"
    using ok unfolding forest_ok_def by blast
  from tree_path_terms_walk [OF this] obtain ts
    where ts: "tree_path_terms (f_adjacency f) (target (es ! c)) (source (es ! c)) = Some (Inr ts)"
      "walk (f_adjacency f) (target (es ! c)) ts (source (es ! c))" by blast
  let ?sum = "sum_list (map (\<lambda>(i, s). of_int s * qs ! i) ts)"
  let ?h = "case m of None \<Rightarrow> qs ! c + ?sum | Some k \<Rightarrow> frac_mod (qs ! c + ?sum) k"
  have h: "?h = 0 \<longleftrightarrow> congruent m (qs ! c + ?sum) 0"
    using m frac_mod_zero by (cases m) (auto simp: congruent_def)
  have "?h = 0 \<longleftrightarrow> congruent m (p (target (es ! c)) - p (source (es ! c))) (qs ! c)"
    if "tree_potential m es qs (set (f_tree f)) p" for p
  proof -
    let ?d = "p (source (es ! c)) - p (target (es ! c))"
    have s: "congruent m ?sum ?d" by (rule walk_potential [OF ok that ts(2)])
    have "congruent m (qs ! c + ?sum) 0 \<longleftrightarrow> congruent m (qs ! c + ?d) 0"
      using congruent_cong [OF congruent_add [OF congruent_refl s]] .
    also have "\<dots> \<longleftrightarrow> congruent m (- ?d) (qs ! c)"
      by (rule congruent_move)
    finally show ?thesis using h by simp
  qed
  then show ?thesis using ts(1) by (simp add: cycle_of_def Let_def)
qed


lemma cycles_of_ok:
  assumes ok: "forest_ok vs es qs D f" and m: "pred_option ((<) 0) m"
  shows "set cs \<subseteq> set (f_chords f) \<Longrightarrow> \<exists>cys. cycles_of es qs m (f_adjacency f) cs = Some (Inr cys) \<and>
    length cys = length cs \<and> (\<forall>p. tree_potential m es qs (set (f_tree f)) p \<longrightarrow>
      (list_all (\<lambda>c. \<not> obstructed c) cys \<longleftrightarrow> tree_potential m es qs (set cs) p))"
proof (induction cs)
  case (Cons c cs)
  obtain cy where cy: "cycle_of es qs m (f_adjacency f) c = Some (Inr cy)"
    "\<And>p. tree_potential m es qs (set (f_tree f)) p \<Longrightarrow>
       \<not> obstructed cy \<longleftrightarrow> congruent m (p (target (es ! c)) - p (source (es ! c))) (qs ! c)"
    using cycle_of_ok [OF ok m] Cons.prems by (metis list.set_intros(1) subset_code(1))
  obtain cys where "cycles_of es qs m (f_adjacency f) cs = Some (Inr cys)" "length cys = length cs"
    "\<And>p. tree_potential m es qs (set (f_tree f)) p \<Longrightarrow>
       list_all (\<lambda>c. \<not> obstructed c) cys \<longleftrightarrow> tree_potential m es qs (set cs) p"
    using Cons.IH Cons.prems by auto
  with cy show ?case by (auto simp: tree_potential_def)
qed (simp add: tree_potential_def)

lemma find_all_roots:
  "uf_ok (set V) u \<Longrightarrow> set vs \<subseteq> set V \<Longrightarrow>
   \<exists>roots. find_all u vs = Some roots \<and> map Some roots = map (find_root (uf_parent u)) vs"
proof (induction vs arbitrary: u)
  case (Cons v vs)
  obtain r w where w: "uf_find u v = Some (r, w)" "find_root (uf_parent u) v = Some r" "uf_ok (set V) w"
    "\<forall>x \<in> set V. find_root (uf_parent w) x = find_root (uf_parent u) x"
    using uf_find_ex [OF Cons.prems(1) finite_set, of v] Cons.prems(2) by fastforce
  moreover obtain roots where "find_all w vs = Some roots" "map Some roots = map (find_root (uf_parent w)) vs"
    using Cons.IH [OF w(3)] Cons.prems(2) by auto
  moreover have "map (find_root (uf_parent w)) vs = map (find_root (uf_parent u)) vs"
    using w(4) Cons.prems(2) by auto
  ultimately show ?case by simp
qed simp

text \<open>
  A potential assigns a value to every vertex such that each edge value is the difference of the
  values at its ends, modulo the modulus.
\<close>

definition is_potential :: "rat option \<Rightarrow> 'v abelian_edge list \<Rightarrow> ('v \<Rightarrow> rat) \<Rightarrow> bool" where
  "is_potential m es p \<longleftrightarrow> (\<forall>e \<in> set es. case exact_fraction (edge_value e) of
     Inl _ \<Rightarrow> False | Inr q \<Rightarrow> congruent m (p (target e) - p (source e)) q)"

lemma read_graph_Inr:
  assumes "read_graph vs es modulus = Inr (qs, m)"
  shows "distinct vs" "read_edges vs {} es = Inr qs" "pred_option ((<) 0) m"
  using assms by (auto simp: read_graph_def read_modulus_def elim!: rbind_eq_InrE split: if_splits option.splits)

lemma is_potential_iff:
  assumes "read_edges vs {} es = Inr qs"
  shows "is_potential m es p \<longleftrightarrow> tree_potential m es qs {..< length es} p"
  using read_edges_Inr [OF assms] by (auto simp: is_potential_def tree_potential_def all_set_conv_all_nth)

lemma audit_result:
  assumes "read_graph vs es modulus = Inr (qs, m)"
  shows "\<exists>a. audit_cycle_holonomy vs es modulus = Some (Inr a) \<and>
    (global_extension a \<longleftrightarrow> (\<exists>p. is_potential m es p)) \<and>
    vertex_count a = component_count a + length (tree_edge_ids a) \<and>
    length (cycles a) + length (tree_edge_ids a) = edge_count a"
proof -
  note g = read_graph_Inr [OF assms]
  have ies: "\<forall>(i, e) \<in> set (enumerate 0 es). e = es ! i \<and> source e \<in> set vs \<and> target e \<in> set vs"
    using read_edges_Inr [OF g(2)] by (auto simp: in_set_enumerate_eq)
  obtain f where f: "place_edges (start_forest vs) (enumerate 0 es) = Some f"
    "forest_ok vs es qs ({} \<union> fst ` set (enumerate 0 es)) f" "length (f_tree f) + length (f_chords f) = length es"
    using place_edges_ok [OF start_forest_ok [OF g(1)] ies] by (auto simp: start_forest_def)
  have D: "set (f_tree f) \<union> set (f_chords f) = {..< length es}"
  proof -
    have "map fst (enumerate 0 es) = [0..<length es]" by simp
    then have "fst ` set (enumerate 0 es) = {..< length es}" by (metis atLeast_upt set_map)
    then show ?thesis using f(2) unfolding forest_ok_def by simp
  qed
  obtain cs where cs: "cycles_of es qs m (f_adjacency f) (f_chords f) = Some (Inr cs)" "length cs = length (f_chords f)"
    "\<And>p. tree_potential m es qs (set (f_tree f)) p \<Longrightarrow>
       list_all (\<lambda>c. \<not> obstructed c) cs \<longleftrightarrow> tree_potential m es qs (set (f_chords f)) p"
    using cycles_of_ok [OF f(2) g(3) order_refl] by blast
  have u: "uf_ok (set vs) (f_sets f)"
    and count: "card (find_root (uf_parent (f_sets f)) ` set vs) + length (f_tree f) = length vs"
    using f(2) unfolding forest_ok_def by blast+
  obtain roots where r: "find_all (f_sets f) vs = Some roots"
    "map Some roots = map (find_root (uf_parent (f_sets f))) vs"
    using find_all_roots [OF u order_refl] by blast
  have "set (map Some roots) = set (map (find_root (uf_parent (f_sets f))) vs)" unfolding r(2) ..
  then have "card (Some ` set roots) + length (f_tree f) = length vs" using count by simp
  then have "card (set roots) + length (f_tree f) = length vs" by (simp add: card_image)
  moreover have "\<exists>p. tree_potential m es qs (set (f_tree f)) p" using forest_potential [OF f(2)] .
  then have "list_all (\<lambda>c. \<not> obstructed c) cs \<longleftrightarrow> (\<exists>p. tree_potential m es qs {..< length es} p)"
    using cs(3) unfolding D [symmetric] tree_potential_def by blast
  then have "list_all (\<lambda>c. \<not> obstructed c) cs \<longleftrightarrow> (\<exists>p. is_potential m es p)"
    unfolding is_potential_iff [OF g(2)] .
  ultimately show ?thesis
    using f(1,3) cs(1,2) r(1) assms by (simp add: audit_cycle_holonomy_def)
qed

end
