(* ===== verification/Quotient_Properties.thy ===== *)
theory Quotient_Properties
  imports Resampling Cycle_Potential
begin

text \<open>
  The properties of the exact audits of \<open>oph_fpe/quotient\<close>: cycle holonomy, lumpability,
  exhaustive repair paths, observation-determined normal forms and resampling kernels, with
  witnesses on small tables.
\<close>

section \<open>The tables of the witnesses\<close>

definition demo_kernel :: "(nat, pyval) kernel" where
  "demo_kernel = [(0, [(1, PLeaf (LFrac (1 / 2))), (2, PLeaf (LFrac (1 / 2)))]),
     (1, [(0, PLeaf (LInt 1))]), (2, [(0, PLeaf (LFrac 1))])]"

definition demo_repairs :: "(nat \<times> nat list) list" where
  "demo_repairs = [(0, [1, 2]), (1, [3]), (2, [3]), (3, []), (4, [])]"

definition demo_observation :: "nat \<Rightarrow> bool" where
  "demo_observation s \<longleftrightarrow> s = 4"

definition resampling_kernel :: "(nat, pyval) kernel" where
  "resampling_kernel = [(0, [(0, PLeaf (LFrac (1 / 3))), (1, PLeaf (LFrac (2 / 3)))]),
     (1, [(1, PLeaf (LFrac (2 / 3))), (0, PLeaf (LFrac (1 / 3)))]), (2, [(2, PLeaf (LInt 1))])]"

definition resampling_weights :: "(nat \<times> pyval) list" where
  "resampling_weights = [(0, PLeaf (LFrac (1 / 4))), (1, PLeaf (LFrac (1 / 2))), (2, PLeaf (LFrac (1 / 4)))]"

section \<open>Cycle holonomy\<close>

text \<open>C17: the cycle audit always returns. A malformed graph gives the error of its reader; otherwise the
  forest and the chords together are all edges, the forest has one edge fewer than vertices in
  every component, and the audit reports a global extension exactly when some potential on the
  vertices explains every edge value (modulo the modulus, if one is given).\<close>

theorem cycle_audit_exact:
  "case read_graph vs es modulus of
     Inl err \<Rightarrow> audit_cycle_holonomy vs es modulus = Some (Inl err)
   | Inr (qs, m) \<Rightarrow> \<exists>a. audit_cycle_holonomy vs es modulus = Some (Inr a) \<and>
       (global_extension a \<longleftrightarrow> (\<exists>p. is_potential m es p)) \<and>
       vertex_count a = component_count a + length (tree_edge_ids a) \<and>
       length (cycles a) + length (tree_edge_ids a) = edge_count a"
proof (cases "read_graph vs es modulus")
  case (Inl err)
  then show ?thesis by (simp add: audit_cycle_holonomy_def)
next
  case (Inr qm)
  then obtain qs m where "read_graph vs es modulus = Inr (qs, m)" by (cases qm) simp
  with audit_result [OF this] show ?thesis by simp
qed

section \<open>Lumpability\<close>

text \<open>C18: the lumpability audit is exact. Its aggregate test holds exactly when equal quotient states send
  equal flow into every quotient state, its verdict adds that no dependency is a presentation
  field; then the kernel of any number of steps has the same property, and rows of a probability
  kernel sum to one.\<close>

theorem lumpability_exact:
  assumes "verify_quotient_lumpability states K quot kind deps = Inr a"
    and "\<forall>row \<in> snd ` set K. distinct (map fst row)"
  shows "(la_aggregate_equality a \<longleftrightarrow> lumpable states (raw_entry K) quot) \<and>
    (la_lumpable a \<longleftrightarrow> lumpable states (raw_entry K) quot \<and> forbidden_dependencies deps = []) \<and>
    (la_aggregate_equality a \<longrightarrow> (\<forall>n. lumpable states (kernel_power states (raw_entry K) n) quot)) \<and>
    (la_kind a = PROBABILITY \<longrightarrow> (\<forall>s \<in> set states. (\<Sum>t \<in> set states. raw_entry K s t) = 1))"
proof -
  note l = audit_lumpable [OF assms]
  have "lumpable states (kernel_power states (raw_entry K) n) quot" if "la_aggregate_equality a" for n
    using quotient_flow [of states "raw_entry K" quot] that l(1) unfolding lumpable_def [of _ "kernel_power _ _ _"] by blast
  then show ?thesis using l by blast
qed

lemma lumpability_exact_witness:
  "\<exists>a. verify_quotient_lumpability [0, 1, 2] demo_kernel (\<lambda>s. s = 0) ''PROBABILITY'' [''site.charge''] = Inr a \<and>
     (la_lumpable a \<longleftrightarrow> lumpable [0, 1, 2] (raw_entry demo_kernel) (\<lambda>s. s = 0))"
proof -
  have d: "\<forall>row \<in> snd ` set demo_kernel. distinct (map fst row)" by code_simp
  have "case verify_quotient_lumpability [0, 1, 2] demo_kernel (\<lambda>s. s = 0) ''PROBABILITY'' [''site.charge''] of
      Inl _ \<Rightarrow> False | Inr _ \<Rightarrow> True" by code_simp
  then obtain a where a: "verify_quotient_lumpability [0, 1, 2] demo_kernel (\<lambda>s. s = 0) ''PROBABILITY'' [''site.charge''] = Inr a"
    by (auto split: sum.splits)
  have "forbidden_dependencies [''site.charge''] = []" by code_simp
  with lumpability_exact [OF a d] a show ?thesis by blast
qed

section \<open>Exhaustive repair paths\<close>

text \<open>C19: the receipt of the exhaustive path audit is exact. It is granted just when the tables are declared
  complete, every state was started from, no dependency is a presentation field, no run from any
  state can return to a state, and the terminal states reachable from a state have one quotient
  value, never none.\<close>

theorem repair_paths_receipt_exact:
  assumes "exhaust_repair_paths states repairs quot init states_complete relation_complete deps limit = Inr a"
  shows "pa_receipt a \<longleftrightarrow> states_complete \<and> relation_complete \<and> forbidden_dependencies deps = [] \<and>
    set (case init of None \<Rightarrow> states | Some xs \<Rightarrow> xs) = set states \<and>
    (\<forall>s \<in> set states. loop_free repairs s \<and> (\<exists>q. quot ` terminals_from repairs s = {q}))"
proof -
  note e = exhaust_result [OF assms]
  let ?S = "set (case init of None \<Rightarrow> states | Some xs \<Rightarrow> xs)"
  have "ia_state ` set (pa_initials a) = ?S" using e by (simp only: set_map)
  then have s: "(\<forall>i \<in> set (pa_initials a). P (ia_state i)) \<longleftrightarrow> (\<forall>s \<in> ?S. P s)" for P
    by (metis (no_types, lifting) imageE imageI)
  have t: "pa_terminating a \<longleftrightarrow> (\<forall>s \<in> ?S. loop_free repairs s)" using e s [of "loop_free repairs"] by blast
  have q: "pa_quotient_independent a \<longleftrightarrow> states_complete \<and> relation_complete \<and> pa_terminating a \<and>
      forbidden_dependencies deps = [] \<and> (\<forall>s \<in> ?S. \<exists>q. quot ` terminals_from repairs s = {q})"
    unfolding s [of "\<lambda>s. \<exists>q. quot ` terminals_from repairs s = {q}", symmetric] using e by (elim conjE)
  have r: "pa_receipt a \<longleftrightarrow> pa_coverage a \<and> pa_quotient_independent a" using e by (elim conjE)
  have c: "pa_coverage a \<longleftrightarrow> ?S = set states" using e by (elim conjE)
  define S where "S = ?S"
  define settled where "settled s \<longleftrightarrow> (\<exists>q. quot ` terminals_from repairs s = {q})" for s
  show ?thesis
    unfolding r c q t S_def [symmetric] settled_def [symmetric] by (cases "S = set states") auto
qed

lemma repair_paths_receipt_exact_witness:
  "loop_free demo_repairs 0 \<and> (\<exists>q. terminals_from demo_repairs 0 = {q})"
proof -
  have "case exhaust_repair_paths [0, 1, 2, 3, 4] demo_repairs id None True True [''site.charge''] 100 of
      Inl _ \<Rightarrow> False | Inr a \<Rightarrow> pa_receipt a" by code_simp
  then obtain a where a: "exhaust_repair_paths [0, 1, 2, 3, 4] demo_repairs id None True True [''site.charge''] 100 = Inr a"
      "pa_receipt a"
    by (auto split: sum.splits)
  from repair_paths_receipt_exact [OF a(1)] a(2)
  have "\<forall>s \<in> {0, 1, 2, 3, 4}. loop_free demo_repairs s \<and> (\<exists>q. id ` terminals_from demo_repairs s = {q})" by simp
  then show ?thesis by simp
qed

text \<open>the path budget only decides whether the audit is returned. For a well-formed table there is a
  number of paths such that every budget from there on returns one and the same audit and every
  smaller positive one raises the budget error; so the search ends on every table, with cycles
  or without.\<close>

theorem repair_path_budget:
  assumes "distinct states" "states \<noteq> []" "fst ` set repairs = set states"
    and "\<forall>(s, row) \<in> set repairs. distinct row \<and> set row \<subseteq> set states"
  shows "\<exists>n a. \<forall>limit > 0. exhaust_repair_paths states repairs quot None sc rc deps limit =
    (if int n \<le> limit then Inr a else Inl RuntimeError)"
  by (rule exhaust_returns [OF assms])

lemma repair_path_budget_witness:
  "\<exists>n a. \<forall>limit > 0. exhaust_repair_paths [0, 1, 2] [(0, [1]), (1, [0, 2]), (2, [])] (\<lambda>s::nat. s) None True True [] limit =
    (if int n \<le> limit then Inr a else Inl RuntimeError)"
  by (rule repair_path_budget) auto

section \<open>Observation-determined normal forms\<close>

text \<open>C20: the theorem the audit replays holds on every table: under its hypotheses, consistent states with
  one observation have one quotient value exactly when terminal states reached from sources with
  one observation do. A receipt means more: there is a function of the observation that gives
  the quotient value of every terminal state that any run from any state ends in, and every run
  ends in one.\<close>

theorem normal_form_replayed:
  assumes "verify_normal_form states repairs obs is_consistent quot sc rc deps limit = Inr a"
  shows "(nf_equivalence a \<longleftrightarrow> nf_hypotheses a) \<and>
    (nf_hypotheses a \<longrightarrow> (nf_boundary_identifies a \<longleftrightarrow>
       (\<forall>l \<in> set states. \<forall>r \<in> set states. obs l = obs r \<longrightarrow>
         (\<forall>t \<in> terminals_from repairs l. \<forall>u \<in> terminals_from repairs r. quot t = quot u)))) \<and>
    (nf_receipt a \<longrightarrow> (\<exists>F. \<forall>s \<in> set states. loop_free repairs s \<and> quot ` terminals_from repairs s = {F (obs s)}))"
proof -
  note n = normal_form_audit [OF assms]
  let ?C = "set (filter is_consistent states)"
  have stay: "t \<in> set states" if "(s, t) \<in> (edges repairs)\<^sup>*" "s \<in> set states" for s t
    using that by (induction rule: rtrancl_induct) (use n(3) in \<open>auto simp: edges_def\<close>)
  have eq: "nf_boundary_identifies a = nf_endpoint_unique a" if h: "nf_hypotheses a"
  proof
    assume b: "nf_boundary_identifies a"
    have "quot t = quot u" if "l \<in> set states" "r \<in> set states" "obs l = obs r"
      "t \<in> terminals_from repairs l" "u \<in> terminals_from repairs r" for l r t u
    proof -
      have at: "x \<in> ?C \<and> obs x = obs y" if "y \<in> set states" "x \<in> terminals_from repairs y" for x y
        using that stay [of y x] n(8) [OF h, of y x] n(9) [OF h, of x] by (auto simp: terminals_from_def)
      have "t \<in> ?C" "u \<in> ?C" "obs t = obs u" using that at by metis+
      then show ?thesis using b n(4) by blast
    qed
    then show "nf_endpoint_unique a" unfolding n(5) by blast
  next
    assume e: "nf_endpoint_unique a"
    have "quot l = quot r" if "l \<in> ?C" "r \<in> ?C" "obs l = obs r" for l r
    proof -
      have "l \<in> terminals_from repairs l" "r \<in> terminals_from repairs r" "l \<in> set states" "r \<in> set states"
        using that n(9) [OF h] by (auto simp: terminals_from_def)
      then show ?thesis using e that(3) n(5) by blast
    qed
    then show "nf_boundary_identifies a" unfolding n(4) by blast
  qed
  have "\<exists>F. \<forall>s \<in> set states. loop_free repairs s \<and> quot ` terminals_from repairs s = {F (obs s)}" if r: "nf_receipt a"
  proof -
    have u: "nf_endpoint_unique a" "\<forall>s \<in> set states. loop_free repairs s" "\<forall>s \<in> set states. terminals_from repairs s \<noteq> {}"
      using n(6,7) r n(11) by blast+
    define F where "F o' = (SOME q. \<exists>s \<in> set states. obs s = o' \<and> q \<in> quot ` terminals_from repairs s)" for o'
    have "quot ` terminals_from repairs s = {F (obs s)}" if s: "s \<in> set states" for s
    proof -
      have "\<exists>q. \<exists>r \<in> set states. obs r = obs s \<and> q \<in> quot ` terminals_from repairs r" using u(3) s by blast
      from someI_ex [OF this] obtain r where r: "r \<in> set states" "obs r = obs s"
          "F (obs s) \<in> quot ` terminals_from repairs r"
        unfolding F_def by blast
      then have "F (obs s) = quot t" if "t \<in> terminals_from repairs s" for t
        using u(1) s r that unfolding n(5) by (metis imageE)
      then show ?thesis using u(3) s by force
    qed
    then show ?thesis using u(2) by blast
  qed
  then show ?thesis using eq n(5,10) by blast
qed

lemma normal_form_replayed_witness:
  "\<exists>F. terminals_from demo_repairs 0 = {F False} \<and> terminals_from demo_repairs 1 = {F False} \<and>
     terminals_from demo_repairs 4 = {F True}"
proof -
  have "case verify_normal_form [0, 1, 2, 3, 4] demo_repairs demo_observation (\<lambda>s. 3 \<le> s) id True True [''site.charge''] 100 of
      Inl _ \<Rightarrow> False | Inr a \<Rightarrow> nf_receipt a" by code_simp
  then obtain a where a: "verify_normal_form [0, 1, 2, 3, 4] demo_repairs demo_observation (\<lambda>s. 3 \<le> s) id True True [''site.charge''] 100
      = Inr a" "nf_receipt a"
    by (auto split: sum.splits)
  from normal_form_replayed [OF a(1), THEN conjunct2, THEN conjunct2, THEN mp, OF a(2)] obtain F where
    F: "\<forall>s \<in> {0, 1, 2, 3, 4}. loop_free demo_repairs s \<and> id ` terminals_from demo_repairs s = {F (demo_observation s)}"
    by (elim exE) simp
  show ?thesis
    using bspec [OF F, of 0] bspec [OF F, of 1] bspec [OF F, of 4] by (intro exI [of _ F]) (simp add: demo_observation_def)
qed

section \<open>Resampling kernels\<close>

text \<open>C21: the recognition of the resampling kernel is exact. On a row-stochastic table R1, R2 and R3 hold
  together just when every entry is the weight of the target over the mass of the source's fiber,
  and this formula alone makes the table nonnegative and stochastic; the receipt therefore says
  that the weights are normalised and the formula holds. A recognised kernel resamples once and
  for all (its square is itself) and leaves the weights unchanged.\<close>

theorem resampling_recognised:
  assumes "recognize_resampling states K weights obs = Inr a"
  shows "(rs_formula a \<longleftrightarrow> rs_stochastic a \<and> rs_r1 a \<and> rs_r2 a \<and> rs_r3 a) \<and>
    (rs_receipt a \<longleftrightarrow> (\<Sum>s \<in> set states. raw_weight weights s) = 1 \<and>
       resamples (set states) obs (raw_weight weights) (raw_entry K)) \<and>
    (rs_formula a \<longrightarrow> (\<forall>s \<in> set states. \<forall>t \<in> set states.
       (\<Sum>u \<in> set states. raw_entry K s u * raw_entry K u t) = raw_entry K s t \<and>
       (\<Sum>u \<in> set states. raw_weight weights u * raw_entry K u t) = raw_weight weights t))"
proof -
  let ?S = "set states" and ?w = "raw_weight weights" and ?M = "raw_entry K"
  note f = resampling_flags [OF assms]
  note from_formula = formula_conditions [OF finite_set f(9), of obs ?M]
  note to_formula = conditions_formula [OF finite_set f(9), of ?M obs]
  have 1: "rs_formula a \<longleftrightarrow> rs_stochastic a \<and> rs_r1 a \<and> rs_r2 a \<and> rs_r3 a"
    unfolding f(3-7) using from_formula(1-4) to_formula by blast
  have 2: "rs_receipt a \<longleftrightarrow> (\<Sum>s \<in> ?S. ?w s) = 1 \<and> resamples ?S obs ?w ?M"
    unfolding f(8) f(1-7) using from_formula by blast
  have 3: "(\<Sum>u \<in> ?S. ?M s u * ?M u t) = ?M s t \<and> (\<Sum>u \<in> ?S. ?w u * ?M u t) = ?w t"
    if "rs_formula a" "s \<in> ?S" "t \<in> ?S" for s t
    using resamples_twice [OF finite_set f(9) _ that(2,3)] that(1) unfolding f(7) by blast
  show ?thesis using 1 2 3 by blast
qed

lemma resampling_recognised_witness:
  "resamples {0, 1, 2} (\<lambda>s. s = 2) (raw_weight resampling_weights) (raw_entry resampling_kernel)"
proof -
  have "case recognize_resampling [0, 1, 2] resampling_kernel resampling_weights (\<lambda>s. s = 2) of
      Inl _ \<Rightarrow> False | Inr a \<Rightarrow> rs_receipt a" by code_simp
  then obtain a where a: "recognize_resampling [0, 1, 2] resampling_kernel resampling_weights (\<lambda>s. s = 2) = Inr a"
      "rs_receipt a"
    by (auto split: sum.splits)
  from resampling_recognised [OF a(1)] a(2) show ?thesis by simp
qed

end
