(* ===== verification/Causal_Order.thy ===== *)
theory Causal_Order
  imports Prelude "HOL-Library.Product_Lexorder"
begin

text \<open>
  The causal order of an event log (\<open>oph_fpe/bulk/source_derived_causal_order.py\<close>): an edge runs
  from the event that wrote a resource to every event that reads it.  The theory models the
  generation of the edges with its refusals, the layering that gives ranks (Kahn's algorithm on a
  stack), the negative controls and the replay of a versioned repair log.  The capture of a run
  and the serialisation of the report are outside the model.
\<close>

section \<open>Edges from read-after-write provenance\<close>

record event_view =
  event_key :: string
  read_ids :: "string list"
  write_ids :: "string list"

definition provenance_view :: "event_view list \<Rightarrow> event_view list" where
  "provenance_view events = map (\<lambda>e. \<lparr>event_key = event_key e, read_ids = sort (read_ids e),
     write_ids = sort (write_ids e)\<rparr>) events"

definition claim_resource :: "string \<Rightarrow> (string \<rightharpoonup> string) \<Rightarrow> string \<Rightarrow> (string \<rightharpoonup> string) res" where
  "claim_resource key w r = (if w r \<noteq> None then Inl RuntimeError else Inr (w(r \<mapsto> key)))"

definition writers_of :: "event_view list \<Rightarrow> (string \<rightharpoonup> string) res" where
  "writers_of view = rfold (\<lambda>w e. rfold (claim_resource (event_key e)) w (write_ids e)) Map.empty view"

type_synonym shared_table = "((string \<times> string) \<times> string list) list"

fun add_shared :: "string \<times> string \<Rightarrow> string \<Rightarrow> shared_table \<Rightarrow> shared_table" where
  "add_shared k r [] = [(k, [r])]"
| "add_shared k r ((k', rs) # rest) = (if k' = k then (k', rs @ [r]) # rest else (k', rs) # add_shared k r rest)"

definition read_resource ::
  "string list \<Rightarrow> (string \<rightharpoonup> string) \<Rightarrow> string \<Rightarrow> shared_table \<Rightarrow> string \<Rightarrow> shared_table res" where
  "read_resource roots w child shared r = (case w r of
     None \<Rightarrow> if r \<in> set roots then Inr shared else Inl RuntimeError
   | Some parent \<Rightarrow> if parent = child then Inl RuntimeError else Inr (add_shared (parent, child) r shared))"

definition shared_of :: "string list \<Rightarrow> (string \<rightharpoonup> string) \<Rightarrow> event_view list \<Rightarrow> shared_table res" where
  "shared_of roots w view = rfold (\<lambda>sh e. rfold (read_resource roots w (event_key e)) sh (read_ids e)) [] view"

record causal_edge =
  edge_parent :: string
  edge_child :: string
  shared_ids :: "string list"

definition generated_edges :: "string list \<Rightarrow> event_view list \<Rightarrow> causal_edge list res" where
  "generated_edges roots view = rbind (writers_of view) (\<lambda>w. rbind (shared_of roots w view) (\<lambda>shared.
     Inr (map (\<lambda>(pc, rs). \<lparr>edge_parent = fst pc, edge_child = snd pc, shared_ids = sort rs\<rparr>) (sort_key fst shared))))"

definition declared_projection :: "causal_edge list \<Rightarrow> causal_edge list" where
  "declared_projection ancestry = sort_key (\<lambda>e. (edge_parent e, edge_child e))
     (map (\<lambda>e. \<lparr>edge_parent = edge_parent e, edge_child = edge_child e, shared_ids = sort (shared_ids e)\<rparr>) ancestry)"

section \<open>Layers of the order\<close>

record layering =
  indegree :: "string \<Rightarrow> int"
  rank_of :: "string \<Rightarrow> nat"
  frontier :: "string list"
  visited :: nat

definition children_of :: "causal_edge list \<Rightarrow> string \<Rightarrow> string list" where
  "children_of edges v = map edge_child (filter (\<lambda>e. edge_parent e = v) edges)"

fun relax :: "string \<Rightarrow> string list \<Rightarrow> layering \<Rightarrow> layering" where
  "relax event [] st = st"
| "relax event (c # cs) st =
     (let rank = (rank_of st)(c := max (rank_of st c) (rank_of st event + 1));
          degree = (indegree st)(c := indegree st c - 1)
      in relax event cs (st\<lparr>rank_of := rank, indegree := degree,
           frontier := (if degree c = 0 then frontier st @ [c] else frontier st)\<rparr>))"

partial_function (option) layers :: "causal_edge list \<Rightarrow> layering \<Rightarrow> layering option" where
  "layers edges st = (if frontier st = [] then Some st
     else layers edges (relax (last (frontier st)) (children_of edges (last (frontier st)))
            (st\<lparr>frontier := butlast (frontier st), visited := visited st + 1\<rparr>)))"

definition start_layering :: "string list \<Rightarrow> causal_edge list \<Rightarrow> layering" where
  "start_layering events edges =
     (let degree = (\<lambda>v. int (length (filter (\<lambda>e. edge_child e = v) edges)))
      in \<lparr>indegree = degree, rank_of = (\<lambda>v. 0),
          frontier = sort (filter (\<lambda>v. degree v = 0) (uniq events)), visited = 0\<rparr>)"

definition longest_path_ranks ::
  "string list \<Rightarrow> causal_edge list \<Rightarrow> (bool \<times> (string \<Rightarrow> nat)) res option" where
  "longest_path_ranks events edges =
     (if list_ex (\<lambda>e. edge_child e \<notin> set events \<or> edge_parent e \<notin> set events) edges then Some (Inl KeyError)
      else Option.bind (layers edges (start_layering events edges)) (\<lambda>st.
        Some (Inr (visited st = length events, rank_of st))))"

section \<open>Negative controls\<close>

text \<open>A refused generation counts as a control that holds.\<close>

definition refused :: "'a res \<Rightarrow> bool" where
  "refused r = (case r of Inl _ \<Rightarrow> True | Inr _ \<Rightarrow> False)"

definition rotated_writes :: "event_view list \<Rightarrow> event_view list \<Rightarrow> event_view list" where
  "rotated_writes writers view = (let rotation = zip (map event_key writers) (rotate1 (map write_ids writers))
     in map (\<lambda>e. case map_of (rev rotation) (event_key e) of None \<Rightarrow> e | Some ws \<Rightarrow> e\<lparr>write_ids := ws\<rparr>) view)"

definition writer_permutation_control :: "event_view list \<Rightarrow> causal_edge list \<Rightarrow> string list \<Rightarrow> bool" where
  "writer_permutation_control view generated roots = (let writers = filter (\<lambda>e. write_ids e \<noteq> []) view in
     if length writers < 2 then False
     else (case generated_edges roots (rotated_writes writers view) of
             Inl _ \<Rightarrow> True | Inr permuted \<Rightarrow> permuted \<noteq> generated))"

text \<open>
  The first row that writes is found by position; \<open>next\<close> on an exhausted generator raises
  \<open>StopIteration\<close>, which is \<open>None\<close> here.
\<close>

definition first_writer :: "event_view list \<Rightarrow> nat option" where
  "first_writer view = find (\<lambda>i. write_ids (view ! i) \<noteq> []) [0..<length view]"

definition duplicate_writer_view :: "event_view list \<Rightarrow> event_view list option" where
  "duplicate_writer_view view = Option.bind (first_writer view) (\<lambda>i.
     Option.bind (find (\<lambda>j. j \<noteq> i) [0..<length view]) (\<lambda>j.
     Some (view[j := (view ! j)\<lparr>write_ids := [hd (write_ids (view ! i))]\<rparr>])))"

definition missing_writer :: string where
  "missing_writer = ''unrooted:missing-writer''"

definition missing_writer_view :: "event_view list \<Rightarrow> event_view list option" where
  "missing_writer_view view = (case view of [] \<Rightarrow> None
     | e # rest \<Rightarrow> Some (e\<lparr>read_ids := [missing_writer]\<rparr> # rest))"

definition refusal_control :: "event_view list \<Rightarrow> string list \<Rightarrow> bool \<Rightarrow> bool option" where
  "refusal_control view roots duplicate_writer =
     map_option (\<lambda>mutated. refused (generated_edges roots mutated))
       (if duplicate_writer then duplicate_writer_view view else missing_writer_view view)"

section \<open>Versioned repair logs\<close>

record port_read =
  pr_carrier :: string
  pr_port :: int
  pr_version :: int

record port_write =
  pw_carrier :: string
  pw_port :: int
  pw_expected :: int
  pw_committed :: int

record repair_event =
  re_id :: string
  re_reads :: "port_read list"
  re_writes :: "port_write list"

text \<open>One version of one port; the source writes it as a tuple and as the text of a resource.\<close>

datatype port_version = Port_Version string int int

record version_log =
  version_writer :: "port_version \<rightharpoonup> string"
  version_edges :: "(string \<times> string \<times> port_version) set"
  version_roots :: "port_version set"

definition read_version :: "string \<Rightarrow> version_log \<Rightarrow> port_read \<Rightarrow> version_log res" where
  "read_version event log r = (let k = Port_Version (pr_carrier r) (pr_port r) (pr_version r) in
     case version_writer log k of
       None \<Rightarrow> if pr_version r \<noteq> 0 then Inl RuntimeError
               else Inr (log\<lparr>version_roots := insert k (version_roots log)\<rparr>)
     | Some writer \<Rightarrow> Inr (log\<lparr>version_edges := insert (writer, event, k) (version_edges log)\<rparr>))"

definition write_version :: "string \<Rightarrow> version_log \<Rightarrow> port_write \<Rightarrow> version_log res" where
  "write_version event log w = (let k = Port_Version (pw_carrier w) (pw_port w) (pw_committed w) in
     if pw_committed w \<noteq> pw_expected w + 1 then Inl RuntimeError
     else if version_writer log k \<noteq> None then Inl RuntimeError
     else Inr (log\<lparr>version_writer := (version_writer log)(k \<mapsto> event)\<rparr>))"

definition log_event :: "(repair_event \<Rightarrow> string) \<Rightarrow> version_log \<Rightarrow> repair_event \<Rightarrow> version_log res" where
  "log_event digest log e =
     (if re_id e \<noteq> digest e then Inl RuntimeError
      else rbind (rfold (read_version (re_id e)) log (re_reads e)) (\<lambda>log'.
           rfold (write_version (re_id e)) log' (re_writes e)))"

definition empty_version_log :: version_log where
  "empty_version_log = \<lparr>version_writer = Map.empty, version_edges = {}, version_roots = {}\<rparr>"

definition replay_versions :: "(repair_event \<Rightarrow> string) \<Rightarrow> bool \<Rightarrow> repair_event list \<Rightarrow> version_log res" where
  "replay_versions digest complete events = (if \<not> complete then Inl RuntimeError
     else rfold (log_event digest) empty_version_log events)"

datatype carrier_class = ANTICHAIN | VERSIONED_DEPENDENCIES

definition carrier_classification :: "repair_event list \<Rightarrow> version_log \<Rightarrow> carrier_class" where
  "carrier_classification events log =
     (if events \<noteq> [] \<and> version_edges log = {} then ANTICHAIN else VERSIONED_DEPENDENCIES)"

definition all_reads_root :: "repair_event list \<Rightarrow> bool" where
  "all_reads_root events \<longleftrightarrow> events \<noteq> [] \<and> list_all (\<lambda>e. list_all (\<lambda>r. pr_version r = 0) (re_reads e)) events"

section \<open>What the generated edges are\<close>

lemma rfold_append: "rfold f s (xs @ ys) = rbind (rfold f s xs) (\<lambda>s'. rfold f s' ys)"
  by (induction xs arbitrary: s) (auto simp: rbind_def split: sum.splits)

lemma rfold_map: "rfold f s (map g xs) = rfold (\<lambda>s x. f s (g x)) s xs"
  by (induction xs arbitrary: s) (auto simp: rbind_def split: sum.splits)

lemma rfold_nested: "rfold (\<lambda>s x. rfold (f x) s (g x)) s xs =
    rfold (\<lambda>s (x, y). f x s y) s (concat (map (\<lambda>x. map (Pair x) (g x)) xs))"
  by (induction xs arbitrary: s) (simp_all add: rfold_append rfold_map)

definition writes_of :: "event_view list \<Rightarrow> (string \<times> string) list" where
  "writes_of view = concat (map (\<lambda>e. map (Pair (event_key e)) (write_ids e)) view)"

definition reads_of :: "event_view list \<Rightarrow> (string \<times> string) list" where
  "reads_of view = concat (map (\<lambda>e. map (Pair (event_key e)) (read_ids e)) view)"

lemma writers_of_flat: "writers_of view = rfold (\<lambda>w (k, r). claim_resource k w r) Map.empty (writes_of view)"
proof -
  have "rfold (\<lambda>w e. rfold (claim_resource (event_key e)) w (write_ids e)) w view =
      rfold (\<lambda>w (k, r). claim_resource k w r) w (writes_of view)" for w
    by (induction view arbitrary: w) (simp_all add: writes_of_def rfold_append rfold_map)
  then show ?thesis by (simp add: writers_of_def)
qed

lemma shared_of_flat: "shared_of roots w view = rfold (\<lambda>sh (k, r). read_resource roots w k sh r) [] (reads_of view)"
proof -
  have "rfold (\<lambda>sh e. rfold (read_resource roots w (event_key e)) sh (read_ids e)) sh view =
      rfold (\<lambda>sh (k, r). read_resource roots w k sh r) sh (reads_of view)" for sh
    by (induction view arbitrary: sh) (simp_all add: reads_of_def rfold_append rfold_map)
  then show ?thesis by (simp add: shared_of_def)
qed

text \<open>The writers are known exactly when no resource is written twice.\<close>

lemma claims:
  "rfold (\<lambda>w (k, r). claim_resource k w r) w0 ps =
     (if distinct (map snd ps) \<and> (\<forall>r \<in> snd ` set ps. w0 r = None)
      then Inr (w0 ++ map_of (map prod.swap ps)) else Inl RuntimeError)"
proof (induction ps arbitrary: w0)
  case (Cons p ps)
  obtain k r where p: "p = (k, r)" by fastforce
  show ?case
  proof (cases "w0 r = None")
    case True
    have add: "w0(r \<mapsto> k) ++ map_of (map prod.swap ps) = w0 ++ map_of (map prod.swap ((k, r) # ps))"
      if "r \<notin> snd ` set ps"
    proof -
      have "map_of (map prod.swap ps) r = None" using that by (force simp: map_of_eq_None_iff)
      then show ?thesis by (auto simp: fun_eq_iff map_add_def split: option.splits)
    qed
    have step: "rfold (\<lambda>w (k, r). claim_resource k w r) w0 (p # ps) =
        rfold (\<lambda>w (k, r). claim_resource k w r) (w0(r \<mapsto> k)) ps"
      unfolding p using True by (simp add: claim_resource_def)
    show ?thesis
      unfolding step Cons.IH using add True unfolding p by (auto simp: fun_eq_iff map_add_def split: option.splits)
  next
    case False
    then show ?thesis unfolding p by (auto simp: claim_resource_def)
  qed
qed simp

lemma writers_of_iff: "writers_of view = Inr w \<longleftrightarrow>
    distinct (map snd (writes_of view)) \<and> w = map_of (map prod.swap (writes_of view))"
  unfolding writers_of_flat claims by auto

lemma writers_of_eq:
  assumes "writers_of view = Inr w"
  shows "w r = Some k \<longleftrightarrow> (k, r) \<in> set (writes_of view)"
proof -
  have "distinct (map fst (map prod.swap (writes_of view)))"
    using assms unfolding writers_of_iff by (simp add: o_def)
  then show ?thesis using assms unfolding writers_of_iff by (auto simp: map_of_eq_Some_iff)
qed

lemma add_shared_keys: "fst ` set (add_shared k r sh) = insert k (fst ` set sh)"
  by (induction k r sh rule: add_shared.induct) auto

lemma add_shared_distinct: "distinct (map fst sh) \<Longrightarrow> distinct (map fst (add_shared k r sh))"
proof (induction k r sh rule: add_shared.induct)
  case (2 k r k' rs rest)
  then show ?case using add_shared_keys [of k r rest] by (auto simp: image_iff)
qed simp

lemma add_shared_lookup: "map_of (add_shared k r sh) j =
    (if j = k then Some (case map_of sh k of None \<Rightarrow> [r] | Some rs \<Rightarrow> rs @ [r]) else map_of sh j)"
  by (induction k r sh rule: add_shared.induct) auto

definition resources_at :: "shared_table \<Rightarrow> string \<times> string \<Rightarrow> string set" where
  "resources_at sh k = (case map_of sh k of None \<Rightarrow> {} | Some rs \<Rightarrow> set rs)"

lemma resources_at_add: "resources_at (add_shared k r sh) j = (if j = k then insert r (resources_at sh k) else resources_at sh j)"
  by (simp add: resources_at_def add_shared_lookup split: option.splits)

lemma reads_ok:
  assumes "rfold (\<lambda>sh (c, r). read_resource roots w c sh r) sh0 ps = Inr sh"
    and "distinct (map fst sh0)" "[] \<notin> snd ` set sh0"
  shows "distinct (map fst sh) \<and> [] \<notin> snd ` set sh \<and>
    (\<forall>p c. resources_at sh (p, c) = resources_at sh0 (p, c) \<union> {r. (c, r) \<in> set ps \<and> w r = Some p}) \<and>
    (\<forall>(c, r) \<in> set ps. w r \<noteq> Some c \<and> (w r = None \<longrightarrow> r \<in> set roots))"
  using assms
proof (induction ps arbitrary: sh0)
  case (Cons x ps)
  obtain c r where x: "x = (c, r)" by fastforce
  from Cons.prems(1) obtain sh1 where sh1: "read_resource roots w c sh0 r = Inr sh1"
      "rfold (\<lambda>sh (c, r). read_resource roots w c sh r) sh1 ps = Inr sh"
    unfolding x by (auto elim!: rbind_eq_InrE)
  show ?case
  proof (cases "w r")
    case None
    then have "sh1 = sh0" "r \<in> set roots" using sh1(1) by (auto simp: read_resource_def split: if_splits)
    then show ?thesis using Cons.IH [OF sh1(2)] Cons.prems(2,3) None unfolding x by auto
  next
    case (Some p)
    then have p: "sh1 = add_shared (p, c) r sh0" "p \<noteq> c" using sh1(1) by (auto simp: read_resource_def split: if_splits)
    have "[] \<notin> snd ` set (add_shared k r sh)" if "[] \<notin> snd ` set sh" for k sh
      using that by (induction k r sh rule: add_shared.induct) auto
    then have "distinct (map fst sh1)" "[] \<notin> snd ` set sh1"
      using Cons.prems(2,3) unfolding p(1) by (simp_all add: add_shared_distinct)
    from Cons.IH [OF sh1(2) this] show ?thesis using p(2) Some unfolding x p(1) resources_at_add by auto
  qed
qed auto

lemma reads_total:
  "\<forall>(c, r) \<in> set ps. w r \<noteq> Some c \<and> (w r = None \<longrightarrow> r \<in> set roots) \<Longrightarrow>
   \<exists>sh. rfold (\<lambda>sh (c, r). read_resource roots w c sh r) sh0 ps = Inr sh"
proof (induction ps arbitrary: sh0)
  case (Cons x ps)
  obtain c r where x: "x = (c, r)" by fastforce
  then obtain sh1 where "read_resource roots w c sh0 r = Inr sh1"
    using Cons.prems by (cases "w r") (auto simp: read_resource_def)
  then show ?case using Cons unfolding x by auto
qed auto

lemma reads_iff:
  "(\<exists>sh. rfold (\<lambda>sh (c, r). read_resource roots w c sh r) [] ps = Inr sh) \<longleftrightarrow>
   (\<forall>(c, r) \<in> set ps. w r \<noteq> Some c \<and> (w r = None \<longrightarrow> r \<in> set roots))"
proof
  assume "\<exists>sh. rfold (\<lambda>sh (c, r). read_resource roots w c sh r) [] ps = Inr sh"
  then obtain sh where "rfold (\<lambda>sh (c, r). read_resource roots w c sh r) [] ps = Inr sh" ..
  from reads_ok [OF this] show "\<forall>(c, r) \<in> set ps. w r \<noteq> Some c \<and> (w r = None \<longrightarrow> r \<in> set roots)" by simp
qed (rule reads_total)

definition edge_pairs :: "causal_edge list \<Rightarrow> (string \<times> string) set" where
  "edge_pairs es = (\<lambda>e. (edge_parent e, edge_child e)) ` set es"

text \<open>
  The generation succeeds exactly when no resource is written twice and every read resource is
  written by another event or is a declared root; the edges are then the read-after-write pairs.
\<close>

lemma generated_iff:
  "(\<exists>es. generated_edges roots view = Inr es) \<longleftrightarrow> distinct (map snd (writes_of view)) \<and>
     (\<forall>(c, r) \<in> set (reads_of view). (c, r) \<notin> set (writes_of view) \<and>
        (r \<in> set roots \<or> (\<exists>p. (p, r) \<in> set (writes_of view))))"
proof -
  have "(\<exists>es. generated_edges roots view = Inr es) \<longleftrightarrow>
      (\<exists>w. writers_of view = Inr w \<and> (\<exists>sh. shared_of roots w view = Inr sh))"
    by (auto simp: generated_edges_def rbind_eq_Inr)
  also have "\<dots> \<longleftrightarrow> (\<exists>w. writers_of view = Inr w \<and>
      (\<forall>(c, r) \<in> set (reads_of view). w r \<noteq> Some c \<and> (w r = None \<longrightarrow> r \<in> set roots)))"
    unfolding shared_of_flat reads_iff ..
  also have "\<dots> \<longleftrightarrow> distinct (map snd (writes_of view)) \<and>
     (\<forall>(c, r) \<in> set (reads_of view). (c, r) \<notin> set (writes_of view) \<and>
        (r \<in> set roots \<or> (\<exists>p. (p, r) \<in> set (writes_of view))))"
  proof (cases "distinct (map snd (writes_of view))")
    case True
    then obtain w where w: "writers_of view = Inr w" by (simp add: writers_of_iff)
    have n: "w r = None \<longleftrightarrow> (\<nexists>p. (p, r) \<in> set (writes_of view))" for r
      using writers_of_eq [OF w] by (metis not_None_eq)
    show ?thesis using w n writers_of_eq [OF w] True by auto
  qed (simp add: writers_of_iff)
  finally show ?thesis .
qed

lemma generated_error:
  assumes "generated_edges roots view = Inl err"
  shows "err = RuntimeError"
proof -
  have w: "e = RuntimeError" if "writers_of view = Inl e" for e
    using that unfolding writers_of_flat by (rule rfold_error [rotated]) (auto simp: claim_resource_def split: if_splits)
  have s: "e = RuntimeError" if "shared_of roots w view = Inl e" for w e
    using that unfolding shared_of_flat
    by (rule rfold_error [rotated]) (auto simp: read_resource_def split: if_splits option.splits)
  show ?thesis using assms w s
    by (cases "writers_of view"; cases "shared_of roots (projr (writers_of view)) view") (auto simp: generated_edges_def)
qed

lemma generated_edges_exact:
  assumes "generated_edges roots view = Inr es"
  shows "sorted (map (\<lambda>e. (edge_parent e, edge_child e)) es)" "distinct (map (\<lambda>e. (edge_parent e, edge_child e)) es)"
    and "e \<in> set es \<Longrightarrow> set (shared_ids e) =
      {r. (edge_parent e, r) \<in> set (writes_of view) \<and> (edge_child e, r) \<in> set (reads_of view)} \<and> shared_ids e \<noteq> []"
    and "edge_pairs es = {(p, c). \<exists>r. (p, r) \<in> set (writes_of view) \<and> (c, r) \<in> set (reads_of view)}"
    and "(v, v) \<notin> edge_pairs es"
proof -
  obtain w sh where w: "writers_of view = Inr w" and sh: "shared_of roots w view = Inr sh"
    and es: "es = map (\<lambda>(pc, rs). \<lparr>edge_parent = fst pc, edge_child = snd pc, shared_ids = sort rs\<rparr>) (sort_key fst sh)"
    using assms by (auto simp: generated_edges_def elim!: rbind_eq_InrE)
  note k = reads_ok [OF sh [unfolded shared_of_flat]]
  have d: "distinct (map fst sh)" and ne: "[] \<notin> snd ` set sh" using k by auto
  have at: "resources_at sh (p, c) = {r. (p, r) \<in> set (writes_of view) \<and> (c, r) \<in> set (reads_of view)}" for p c
    using k writers_of_eq [OF w] by (auto simp: resources_at_def)
  have keys: "map (\<lambda>e. (edge_parent e, edge_child e)) es = map fst (sort_key fst sh)"
    unfolding es by (simp add: case_prod_beta)
  show "sorted (map (\<lambda>e. (edge_parent e, edge_child e)) es)" unfolding keys by simp
  show "distinct (map (\<lambda>e. (edge_parent e, edge_child e)) es)" unfolding keys using d by (simp add: distinct_map)
  have mem: "\<exists>rs. ((edge_parent e, edge_child e), rs) \<in> set sh \<and> shared_ids e = sort rs" if "e \<in> set es" for e
    using that unfolding es by auto
  show one: "set (shared_ids e) = {r. (edge_parent e, r) \<in> set (writes_of view) \<and> (edge_child e, r) \<in> set (reads_of view)} \<and>
      shared_ids e \<noteq> []" if in_es: "e \<in> set es" for e
  proof -
    obtain rs where rs: "((edge_parent e, edge_child e), rs) \<in> set sh" "shared_ids e = sort rs" using mem [OF in_es] by blast
    then have "map_of sh (edge_parent e, edge_child e) = Some rs" using d by simp
    moreover have "rs \<noteq> []" using rs(1) ne by force
    ultimately show ?thesis using at [of "edge_parent e" "edge_child e"] rs(2) by (simp add: resources_at_def) (metis set_empty set_sort)
  qed
  show pairs: "edge_pairs es = {(p, c). \<exists>r. (p, r) \<in> set (writes_of view) \<and> (c, r) \<in> set (reads_of view)}"
  proof (intro set_eqI iffI)
    fix x
    assume "x \<in> edge_pairs es"
    then obtain e where e: "e \<in> set es" "x = (edge_parent e, edge_child e)" by (auto simp: edge_pairs_def)
    from one [OF e(1)] obtain r where "r \<in> set (shared_ids e)" by (cases "shared_ids e") auto
    then show "x \<in> {(p, c). \<exists>r. (p, r) \<in> set (writes_of view) \<and> (c, r) \<in> set (reads_of view)}"
      using one [OF e(1)] e(2) by auto
  next
    fix x
    assume "x \<in> {(p, c). \<exists>r. (p, r) \<in> set (writes_of view) \<and> (c, r) \<in> set (reads_of view)}"
    then obtain p c r where x: "x = (p, c)" "r \<in> resources_at sh (p, c)" unfolding at by blast
    then obtain rs where "map_of sh (p, c) = Some rs" by (auto simp: resources_at_def split: option.splits)
    then have "((p, c), rs) \<in> set (sort_key fst sh)" by (simp add: map_of_SomeD)
    then show "x \<in> edge_pairs es" unfolding edge_pairs_def es x(1) by (force simp: image_iff)
  qed
  show "(v, v) \<notin> edge_pairs es" using k writers_of_eq [OF w] unfolding pairs by auto
qed

section \<open>The layering is correct\<close>

text \<open>
  \<open>R\<close> holds the edges, \<open>Q\<close> those not yet used and \<open>D\<close> the events taken from the stack.  An event
  is on the stack or done exactly when no unused edge ends in it, a used edge starts in an event
  that no unused edge ends in, and ranks are explained by the used edges.
\<close>

definition layer_inv ::
  "string set \<Rightarrow> (string \<times> string) set \<Rightarrow> (string \<times> string) set \<Rightarrow> string set \<Rightarrow> layering \<Rightarrow> bool" where
  "layer_inv V R Q D st \<longleftrightarrow>
     Q \<subseteq> R \<and> D \<subseteq> V \<and> set (frontier st) \<subseteq> V \<and> distinct (frontier st) \<and> set (frontier st) \<inter> D = {} \<and>
     visited st = card D \<and>
     (\<forall>v. indegree st v = int (card {p. (p, v) \<in> Q})) \<and>
     (\<forall>v \<in> V. v \<in> D \<union> set (frontier st) \<longleftrightarrow> (\<forall>p. (p, v) \<notin> Q)) \<and>
     (\<forall>(p, c) \<in> R - Q. p \<in> D \<and> rank_of st p < rank_of st c) \<and>
     (\<forall>v. rank_of st v = 0 \<or> (\<exists>p. (p, v) \<in> R - Q \<and> rank_of st v = rank_of st p + 1))"

lemma relax_inv:
  assumes "layer_inv V R Q D st" "finite R" "snd ` R \<subseteq> V" "v \<in> D" "distinct cs" "Pair v ` set cs \<subseteq> Q"
  shows "layer_inv V R (Q - Pair v ` set cs) D (relax v cs st)"
  using assms(1,5,6)
proof (induction cs arbitrary: Q st)
  case (Cons c cs)
  let ?Q = "Q - {(v, c)}"
  let ?st = "st\<lparr>rank_of := (rank_of st)(c := max (rank_of st c) (rank_of st v + 1)),
     indegree := (indegree st)(c := indegree st c - 1),
     frontier := (if indegree st c - 1 = 0 then frontier st @ [c] else frontier st)\<rparr>"
  have i: "Q \<subseteq> R" "D \<subseteq> V" "set (frontier st) \<subseteq> V" "distinct (frontier st)" "set (frontier st) \<inter> D = {}" "visited st = card D"
    and deg: "\<And>w. indegree st w = int (card {p. (p, w) \<in> Q})"
    and free: "\<And>w. w \<in> V \<Longrightarrow> w \<in> D \<union> set (frontier st) \<longleftrightarrow> (\<forall>p. (p, w) \<notin> Q)"
    and used: "\<And>p d. (p, d) \<in> R \<Longrightarrow> (p, d) \<notin> Q \<Longrightarrow> p \<in> D \<and> rank_of st p < rank_of st d"
    and why: "\<And>w. rank_of st w = 0 \<or> (\<exists>p. (p, w) \<in> R - Q \<and> rank_of st w = rank_of st p + 1)"
    using Cons.prems(1) unfolding layer_inv_def by auto
  have vc: "(v, c) \<in> Q" "(v, c) \<in> R" using Cons.prems(3) i(1) by auto
  have c: "c \<in> V" using imageI [OF vc(2), of snd] assms(3) by auto
  have "c \<notin> D" "c \<notin> set (frontier st)" using free [OF c] vc(1) by blast+
  note c = c this
  then have cv: "c \<noteq> v" using assms(4) by auto
  have fin: "finite {p. (p, w) \<in> Q}" for w
  proof -
    have "{p. (p, w) \<in> Q} \<subseteq> fst ` Q" by force
    moreover have "finite Q" using assms(2) i(1) finite_subset by blast
    ultimately show ?thesis using finite_subset by blast
  qed
  have into_c: "{p. (p, c) \<in> ?Q} = {p. (p, c) \<in> Q} - {v}" by auto
  have other: "{p. (p, w) \<in> ?Q} = {p. (p, w) \<in> Q}" if "w \<noteq> c" for w using that by auto
  have card_c: "int (card {p. (p, c) \<in> ?Q}) = int (card {p. (p, c) \<in> Q}) - 1"
  proof -
    have "card {p. (p, c) \<in> Q} = Suc (card {p. (p, c) \<in> ?Q})"
      unfolding into_c using fin vc(1) by (intro card.remove) auto
    then show ?thesis by simp
  qed
  have zero: "indegree st c - 1 = 0 \<longleftrightarrow> (\<forall>p. (p, c) \<notin> ?Q)"
  proof -
    have "indegree st c - 1 = int (card {p. (p, c) \<in> ?Q})" using deg card_c by simp
    moreover have "finite {p. (p, c) \<in> ?Q}" unfolding into_c using fin by simp
    ultimately show ?thesis by auto
  qed
  have "layer_inv V R ?Q D ?st"
    unfolding layer_inv_def
  proof (intro conjI)
    show "?Q \<subseteq> R" "D \<subseteq> V" using i by auto
    show "set (frontier ?st) \<subseteq> V" "distinct (frontier ?st)" "set (frontier ?st) \<inter> D = {}" using i c by auto
    show "visited ?st = card D" using i by simp
    show "\<forall>w. indegree ?st w = int (card {p. (p, w) \<in> ?Q})" using deg card_c other by simp
    show "\<forall>w \<in> V. w \<in> D \<union> set (frontier ?st) \<longleftrightarrow> (\<forall>p. (p, w) \<notin> ?Q)"
    proof
      fix w
      assume "w \<in> V"
      show "w \<in> D \<union> set (frontier ?st) \<longleftrightarrow> (\<forall>p. (p, w) \<notin> ?Q)"
      proof (cases "w = c")
        case True
        then show ?thesis using zero c by auto
      next
        case False
        then show ?thesis using free [OF \<open>w \<in> V\<close>] by auto
      qed
    qed
    show "\<forall>(p, d) \<in> R - ?Q. p \<in> D \<and> rank_of ?st p < rank_of ?st d"
    proof (intro ballI, clarify)
      fix p d
      assume "(p, d) \<in> R" "(p, d) \<notin> ?Q"
      then have "p = v \<and> d = c \<or> (p, d) \<notin> Q" by (simp, argo)
      then show "p \<in> D \<and> rank_of ?st p < rank_of ?st d"
      proof (elim disjE)
        assume "p = v \<and> d = c"
        then show ?thesis using assms(4) cv by simp
      next
        assume "(p, d) \<notin> Q"
        from used [OF \<open>(p, d) \<in> R\<close> this] have pd: "p \<in> D" "rank_of st p < rank_of st d" by simp_all
        then have "p \<noteq> c" using c by blast
        then show ?thesis using pd by (auto simp: less_max_iff_disj)
      qed
    qed
    show "\<forall>w. rank_of ?st w = 0 \<or> (\<exists>p. (p, w) \<in> R - ?Q \<and> rank_of ?st w = rank_of ?st p + 1)"
    proof
      fix w
      have old: "\<exists>p. (p, w) \<in> R - ?Q \<and> rank_of st w = rank_of ?st p + 1" if nz: "rank_of st w \<noteq> 0"
      proof -
        obtain p where p: "(p, w) \<in> R - Q" "rank_of st w = rank_of st p + 1" using why [of w] nz by blast
        then have "p \<in> D" using used by auto
        then have "p \<noteq> c" using c by auto
        then show ?thesis using p by auto
      qed
      show "rank_of ?st w = 0 \<or> (\<exists>p. (p, w) \<in> R - ?Q \<and> rank_of ?st w = rank_of ?st p + 1)"
      proof (cases "w = c \<and> rank_of st c < rank_of st v + 1")
        case True
        then show ?thesis using vc cv by (intro disjI2 exI [of _ v]) auto
      next
        case False
        then have "rank_of ?st w = rank_of st w" by auto
        then show ?thesis using old by metis
      qed
    qed
  qed
  moreover have "Pair v ` set cs \<subseteq> ?Q" using Cons.prems(2,3) by auto
  ultimately have "layer_inv V R (?Q - Pair v ` set cs) D (relax v cs ?st)"
    using Cons.IH Cons.prems(2) by simp
  moreover have "?Q - Pair v ` set cs = Q - Pair v ` set (c # cs)" by auto
  moreover have "relax v (c # cs) st = relax v cs ?st" by (simp add: Let_def)
  ultimately show ?case by simp
qed simp

text \<open>The edges that start in an event not yet done.\<close>

definition unused :: "(string \<times> string) set \<Rightarrow> string set \<Rightarrow> (string \<times> string) set" where
  "unused R D = {(p, c). (p, c) \<in> R \<and> p \<notin> D}"

lemma layer_step:
  assumes "layer_inv V R (unused R D) D st" "finite R" "snd ` R \<subseteq> V" "finite V" "frontier st \<noteq> []"
    and "\<And>v. distinct (cs v)" "\<And>v. set (cs v) = {c. (v, c) \<in> R}"
  defines "v \<equiv> last (frontier st)"
  shows "v \<in> V - D" "layer_inv V R (unused R (insert v D)) (insert v D)
    (relax v (cs v) (st\<lparr>frontier := butlast (frontier st), visited := visited st + 1\<rparr>))"
proof -
  have f: "frontier st = butlast (frontier st) @ [v]" unfolding v_def using assms(5) by simp
  then have vf: "v \<in> set (frontier st)" by (metis in_set_conv_decomp)
  then show v: "v \<in> V - D" using assms(1) unfolding layer_inv_def by auto
  let ?st = "st\<lparr>frontier := butlast (frontier st), visited := visited st + 1\<rparr>"
  have d: "distinct (butlast (frontier st) @ [v])" using assms(1) f unfolding layer_inv_def by metis
  have "finite D" using assms(1,4) finite_subset unfolding layer_inv_def by blast
  then have card: "card (insert v D) = visited st + 1" using v assms(1) unfolding layer_inv_def by simp
  have same: "set (frontier st) = insert v (set (butlast (frontier st)))" by (subst f) auto
  have "layer_inv V R (unused R D) (insert v D) ?st"
    using assms(1) v d card same unfolding layer_inv_def by auto
  moreover have "Pair v ` set (cs v) \<subseteq> unused R D" using assms(7) v by (auto simp: unused_def)
  ultimately have "layer_inv V R (unused R D - Pair v ` set (cs v)) (insert v D) (relax v (cs v) ?st)"
    by (intro relax_inv [OF _ assms(2,3) insertI1 assms(6)])
  moreover have "unused R D - Pair v ` set (cs v) = unused R (insert v D)"
    using assms(7) by (auto simp: unused_def)
  ultimately show "layer_inv V R (unused R (insert v D)) (insert v D) (relax v (cs v) ?st)" by simp
qed

lemma layers_end:
  assumes "layer_inv V R (unused R D) D st" "finite R" "snd ` R \<subseteq> V" "finite V"
    and "\<And>v. distinct (children_of es v)" "\<And>v. set (children_of es v) = {c. (v, c) \<in> R}"
  shows "\<exists>st' D'. layers es st = Some st' \<and> layer_inv V R (unused R D') D' st' \<and> frontier st' = []"
  using assms(1)
proof (induction "card (V - D)" arbitrary: D st rule: less_induct)
  case less
  show ?case
  proof (cases "frontier st = []")
    case True
    then have "layers es st = Some st" by (subst layers.simps) simp
    then show ?thesis using less.prems True by blast
  next
    case False
    let ?v = "last (frontier st)"
    let ?st = "relax ?v (children_of es ?v) (st\<lparr>frontier := butlast (frontier st), visited := visited st + 1\<rparr>)"
    note s = layer_step [OF less.prems assms(2-4) False assms(5,6)]
    have "card (V - insert ?v D) < card (V - D)" using s(1) assms(4) by (intro psubset_card_mono) auto
    from less.hyps [OF this s(2)] have "\<exists>st' D'. layers es ?st = Some st' \<and> layer_inv V R (unused R D') D' st' \<and> frontier st' = []" .
    moreover have "layers es st = layers es ?st" using False by (subst layers.simps) simp
    ultimately show ?thesis by simp
  qed
qed

lemma final_layers:
  assumes "layer_inv V R (unused R D) D st" "frontier st = []" "finite V" "R \<subseteq> V \<times> V"
  shows "visited st = card V \<longleftrightarrow> acyclic R"
    and "acyclic R \<Longrightarrow> (p, c) \<in> R \<Longrightarrow> rank_of st p < rank_of st c"
    and "rank_of st v = 0 \<or> (\<exists>p. (p, v) \<in> R \<and> rank_of st v = rank_of st p + 1)"
proof -
  have D: "D \<subseteq> V" "visited st = card D" and free: "\<And>w. w \<in> V \<Longrightarrow> w \<in> D \<longleftrightarrow> (\<forall>p. (p, w) \<in> R \<longrightarrow> p \<in> D)"
    and used: "\<And>p d. (p, d) \<in> R \<Longrightarrow> p \<in> D \<Longrightarrow> rank_of st p < rank_of st d"
    using assms(1,2) unfolding layer_inv_def unused_def by auto
  have "finite R" using assms(3,4) by (meson finite_SigmaI finite_subset)
  have all: "D = V" if "acyclic R"
  proof (rule ccontr)
    assume "D \<noteq> V"
    then obtain w where "w \<in> V - D" using D(1) by blast
    moreover have "wf R" using \<open>finite R\<close> that by (rule finite_acyclic_wf)
    ultimately obtain z where z: "z \<in> V - D" "\<And>y. (y, z) \<in> R \<Longrightarrow> y \<notin> V - D" by (metis wfE_min)
    then show False using free [of z] assms(4) by blast
  qed
  show "visited st = card V \<longleftrightarrow> acyclic R"
  proof
    assume "visited st = card V"
    then have "D = V" using D assms(3) card_subset_eq by metis
    then have "R \<subseteq> inv_image less_than (rank_of st)" using used assms(4) by auto
    then have "wf R" using wf_subset wf_inv_image wf_less_than by blast
    then show "acyclic R" by (rule wf_acyclic)
  qed (use all D in auto)
  show "acyclic R \<Longrightarrow> (p, c) \<in> R \<Longrightarrow> rank_of st p < rank_of st c" using all used assms(4) by blast
  show "rank_of st v = 0 \<or> (\<exists>p. (p, v) \<in> R \<and> rank_of st v = rank_of st p + 1)"
    using assms(1) unfolding layer_inv_def by blast
qed

lemma children_of_pairs:
  assumes "distinct (map (\<lambda>e. (edge_parent e, edge_child e)) es)"
  shows "distinct (children_of es v)" "set (children_of es v) = {c. (v, c) \<in> edge_pairs es}"
proof -
  show "set (children_of es v) = {c. (v, c) \<in> edge_pairs es}"
    by (auto simp: children_of_def edge_pairs_def image_iff)
  show "distinct (children_of es v)"
    using assms by (auto simp: children_of_def distinct_map inj_on_def)
qed

lemma start_layering_inv:
  assumes "distinct (map (\<lambda>e. (edge_parent e, edge_child e)) es)" "edge_pairs es \<subseteq> set events \<times> set events"
  shows "layer_inv (set events) (edge_pairs es) (unused (edge_pairs es) {}) {} (start_layering events es)"
proof -
  have deg: "length (filter (\<lambda>e. edge_child e = v) es) = card {p. (p, v) \<in> edge_pairs es}" for v
  proof -
    have inj: "inj_on edge_parent (set (filter (\<lambda>e. edge_child e = v) es))"
      using assms(1) by (auto simp: distinct_map inj_on_def)
    have "distinct es" using assms(1) by (simp add: distinct_map)
    then have "length (filter (\<lambda>e. edge_child e = v) es) = card (set (filter (\<lambda>e. edge_child e = v) es))"
      by (intro distinct_card [symmetric] distinct_filter)
    also have "\<dots> = card (edge_parent ` set (filter (\<lambda>e. edge_child e = v) es))"
      by (rule card_image [OF inj, symmetric])
    also have "edge_parent ` set (filter (\<lambda>e. edge_child e = v) es) = {p. (p, v) \<in> edge_pairs es}"
      by (auto simp: edge_pairs_def)
    finally show ?thesis .
  qed
  have fin: "finite {p. (p, v) \<in> edge_pairs es}" for v
  proof -
    have "{p. (p, v) \<in> edge_pairs es} \<subseteq> fst ` edge_pairs es" by force
    then show ?thesis by (rule finite_subset) (simp add: edge_pairs_def)
  qed
  have u: "unused (edge_pairs es) {} = edge_pairs es" by (auto simp: unused_def)
  show ?thesis
    unfolding layer_inv_def u start_layering_def Let_def using fin by (auto simp: deg)
qed

lemma longest_path_ranks_result:
  assumes "distinct (map (\<lambda>e. (edge_parent e, edge_child e)) es)" "edge_pairs es \<subseteq> set events \<times> set events" "distinct events"
  shows "\<exists>rank. longest_path_ranks events es = Some (Inr (acyclic (edge_pairs es), rank)) \<and>
    (acyclic (edge_pairs es) \<longrightarrow> (\<forall>v. (\<exists>u. (u, v) \<in> edge_pairs es ^^ rank v) \<and>
       (\<forall>u n. (u, v) \<in> edge_pairs es ^^ n \<longrightarrow> n \<le> rank v)))"
proof -
  let ?R = "edge_pairs es" and ?V = "set events"
  have fin: "finite ?R" by (simp add: edge_pairs_def)
  have "snd ` ?R \<subseteq> ?V" using assms(2) by auto
  from layers_end [OF start_layering_inv [OF assms(1,2)] fin this finite_set children_of_pairs [OF assms(1)]]
  obtain st D where st: "layers es (start_layering events es) = Some st" "layer_inv ?V ?R (unused ?R D) D st" "frontier st = []"
    by blast
  note f = final_layers [OF st(2,3) finite_set assms(2)]
  have n: "visited st = length events \<longleftrightarrow> acyclic ?R" using f(1) assms(3) by (simp add: distinct_card)
  have k: "\<not> list_ex (\<lambda>e. edge_child e \<notin> ?V \<or> edge_parent e \<notin> ?V) es"
    using assms(2) by (auto simp: list_ex_iff edge_pairs_def)
  have "longest_path_ranks events es = Some (Inr (acyclic ?R, rank_of st))"
    unfolding longest_path_ranks_def using k st(1) n by simp
  moreover have "\<exists>u. (u, v) \<in> ?R ^^ rank_of st v" for v
  proof (induction "rank_of st v" arbitrary: v)
    case 0
    then show ?case by auto
  next
    case (Suc k)
    then obtain p where p: "(p, v) \<in> ?R" "k = rank_of st p" using f(3) [of v] by auto
    from Suc.hyps(1) [OF p(2)] obtain u where "(u, p) \<in> ?R ^^ k" using p(2) by auto
    then have "(u, v) \<in> ?R ^^ Suc k" using p(1) by auto
    then show ?case using Suc.hyps(2) by metis
  qed
  moreover have "n \<le> rank_of st v" if "acyclic ?R" "(u, v) \<in> ?R ^^ n" for u v n
    using that(2)
  proof (induction n arbitrary: v)
    case (Suc n)
    then obtain w where "(u, w) \<in> ?R ^^ n" "(w, v) \<in> ?R" by auto
    then show ?case using Suc.IH f(2) [OF that(1)] by fastforce
  qed simp
  ultimately show ?thesis by blast
qed

section \<open>The refusal controls\<close>

lemma distinct_concat_nth:
  assumes "distinct (concat xss)" "i < j" "j < length xss" "x \<in> set (xss ! i)" "x \<in> set (xss ! j)"
  shows False
proof -
  have "xss = take j xss @ drop j xss" by simp
  then have "distinct (concat (take j xss) @ concat (drop j xss))" using assms(1) by (metis concat_append)
  then have disj: "set (concat (take j xss)) \<inter> set (concat (drop j xss)) = {}" by simp
  have "xss ! i \<in> set (take j xss)" using assms(2,3) by (auto simp: in_set_conv_nth)
  moreover have "xss ! j \<in> set (drop j xss)" using assms(3) by (simp add: Cons_nth_drop_Suc [symmetric])
  ultimately have "x \<in> set (concat (take j xss)) \<inter> set (concat (drop j xss))" using assms(4,5) by auto
  then show False using disj by blast
qed

lemma twice_written:
  assumes "i < length view" "j < length view" "i \<noteq> j" "r \<in> set (write_ids (view ! i))" "r \<in> set (write_ids (view ! j))"
  shows "\<not> distinct (map snd (writes_of view))"
proof
  assume "distinct (map snd (writes_of view))"
  then have "distinct (concat (map write_ids view))" by (simp add: writes_of_def map_concat o_def)
  then show False
    using distinct_concat_nth [of "map write_ids view" i j r] distinct_concat_nth [of "map write_ids view" j i r] assms
    by (cases "i < j") auto
qed

lemma find_Some_nth: "find P [0..<n] = Some i \<Longrightarrow> i < n \<and> P i"
  by (auto simp: find_Some_iff)

lemma refusal_duplicate: "refusal_control view roots True = Some b \<Longrightarrow> b"
proof -
  assume r: "refusal_control view roots True = Some b"
  then obtain mutated where m: "duplicate_writer_view view = Some mutated" "b = refused (generated_edges roots mutated)"
    by (auto simp: refusal_control_def)
  obtain i where i: "first_writer view = Some i"
    using m(1) by (cases "first_writer view") (simp_all add: duplicate_writer_view_def)
  obtain j where j: "find (\<lambda>j. j \<noteq> i) [0..<length view] = Some j"
    using m(1) i by (cases "find (\<lambda>j. j \<noteq> i) [0..<length view]") (simp_all add: duplicate_writer_view_def)
  have ij: "i < length view" "write_ids (view ! i) \<noteq> []" "j < length view" "j \<noteq> i"
    using find_Some_nth [OF i [unfolded first_writer_def]] find_Some_nth [OF j] by simp_all
  have "mutated = view[j := (view ! j)\<lparr>write_ids := [hd (write_ids (view ! i))]\<rparr>]"
    using m(1) i j by (simp add: duplicate_writer_view_def)
  note ij = ij this
  have "\<not> distinct (map snd (writes_of mutated))"
    using ij by (intro twice_written [of i _ j "hd (write_ids (view ! i))"]) auto
  then have "\<nexists>es. generated_edges roots mutated = Inr es" unfolding generated_iff by blast
  then show b unfolding m(2) refused_def by (cases "generated_edges roots mutated") auto
qed

lemma refusal_missing:
  assumes "view \<noteq> []" "missing_writer \<notin> set roots" "missing_writer \<notin> snd ` set (writes_of view)"
  shows "refusal_control view roots False = Some True"
proof -
  obtain e rest where view: "view = e # rest" using assms(1) by (cases view) auto
  let ?m = "e\<lparr>read_ids := [missing_writer]\<rparr> # rest"
  have "(event_key e, missing_writer) \<in> set (reads_of ?m)" by (simp add: reads_of_def)
  moreover have "missing_writer \<notin> snd ` set (writes_of ?m)" using assms(3) by (simp add: writes_of_def view)
  ultimately have "\<nexists>es. generated_edges roots ?m = Inr es" unfolding generated_iff using assms(2) by force
  then have "refused (generated_edges roots ?m)" unfolding refused_def by (cases "generated_edges roots ?m") auto
  then show ?thesis by (simp add: refusal_control_def missing_writer_view_def view)
qed

section \<open>The replay of a versioned log\<close>

definition read_key :: "port_read \<Rightarrow> port_version" where
  "read_key r = Port_Version (pr_carrier r) (pr_port r) (pr_version r)"

definition write_key :: "port_write \<Rightarrow> port_version" where
  "write_key w = Port_Version (pw_carrier w) (pw_port w) (pw_committed w)"

definition reads_at :: "repair_event \<Rightarrow> port_version set" where
  "reads_at e = read_key ` set (re_reads e)"

definition writes_at :: "repair_event \<Rightarrow> port_version set" where
  "writes_at e = write_key ` set (re_writes e)"

lemma read_version_fold:
  "rfold (read_version event) log rs =
     (if \<forall>r \<in> set rs. pr_version r = 0 \<or> version_writer log (read_key r) \<noteq> None
      then Inr (log\<lparr>version_edges := version_edges log \<union>
             {(w, event, k) |w k. k \<in> read_key ` set rs \<and> version_writer log k = Some w},
           version_roots := version_roots log \<union> {k \<in> read_key ` set rs. version_writer log k = None}\<rparr>)
      else Inl RuntimeError)"
proof (induction rs arbitrary: log)
  case (Cons r rs)
  show ?case
  proof (cases "version_writer log (read_key r)")
    case None
    show ?thesis
    proof (cases "pr_version r = 0")
      case True
      have "read_version event log r = Inr (log\<lparr>version_roots := insert (read_key r) (version_roots log)\<rparr>)"
        using None True by (simp add: read_version_def read_key_def Let_def)
      then show ?thesis using None True by (auto simp: Cons.IH intro!: version_log.equality)
    next
      case False
      then have "read_version event log r = Inl RuntimeError"
        using None by (simp add: read_version_def read_key_def Let_def)
      then show ?thesis using None False by simp
    qed
  next
    case (Some w)
    have "read_version event log r = Inr (log\<lparr>version_edges := insert (w, event, read_key r) (version_edges log)\<rparr>)"
      using Some by (simp add: read_version_def read_key_def Let_def)
    then show ?thesis using Some by (auto simp: Cons.IH intro!: version_log.equality)
  qed
qed simp

lemma write_version_fold:
  "rfold (write_version event) log ws =
     (if (\<forall>w \<in> set ws. pw_committed w = pw_expected w + 1 \<and> version_writer log (write_key w) = None) \<and>
         distinct (map write_key ws)
      then Inr (log\<lparr>version_writer := (\<lambda>k. if k \<in> write_key ` set ws then Some event else version_writer log k)\<rparr>)
      else Inl RuntimeError)"
proof (induction ws arbitrary: log)
  case (Cons w ws)
  show ?case
  proof (cases "pw_committed w = pw_expected w + 1 \<and> version_writer log (write_key w) = None")
    case True
    then have step: "write_version event log w = Inr (log\<lparr>version_writer := (version_writer log)(write_key w \<mapsto> event)\<rparr>)"
      by (auto simp: write_version_def write_key_def Let_def)
    have ok: "(\<forall>v \<in> set ws. pw_committed v = pw_expected v + 1 \<and>
          ((version_writer log)(write_key w \<mapsto> event)) (write_key v) = None) \<and> distinct (map write_key ws) \<longleftrightarrow>
        (\<forall>v \<in> set (w # ws). pw_committed v = pw_expected v + 1 \<and> version_writer log (write_key v) = None) \<and>
          distinct (map write_key (w # ws))" (is "?new \<longleftrightarrow> ?all")
      using True by (auto simp: image_iff)
    have after: "(\<lambda>k. if k \<in> write_key ` set ws then Some event else ((version_writer log)(write_key w \<mapsto> event)) k) =
        (\<lambda>k. if k \<in> write_key ` set (w # ws) then Some event else version_writer log k)" by auto
    define log1 where "log1 = log\<lparr>version_writer := (version_writer log)(write_key w \<mapsto> event)\<rparr>"
    have l: "version_writer log1 = (version_writer log)(write_key w \<mapsto> event)"
      "log1\<lparr>version_writer := f\<rparr> = log\<lparr>version_writer := f\<rparr>" for f by (simp_all add: log1_def)
    have "rfold (write_version event) log (w # ws) = rfold (write_version event) log1 ws"
      by (simp only: rfold.simps step rbind_Inr log1_def)
    then show ?thesis unfolding Cons.IH l ok after by simp
  next
    case False
    then have "write_version event log w = Inl RuntimeError" by (auto simp: write_version_def write_key_def Let_def)
    then show ?thesis using False by auto
  qed
qed simp

lemma version_reads:
  "rfold (read_version event) log rs = Inr log' \<Longrightarrow>
   version_writer log' = version_writer log \<and>
   (\<forall>w c k. (w, c, k) \<in> version_edges log' \<longleftrightarrow> (w, c, k) \<in> version_edges log \<or>
      c = event \<and> k \<in> read_key ` set rs \<and> version_writer log k = Some w) \<and>
   (\<forall>r \<in> set rs. version_writer log (read_key r) = None \<longrightarrow> pr_version r = 0)"
  by (auto simp: read_version_fold split: if_splits)

lemma version_writes:
  "rfold (write_version event) log ws = Inr log' \<Longrightarrow> version_edges log' = version_edges log \<and>
   (\<forall>k. version_writer log' k = (if k \<in> write_key ` set ws then Some event else version_writer log k)) \<and>
   (\<forall>w \<in> set ws. pw_committed w = pw_expected w + 1 \<and> version_writer log (write_key w) = None)"
  by (auto simp: write_version_fold split: if_splits)

lemma version_log_result:
  assumes "rfold (log_event digest) empty_version_log events = Inr log"
  shows "version_writer log k = Some w \<longleftrightarrow> (\<exists>e \<in> set events. re_id e = w \<and> k \<in> writes_at e)"
    and "(w, c, k) \<in> version_edges log \<longleftrightarrow> (\<exists>i j. i < j \<and> j < length events \<and> re_id (events ! i) = w \<and>
       re_id (events ! j) = c \<and> k \<in> writes_at (events ! i) \<and> k \<in> reads_at (events ! j))"
    and "\<forall>e \<in> set events. re_id e = digest e \<and> (\<forall>r \<in> set (re_reads e).
       pr_version r = 0 \<or> (\<exists>w. (w, re_id e, read_key r) \<in> version_edges log))"
    and "\<forall>e \<in> set events. \<forall>w \<in> set (re_writes e). pw_committed w = pw_expected w + 1"
  using assms
proof (induction events arbitrary: log k w c rule: rev_induct)
  case Nil
  {
    case 1 then show ?case by (auto simp: empty_version_log_def)
  next
    case 2 then show ?case by (auto simp: empty_version_log_def)
  next
    case 3 then show ?case by simp
  next
    case 4 then show ?case by simp
  }
next
  case (snoc e events)
  have split: "\<exists>l0. rfold (log_event digest) empty_version_log events = Inr l0 \<and> re_id e = digest e \<and>
      (\<forall>w c k. (w, c, k) \<in> version_edges log \<longleftrightarrow> (w, c, k) \<in> version_edges l0 \<or>
         c = re_id e \<and> k \<in> reads_at e \<and> version_writer l0 k = Some w) \<and>
      (\<forall>r \<in> set (re_reads e). version_writer l0 (read_key r) = None \<longrightarrow> pr_version r = 0) \<and>
      (\<forall>k. version_writer log k = (if k \<in> writes_at e then Some (re_id e) else version_writer l0 k)) \<and>
      (\<forall>w \<in> set (re_writes e). pw_committed w = pw_expected w + 1 \<and> version_writer l0 (write_key w) = None)"
    if run: "rfold (log_event digest) empty_version_log (events @ [e]) = Inr log" for log
  proof -
    obtain l0 where l0: "rfold (log_event digest) empty_version_log events = Inr l0" "log_event digest l0 e = Inr log"
      using run by (auto simp: rfold_append elim!: rbind_eq_InrE)
    then obtain l1 where l1: "re_id e = digest e" "rfold (read_version (re_id e)) l0 (re_reads e) = Inr l1"
        "rfold (write_version (re_id e)) l1 (re_writes e) = Inr log"
      by (auto simp: log_event_def split: if_splits elim!: rbind_eq_InrE)
    show ?thesis
      using l0(1) l1(1) version_reads [OF l1(2)] version_writes [OF l1(3)]
      unfolding reads_at_def writes_at_def by (intro exI [of _ l0]) simp
  qed
  {
    case 1
    from split [OF this] obtain l0 where l0: "rfold (log_event digest) empty_version_log events = Inr l0"
      "\<forall>k. version_writer log k = (if k \<in> writes_at e then Some (re_id e) else version_writer l0 k)"
      "\<forall>w \<in> set (re_writes e). version_writer l0 (write_key w) = None" by blast
    have "version_writer l0 k = None" if "k \<in> writes_at e" using l0(3) that by (auto simp: writes_at_def)
    then show ?case using l0(2) snoc.IH(1) [OF l0(1), of k w] by auto
  next
    case 2
    from split [OF this] obtain l0 where l0: "rfold (log_event digest) empty_version_log events = Inr l0"
      "\<forall>w c k. (w, c, k) \<in> version_edges log \<longleftrightarrow> (w, c, k) \<in> version_edges l0 \<or>
         c = re_id e \<and> k \<in> reads_at e \<and> version_writer l0 k = Some w" by blast
    have "(w, c, k) \<in> version_edges log \<longleftrightarrow> (w, c, k) \<in> version_edges l0 \<or>
        (c = re_id e \<and> k \<in> reads_at e \<and> (\<exists>i < length events. re_id (events ! i) = w \<and> k \<in> writes_at (events ! i)))"
      using l0(2) snoc.IH(1) [OF l0(1), of k w] by (metis in_set_conv_nth)
    also have "\<dots> \<longleftrightarrow> (\<exists>i j. i < j \<and> j < length (events @ [e]) \<and> re_id ((events @ [e]) ! i) = w \<and>
        re_id ((events @ [e]) ! j) = c \<and> k \<in> writes_at ((events @ [e]) ! i) \<and> k \<in> reads_at ((events @ [e]) ! j))"
      (is "?old \<or> ?new \<longleftrightarrow> (\<exists>i j. ?P i j)")
    proof
      assume "?old \<or> ?new"
      then show "\<exists>i j. ?P i j"
      proof
        assume ?old
        then obtain i j where "i < j" "j < length events" "re_id (events ! i) = w" "re_id (events ! j) = c"
          "k \<in> writes_at (events ! i)" "k \<in> reads_at (events ! j)" unfolding snoc.IH(2) [OF l0(1), of w c k] by blast
        then have "?P i j" by (simp add: nth_append)
        then show ?thesis by blast
      next
        assume ?new
        then obtain i where "i < length events" "re_id (events ! i) = w" "k \<in> writes_at (events ! i)"
          "c = re_id e" "k \<in> reads_at e" by blast
        then have "?P i (length events)" by (simp add: nth_append)
        then show ?thesis by blast
      qed
    next
      assume "\<exists>i j. ?P i j"
      then obtain i j where p: "?P i j" by blast
      show "?old \<or> ?new"
      proof (cases "j = length events")
        case True
        then have ?new using p by (intro conjI exI [of _ i]) (auto simp: nth_append)
        then show ?thesis ..
      next
        case False
        then have ij: "j < length events" "i < length events" using p by simp_all
        then have "(events @ [e]) ! i = events ! i" "(events @ [e]) ! j = events ! j" by (simp_all add: nth_append)
        then have ?old using p ij unfolding snoc.IH(2) [OF l0(1), of w c k]
          by (intro exI [of _ i] exI [of _ j]) simp
        then show ?thesis ..
      qed
    qed
    finally show ?case .
  next
    case 3
    from split [OF this] obtain l0 where l0: "rfold (log_event digest) empty_version_log events = Inr l0"
      "re_id e = digest e"
      "\<forall>w c k. (w, c, k) \<in> version_edges log \<longleftrightarrow> (w, c, k) \<in> version_edges l0 \<or>
         c = re_id e \<and> k \<in> reads_at e \<and> version_writer l0 k = Some w"
      "\<forall>r \<in> set (re_reads e). version_writer l0 (read_key r) = None \<longrightarrow> pr_version r = 0" by blast
    have "pr_version r = 0 \<or> (\<exists>w. (w, re_id e, read_key r) \<in> version_edges log)" if "r \<in> set (re_reads e)" for r
      using l0(3,4) that by (cases "version_writer l0 (read_key r)") (auto simp: reads_at_def)
    moreover have "\<forall>w c k. (w, c, k) \<in> version_edges l0 \<longrightarrow> (w, c, k) \<in> version_edges log" using l0(3) by blast
    ultimately show ?case using snoc.IH(3) [OF l0(1)] l0(2) by (auto) metis
  next
    case 4
    from split [OF this] show ?case using snoc.IH(4) by auto
  }
qed

text \<open>
  A history is consistent when every identifier is the digest of its event, every write advances
  its version by one, no version of a port is written twice, and every version other than zero
  that an event reads was written by an earlier event.  The replay accepts these histories and no
  others.
\<close>

definition unwritten_before :: "repair_event list \<Rightarrow> nat \<Rightarrow> port_version \<Rightarrow> bool" where
  "unwritten_before events j k \<longleftrightarrow> (\<forall>i < j. k \<notin> writes_at (events ! i))"

definition consistent_history :: "(repair_event \<Rightarrow> string) \<Rightarrow> repair_event list \<Rightarrow> bool" where
  "consistent_history digest events \<longleftrightarrow> (\<forall>e \<in> set events. re_id e = digest e) \<and>
     (\<forall>w \<in> set (concat (map re_writes events)). pw_committed w = pw_expected w + 1) \<and>
     distinct (map write_key (concat (map re_writes events))) \<and>
     (\<forall>j < length events. \<forall>r \<in> set (re_reads (events ! j)).
        pr_version r = 0 \<or> \<not> unwritten_before events j (read_key r))"

lemma all_less_Suc_split:
  assumes "\<And>j. j < n \<Longrightarrow> P j = Q j" "P n = R"
  shows "(\<forall>j < Suc n. P j) \<longleftrightarrow> (\<forall>j < n. Q j) \<and> R"
  using assms by (auto simp: less_Suc_eq)

lemma consistent_history_snoc:
  "consistent_history digest (events @ [e]) \<longleftrightarrow> consistent_history digest events \<and> re_id e = digest e \<and>
     (\<forall>r \<in> set (re_reads e). pr_version r = 0 \<or> \<not> unwritten_before events (length events) (read_key r)) \<and>
     (\<forall>w \<in> set (re_writes e). pw_committed w = pw_expected w + 1 \<and>
        unwritten_before events (length events) (write_key w)) \<and> distinct (map write_key (re_writes e))"
proof -
  have old: "unwritten_before (events @ [e]) j k = unwritten_before events j k" if "j \<le> length events" for j k
    using that by (simp add: unwritten_before_def nth_append)
  have keys: "k \<in> write_key ` set (concat (map re_writes events)) \<longleftrightarrow> \<not> unwritten_before events (length events) k" for k
  proof -
    have "k \<in> write_key ` set (concat (map re_writes events)) \<longleftrightarrow> (\<exists>e \<in> set events. k \<in> writes_at e)"
      by (auto simp: writes_at_def)
    also have "\<dots> \<longleftrightarrow> \<not> unwritten_before events (length events) k"
      unfolding unwritten_before_def by (metis in_set_conv_nth)
    finally show ?thesis .
  qed
  have reads: "(\<forall>j < length (events @ [e]). \<forall>r \<in> set (re_reads ((events @ [e]) ! j)).
        pr_version r = 0 \<or> \<not> unwritten_before (events @ [e]) j (read_key r)) \<longleftrightarrow>
      (\<forall>j < length events. \<forall>r \<in> set (re_reads (events ! j)). pr_version r = 0 \<or> \<not> unwritten_before events j (read_key r)) \<and>
      (\<forall>r \<in> set (re_reads e). pr_version r = 0 \<or> \<not> unwritten_before events (length events) (read_key r))"
    (is "(\<forall>j < _. ?at (events @ [e]) j) \<longleftrightarrow> (\<forall>j < _. ?at events j) \<and> ?new")
  proof -
    have same: "?at (events @ [e]) j = ?at events j" if "j < length events" for j
      using that by (simp add: old nth_append)
    have last: "?at (events @ [e]) (length events) = ?new" by (simp add: old)
    show ?thesis unfolding length_append_singleton
      by (rule all_less_Suc_split) (rule same, assumption, rule last)
  qed
  have keys_distinct: "distinct (map write_key (concat (map re_writes (events @ [e])))) \<longleftrightarrow>
      distinct (map write_key (concat (map re_writes events))) \<and> distinct (map write_key (re_writes e)) \<and>
      (\<forall>w \<in> set (re_writes e). unwritten_before events (length events) (write_key w))"
  proof -
    have "write_key ` set (concat (map re_writes events)) \<inter> write_key ` set (re_writes e) = {} \<longleftrightarrow>
        (\<forall>w \<in> set (re_writes e). unwritten_before events (length events) (write_key w))"
    proof -
      have "S \<inter> write_key ` W = {} \<longleftrightarrow> (\<forall>w \<in> W. write_key w \<notin> S)" for S W by blast
      then show ?thesis by (simp only: keys not_not)
    qed
    then show ?thesis by (simp only: map_append concat_append distinct_append set_map list.map concat.simps append_Nil2)
  qed
  have ids: "(\<forall>x \<in> set (events @ [e]). re_id x = digest x) \<longleftrightarrow> (\<forall>x \<in> set events. re_id x = digest x) \<and> re_id e = digest e"
    by auto
  have advance: "(\<forall>w \<in> set (concat (map re_writes (events @ [e]))). pw_committed w = pw_expected w + 1) \<longleftrightarrow>
      (\<forall>w \<in> set (concat (map re_writes events)). pw_committed w = pw_expected w + 1) \<and>
      (\<forall>w \<in> set (re_writes e). pw_committed w = pw_expected w + 1)" by auto
  show ?thesis unfolding consistent_history_def reads keys_distinct ids advance ball_conj_distrib
    by (intro iffI conjI; elim conjE; assumption)
qed

lemma version_log_accept:
  "case rfold (log_event digest) empty_version_log events of
     Inl err \<Rightarrow> err = RuntimeError \<and> \<not> consistent_history digest events
   | Inr log \<Rightarrow> consistent_history digest events \<and>
       version_roots log = {k. \<exists>j < length events. k \<in> reads_at (events ! j) \<and> unwritten_before events j k}"
proof (induction events rule: rev_induct)
  case Nil
  then show ?case by (simp add: consistent_history_def empty_version_log_def)
next
  case (snoc e events)
  show ?case
  proof (cases "rfold (log_event digest) empty_version_log events")
    case (Inl err)
    then show ?thesis using snoc by (simp add: rfold_append consistent_history_snoc)
  next
    case (Inr l0)
    have none: "version_writer l0 k = None \<longleftrightarrow> unwritten_before events (length events) k" for k
      unfolding not_Some_eq [symmetric] version_log_result(1) [OF Inr] unwritten_before_def by (metis in_set_conv_nth)
    have c: "consistent_history digest events" and roots: "version_roots l0 =
        {k. \<exists>j < length events. k \<in> reads_at (events ! j) \<and> unwritten_before events j k}" using snoc Inr by simp_all
    have all: "{k. \<exists>j < length (events @ [e]). k \<in> reads_at ((events @ [e]) ! j) \<and> unwritten_before (events @ [e]) j k} =
        version_roots l0 \<union> {k \<in> reads_at e. unwritten_before events (length events) k}"
      unfolding roots by (auto simp: less_Suc_eq nth_append unwritten_before_def)
    let ?ok = "re_id e = digest e \<and>
      (\<forall>r \<in> set (re_reads e). pr_version r = 0 \<or> \<not> unwritten_before events (length events) (read_key r)) \<and>
      (\<forall>w \<in> set (re_writes e). pw_committed w = pw_expected w + 1 \<and>
         unwritten_before events (length events) (write_key w)) \<and> distinct (map write_key (re_writes e))"
    have run: "rfold (log_event digest) empty_version_log (events @ [e]) = log_event digest l0 e"
      by (cases "log_event digest l0 e") (simp_all add: rfold_append Inr)
    show ?thesis
    proof (cases ?ok)
      case True
      then have "\<exists>log. log_event digest l0 e = Inr log \<and>
          version_roots log = version_roots l0 \<union> {k \<in> reads_at e. unwritten_before events (length events) k}"
        by (simp add: log_event_def read_version_fold write_version_fold none reads_at_def)
      then show ?thesis unfolding run all using True c by (auto simp: consistent_history_snoc)
    next
      case False
      then have "log_event digest l0 e = Inl RuntimeError"
        by (auto simp: log_event_def read_version_fold write_version_fold none)
      moreover have "\<not> consistent_history digest (events @ [e])" using False by (simp add: consistent_history_snoc)
      ultimately show ?thesis unfolding run by simp
    qed
  qed
qed

lemma antichain_zero_reads:
  assumes run: "rfold (log_event digest) empty_version_log events = Inr log"
    and pos: "\<forall>e \<in> set events. \<forall>p \<in> set (re_writes e). 0 \<le> pw_expected p"
  shows "version_edges log = {} \<longleftrightarrow> (\<forall>e \<in> set events. \<forall>r \<in> set (re_reads e). pr_version r = 0)"
proof
  assume "version_edges log = {}"
  then show "\<forall>e \<in> set events. \<forall>r \<in> set (re_reads e). pr_version r = 0" using version_log_result(3) [OF run] by blast
next
  assume zero: "\<forall>e \<in> set events. \<forall>r \<in> set (re_reads e). pr_version r = 0"
  have "x \<notin> version_edges log" for x
  proof
    assume "x \<in> version_edges log"
    then obtain w c k where "(w, c, k) \<in> version_edges log" by (cases x) auto
    then obtain i j where ij: "i < j" "j < length events" "k \<in> writes_at (events ! i)" "k \<in> reads_at (events ! j)"
      unfolding version_log_result(2) [OF run] by blast
    then obtain p r where p: "p \<in> set (re_writes (events ! i))" "k = write_key p"
      and r: "r \<in> set (re_reads (events ! j))" "k = read_key r" by (auto simp: writes_at_def reads_at_def)
    have m: "events ! i \<in> set events" "events ! j \<in> set events" using ij by simp_all
    have "0 < pw_committed p" using version_log_result(4) [OF run] pos m(1) p(1) by fastforce
    moreover have "pr_version r = 0" using zero m(2) r(1) by blast
    ultimately show False using p(2) r(2) by (simp add: write_key_def read_key_def)
  qed
  then show "version_edges log = {}" by blast
qed

end
