(* ===== verification/Causal_Properties.thy ===== *)
theory Causal_Properties
  imports Causal_Order
begin

text \<open>
  The properties of the causal order of an event log, with witnesses on a log of three events and
  on a versioned repair log.
\<close>

section \<open>The logs of the witnesses\<close>

definition demo_view :: "event_view list" where
  "demo_view = [\<lparr>event_key = ''a'', read_ids = [''root''], write_ids = [''x'']\<rparr>,
     \<lparr>event_key = ''b'', read_ids = [''x''], write_ids = [''y'']\<rparr>,
     \<lparr>event_key = ''c'', read_ids = [''x'', ''y''], write_ids = []\<rparr>]"

definition demo_log :: "repair_event list" where
  "demo_log = [\<lparr>re_id = ''a'', re_reads = [\<lparr>pr_carrier = ''p'', pr_port = 1, pr_version = 0\<rparr>],
       re_writes = [\<lparr>pw_carrier = ''p'', pw_port = 1, pw_expected = 0, pw_committed = 1\<rparr>]\<rparr>,
     \<lparr>re_id = ''b'', re_reads = [\<lparr>pr_carrier = ''p'', pr_port = 1, pr_version = 1\<rparr>], re_writes = []\<rparr>]"

section \<open>The generated order\<close>

text \<open>C22: the generation of causal edges is exact and fails closed. It succeeds just when no resource is
  written twice and every resource an event reads was written by another event or is a declared
  source root; otherwise it raises \<open>SourceDerivedCausalOrderError\<close>.  The rows, sorted and without
  repetition, are exactly the pairs of a writer and a reader of a common resource, each row listing
  all of them, and no event precedes itself.\<close>

theorem provenance_edges_exact:
  "case generated_edges roots view of
     Inl err \<Rightarrow> err = RuntimeError \<and> (\<not> distinct (map snd (writes_of view)) \<or>
       (\<exists>(c, r) \<in> set (reads_of view). (c, r) \<in> set (writes_of view) \<or>
          (r \<notin> set roots \<and> r \<notin> snd ` set (writes_of view))))
   | Inr es \<Rightarrow> distinct (map snd (writes_of view)) \<and>
       (\<forall>(c, r) \<in> set (reads_of view). (c, r) \<notin> set (writes_of view) \<and>
          (r \<in> set roots \<or> r \<in> snd ` set (writes_of view))) \<and>
       sorted (map (\<lambda>e. (edge_parent e, edge_child e)) es) \<and>
       distinct (map (\<lambda>e. (edge_parent e, edge_child e)) es) \<and>
       edge_pairs es = {(p, c). \<exists>r. (p, r) \<in> set (writes_of view) \<and> (c, r) \<in> set (reads_of view)} \<and>
       set (map (\<lambda>e. (edge_parent e, edge_child e, set (shared_ids e))) es) =
         {(p, c, {r. (p, r) \<in> set (writes_of view) \<and> (c, r) \<in> set (reads_of view)}) |p c. (p, c) \<in> edge_pairs es} \<and>
       irrefl (edge_pairs es)"
proof (cases "generated_edges roots view")
  case (Inl err)
  then have "\<nexists>es. generated_edges roots view = Inr es" by simp
  then consider "\<not> distinct (map snd (writes_of view))"
    | c r where "(c, r) \<in> set (reads_of view)" "(c, r) \<in> set (writes_of view) \<or>
        (r \<notin> set roots \<and> (\<nexists>p. (p, r) \<in> set (writes_of view)))"
    unfolding generated_iff by blast
  then show ?thesis
  proof cases
    case (2 c r)
    then have "(c, r) \<in> set (writes_of view) \<or> (r \<notin> set roots \<and> r \<notin> snd ` set (writes_of view))" by force
    then show ?thesis unfolding Inl using 2(1) generated_error [OF Inl] by auto
  qed (simp add: Inl generated_error [OF Inl])
next
  case (Inr es)
  note g = generated_edges_exact [OF Inr]
  have "\<exists>es. generated_edges roots view = Inr es" using Inr by blast
  note ok = this [unfolded generated_iff]
  have reads: "\<forall>(c, r) \<in> set (reads_of view). (c, r) \<notin> set (writes_of view) \<and>
      (r \<in> set roots \<or> r \<in> snd ` set (writes_of view))" using ok by force
  let ?at = "\<lambda>p c. {r. (p, r) \<in> set (writes_of view) \<and> (c, r) \<in> set (reads_of view)}"
  have rows: "set (map (\<lambda>e. (edge_parent e, edge_child e, set (shared_ids e))) es) =
      {(p, c, ?at p c) |p c. (p, c) \<in> edge_pairs es}"
  proof -
    have "(\<lambda>e. (edge_parent e, edge_child e, set (shared_ids e))) ` set es =
        (\<lambda>e. (edge_parent e, edge_child e, ?at (edge_parent e) (edge_child e))) ` set es"
      using g(3) by (intro image_cong) auto
    also have "\<dots> = (\<lambda>(p, c). (p, c, ?at p c)) ` edge_pairs es" unfolding edge_pairs_def image_image by simp
    also have "\<dots> = {(p, c, ?at p c) |p c. (p, c) \<in> edge_pairs es}" by auto
    finally show ?thesis by simp
  qed
  have "irrefl (edge_pairs es)" using g(5) by (simp add: irrefl_def)
  then show ?thesis unfolding Inr using ok reads g(1,2,4) rows by simp
qed

lemma provenance_edges_exact_witness:
  "\<exists>es. generated_edges [''root''] demo_view = Inr es \<and> length es = 3 \<and> irrefl (edge_pairs es) \<and>
     sorted (map (\<lambda>e. (edge_parent e, edge_child e)) es)"
proof -
  have "case generated_edges [''root''] demo_view of Inl _ \<Rightarrow> False | Inr es \<Rightarrow> length es = 3" by code_simp
  then obtain es where es: "generated_edges [''root''] demo_view = Inr es" "length es = 3" by (auto split: sum.splits)
  then show ?thesis
    using provenance_edges_exact [where roots = "[''root'']" and view = demo_view] unfolding es(1) sum.case by blast
qed

text \<open>C23: the layering always returns. For the generated edges of a log with distinct events the flag it
  reports holds exactly when the order has no cycle, and then the rank of every event is the length
  of the longest chain that ends in it.\<close>

theorem causal_ranks_longest_chain:
  assumes "generated_edges roots view = Inr es" "distinct (map event_key view)"
  shows "\<exists>rank. longest_path_ranks (map event_key view) es = Some (Inr (acyclic (edge_pairs es), rank)) \<and>
    (acyclic (edge_pairs es) \<longrightarrow> (\<forall>v. (\<exists>u. (u, v) \<in> edge_pairs es ^^ rank v) \<and>
       (\<forall>u n. (u, v) \<in> edge_pairs es ^^ n \<longrightarrow> n \<le> rank v)))"
proof -
  note g = generated_edges_exact [OF assms(1)]
  have "edge_pairs es \<subseteq> set (map event_key view) \<times> set (map event_key view)"
    unfolding g(4) by (auto simp: writes_of_def reads_of_def)
  from longest_path_ranks_result [OF g(2) this assms(2)] show ?thesis .
qed

lemma causal_ranks_longest_chain_witness:
  "\<exists>es rank. generated_edges [''root''] demo_view = Inr es \<and> length es = 3 \<and>
     longest_path_ranks (map event_key demo_view) es = Some (Inr (acyclic (edge_pairs es), rank))"
proof -
  have "case generated_edges [''root''] demo_view of Inl _ \<Rightarrow> False | Inr es \<Rightarrow> length es = 3" by code_simp
  then obtain es where es: "generated_edges [''root''] demo_view = Inr es" "length es = 3" by (auto split: sum.splits)
  have "distinct (map event_key demo_view)" by code_simp
  from causal_ranks_longest_chain [OF es(1) this] es show ?thesis by blast
qed

text \<open>The refusal controls can never report success of a corrupted log. A log with a second writer of
  some resource is always refused, whatever the log was; a log whose first event reads the
  unrooted resource is refused unless that name is a root or written by some event.\<close>

theorem refusal_controls_hold:
  assumes "refusal_control view roots duplicate_writer = Some b"
    and "missing_writer \<notin> set roots" "missing_writer \<notin> snd ` set (writes_of view)"
  shows "b"
proof (cases duplicate_writer)
  case True
  then show ?thesis using assms(1) refusal_duplicate [of view roots b] by simp
next
  case False
  then have "view \<noteq> []" using assms(1) by (auto simp: refusal_control_def missing_writer_view_def)
  then show ?thesis using refusal_missing assms False by fastforce
qed

lemma refusal_controls_hold_witness:
  "refusal_control demo_view [''root''] True = Some True \<and> refusal_control demo_view [''root''] False = Some True"
proof -
  have n: "missing_writer \<notin> set [''root'']" "missing_writer \<notin> snd ` set (writes_of demo_view)" by code_simp+
  have "refusal_control demo_view [''root''] True \<noteq> None \<and> refusal_control demo_view [''root''] False \<noteq> None" by code_simp
  then show ?thesis using refusal_controls_hold [OF _ n, of True] refusal_controls_hold [OF _ n, of False] by auto
qed

text \<open>C24: replaying a versioned repair log accepts exactly the complete logs with a consistent history
  (identifiers are digests, writes advance by one version, no version of a port is written twice,
  a read version other than zero was written by an earlier event) and raises
  \<open>SourceDerivedCausalOrderError\<close> for every other log.  An accepted log has an edge from an event to a
  later one for every version the first wrote and the second read, none other; its roots are the
  versions that were read with no earlier writer; its writer table is that of the events; and when
  no write expects a negative version it is classified as an antichain just when it is not empty
  and all reads are of version zero.\<close>

theorem version_replay_exact:
  "case replay_versions digest complete events of
     Inl err \<Rightarrow> err = RuntimeError \<and> \<not> (complete \<and> consistent_history digest events)
   | Inr log \<Rightarrow> complete \<and> consistent_history digest events \<and>
       version_edges log = {(w, c, k). \<exists>i j. i < j \<and> j < length events \<and> re_id (events ! i) = w \<and>
         re_id (events ! j) = c \<and> k \<in> writes_at (events ! i) \<and> k \<in> reads_at (events ! j)} \<and>
       version_roots log = {k. \<exists>j < length events. k \<in> reads_at (events ! j) \<and> unwritten_before events j k} \<and>
       (\<forall>k w. version_writer log k = Some w \<longleftrightarrow> (\<exists>e \<in> set events. re_id e = w \<and> k \<in> writes_at e)) \<and>
       ((\<forall>e \<in> set events. \<forall>p \<in> set (re_writes e). 0 \<le> pw_expected p) \<longrightarrow>
         (carrier_classification events log = ANTICHAIN \<longleftrightarrow> all_reads_root events))"
proof (cases "replay_versions digest complete events")
  case (Inl err)
  then show ?thesis using version_log_accept [of digest events] by (auto simp: replay_versions_def split: if_splits)
next
  case (Inr log)
  have run: "rfold (log_event digest) empty_version_log events = Inr log" and complete
    using Inr by (simp_all add: replay_versions_def split: if_splits)
  note v = version_log_result [OF run]
  have accept: "consistent_history digest events" "version_roots log =
      {k. \<exists>j < length events. k \<in> reads_at (events ! j) \<and> unwritten_before events j k}"
    using version_log_accept [of digest events] run by simp_all
  have edges: "version_edges log = {(w, c, k). \<exists>i j. i < j \<and> j < length events \<and> re_id (events ! i) = w \<and>
      re_id (events ! j) = c \<and> k \<in> writes_at (events ! i) \<and> k \<in> reads_at (events ! j)}"
    by (intro set_eqI) (simp only: split_paired_all mem_Collect_eq case_prod_conv v(2))
  have "carrier_classification events log = ANTICHAIN \<longleftrightarrow> all_reads_root events"
    if "\<forall>e \<in> set events. \<forall>p \<in> set (re_writes e). 0 \<le> pw_expected p"
    using antichain_zero_reads [OF run that] by (simp add: carrier_classification_def all_reads_root_def list_all_iff)
  then show ?thesis unfolding Inr using \<open>complete\<close> accept edges v(1) by simp
qed

lemma version_replay_exact_witness:
  "consistent_history re_id demo_log \<and> (\<exists>log. replay_versions re_id True demo_log = Inr log \<and>
     (''a'', ''b'', Port_Version ''p'' 1 1) \<in> version_edges log \<and> Port_Version ''p'' 1 0 \<in> version_roots log)"
proof -
  have "case replay_versions re_id True demo_log of Inl _ \<Rightarrow> False | Inr _ \<Rightarrow> True" by code_simp
  then obtain log where log: "replay_versions re_id True demo_log = Inr log" by (auto split: sum.splits)
  note x = version_replay_exact [where digest = re_id and complete = True and events = demo_log, unfolded log sum.case]
  have "\<exists>i j. i < j \<and> j < length demo_log \<and> re_id (demo_log ! i) = ''a'' \<and> re_id (demo_log ! j) = ''b'' \<and>
      Port_Version ''p'' 1 1 \<in> writes_at (demo_log ! i) \<and> Port_Version ''p'' 1 1 \<in> reads_at (demo_log ! j)"
    by (intro exI [of _ 0] exI [of _ 1])
      (simp add: demo_log_def writes_at_def reads_at_def write_key_def read_key_def)
  then have e: "(''a'', ''b'', Port_Version ''p'' 1 1) \<in> version_edges log" using x by blast
  have "\<exists>j < length demo_log. Port_Version ''p'' 1 0 \<in> reads_at (demo_log ! j) \<and>
      unwritten_before demo_log j (Port_Version ''p'' 1 0)"
    by (intro exI [of _ 0]) (simp add: demo_log_def reads_at_def read_key_def unwritten_before_def)
  then have "Port_Version ''p'' 1 0 \<in> version_roots log" using x by blast
  with x e log show ?thesis by blast
qed

end
