(* ===== verification/Em_Carrier.thy ===== *)
theory Em_Carrier
  imports Prelude Complex_Main
begin

text \<open>
  The base carrier of the discrete electromagnetism (\<open>oph_fpe/em/base_carrier.py\<close>): twelve ports,
  thirty oriented seams and twenty oriented faces of the icosahedron, with the operators on exact
  vectors.  Every exception of the module is a \<open>ValueError\<close>, except that reading past the end of a
  vector raises \<open>IndexError\<close>.  The lemmas give the operators as sums over two incidence matrices;
  the locale \<open>chain_complex\<close> is what the dynamics needs of them.
\<close>

section \<open>The tables\<close>

type_synonym vec = "rat list"
type_synonym matrix = "rat list list"

definition ports :: nat where "ports = 12"

definition seams :: nat where "seams = 30"

definition faces :: nat where "faces = 20"

definition seam_left :: "nat list" where
  "seam_left = [0, 0, 0, 0, 0, 1, 1, 1, 1, 2, 2, 2, 3, 3, 3, 4, 4, 4, 5, 5, 5, 6, 6, 7, 7, 8, 8, 9, 9, 10]"

definition seam_right :: "nat list" where
  "seam_right = [1, 2, 3, 4, 6, 2, 3, 5, 7, 4, 5, 8, 6, 7, 9, 6, 8, 10, 7, 8, 11, 9, 10, 9, 11, 10, 11, 10, 11, 11]"

definition oriented_faces :: "(nat \<times> nat \<times> nat) list" where
  "oriented_faces = [(0, 1, 2), (0, 3, 1), (0, 2, 4), (0, 6, 3), (0, 4, 6), (1, 5, 2), (1, 3, 7), (1, 7, 5),
     (2, 8, 4), (2, 5, 8), (3, 6, 9), (3, 9, 7), (4, 10, 6), (4, 8, 10), (5, 7, 11), (5, 11, 8), (6, 10, 9),
     (7, 9, 11), (8, 11, 10), (9, 10, 11)]"

definition tree_seams :: "nat list" where
  "tree_seams = [0, 1, 2, 3, 4, 7, 8, 11, 14, 17, 20]"

definition chord_seams :: "nat list" where
  "chord_seams = filter (\<lambda>e. e \<notin> set tree_seams) [0..<seams]"

definition require :: "bool \<Rightarrow> 'a res \<Rightarrow> 'a res" where
  "require condition r = (if condition then r else Inl ValueError)"

section \<open>Ports and seams\<close>

definition incidence_entry :: "nat \<Rightarrow> nat \<Rightarrow> int" where
  "incidence_entry e p = (if p = seam_right ! e then 1 else 0) - (if p = seam_left ! e then 1 else 0)"

definition coboundary :: "vec \<Rightarrow> vec res" where
  "coboundary phi = require (length phi = ports)
     (Inr (map (\<lambda>e. phi ! (seam_right ! e) - phi ! (seam_left ! e)) [0..<seams]))"

definition add_load :: "vec \<Rightarrow> nat \<Rightarrow> vec \<Rightarrow> vec" where
  "add_load current e load = (let load = load[seam_right ! e := load ! (seam_right ! e) + current ! e]
     in load[seam_left ! e := load ! (seam_left ! e) - current ! e])"

definition boundary :: "vec \<Rightarrow> vec res" where
  "boundary current = require (length current = seams)
     (Inr (fold (add_load current) [0..<seams] (replicate ports 0)))"

section \<open>Faces\<close>

definition face_directed_edges :: "nat \<Rightarrow> (nat \<times> nat) list" where
  "face_directed_edges f = (case oriented_faces ! f of (a, b, c) \<Rightarrow> [(a, b), (b, c), (c, a)])"

definition face_incidence_entry :: "nat \<Rightarrow> nat \<Rightarrow> int" where
  "face_incidence_entry f e = (let directed = face_directed_edges f in
     if (seam_left ! e, seam_right ! e) \<in> set directed then 1
     else if (seam_right ! e, seam_left ! e) \<in> set directed then - 1 else 0)"

definition face_incidence_matrix :: matrix where
  "face_incidence_matrix = map (\<lambda>f. map (\<lambda>e. of_int (face_incidence_entry f e)) [0..<seams]) [0..<faces]"

text \<open>A matrix that is too small for the loops makes Python raise \<open>IndexError\<close>.\<close>

definition matrix_fits :: "matrix \<Rightarrow> bool" where
  "matrix_fits C \<longleftrightarrow> faces \<le> length C \<and> list_all (\<lambda>row. seams \<le> length row) (take faces C)"

definition face_curvature :: "matrix \<Rightarrow> vec \<Rightarrow> vec res" where
  "face_curvature C field = require (length field = seams)
     (if matrix_fits C then Inr (map (\<lambda>f. sum_list (map (\<lambda>e. C ! f ! e * field ! e) [0..<seams])) [0..<faces])
      else Inl IndexError)"

definition face_codifferential :: "matrix \<Rightarrow> vec \<Rightarrow> vec res" where
  "face_codifferential C field = require (length field = faces)
     (if matrix_fits C then Inr (map (\<lambda>e. sum_list (map (\<lambda>f. C ! f ! e * field ! f) [0..<faces])) [0..<seams])
      else Inl IndexError)"

definition local_maxwell_operator :: "matrix \<Rightarrow> vec \<Rightarrow> vec res" where
  "local_maxwell_operator C field = rbind (face_curvature C field) (face_codifferential C)"

section \<open>Pairings\<close>

definition inner_product :: "nat \<Rightarrow> vec \<Rightarrow> vec \<Rightarrow> rat res" where
  "inner_product n x y = require (length x = n \<and> length y = n) (Inr (sum_list (map2 (*) x y)))"

definition seam_inner :: "vec \<Rightarrow> vec \<Rightarrow> rat res" where
  "seam_inner x y = inner_product seams x y"

definition seam_energy :: "vec \<Rightarrow> rat res" where
  "seam_energy x = seam_inner x x"

definition face_inner :: "vec \<Rightarrow> vec \<Rightarrow> rat res" where
  "face_inner x y = inner_product faces x y"

section \<open>The spanning tree\<close>

definition tree_adjacency :: "nat \<Rightarrow> (nat \<times> nat) list" where
  "tree_adjacency p = concat (map (\<lambda>e. (if seam_left ! e = p then [(seam_right ! e, e)] else []) @
     (if seam_right ! e = p then [(seam_left ! e, e)] else [])) tree_seams)"

type_synonym tree_map = "(nat \<times> (nat \<times> nat) option) list"

fun scan_neighbors :: "nat \<Rightarrow> (nat \<times> nat) list \<Rightarrow> tree_map \<Rightarrow> nat list \<Rightarrow> tree_map \<times> nat list" where
  "scan_neighbors node [] parent queue = (parent, queue)"
| "scan_neighbors node ((neighbour, seam) # rest) parent queue =
     (if neighbour \<in> fst ` set parent then scan_neighbors node rest parent queue
      else scan_neighbors node rest (parent @ [(neighbour, Some (node, seam))]) (queue @ [neighbour]))"

text \<open>The fuel counts the nodes taken from the queue; every port is queued at most once.\<close>

fun tree_search :: "nat \<Rightarrow> tree_map \<Rightarrow> nat list \<Rightarrow> tree_map option" where
  "tree_search n parent [] = Some parent"
| "tree_search 0 parent (node # queue) = None"
| "tree_search (Suc n) parent (node # queue) =
     (let (parent', queue') = scan_neighbors node (tree_adjacency node) parent queue
      in tree_search n parent' queue')"

definition tree_parents :: "tree_map res option" where
  "tree_parents = map_option (\<lambda>parent. require (length parent = ports) (Inr parent))
     (tree_search ports [(0, None)] [0])"

fun order_pass :: "tree_map \<Rightarrow> nat list \<Rightarrow> nat list \<Rightarrow> nat list" where
  "order_pass parent [] order = order"
| "order_pass parent (node # nodes) order =
     order_pass parent nodes (if node \<in> set order then order else (case map_of parent node of
        Some (Some (p, seam)) \<Rightarrow> if p \<in> set order then order @ [node] else order
      | _ \<Rightarrow> order))"

fun tree_order :: "nat \<Rightarrow> tree_map \<Rightarrow> nat list \<Rightarrow> nat list option" where
  "tree_order n parent order = (if ports \<le> length order then Some order
     else (case n of 0 \<Rightarrow> None | Suc n \<Rightarrow> tree_order n parent (order_pass parent [0..<ports] order)))"

definition collect_node :: "tree_map \<Rightarrow> nat \<Rightarrow> vec \<Rightarrow> vec" where
  "collect_node parent node subtree = (case map_of parent node of
     Some (Some (p, seam)) \<Rightarrow> subtree[p := subtree ! p + subtree ! node]
   | _ \<Rightarrow> subtree)"

definition tree_current :: "tree_map \<Rightarrow> vec \<Rightarrow> nat \<Rightarrow> vec \<Rightarrow> vec" where
  "tree_current parent subtree node current = (case map_of parent node of
     Some (Some (p, seam)) \<Rightarrow>
       current[seam := (if seam_right ! seam = node then subtree ! node else - (subtree ! node))]
   | _ \<Rightarrow> current)"

text \<open>\<open>None\<close> stands for a loop that does not end.\<close>

definition tree_solution :: "vec \<Rightarrow> vec res option" where
  "tree_solution load =
     (if length load \<noteq> ports then Some (Inl ValueError)
      else if sum_list load \<noteq> 0 then Some (Inl ValueError)
      else Option.bind tree_parents (\<lambda>r. case r of
        Inl err \<Rightarrow> Some (Inl err)
      | Inr parent \<Rightarrow> Option.bind (tree_order ports parent [0]) (\<lambda>order.
          let subtree = fold (collect_node parent) (rev order) load;
              current = fold (tree_current parent subtree) (tl order) (replicate seams 0)
          in Some (rbind (boundary current) (\<lambda>b. require (b = load) (Inr current))))))"

definition unsigned_face_boundary_control :: int where
  "unsigned_face_boundary_control =
     sum_list (map (\<lambda>e. \<bar>face_incidence_entry 0 e\<bar> * incidence_entry e 0) [0..<seams])"

end
