(* ===== verification/Em_Complex.thy ===== *)
theory Em_Complex
  imports Em_Carrier
begin

text \<open>
  The interface between the carrier and its dynamics: two incidence matrices whose product
  vanishes (\<open>chain_complex\<close>).  Everything the receipts of the leapfrog lane state is proved here
  from this one law, and the operators of the base carrier are shown to be its instance.
\<close>

section \<open>Matrices as functions\<close>

definition mat_vec :: "nat \<Rightarrow> (nat \<Rightarrow> nat \<Rightarrow> rat) \<Rightarrow> (nat \<Rightarrow> rat) \<Rightarrow> nat \<Rightarrow> rat" where
  "mat_vec n M x i = (\<Sum>j<n. M i j * x j)"

definition mat_vec_t :: "nat \<Rightarrow> (nat \<Rightarrow> nat \<Rightarrow> rat) \<Rightarrow> (nat \<Rightarrow> rat) \<Rightarrow> nat \<Rightarrow> rat" where
  "mat_vec_t n M x j = (\<Sum>i<n. M i j * x i)"

lemma mat_vec_diff: "mat_vec n M (\<lambda>j. x j - y j) i = mat_vec n M x i - mat_vec n M y i"
  by (simp add: mat_vec_def algebra_simps sum_subtractf)

lemma mat_vec_add: "mat_vec n M (\<lambda>j. x j + y j) i = mat_vec n M x i + mat_vec n M y i"
  by (simp add: mat_vec_def algebra_simps sum.distrib)

lemma mat_vec_minus: "mat_vec n M (\<lambda>j. - x j) i = - mat_vec n M x i"
  by (simp add: mat_vec_def sum_negf)

lemma mat_vec_t_diff: "mat_vec_t n M (\<lambda>j. x j - y j) i = mat_vec_t n M x i - mat_vec_t n M y i"
  by (simp add: mat_vec_t_def algebra_simps sum_subtractf)

lemma mat_vec_t_add: "mat_vec_t n M (\<lambda>j. x j + y j) i = mat_vec_t n M x i + mat_vec_t n M y i"
  by (simp add: mat_vec_t_def algebra_simps sum.distrib)

lemma mat_vec_cong: "(\<And>j. j < n \<Longrightarrow> x j = y j) \<Longrightarrow> mat_vec n M x i = mat_vec n M y i"
  by (simp add: mat_vec_def)

lemma mat_vec_t_cong: "(\<And>j. j < n \<Longrightarrow> x j = y j) \<Longrightarrow> mat_vec_t n M x i = mat_vec_t n M y i"
  by (simp add: mat_vec_t_def)

lemma adjoint: "(\<Sum>i<m. y i * mat_vec n M x i) = (\<Sum>j<n. mat_vec_t m M y j * x j)"
proof -
  have "(\<Sum>i<m. y i * mat_vec n M x i) = (\<Sum>i<m. \<Sum>j<n. M i j * y i * x j)"
    by (simp add: mat_vec_def sum_distrib_left algebra_simps)
  also have "\<dots> = (\<Sum>j<n. \<Sum>i<m. M i j * y i * x j)" by (rule sum.swap)
  also have "\<dots> = (\<Sum>j<n. mat_vec_t m M y j * x j)" by (simp add: mat_vec_t_def sum_distrib_right)
  finally show ?thesis .
qed

section \<open>The law of the carrier\<close>

locale chain_complex =
  fixes np ns nf :: nat and D C :: "nat \<Rightarrow> nat \<Rightarrow> rat"
  assumes complex: "f < nf \<Longrightarrow> p < np \<Longrightarrow> (\<Sum>e<ns. C f e * D e p) = 0"
begin

lemma curl_grad: "f < nf \<Longrightarrow> mat_vec ns C (mat_vec np D u) f = 0"
proof -
  assume f: "f < nf"
  have "mat_vec ns C (mat_vec np D u) f = (\<Sum>e<ns. \<Sum>p<np. C f e * D e p * u p)"
    by (simp add: mat_vec_def sum_distrib_left algebra_simps)
  also have "\<dots> = (\<Sum>p<np. \<Sum>e<ns. C f e * D e p * u p)" by (rule sum.swap)
  also have "\<dots> = (\<Sum>p<np. (\<Sum>e<ns. C f e * D e p) * u p)" by (simp add: sum_distrib_right)
  also have "\<dots> = 0" using complex f by simp
  finally show ?thesis .
qed

lemma div_cocurl: "p < np \<Longrightarrow> mat_vec_t ns D (mat_vec_t nf C b) p = 0"
proof -
  assume p: "p < np"
  have "mat_vec_t ns D (mat_vec_t nf C b) p = (\<Sum>e<ns. \<Sum>f<nf. C f e * D e p * b f)"
    by (simp add: mat_vec_t_def sum_distrib_left algebra_simps)
  also have "\<dots> = (\<Sum>f<nf. \<Sum>e<ns. C f e * D e p * b f)" by (rule sum.swap)
  also have "\<dots> = (\<Sum>f<nf. (\<Sum>e<ns. C f e * D e p) * b f)" by (simp add: sum_distrib_right)
  also have "\<dots> = 0" using complex p by simp
  finally show ?thesis .
qed

lemma faraday:
  assumes "\<And>e. e < ns \<Longrightarrow> el e = - (a1 e - a0 e) - mat_vec np D u e" "f < nf"
  shows "mat_vec ns C a1 f - mat_vec ns C a0 f = - mat_vec ns C el f"
proof -
  have "mat_vec ns C el f = mat_vec ns C (\<lambda>e. (a0 e - a1 e) - mat_vec np D u e) f"
    using assms(1) by (intro mat_vec_cong) simp
  also have "\<dots> = mat_vec ns C a0 f - mat_vec ns C a1 f"
    unfolding mat_vec_diff using curl_grad [OF assms(2), of u] by simp
  finally show ?thesis by simp
qed

lemma ampere:
  assumes "el0 e = - (a1 e - a0 e) - mat_vec np D u0 e" "el1 e = - (a2 e - a1 e) - mat_vec np D u1 e"
    and "a2 e = 2 * a1 e - a0 e - k + j + mat_vec np D (\<lambda>p. u0 p - u1 p) e"
  shows "el1 e - el0 e - k + j = 0"
  using assms unfolding mat_vec_diff by simp

text \<open>The load of the electric field changes by the divergence of the current alone.\<close>

lemma gauss_step:
  assumes "\<And>e. e < ns \<Longrightarrow> el1 e - el0 e - mat_vec_t nf C b e + j e = 0" "p < np"
  shows "mat_vec_t ns D el1 p = mat_vec_t ns D el0 p - mat_vec_t ns D j p"
proof -
  have "mat_vec_t ns D el1 p = mat_vec_t ns D (\<lambda>e. (el0 e - j e) + mat_vec_t nf C b e) p"
    by (rule mat_vec_t_cong) (use assms(1) in \<open>force simp: algebra_simps\<close>)
  also have "\<dots> = mat_vec_t ns D el0 p - mat_vec_t ns D j p"
    unfolding mat_vec_t_add mat_vec_t_diff using div_cocurl [OF assms(2), of b] by simp
  finally show ?thesis .
qed

lemma balance:
  assumes "\<And>e. e < ns \<Longrightarrow> el1 e - el0 e - mat_vec_t nf C b1 e + j e = 0"
    and "\<And>f. f < nf \<Longrightarrow> b1 f - b0 f = - mat_vec ns C el0 f"
    and "\<And>f. f < nf \<Longrightarrow> b2 f - b1 f = - mat_vec ns C el1 f"
  shows "1 / 2 * (\<Sum>e<ns. el1 e * el1 e) + 1 / 2 * (\<Sum>f<nf. b1 f * b2 f) =
    1 / 2 * (\<Sum>e<ns. el0 e * el0 e) + 1 / 2 * (\<Sum>f<nf. b0 f * b1 f) - 1 / 2 * (\<Sum>e<ns. (el0 e + el1 e) * j e)"
proof -
  have "(\<Sum>f<nf. b1 f * b2 f) - (\<Sum>f<nf. b0 f * b1 f) = (\<Sum>f<nf. b1 f * ((b2 f - b1 f) + (b1 f - b0 f)))"
    by (simp add: sum_subtractf algebra_simps sum.distrib)
  also have "\<dots> = - (\<Sum>f<nf. b1 f * mat_vec ns C (\<lambda>e. el0 e + el1 e) f)"
    unfolding sum_negf [symmetric]
  proof (rule sum.cong [OF refl])
    fix f
    assume "f \<in> {..<nf}"
    then have "(b2 f - b1 f) + (b1 f - b0 f) = - mat_vec ns C (\<lambda>e. el0 e + el1 e) f"
      using assms(2,3) [of f] by (simp add: mat_vec_add)
    then show "b1 f * ((b2 f - b1 f) + (b1 f - b0 f)) = - (b1 f * mat_vec ns C (\<lambda>e. el0 e + el1 e) f)" by simp
  qed
  also have "\<dots> = - (\<Sum>e<ns. mat_vec_t nf C b1 e * (el0 e + el1 e))" unfolding adjoint ..
  finally have m: "(\<Sum>f<nf. b1 f * b2 f) - (\<Sum>f<nf. b0 f * b1 f) = - (\<Sum>e<ns. mat_vec_t nf C b1 e * (el0 e + el1 e))" .
  have "(\<Sum>e<ns. el1 e * el1 e) - (\<Sum>e<ns. el0 e * el0 e) = (\<Sum>e<ns. (el0 e + el1 e) * (el1 e - el0 e))"
    by (simp add: sum_subtractf [symmetric] algebra_simps)
  also have "\<dots> = (\<Sum>e<ns. (el0 e + el1 e) * (mat_vec_t nf C b1 e - j e))"
  proof (rule sum.cong [OF refl])
    fix e
    assume "e \<in> {..<ns}"
    then have "el1 e - el0 e = mat_vec_t nf C b1 e - j e" using assms(1) [of e] by simp
    then show "(el0 e + el1 e) * (el1 e - el0 e) = (el0 e + el1 e) * (mat_vec_t nf C b1 e - j e)" by simp
  qed
  also have "\<dots> = (\<Sum>e<ns. mat_vec_t nf C b1 e * (el0 e + el1 e)) - (\<Sum>e<ns. (el0 e + el1 e) * j e)"
    by (simp add: sum_subtractf [symmetric] algebra_simps)
  finally have e: "(\<Sum>e<ns. el1 e * el1 e) - (\<Sum>e<ns. el0 e * el0 e) =
    (\<Sum>e<ns. mat_vec_t nf C b1 e * (el0 e + el1 e)) - (\<Sum>e<ns. (el0 e + el1 e) * j e)" .
  show ?thesis using m e by (simp add: field_simps)
qed

end

section \<open>The base carrier\<close>

definition port_incidence :: "nat \<Rightarrow> nat \<Rightarrow> rat" where
  "port_incidence e p = of_int (incidence_entry e p)"

definition entry_of :: "matrix \<Rightarrow> nat \<Rightarrow> nat \<Rightarrow> rat" where
  "entry_of C f e = C ! f ! e"

lemma seam_ends:
  assumes "e < seams"
  shows "seam_left ! e < ports" "seam_right ! e < ports" "seam_left ! e \<noteq> seam_right ! e"
proof -
  have "list_all (\<lambda>e. seam_left ! e < ports \<and> seam_right ! e < ports \<and> seam_left ! e \<noteq> seam_right ! e) [0..<seams]"
    by code_simp
  then have "\<forall>e < seams. seam_left ! e < ports \<and> seam_right ! e < ports \<and> seam_left ! e \<noteq> seam_right ! e"
    by (simp add: list_all_iff)
  with assms show "seam_left ! e < ports" "seam_right ! e < ports" "seam_left ! e \<noteq> seam_right ! e" by blast+
qed

lemma face_matrix_fits: "matrix_fits face_incidence_matrix"
  by (simp add: matrix_fits_def face_incidence_matrix_def list_all_iff)

lemma face_incidence_nth: "f < faces \<Longrightarrow> e < seams \<Longrightarrow>
    entry_of face_incidence_matrix f e = of_int (face_incidence_entry f e)"
  by (simp add: entry_of_def face_incidence_matrix_def)

lemma sum_list_upt: "sum_list (map f [0..<n]) = (\<Sum>i<n. f i :: 'a :: comm_monoid_add)"
  by (simp add: interv_sum_list_conv_sum_set_nat atLeast0LessThan)

interpretation icosahedron: chain_complex ports seams faces port_incidence "entry_of face_incidence_matrix"
proof
  fix f p
  assume fp: "f < faces" "p < ports"
  have "list_all (\<lambda>f. list_all (\<lambda>p. sum_list (map (\<lambda>e. face_incidence_entry f e * incidence_entry e p) [0..<seams]) = 0)
      [0..<ports]) [0..<faces]"
    by code_simp
  then have "sum_list (map (\<lambda>e. face_incidence_entry f e * incidence_entry e p) [0..<seams]) = 0"
    using fp by (simp add: list_all_iff)
  then have "(\<Sum>e<seams. face_incidence_entry f e * incidence_entry e p) = 0" unfolding sum_list_upt .
  then have "(of_int (\<Sum>e<seams. face_incidence_entry f e * incidence_entry e p) :: rat) = 0" by simp
  then show "(\<Sum>e<seams. entry_of face_incidence_matrix f e * port_incidence e p) = 0"
    using fp(1) by (simp add: face_incidence_nth port_incidence_def)
qed

lemma port_incidence_ends: "port_incidence e p = (if p = seam_right ! e then 1 else 0) - (if p = seam_left ! e then 1 else 0)"
  by (simp add: port_incidence_def incidence_entry_def)

lemma coboundary_eq:
  assumes "length phi = ports"
  shows "coboundary phi = Inr (map (mat_vec ports port_incidence ((!) phi)) [0..<seams])"
proof -
  have "phi ! (seam_right ! e) - phi ! (seam_left ! e) = mat_vec ports port_incidence ((!) phi) e" if "e < seams" for e
    using seam_ends [OF that]
    by (simp add: mat_vec_def port_incidence_ends left_diff_distrib sum_subtractf if_distrib [of "\<lambda>x. x * _"] cong: if_cong)
  then show ?thesis using assms by (simp add: coboundary_def require_def)
qed

lemma boundary_eq:
  assumes "length c = seams"
  shows "boundary c = Inr (map (mat_vec_t seams port_incidence ((!) c)) [0..<ports])"
proof -
  have "fold (add_load c) [0..<k] (replicate ports 0) =
      map (\<lambda>p. \<Sum>e<k. port_incidence e p * c ! e) [0..<ports]" if "k \<le> seams" for k
    using that
  proof (induction k)
    case 0
    then show ?case by (simp add: map_replicate_trivial)
  next
    case (Suc k)
    then have k: "k < seams" by simp
    note s = seam_ends [OF k]
    have "fold (add_load c) [0..<Suc k] (replicate ports 0) =
        add_load c k (map (\<lambda>p. \<Sum>e<k. port_incidence e p * c ! e) [0..<ports])" using Suc by simp
    also have "\<dots> = map (\<lambda>p. \<Sum>e<Suc k. port_incidence e p * c ! e) [0..<ports]"
      using s by (intro nth_equalityI)
        (auto simp: add_load_def Let_def nth_list_update port_incidence_def incidence_entry_def)
    finally show ?case .
  qed
  from this [of seams] show ?thesis using assms by (simp add: boundary_def require_def mat_vec_t_def [abs_def])
qed

lemma face_curvature_eq:
  assumes "length x = seams" "matrix_fits C"
  shows "face_curvature C x = Inr (map (mat_vec seams (entry_of C) ((!) x)) [0..<faces])"
  using assms by (simp add: face_curvature_def require_def mat_vec_def entry_of_def sum_list_upt)

lemma face_codifferential_eq:
  assumes "length b = faces" "matrix_fits C"
  shows "face_codifferential C b = Inr (map (mat_vec_t faces (entry_of C) ((!) b)) [0..<seams])"
  using assms by (simp add: face_codifferential_def require_def mat_vec_t_def entry_of_def sum_list_upt)

lemma inner_product_eq:
  assumes "length x = n" "length y = n"
  shows "inner_product n x y = Inr (\<Sum>i<n. x ! i * y ! i)"
proof -
  have "map2 (*) x y = map (\<lambda>i. x ! i * y ! i) [0..<n]" using assms by (intro nth_equalityI) auto
  then show ?thesis using assms by (simp add: inner_product_def require_def sum_list_upt)
qed

end
