(* ===== verification/Em_Gauss.thy ===== *)
theory Em_Gauss
  imports Em_Complex
begin

text \<open>
  Gauss-Jordan inversion over exact fractions (\<open>_invert\<close> of \<open>oph_fpe/em/green.py\<close>).  The code
  calls it on a square matrix.  Every column step keeps the solutions of the augmented system, and
  a column without a pivot gives a non-trivial solution for the zero right side.
\<close>

section \<open>Elimination\<close>

definition eliminate :: "nat \<Rightarrow> vec \<Rightarrow> nat \<Rightarrow> vec \<Rightarrow> vec" where
  "eliminate col pivot_row r row = (if r \<noteq> col \<and> row ! col \<noteq> 0
     then map2 (\<lambda>x y. x - row ! col * y) row pivot_row else row)"

definition swap_rows :: "nat \<Rightarrow> nat \<Rightarrow> matrix \<Rightarrow> matrix" where
  "swap_rows i j work = work[i := work ! j, j := work ! i]"

definition invert_column :: "nat \<Rightarrow> matrix \<Rightarrow> matrix res" where
  "invert_column col work = (case find (\<lambda>r. work ! r ! col \<noteq> 0) [col..<length work] of
     None \<Rightarrow> Inl ValueError
   | Some pivot_row \<Rightarrow>
       let work = swap_rows col pivot_row work;
           scaled = map (\<lambda>x. x / work ! col ! col) (work ! col);
           work = work[col := scaled]
       in Inr (map (\<lambda>r. eliminate col scaled r (work ! r)) [0..<length work]))"

fun invert_columns :: "nat list \<Rightarrow> matrix \<Rightarrow> matrix res" where
  "invert_columns [] work = Inr work"
| "invert_columns (col # cols) work = rbind (invert_column col work) (invert_columns cols)"

definition invert :: "matrix \<Rightarrow> matrix res" where
  "invert M = (let n = length M in
     rbind (invert_columns [0..<n] (map (\<lambda>i. M ! i @ map (\<lambda>j. if i = j then 1 else 0) [0..<n]) [0..<n])) (\<lambda>work.
     Inr (map (drop n) work)))"

section \<open>Solutions are kept\<close>

definition shape :: "nat \<Rightarrow> nat \<Rightarrow> matrix \<Rightarrow> bool" where
  "shape n m W \<longleftrightarrow> length W = n \<and> (\<forall>r < n. length (W ! r) = m)"

definition row_value :: "nat \<Rightarrow> (nat \<Rightarrow> rat) \<Rightarrow> (nat \<Rightarrow> rat) \<Rightarrow> (nat \<Rightarrow> rat) \<Rightarrow> rat" where
  "row_value n x y row = (\<Sum>j<n. row j * x j) - (\<Sum>j<n. row (n + j) * y j)"

definition solution :: "nat \<Rightarrow> matrix \<Rightarrow> (nat \<Rightarrow> rat) \<Rightarrow> (nat \<Rightarrow> rat) \<Rightarrow> bool" where
  "solution n W x y \<longleftrightarrow> (\<forall>r < n. row_value n x y ((!) (W ! r)) = 0)"

definition unit_columns :: "nat \<Rightarrow> nat \<Rightarrow> matrix \<Rightarrow> bool" where
  "unit_columns n k W \<longleftrightarrow> (\<forall>j < k. \<forall>r < n. W ! r ! j = (if r = j then 1 else 0))"

lemma row_value_cong: "(\<And>j. j < 2 * n \<Longrightarrow> u j = v j) \<Longrightarrow> row_value n x y u = row_value n x y v"
  by (simp add: row_value_def)

lemma row_value_scale: "row_value n x y (\<lambda>j. u j / c) = row_value n x y u / c"
  by (simp add: row_value_def sum_divide_distrib diff_divide_distrib)

lemma row_value_combine: "row_value n x y (\<lambda>j. u j - c * v j) = row_value n x y u - c * row_value n x y v"
  by (simp add: row_value_def algebra_simps sum_subtractf sum_distrib_left)

lemma swap_rows_nth: "i < length W \<Longrightarrow> j < length W \<Longrightarrow> r < length W \<Longrightarrow>
    swap_rows i j W ! r = (if r = i then W ! j else if r = j then W ! i else W ! r)"
  by (auto simp: swap_rows_def nth_list_update)

lemma pivot_row: "find (\<lambda>r. P r) [k..<n] = Some p \<Longrightarrow> k \<le> p \<and> p < n \<and> P p"
  by (auto simp: find_Some_iff)

lemma invert_column_nth:
  assumes "shape n m W" "col < n" "col < m" "find (\<lambda>r. W ! r ! col \<noteq> 0) [col..<length W] = Some p"
  defines "S \<equiv> swap_rows col p W"
  shows "\<exists>W'. invert_column col W = Inr W' \<and> shape n m W' \<and> (\<forall>r < n. \<forall>j < m. W' ! r ! j =
    (if r = col then S ! col ! j / S ! col ! col else S ! r ! j - S ! r ! col * (S ! col ! j / S ! col ! col)))"
proof -
  let ?q = "map (\<lambda>x. x / S ! col ! col) (S ! col)"
  let ?W = "map (\<lambda>r. eliminate col ?q r (S[col := ?q] ! r)) [0..<n]"
  have p: "col \<le> p" "p < n" using pivot_row [OF assms(4)] assms(1) by (auto simp: shape_def)
  have S: "length S = n" "\<And>r. r < n \<Longrightarrow> length (S ! r) = m"
    using assms(1,2) p by (auto simp: S_def swap_rows_nth shape_def) (simp add: swap_rows_def)
  have q: "length ?q = m" using S assms(2) by simp
  have row: "length (eliminate col ?q r (S[col := ?q] ! r)) = m \<and> (\<forall>j < m. eliminate col ?q r (S[col := ?q] ! r) ! j =
      (if r = col then S ! col ! j / S ! col ! col else S ! r ! j - S ! r ! col * (S ! col ! j / S ! col ! col)))" if "r < n" for r
    using that S q assms(2,3) by (cases "r = col") (simp_all add: eliminate_def)
  have "invert_column col W = Inr ?W"
    using assms(4) S(1) by (simp add: invert_column_def S_def [symmetric] Let_def)
  moreover have "shape n m ?W" using row by (simp add: shape_def)
  moreover have "\<forall>r < n. \<forall>j < m. ?W ! r ! j =
    (if r = col then S ! col ! j / S ! col ! col else S ! r ! j - S ! r ! col * (S ! col ! j / S ! col ! col))"
    using row by simp
  ultimately show ?thesis by blast
qed

lemma invert_column_keeps:
  assumes "shape n (2 * n) W" "col < n" "unit_columns n col W" "find (\<lambda>r. W ! r ! col \<noteq> 0) [col..<length W] = Some p"
  shows "\<exists>W'. invert_column col W = Inr W' \<and> shape n (2 * n) W' \<and> unit_columns n (col + 1) W' \<and>
    (\<forall>x y. solution n W' x y \<longleftrightarrow> solution n W x y)"
proof -
  define S where "S = swap_rows col p W"
  have l: "length W = n" using assms(1) by (simp add: shape_def)
  have p: "col \<le> p" "p < n" "W ! p ! col \<noteq> 0" using pivot_row [OF assms(4)] l by auto
  have S: "S ! r = (if r = col then W ! p else if r = p then W ! col else W ! r)" if "r < n" for r
    unfolding S_def using swap_rows_nth [of col W p r] that p assms(2) l by simp
  have Su: "S ! r ! j = (if r = j then 1 else 0)" if "j < col" "r < n" for r j
    using assms(2,3) that p by (auto simp: S unit_columns_def)
  have Sc: "S ! col ! col \<noteq> 0" using S [OF assms(2)] p by simp
  have Ss: "solution n S x y \<longleftrightarrow> solution n W x y" for x y
  proof
    assume h: "solution n S x y"
    have zero: "row_value n x y ((!) (S ! r)) = 0" if "r < n" for r using h that by (simp add: solution_def)
    show "solution n W x y"
      unfolding solution_def
    proof (intro allI impI)
      fix r
      assume r: "r < n"
      show "row_value n x y ((!) (W ! r)) = 0"
        using zero [OF assms(2)] zero [OF p(2)] zero [OF r] S [OF assms(2)] S [OF p(2)] S [OF r]
        by (cases "r = p"; cases "r = col") simp_all
    qed
  next
    assume h: "solution n W x y"
    then show "solution n S x y" unfolding solution_def using S p assms(2) by simp
  qed
  obtain W' where W': "invert_column col W = Inr W'" "shape n (2 * n) W'"
    "\<And>r j. r < n \<Longrightarrow> j < 2 * n \<Longrightarrow> W' ! r ! j =
      (if r = col then S ! col ! j / S ! col ! col else S ! r ! j - S ! r ! col * (S ! col ! j / S ! col ! col))"
    using invert_column_nth [OF assms(1,2) _ assms(4)] assms(2) unfolding S_def [symmetric] by auto
  have unit: "unit_columns n (col + 1) W'"
    unfolding unit_columns_def
  proof (intro allI impI)
    fix j r
    assume j: "j < col + 1" and r: "r < n"
    then have "j < 2 * n" using assms(2) by simp
    then show "W' ! r ! j = (if r = j then 1 else 0)"
      using W'(3) [OF r, of j] Su [OF _ r] Su [OF _ assms(2)] Sc j by (cases "j = col") auto
  qed
  have pivot: "row_value n x y ((!) (W' ! col)) = row_value n x y ((!) (S ! col)) / S ! col ! col" for x y
    using W'(3) [OF assms(2)] by (simp add: row_value_scale [symmetric] cong: row_value_cong)
  have other: "row_value n x y ((!) (W' ! r)) =
      row_value n x y ((!) (S ! r)) - S ! r ! col * (row_value n x y ((!) (S ! col)) / S ! col ! col)" if "r < n" "r \<noteq> col" for r x y
    using W'(3) [OF that(1)] that(2)
    by (simp add: row_value_scale [symmetric] row_value_combine [symmetric] cong: row_value_cong)
  have "solution n W' x y \<longleftrightarrow> solution n S x y" for x y
  proof
    assume h: "solution n W' x y"
    have c: "row_value n x y ((!) (S ! col)) = 0" using h [unfolded solution_def, rule_format, OF assms(2)] Sc by (simp add: pivot)
    then show "solution n S x y" using h other unfolding solution_def by (metis diff_zero div_0 mult_zero_right)
  next
    assume h: "solution n S x y"
    then have c: "row_value n x y ((!) (S ! col)) = 0" using assms(2) by (simp add: solution_def)
    show "solution n W' x y"
      unfolding solution_def
    proof (intro allI impI)
      fix r
      assume "r < n"
      then show "row_value n x y ((!) (W' ! r)) = 0"
        using h c pivot [of x y] other [of r x y] by (cases "r = col") (auto simp: solution_def)
    qed
  qed
  then show ?thesis using W'(1,2) unit Ss by blast
qed

text \<open>Without a pivot the columns to the left give a non-trivial solution for the zero right side.\<close>

lemma no_pivot_singular:
  assumes "col < n" "unit_columns n col W" "\<And>r. col \<le> r \<Longrightarrow> r < n \<Longrightarrow> W ! r ! col = 0"
  shows "\<exists>x. x col \<noteq> 0 \<and> solution n W x (\<lambda>j. 0)"
proof -
  define x :: "nat \<Rightarrow> rat" where "x j = (if j = col then 1 else if j < col then - (W ! j ! col) else 0)" for j
  have "row_value n x (\<lambda>j. 0) ((!) (W ! r)) = 0" if r: "r < n" for r
  proof -
    have n: "{..<n} = {..<col} \<union> {col} \<union> {col<..<n}" using assms(1) by auto
    have "(\<Sum>j<n. W ! r ! j * x j) = (\<Sum>j<col. W ! r ! j * x j) + W ! r ! col * x col + (\<Sum>j\<in>{col<..<n}. W ! r ! j * x j)"
      unfolding n by (subst sum.union_disjoint; (subst sum.union_disjoint)?) auto
    also have "(\<Sum>j\<in>{col<..<n}. W ! r ! j * x j) = 0" by (rule sum.neutral) (auto simp: x_def)
    also have "(\<Sum>j<col. W ! r ! j * x j) = (\<Sum>j<col. if j = r then - (W ! r ! col) else 0)"
      using assms(2) r by (intro sum.cong) (auto simp: unit_columns_def x_def)
    also have "\<dots> = (if r < col then - (W ! r ! col) else 0)" by simp
    finally show ?thesis using assms(3) [of r] r by (auto simp: row_value_def x_def)
  qed
  then show ?thesis unfolding solution_def by (intro exI [of _ x]) (simp add: x_def)
qed

lemma invert_columns_keeps:
  assumes "shape n (2 * n) W" "k \<le> n" "unit_columns n k W"
  shows "case invert_columns [k..<n] W of
      Inl err \<Rightarrow> err = ValueError \<and> (\<exists>x. (\<exists>i < n. x i \<noteq> 0) \<and> solution n W x (\<lambda>j. 0))
    | Inr W' \<Rightarrow> shape n (2 * n) W' \<and> unit_columns n n W' \<and> (\<forall>x y. solution n W' x y \<longleftrightarrow> solution n W x y)"
  using assms
proof (induction "n - k" arbitrary: k W)
  case (Suc d)
  then have k: "k < n" by simp
  have l: "length W = n" using Suc.prems(1) by (simp add: shape_def)
  show ?case
  proof (cases "find (\<lambda>r. W ! r ! k \<noteq> 0) [k..<length W]")
    case None
    then have "W ! r ! k = 0" if "k \<le> r" "r < n" for r using that l by (auto simp: find_None_iff)
    from no_pivot_singular [OF k Suc.prems(3) this] have "\<exists>x. (\<exists>i < n. x i \<noteq> 0) \<and> solution n W x (\<lambda>j. 0)" using k by blast
    moreover have "invert_column k W = Inl ValueError" using None by (simp add: invert_column_def)
    ultimately show ?thesis using k by (simp add: upt_conv_Cons)
  next
    case (Some p)
    from invert_column_keeps [OF Suc.prems(1) k Suc.prems(3) Some] obtain W' where W': "invert_column k W = Inr W'"
      "shape n (2 * n) W'" "unit_columns n (k + 1) W'" "\<And>x y. solution n W' x y \<longleftrightarrow> solution n W x y" by blast
    have "d = n - (k + 1)" "k + 1 \<le> n" using Suc.hyps(2) k by auto
    from Suc.hyps(1) [OF this(1) W'(2) this(2) W'(3)] show ?thesis
      using k W'(1,4) by (cases "invert_columns [Suc k..<n] W'") (simp_all add: upt_conv_Cons)
  qed
qed simp

theorem invert_correct:
  assumes "shape n n M"
  shows "case invert M of
      Inl err \<Rightarrow> err = ValueError \<and> (\<exists>x. (\<exists>i < n. x i \<noteq> 0) \<and> (\<forall>r < n. mat_vec n (entry_of M) x r = 0))
    | Inr N \<Rightarrow> shape n n N \<and> (\<forall>x y. (\<forall>r < n. mat_vec n (entry_of M) x r = y r) \<longleftrightarrow> (\<forall>r < n. x r = mat_vec n (entry_of N) y r))"
proof -
  define W where "W = map (\<lambda>i. M ! i @ map (\<lambda>j. if i = j then 1 else 0) [0..<n]) [0..<n]"
  have l: "length M = n" "\<And>r. r < n \<Longrightarrow> length (M ! r) = n" using assms by (simp_all add: shape_def)
  have sh: "shape n (2 * n) W" using l by (simp add: shape_def W_def)
  have start: "solution n W x y \<longleftrightarrow> (\<forall>r < n. mat_vec n (entry_of M) x r = y r)" for x y
  proof -
    have "row_value n x y ((!) (W ! r)) = mat_vec n (entry_of M) x r - y r" if "r < n" for r
    proof -
      have "(\<Sum>j<n. W ! r ! (n + j) * y j) = (\<Sum>j<n. if j = r then y j else 0)"
        using that l by (intro sum.cong) (auto simp: W_def nth_append)
      then show ?thesis using that l by (simp add: row_value_def mat_vec_def entry_of_def W_def nth_append)
    qed
    then show ?thesis by (auto simp: solution_def)
  qed
  have final: "solution n W' x y \<longleftrightarrow> (\<forall>r < n. x r = mat_vec n (entry_of (map (drop n) W')) y r)"
    if "shape n (2 * n) W'" "unit_columns n n W'" for W' x y
  proof -
    have "row_value n x y ((!) (W' ! r)) = x r - mat_vec n (entry_of (map (drop n) W')) y r" if r: "r < n" for r
    proof -
      have "(\<Sum>j<n. W' ! r ! j * x j) = (\<Sum>j<n. if j = r then x j else 0)"
        using r \<open>unit_columns n n W'\<close> by (intro sum.cong) (auto simp: unit_columns_def)
      then show ?thesis
        using r \<open>shape n (2 * n) W'\<close> by (simp add: row_value_def mat_vec_def entry_of_def shape_def)
    qed
    then show ?thesis by (auto simp: solution_def)
  qed
  have inv: "invert M = rbind (invert_columns [0..<n] W) (\<lambda>work. Inr (map (drop n) work))"
    unfolding invert_def l(1) W_def Let_def ..
  have "unit_columns n 0 W" by (simp add: unit_columns_def)
  from invert_columns_keeps [OF sh _ this] show ?thesis
  proof (cases "invert_columns [0..<n] W")
    case (Inl err)
    then show ?thesis using invert_columns_keeps [OF sh _ \<open>unit_columns n 0 W\<close>] start by (simp add: inv)
  next
    case (Inr W')
    then have W': "shape n (2 * n) W'" "unit_columns n n W'" "\<And>x y. solution n W' x y \<longleftrightarrow> solution n W x y"
      using invert_columns_keeps [OF sh _ \<open>unit_columns n 0 W\<close>] by simp_all
    moreover have "shape n n (map (drop n) W')" using W'(1) by (simp add: shape_def)
    ultimately show ?thesis using Inr start final [OF W'(1,2)] by (simp add: inv)
  qed
qed

end
