(* ===== verification/Em_Tree.thy ===== *)
theory Em_Tree
  imports Em_Complex
begin

text \<open>
  The tree solution of \<open>oph_fpe/em/base_carrier.py\<close> (\<open>tree_solution\<close>): the search and the order
  evaluate to fixed tables, and the current is the only one on the spanning tree with the given
  divergence.
\<close>

section \<open>The tree solution of a neutral load\<close>

definition parent_table :: tree_map where
  "parent_table = [(0, None), (1, Some (0, 0)), (2, Some (0, 1)), (3, Some (0, 2)), (4, Some (0, 3)), (6, Some (0, 4)),
     (5, Some (1, 7)), (7, Some (1, 8)), (8, Some (2, 11)), (9, Some (3, 14)), (10, Some (4, 17)), (11, Some (5, 20))]"

lemma tree_parents_value: "tree_parents = Some (Inr parent_table)"
  by code_simp

lemma tree_order_value: "tree_order ports parent_table [0] = Some [0, 1, 2, 3, 4, 5, 6, 7, 8, 9, 10, 11]"
  by code_simp

text \<open>The current that the tree carries: each tree seam takes the load beyond it.\<close>

definition carried :: "vec \<Rightarrow> vec" where
  "carried l = [l ! 1 + l ! 7 + (l ! 5 + l ! 11), l ! 2 + l ! 8, l ! 3 + l ! 9, l ! 4 + l ! 10, l ! 6, 0, 0, l ! 5 + l ! 11, l ! 7, 0,
     0, l ! 8, 0, 0, l ! 9, 0, 0, l ! 10, 0, 0, l ! 11, 0, 0, 0, 0, 0, 0, 0, 0, 0]"

lemma load_cases:
  assumes "length load = ports"
  obtains a b c d e f g h i j k l where "load = [a, b, c, d, e, f, g, h, i, j, k, l]"
proof -
  have "length load = Suc (Suc (Suc (Suc (Suc (Suc (Suc (Suc (Suc (Suc (Suc (Suc 0)))))))))))"
    using assms by (simp add: ports_def)
  then show ?thesis using that by (auto simp: length_Suc_conv)
qed

lemma upt_seams: "[0..<seams] = [0,1,2,3,4,5,6,7,8,9,10,11,12,13,14,15,16,17,18,19,20,21,22,23,24,25,26,27,28,29]"
  by code_simp

lemma chord_seams_value: "chord_seams = [5,6,9,10,12,13,15,16,18,19,21,22,23,24,25,26,27,28,29]"
  by code_simp

lemma zero_loads: "replicate ports 0 = [0,0,0,0,0,0,0,0,0,0,0,0 :: rat]"
  by code_simp

lemma zero_seams: "replicate seams 0 = [0,0,0,0,0,0,0,0,0,0,0,0,0,0,0,0,0,0,0,0,0,0,0,0,0,0,0,0,0,0 :: rat]"
  by code_simp

lemma tree_flow:
  assumes "length load = ports"
  shows "fold (tree_current parent_table (fold (collect_node parent_table) (rev [0, 1, 2, 3, 4, 5, 6, 7, 8, 9, 10, 11]) load))
    (tl [0, 1, 2, 3, 4, 5, 6, 7, 8, 9, 10, 11]) (replicate seams 0) = carried load"
proof -
  obtain a b c d e f g h i j k l where l: "load = [a, b, c, d, e, f, g, h, i, j, k, l]" using load_cases [OF assms] by blast
  show ?thesis
    unfolding l zero_seams by (simp add: collect_node_def tree_current_def parent_table_def seam_right_def carried_def)
qed

lemma boundary_carried:
  assumes "length load = ports" "sum_list load = 0"
  shows "boundary (carried load) = Inr load"
proof -
  obtain a b c d e f g h i j k l where l: "load = [a, b, c, d, e, f, g, h, i, j, k, l]" using load_cases [OF assms(1)] by blast
  show ?thesis
    using assms(2)
    unfolding l boundary_def require_def upt_seams zero_loads carried_def
    by (simp add: add_load_def Let_def seam_right_def seam_left_def seams_def algebra_simps)
qed

lemma tree_supported:
  assumes "length d = seams" "\<forall>e \<in> set chord_seams. d ! e = 0"
  shows "d = [d ! 0, d ! 1, d ! 2, d ! 3, d ! 4, 0, 0, d ! 7, d ! 8, 0, 0, d ! 11, 0, 0, d ! 14, 0, 0, d ! 17, 0, 0, d ! 20, 0, 0, 0, 0, 0, 0, 0, 0, 0]"
proof -
  have "\<forall>e \<in> set [5,6,9,10,12,13,15,16,18,19,21,22,23,24,25,26,27,28,29]. d ! e = 0"
    using assms(2) unfolding chord_seams_value .
  moreover have "d = map ((!) d) [0..<seams]" using assms(1) map_nth [of d] by simp
  ultimately show ?thesis unfolding upt_seams by simp
qed

lemma boundary_tree_list:
  "\<exists>load. boundary [x0, x1, x2, x3, x4, 0, 0, x7, x8, 0, 0, x11, 0, 0, x14, 0, 0, x17, 0, 0, x20, 0, 0, 0, 0, 0, 0, 0, 0, 0] = Inr load \<and> carried load = [x0, x1, x2, x3, x4, 0, 0, x7, x8, 0, 0, x11, 0, 0, x14, 0, 0, x17, 0, 0, x20, 0, 0, 0, 0, 0, 0, 0, 0, 0]"
  unfolding boundary_def require_def upt_seams zero_loads carried_def
  by (simp add: add_load_def Let_def seam_right_def seam_left_def seams_def algebra_simps)

lemma boundary_injective:
  assumes "length d = seams" "\<forall>e \<in> set chord_seams. d ! e = 0"
  shows "\<exists>load. boundary d = Inr load \<and> carried load = d"
  by (subst (1 2) tree_supported [OF assms]) (rule boundary_tree_list)

lemma carried_on_tree: "length (carried load) = seams" "\<forall>e \<in> set chord_seams. carried load ! e = 0"
  unfolding carried_def chord_seams_value by (simp_all add: seams_def)

lemma tree_solution_value:
  assumes "length load = ports" "sum_list load = 0"
  shows "tree_solution load = Some (Inr (carried load))"
  unfolding tree_solution_def tree_parents_value bind.bind_lunit sum.case tree_order_value Let_def tree_flow [OF assms(1)]
    boundary_carried [OF assms] rbind_Inr
  using assms by (simp add: require_def)

lemma tree_solution_refuses: "length load \<noteq> ports \<or> sum_list load \<noteq> 0 \<Longrightarrow> tree_solution load = Some (Inl ValueError)"
  by (auto simp: tree_solution_def)

end
