(* ===== verification/Em_Laplacian.thy ===== *)
theory Em_Laplacian
  imports Em_Gauss Em_Tree
begin

text \<open>
  The port Laplacian and its Green matrix (\<open>oph_fpe/em/green.py\<close>, \<open>laplacian_matrix\<close> of
  \<open>base_carrier.py\<close>).  The regularised Laplacian is injective, so the inversion finds every pivot
  and the identities that the code verifies hold.
\<close>

section \<open>The port Laplacian and its Green matrix\<close>

definition add_entry :: "nat \<Rightarrow> nat \<Rightarrow> rat \<Rightarrow> matrix \<Rightarrow> matrix" where
  "add_entry i j x M = M[i := (M ! i)[j := M ! i ! j + x]]"

definition add_seam :: "nat \<Rightarrow> matrix \<Rightarrow> matrix" where
  "add_seam e lap = (let l = seam_left ! e; r = seam_right ! e in
     add_entry r l (- 1) (add_entry l r (- 1) (add_entry r r 1 (add_entry l l 1 lap))))"

definition laplacian_matrix :: matrix where
  "laplacian_matrix = fold add_seam [0..<seams] (replicate ports (replicate ports 0))"

definition green_identities :: "matrix \<Rightarrow> matrix \<Rightarrow> bool" where
  "green_identities lap green \<longleftrightarrow> list_all (\<lambda>i. sum_list (green ! i) = 0 \<and> list_all (\<lambda>j. green ! i ! j = green ! j ! i \<and>
     sum_list (map (\<lambda>k. lap ! i ! k * green ! k ! j) [0..<ports]) = (if i = j then 1 else 0) - 1 / 12) [0..<ports]) [0..<ports]"

definition green_matrix :: "matrix res" where
  "green_matrix = (let lap = laplacian_matrix in
     rbind (invert (map (\<lambda>i. map (\<lambda>j. lap ! i ! j + 1) [0..<ports]) [0..<ports])) (\<lambda>inverse.
     let green = map (\<lambda>i. map (\<lambda>j. inverse ! i ! j - 1 / 144) [0..<ports]) [0..<ports]
     in require (green_identities lap green) (Inr green)))"

lemma ports_rat [simp]: "(of_nat ports :: rat) = 12"
  by (simp add: ports_def)

lemma add_entry_shape: "shape n m M \<Longrightarrow> shape n m (add_entry i j x M)"
  unfolding shape_def add_entry_def by (metis length_list_update nth_list_update_eq nth_list_update_neq)

lemma add_entry_nth: "shape n m M \<Longrightarrow> i < n \<Longrightarrow> j < m \<Longrightarrow> k < n \<Longrightarrow> l < m \<Longrightarrow>
    add_entry i j x M ! k ! l = M ! k ! l + (if k = i \<and> l = j then x else 0)"
  by (auto simp: shape_def add_entry_def nth_list_update)

lemma add_seam_nth:
  assumes "shape ports ports M" "e < seams" "i < ports" "j < ports"
  shows "add_seam e M ! i ! j = M ! i ! j + port_incidence e i * port_incidence e j"
  using seam_ends [OF assms(2)] assms
  by (simp add: add_seam_def Let_def add_entry_nth [of ports ports] add_entry_shape port_incidence_ends)

lemma add_seam_shape: "shape ports ports M \<Longrightarrow> shape ports ports (add_seam e M)"
  by (simp add: add_seam_def Let_def add_entry_shape)

lemma laplacian_entries:
  "shape ports ports laplacian_matrix"
  "i < ports \<Longrightarrow> j < ports \<Longrightarrow> laplacian_matrix ! i ! j = (\<Sum>e<seams. port_incidence e i * port_incidence e j)"
proof -
  have "k \<le> seams \<Longrightarrow> shape ports ports (fold add_seam [0..<k] (replicate ports (replicate ports 0))) \<and>
    (\<forall>i < ports. \<forall>j < ports. fold add_seam [0..<k] (replicate ports (replicate ports 0)) ! i ! j =
      (\<Sum>e<k. port_incidence e i * port_incidence e j))" for k
    by (induction k) (auto simp: shape_def [of _ _ "replicate _ _"] add_seam_shape add_seam_nth)
  from this [of seams] show "shape ports ports laplacian_matrix"
    "i < ports \<Longrightarrow> j < ports \<Longrightarrow> laplacian_matrix ! i ! j = (\<Sum>e<seams. port_incidence e i * port_incidence e j)"
    by (simp_all add: laplacian_matrix_def)
qed

abbreviation lap :: "(nat \<Rightarrow> rat) \<Rightarrow> nat \<Rightarrow> rat" where
  "lap x \<equiv> mat_vec_t seams port_incidence (mat_vec ports port_incidence x)"

lemma laplacian_apply: "i < ports \<Longrightarrow> mat_vec ports (entry_of laplacian_matrix) x i = lap x i"
proof -
  assume i: "i < ports"
  have "mat_vec ports (entry_of laplacian_matrix) x i = (\<Sum>j<ports. \<Sum>e<seams. port_incidence e i * port_incidence e j * x j)"
    unfolding mat_vec_def entry_of_def using i by (intro sum.cong) (simp_all add: laplacian_entries sum_distrib_right)
  also have "\<dots> = (\<Sum>e<seams. \<Sum>j<ports. port_incidence e i * port_incidence e j * x j)" by (rule sum.swap)
  also have "\<dots> = lap x i" by (simp add: mat_vec_t_def mat_vec_def sum_distrib_left algebra_simps)
  finally show ?thesis .
qed

text \<open>The energy of a gradient; a potential without gradient is constant.\<close>

lemma gradient_energy: "(\<Sum>i<ports. x i * lap x i) = (\<Sum>e<seams. mat_vec ports port_incidence x e * mat_vec ports port_incidence x e)"
  using adjoint [of "mat_vec ports port_incidence x" ports port_incidence x seams] by (simp add: mult.commute)

lemma square_sum_zero: "(\<Sum>e<n. f e * f e) = (0 :: rat) \<Longrightarrow> e < (n :: nat) \<Longrightarrow> f e = 0"
  using sum_nonneg_eq_0_iff [of "{..<n}" "\<lambda>e. f e * f e"] by (simp add: Ball_def)

lemma gradient_zero: "(\<And>i. i < ports \<Longrightarrow> lap x i = 0) \<Longrightarrow> e < seams \<Longrightarrow> mat_vec ports port_incidence x e = 0"
  by (rule square_sum_zero [of _ seams]) (use gradient_energy [of x] in simp_all)

lemma gradient_ends: "e < seams \<Longrightarrow> mat_vec ports port_incidence x e = x (seam_right ! e) - x (seam_left ! e)"
  using seam_ends [of e]
  by (simp add: mat_vec_def port_incidence_ends left_diff_distrib sum_subtractf if_distrib [of "\<lambda>x. x * _"] cong: if_cong)

lemma ports_reached:
  assumes "0 < p" "p < ports"
  shows "\<exists>e < seams. seam_right ! e = p \<and> seam_left ! e < p"
proof -
  have "list_all (\<lambda>p. p = 0 \<or> list_ex (\<lambda>e. seam_right ! e = p \<and> seam_left ! e < p) [0..<seams]) [0..<ports]" by code_simp
  from bspec [OF this [unfolded list_all_iff], of p]
  have "list_ex (\<lambda>e. seam_right ! e = p \<and> seam_left ! e < p) [0..<seams]" using assms by simp
  then show ?thesis unfolding list_ex_iff by auto
qed

lemma constant_potential:
  assumes "\<And>e. e < seams \<Longrightarrow> mat_vec ports port_incidence x e = 0" "p < ports"
  shows "x p = x 0"
  using assms(2)
proof (induction p rule: less_induct)
  case (less p)
  show ?case
  proof (cases "p = 0")
    case False
    then obtain e where e: "e < seams" "seam_right ! e = p" "seam_left ! e < p" using ports_reached less.prems by blast
    have "x p = x (seam_left ! e)" using assms(1) [OF e(1)] gradient_ends [OF e(1), of x] e(2) by simp
    then show ?thesis using less.IH [OF e(3)] e(3) less.prems by simp
  qed simp
qed


section \<open>The inverse of the regularised Laplacian\<close>

definition regularized :: matrix where
  "regularized = map (\<lambda>i. map (\<lambda>j. laplacian_matrix ! i ! j + 1) [0..<ports]) [0..<ports]"

lemma regularized_shape: "shape ports ports regularized"
  by (simp add: shape_def regularized_def)

lemma regularized_entry: "i < ports \<Longrightarrow> j < ports \<Longrightarrow> entry_of regularized i j = entry_of laplacian_matrix i j + 1"
  by (simp add: regularized_def entry_of_def)

lemma regularized_apply: "i < ports \<Longrightarrow> mat_vec ports (entry_of regularized) x i = lap x i + (\<Sum>j<ports. x j)"
  unfolding laplacian_apply [symmetric] mat_vec_def
  by (simp add: regularized_entry algebra_simps sum.distrib)

lemma lap_constant: "lap (\<lambda>j. c) i = 0"
proof -
  have "lap (\<lambda>j. c) i = lap (\<lambda>j. 0) i" by (rule mat_vec_t_cong) (simp add: gradient_ends)
  then show ?thesis by (simp add: mat_vec_t_def mat_vec_def)
qed

lemma square_plus_zero: "a + s * s = 0 \<Longrightarrow> 0 \<le> a \<Longrightarrow> s = 0 \<and> a = (0 :: rat)"
  using zero_le_square [of s] by (auto simp: add_nonneg_eq_0_iff)

lemma regularized_injective:
  assumes "\<And>i. i < ports \<Longrightarrow> mat_vec ports (entry_of regularized) x i = 0" "p < ports"
  shows "x p = 0"
proof -
  have r: "lap x i + (\<Sum>j<ports. x j) = 0" if "i < ports" for i using assms(1) [OF that] regularized_apply [OF that] by simp
  have "(\<Sum>i<ports. x i * (lap x i + (\<Sum>j<ports. x j))) = 0" using r by (intro sum.neutral) simp
  then have e: "(\<Sum>i<ports. x i * lap x i) + (\<Sum>j<ports. x j) * (\<Sum>j<ports. x j) = 0"
    by (simp add: distrib_left sum.distrib sum_distrib_right [symmetric])
  have "0 \<le> (\<Sum>i<ports. x i * lap x i)" unfolding gradient_energy by (rule sum_nonneg) simp
  then have z: "(\<Sum>j<ports. x j) = 0" "(\<Sum>i<ports. x i * lap x i) = 0"
    using square_plus_zero [OF e] by blast+
  have "mat_vec ports port_incidence x e = 0" if "e < seams" for e
    by (rule square_sum_zero [OF z(2) [unfolded gradient_energy] that])
  then have c: "x q = x 0" if "q < ports" for q using constant_potential that by blast
  have "(\<Sum>j<ports. x j) = (\<Sum>j<ports. x 0)" by (intro sum.cong refl c) simp
  then have "x 0 = 0" unfolding z(1) by simp
  then show ?thesis using c [OF assms(2)] by simp
qed

lemma inverse_exists:
  "\<exists>N. invert regularized = Inr N \<and> shape ports ports N \<and>
    (\<forall>x y. (\<forall>r < ports. mat_vec ports (entry_of regularized) x r = y r) \<longleftrightarrow> (\<forall>r < ports. x r = mat_vec ports (entry_of N) y r))"
proof (cases "invert regularized")
  case (Inl err)
  then obtain x i where "i < ports" "x i \<noteq> 0" "\<forall>r < ports. mat_vec ports (entry_of regularized) x r = 0"
    using invert_correct [OF regularized_shape] by auto
  then show ?thesis using regularized_injective [of x i] by blast
next
  case (Inr N)
  then show ?thesis using invert_correct [OF regularized_shape] by simp
qed

text \<open>A two-sided inverse of a symmetric matrix is symmetric.\<close>

lemma inverse_entries:
  assumes "\<And>x y. (\<forall>r < ports. mat_vec ports (entry_of regularized) x r = y r) \<longleftrightarrow> (\<forall>r < ports. x r = mat_vec ports (entry_of N) y r)"
  shows "i < ports \<Longrightarrow> (\<Sum>j<ports. entry_of N i j) = 1 / 12"
    and "i < ports \<Longrightarrow> j < ports \<Longrightarrow> (\<Sum>k<ports. entry_of regularized i k * entry_of N k j) = (if i = j then 1 else 0)"
    and "i < ports \<Longrightarrow> j < ports \<Longrightarrow> entry_of N i j = entry_of N j i"
proof -
  have "\<forall>r < ports. mat_vec ports (entry_of regularized) (\<lambda>j. 1 / 12) r = 1"
    by (simp add: regularized_apply lap_constant)
  then show row: "(\<Sum>j<ports. entry_of N i j) = 1 / 12" if "i < ports" for i
    using assms [of "\<lambda>j. 1 / 12" "\<lambda>j. 1"] that by (simp add: mat_vec_def)
  have unit: "mat_vec ports (entry_of N) (\<lambda>k. if k = j then 1 else 0) i = entry_of N i j" if "j < ports" for i j
    using that by (simp add: mat_vec_def if_distrib [of "\<lambda>x. _ * x"] cong: if_cong)
  show prod: "(\<Sum>k<ports. entry_of regularized i k * entry_of N k j) = (if i = j then 1 else 0)" if "i < ports" "j < ports" for i j
  proof -
    have "\<forall>r < ports. mat_vec ports (entry_of regularized) (\<lambda>r. entry_of N r j) r = (if r = j then 1 else 0)"
      using assms [of "\<lambda>r. entry_of N r j" "\<lambda>k. if k = j then 1 else 0"] unit [OF that(2)] by simp
    then show ?thesis using that by (simp add: mat_vec_def)
  qed
  have sym: "entry_of regularized i j = entry_of regularized j i" if "i < ports" "j < ports" for i j
    using that by (simp add: regularized_def entry_of_def laplacian_entries mult.commute)
  show "entry_of N i j = entry_of N j i" if ij: "i < ports" "j < ports"
  proof -
    have "entry_of N i j = (\<Sum>k<ports. (\<Sum>l<ports. entry_of regularized k l * entry_of N l i) * entry_of N k j)"
      using ij prod by (simp add: if_distrib [of "\<lambda>x. x * _"] cong: if_cong)
    also have "\<dots> = (\<Sum>l<ports. (\<Sum>k<ports. entry_of regularized l k * entry_of N k j) * entry_of N l i)"
    proof -
      have "(\<Sum>k<ports. (\<Sum>l<ports. entry_of regularized k l * entry_of N l i) * entry_of N k j) =
          (\<Sum>k<ports. \<Sum>l<ports. entry_of regularized l k * entry_of N k j * entry_of N l i)"
        unfolding sum_distrib_right by (intro sum.cong refl) (simp add: sym algebra_simps)
      also have "\<dots> = (\<Sum>l<ports. \<Sum>k<ports. entry_of regularized l k * entry_of N k j * entry_of N l i)" by (rule sum.swap)
      finally show ?thesis by (simp add: sum_distrib_right)
    qed
    also have "\<dots> = entry_of N j i"
      using ij prod by (simp add: if_distrib [of "\<lambda>x. x * _"] cong: if_cong)
    finally show ?thesis .
  qed
qed

lemma regularized_sums: "(\<Sum>k<n. (u k - 1) * (v k - c)) =
    (\<Sum>k<n. u k * v k) - (\<Sum>k<n. v k) - (\<Sum>k<n. u k) * c + of_nat n * (c :: rat)"
  by (induction n) (simp_all add: algebra_simps)

lemma green_matrix_returns: "\<exists>G. green_matrix = Inr G \<and> shape ports ports G \<and> green_identities laplacian_matrix G"
proof -
  obtain N where N: "invert regularized = Inr N" "shape ports ports N"
    "\<And>x y. (\<forall>r < ports. mat_vec ports (entry_of regularized) x r = y r) \<longleftrightarrow> (\<forall>r < ports. x r = mat_vec ports (entry_of N) y r)"
    using inverse_exists by blast
  let ?G = "map (\<lambda>i. map (\<lambda>j. N ! i ! j - 1 / 144) [0..<ports]) [0..<ports]"
  have row: "sum_list (?G ! i) = 0" if "i < ports" for i
    using inverse_entries(1) [OF N(3) that] that
    by (simp add: sum_list_upt entry_of_def sum_subtractf)
  have sym: "?G ! i ! j = ?G ! j ! i" if "i < ports" "j < ports" for i j
    using inverse_entries(3) [OF N(3) that] that by (simp add: entry_of_def)
  have prod: "sum_list (map (\<lambda>k. laplacian_matrix ! i ! k * ?G ! k ! j) [0..<ports]) = (if i = j then 1 else 0) - 1 / 12"
    if "i < ports" "j < ports" for i j
  proof -
    have r: "(\<Sum>k<ports. entry_of regularized i k) = 12"
      using regularized_apply [OF that(1), of "\<lambda>k. 1"] unfolding lap_constant by (simp add: mat_vec_def)
    have c: "(\<Sum>k<ports. entry_of N k j) = 1 / 12"
      using inverse_entries(1) [OF N(3) that(2)] inverse_entries(3) [OF N(3) _ that(2)] by simp
    have "sum_list (map (\<lambda>k. laplacian_matrix ! i ! k * ?G ! k ! j) [0..<ports]) =
        (\<Sum>k<ports. (entry_of regularized i k - 1) * (entry_of N k j - 1 / 144))"
      unfolding sum_list_upt using that by (intro sum.cong) (simp_all add: regularized_entry, simp_all add: entry_of_def)
    also have "\<dots> = (\<Sum>k<ports. entry_of regularized i k * entry_of N k j) - (\<Sum>k<ports. entry_of N k j) -
        (\<Sum>k<ports. entry_of regularized i k) * (1 / 144) + of_nat ports * (1 / 144)"
      unfolding regularized_sums ..
    also have "\<dots> = (if i = j then 1 else 0) - 1 / 12"
      unfolding inverse_entries(2) [OF N(3) that] r c by simp
    finally show ?thesis .
  qed
  have "green_identities laplacian_matrix ?G"
    using row sym prod by (auto simp: green_identities_def list_all_iff)
  moreover have "shape ports ports ?G" by (simp add: shape_def)
  ultimately show ?thesis
    using N(1) unfolding green_matrix_def Let_def regularized_def by (simp add: require_def)
qed

end
