(* ===== verification/Em_Temporal.thy ===== *)
theory Em_Temporal
  imports Em_Carrier
begin

text \<open>
  The leapfrog evolution of \<open>oph_fpe/em/temporal.py\<close> (\<open>LeapfrogLane\<close>): the staggered fields, the
  update of the seam potential, the receipts recomputed on a history, the time-dependent gauge
  transformation and the wave recursion.  The static joins of the module need the Green matrix
  and follow in \<open>Em_Static\<close>.
\<close>

section \<open>Fields on a history\<close>

type_synonym history = "vec list"

definition item :: "'a list \<Rightarrow> nat \<Rightarrow> 'a res" where
  "item xs n = (if n < length xs then Inr (xs ! n) else Inl IndexError)"

definition zip_with :: "(rat \<Rightarrow> rat \<Rightarrow> rat) \<Rightarrow> vec \<Rightarrow> vec \<Rightarrow> vec res" where
  "zip_with f xs ys = require (length xs = length ys) (Inr (map2 f xs ys))"

definition electric_field :: "history \<Rightarrow> history \<Rightarrow> nat \<Rightarrow> vec res" where
  "electric_field a phi n = rbind (item a (n + 1)) (\<lambda>next. rbind (item a n) (\<lambda>now.
     rbind (zip_with (-) next now) (\<lambda>diff. rbind (item phi n) (\<lambda>p. rbind (coboundary p) (\<lambda>gradient.
     zip_with (\<lambda>dx gx. - dx - gx) diff gradient)))))"

definition magnetic_field :: "matrix \<Rightarrow> history \<Rightarrow> nat \<Rightarrow> vec res" where
  "magnetic_field C a n = rbind (item a n) (face_curvature C)"

definition field_energy :: "matrix \<Rightarrow> history \<Rightarrow> history \<Rightarrow> nat \<Rightarrow> rat res" where
  "field_energy C a phi n = rbind (electric_field a phi n) (\<lambda>electric. rbind (seam_energy electric) (\<lambda>u.
     rbind (magnetic_field C a n) (\<lambda>b0. rbind (magnetic_field C a (n + 1)) (\<lambda>b1.
     rbind (face_inner b0 b1) (\<lambda>v. Inr (1 / 2 * u + 1 / 2 * v))))))"

section \<open>Evolution\<close>

definition next_potential :: "matrix \<Rightarrow> history \<Rightarrow> history \<Rightarrow> history \<Rightarrow> nat \<Rightarrow> vec res" where
  "next_potential C phi current a n = rbind (item a (n + 1)) (\<lambda>a1. rbind (item a n) (\<lambda>a0.
     rbind (local_maxwell_operator C a1) (\<lambda>kinetic. rbind (item phi n) (\<lambda>p0. rbind (item phi (n + 1)) (\<lambda>p1.
     rbind (zip_with (-) p0 p1) (\<lambda>drop. rbind (coboundary drop) (\<lambda>gradient. rbind (item current n) (\<lambda>j.
     rmap (\<lambda>e. rbind (item j e) (\<lambda>x. Inr (2 * a1 ! e - a0 ! e - kinetic ! e + x + gradient ! e))) [0..<seams]))))))))"

fun evolve_loop :: "matrix \<Rightarrow> history \<Rightarrow> history \<Rightarrow> nat \<Rightarrow> nat \<Rightarrow> history \<Rightarrow> history res" where
  "evolve_loop C phi current 0 n a = Inr a"
| "evolve_loop C phi current (Suc k) n a =
     rbind (next_potential C phi current a n) (\<lambda>x. evolve_loop C phi current k (n + 1) (a @ [x]))"

section \<open>Receipts\<close>

datatype receipt_failure = AMPERE nat | FARADAY nat | CODIFFERENTIAL nat | GAUSS_EQUIVALENCE | GAUSS_INITIAL
  | GAUSS_PROPAGATION | CONTINUITY "nat option" | BALANCE nat | DRIFT

record gauss_report =
  gauss_initial :: bool
  gauss_propagated :: bool
  continuity_all :: bool
  gauss_iff :: bool
  first_gauss_failure :: "nat option"

record temporal_receipts =
  tr_steps :: nat
  ampere_exact :: bool
  faraday_exact :: bool
  codifferential_zero :: bool
  tr_gauss :: "gauss_report option"
  balance_exact :: bool
  source_free :: bool
  drift_zero :: "bool option"
  initial_form :: rat
  final_form :: rat
  tr_failures :: "receipt_failure list"

text \<open>A loop that stops at the first index with a violation.\<close>

fun first_bad :: "(nat \<Rightarrow> bool res) \<Rightarrow> nat list \<Rightarrow> nat option res" where
  "first_bad bad [] = Inr None"
| "first_bad bad (n # ns) = rbind (bad n) (\<lambda>b. if b then Inr (Some n) else first_bad bad ns)"

definition ampere_bad :: "matrix \<Rightarrow> history \<Rightarrow> history \<Rightarrow> history \<Rightarrow> nat \<Rightarrow> bool res" where
  "ampere_bad C electric magnetic current n = rbind (face_codifferential C (magnetic ! (n + 1))) (\<lambda>codif.
     rbind (item current n) (\<lambda>j.
     rbind (rmap (\<lambda>e. rbind (item j e) (\<lambda>x. Inr (electric ! (n + 1) ! e - electric ! n ! e - codif ! e + x))) [0..<seams])
       (\<lambda>residual. Inr (list_ex (\<lambda>x. x \<noteq> 0) residual))))"

definition faraday_bad :: "matrix \<Rightarrow> history \<Rightarrow> history \<Rightarrow> nat \<Rightarrow> bool res" where
  "faraday_bad C electric magnetic n = rbind (face_curvature C (electric ! n)) (\<lambda>curl.
     Inr (list_ex (\<lambda>f. magnetic ! (n + 1) ! f - magnetic ! n ! f \<noteq> - (curl ! f)) [0..<faces]))"

definition codifferential_bad :: "matrix \<Rightarrow> history \<Rightarrow> nat \<Rightarrow> bool res" where
  "codifferential_bad C magnetic n = rbind (face_codifferential C (magnetic ! n)) (\<lambda>codif.
     rbind (boundary codif) (\<lambda>b. Inr (list_ex (\<lambda>x. x \<noteq> 0) b)))"

definition gauss_flag :: "history \<Rightarrow> history \<Rightarrow> nat \<Rightarrow> bool res" where
  "gauss_flag electric rho n = rbind (boundary (electric ! n)) (\<lambda>b. Inr (b = rho ! n))"

definition continuity_bad :: "history \<Rightarrow> history \<Rightarrow> nat \<Rightarrow> nat \<Rightarrow> bool res" where
  "continuity_bad current rho n p = rbind (item (rho ! (n + 1)) p) (\<lambda>x. rbind (item (rho ! n) p) (\<lambda>y.
     rbind (boundary (current ! n)) (\<lambda>b. Inr (x - y + b ! p \<noteq> 0))))"

definition continuity_flag :: "history \<Rightarrow> history \<Rightarrow> nat \<Rightarrow> bool res" where
  "continuity_flag current rho n =
     rbind (first_bad (continuity_bad current rho n) [0..<ports]) (\<lambda>r. Inr (r = None))"

definition verify_gauss :: "history \<Rightarrow> history \<Rightarrow> history \<Rightarrow> nat \<Rightarrow> (gauss_report \<times> receipt_failure list) res" where
  "verify_gauss electric current rho final = require (final \<le> length rho)
     (rbind (rmap (gauss_flag electric rho) [0..<final]) (\<lambda>gauss_flags.
      rbind (rmap (continuity_flag current rho) [0..<final - 1]) (\<lambda>continuity_flags.
      let iff = list_all (\<lambda>n. \<not> gauss_flags ! n \<or> gauss_flags ! (n + 1) = continuity_flags ! n) [0..<final - 1];
          first = find (\<lambda>n. \<not> gauss_flags ! n) [0..<final];
          propagated = list_all id gauss_flags; continuous = list_all id continuity_flags
      in Inr (\<lparr>gauss_initial = gauss_flags ! 0, gauss_propagated = propagated, continuity_all = continuous,
            gauss_iff = iff, first_gauss_failure = first\<rparr>,
          (if iff then [] else [GAUSS_EQUIVALENCE]) @ (if gauss_flags ! 0 then [] else [GAUSS_INITIAL]) @
          (if continuous \<and> \<not> propagated then [GAUSS_PROPAGATION] else []) @
          (if continuous then [] else [CONTINUITY first])))))"

definition quadratic_form :: "history \<Rightarrow> history \<Rightarrow> nat \<Rightarrow> rat res" where
  "quadratic_form electric magnetic n = rbind (seam_energy (electric ! n)) (\<lambda>u.
     rbind (face_inner (magnetic ! n) (magnetic ! (n + 1))) (\<lambda>v. Inr (1 / 2 * u + 1 / 2 * v)))"

definition balance_bad :: "history \<Rightarrow> vec \<Rightarrow> history \<Rightarrow> nat \<Rightarrow> bool res" where
  "balance_bad electric forms current n =
     rbind (seam_inner (map (\<lambda>e. electric ! n ! e + electric ! (n + 1) ! e) [0..<seams]) (current ! n)) (\<lambda>w.
     Inr (forms ! (n + 1) \<noteq> forms ! n - 1 / 2 * w))"

definition failed_at :: "(nat \<Rightarrow> receipt_failure) \<Rightarrow> nat option \<Rightarrow> receipt_failure list" where
  "failed_at kind r = (case r of None \<Rightarrow> [] | Some n \<Rightarrow> [kind n])"

text \<open>
  \<open>verify_history\<close> computes the fields of every step first (second definition) and then all
  receipts from them (first definition).
\<close>

definition field_receipts ::
  "matrix \<Rightarrow> history \<Rightarrow> history \<Rightarrow> history \<Rightarrow> history option \<Rightarrow> bool \<Rightarrow> nat \<Rightarrow> temporal_receipts res" where
  "field_receipts C electric magnetic current rho fail_closed final =
     rbind (first_bad (ampere_bad C electric magnetic current) [0..<final - 1]) (\<lambda>ampere.
     rbind (first_bad (faraday_bad C electric magnetic) [0..<final]) (\<lambda>faraday.
     rbind (first_bad (codifferential_bad C magnetic) [0..<final + 1]) (\<lambda>codifferential.
     rbind (case rho of None \<Rightarrow> Inr (None, [])
            | Some r \<Rightarrow> rbind (verify_gauss electric current r final) (\<lambda>(g, fs). Inr (Some g, fs))) (\<lambda>(gauss, gauss_failures).
     rbind (rmap (quadratic_form electric magnetic) [0..<final]) (\<lambda>forms.
     rbind (first_bad (balance_bad electric forms current) [0..<final - 1]) (\<lambda>balance.
     let zero_current = list_all (\<lambda>n. list_all (\<lambda>x. x = 0) (current ! n)) [0..<final - 1];
         drift = (if zero_current then Some (list_all (\<lambda>v. v = forms ! 0) forms) else None);
         failures = failed_at AMPERE ampere @ failed_at FARADAY faraday @ failed_at CODIFFERENTIAL codifferential @
           gauss_failures @ failed_at BALANCE balance @ (if drift = Some False then [DRIFT] else [])
     in require (\<not> (fail_closed \<and> failures \<noteq> []))
       (Inr \<lparr>tr_steps = final, ampere_exact = (ampere = None), faraday_exact = (faraday = None),
         codifferential_zero = (codifferential = None), tr_gauss = gauss, balance_exact = (balance = None),
         source_free = zero_current, drift_zero = drift, initial_form = forms ! 0,
         final_form = forms ! (length forms - 1), tr_failures = failures\<rparr>)))))))"

definition verify_history ::
  "matrix \<Rightarrow> history \<Rightarrow> history \<Rightarrow> history \<Rightarrow> history option \<Rightarrow> bool \<Rightarrow> temporal_receipts res" where
  "verify_history C a phi current rho fail_closed =
     (let final = length a - 1 in
      require (1 \<le> final) (require (final \<le> length phi) (require (final - 1 \<le> length current)
        (rbind (rmap (electric_field a phi) [0..<final]) (\<lambda>electric.
         rbind (rmap (magnetic_field C a) [0..<final + 1]) (\<lambda>magnetic.
         field_receipts C electric magnetic current rho fail_closed final))))))"

record evolution =
  ev_potential :: history
  ev_receipts :: "temporal_receipts option"

definition evolve ::
  "matrix \<Rightarrow> vec \<Rightarrow> vec \<Rightarrow> history \<Rightarrow> history \<Rightarrow> int \<Rightarrow> history option \<Rightarrow> bool \<Rightarrow> evolution res" where
  "evolve C a0 a1 phi current steps rho verify =
     require (1 \<le> steps) (require (steps \<le> int (length phi)) (require (max (steps - 1) 0 \<le> int (length current))
     (require (length a0 = seams) (require (length a1 = seams)
     (rbind (evolve_loop C phi current (nat (steps - 1)) 0 [a0, a1]) (\<lambda>a.
      if verify then rbind (verify_history C a phi current rho True) (\<lambda>r. Inr \<lparr>ev_potential = a, ev_receipts = Some r\<rparr>)
      else Inr \<lparr>ev_potential = a, ev_receipts = None\<rparr>))))))"

section \<open>Gauge transformations and the wave recursion\<close>

definition gauge_transform :: "history \<Rightarrow> history \<Rightarrow> history \<Rightarrow> (history \<times> history) res" where
  "gauge_transform a phi chi = require (length a \<le> length chi)
     (rbind (rmap (\<lambda>n. rbind (coboundary (chi ! n)) (zip_with (+) (a ! n))) [0..<length a]) (\<lambda>a_new.
      rbind (rmap (\<lambda>n. rmap (\<lambda>p. rbind (item (phi ! n) p) (\<lambda>x. rbind (item chi (n + 1)) (\<lambda>next. rbind (item next p) (\<lambda>y.
          rbind (item chi n) (\<lambda>now. rbind (item now p) (\<lambda>z. Inr (x - (y - z))))))))  [0..<ports]) [0..<length phi]) (\<lambda>phi_new.
      Inr (a_new, phi_new))))"

definition moved :: "(nat \<Rightarrow> 'a res) \<Rightarrow> (nat \<Rightarrow> 'a res) \<Rightarrow> nat \<Rightarrow> bool res" where
  "moved f g n = rbind (f n) (\<lambda>x. rbind (g n) (\<lambda>y. Inr (x \<noteq> y)))"

definition gauge_invariance_receipt :: "matrix \<Rightarrow> history \<Rightarrow> history \<Rightarrow> history \<Rightarrow> history \<Rightarrow> nat res" where
  "gauge_invariance_receipt C a phi current chi = rbind (gauge_transform a phi chi) (\<lambda>(a_new, phi_new).
     let final = length a - 1 in
     rbind (rmap (moved (electric_field a_new phi_new) (electric_field a phi)) [0..<final]) (\<lambda>e_moves.
     rbind (rmap (moved (magnetic_field C a_new) (magnetic_field C a)) [0..<final + 1]) (\<lambda>b_moves.
     rbind (rmap (moved (field_energy C a_new phi_new) (field_energy C a phi)) [0..<final - 1]) (\<lambda>f_moves.
     rbind (verify_history C a phi current None False) (\<lambda>original.
     rbind (verify_history C a_new phi_new current None False) (\<lambda>transformed.
     require (\<not> list_ex id (e_moves @ b_moves @ f_moves) \<and> ampere_exact original = ampere_exact transformed)
       (Inr final)))))))"

definition wave_bad :: "matrix \<Rightarrow> history \<Rightarrow> history \<Rightarrow> nat \<Rightarrow> bool res" where
  "wave_bad C a phi n = rbind (local_maxwell_operator C (a ! (n + 1))) (\<lambda>kinetic.
     rbind (item phi (n + 1)) (\<lambda>p1. rbind (item phi n) (\<lambda>p0.
     rbind (rmap (\<lambda>p. rbind (item p1 p) (\<lambda>x. rbind (item p0 p) (\<lambda>y. Inr (x - y)))) [0..<ports]) (\<lambda>rise.
     rbind (coboundary rise) (\<lambda>gradient.
     rbind (rmap (\<lambda>e. rbind (item (a ! (n + 2)) e) (\<lambda>x. rbind (item (a ! n) e) (\<lambda>z.
         Inr (x - 2 * a ! (n + 1) ! e + z + kinetic ! e + gradient ! e)))) [0..<seams]) (\<lambda>residual.
     Inr (list_ex (\<lambda>x. x \<noteq> 0) residual)))))))"

definition wave_recursion_receipt :: "matrix \<Rightarrow> history \<Rightarrow> history \<Rightarrow> int res" where
  "wave_recursion_receipt C a phi = rbind (first_bad (wave_bad C a phi) [0..<length a - 1 - 1]) (\<lambda>r.
     require (r = None) (Inr (int (length a) - 2)))"

end
