(* ===== verification/Em_Leapfrog.thy ===== *)
theory Em_Leapfrog
  imports Em_Temporal Em_Complex
begin

text \<open>
  Correctness of the leapfrog lane: on vectors of the right length every operation returns, the
  evolution solves its recursion, and the laws of \<open>chain_complex\<close> make every receipt hold.
\<close>

section \<open>Fields of well-formed histories\<close>

definition arity :: "nat \<Rightarrow> nat \<Rightarrow> history \<Rightarrow> bool" where
  "arity n m h \<longleftrightarrow> n \<le> length h \<and> (\<forall>i < n. length (h ! i) = m)"

definition closed_faces :: "matrix \<Rightarrow> bool" where
  "closed_faces C \<longleftrightarrow> matrix_fits C \<and> chain_complex ports seams faces port_incidence (entry_of C)"

abbreviation grad :: "vec \<Rightarrow> nat \<Rightarrow> rat" where
  "grad phi \<equiv> mat_vec ports port_incidence ((!) phi)"

abbreviation div_at :: "(nat \<Rightarrow> rat) \<Rightarrow> nat \<Rightarrow> rat" where
  "div_at \<equiv> mat_vec_t seams port_incidence"

definition el_at :: "history \<Rightarrow> history \<Rightarrow> nat \<Rightarrow> nat \<Rightarrow> rat" where
  "el_at a phi n e = - (a ! (n + 1) ! e - a ! n ! e) - grad (phi ! n) e"

definition mag_at :: "matrix \<Rightarrow> history \<Rightarrow> nat \<Rightarrow> nat \<Rightarrow> rat" where
  "mag_at C a n f = mat_vec seams (entry_of C) ((!) (a ! n)) f"

definition electric_of :: "history \<Rightarrow> history \<Rightarrow> nat \<Rightarrow> vec" where
  "electric_of a phi n = map (el_at a phi n) [0..<seams]"

definition magnetic_of :: "matrix \<Rightarrow> history \<Rightarrow> nat \<Rightarrow> vec" where
  "magnetic_of C a n = map (mag_at C a n) [0..<faces]"

lemma arityD: "arity n m h \<Longrightarrow> i < n \<Longrightarrow> item h i = Inr (h ! i) \<and> length (h ! i) = m"
  by (simp add: arity_def item_def)

lemma electric_field_eq:
  assumes "arity (n + 2) seams a" "arity (n + 1) ports phi"
  shows "electric_field a phi n = Inr (electric_of a phi n)"
proof -
  have a: "item a n = Inr (a ! n)" "item a (n + 1) = Inr (a ! (n + 1))" "length (a ! n) = seams" "length (a ! (n + 1)) = seams"
    using arityD [OF assms(1), of n] arityD [OF assms(1), of "n + 1"] by auto
  have p: "item phi n = Inr (phi ! n)" "length (phi ! n) = ports" using arityD [OF assms(2), of n] by auto
  have "map2 (\<lambda>dx gx. - dx - gx) (map2 (-) (a ! (n + 1)) (a ! n)) (map (grad (phi ! n)) [0..<seams]) = electric_of a phi n"
    using a(3,4) by (intro nth_equalityI) (auto simp: electric_of_def el_at_def)
  then show ?thesis using a p by (simp add: electric_field_def zip_with_def require_def coboundary_eq)
qed

lemma magnetic_field_eq:
  assumes "arity (n + 1) seams a" "matrix_fits C"
  shows "magnetic_field C a n = Inr (magnetic_of C a n)"
  using arityD [OF assms(1), of n] assms(2)
  by (simp add: magnetic_field_def face_curvature_eq magnetic_of_def mag_at_def [abs_def])

lemma electric_length [simp]: "length (electric_of a phi n) = seams"
  by (simp add: electric_of_def)

lemma magnetic_length [simp]: "length (magnetic_of C a n) = faces"
  by (simp add: magnetic_of_def)

lemma electric_nth [simp]: "e < seams \<Longrightarrow> electric_of a phi n ! e = el_at a phi n e"
  by (simp add: electric_of_def)

lemma magnetic_nth [simp]: "f < faces \<Longrightarrow> magnetic_of C a n ! f = mag_at C a n f"
  by (simp add: magnetic_of_def)

section \<open>The evolution solves the recursion\<close>

definition cocurl :: "matrix \<Rightarrow> (nat \<Rightarrow> rat) \<Rightarrow> nat \<Rightarrow> rat" where
  "cocurl C b e = mat_vec_t faces (entry_of C) b e"

definition solves :: "matrix \<Rightarrow> history \<Rightarrow> history \<Rightarrow> history \<Rightarrow> nat \<Rightarrow> bool" where
  "solves C phi current a n \<longleftrightarrow> (\<forall>e < seams. a ! (n + 2) ! e = 2 * a ! (n + 1) ! e - a ! n ! e -
     cocurl C (mag_at C a (n + 1)) e + current ! n ! e + mat_vec ports port_incidence (\<lambda>p. phi ! n ! p - phi ! (n + 1) ! p) e)"

lemma rmap_items:
  assumes "length j = n"
  shows "rmap (\<lambda>e. rbind (item j e) (\<lambda>x. Inr (g e x))) [0..<n] = Inr (map (\<lambda>e. g e (j ! e)) [0..<n])"
  by (rule rmap_Inr_map) (simp add: item_def assms)

lemma local_maxwell_eq:
  assumes "length (a ! n) = seams" "matrix_fits C"
  shows "local_maxwell_operator C (a ! n) = Inr (map (cocurl C (mag_at C a n)) [0..<seams])"
proof -
  have "mat_vec_t faces (entry_of C) ((!) (map (mag_at C a n) [0..<faces])) = cocurl C (mag_at C a n)"
    by (rule ext) (auto simp: cocurl_def intro!: mat_vec_t_cong)
  then show ?thesis
    using assms by (simp add: local_maxwell_operator_def face_curvature_eq face_codifferential_eq mag_at_def [abs_def])
qed

lemma next_potential_eq:
  assumes "arity (n + 2) seams a" "arity (n + 2) ports phi" "arity (n + 1) seams current" "matrix_fits C"
  shows "next_potential C phi current a n = Inr (map (\<lambda>e. 2 * a ! (n + 1) ! e - a ! n ! e -
     cocurl C (mag_at C a (n + 1)) e + current ! n ! e + mat_vec ports port_incidence (\<lambda>p. phi ! n ! p - phi ! (n + 1) ! p) e)
     [0..<seams])"
proof -
  note a = arityD [OF assms(1), of n] arityD [OF assms(1), of "n + 1"]
  note p = arityD [OF assms(2), of n] arityD [OF assms(2), of "n + 1"]
  note j = arityD [OF assms(3), of n]
  have k: "local_maxwell_operator C (a ! (n + 1)) = Inr (map (cocurl C (mag_at C a (n + 1))) [0..<seams])"
    using a assms(4) by (intro local_maxwell_eq) simp_all
  let ?d = "map2 (-) (phi ! n) (phi ! (n + 1))"
  have g: "coboundary ?d = Inr (map (mat_vec ports port_incidence (\<lambda>p. phi ! n ! p - phi ! (n + 1) ! p)) [0..<seams])"
  proof -
    have "mat_vec ports port_incidence ((!) ?d) = mat_vec ports port_incidence (\<lambda>p. phi ! n ! p - phi ! (n + 1) ! p)"
      using p by (intro ext mat_vec_cong) simp
    then show ?thesis using p by (simp add: coboundary_eq)
  qed
  show ?thesis
    unfolding next_potential_def using a p j
    by (simp add: k [simplified] zip_with_def require_def g [simplified] rmap_items)
qed

lemma evolve_loop_result:
  assumes "length a = n + 2" "\<forall>v \<in> set a. length v = seams" "arity (n + k + 1) ports phi" "arity (n + k) seams current"
    "matrix_fits C"
  shows "\<exists>a'. evolve_loop C phi current k n a = Inr a' \<and> length a' = n + k + 2 \<and> (\<forall>v \<in> set a'. length v = seams) \<and>
    take (n + 2) a' = a \<and> (\<forall>i. n \<le> i \<and> i < n + k \<longrightarrow> solves C phi current a' i)"
  using assms(1-4)
proof (induction k arbitrary: n a)
  case (Suc k)
  have ar: "arity (n + 2) seams a" using Suc.prems(1,2) by (simp add: arity_def)
  have ph: "arity (n + 2) ports phi" using Suc.prems(3) by (simp add: arity_def)
  have cu: "arity (n + 1) seams current" using Suc.prems(4) by (simp add: arity_def)
  obtain x where x: "next_potential C phi current a n = Inr x" "length x = seams"
    "\<And>e. e < seams \<Longrightarrow> x ! e = 2 * a ! (n + 1) ! e - a ! n ! e - cocurl C (mag_at C a (n + 1)) e + current ! n ! e +
       mat_vec ports port_incidence (\<lambda>p. phi ! n ! p - phi ! (n + 1) ! p) e"
    using next_potential_eq [OF ar ph cu assms(5)] by simp
  have "length (a @ [x]) = Suc n + 2" "\<forall>v \<in> set (a @ [x]). length v = seams" "arity (Suc n + k + 1) ports phi" "arity (Suc n + k) seams current"
    using Suc.prems x(2) by auto
  from Suc.IH [OF this] obtain a' where a': "evolve_loop C phi current k (Suc n) (a @ [x]) = Inr a'" "length a' = Suc n + k + 2"
    "\<forall>v \<in> set a'. length v = seams" "take (Suc n + 2) a' = a @ [x]" "\<forall>i. Suc n \<le> i \<and> i < Suc n + k \<longrightarrow> solves C phi current a' i"
    by blast
  have nth: "a' ! i = (a @ [x]) ! i" if "i < n + 3" for i using a'(4) that by (metis add_Suc_right add_Suc nth_take numeral_3_eq_3 numeral_2_eq_2)
  have at: "a' ! (n + 2) = x" "a' ! (n + 1) = a ! (n + 1)" "a' ! n = a ! n"
    using nth [of "n + 2"] nth [of "n + 1"] nth [of n] Suc.prems(1) by (simp_all add: nth_append)
  have "solves C phi current a' n"
    unfolding solves_def mag_at_def at using x(3) by (simp add: mag_at_def [abs_def])
  then have "solves C phi current a' i" if "n \<le> i" "i < n + Suc k" for i
    using a'(5) that by (cases "i = n") auto
  moreover have "take (n + 2) a' = a"
  proof -
    have "take (n + 2) a' = take (n + 2) (take (Suc n + 2) a')" by (simp add: min_def)
    then show ?thesis unfolding a'(4) using Suc.prems(1) by simp
  qed
  ultimately show ?case using x(1) a' by simp
qed auto

section \<open>The receipts of a history\<close>

abbreviation electric_list :: "history \<Rightarrow> history \<Rightarrow> nat \<Rightarrow> history" where
  "electric_list a phi final \<equiv> map (electric_of a phi) [0..<final]"

abbreviation magnetic_list :: "matrix \<Rightarrow> history \<Rightarrow> nat \<Rightarrow> history" where
  "magnetic_list C a final \<equiv> map (magnetic_of C a) [0..<final + 1]"

lemma verify_history_eq:
  assumes "length a = final + 1" "arity (final + 1) seams a" "arity final ports phi" "final - 1 \<le> length current" "1 \<le> final"
    and "matrix_fits C"
  shows "verify_history C a phi current rho fc =
    field_receipts C (electric_list a phi final) (magnetic_list C a final) current rho fc final"
proof -
  have e: "rmap (electric_field a phi) [0..<final] = Inr (electric_list a phi final)"
    using assms(2,3) by (intro rmap_Inr_map electric_field_eq) (auto simp: arity_def)
  have m: "rmap (magnetic_field C a) [0..<final + 1] = Inr (magnetic_list C a final)"
    using assms(2,6) by (intro rmap_Inr_map magnetic_field_eq) (auto simp: arity_def)
  have "final \<le> length phi" using assms(3) by (simp add: arity_def)
  then show ?thesis
    using assms(1,4,5) e m by (simp add: verify_history_def Let_def require_def del: upt_Suc)
qed

lemma first_bad_None: "(\<And>n. n \<in> set ns \<Longrightarrow> bad n = Inr False) \<Longrightarrow> first_bad bad ns = Inr None"
  by (induction ns) auto

lemma first_bad_total: "(\<And>n. n \<in> set ns \<Longrightarrow> bad n = Inr (\<not> good n)) \<Longrightarrow>
    \<exists>r. first_bad bad ns = Inr r \<and> (r = None \<longleftrightarrow> (\<forall>n \<in> set ns. good n))"
  by (induction ns) auto

locale leapfrog_solution =
  fixes C :: matrix and a phi current :: history and final :: nat
  assumes closed: "closed_faces C" and steps: "1 \<le> final"
    and vectors: "length a = final + 1" "arity (final + 1) seams a" "arity final ports phi" "arity (final - 1) seams current"
    and solution: "n < final - 1 \<Longrightarrow> solves C phi current a n"
begin

lemma fits: "matrix_fits C" and law: "chain_complex ports seams faces port_incidence (entry_of C)"
  using closed by (simp_all add: closed_faces_def)

lemma ampere_at: "n < final - 1 \<Longrightarrow> e < seams \<Longrightarrow>
    el_at a phi (n + 1) e - el_at a phi n e - cocurl C (mag_at C a (n + 1)) e + current ! n ! e = 0"
  using solution [of n] unfolding solves_def el_at_def mat_vec_diff by simp

lemma faraday_at: "f < faces \<Longrightarrow> mag_at C a (n + 1) f - mag_at C a n f = - mat_vec seams (entry_of C) (el_at a phi n) f"
  unfolding mag_at_def by (rule chain_complex.faraday [OF law]) (simp add: el_at_def)

lemma gauss_at: "n < final - 1 \<Longrightarrow> p < ports \<Longrightarrow>
    div_at (el_at a phi (n + 1)) p = div_at (el_at a phi n) p - div_at ((!) (current ! n)) p"
  by (rule chain_complex.gauss_step [OF law, of _ _ "mag_at C a (n + 1)"])
    (use ampere_at [of n] in \<open>auto simp: cocurl_def\<close>)

definition form_at :: "nat \<Rightarrow> rat" where
  "form_at n = 1 / 2 * (\<Sum>e<seams. el_at a phi n e * el_at a phi n e) + 1 / 2 * (\<Sum>f<faces. mag_at C a n f * mag_at C a (n + 1) f)"

lemma form_step: "n < final - 1 \<Longrightarrow>
    form_at (n + 1) = form_at n - 1 / 2 * (\<Sum>e<seams. (el_at a phi n e + el_at a phi (n + 1) e) * current ! n ! e)"
  unfolding form_at_def
  by (rule chain_complex.balance [OF law])
    (use ampere_at [of n] faraday_at [of _ n] faraday_at [of _ "n + 1"] in \<open>auto simp: cocurl_def\<close>)

lemma ampere_ok: "first_bad (ampere_bad C (electric_list a phi final) (magnetic_list C a final) current) [0..<final - 1] = Inr None"
proof (rule first_bad_None)
  fix n
  assume "n \<in> set [0..<final - 1]"
  then have n: "n < final - 1" "n + 1 < final" by auto
  note j = arityD [OF vectors(4) n(1)]
  have c: "face_codifferential C (magnetic_of C a (n + 1)) = Inr (map (cocurl C (mag_at C a (n + 1))) [0..<seams])"
  proof -
    have "mat_vec_t faces (entry_of C) ((!) (magnetic_of C a (n + 1))) = cocurl C (mag_at C a (n + 1))"
      by (rule ext) (auto simp: cocurl_def intro!: mat_vec_t_cong)
    then show ?thesis using fits by (simp add: face_codifferential_eq)
  qed
  have m: "magnetic_list C a final ! (n + 1) = magnetic_of C a (n + 1)" "electric_list a phi final ! (n + 1) = electric_of a phi (n + 1)"
    "electric_list a phi final ! n = electric_of a phi n" using n by (simp_all del: upt_Suc)
  have "list_ex (\<lambda>x. x \<noteq> 0) (map (\<lambda>e. electric_of a phi (n + 1) ! e - electric_of a phi n ! e -
      map (cocurl C (mag_at C a (n + 1))) [0..<seams] ! e + current ! n ! e) [0..<seams]) \<longleftrightarrow> False"
    using ampere_at [OF n(1)] by (auto simp: list_ex_iff)
  then show "ampere_bad C (electric_list a phi final) (magnetic_list C a final) current n = Inr False"
    unfolding ampere_bad_def m c using j by (simp only: rbind_Inr rmap_items)
qed

lemma faraday_ok: "first_bad (faraday_bad C (electric_list a phi final) (magnetic_list C a final)) [0..<final] = Inr None"
proof (rule first_bad_None)
  fix n
  assume "n \<in> set [0..<final]"
  then have n: "n < final" by auto
  have c: "face_curvature C (electric_of a phi n) = Inr (map (mat_vec seams (entry_of C) (el_at a phi n)) [0..<faces])"
  proof -
    have "mat_vec seams (entry_of C) ((!) (electric_of a phi n)) = mat_vec seams (entry_of C) (el_at a phi n)"
      by (intro ext mat_vec_cong) simp
    then show ?thesis using fits by (simp add: face_curvature_eq)
  qed
  have m: "magnetic_list C a final ! (n + 1) = magnetic_of C a (n + 1)" "magnetic_list C a final ! n = magnetic_of C a n"
    "electric_list a phi final ! n = electric_of a phi n" using n by (simp_all del: upt_Suc)
  have "list_ex (\<lambda>f. magnetic_of C a (n + 1) ! f - magnetic_of C a n ! f \<noteq>
      - (map (mat_vec seams (entry_of C) (el_at a phi n)) [0..<faces] ! f)) [0..<faces] \<longleftrightarrow> False"
    using faraday_at [of _ n] by (auto simp: list_ex_iff)
  then show "faraday_bad C (electric_list a phi final) (magnetic_list C a final) n = Inr False"
    unfolding faraday_bad_def m c by (simp only: rbind_Inr)
qed

lemma codifferential_ok: "first_bad (codifferential_bad C (magnetic_list C a final)) [0..<final + 1] = Inr None"
proof (rule first_bad_None)
  fix n
  assume "n \<in> set [0..<final + 1]"
  then have n: "n < final + 1" by auto
  have c: "face_codifferential C (magnetic_of C a n) = Inr (map (mat_vec_t faces (entry_of C) ((!) (magnetic_of C a n))) [0..<seams])"
    using fits by (simp add: face_codifferential_eq)
  have b: "boundary (map (mat_vec_t faces (entry_of C) ((!) (magnetic_of C a n))) [0..<seams]) = Inr (map (\<lambda>p. 0) [0..<ports])"
  proof -
    have "map (mat_vec_t seams port_incidence ((!) (map (mat_vec_t faces (entry_of C) ((!) (magnetic_of C a n))) [0..<seams]))) [0..<ports] =
        map (mat_vec_t seams port_incidence (mat_vec_t faces (entry_of C) ((!) (magnetic_of C a n)))) [0..<ports]"
      by (auto intro!: mat_vec_t_cong)
    also have "\<dots> = map (\<lambda>p. 0) [0..<ports]" using chain_complex.div_cocurl [OF law] by simp
    finally show ?thesis by (simp add: boundary_eq)
  qed
  have m: "magnetic_list C a final ! n = magnetic_of C a n" using n by (simp del: upt_Suc)
  show "codifferential_bad C (magnetic_list C a final) n = Inr False"
    unfolding codifferential_bad_def m c rbind_Inr b by (simp add: list_ex_iff)
qed

lemma forms_eq: "rmap (quadratic_form (electric_list a phi final) (magnetic_list C a final)) [0..<final] = Inr (map form_at [0..<final])"
proof (rule rmap_Inr_map)
  fix n
  assume "n \<in> set [0..<final]"
  then have n: "n < final" by auto
  have m: "magnetic_list C a final ! (n + 1) = magnetic_of C a (n + 1)" "magnetic_list C a final ! n = magnetic_of C a n"
    "electric_list a phi final ! n = electric_of a phi n" using n by (simp_all del: upt_Suc)
  have u: "(\<Sum>e<seams. electric_of a phi n ! e * electric_of a phi n ! e) = (\<Sum>e<seams. el_at a phi n e * el_at a phi n e)"
    by (rule sum.cong) simp_all
  have v: "(\<Sum>f<faces. magnetic_of C a n ! f * magnetic_of C a (n + 1) ! f) = (\<Sum>f<faces. mag_at C a n f * mag_at C a (n + 1) f)"
    by (rule sum.cong) (simp_all only: lessThan_iff magnetic_nth)
  show "quadratic_form (electric_list a phi final) (magnetic_list C a final) n = Inr (form_at n)"
    unfolding quadratic_form_def m seam_energy_def seam_inner_def face_inner_def
      inner_product_eq [OF electric_length electric_length] inner_product_eq [OF magnetic_length magnetic_length] rbind_Inr form_at_def
      u v ..
qed

lemma balance_ok: "first_bad (balance_bad (electric_list a phi final) (map form_at [0..<final]) current) [0..<final - 1] = Inr None"
proof (rule first_bad_None)
  fix n
  assume "n \<in> set [0..<final - 1]"
  then have n: "n < final - 1" "n + 1 < final" "n < final" by auto
  have m: "electric_list a phi final ! (n + 1) = electric_of a phi (n + 1)" "electric_list a phi final ! n = electric_of a phi n"
    "map form_at [0..<final] ! (n + 1) = form_at (n + 1)" "map form_at [0..<final] ! n = form_at n"
    using n by (simp_all del: upt_Suc)
  have w: "seam_inner (map (\<lambda>e. electric_of a phi n ! e + electric_of a phi (n + 1) ! e) [0..<seams]) (current ! n) =
      Inr (\<Sum>e<seams. (el_at a phi n e + el_at a phi (n + 1) e) * current ! n ! e)"
    using arityD [OF vectors(4) n(1)] by (simp add: seam_inner_def inner_product_eq)
  show "balance_bad (electric_list a phi final) (map form_at [0..<final]) current n = Inr False"
    unfolding balance_bad_def m w rbind_Inr form_step [OF n(1)] by simp
qed

lemma drift_ok:
  assumes "list_all (\<lambda>n. list_all (\<lambda>x. x = 0) (current ! n)) [0..<final - 1]"
  shows "list_all (\<lambda>v. v = map form_at [0..<final] ! 0) (map form_at [0..<final])"
proof -
  have same: "form_at n = form_at 0" if "n < final" for n
    using that
  proof (induction n)
    case (Suc n)
    then have n: "n < final - 1" by simp
    have "current ! n ! e = 0" if "e < seams" for e
      using assms n that arityD [OF vectors(4) n] by (auto simp: list_all_iff)
    then show ?case using form_step [OF n] Suc by simp
  qed simp
  have zero: "map form_at [0..<final] ! 0 = form_at 0" using steps by simp
  show ?thesis
    unfolding zero list_all_iff
  proof
    fix v
    assume "v \<in> set (map form_at [0..<final])"
    then obtain n where "n < final" "v = form_at n" by auto
    then show "v = form_at 0" using same by metis
  qed
qed

text \<open>Without declared loads every receipt of a solution holds.\<close>

lemma receipts_without_load:
  "\<exists>r. field_receipts C (electric_list a phi final) (magnetic_list C a final) current None fc final = Inr r \<and>
     ampere_exact r \<and> faraday_exact r \<and> codifferential_zero r \<and> balance_exact r \<and> drift_zero r \<noteq> Some False \<and> tr_failures r = []"
  unfolding field_receipts_def ampere_ok faraday_ok codifferential_ok forms_eq rbind_Inr balance_ok
  using drift_ok by (simp add: require_def failed_at_def Let_def del: upt_Suc)

end

section \<open>Gauss's law\<close>

definition gauss_holds :: "history \<Rightarrow> history \<Rightarrow> history \<Rightarrow> nat \<Rightarrow> bool" where
  "gauss_holds a phi rho n \<longleftrightarrow> (\<forall>p < ports. div_at (el_at a phi n) p = rho ! n ! p)"

definition continuous_at :: "history \<Rightarrow> history \<Rightarrow> nat \<Rightarrow> bool" where
  "continuous_at current rho n \<longleftrightarrow> (\<forall>p < ports. rho ! (n + 1) ! p - rho ! n ! p + div_at ((!) (current ! n)) p = 0)"

context leapfrog_solution
begin

lemma gauss_iff_continuous:
  assumes "n < final - 1" "gauss_holds a phi rho n"
  shows "gauss_holds a phi rho (n + 1) \<longleftrightarrow> continuous_at current rho n"
proof -
  have "div_at (el_at a phi (n + 1)) p = rho ! (n + 1) ! p \<longleftrightarrow>
      rho ! (n + 1) ! p - rho ! n ! p + div_at ((!) (current ! n)) p = 0" if "p < ports" for p
    using gauss_at [OF assms(1) that] assms(2) that unfolding gauss_holds_def by auto
  then show ?thesis unfolding gauss_holds_def continuous_at_def by blast
qed

lemma gauss_everywhere:
  assumes "gauss_holds a phi rho 0" "\<And>n. n < final - 1 \<Longrightarrow> continuous_at current rho n" "n < final"
  shows "gauss_holds a phi rho n"
  using assms(3)
proof (induction n)
  case (Suc n)
  then show ?case using gauss_iff_continuous [of n rho] assms(2) [of n] by simp
qed (rule assms(1))

lemma gauss_flags_eq:
  assumes "arity final ports rho"
  shows "rmap (gauss_flag (electric_list a phi final) rho) [0..<final] = Inr (map (gauss_holds a phi rho) [0..<final])"
proof (rule rmap_Inr_map)
  fix n
  assume "n \<in> set [0..<final]"
  then have n: "n < final" by simp
  have m: "electric_list a phi final ! n = electric_of a phi n" using n by simp
  have "mat_vec_t seams port_incidence ((!) (electric_of a phi n)) = div_at (el_at a phi n)"
    by (intro ext mat_vec_t_cong) simp
  then have b: "boundary (electric_of a phi n) = Inr (map (div_at (el_at a phi n)) [0..<ports])" by (simp add: boundary_eq)
  have "length (rho ! n) = ports" using arityD [OF assms n] by simp
  then have "map (div_at (el_at a phi n)) [0..<ports] = rho ! n \<longleftrightarrow> gauss_holds a phi rho n"
    unfolding gauss_holds_def list_eq_iff_nth_eq by simp
  then show "gauss_flag (electric_list a phi final) rho n = Inr (gauss_holds a phi rho n)"
    unfolding gauss_flag_def m b by simp
qed

lemma continuity_flags_eq:
  assumes "arity final ports rho"
  shows "rmap (continuity_flag current rho) [0..<final - 1] = Inr (map (continuous_at current rho) [0..<final - 1])"
proof (rule rmap_Inr_map)
  fix n
  assume "n \<in> set [0..<final - 1]"
  then have n: "n < final - 1" "n < final" "n + 1 < final" by auto
  have b: "boundary (current ! n) = Inr (map (div_at ((!) (current ! n))) [0..<ports])"
    using arityD [OF vectors(4) n(1)] by (simp add: boundary_eq)
  have "continuity_bad current rho n p = Inr (\<not> (rho ! (n + 1) ! p - rho ! n ! p + div_at ((!) (current ! n)) p = 0))"
    if "p \<in> set [0..<ports]" for p
    unfolding continuity_bad_def b
    using that arityD [OF assms n(2)] arityD [OF assms n(3)] by (simp add: item_def)
  from first_bad_total [of _ "continuity_bad current rho n", OF this]
  obtain r where "first_bad (continuity_bad current rho n) [0..<ports] = Inr r"
    "r = None \<longleftrightarrow> (\<forall>p \<in> set [0..<ports]. rho ! (n + 1) ! p - rho ! n ! p + div_at ((!) (current ! n)) p = 0)" by blast
  then show "continuity_flag current rho n = Inr (continuous_at current rho n)"
    by (auto simp: continuity_flag_def continuous_at_def)
qed

lemma gauss_verdict:
  assumes "arity final ports rho"
  shows "\<exists>g fs. verify_gauss (electric_list a phi final) current rho final = Inr (g, fs) \<and>
    (fs = [] \<longleftrightarrow> gauss_holds a phi rho 0 \<and> (\<forall>n < final - 1. continuous_at current rho n)) \<and>
    (fs = [] \<longrightarrow> gauss_initial g \<and> gauss_propagated g \<and> continuity_all g \<and> first_gauss_failure g = None) \<and> gauss_iff g"
proof -
  have zero: "map (gauss_holds a phi rho) [0..<final] ! 0 = gauss_holds a phi rho 0" using steps by simp
  have iff: "list_all (\<lambda>n. \<not> map (gauss_holds a phi rho) [0..<final] ! n \<or>
      map (gauss_holds a phi rho) [0..<final] ! (n + 1) = map (continuous_at current rho) [0..<final - 1] ! n) [0..<final - 1]"
    using gauss_iff_continuous by (auto simp: list_all_iff)
  have cont: "list_all id (map (continuous_at current rho) [0..<final - 1]) \<longleftrightarrow> (\<forall>n < final - 1. continuous_at current rho n)"
    by (auto simp: list_all_iff)
  have propg: "list_all id (map (gauss_holds a phi rho) [0..<final]) \<longleftrightarrow> (\<forall>n < final. gauss_holds a phi rho n)"
    by (auto simp: list_all_iff)
  have all: "\<forall>n < final. gauss_holds a phi rho n"
    if "gauss_holds a phi rho 0" "\<forall>n < final - 1. continuous_at current rho n"
    using that gauss_everywhere by blast
  have none: "find (\<lambda>n. \<not> map (gauss_holds a phi rho) [0..<final] ! n) [0..<final] = None"
    if "\<forall>n < final. gauss_holds a phi rho n"
    using that by (auto simp: find_None_iff)
  have len: "final \<le> length rho" using assms by (simp add: arity_def)
  show ?thesis
    unfolding verify_gauss_def gauss_flags_eq [OF assms] continuity_flags_eq [OF assms] rbind_Inr Let_def zero cont propg
    using iff len all none by (auto simp: require_def)
qed

lemma receipts_with_load:
  assumes "arity final ports rho"
  shows "\<exists>r. field_receipts C (electric_list a phi final) (magnetic_list C a final) current (Some rho) False final = Inr r \<and>
     field_receipts C (electric_list a phi final) (magnetic_list C a final) current (Some rho) True final =
       (if tr_failures r = [] then Inr r else Inl ValueError) \<and>
     (tr_failures r = [] \<longleftrightarrow> gauss_holds a phi rho 0 \<and> (\<forall>n < final - 1. continuous_at current rho n)) \<and>
     (tr_failures r = [] \<longrightarrow> (\<exists>g. tr_gauss r = Some g \<and> gauss_propagated g \<and> first_gauss_failure g = None))"
proof -
  obtain g fs where g: "verify_gauss (electric_list a phi final) current rho final = Inr (g, fs)"
    "fs = [] \<longleftrightarrow> gauss_holds a phi rho 0 \<and> (\<forall>n < final - 1. continuous_at current rho n)"
    "fs = [] \<longrightarrow> gauss_initial g \<and> gauss_propagated g \<and> continuity_all g \<and> first_gauss_failure g = None"
    using gauss_verdict [OF assms] by blast
  show ?thesis
    unfolding field_receipts_def ampere_ok faraday_ok codifferential_ok forms_eq rbind_Inr balance_ok option.case g(1) prod.case
    using drift_ok g(2,3) by (simp add: require_def failed_at_def Let_def del: upt_Suc)
qed

end

section \<open>Gauge transformations\<close>

definition gauged_potential :: "history \<Rightarrow> history \<Rightarrow> history" where
  "gauged_potential a chi = map (\<lambda>n. map (\<lambda>e. a ! n ! e + grad (chi ! n) e) [0..<seams]) [0..<length a]"

definition gauged_scalar :: "history \<Rightarrow> history \<Rightarrow> history" where
  "gauged_scalar phi chi = map (\<lambda>n. map (\<lambda>p. phi ! n ! p - (chi ! (n + 1) ! p - chi ! n ! p)) [0..<ports]) [0..<length phi]"

lemma gauge_transform_eq:
  assumes "arity (length a) seams a" "arity (length phi) ports phi" "arity (length a) ports chi" "length phi < length a"
  shows "gauge_transform a phi chi = Inr (gauged_potential a chi, gauged_scalar phi chi)"
proof -
  have pot: "rmap (\<lambda>n. rbind (coboundary (chi ! n)) (zip_with (+) (a ! n))) [0..<length a] = Inr (gauged_potential a chi)"
    unfolding gauged_potential_def
  proof (rule rmap_Inr_map)
    fix n
    assume "n \<in> set [0..<length a]"
    then have n: "length (a ! n) = seams" "length (chi ! n) = ports" using assms(1,3) by (auto simp: arity_def)
    have "map2 (+) (a ! n) (map (grad (chi ! n)) [0..<seams]) = map (\<lambda>e. a ! n ! e + grad (chi ! n) e) [0..<seams]"
      using n by (intro nth_equalityI) auto
    then show "rbind (coboundary (chi ! n)) (zip_with (+) (a ! n)) = Inr (map (\<lambda>e. a ! n ! e + grad (chi ! n) e) [0..<seams])"
      using n by (simp add: coboundary_eq zip_with_def require_def)
  qed
  have row: "rmap (\<lambda>p. rbind (item (phi ! n) p) (\<lambda>x. rbind (item chi (n + 1)) (\<lambda>next. rbind (item next p) (\<lambda>y.
          rbind (item chi n) (\<lambda>now. rbind (item now p) (\<lambda>z. Inr (x - (y - z)))))))) [0..<ports] =
      Inr (map (\<lambda>p. phi ! n ! p - (chi ! (n + 1) ! p - chi ! n ! p)) [0..<ports])" if "n < length phi" for n
  proof (rule rmap_Inr_map)
    fix p
    assume "p \<in> set [0..<ports]"
    then show "rbind (item (phi ! n) p) (\<lambda>x. rbind (item chi (n + 1)) (\<lambda>next. rbind (item next p) (\<lambda>y.
          rbind (item chi n) (\<lambda>now. rbind (item now p) (\<lambda>z. Inr (x - (y - z))))))) =
        Inr (phi ! n ! p - (chi ! (n + 1) ! p - chi ! n ! p))"
      using that assms(2,3,4) by (simp add: arity_def item_def)
  qed
  have scal: "rmap (\<lambda>n. rmap (\<lambda>p. rbind (item (phi ! n) p) (\<lambda>x. rbind (item chi (n + 1)) (\<lambda>next. rbind (item next p) (\<lambda>y.
          rbind (item chi n) (\<lambda>now. rbind (item now p) (\<lambda>z. Inr (x - (y - z)))))))) [0..<ports]) [0..<length phi] =
      Inr (gauged_scalar phi chi)"
    unfolding gauged_scalar_def by (rule rmap_Inr_map, rule row) simp
  have "length a \<le> length chi" using assms(3) by (simp add: arity_def)
  then show ?thesis unfolding gauge_transform_def pot scal by (simp add: require_def)
qed

lemma gauged_electric:
  assumes "n < length phi" "length phi < length a"
  shows "electric_of (gauged_potential a chi) (gauged_scalar phi chi) n = electric_of a phi n"
proof -
  have "el_at (gauged_potential a chi) (gauged_scalar phi chi) n e = el_at a phi n e" if "e < seams" for e
  proof -
    have "mat_vec ports port_incidence ((!) (gauged_scalar phi chi ! n)) e =
        mat_vec ports port_incidence (\<lambda>p. phi ! n ! p - (chi ! (n + 1) ! p - chi ! n ! p)) e"
      using assms by (intro mat_vec_cong) (simp add: gauged_scalar_def)
    moreover have "gauged_potential a chi ! n ! e = a ! n ! e + grad (chi ! n) e"
      "gauged_potential a chi ! (n + 1) ! e = a ! (n + 1) ! e + grad (chi ! (n + 1)) e"
      using assms that by (simp_all add: gauged_potential_def del: upt_Suc)
    ultimately show ?thesis unfolding el_at_def mat_vec_diff by simp
  qed
  then show ?thesis by (simp add: electric_of_def)
qed

lemma gauged_magnetic:
  assumes "n < length a" "closed_faces C"
  shows "magnetic_of C (gauged_potential a chi) n = magnetic_of C a n"
proof -
  note law = conjunct2 [OF assms(2) [unfolded closed_faces_def]]
  have "mag_at C (gauged_potential a chi) n f = mag_at C a n f" if "f < faces" for f
  proof -
    have "mag_at C (gauged_potential a chi) n f = mat_vec seams (entry_of C) (\<lambda>e. a ! n ! e + grad (chi ! n) e) f"
      unfolding mag_at_def using assms(1) by (intro mat_vec_cong) (simp add: gauged_potential_def)
    then show ?thesis unfolding mat_vec_add mag_at_def using chain_complex.curl_grad [OF law that] by simp
  qed
  then show ?thesis by (simp add: magnetic_of_def)
qed

lemma first_bad_returns: "(\<And>n. n \<in> set ns \<Longrightarrow> \<exists>b. bad n = Inr b) \<Longrightarrow> \<exists>r. first_bad bad ns = Inr r"
proof (induction ns)
  case (Cons n ns)
  then obtain b r where "bad n = Inr b" "first_bad bad ns = Inr r" by force
  then show ?case by simp
qed simp

lemma field_receipts_return:
  assumes "matrix_fits C" "arity (final - 1) seams current"
  shows "\<exists>r. field_receipts C (electric_list a phi final) (magnetic_list C a final) current None False final = Inr r"
proof -
  have e: "electric_list a phi final ! n = electric_of a phi n" if "n < final" for n using that by simp
  have m: "magnetic_list C a final ! n = magnetic_of C a n" if "n < final + 1" for n using that by (simp del: upt_Suc)
  note eqs = face_codifferential_eq [OF magnetic_length assms(1)] face_curvature_eq [OF electric_length assms(1)]
  have 1: "\<exists>r. first_bad (ampere_bad C (electric_list a phi final) (magnetic_list C a final) current) [0..<final - 1] = Inr r"
  proof (rule first_bad_returns)
    fix n
    assume "n \<in> set [0..<final - 1]"
    then have n: "n < final - 1" "n + 1 < final + 1" by auto
    show "\<exists>b. ampere_bad C (electric_list a phi final) (magnetic_list C a final) current n = Inr b"
      unfolding ampere_bad_def m [OF n(2)] eqs rbind_Inr
      using arityD [OF assms(2) n(1)] by (simp only: rbind_Inr rmap_items) blast
  qed
  have 2: "\<exists>r. first_bad (faraday_bad C (electric_list a phi final) (magnetic_list C a final)) [0..<final] = Inr r"
    by (rule first_bad_returns) (auto simp: faraday_bad_def e eqs)
  have 3: "\<exists>r. first_bad (codifferential_bad C (magnetic_list C a final)) [0..<final + 1] = Inr r"
  proof (rule first_bad_returns)
    fix n
    assume "n \<in> set [0..<final + 1]"
    then have n: "n < final + 1" by auto
    show "\<exists>b. codifferential_bad C (magnetic_list C a final) n = Inr b"
      unfolding codifferential_bad_def m [OF n] eqs rbind_Inr by (simp add: boundary_eq)
  qed
  have 4: "\<exists>fs. rmap (quadratic_form (electric_list a phi final) (magnetic_list C a final)) [0..<final] = Inr fs"
    unfolding rmap_Inr_iff quadratic_form_def
  proof
    fix n
    assume "n \<in> set [0..<final]"
    then have n: "n < final" "n < final + 1" "n + 1 < final + 1" by auto
    show "\<exists>y. rbind (seam_energy (electric_list a phi final ! n)) (\<lambda>u. rbind (face_inner (magnetic_list C a final ! n)
        (magnetic_list C a final ! (n + 1))) (\<lambda>v. Inr (1 / 2 * u + 1 / 2 * v))) = Inr y"
      unfolding e [OF n(1)] m [OF n(2)] m [OF n(3)] by (simp add: seam_energy_def seam_inner_def face_inner_def inner_product_eq)
  qed
  have 5: "\<exists>r. first_bad (balance_bad (electric_list a phi final) fs current) [0..<final - 1] = Inr r" for fs
  proof (rule first_bad_returns)
    fix n
    assume "n \<in> set [0..<final - 1]"
    then have n: "n < final - 1" by auto
    show "\<exists>b. balance_bad (electric_list a phi final) fs current n = Inr b"
      using arityD [OF assms(2) n] by (simp add: balance_bad_def seam_inner_def inner_product_eq)
  qed
  from 1 2 3 4 obtain r1 r2 r3 fs where
    "first_bad (ampere_bad C (electric_list a phi final) (magnetic_list C a final) current) [0..<final - 1] = Inr r1"
    "first_bad (faraday_bad C (electric_list a phi final) (magnetic_list C a final)) [0..<final] = Inr r2"
    "first_bad (codifferential_bad C (magnetic_list C a final)) [0..<final + 1] = Inr r3"
    "rmap (quadratic_form (electric_list a phi final) (magnetic_list C a final)) [0..<final] = Inr fs" by blast
  moreover obtain r5 where "first_bad (balance_bad (electric_list a phi final) fs current) [0..<final - 1] = Inr r5" using 5 by blast
  ultimately show ?thesis unfolding field_receipts_def by (simp only: rbind_Inr option.case prod.case Let_def require_def) simp
qed

lemma field_energy_eq:
  assumes "arity (n + 2) seams a" "arity (n + 1) ports phi" "matrix_fits C"
  shows "field_energy C a phi n = Inr (1 / 2 * (\<Sum>e<seams. electric_of a phi n ! e * electric_of a phi n ! e) +
    1 / 2 * (\<Sum>f<faces. magnetic_of C a n ! f * magnetic_of C a (n + 1) ! f))"
proof -
  have "arity (n + 1) seams a" "arity (n + 1 + 1) seams a" using assms(1) by (auto simp: arity_def)
  note b = magnetic_field_eq [OF this(1) assms(3)] magnetic_field_eq [OF this(2) assms(3)]
  show ?thesis
    unfolding field_energy_def electric_field_eq [OF assms(1,2)] b rbind_Inr seam_energy_def seam_inner_def face_inner_def
      inner_product_eq [OF electric_length electric_length] inner_product_eq [OF magnetic_length magnetic_length] ..
qed

lemma unmoved: "(\<And>n. n \<in> set ns \<Longrightarrow> f n = g n \<and> (\<exists>y. g n = Inr y)) \<Longrightarrow> rmap (moved f g) ns = Inr (map (\<lambda>n. False) ns)"
proof (rule rmap_Inr_map)
  fix n
  assume same: "\<And>n. n \<in> set ns \<Longrightarrow> f n = g n \<and> (\<exists>y. g n = Inr y)" and n: "n \<in> set ns"
  obtain y where "f n = Inr y" "g n = Inr y" using same [OF n] by auto
  then show "moved f g n = Inr False" by (simp add: moved_def)
qed

lemma gauge_receipt_returns:
  assumes "closed_faces C" "1 \<le> final" "length a = final + 1" "length phi = final"
    and "arity (final + 1) seams a" "arity final ports phi" "arity (final - 1) seams current" "arity (final + 1) ports chi"
  shows "gauge_invariance_receipt C a phi current chi = Inr final"
proof -
  let ?a = "gauged_potential a chi" and ?phi = "gauged_scalar phi chi"
  have fits: "matrix_fits C" using assms(1) by (simp add: closed_faces_def)
  have la: "length ?a = final + 1" "arity (final + 1) seams ?a"
    using assms(3) by (simp_all add: gauged_potential_def arity_def del: upt_Suc)
  have lp: "length ?phi = final" "arity final ports ?phi"
    using assms(4) by (simp_all add: gauged_scalar_def arity_def del: upt_Suc)
  have t: "gauge_transform a phi chi = Inr (?a, ?phi)"
    by (rule gauge_transform_eq) (use assms in simp_all)
  have e: "electric_of ?a ?phi n = electric_of a phi n" if "n < final" for n
    using gauged_electric that assms(3,4) by simp
  have b: "magnetic_of C ?a n = magnetic_of C a n" if "n < final + 1" for n
    using gauged_magnetic assms(1) that assms(3) by simp
  have ef: "electric_field x y n = Inr (electric_of x y n)"
    if "n < final" "arity (final + 1) seams x" "arity final ports y" for x y n
    using that by (intro electric_field_eq) (auto simp: arity_def)
  have bf: "magnetic_field C x n = Inr (magnetic_of C x n)" if "n < final + 1" "arity (final + 1) seams x" for x n
    using that fits by (intro magnetic_field_eq) (auto simp: arity_def)
  have ff: "field_energy C x y n = Inr (1 / 2 * (\<Sum>e<seams. electric_of x y n ! e * electric_of x y n ! e) +
      1 / 2 * (\<Sum>f<faces. magnetic_of C x n ! f * magnetic_of C x (n + 1) ! f))"
    if "n < final" "arity (final + 1) seams x" "arity final ports y" for x y n
    using that fits by (intro field_energy_eq) (auto simp: arity_def)
  have 1: "rmap (moved (electric_field ?a ?phi) (electric_field a phi)) [0..<final] = Inr (map (\<lambda>n. False) [0..<final])"
    by (rule unmoved) (use ef [OF _ la(2) lp(2)] ef [OF _ assms(5,6)] e in simp)
  have 2: "rmap (moved (magnetic_field C ?a) (magnetic_field C a)) [0..<final + 1] = Inr (map (\<lambda>n. False) [0..<final + 1])"
  proof (rule unmoved)
    fix n
    assume "n \<in> set [0..<final + 1]"
    then have "n < final + 1" by auto
    then show "magnetic_field C ?a n = magnetic_field C a n \<and> (\<exists>y. magnetic_field C a n = Inr y)"
      using bf [OF _ la(2)] bf [OF _ assms(5)] b by metis
  qed
  have 3: "rmap (moved (field_energy C ?a ?phi) (field_energy C a phi)) [0..<final - 1] = Inr (map (\<lambda>n. False) [0..<final - 1])"
  proof (rule unmoved)
    fix n
    assume "n \<in> set [0..<final - 1]"
    then have n: "n < final" "n < final + 1" "n + 1 < final + 1" by auto
    show "field_energy C ?a ?phi n = field_energy C a phi n \<and> (\<exists>y. field_energy C a phi n = Inr y)"
      unfolding ff [OF n(1) la(2) lp(2)] ff [OF n(1) assms(5,6)] e [OF n(1)] b [OF n(2)] b [OF n(3)] by blast
  qed
  have cur: "final - 1 \<le> length current" using assms(7) by (simp add: arity_def)
  have same: "electric_list ?a ?phi final = electric_list a phi final" "magnetic_list C ?a final = magnetic_list C a final"
    using e b by (auto simp del: upt_Suc)
  obtain r where r: "field_receipts C (electric_list a phi final) (magnetic_list C a final) current None False final = Inr r"
    using field_receipts_return [OF fits assms(7)] by blast
  have o: "verify_history C a phi current None False = Inr r"
    unfolding verify_history_eq [OF assms(3,5,6) cur assms(2) fits] r ..
  have n: "verify_history C ?a ?phi current None False = Inr r"
    unfolding verify_history_eq [OF la lp(2) cur assms(2) fits] same r ..
  have f: "length a - 1 = final" using assms(3) by simp
  have q: "\<not> list_ex id (map (\<lambda>n. False) [0..<final] @ map (\<lambda>n. False) [0..<final + 1] @ map (\<lambda>n. False) [0..<final - 1])"
    by (auto simp: list_ex_iff)
  show ?thesis
    unfolding gauge_invariance_receipt_def t rbind_Inr prod.case Let_def f 1 2 3 o n using q by (simp add: require_def)
qed

section \<open>Runs\<close>

definition run_inputs :: "matrix \<Rightarrow> vec \<Rightarrow> vec \<Rightarrow> history \<Rightarrow> history \<Rightarrow> int \<Rightarrow> bool" where
  "run_inputs C a0 a1 phi current steps \<longleftrightarrow> closed_faces C \<and> 1 \<le> steps \<and> length a0 = seams \<and> length a1 = seams \<and>
     arity (nat steps) ports phi \<and> arity (nat (steps - 1)) seams current"

lemma evolve_run:
  assumes "run_inputs C a0 a1 phi current steps"
  shows "\<exists>a. (\<forall>rho verify. evolve C a0 a1 phi current steps rho verify =
      (if verify then rbind (verify_history C a phi current rho True) (\<lambda>r. Inr \<lparr>ev_potential = a, ev_receipts = Some r\<rparr>)
       else Inr \<lparr>ev_potential = a, ev_receipts = None\<rparr>)) \<and>
    leapfrog_solution C a phi current (nat steps) \<and> a ! 0 = a0 \<and> a ! 1 = a1"
proof -
  note i = assms [unfolded run_inputs_def]
  obtain k where k: "nat (steps - 1) = k" "nat steps = k + 1" using i by force
  have "length [a0, a1] = 0 + 2" "\<forall>v \<in> set [a0, a1]. length v = seams" "arity (0 + k + 1) ports phi" "arity (0 + k) seams current"
    "matrix_fits C" using i k by (auto simp: closed_faces_def)
  from evolve_loop_result [OF this] obtain a where a: "evolve_loop C phi current k 0 [a0, a1] = Inr a" "length a = k + 2"
    "\<forall>v \<in> set a. length v = seams" "take 2 a = [a0, a1]" "\<forall>i. i < k \<longrightarrow> solves C phi current a i" by (auto simp: numeral_2_eq_2)
  have "arity (k + 2) seams a" using a(2,3) by (simp add: arity_def)
  moreover have "matrix_fits C" using i by (simp add: closed_faces_def)
  ultimately have s: "leapfrog_solution C a phi current (nat steps)"
    using i k a(2,5) by unfold_locales (auto simp: closed_faces_def)
  have "a ! 0 = take 2 a ! 0" "a ! 1 = take 2 a ! 1" by simp_all
  then have ends: "a ! 0 = a0" "a ! 1 = a1" unfolding a(4) by simp_all
  have len: "steps \<le> int (length phi)" "max (steps - 1) 0 \<le> int (length current)"
    using i by (auto simp: arity_def)
  have "evolve C a0 a1 phi current steps rho verify =
      (if verify then rbind (verify_history C a phi current rho True) (\<lambda>r. Inr \<lparr>ev_potential = a, ev_receipts = Some r\<rparr>)
       else Inr \<lparr>ev_potential = a, ev_receipts = None\<rparr>)" for rho verify
    using i len a(1) unfolding evolve_def k(1) by (simp add: require_def)
  then show ?thesis using s ends by blast
qed

context leapfrog_solution
begin

lemma verified: "verify_history C a phi current rho fc =
    field_receipts C (electric_list a phi final) (magnetic_list C a final) current rho fc final"
  using vectors steps fits by (intro verify_history_eq) (auto simp: arity_def)

lemma wave_ok:
  assumes "\<And>n. n < final - 1 \<Longrightarrow> current ! n = replicate seams 0"
  shows "wave_recursion_receipt C a phi = Inr (int final - 1)"
proof -
  have "wave_bad C a phi n = Inr False" if n: "n < final - 1" for n
  proof -
    have i: "n + 1 < final" "n < final" "n + 1 < final + 1" "n < final + 1" "n + 2 < final + 1" using n by auto
    note p = arityD [OF vectors(3) i(1)] arityD [OF vectors(3) i(2)]
    note v = arityD [OF vectors(2) i(3)] arityD [OF vectors(2) i(4)] arityD [OF vectors(2) i(5)]
    have k: "local_maxwell_operator C (a ! (n + 1)) = Inr (map (cocurl C (mag_at C a (n + 1))) [0..<seams])"
      using v fits by (intro local_maxwell_eq) simp_all
    have r: "rmap (\<lambda>q. rbind (item (phi ! (n + 1)) q) (\<lambda>x. rbind (item (phi ! n) q) (\<lambda>y. Inr (x - y)))) [0..<ports] =
        Inr (map (\<lambda>q. phi ! (n + 1) ! q - phi ! n ! q) [0..<ports])"
      by (rule rmap_Inr_map) (use p in \<open>simp add: item_def\<close>)
    have g: "coboundary (map (\<lambda>q. phi ! (n + 1) ! q - phi ! n ! q) [0..<ports]) =
        Inr (map (mat_vec ports port_incidence (\<lambda>q. phi ! (n + 1) ! q - phi ! n ! q)) [0..<seams])"
    proof -
      have "mat_vec ports port_incidence ((!) (map (\<lambda>q. phi ! (n + 1) ! q - phi ! n ! q) [0..<ports])) =
          mat_vec ports port_incidence (\<lambda>q. phi ! (n + 1) ! q - phi ! n ! q)"
        by (intro ext mat_vec_cong) simp
      then show ?thesis by (simp add: coboundary_eq)
    qed
    have w: "rmap (\<lambda>e. rbind (item (a ! (n + 2)) e) (\<lambda>x. rbind (item (a ! n) e) (\<lambda>z.
         Inr (x - 2 * a ! (n + 1) ! e + z + map (cocurl C (mag_at C a (n + 1))) [0..<seams] ! e +
           map (mat_vec ports port_incidence (\<lambda>q. phi ! (n + 1) ! q - phi ! n ! q)) [0..<seams] ! e)))) [0..<seams] =
        Inr (map (\<lambda>e. 0) [0..<seams])"
    proof (rule rmap_Inr_map)
      fix e
      assume "e \<in> set [0..<seams]"
      then have e: "e < seams" by simp
      have "current ! n ! e = 0" using assms [OF n] e by simp
      then have "a ! (n + 2) ! e = 2 * a ! (n + 1) ! e - a ! n ! e - cocurl C (mag_at C a (n + 1)) e +
          mat_vec ports port_incidence (\<lambda>q. phi ! n ! q - phi ! (n + 1) ! q) e"
        using solution [OF n] e unfolding solves_def by simp
      then show "rbind (item (a ! (n + 2)) e) (\<lambda>x. rbind (item (a ! n) e) (\<lambda>z.
         Inr (x - 2 * a ! (n + 1) ! e + z + map (cocurl C (mag_at C a (n + 1))) [0..<seams] ! e +
           map (mat_vec ports port_incidence (\<lambda>q. phi ! (n + 1) ! q - phi ! n ! q)) [0..<seams] ! e))) = Inr 0"
        using e v by (simp add: item_def mat_vec_diff)
    qed
    show ?thesis
      unfolding wave_bad_def k rbind_Inr conjunct1 [OF p(1)] conjunct1 [OF p(2)] r g w by (simp add: list_ex_iff)
  qed
  then have "first_bad (wave_bad C a phi) [0..<final - 1] = Inr None" by (intro first_bad_None) simp
  then show ?thesis unfolding wave_recursion_receipt_def using vectors(1) by (simp add: require_def)
qed

end

end
