(* ===== verification/Em_Green.thy ===== *)
theory Em_Green
  imports Em_Laplacian Em_Leapfrog
begin

text \<open>
  The observables of \<open>oph_fpe/em/green.py\<close>: the Green potential and the Coulomb field of a neutral
  load, the field strength of a seam vector, the fundamental chord cycles (\<open>base_carrier.py\<close>) and
  the Thomson decomposition.  \<open>None\<close> stands for a search loop that does not end; the lemmas show
  that it does not occur.
\<close>

section \<open>Potentials and fields\<close>

definition as_neutral_load :: "vec \<Rightarrow> vec res" where
  "as_neutral_load rho = require (length rho = ports) (require (sum_list rho = 0) (Inr rho))"

definition green_apply :: "matrix \<Rightarrow> vec \<Rightarrow> vec" where
  "green_apply green load = map (\<lambda>p. sum_list (map (\<lambda>q. green ! p ! q * load ! q) [0..<ports])) [0..<ports]"

definition green_potential :: "vec \<Rightarrow> vec res" where
  "green_potential rho = rbind (as_neutral_load rho) (\<lambda>load. rbind green_matrix (\<lambda>green. Inr (green_apply green load)))"

definition coulomb_field :: "vec \<Rightarrow> vec res" where
  "coulomb_field rho = rbind (green_potential rho) coboundary"

definition field_strength :: "vec \<Rightarrow> vec res" where
  "field_strength seam_field = require (length seam_field = seams)
     (rbind (boundary seam_field) (\<lambda>load. rbind green_matrix (\<lambda>green. rbind (coboundary (green_apply green load)) (zip_with (-) seam_field))))"

definition chord_field_strength_components :: "vec \<Rightarrow> (nat \<times> rat) list res" where
  "chord_field_strength_components seam_field =
     rbind (field_strength seam_field) (\<lambda>strength. Inr (map (\<lambda>chord. (chord, strength ! chord)) chord_seams))"

definition chord_cycle :: "nat \<Rightarrow> vec res option" where
  "chord_cycle chord = (if chord \<notin> set chord_seams then Some (Inl ValueError) else
     let indicator = (replicate seams 0)[chord := 1] in
     case boundary indicator of Inl err \<Rightarrow> Some (Inl err)
     | Inr load \<Rightarrow> map_option (\<lambda>r. rbind r (\<lambda>closing. rbind (zip_with (-) indicator closing) (\<lambda>cycle.
         rbind (boundary cycle) (\<lambda>b. require (list_all (\<lambda>x. x = 0) b) (Inr cycle))))) (tree_solution load))"

fun collect_cycles :: "nat list \<Rightarrow> vec list res option" where
  "collect_cycles [] = Some (Inr [])"
| "collect_cycles (chord # chords) = Option.bind (chord_cycle chord) (\<lambda>r. case r of
     Inl err \<Rightarrow> Some (Inl err)
   | Inr cycle \<Rightarrow> map_option (\<lambda>s. rbind s (\<lambda>cycles. Inr (cycle # cycles))) (collect_cycles chords))"

record thomson =
  th_coulomb :: vec
  th_tree :: vec
  th_cycle_part :: vec
  coulomb_energy :: rat
  tree_solution_energy :: rat
  cycle_part_energy :: rat

text \<open>The parts of the decomposition once the tree solution and the chord cycles are at hand.\<close>

definition thomson_parts :: "vec \<Rightarrow> vec \<Rightarrow> vec \<Rightarrow> vec list \<Rightarrow> thomson res" where
  "thomson_parts load coulomb tree cycles = rbind (zip_with (-) tree coulomb) (\<lambda>cycle_part.
     rbind (boundary cycle_part) (\<lambda>b. require (list_all (\<lambda>x. x = 0) b)
     (rbind (rmap (seam_inner coulomb) cycles) (\<lambda>inners. require (list_all (\<lambda>x. x = 0) inners)
     (rbind (seam_energy coulomb) (\<lambda>ce. rbind (seam_energy tree) (\<lambda>te. rbind (seam_energy cycle_part) (\<lambda>pe.
      require (te = ce + pe) (Inr \<lparr>th_coulomb = coulomb, th_tree = tree, th_cycle_part = cycle_part,
        coulomb_energy = ce, tree_solution_energy = te, cycle_part_energy = pe\<rparr>)))))))))"

definition thomson_decomposition :: "vec \<Rightarrow> thomson res option" where
  "thomson_decomposition rho = (case rbind (as_neutral_load rho) (\<lambda>load. rbind (coulomb_field load) (\<lambda>coulomb.
       rbind (boundary coulomb) (\<lambda>b. require (b = load) (Inr (load, coulomb))))) of
     Inl err \<Rightarrow> Some (Inl err)
   | Inr (load, coulomb) \<Rightarrow> Option.bind (tree_solution load) (\<lambda>r. case r of
       Inl err \<Rightarrow> Some (Inl err)
     | Inr tree \<Rightarrow> map_option (\<lambda>s. rbind s (thomson_parts load coulomb tree)) (collect_cycles chord_seams)))"

section \<open>The Green potential solves Gauss's law\<close>

definition green_at :: "(nat \<Rightarrow> rat) \<Rightarrow> nat \<Rightarrow> rat" where
  "green_at load = (case green_matrix of Inr G \<Rightarrow> mat_vec ports (entry_of G) load | Inl err \<Rightarrow> load)"

lemma green_apply_eq:
  assumes "length load = ports"
  shows "\<exists>G. green_matrix = Inr G \<and> green_apply G load = map (green_at ((!) load)) [0..<ports]"
proof -
  obtain G where G: "green_matrix = Inr G" using green_matrix_returns by blast
  show ?thesis
    unfolding green_at_def G by (intro exI conjI, rule refl) (simp add: green_apply_def mat_vec_def entry_of_def sum_list_upt)
qed

lemma green_solves:
  assumes "i < ports"
  shows "lap (green_at load) i = load i - (\<Sum>j<ports. load j) / 12"
proof -
  obtain G where G: "green_matrix = Inr G" "green_identities laplacian_matrix G" using green_matrix_returns by blast
  have p: "(\<Sum>k<ports. entry_of laplacian_matrix i k * entry_of G k j) = (if i = j then 1 else 0) - 1 / 12" if "j < ports" for j
    using G(2) assms that by (simp add: green_identities_def list_all_iff sum_list_upt entry_of_def)
  have "lap (green_at load) i = (\<Sum>k<ports. entry_of laplacian_matrix i k * (\<Sum>j<ports. entry_of G k j * load j))"
    unfolding laplacian_apply [OF assms, symmetric] by (simp add: green_at_def G(1) mat_vec_def)
  also have "\<dots> = (\<Sum>k<ports. \<Sum>j<ports. entry_of laplacian_matrix i k * entry_of G k j * load j)"
    by (simp add: sum_distrib_left algebra_simps)
  also have "\<dots> = (\<Sum>j<ports. \<Sum>k<ports. entry_of laplacian_matrix i k * entry_of G k j * load j)" by (rule sum.swap)
  also have "\<dots> = (\<Sum>j<ports. ((if i = j then 1 else 0) - 1 / 12) * load j)"
    unfolding sum_distrib_right [symmetric] using p by (intro sum.cong) auto
  also have "\<dots> = load i - (\<Sum>j<ports. load j) / 12"
    using assms by (simp add: left_diff_distrib sum_subtractf sum_divide_distrib if_distrib [of "\<lambda>x. x * _"] cong: if_cong)
  finally show ?thesis .
qed

text \<open>The load of a seam vector is neutral.\<close>

lemma boundary_neutral: "(\<Sum>p<ports. div_at z p) = 0"
proof -
  have "(\<Sum>p<ports. div_at z p * 1) = (\<Sum>e<seams. z e * mat_vec ports port_incidence (\<lambda>p. 1) e)"
    by (rule adjoint [symmetric])
  also have "\<dots> = 0" by (simp add: gradient_ends)
  finally show ?thesis by simp
qed

text \<open>Applying the Green matrix to the load of a gradient gives the gradient back.\<close>

lemma green_of_gradient:
  assumes "e < seams"
  shows "mat_vec ports port_incidence (green_at (lap x)) e = mat_vec ports port_incidence x e"
proof -
  have "lap (\<lambda>p. green_at (lap x) p - x p) i = 0" if "i < ports" for i
  proof -
    have "lap (\<lambda>p. green_at (lap x) p - x p) i = lap (green_at (lap x)) i - lap x i"
      by (simp add: mat_vec_diff [abs_def] mat_vec_t_diff)
    then show ?thesis using green_solves [OF that, of "lap x"] boundary_neutral by simp
  qed
  from gradient_zero [OF this assms] show ?thesis by (simp add: mat_vec_diff)
qed


lemma sum_list_nth: "length xs = n \<Longrightarrow> sum_list xs = (\<Sum>i<n. xs ! i :: rat)"
  using sum_list_upt [of "(!) xs" n] map_nth [of xs] by simp

lemma as_neutral_eq: "length rho = ports \<and> sum_list rho = 0 \<Longrightarrow> as_neutral_load rho = Inr rho"
  by (simp add: as_neutral_load_def require_def)

definition coulomb_of :: "vec \<Rightarrow> vec" where
  "coulomb_of load = map (mat_vec ports port_incidence (green_at ((!) load))) [0..<seams]"

lemma gradient_list: "coboundary (map u [0..<ports]) = Inr (map (mat_vec ports port_incidence u) [0..<seams])"
proof -
  have "mat_vec ports port_incidence ((!) (map u [0..<ports])) = mat_vec ports port_incidence u"
    by (intro ext mat_vec_cong) simp
  then show ?thesis by (simp add: coboundary_eq)
qed

lemma divergence_list: "boundary (map z [0..<seams]) = Inr (map (div_at z) [0..<ports])"
proof -
  have "div_at ((!) (map z [0..<seams])) = div_at z" by (intro ext mat_vec_t_cong) simp
  then show ?thesis by (simp add: boundary_eq)
qed

lemma green_potential_eq:
  assumes "length load = ports" "sum_list load = 0"
  shows "green_potential load = Inr (map (green_at ((!) load)) [0..<ports])"
proof -
  obtain G where G: "green_matrix = Inr G" "green_apply G load = map (green_at ((!) load)) [0..<ports]"
    using green_apply_eq [OF assms(1)] by blast
  show ?thesis
    unfolding green_potential_def as_neutral_eq [OF conjI [OF assms]] rbind_Inr G ..
qed

lemma coulomb_field_eq:
  assumes "length load = ports" "sum_list load = 0"
  shows "coulomb_field load = Inr (coulomb_of load)"
  unfolding coulomb_field_def green_potential_eq [OF assms] rbind_Inr gradient_list coulomb_of_def ..

lemma coulomb_gauss:
  assumes "length load = ports" "sum_list load = 0"
  shows "boundary (coulomb_of load) = Inr load"
proof -
  have "lap (green_at ((!) load)) i = load ! i" if "i < ports" for i
    using green_solves [OF that, of "(!) load"] sum_list_nth [OF assms(1)] assms(2) by simp
  then have "map (lap (green_at ((!) load))) [0..<ports] = load"
    using assms(1) by (intro nth_equalityI) auto
  then show ?thesis unfolding coulomb_of_def divergence_list by simp
qed

lemma load_refused: "\<not> (length rho = ports \<and> sum_list rho = 0) \<Longrightarrow> as_neutral_load rho = Inl ValueError"
  by (auto simp: as_neutral_load_def require_def)

section \<open>Chord cycles and the Thomson decomposition\<close>

lemma indicator_load:
  assumes "e < seams"
  shows "\<exists>load. boundary ((replicate seams 0)[e := 1]) = Inr load \<and> length load = ports \<and> sum_list load = 0"
proof -
  let ?z = "(replicate seams 0)[e := 1] :: vec"
  have "boundary ?z = Inr (map (div_at ((!) ?z)) [0..<ports])" by (rule boundary_eq) simp
  moreover have "sum_list (map (div_at ((!) ?z)) [0..<ports]) = 0" unfolding sum_list_upt by (rule boundary_neutral)
  ultimately show ?thesis by (intro exI [of _ "map (div_at ((!) ?z)) [0..<ports]"]) simp
qed

lemma boundary_diff:
  assumes "length x = seams" "length y = seams" "boundary x = Inr b" "boundary y = Inr b"
  shows "boundary (map2 (-) x y) = Inr (map (\<lambda>p. 0) [0..<ports])"
proof -
  have "div_at ((!) x) p = div_at ((!) y) p" if "p < ports" for p
    using assms(3,4) that unfolding boundary_eq [OF assms(1)] boundary_eq [OF assms(2)] by (auto simp: list_eq_iff_nth_eq)
  moreover have "div_at ((!) (map2 (-) x y)) p = div_at ((!) x) p - div_at ((!) y) p" for p
    unfolding mat_vec_t_diff [symmetric] using assms(1,2) by (intro mat_vec_t_cong) simp
  ultimately show ?thesis using assms(1,2) by (simp add: boundary_eq)
qed

lemma chord_cycle_eq:
  assumes "chord \<in> set chord_seams"
  shows "\<exists>z. chord_cycle chord = Some (Inr z) \<and> length z = seams \<and> boundary z = Inr (map (\<lambda>p. 0) [0..<ports])"
proof -
  have c: "chord < seams" using assms by (simp add: chord_seams_def)
  let ?i = "(replicate seams 0)[chord := 1] :: vec"
  obtain load where l: "boundary ?i = Inr load" "length load = ports" "sum_list load = 0" using indicator_load [OF c] by blast
  let ?z = "map2 (-) ?i (carried load)"
  have b: "boundary ?z = Inr (map (\<lambda>p. 0) [0..<ports])"
    by (rule boundary_diff [OF _ carried_on_tree(1) l(1) boundary_carried [OF l(2,3)]]) simp
  have z: "zip_with (-) ?i (carried load) = Inr ?z"
    unfolding zip_with_def require_def carried_on_tree(1) by simp
  have "chord_cycle chord = Some (Inr ?z)"
    unfolding chord_cycle_def Let_def l(1) sum.case tree_solution_value [OF l(2,3)] option.map rbind_Inr z b
    using assms by (simp add: require_def list_all_iff)
  moreover have "length ?z = seams" using carried_on_tree(1) by simp
  ultimately show ?thesis using b by blast
qed

lemma collect_cycles_eq:
  "set chords \<subseteq> set chord_seams \<Longrightarrow> \<exists>zs. collect_cycles chords = Some (Inr zs) \<and>
    (\<forall>z \<in> set zs. length z = seams \<and> boundary z = Inr (map (\<lambda>p. 0) [0..<ports]))"
proof (induction chords)
  case (Cons c cs)
  obtain z where "chord_cycle c = Some (Inr z)" "length z = seams" "boundary z = Inr (map (\<lambda>p. 0) [0..<ports])"
    using chord_cycle_eq [of c] Cons.prems by auto
  moreover obtain zs where "collect_cycles cs = Some (Inr zs)" "\<forall>z \<in> set zs. length z = seams \<and> boundary z = Inr (map (\<lambda>p. 0) [0..<ports])"
    using Cons by auto
  ultimately show ?case by simp
qed simp

lemma gradient_orthogonal:
  assumes "length z = seams" "boundary z = Inr (map (\<lambda>p. 0) [0..<ports])"
  shows "(\<Sum>e<seams. mat_vec ports port_incidence u e * z ! e) = 0"
proof -
  have "div_at ((!) z) p = 0" if "p < ports" for p
    using assms(2) that unfolding boundary_eq [OF assms(1)] by (auto simp: list_eq_iff_nth_eq)
  then show ?thesis using adjoint [of "(!) z" ports port_incidence u seams] by (simp add: mult.commute)
qed

lemma coulomb_length [simp]: "length (coulomb_of load) = seams"
  by (simp add: coulomb_of_def)

lemma coulomb_orthogonal:
  assumes "length z = seams" "boundary z = Inr (map (\<lambda>p. 0) [0..<ports])"
  shows "seam_inner (coulomb_of load) z = Inr 0"
  unfolding seam_inner_def inner_product_eq [OF coulomb_length assms(1)]
  using gradient_orthogonal [OF assms, of "green_at ((!) load)"] by (simp add: coulomb_of_def)

lemma thomson_parts_eq:
  assumes "length load = ports" "sum_list load = 0" "length tree = seams" "boundary tree = Inr load"
    and "\<forall>z \<in> set cycles. length z = seams \<and> boundary z = Inr (map (\<lambda>p. 0) [0..<ports])"
  shows "\<exists>r. thomson_parts load (coulomb_of load) tree cycles = Inr r \<and> th_coulomb r = coulomb_of load \<and> th_tree r = tree \<and>
    tree_solution_energy r = coulomb_energy r + cycle_part_energy r \<and> coulomb_energy r \<le> tree_solution_energy r"
proof -
  let ?c = "coulomb_of load"
  let ?p = "map2 (-) tree ?c"
  have len: "length ?p = seams" using assms(3) by simp
  have b: "boundary ?p = Inr (map (\<lambda>p. 0) [0..<ports])"
    by (rule boundary_diff [OF assms(3) coulomb_length assms(4) coulomb_gauss [OF assms(1,2)]])
  have i: "rmap (seam_inner ?c) cycles = Inr (map (\<lambda>z. 0) cycles)"
    using assms(5) coulomb_orthogonal by (intro rmap_Inr_map) blast
  have o: "(\<Sum>e<seams. ?c ! e * ?p ! e) = 0"
    using gradient_orthogonal [OF len b, of "green_at ((!) load)"] by (simp add: coulomb_of_def)
  have e: "seam_energy x = Inr (\<Sum>e<seams. x ! e * x ! e)" if "length x = seams" for x
    using that by (simp add: seam_energy_def seam_inner_def inner_product_eq)
  have "(\<Sum>e<seams. tree ! e * tree ! e) = (\<Sum>e<seams. ?c ! e * ?c ! e + ?p ! e * ?p ! e + 2 * (?c ! e * ?p ! e))"
    using assms(3) by (intro sum.cong) (auto simp: algebra_simps)
  also have "\<dots> = (\<Sum>e<seams. ?c ! e * ?c ! e) + (\<Sum>e<seams. ?p ! e * ?p ! e)"
    unfolding sum.distrib sum_distrib_left [symmetric] o by simp
  finally have t: "(\<Sum>e<seams. tree ! e * tree ! e) = (\<Sum>e<seams. ?c ! e * ?c ! e) + (\<Sum>e<seams. ?p ! e * ?p ! e)" .
  have z: "zip_with (-) tree ?c = Inr ?p" using assms(3) by (simp add: zip_with_def require_def)
  have ge: "0 \<le> (\<Sum>e<seams. ?p ! e * ?p ! e)" by (rule sum_nonneg) simp
  show ?thesis
    unfolding thomson_parts_def z rbind_Inr b i e [OF coulomb_length] e [OF assms(3)] e [OF len] t
    using ge by (simp add: require_def list_all_iff)
qed

lemma thomson_eq:
  assumes "length load = ports" "sum_list load = 0"
  shows "\<exists>r. thomson_decomposition load = Some (Inr r) \<and> th_coulomb r = coulomb_of load \<and> th_tree r = carried load \<and>
    tree_solution_energy r = coulomb_energy r + cycle_part_energy r \<and> coulomb_energy r \<le> tree_solution_energy r"
proof -
  obtain zs where zs: "collect_cycles chord_seams = Some (Inr zs)"
    "\<forall>z \<in> set zs. length z = seams \<and> boundary z = Inr (map (\<lambda>p. 0) [0..<ports])"
    using collect_cycles_eq [OF subset_refl] by blast
  have n: "as_neutral_load load = Inr load" using as_neutral_eq assms by simp
  have r: "require (load = load) x = x" for x :: "(vec \<times> vec) res" by (simp add: require_def)
  show ?thesis
    unfolding thomson_decomposition_def n rbind_Inr coulomb_field_eq [OF assms] coulomb_gauss [OF assms] r sum.case prod.case
      tree_solution_value [OF assms] bind.bind_lunit zs(1) option.map option.inject
    by (rule thomson_parts_eq [OF assms carried_on_tree(1) boundary_carried [OF assms] zs(2)])
qed

lemma thomson_refuses: "\<not> (length rho = ports \<and> sum_list rho = 0) \<Longrightarrow> thomson_decomposition rho = Some (Inl ValueError)"
  using load_refused [of rho] by (simp add: thomson_decomposition_def)

section \<open>Field strength and gauge orbits\<close>

lemma field_strength_eq:
  assumes "length A = seams"
  shows "field_strength A = Inr (map (\<lambda>e. A ! e - mat_vec ports port_incidence (green_at (div_at ((!) A))) e) [0..<seams])"
proof -
  let ?l = "map (div_at ((!) A)) [0..<ports]"
  have b: "boundary A = Inr ?l" by (rule boundary_eq [OF assms])
  obtain G where G: "green_matrix = Inr G" "green_apply G ?l = map (green_at ((!) ?l)) [0..<ports]"
    using green_apply_eq [of ?l] by auto
  have "green_at ((!) ?l) = green_at (div_at ((!) A))"
    unfolding green_at_def G sum.case by (intro ext mat_vec_cong) simp
  then have g: "green_apply G ?l = map (green_at (div_at ((!) A))) [0..<ports]" unfolding G(2) by simp
  have "map2 (-) A (map u [0..<seams]) = map (\<lambda>e. A ! e - u e) [0..<seams]" for u :: "nat \<Rightarrow> rat"
    using assms by (intro nth_equalityI) auto
  then show ?thesis
    unfolding field_strength_def b rbind_Inr G(1) g gradient_list using assms by (simp add: require_def zip_with_def)
qed

lemma field_strength_gauge:
  assumes "length A = seams" "length B = seams"
  shows "field_strength A = field_strength B \<longleftrightarrow>
    (\<exists>chi. length chi = ports \<and> rbind (coboundary chi) (zip_with (+) A) = Inr B)"
proof
  let ?g = "mat_vec ports port_incidence"
  assume "field_strength A = field_strength B"
  then have e: "A ! e - ?g (green_at (div_at ((!) A))) e = B ! e - ?g (green_at (div_at ((!) B))) e" if "e < seams" for e
    using that unfolding field_strength_eq [OF assms(1)] field_strength_eq [OF assms(2)] by (auto simp: list_eq_iff_nth_eq)
  let ?u = "\<lambda>p. green_at (div_at ((!) B)) p - green_at (div_at ((!) A)) p"
  have "map2 (+) A (map (?g ?u) [0..<seams]) = B"
    using assms e by (intro nth_equalityI) (auto simp: mat_vec_diff algebra_simps)
  then have "rbind (coboundary (map ?u [0..<ports])) (zip_with (+) A) = Inr B"
    unfolding gradient_list rbind_Inr using assms(1) by (simp add: zip_with_def require_def)
  then show "\<exists>chi. length chi = ports \<and> rbind (coboundary chi) (zip_with (+) A) = Inr B"
    by (intro exI [of _ "map ?u [0..<ports]"]) simp
next
  let ?g = "mat_vec ports port_incidence"
  assume "\<exists>chi. length chi = ports \<and> rbind (coboundary chi) (zip_with (+) A) = Inr B"
  then obtain chi where chi: "length chi = ports" "rbind (coboundary chi) (zip_with (+) A) = Inr B" by blast
  have B: "B ! e = A ! e + ?g ((!) chi) e" if "e < seams" for e
    using chi(2) assms(1) that unfolding coboundary_eq [OF chi(1)] rbind_Inr zip_with_def require_def by auto
  have d: "div_at ((!) B) = (\<lambda>p. div_at ((!) A) p + lap ((!) chi) p)"
    unfolding mat_vec_t_add [symmetric] using B by (intro ext mat_vec_t_cong) simp
  obtain G where G: "green_matrix = Inr G" using green_matrix_returns by blast
  have "green_at (\<lambda>p. div_at ((!) A) p + lap ((!) chi) p) = (\<lambda>p. green_at (div_at ((!) A)) p + green_at (lap ((!) chi)) p)"
    unfolding green_at_def G by (auto simp: mat_vec_add)
  then have "?g (green_at (div_at ((!) B))) e = ?g (green_at (div_at ((!) A))) e + ?g ((!) chi) e" if "e < seams" for e
    unfolding d using green_of_gradient [OF that, of "(!) chi"] by (simp add: mat_vec_add)
  then show "field_strength A = field_strength B"
    unfolding field_strength_eq [OF assms(1)] field_strength_eq [OF assms(2)] using B by simp
qed

end
