(* ===== verification/Em_Demo.thy ===== *)
theory Em_Demo
  imports Em_Leapfrog
begin

text \<open>
  The committed demonstration of \<open>oph_fpe/em/temporal.py\<close> (\<open>demo_bundle\<close>): zero data kicked by the
  boundary cycle of a face.  Its history is the instance of \<open>leapfrog_solution\<close> that the code runs.
\<close>

section \<open>The committed demonstration\<close>

definition constant_history :: "vec \<Rightarrow> int \<Rightarrow> history" where
  "constant_history vector n = replicate (nat n) vector"

definition zero_ports :: vec where "zero_ports = replicate ports 0"

definition zero_seams :: vec where "zero_seams = replicate seams 0"

record demo_report =
  demo_steps :: int
  anchor_A1_seam0 :: rat
  anchor_B0_zero :: bool
  anchor_B1_face0 :: rat
  anchor_nonstatic :: bool
  demo_receipts :: "temporal_receipts option"
  demo_wave :: int

definition demo_bundle :: "int \<Rightarrow> demo_report res" where
  "demo_bundle steps = (let C = face_incidence_matrix in
     rbind (face_codifferential C (map (\<lambda>f. if f = 0 then 1 else 0) [0..<faces])) (\<lambda>kick.
     let phi = constant_history zero_ports steps; current = constant_history zero_seams (max (steps - 1) 1);
         rho = constant_history zero_ports steps
     in rbind (evolve C zero_seams kick phi current steps (Some rho) True) (\<lambda>run.
     let a = ev_potential run in
     rbind (item a 1) (\<lambda>a1. rbind (item a1 0) (\<lambda>seam0. rbind (magnetic_field C a 0) (\<lambda>b0. rbind (magnetic_field C a 1) (\<lambda>b1.
     rbind (item b1 0) (\<lambda>face0. let zero = list_all (\<lambda>x. x = 0) b0; nonstatic = (a ! 1 \<noteq> a ! 0) in
     require (seam0 = 1) (require zero (require (face0 = 3) (require nonstatic
       (rbind (wave_recursion_receipt C a phi) (\<lambda>wave.
        Inr \<lparr>demo_steps = steps, anchor_A1_seam0 = seam0, anchor_B0_zero = zero, anchor_B1_face0 = face0,
          anchor_nonstatic = nonstatic, demo_receipts = ev_receipts run, demo_wave = wave\<rparr>)))))))))))))"

text \<open>The kick is the boundary cycle of face zero.\<close>

definition kick :: vec where
  "kick = map (\<lambda>e. of_int (face_incidence_entry 0 e)) [0..<seams]"

lemma kick_length: "length kick = seams"
  by (simp add: kick_def)

lemma kick_nth: "e < seams \<Longrightarrow> kick ! e = of_int (face_incidence_entry 0 e)"
  by (simp add: kick_def)

lemma kick_first: "item kick 0 = Inr 1"
  by code_simp

lemma face_zero: "0 < faces"
  by (simp add: faces_def)

lemma kick_value: "face_codifferential face_incidence_matrix (map (\<lambda>f. if f = 0 then 1 else 0) [0..<faces]) = Inr kick"
proof -
  have "mat_vec_t faces (entry_of face_incidence_matrix) ((!) (map (\<lambda>f. if f = 0 then 1 else 0) [0..<faces])) e = kick ! e"
    if "e < seams" for e
  proof -
    have "mat_vec_t faces (entry_of face_incidence_matrix) ((!) (map (\<lambda>f. if f = 0 then 1 else 0) [0..<faces])) e =
        (\<Sum>f<faces. if f = 0 then entry_of face_incidence_matrix f e else 0)"
      unfolding mat_vec_t_def by (rule sum.cong) auto
    then show ?thesis using that face_zero by (simp add: face_incidence_nth kick_nth sum.delta)
  qed
  then have "map (mat_vec_t faces (entry_of face_incidence_matrix) ((!) (map (\<lambda>f. if f = 0 then 1 else 0) [0..<faces]))) [0..<seams] = kick"
    using kick_length by (intro nth_equalityI) auto
  then show ?thesis using face_matrix_fits by (simp add: face_codifferential_eq)
qed

lemma kick_closed: "p < ports \<Longrightarrow> div_at ((!) kick) p = 0"
proof -
  assume p: "p < ports"
  have "kick ! e = mat_vec_t faces (entry_of face_incidence_matrix) (\<lambda>f. if f = 0 then 1 else 0) e" if "e < seams" for e
  proof -
    have "mat_vec_t faces (entry_of face_incidence_matrix) (\<lambda>f. if f = 0 then 1 else 0) e =
        (\<Sum>f<faces. if f = 0 then entry_of face_incidence_matrix f e else 0)"
      unfolding mat_vec_t_def by (rule sum.cong) auto
    then show ?thesis using that face_zero by (simp add: face_incidence_nth kick_nth sum.delta)
  qed
  then have "div_at ((!) kick) p = div_at (mat_vec_t faces (entry_of face_incidence_matrix) (\<lambda>f. if f = 0 then 1 else 0)) p"
    by (intro mat_vec_t_cong) simp
  then show ?thesis using icosahedron.div_cocurl [OF p] by simp
qed

lemma kick_curl: "mat_vec seams (entry_of face_incidence_matrix) ((!) kick) 0 = 3"
proof -
  have "mat_vec seams (entry_of face_incidence_matrix) ((!) kick) 0 =
      of_int (\<Sum>e<seams. face_incidence_entry 0 e * face_incidence_entry 0 e)"
    unfolding mat_vec_def of_int_sum by (rule sum.cong) (simp_all add: face_incidence_nth face_zero kick_nth)
  moreover have "sum_list (map (\<lambda>e. face_incidence_entry 0 e * face_incidence_entry 0 e) [0..<seams]) = 3" by code_simp
  ultimately show ?thesis unfolding sum_list_upt by simp
qed

lemma committed_faces: "closed_faces face_incidence_matrix"
  unfolding closed_faces_def using face_matrix_fits icosahedron.chain_complex_axioms by blast


lemma constant_nth: "n < nat k \<Longrightarrow> constant_history v k ! n = v"
  by (simp add: constant_history_def)

lemma constant_arity: "length v = m \<Longrightarrow> n \<le> nat k \<Longrightarrow> arity n m (constant_history v k)"
  by (simp add: arity_def constant_history_def)

lemma zero_lengths [simp]: "length zero_ports = ports" "length zero_seams = seams"
  by (simp_all add: zero_ports_def zero_seams_def)

lemma zero_nth [simp]: "p < ports \<Longrightarrow> zero_ports ! p = 0" "e < seams \<Longrightarrow> zero_seams ! e = 0"
  by (simp_all add: zero_ports_def zero_seams_def)

lemma demo_inputs:
  assumes "1 \<le> steps"
  shows "run_inputs face_incidence_matrix zero_seams kick (constant_history zero_ports steps)
    (constant_history zero_seams (max (steps - 1) 1)) steps"
  using assms committed_faces kick_length by (auto simp: run_inputs_def intro!: constant_arity)

text \<open>The history that the demonstration of \<open>k + 1\<close> steps evolves.\<close>

definition demo_potential :: "nat \<Rightarrow> history" where
  "demo_potential k = (case evolve face_incidence_matrix zero_seams kick (constant_history zero_ports (int (k + 1)))
     (constant_history zero_seams (max (int k) 1)) (int (k + 1)) None False of Inr run \<Rightarrow> ev_potential run | Inl err \<Rightarrow> [])"

lemma demo_potential_run:
  fixes k :: nat
  defines "phi \<equiv> constant_history zero_ports (int (k + 1))" and "j \<equiv> constant_history zero_seams (max (int k) 1)"
  shows "evolve face_incidence_matrix zero_seams kick phi j (int (k + 1)) rho True =
      rbind (verify_history face_incidence_matrix (demo_potential k) phi j rho True)
        (\<lambda>r. Inr \<lparr>ev_potential = demo_potential k, ev_receipts = Some r\<rparr>)"
    and "leapfrog_solution face_incidence_matrix (demo_potential k) phi j (k + 1)"
    and "demo_potential k ! 0 = zero_seams" "demo_potential k ! 1 = kick"
proof -
  have "run_inputs face_incidence_matrix zero_seams kick phi j (int (k + 1))"
    using demo_inputs [of "int (k + 1)"] by (simp add: phi_def j_def)
  from evolve_run [OF this] obtain a where e: "\<And>rho verify. evolve face_incidence_matrix zero_seams kick phi j (int (k + 1)) rho verify =
      (if verify then rbind (verify_history face_incidence_matrix a phi j rho True) (\<lambda>r. Inr \<lparr>ev_potential = a, ev_receipts = Some r\<rparr>)
       else Inr \<lparr>ev_potential = a, ev_receipts = None\<rparr>)"
    and s: "leapfrog_solution face_incidence_matrix a phi j (nat (int (k + 1)))" "a ! 0 = zero_seams" "a ! 1 = kick" by blast
  have a: "demo_potential k = a" using e [of None False] by (simp add: demo_potential_def phi_def j_def)
  show "evolve face_incidence_matrix zero_seams kick phi j (int (k + 1)) rho True =
      rbind (verify_history face_incidence_matrix (demo_potential k) phi j rho True)
        (\<lambda>r. Inr \<lparr>ev_potential = demo_potential k, ev_receipts = Some r\<rparr>)"
    unfolding a e by simp
  show "leapfrog_solution face_incidence_matrix (demo_potential k) phi j (k + 1)" using s(1) unfolding a nat_int .
  show "demo_potential k ! 0 = zero_seams" "demo_potential k ! 1 = kick" unfolding a using s by simp_all
qed

interpretation demo_run: leapfrog_solution face_incidence_matrix "demo_potential k" "constant_history zero_ports (int (k + 1))"
    "constant_history zero_seams (max (int k) 1)" "k + 1" for k :: nat
  by (rule demo_potential_run)

lemma demo_gauss: "gauss_holds (demo_potential k) (constant_history zero_ports (int (k + 1))) (constant_history zero_ports (int (k + 1))) 0"
proof -
  let ?phi = "constant_history zero_ports (int (k + 1))"
  have "el_at (demo_potential k) ?phi 0 e = 0 - kick ! e" if "e < seams" for e
    using that demo_potential_run(3,4) [of k] by (simp add: el_at_def constant_nth mat_vec_def)
  then have d: "div_at (el_at (demo_potential k) ?phi 0) p = div_at (\<lambda>e. 0 - kick ! e) p" for p by (intro mat_vec_t_cong) simp
  show ?thesis
    unfolding gauss_holds_def d mat_vec_t_diff using kick_closed by (simp add: constant_nth mat_vec_t_def)
qed

lemma demo_continuous: "n < k \<Longrightarrow> continuous_at (constant_history zero_seams (max (int k) 1)) (constant_history zero_ports (int (k + 1))) n"
  by (simp add: continuous_at_def constant_nth mat_vec_t_def)

lemma demo_verified:
  fixes k :: nat
  defines "phi \<equiv> constant_history zero_ports (int (k + 1))" and "j \<equiv> constant_history zero_seams (max (int k) 1)"
  shows "\<exists>t. verify_history face_incidence_matrix (demo_potential k) phi j (Some phi) True = Inr t \<and> tr_failures t = []"
proof -
  have "arity (k + 1) ports phi" unfolding phi_def by (rule constant_arity) simp_all
  from demo_run.receipts_with_load [OF this] show ?thesis
    unfolding phi_def j_def demo_run.verified using demo_gauss [of k] demo_continuous [of _ k] by auto
qed

lemma demo_returns:
  assumes "1 \<le> steps"
  shows "\<exists>r. demo_bundle steps = Inr r \<and> demo_steps r = steps \<and> demo_wave r = steps - 1 \<and>
    (\<exists>t. demo_receipts r = Some t \<and> tr_failures t = [])"
proof -
  define k where "k = nat (steps - 1)"
  have k: "int (k + 1) = steps" "max (int k) 1 = max (steps - 1) 1" using assms by (simp_all add: k_def)
  let ?C = face_incidence_matrix and ?a = "demo_potential k"
  note run = demo_potential_run [of k, unfolded k]
  obtain t where t: "verify_history ?C ?a (constant_history zero_ports steps) (constant_history zero_seams (max (steps - 1) 1))
      (Some (constant_history zero_ports steps)) True = Inr t" "tr_failures t = []"
    using demo_verified [of k] unfolding k by blast
  have w: "wave_recursion_receipt ?C ?a (constant_history zero_ports steps) = Inr (steps - 1)"
    using demo_run.wave_ok [of k] k by (simp add: constant_nth zero_seams_def)
  have i: "item ?a 0 = Inr zero_seams" "item ?a 1 = Inr kick" using run(3,4) demo_run.vectors(1) [of k] by (simp_all add: item_def)
  have b0: "magnetic_field ?C ?a 0 = Inr (map (\<lambda>f. 0) [0..<faces])"
  proof -
    have "mat_vec seams (entry_of ?C) ((!) zero_seams) f = 0" for f by (simp add: mat_vec_def)
    then show ?thesis using i face_matrix_fits by (simp add: magnetic_field_def face_curvature_eq)
  qed
  have b1: "magnetic_field ?C ?a 1 = Inr (map (mat_vec seams (entry_of ?C) ((!) kick)) [0..<faces])"
    unfolding magnetic_field_def i rbind_Inr by (rule face_curvature_eq [OF kick_length face_matrix_fits])
  have b10: "item (map (mat_vec seams (entry_of ?C) ((!) kick)) [0..<faces]) 0 = Inr 3"
    using face_zero kick_curl by (simp add: item_def)
  have ne: "kick \<noteq> zero_seams" by code_simp
  have z: "list_all (\<lambda>x. x = 0) (map (\<lambda>f. 0 :: rat) [0..<faces])" by (simp add: list_all_iff)
  show ?thesis
    unfolding demo_bundle_def kick_value Let_def rbind_Inr run(1) t(1) evolution.simps i(2) kick_first b0 b1 b10 run(3,4) w
    using ne z t(2) by (simp add: require_def)
qed

end
