(* ===== verification/Em_Static.thy ===== *)
theory Em_Static
  imports Em_Green Em_Demo
begin

text \<open>
  The static joins of \<open>oph_fpe/em/temporal.py\<close>: a constant zero-current history is the Coulomb
  solution of its own load (\<open>static_join_receipt\<close>), and every neutral load has a static run
  (\<open>coulomb_static_solution\<close>).
\<close>

section \<open>Operations\<close>

definition moves :: "history \<Rightarrow> nat \<Rightarrow> bool res" where
  "moves h n = rbind (item h n) (\<lambda>now. rbind (item h 0) (\<lambda>first. Inr (now \<noteq> first)))"

definition flows :: "history \<Rightarrow> nat \<Rightarrow> bool res" where
  "flows current n = rbind (item current n) (\<lambda>j. Inr (list_ex (\<lambda>x. x \<noteq> 0) j))"

definition static_join_receipt :: "matrix \<Rightarrow> history \<Rightarrow> history \<Rightarrow> history \<Rightarrow> vec res" where
  "static_join_receipt C a phi current = (let final = length a - 1 in
     require (list_all (\<lambda>x. x = a ! 0) a)
     (rbind (first_bad (moves phi) [0..<final]) (\<lambda>m. require (m = None)
     (rbind (first_bad (flows current) [0..<final - 1]) (\<lambda>j. require (j = None)
     (rbind (verify_history C a phi current None True) (\<lambda>receipts.
      rbind (electric_field a phi 0) (\<lambda>electric0. rbind (boundary electric0) (\<lambda>load. require (sum_list load = 0)
     (rbind (coulomb_field load) (\<lambda>coulomb.
      rbind (rmap (\<lambda>n. rbind (electric_field a phi n) (\<lambda>e. Inr (e \<noteq> coulomb))) [0..<final]) (\<lambda>e_drift.
      rbind (rmap (\<lambda>n. rbind (magnetic_field C a n) (\<lambda>b. Inr (list_ex (\<lambda>x. x \<noteq> 0) b))) [0..<final + 1]) (\<lambda>b_drift.
      require (\<not> list_ex id (e_drift @ b_drift)) (Inr load))))))))))))))"

definition coulomb_static_solution :: "matrix \<Rightarrow> vec \<Rightarrow> int \<Rightarrow> vec res" where
  "coulomb_static_solution C rho steps = require (length rho = ports)
     (rbind (green_potential rho) (\<lambda>potential.
      let phi = constant_history (map uminus potential) steps; current = constant_history zero_seams (max (steps - 1) 1);
          rho_history = constant_history rho steps
      in rbind (evolve C zero_seams zero_seams phi current steps (Some rho_history) True) (\<lambda>run.
         rbind (static_join_receipt C (ev_potential run) phi current) (\<lambda>load. rbind (coulomb_field rho) (\<lambda>coulomb.
         rbind (first_bad (\<lambda>n. rbind (electric_field (ev_potential run) phi n) (\<lambda>e. Inr (e \<noteq> coulomb))) [0..<nat steps]) (\<lambda>r.
         require (r = None) (Inr load)))))))"

section \<open>A constant solution is the Coulomb solution\<close>

context leapfrog_solution
begin

lemma static_electric:
  assumes "\<And>n. n < final + 1 \<Longrightarrow> a ! n = a ! 0" "\<And>n. n < final \<Longrightarrow> phi ! n = phi ! 0" "n < final"
  shows "electric_of a phi n = map (\<lambda>e. - grad (phi ! 0) e) [0..<seams]"
  using assms(1) [of n] assms(1) [of "n + 1"] assms(2) [of n] assms(3) by (simp add: electric_of_def el_at_def [abs_def])

lemma static_magnetic:
  assumes "\<And>n. n < final + 1 \<Longrightarrow> a ! n = a ! 0" "\<And>n. n < final \<Longrightarrow> phi ! n = phi ! 0" "2 \<le> final"
    and "\<And>n e. n < final - 1 \<Longrightarrow> e < seams \<Longrightarrow> current ! n ! e = 0" "f < faces"
  shows "mag_at C a 0 f = 0"
proof -
  have n: "0 < final - 1" "1 < final" using assms(3) by auto
  have eq: "a ! 1 = a ! 0" "a ! 2 = a ! 0" "phi ! 1 = phi ! 0" using assms(1) [of 1] assms(1) [of 2] assms(2) [of 1] assms(3) by auto
  have k: "cocurl C (mag_at C a 0) e = 0" if e: "e < seams" for e
  proof -
    have "mag_at C a 1 = mag_at C a 0" using eq by (simp add: mag_at_def [abs_def])
    moreover have "el_at a phi 1 e = el_at a phi 0 e" using eq by (simp add: el_at_def numeral_2_eq_2)
    ultimately show ?thesis using ampere_at [OF n(1) e] assms(4) [OF n(1) e] by simp
  qed
  have "(\<Sum>f<faces. mag_at C a 0 f * mag_at C a 0 f) = (\<Sum>e<seams. cocurl C (mag_at C a 0) e * (a ! 0 ! e))"
    using adjoint [of "mag_at C a 0" seams "entry_of C" "(!) (a ! 0)" faces] by (simp add: cocurl_def mag_at_def [abs_def])
  also have "\<dots> = 0" using k by simp
  finally show ?thesis using assms(5) by (rule square_sum_zero)
qed

lemma static_join_returns:
  assumes "\<And>n. n < final + 1 \<Longrightarrow> a ! n = a ! 0" "\<And>n. n < final \<Longrightarrow> phi ! n = phi ! 0"
    and "\<And>n e. n < final - 1 \<Longrightarrow> e < seams \<Longrightarrow> current ! n ! e = 0" "\<And>f. f < faces \<Longrightarrow> mag_at C a 0 f = 0"
  shows "static_join_receipt C a phi current = Inr (map (\<lambda>p. - lap ((!) (phi ! 0)) p) [0..<ports])"
    and "n < final \<Longrightarrow> electric_field a phi n = Inr (coulomb_of (map (\<lambda>p. - lap ((!) (phi ! 0)) p) [0..<ports]))"
proof -
  let ?load = "map (\<lambda>p. - lap ((!) (phi ! 0)) p) [0..<ports]"
  have neutral: "length ?load = ports" "sum_list ?load = 0"
    unfolding sum_list_upt using boundary_neutral by (simp_all add: sum_negf)
  have coulomb: "coulomb_of ?load = map (\<lambda>e. - grad (phi ! 0) e) [0..<seams]"
  proof -
    obtain G where G: "green_matrix = Inr G" using green_matrix_returns by blast
    have "green_at ((!) ?load) = (\<lambda>p. - green_at (lap ((!) (phi ! 0))) p)"
      unfolding green_at_def G sum.case mat_vec_minus [symmetric] by (intro ext mat_vec_cong) simp
    then show ?thesis unfolding coulomb_of_def by (simp add: mat_vec_minus green_of_gradient)
  qed
  have el: "electric_field a phi n = Inr (coulomb_of ?load)" if "n < final" for n
  proof -
    have "electric_field a phi n = Inr (electric_of a phi n)"
      using vectors that by (intro electric_field_eq) (auto simp: arity_def)
    moreover have "electric_of a phi n = coulomb_of ?load"
      unfolding coulomb by (rule static_electric [OF assms(1,2) that])
    ultimately show ?thesis by simp
  qed
  then show "n < final \<Longrightarrow> electric_field a phi n = Inr (coulomb_of ?load)" .
  have mg: "magnetic_field C a n = Inr (map (\<lambda>f. 0) [0..<faces])" if "n < final + 1" for n
  proof -
    have "magnetic_field C a n = Inr (magnetic_of C a n)"
      using vectors fits that by (intro magnetic_field_eq) (auto simp: arity_def)
    moreover have "mag_at C a n = mag_at C a 0" using assms(1) [OF that] by (simp add: mag_at_def [abs_def])
    ultimately show ?thesis using assms(4) by (simp add: magnetic_of_def)
  qed
  have f: "length a - 1 = final" using vectors(1) by simp
  have ca: "list_all (\<lambda>x. x = a ! 0) a"
    unfolding list_all_length vectors(1) by (intro allI impI) (rule assms(1))
  have cp: "first_bad (moves phi) [0..<final] = Inr None"
  proof (rule first_bad_None)
    fix n
    assume "n \<in> set [0..<final]"
    then have n: "n < final" by simp
    have "item phi n = Inr (phi ! n)" "item phi 0 = Inr (phi ! 0)"
      using arityD [OF vectors(3) n] arityD [OF vectors(3), of 0] steps by auto
    then show "moves phi n = Inr False" using assms(2) [OF n] by (simp add: moves_def)
  qed
  have cj: "first_bad (flows current) [0..<final - 1] = Inr None"
  proof (rule first_bad_None)
    fix n
    assume "n \<in> set [0..<final - 1]"
    then have n: "n < final - 1" by simp
    have "\<not> list_ex (\<lambda>x. x \<noteq> 0) (current ! n)"
      using arityD [OF vectors(4) n] assms(3) [OF n] by (auto simp: list_ex_length)
    then show "flows current n = Inr False" using arityD [OF vectors(4) n] by (simp add: flows_def)
  qed
  obtain r where r: "verify_history C a phi current None True = Inr r"
    using receipts_without_load [of True] unfolding verified by blast
  have e0: "electric_field a phi 0 = Inr (coulomb_of ?load)" using el steps by simp
  have ed: "rmap (\<lambda>n. rbind (electric_field a phi n) (\<lambda>e. Inr (e \<noteq> coulomb_of ?load))) [0..<final] = Inr (map (\<lambda>n. False) [0..<final])"
    using el by (intro rmap_Inr_map) simp
  have bd: "rmap (\<lambda>n. rbind (magnetic_field C a n) (\<lambda>b. Inr (list_ex (\<lambda>x. x \<noteq> 0) b))) [0..<final + 1] = Inr (map (\<lambda>n. False) [0..<final + 1])"
  proof (rule rmap_Inr_map)
    fix n
    assume "n \<in> set [0..<final + 1]"
    then have n: "n < final + 1" by auto
    show "rbind (magnetic_field C a n) (\<lambda>b. Inr (list_ex (\<lambda>x. x \<noteq> 0) b)) = Inr False"
      unfolding mg [OF n] by (simp add: list_ex_iff)
  qed
  have q: "\<not> list_ex id (map (\<lambda>n. False) [0..<final] @ map (\<lambda>n. False) [0..<final + 1])" by (auto simp: list_ex_iff)
  show "static_join_receipt C a phi current = Inr ?load"
    unfolding static_join_receipt_def Let_def f cp cj rbind_Inr r e0 coulomb_gauss [OF neutral] coulomb_field_eq [OF neutral] ed bd
    using ca neutral q by (simp add: require_def)
qed

text \<open>With zero current, constant scalar potential and zero data the history stays zero.\<close>

lemma zero_run:
  assumes "a ! 0 = zero_seams" "a ! 1 = zero_seams" "\<And>n. n < final \<Longrightarrow> phi ! n = phi ! 0"
    and "\<And>n e. n < final - 1 \<Longrightarrow> e < seams \<Longrightarrow> current ! n ! e = 0" "n < final + 1"
  shows "a ! n = zero_seams"
  using assms(5)
proof (induction n rule: less_induct)
  case (less n)
  show ?case
  proof (cases "n < 2")
    case True
    then have "n = 0 \<or> n = 1" by auto
    then show ?thesis using assms(1,2) by auto
  next
    case False
    then obtain m where m: "n = m + 2" by (metis add.commute le_Suc_ex not_less)
    have i: "m < final - 1" "m < final" "m + 1 < final" using less.prems m by auto
    have z: "a ! m = zero_seams" "a ! (m + 1) = zero_seams" using less.IH [of m] less.IH [of "m + 1"] less.prems m by auto
    have k: "cocurl C (mag_at C a (m + 1)) e = 0" for e
    proof -
      have "mag_at C a (m + 1) f = 0" for f unfolding mag_at_def z by (simp add: mat_vec_def)
      then show ?thesis by (simp add: cocurl_def mat_vec_t_def)
    qed
    have p: "phi ! m = phi ! 0" "phi ! (m + 1) = phi ! 0" using assms(3) i(2,3) by blast+
    have "a ! n ! e = 0" if "e < seams" for e
      using solution [OF i(1)] that assms(4) [OF i(1) that] k unfolding m solves_def z p by (simp add: mat_vec_def)
    moreover have "length (a ! n) = seams" using vectors(2) less.prems by (simp add: arity_def)
    ultimately show ?thesis by (intro nth_equalityI) simp_all
  qed
qed

end


section \<open>The Coulomb run\<close>

lemma coulomb_static_exact:
  assumes "closed_faces C" "length rho = ports" "sum_list rho = 0" "1 \<le> steps"
  shows "coulomb_static_solution C rho steps = Inr rho"
proof -
  let ?p = "map (green_at ((!) rho)) [0..<ports]"
  define phi where "phi = constant_history (map uminus ?p) steps"
  define j where "j = constant_history zero_seams (max (steps - 1) 1)"
  define load where "load = constant_history rho steps"
  have phi: "phi ! n = map uminus ?p" if "n < nat steps" for n using that by (simp add: phi_def constant_nth)
  have j: "j ! n = zero_seams" if "n < nat steps - 1" for n using that by (simp add: j_def constant_nth)
  have l: "load ! n = rho" if "n < nat steps" for n using that by (simp add: load_def constant_nth)
  have "run_inputs C zero_seams zero_seams phi j steps"
    using assms(1,4) by (auto simp: run_inputs_def phi_def j_def intro!: constant_arity)
  from evolve_run [OF this] obtain a where e: "evolve C zero_seams zero_seams phi j steps (Some load) True =
      rbind (verify_history C a phi j (Some load) True) (\<lambda>r. Inr \<lparr>ev_potential = a, ev_receipts = Some r\<rparr>)"
    and s: "leapfrog_solution C a phi j (nat steps)" and a: "a ! 0 = zero_seams" "a ! 1 = zero_seams" by force
  have pos: "0 < nat steps" using assms(4) by simp
  have p0: "phi ! n = phi ! 0" if "n < nat steps" for n using phi [OF that] phi [OF pos] by simp
  have j0: "j ! n ! e = 0" if "n < nat steps - 1" "e < seams" for n e using j that by simp
  have an: "a ! n = zero_seams" if "n < nat steps + 1" for n
    by (rule leapfrog_solution.zero_run [OF s a p0 j0 that])
  have a0: "a ! n = a ! 0" if "n < nat steps + 1" for n using an [OF that] a(1) by simp
  have m0: "mag_at C a 0 f = 0" for f by (simp add: mag_at_def a(1) mat_vec_def)
  have rho: "map (\<lambda>p. - lap ((!) (phi ! 0)) p) [0..<ports] = rho"
  proof -
    have "lap ((!) (phi ! 0)) p = - rho ! p" if "p < ports" for p
    proof -
      have "lap ((!) (phi ! 0)) p = lap (\<lambda>q. - green_at ((!) rho) q) p"
        unfolding phi [OF pos] by (intro mat_vec_t_cong mat_vec_cong) simp
      also have "\<dots> = - lap (green_at ((!) rho)) p"
        by (simp add: mat_vec_minus [abs_def]) (simp add: mat_vec_t_def sum_negf)
      finally show ?thesis
        using green_solves [OF that, of "(!) rho"] sum_list_nth [OF assms(2)] assms(3) by simp
    qed
    then show ?thesis using assms(2) by (intro nth_equalityI) auto
  qed
  have joined: "static_join_receipt C a phi j = Inr rho" "\<And>n. n < nat steps \<Longrightarrow> electric_field a phi n = Inr (coulomb_of rho)"
    using leapfrog_solution.static_join_returns [OF s] a0 p0 j0 m0 unfolding rho by blast+
  have el: "electric_of a phi n = coulomb_of rho" if "n < nat steps" for n
  proof -
    have "electric_field a phi n = Inr (electric_of a phi n)"
      using leapfrog_solution.vectors [OF s] that by (intro electric_field_eq) (auto simp: arity_def)
    then show ?thesis using joined(2) [OF that] by simp
  qed
  have gauss: "gauss_holds a phi load 0"
  proof -
    have "map (div_at (el_at a phi 0)) [0..<ports] = rho"
    proof -
      have "boundary (electric_of a phi 0) = Inr (map (div_at (el_at a phi 0)) [0..<ports])"
        unfolding electric_of_def by (rule divergence_list)
      then show ?thesis unfolding el [OF pos] coulomb_gauss [OF assms(2,3)] by simp
    qed
    then have "div_at (el_at a phi 0) p = rho ! p" if "p < ports" for p
      using that nth_map [of p "[0..<ports]" "div_at (el_at a phi 0)"] by simp
    then show ?thesis unfolding gauss_holds_def l [OF pos] by blast
  qed
  have cont: "continuous_at j load n" if "n < nat steps - 1" for n
    using that l [of n] l [of "n + 1"] j [OF that] by (simp add: continuous_at_def mat_vec_t_def)
  have "arity (nat steps) ports load" unfolding load_def using assms(2) by (intro constant_arity) simp_all
  from leapfrog_solution.receipts_with_load [OF s this] obtain t where
    "verify_history C a phi j (Some load) True = Inr t"
    using gauss cont unfolding leapfrog_solution.verified [OF s] by auto
  then have ev: "evolve C zero_seams zero_seams phi j steps (Some load) True = Inr \<lparr>ev_potential = a, ev_receipts = Some t\<rparr>"
    using e by simp
  have loop: "first_bad (\<lambda>n. rbind (electric_field a phi n) (\<lambda>e. Inr (e \<noteq> coulomb_of rho))) [0..<nat steps] = Inr None"
    using joined(2) by (intro first_bad_None) simp
  show ?thesis
    unfolding coulomb_static_solution_def green_potential_eq [OF assms(2,3)] rbind_Inr Let_def
      phi_def [symmetric] j_def [symmetric] load_def [symmetric] ev evolution.simps joined(1) coulomb_field_eq [OF assms(2,3)] loop
    using assms(2) by (simp add: require_def)
qed

lemma coulomb_static_refuses:
  "\<not> (length rho = ports \<and> sum_list rho = 0 \<and> 1 \<le> steps) \<Longrightarrow> coulomb_static_solution C rho steps = Inl ValueError"
proof -
  assume n: "\<not> (length rho = ports \<and> sum_list rho = 0 \<and> 1 \<le> steps)"
  show ?thesis
  proof (cases "length rho = ports \<and> sum_list rho = 0")
    case True
    then have "\<not> 1 \<le> steps" using n by simp
    then show ?thesis
      using True by (simp add: coulomb_static_solution_def green_potential_eq Let_def evolve_def require_def)
  next
    case False
    then show ?thesis using load_refused [of rho] by (auto simp: coulomb_static_solution_def green_potential_def require_def)
  qed
qed

end
