(* ===== verification/Em_Properties.thy ===== *)
theory Em_Properties
  imports Em_Static
begin

text \<open>The properties of the discrete electromagnetism, over the lemmas of the \<open>Em_\<close> theories.\<close>

text \<open>C25: for vectors of the right length and any closed face matrix, \<open>LeapfrogLane.evolve\<close> without
  a declared load returns a history that starts with the two given vectors and solves the recursion
  at every step, and every receipt that \<open>verify_history\<close> recomputes on it holds: Ampere, Faraday,
  the codifferential boundary, the balance of the quadratic form and its zero drift.\<close>

theorem leapfrog_receipts_exact:
  assumes "run_inputs C a0 a1 phi current steps"
  shows "\<exists>run r. evolve C a0 a1 phi current steps None True = Inr run \<and> ev_receipts run = Some r \<and>
    length (ev_potential run) = nat steps + 1 \<and> take 2 (ev_potential run) = [a0, a1] \<and>
    (\<forall>n < nat steps - 1. solves C phi current (ev_potential run) n) \<and>
    ampere_exact r \<and> faraday_exact r \<and> codifferential_zero r \<and> balance_exact r \<and> drift_zero r \<noteq> Some False \<and> tr_failures r = []"
proof -
  obtain a where e: "evolve C a0 a1 phi current steps None True =
      rbind (verify_history C a phi current None True) (\<lambda>r. Inr \<lparr>ev_potential = a, ev_receipts = Some r\<rparr>)"
    and s: "leapfrog_solution C a phi current (nat steps)" and a: "a ! 0 = a0" "a ! 1 = a1"
    using evolve_run [OF assms] by force
  obtain r where r: "verify_history C a phi current None True = Inr r" "ampere_exact r" "faraday_exact r" "codifferential_zero r"
    "balance_exact r" "drift_zero r \<noteq> Some False" "tr_failures r = []"
    using leapfrog_solution.receipts_without_load [OF s, of True] unfolding leapfrog_solution.verified [OF s] by blast
  have l: "length a = nat steps + 1" "1 \<le> nat steps" using s by (simp_all add: leapfrog_solution_def)
  have "take 2 a = [a0, a1]" using l a by (cases a; cases "tl a") auto
  then show ?thesis
    using e r l(1) leapfrog_solution.solution [OF s] by simp
qed

lemma demo_run_inputs: "run_inputs face_incidence_matrix zero_seams kick (constant_history zero_ports 3) (constant_history zero_seams 2) 3"
  using demo_inputs [of 3] by simp

lemma leapfrog_receipts_exact_witness: "\<exists>run r. evolve face_incidence_matrix zero_seams kick (constant_history zero_ports 3)
    (constant_history zero_seams 2) 3 None True = Inr run \<and> ev_receipts run = Some r \<and> tr_failures r = []"
  using leapfrog_receipts_exact [OF demo_run_inputs] by blast

text \<open>C26: with a declared load the same run is accepted exactly when Gauss's law holds for the initial
  field and the load obeys the continuity equation at every step; otherwise \<open>verify_history\<close>
  refuses it with a \<open>ValueError\<close>. An accepted run satisfies Gauss's law at every step.\<close>

theorem gauss_propagates:
  assumes "run_inputs C a0 a1 phi current steps" "arity (nat steps) ports rho"
  shows "if gauss_holds [a0, a1] phi rho 0 \<and> (\<forall>n < nat steps - 1. continuous_at current rho n)
    then \<exists>run r g. evolve C a0 a1 phi current steps (Some rho) True = Inr run \<and> ev_receipts run = Some r \<and>
      tr_gauss r = Some g \<and> gauss_propagated g \<and> first_gauss_failure g = None
    else evolve C a0 a1 phi current steps (Some rho) True = Inl ValueError"
proof -
  obtain a where e: "evolve C a0 a1 phi current steps (Some rho) True =
      rbind (verify_history C a phi current (Some rho) True) (\<lambda>r. Inr \<lparr>ev_potential = a, ev_receipts = Some r\<rparr>)"
    and s: "leapfrog_solution C a phi current (nat steps)" and a: "a ! 0 = a0" "a ! 1 = a1"
    using evolve_run [OF assms(1)] by force
  have "el_at a phi 0 = el_at [a0, a1] phi 0" using a by (simp add: el_at_def [abs_def])
  then have g: "gauss_holds a phi rho 0 = gauss_holds [a0, a1] phi rho 0" by (simp add: gauss_holds_def)
  obtain r where r: "verify_history C a phi current (Some rho) True = (if tr_failures r = [] then Inr r else Inl ValueError)"
    "tr_failures r = [] \<longleftrightarrow> gauss_holds a phi rho 0 \<and> (\<forall>n < nat steps - 1. continuous_at current rho n)"
    "tr_failures r = [] \<longrightarrow> (\<exists>g. tr_gauss r = Some g \<and> gauss_propagated g \<and> first_gauss_failure g = None)"
    using leapfrog_solution.receipts_with_load [OF s assms(2)] unfolding leapfrog_solution.verified [OF s] by blast
  show ?thesis
    using e r g by (cases "tr_failures r = []") auto
qed

lemma gauss_propagates_witness: "\<exists>run. evolve face_incidence_matrix zero_seams kick (constant_history zero_ports 3)
    (constant_history zero_seams 2) 3 (Some (constant_history zero_ports 3)) True = Inr run"
proof -
  have r: "arity (nat 3) ports (constant_history zero_ports 3)" by (rule constant_arity) simp_all
  have "gauss_holds [zero_seams, kick] (constant_history zero_ports 3) (constant_history zero_ports 3) 0"
  proof -
    have "el_at [zero_seams, kick] (constant_history zero_ports 3) 0 e = 0 - kick ! e" if "e < seams" for e
      using that by (simp add: el_at_def constant_nth mat_vec_def)
    then have "div_at (el_at [zero_seams, kick] (constant_history zero_ports 3) 0) p = div_at (\<lambda>e. 0 - kick ! e) p" for p
      by (intro mat_vec_t_cong) simp
    then show ?thesis unfolding gauss_holds_def mat_vec_t_diff using kick_closed by (simp add: constant_nth mat_vec_t_def)
  qed
  moreover have "\<forall>n < nat 3 - 1. continuous_at (constant_history zero_seams 2) (constant_history zero_ports 3) n"
    using demo_continuous [of _ 2] by simp
  ultimately show ?thesis
    using gauss_propagates [OF demo_run_inputs r] by auto
qed

text \<open>C27: a time-dependent gauge transformation of a well-formed history returns, leaves the electric
  and magnetic fields of every step unchanged, and \<open>gauge_invariance_receipt\<close> accepts it, whether
  or not the history solves the Ampere law.\<close>

theorem gauge_invariance_exact:
  assumes "closed_faces C" "1 \<le> final" "length a = final + 1" "length phi = final"
    and "arity (final + 1) seams a" "arity final ports phi" "arity (final - 1) seams current" "arity (final + 1) ports chi"
  shows "\<exists>a' phi'. gauge_transform a phi chi = Inr (a', phi') \<and> (\<forall>n < final. electric_field a' phi' n = electric_field a phi n) \<and>
    (\<forall>n < final + 1. magnetic_field C a' n = magnetic_field C a n) \<and> gauge_invariance_receipt C a phi current chi = Inr final"
proof -
  let ?a = "gauged_potential a chi" and ?phi = "gauged_scalar phi chi"
  have t: "gauge_transform a phi chi = Inr (?a, ?phi)"
    by (rule gauge_transform_eq) (use assms in simp_all)
  have la: "arity (final + 1) seams ?a" using assms(3) by (simp add: gauged_potential_def arity_def del: upt_Suc)
  have lp: "arity final ports ?phi" using assms(4) by (simp add: gauged_scalar_def arity_def del: upt_Suc)
  have e: "electric_field ?a ?phi n = electric_field a phi n" if "n < final" for n
  proof -
    have "electric_field x y n = Inr (electric_of x y n)" if "arity (final + 1) seams x" "arity final ports y" for x y
      using that \<open>n < final\<close> by (intro electric_field_eq) (auto simp: arity_def)
    then show ?thesis using la lp assms(5,6) gauged_electric that assms(3,4) by simp
  qed
  have b: "magnetic_field C ?a n = magnetic_field C a n" if "n < final + 1" for n
  proof -
    have "magnetic_field C x n = Inr (magnetic_of C x n)" if "arity (final + 1) seams x" for x
      using that \<open>n < final + 1\<close> assms(1) by (intro magnetic_field_eq) (auto simp: arity_def closed_faces_def)
    then show ?thesis using la assms(5) gauged_magnetic [OF _ assms(1)] that assms(3) by simp
  qed
  show ?thesis using t e b gauge_receipt_returns [OF assms] by blast
qed

lemma gauge_invariance_exact_witness:
  "gauge_invariance_receipt face_incidence_matrix [zero_seams, kick] [zero_ports] [] [zero_ports, map of_nat [0..<ports]] = Inr 1"
proof -
  have "arity (1 + 1) seams [zero_seams, kick]" "arity 1 ports [zero_ports]" "arity (1 - 1) seams []"
    "arity (1 + 1) ports [zero_ports, map of_nat [0..<ports]]"
    using kick_length by (auto simp: arity_def less_Suc_eq)
  from gauge_invariance_exact [OF committed_faces _ _ _ this] show ?thesis by auto
qed

text \<open>the committed demonstration runs for every positive number of steps: its anchors hold, all
  its receipts hold and the wave recursion is exact on every interior step; fewer than one step is
  refused.\<close>

theorem demo_bundle_exact:
  "if 1 \<le> steps then \<exists>r t. demo_bundle steps = Inr r \<and> demo_steps r = steps \<and> demo_wave r = steps - 1 \<and>
       demo_receipts r = Some t \<and> tr_failures t = []
   else demo_bundle steps = Inl ValueError"
proof (cases "1 \<le> steps")
  case True
  then show ?thesis using demo_returns by fastforce
next
  case False
  then show ?thesis by (simp add: demo_bundle_def kick_value Let_def evolve_def require_def)
qed

text \<open>C28: \<open>_invert\<close> returns the two-sided inverse of a square matrix or, when some column has no pivot,
  refuses a matrix that is singular.\<close>

theorem inversion_exact:
  assumes "shape n n M"
  shows "case invert M of
      Inl err \<Rightarrow> err = ValueError \<and> (\<exists>x. (\<exists>i < n. x i \<noteq> 0) \<and> (\<forall>r < n. mat_vec n (entry_of M) x r = 0))
    | Inr N \<Rightarrow> shape n n N \<and> (\<forall>x y. (\<forall>r < n. mat_vec n (entry_of M) x r = y r) \<longleftrightarrow> (\<forall>r < n. x r = mat_vec n (entry_of N) y r))"
  by (rule invert_correct [OF assms])

lemma inversion_exact_witness: "invert [[0, 1], [2, 1]] = Inr [[- 1 / 2, 1 / 2], [1, 0]] \<and>
    (case invert [[0, 1], [2, 1]] of Inl err \<Rightarrow> False | Inr N \<Rightarrow> shape 2 2 N)"
proof -
  have i: "invert [[0, 1], [2, 1]] = Inr [[- 1 / 2, 1 / 2], [1, 0]]" by code_simp
  have "shape 2 2 [[0, 1], [2, 1]]" by (simp add: shape_def less_2_cases_iff)
  from inversion_exact [OF this] show ?thesis unfolding i by simp
qed

text \<open>\<open>tree_solution\<close> returns for a load exactly when it has twelve entries and sum zero; the
  current it returns is the only one supported on the spanning tree whose divergence is the load.
  Other loads are refused with a \<open>ValueError\<close>.\<close>

theorem tree_solution_exact:
  "if length load = ports \<and> sum_list load = 0
   then \<exists>c. tree_solution load = Some (Inr c) \<and> boundary c = Inr load \<and>
     (\<forall>d. length d = seams \<and> list_all (\<lambda>e. d ! e = 0) chord_seams \<and> boundary d = Inr load \<longleftrightarrow> d = c)
   else tree_solution load = Some (Inl ValueError)"
proof (cases "length load = ports \<and> sum_list load = 0")
  case True
  have u: "d = carried load" if "length d = seams" "\<forall>e \<in> set chord_seams. d ! e = 0" "boundary d = Inr load" for d
    using boundary_injective [OF that(1,2)] that(3) by simp
  have b: "boundary (carried load) = Inr load" using boundary_carried True by blast
  have "\<forall>d. length d = seams \<and> list_all (\<lambda>e. d ! e = 0) chord_seams \<and> boundary d = Inr load \<longleftrightarrow> d = carried load"
    using u b carried_on_tree unfolding list_all_iff by metis
  then show ?thesis using True b tree_solution_value by auto
next
  case False
  then have "tree_solution load = Some (Inl ValueError)" by (intro tree_solution_refuses) blast
  then show ?thesis unfolding if_not_P [OF False] .
qed

text \<open>the Thomson decomposition of a neutral load succeeds: the Coulomb field has the load as its
  divergence, its energy and that of the cycle part add up to the energy of the tree solution, so
  no more energy than the tree solution; every other load is refused.\<close>

theorem thomson_exact:
  "if length rho = ports \<and> sum_list rho = 0
   then \<exists>r. thomson_decomposition rho = Some (Inr r) \<and> boundary (th_coulomb r) = Inr rho \<and> boundary (th_tree r) = Inr rho \<and>
     tree_solution_energy r = coulomb_energy r + cycle_part_energy r \<and> coulomb_energy r \<le> tree_solution_energy r
   else thomson_decomposition rho = Some (Inl ValueError)"
  using thomson_eq [of rho] coulomb_gauss [of rho] boundary_carried [of rho] thomson_refuses [of rho] by auto

text \<open>two seam vectors have the same field strength exactly when a gauge transformation takes one
  to the other.\<close>

theorem field_strength_orbits:
  assumes "length A = seams" "length B = seams"
  shows "field_strength A = field_strength B \<longleftrightarrow>
    (\<exists>chi. length chi = ports \<and> rbind (coboundary chi) (zip_with (+) A) = Inr B)"
  by (rule field_strength_gauge [OF assms])

lemma field_strength_orbits_witness:
  "field_strength zero_seams = field_strength (map (\<lambda>e. of_nat (seam_right ! e) - of_nat (seam_left ! e)) [0..<seams])"
proof -
  let ?chi = "map of_nat [0..<ports] :: vec" and ?B = "map (\<lambda>e. of_nat (seam_right ! e) - of_nat (seam_left ! e)) [0..<seams] :: vec"
  have "rbind (coboundary ?chi) (zip_with (+) zero_seams) = Inr ?B"
    using seam_ends by (auto simp: coboundary_def zip_with_def require_def intro!: nth_equalityI)
  then have "\<exists>chi. length chi = ports \<and> rbind (coboundary chi) (zip_with (+) zero_seams) = Inr ?B"
    by (intro exI [of _ ?chi]) simp
  then show ?thesis using field_strength_orbits [of zero_seams ?B] by simp
qed

text \<open>on a closed face matrix \<open>coulomb_static_solution\<close> returns exactly for a neutral load of twelve
  entries and at least one step: the run from zero data passes every receipt and the static join,
  and the load that the join reads off is the declared one.\<close>

theorem coulomb_static_run:
  assumes "closed_faces C"
  shows "coulomb_static_solution C rho steps =
    (if length rho = ports \<and> sum_list rho = 0 \<and> 1 \<le> steps then Inr rho else Inl ValueError)"
  using coulomb_static_exact [OF assms] coulomb_static_refuses by simp

lemma coulomb_static_run_witness: "coulomb_static_solution face_incidence_matrix ([1, - 1] @ replicate 10 0) 4 = Inr ([1, - 1] @ replicate 10 0)"
  using coulomb_static_run [OF committed_faces, of "[1, - 1] @ replicate 10 0" 4] by (simp add: ports_def sum_list_replicate)

end
