(* ===== verification/Port_Carrier.thy ===== *)
theory Port_Carrier
  imports Prelude Complex_Main "HOL-Library.Product_Lexorder"
begin

text \<open>
  The exact twelve-port carrier of integer loads (\<open>oph_fpe/dynamics/self_readback_repair_closure.py\<close>,
  \<open>oph_exact/carrier.py\<close>): the oriented faces, the thirty seams derived from them, and the protected
  sectors of loads with a fixed total, enumerated in two ways.  The lemmas evaluate the carrier and
  show that both enumerations list exactly the sector, one in ascending and one in descending order.
\<close>

section \<open>Faces and seams\<close>

type_synonym seam = "nat \<times> nat"
type_synonym loads = "int list"

definition port_count :: nat where "port_count = 12"

definition seam_count :: nat where "seam_count = 30"

definition oriented_base_faces :: "(nat \<times> nat \<times> nat) list" where
  "oriented_base_faces = [(0, 11, 5), (0, 5, 1), (0, 1, 7), (0, 7, 10), (0, 10, 11), (1, 5, 9), (5, 11, 4),
     (11, 10, 2), (10, 7, 6), (7, 1, 8), (3, 9, 4), (3, 4, 2), (3, 2, 6), (3, 6, 8), (3, 8, 9), (4, 9, 5),
     (2, 4, 11), (6, 2, 10), (8, 6, 7), (9, 8, 1)]"

definition sorted_pair :: "nat \<Rightarrow> nat \<Rightarrow> seam" where
  "sorted_pair a b = (if a \<le> b then (a, b) else (b, a))"

fun face_edges :: "nat \<times> nat \<times> nat \<Rightarrow> seam list" where
  "face_edges (a, b, c) = [sorted_pair a b, sorted_pair b c, sorted_pair c a]"

text \<open>One seam adds one to the degree of both ports.\<close>

definition count_ends :: "seam \<Rightarrow> nat list \<Rightarrow> nat list" where
  "count_ends e degrees = (let degrees = degrees[fst e := degrees ! fst e + 1]
     in degrees[snd e := degrees ! snd e + 1])"

definition exact_reference_edges :: "seam list res" where
  "exact_reference_edges = (let edges = sort (remdups (concat (map face_edges oriented_base_faces))) in
     if length edges \<noteq> seam_count then Inl ValueError
     else if fold count_ends edges (replicate port_count 0) \<noteq> replicate port_count 5 then Inl ValueError
     else Inr edges)"

text \<open>\<open>carrier.seams\<close>; the checks of \<open>exact_reference_edges\<close> pass, as \<open>exact_reference_edges_Inr\<close> shows.\<close>

definition port_seams :: "seam list" where
  "port_seams = (case exact_reference_edges of Inl err \<Rightarrow> [] | Inr edges \<Rightarrow> edges)"

definition directed_labels :: "seam list" where
  "directed_labels = concat (map (\<lambda>(i, j). [(i, j), (j, i)]) port_seams)"

section \<open>Protected sectors\<close>

text \<open>The recursive generator of the dynamics laboratory; it is called with at least one slot.\<close>

fun compositions :: "nat \<Rightarrow> nat \<Rightarrow> loads list" where
  "compositions load 0 = []"
| "compositions load (Suc 0) = [[int load]]"
| "compositions load (Suc (Suc slots)) =
     concat (map (\<lambda>n. map ((#) (int n)) (compositions (load - n) (Suc slots))) [0..<load + 1])"

definition enumerate_protected_sector :: "int \<Rightarrow> loads list res" where
  "enumerate_protected_sector load =
     (if load < 0 then Inl ValueError else Inr (compositions (nat load) port_count))"

text \<open>\<open>itertools.combinations\<close>, in its order.\<close>

fun combinations :: "'a list \<Rightarrow> nat \<Rightarrow> 'a list list" where
  "combinations xs 0 = [[]]"
| "combinations [] (Suc k) = []"
| "combinations (x # xs) (Suc k) = map ((#) x) (combinations xs k) @ combinations xs (Suc k)"

text \<open>The gaps between the chosen bars; \<open>previous\<close> starts at minus one and \<open>final\<close> closes the last gap.\<close>

fun bar_gaps :: "int \<Rightarrow> int \<Rightarrow> nat list \<Rightarrow> loads" where
  "bar_gaps final previous [] = [final - previous - 1]"
| "bar_gaps final previous (bar # bars) = (int bar - previous - 1) # bar_gaps final (int bar) bars"

text \<open>Called with at least one part; the list is sorted in descending order.\<close>

definition weak_compositions :: "nat \<Rightarrow> nat \<Rightarrow> loads list" where
  "weak_compositions load parts = rev (sort (map (bar_gaps (int (load + parts - 1)) (- 1))
     (combinations [0..<load + parts - 1] (parts - 1))))"

section \<open>Distances and the inverse ports\<close>

definition adjacent :: "nat \<Rightarrow> nat \<Rightarrow> bool" where
  "adjacent i j \<longleftrightarrow> (i, j) \<in> set port_seams \<or> (j, i) \<in> set port_seams"

text \<open>Row \<open>p\<close> of \<open>reach\<close> lists the ports reached from \<open>p\<close>; the loop stops when every row is full.\<close>

definition reach_more :: "nat list list \<Rightarrow> nat list list" where
  "reach_more reach = map (\<lambda>row. filter (\<lambda>q. q \<in> set row \<or> list_ex (\<lambda>r. adjacent r q) row) [0..<port_count]) reach"

definition mark_new :: "int \<Rightarrow> nat list list \<Rightarrow> nat list list \<Rightarrow> int list list \<Rightarrow> int list list" where
  "mark_new step reach more apart = map (\<lambda>p. map (\<lambda>q.
     if q \<in> set (more ! p) \<and> q \<notin> set (reach ! p) then step else apart ! p ! q) [0..<port_count]) [0..<port_count]"

fun distance_loop :: "nat list \<Rightarrow> nat list list \<Rightarrow> int list list \<Rightarrow> int list list" where
  "distance_loop [] reach apart = apart"
| "distance_loop (step # steps) reach apart = (let more = reach_more reach; apart = mark_new (int step) reach more apart
     in if list_all (\<lambda>row. length row = port_count) more then apart else distance_loop steps more apart)"

definition graph_distance :: "int list list" where
  "graph_distance = distance_loop [1..<port_count] (map (\<lambda>p. [p]) [0..<port_count])
     (map (\<lambda>p. map (\<lambda>q. if p = q then 0 else - 1) [0..<port_count]) [0..<port_count])"

definition far_port :: "nat \<Rightarrow> nat res" where
  "far_port p = (case filter (\<lambda>q. graph_distance ! p ! q = 3) [0..<port_count] of [q] \<Rightarrow> Inr q | _ \<Rightarrow> Inl AssertionError)"

definition antipode :: "nat list res" where
  "antipode = rbind (rmap far_port [0..<port_count]) (\<lambda>pairing.
     if list_ex (\<lambda>p. pairing ! (pairing ! p) \<noteq> p \<or> pairing ! p = p) [0..<port_count] then Inl AssertionError
     else Inr pairing)"

section \<open>The carrier evaluated\<close>

lemma exact_reference_edges_Inr: "exact_reference_edges = Inr port_seams"
  by code_simp

lemma port_seams_eq [code]:
  "port_seams = [(0, 1), (0, 5), (0, 7), (0, 10), (0, 11), (1, 5), (1, 7), (1, 8), (1, 9), (2, 3), (2, 4),
     (2, 6), (2, 10), (2, 11), (3, 4), (3, 6), (3, 8), (3, 9), (4, 5), (4, 9), (4, 11), (5, 9), (5, 11),
     (6, 7), (6, 8), (6, 10), (7, 8), (7, 10), (8, 9), (10, 11)]"
  by code_simp

section \<open>The enumerations\<close>

lemma compositions_set:
  "set (compositions n (Suc k)) = {v. length v = Suc k \<and> (\<forall>a \<in> set v. 0 \<le> a) \<and> sum_list v = int n}"
proof (induction k arbitrary: n)
  case 0
  show ?case
  proof (intro set_eqI iffI)
    fix v :: loads
    assume "v \<in> {v. length v = Suc 0 \<and> (\<forall>a \<in> set v. 0 \<le> a) \<and> sum_list v = int n}"
    then show "v \<in> set (compositions n (Suc 0))" by (cases v) auto
  qed auto
next
  case (Suc k)
  show ?case
  proof (intro set_eqI iffI)
    fix v
    assume "v \<in> set (compositions n (Suc (Suc k)))"
    then obtain m w where v: "v = int m # w" and m: "m \<le> n" and w: "w \<in> set (compositions (n - m) (Suc k))"
      by (auto simp del: upt_Suc simp: less_Suc_eq_le)
    from w have "length w = Suc k" "\<forall>a \<in> set w. 0 \<le> a" "sum_list w = int (n - m)"
      unfolding Suc.IH by auto
    then show "v \<in> {v. length v = Suc (Suc k) \<and> (\<forall>a \<in> set v. 0 \<le> a) \<and> sum_list v = int n}"
      using m v by auto
  next
    fix v :: loads
    assume "v \<in> {v. length v = Suc (Suc k) \<and> (\<forall>a \<in> set v. 0 \<le> a) \<and> sum_list v = int n}"
    then obtain a w where v: "v = a # w" and a: "0 \<le> a" and w: "length w = Suc k" "\<forall>b \<in> set w. 0 \<le> b"
      and s: "a + sum_list w = int n" by (cases v) auto
    from w(2) have "0 \<le> sum_list w" by (simp add: sum_list_nonneg)
    with a s have m: "a = int (nat a)" "nat a \<le> n" and r: "sum_list w = int (n - nat a)" by auto
    from w r have "w \<in> set (compositions (n - nat a) (Suc k))" unfolding Suc.IH by simp
    then have "v \<in> (#) (int (nat a)) ` set (compositions (n - nat a) (Suc k))"
      unfolding v using m(1) by simp
    moreover have "nat a \<in> set [0..<n + 1]" using m(2) by (simp del: upt_Suc)
    ultimately show "v \<in> set (compositions n (Suc (Suc k)))"
      unfolding compositions.simps set_concat set_map image_image by (rule UN_I [rotated])
  qed
qed

lemma sorted_wrt_concat:
  assumes "\<And>xs. xs \<in> set xss \<Longrightarrow> sorted_wrt P xs"
    and "sorted_wrt (\<lambda>xs ys. \<forall>x \<in> set xs. \<forall>y \<in> set ys. P x y) xss"
  shows "sorted_wrt P (concat xss)"
  using assms by (induction xss) (auto simp: sorted_wrt_append)

lemma sorted_wrt_upt_map: "(\<And>i j. i < j \<Longrightarrow> P (f i) (f j)) \<Longrightarrow> sorted_wrt P (map f [0..<n])"
  by (auto simp: sorted_wrt_map sorted_wrt_iff_nth_less)

lemma compositions_ascending: "sorted_wrt (<) (compositions n (Suc k))"
proof (induction k arbitrary: n)
  case (Suc k)
  show ?case unfolding compositions.simps
  proof (rule sorted_wrt_concat)
    fix xs
    assume "xs \<in> set (map (\<lambda>i. map ((#) (int i)) (compositions (n - i) (Suc k))) [0..<n + 1])"
    then obtain i where "xs = map ((#) (int i)) (compositions (n - i) (Suc k))"
      by (auto simp del: upt_Suc)
    with Suc.IH [of "n - i"] show "sorted_wrt (<) xs"
      by (simp add: sorted_wrt_map)
  next
    show "sorted_wrt (\<lambda>xs ys. \<forall>x \<in> set xs. \<forall>y \<in> set ys. x < y)
      (map (\<lambda>i. map ((#) (int i)) (compositions (n - i) (Suc k))) [0..<n + 1])"
      by (rule sorted_wrt_upt_map) auto
  qed
qed simp

fun add_head :: "int \<Rightarrow> loads \<Rightarrow> loads" where
  "add_head d [] = []"
| "add_head d (x # xs) = (x + d) # xs"

lemma add_head_add [simp]: "add_head c (add_head d xs) = add_head (c + d) xs"
  by (cases xs) auto

lemma add_head_0 [simp]: "add_head 0 xs = xs"
  by (cases xs) auto

lemma map_add_head_0 [simp]: "map (add_head 0) xs = xs"
  by (simp add: map_idI)

lemma combinations_short: "length xs < k \<Longrightarrow> combinations xs k = []"
  by (induction xs k rule: combinations.induct) auto

lemma compositions_unfold:
  "compositions n (Suc (Suc k)) = map ((#) 0) (compositions n (Suc k)) @
     (if n = 0 then [] else map (add_head 1) (compositions (n - 1) (Suc (Suc k))))"
proof (cases n)
  case (Suc m)
  have *: "[0..<n + 1] = 0 # map Suc [0..<m + 1]"
    unfolding Suc by (simp add: map_Suc_upt upt_conv_Cons del: upt_Suc)
  show ?thesis unfolding compositions.simps * using Suc
    by (simp add: map_concat comp_def add.commute del: upt_Suc)
qed simp

lemma bars_compositions:
  "map (bar_gaps (int (a + k + n)) (int a - 1 - int d)) (combinations [a..<a + k + n] k) =
     map (add_head (int d)) (compositions n (Suc k))"
proof (induction "k + n" arbitrary: a k n d)
  case 0
  then show ?case by simp
next
  case (Suc l)
  show ?case
  proof (cases k)
    case 0
    then show ?thesis by simp
  next
    case k: (Suc k')
    have split: "[a..<a + k + n] = a # [Suc a..<Suc a + k' + n]"
      using upt_conv_Cons [of a "a + k + n"] k by simp
    have first: "map (bar_gaps (int (a + k + n)) (int a)) (combinations [Suc a..<Suc a + k' + n] k') =
        compositions n (Suc k')"
      using Suc.hyps(1) [of k' n "Suc a" 0] Suc.hyps(2) k by simp
    have second: "map (bar_gaps (int (a + k + n)) (int a - 1 - int d)) (combinations [Suc a..<Suc a + k' + n] k) =
        (if n = 0 then [] else map (add_head (int d + 1)) (compositions (n - 1) (Suc k)))"
    proof (cases n)
      case 0
      then show ?thesis by (simp add: combinations_short k)
    next
      case (Suc m)
      have "l = k + m" using Suc.hyps(2) Suc by simp
      from Suc.hyps(1) [OF this, of "Suc a" "Suc d"] show ?thesis
        using Suc k by (simp add: algebra_simps)
    qed
    have "map (bar_gaps (int (a + k + n)) (int a - 1 - int d)) (combinations [a..<a + k + n] k) =
        map ((#) (int d)) (map (bar_gaps (int (a + k + n)) (int a)) (combinations [Suc a..<Suc a + k' + n] k')) @
        map (bar_gaps (int (a + k + n)) (int a - 1 - int d)) (combinations [Suc a..<Suc a + k' + n] k)"
      unfolding split unfolding k by simp
    also have "\<dots> = map (add_head (int d)) (compositions n (Suc k))"
      unfolding first second unfolding k
      by (subst (2) compositions_unfold) (simp add: comp_def add.commute del: compositions.simps upt_Suc)
    finally show ?thesis .
  qed
qed

lemma weak_compositions_eq: "weak_compositions n (Suc k) = rev (compositions n (Suc k))"
proof -
  have "sorted (compositions n (Suc k))"
    using compositions_ascending [of n k] by (simp add: strict_sorted_iff)
  moreover have "map (bar_gaps (int (n + Suc k - 1)) (- 1)) (combinations [0..<n + Suc k - 1] (Suc k - 1)) =
      compositions n (Suc k)"
    using bars_compositions [of 0 k n 0] by (simp add: add.commute map_idI)
  ultimately show ?thesis by (simp add: weak_compositions_def sorted_sort_id)
qed

lemma graph_distance_eq [code]:
  "graph_distance = [
     [0, 1, 2, 3, 2, 1, 2, 1, 2, 2, 1, 1],
     [1, 0, 3, 2, 2, 1, 2, 1, 1, 1, 2, 2],
     [2, 3, 0, 1, 1, 2, 1, 2, 2, 2, 1, 1],
     [3, 2, 1, 0, 1, 2, 1, 2, 1, 1, 2, 2],
     [2, 2, 1, 1, 0, 1, 2, 3, 2, 1, 2, 1],
     [1, 1, 2, 2, 1, 0, 3, 2, 2, 1, 2, 1],
     [2, 2, 1, 1, 2, 3, 0, 1, 1, 2, 1, 2],
     [1, 1, 2, 2, 3, 2, 1, 0, 1, 2, 1, 2],
     [2, 1, 2, 1, 2, 2, 1, 1, 0, 1, 2, 3],
     [2, 1, 2, 1, 1, 1, 2, 2, 1, 0, 3, 2],
     [1, 2, 1, 2, 2, 2, 1, 1, 2, 3, 0, 1],
     [1, 2, 1, 2, 1, 1, 2, 2, 3, 2, 1, 0]]"
  by code_simp

lemma antipode_eq [code]: "antipode = Inr [3, 2, 1, 0, 7, 6, 5, 4, 11, 10, 9, 8]"
  by code_simp

end
