(* ===== verification/Seam_Moves.thy ===== *)
theory Seam_Moves
  imports Port_Carrier
begin

text \<open>
  The moves of the exact repair kernel (\<open>oph_exact/phi_kernel.py\<close>, \<open>oph_exact/carrier.py\<close>) on integer
  loads: the nearest agreement of two endpoints, the declared and the literal label move, the two
  potentials and the decrement of a move in closed form.  The lemmas give the exact change of both
  potentials under every label move.
\<close>

section \<open>Potentials\<close>

definition squared_norm :: "loads \<Rightarrow> int" where
  "squared_norm x = sum_list (map (\<lambda>v. v * v) x)"

definition seam_phi :: "loads \<Rightarrow> int" where
  "seam_phi x = sum_list (map (\<lambda>(i, j). (x ! i - x ! j) ^ 2) port_seams)"

definition PRIMARY_POTENTIAL :: string where "PRIMARY_POTENTIAL = ''squared_norm_V''"

definition SECONDARY_POTENTIAL :: string where "SECONDARY_POTENTIAL = ''seam_sum_Phi''"

definition potential_value :: "loads \<Rightarrow> string \<Rightarrow> int res" where
  "potential_value x potential =
     (if potential = PRIMARY_POTENTIAL then Inr (squared_norm x)
      else if potential = SECONDARY_POTENTIAL then Inr (seam_phi x) else Inl ValueError)"

section \<open>Moves\<close>

definition integer_nearest_agreement :: "int \<Rightarrow> int \<Rightarrow> bool \<Rightarrow> int \<times> int" where
  "integer_nearest_agreement xi xj ceiling_to_first =
     (let s = xi + xj; low = s div 2; high = - ((- s) div 2)
      in if ceiling_to_first then (high, low) else (low, high))"

text \<open>A label is a seam with a direction and a state has twelve loads, so both indices are in range.\<close>

fun apply_label_literal :: "loads \<Rightarrow> seam \<Rightarrow> loads" where
  "apply_label_literal x (c, p) =
     (let (high, low) = integer_nearest_agreement (x ! c) (x ! p) True in x[c := high, p := low])"

fun apply_label :: "loads \<Rightarrow> seam \<Rightarrow> loads" where
  "apply_label x (c, p) = (if \<bar>x ! c - x ! p\<bar> \<le> 1 then x
     else (let (high, low) = integer_nearest_agreement (x ! c) (x ! p) True in x[c := high, p := low]))"

definition closed_form_dv :: "int \<Rightarrow> int" where
  "closed_form_dv gap = (if gap \<le> 1 then 0 else - 2 * (gap div 2) * ((gap + 1) div 2))"

section \<open>Labels\<close>

lemma directed_labels_length: "length directed_labels = 60"
  by (simp add: directed_labels_def port_seams_eq)

lemma directed_labels_distinct: "distinct directed_labels"
  by (simp add: directed_labels_def port_seams_eq)

lemma label_iff: "(c, p) \<in> set directed_labels \<longleftrightarrow> (c, p) \<in> set port_seams \<or> (p, c) \<in> set port_seams"
  by (auto simp: directed_labels_def)

lemma label_sym: "(c, p) \<in> set directed_labels \<Longrightarrow> (p, c) \<in> set directed_labels"
  by (auto simp: label_iff)

lemma seam_range: "(i, j) \<in> set port_seams \<Longrightarrow> i < j \<and> j < 12"
  by (simp add: port_seams_eq) (elim disjE; simp)

lemma label_range: "(c, p) \<in> set directed_labels \<Longrightarrow> c < 12 \<and> p < 12 \<and> c \<noteq> p"
  unfolding label_iff using seam_range [of c p] seam_range [of p c] by auto

section \<open>The declared move\<close>

lemma nearest_high: "fst (integer_nearest_agreement a b True) = (a + b + 1) div 2"
  unfolding integer_nearest_agreement_def Let_def if_True fst_conv by presburger

lemma nearest_low: "snd (integer_nearest_agreement a b True) = (a + b) div 2"
  by (simp add: integer_nearest_agreement_def Let_def)

lemma nearest_agreement_sum:
  "integer_nearest_agreement a b f = (u, v) \<Longrightarrow> u + v = a + b \<and> \<bar>u - v\<bar> \<le> 1"
  unfolding integer_nearest_agreement_def Let_def by (simp split: if_splits, presburger+)

lemma apply_label_eq:
  "apply_label x (c, p) = (if \<bar>x ! c - x ! p\<bar> \<le> 1 then x
     else x[c := (x ! c + x ! p + 1) div 2, p := (x ! c + x ! p) div 2])"
  by (simp add: case_prod_beta nearest_high nearest_low)

declare apply_label.simps [simp del] apply_label_literal.simps [simp del]

lemma apply_label_length [simp]: "length (apply_label x l) = length x"
  by (cases l) (simp add: apply_label_eq)

lemma sum_list_replace:
  fixes x :: "'a::ab_group_add list"
  shows "i < length x \<Longrightarrow> sum_list (x[i := v]) = sum_list x - x ! i + v"
  by (induction x arbitrary: i) (auto split: nat.splits simp: algebra_simps)

lemma sum_list_update_pair:
  fixes x :: "int list"
  assumes "c < length x" "p < length x" "c \<noteq> p"
  shows "sum_list (x[c := u, p := v]) = sum_list x - x ! c - x ! p + u + v"
  using assms by (simp add: sum_list_replace)

lemma squared_norm_update:
  "i < length x \<Longrightarrow> squared_norm (x[i := v]) = squared_norm x - x ! i * x ! i + v * v"
  by (simp add: squared_norm_def map_update sum_list_replace)

lemma squared_norm_pair:
  assumes "c < length x" "p < length x" "c \<noteq> p"
  shows "squared_norm (x[c := u, p := v]) =
    squared_norm x - x ! c * x ! c - x ! p * x ! p + u * u + v * v"
  using assms by (simp add: squared_norm_update)

lemma halves: "(n + 1) div 2 = (n :: int) - n div 2"
  by presburger

text \<open>A move with gap \<open>d\<close> transfers \<open>d div 2\<close> or one unit more.\<close>

lemma balance_dv:
  fixes a b :: int
  shows "((a + b + 1) div 2) * ((a + b + 1) div 2) + ((a + b) div 2) * ((a + b) div 2) - a * a - b * b =
    - 2 * (\<bar>a - b\<bar> div 2) * ((\<bar>a - b\<bar> + 1) div 2)"
proof -
  obtain k e where a: "\<bar>a - b\<bar> = 2 * k + e" and e: "e = 0 \<or> e = 1"
    by (metis mult_div_mod_eq not_mod_2_eq_0_eq_1)
  have "\<exists>m. a = m + 2 * k + e \<and> b = m \<or> b = m + 2 * k + e \<and> a = m"
    using a by (cases "b \<le> a") (rule exI [of _ "min a b"]; simp add: abs_if split: if_splits)+
  then obtain m where m: "a = m + 2 * k + e \<and> b = m \<or> b = m + 2 * k + e \<and> a = m" by blast
  have s: "a + b = 2 * (m + k) + e" using m by auto
  have d: "(a + b) div 2 = m + k" "(a + b + 1) div 2 = m + k + e" "\<bar>a - b\<bar> div 2 = k"
    "(\<bar>a - b\<bar> + 1) div 2 = k + e"
    unfolding s a using e by auto
  show ?thesis unfolding d using m e by (elim disjE conjE) (simp_all add: algebra_simps)
qed

lemma apply_label_dv:
  assumes "c < length x" "p < length x" "c \<noteq> p"
  shows "squared_norm (apply_label x (c, p)) - squared_norm x = closed_form_dv \<bar>x ! c - x ! p\<bar>"
  using balance_dv [of "x ! c" "x ! p"] squared_norm_pair [OF assms]
  by (simp add: apply_label_eq closed_form_dv_def)

lemma closed_form_dv_nonpos: "closed_form_dv d \<le> 0"
  by (simp add: closed_form_dv_def zero_le_mult_iff pos_imp_zdiv_nonneg_iff)

lemma closed_form_dv_neg: "2 \<le> d \<Longrightarrow> closed_form_dv d \<le> - 2"
proof -
  assume "2 \<le> d"
  then have "1 \<le> d div 2" "1 \<le> (d + 1) div 2" by auto
  then have "1 * 1 \<le> (d div 2) * ((d + 1) div 2)" by (intro mult_mono) auto
  with \<open>2 \<le> d\<close> show ?thesis by (simp add: closed_form_dv_def)
qed

lemma apply_label_sum:
  assumes "c < length x" "p < length x" "c \<noteq> p"
  shows "sum_list (apply_label x (c, p)) = sum_list x"
  using sum_list_update_pair [OF assms] halves [of "x ! c + x ! p"]
  by (simp add: apply_label_eq)

lemma apply_label_nonneg:
  assumes "\<forall>a \<in> set x. 0 \<le> a" "c < length x" "p < length x"
  shows "\<forall>a \<in> set (apply_label x (c, p)). 0 \<le> a"
proof -
  have "0 \<le> x ! c" "0 \<le> x ! p" using assms by auto
  moreover have "set (x[c := u, p := v]) \<subseteq> insert v (insert u (set x))" for u v
    by (meson insert_mono order_trans set_update_subset_insert)
  ultimately show ?thesis using assms(1)
    by (auto simp: apply_label_eq) fastforce
qed

lemma apply_label_wait_iff:
  assumes "c < length x" "p < length x" "c \<noteq> p"
  shows "apply_label x (c, p) = x \<longleftrightarrow> \<bar>x ! c - x ! p\<bar> \<le> 1"
proof
  assume "apply_label x (c, p) = x"
  then have "closed_form_dv \<bar>x ! c - x ! p\<bar> = 0" using apply_label_dv [OF assms] by simp
  then show "\<bar>x ! c - x ! p\<bar> \<le> 1" using closed_form_dv_neg [of "\<bar>x ! c - x ! p\<bar>"] by linarith
qed (simp add: apply_label_eq)

section \<open>The change of the seam sum\<close>

definition neighbour_ports :: "nat \<Rightarrow> nat set" where
  "neighbour_ports p = {q. (p, q) \<in> set directed_labels}"

lemma neighbour_ports_list: "neighbour_ports p = set (filter (\<lambda>q. (p, q) \<in> set directed_labels) [0..<12])"
  using label_range by (auto simp: neighbour_ports_def)

lemma finite_neighbour_ports [simp]: "finite (neighbour_ports p)"
  by (simp add: neighbour_ports_list)

lemma neighbour_ports_sub: "neighbour_ports p \<subseteq> {..<12} - {p}"
  using label_range by (auto simp: neighbour_ports_def)

definition port_slope :: "loads \<Rightarrow> nat \<Rightarrow> int" where
  "port_slope x p = sum_list (map (\<lambda>(i, j). (x ! i - x ! j) * (of_bool (i = p) - of_bool (j = p))) port_seams)"

lemma neighbour_table:
  shows "filter (\<lambda>q. (0, q) \<in> set directed_labels) [0..<12] = [1, 5, 7, 10, 11]"
    and "filter (\<lambda>q. (1, q) \<in> set directed_labels) [0..<12] = [0, 5, 7, 8, 9]"
    and "filter (\<lambda>q. (2, q) \<in> set directed_labels) [0..<12] = [3, 4, 6, 10, 11]"
    and "filter (\<lambda>q. (3, q) \<in> set directed_labels) [0..<12] = [2, 4, 6, 8, 9]"
    and "filter (\<lambda>q. (4, q) \<in> set directed_labels) [0..<12] = [2, 3, 5, 9, 11]"
    and "filter (\<lambda>q. (5, q) \<in> set directed_labels) [0..<12] = [0, 1, 4, 9, 11]"
    and "filter (\<lambda>q. (6, q) \<in> set directed_labels) [0..<12] = [2, 3, 7, 8, 10]"
    and "filter (\<lambda>q. (7, q) \<in> set directed_labels) [0..<12] = [0, 1, 6, 8, 10]"
    and "filter (\<lambda>q. (8, q) \<in> set directed_labels) [0..<12] = [1, 3, 6, 7, 9]"
    and "filter (\<lambda>q. (9, q) \<in> set directed_labels) [0..<12] = [1, 3, 4, 5, 8]"
    and "filter (\<lambda>q. (10, q) \<in> set directed_labels) [0..<12] = [0, 2, 6, 7, 11]"
    and "filter (\<lambda>q. (11, q) \<in> set directed_labels) [0..<12] = [0, 2, 4, 5, 10]"
  by code_simp+

lemma less_12: "p < (12::nat) \<longleftrightarrow> p = 0 \<or> p = 1 \<or> p = 2 \<or> p = 3 \<or> p = 4 \<or> p = 5 \<or> p = 6 \<or> p = 7 \<or>
  p = 8 \<or> p = 9 \<or> p = 10 \<or> p = 11"
  by presburger

lemma port_slope_eq: "p < 12 \<Longrightarrow> port_slope x p = 5 * x ! p - (\<Sum>q \<in> neighbour_ports p. x ! q)"
  unfolding less_12
  by (elim disjE) (simp_all add: port_slope_def port_seams_eq neighbour_ports_list neighbour_table
    [simplified One_nat_def] del: upt_Suc filter.simps)

lemma label_form: "(c, p) \<in> set directed_labels \<Longrightarrow>
  sum_list (map (\<lambda>(i, j). (of_bool (i = p) - of_bool (i = c) - of_bool (j = p) + of_bool (j = c)) ^ 2) port_seams) = (12 :: int)"
proof -
  have "list_all (\<lambda>(c, p). sum_list (map (\<lambda>(i, j).
    (of_bool (i = p) - of_bool (i = c) - of_bool (j = p) + of_bool (j = c)) ^ 2) port_seams) = (12 :: int)) directed_labels"
    by code_simp
  then show "(c, p) \<in> set directed_labels \<Longrightarrow> ?thesis" by (auto simp: list_all_iff)
qed

lemma sum_list_quadratic:
  "sum_list (map (\<lambda>(i, j). (f i j + a * g i j) ^ 2) es) = sum_list (map (\<lambda>(i, j). (f i j) ^ 2) es) +
     2 * a * sum_list (map (\<lambda>(i, j). f i j * g i j) es) + a ^ 2 * sum_list (map (\<lambda>(i, j). (g i j) ^ 2) es)"
  for a :: int
  by (induction es) (auto simp: power2_eq_square algebra_simps)

lemma sum_list_product_split: 
  "sum_list (map (\<lambda>(i, j). f i j * (g i j - h i j)) es) =
     sum_list (map (\<lambda>(i, j). f i j * g i j) es) - (sum_list (map (\<lambda>(i, j). f i j * h i j) es) :: int)"
  by (induction es) (auto simp: algebra_simps)

lemma seam_phi_shift:
  assumes l: "(c, p) \<in> set directed_labels" and x: "length x = 12"
  shows "seam_phi (x[c := x ! c - a, p := x ! p + a]) = seam_phi x + 2 * a * (port_slope x p - port_slope x c) + 12 * a ^ 2"
proof -
  let ?y = "x[c := x ! c - a, p := x ! p + a]"
  have r: "c < 12" "p < 12" "c \<noteq> p" using label_range [OF l] by auto
  have y: "?y ! i = x ! i + a * (of_bool (i = p) - of_bool (i = c))" if "i < 12" for i
    using that r x by (auto simp: nth_list_update)
  have "seam_phi ?y = sum_list (map (\<lambda>(i, j). ((x ! i - x ! j) +
      a * (of_bool (i = p) - of_bool (i = c) - of_bool (j = p) + of_bool (j = c))) ^ 2) port_seams)"
    unfolding seam_phi_def
  proof (rule arg_cong [where f = sum_list], rule map_cong)
    fix e
    assume "e \<in> set port_seams"
    then obtain i j where e: "e = (i, j)" "i < 12" "j < 12" using seam_range by (metis less_trans prod.exhaust)
    show "(case e of (i, j) \<Rightarrow> (?y ! i - ?y ! j) ^ 2) = (case e of (i, j) \<Rightarrow> ((x ! i - x ! j) +
        a * (of_bool (i = p) - of_bool (i = c) - of_bool (j = p) + of_bool (j = c))) ^ 2)"
      unfolding e(1) prod.case y [OF e(2)] y [OF e(3)]
      by (rule arg_cong [where f = "\<lambda>v. v ^ 2"]) (simp add: algebra_simps)
  qed simp
  also have "\<dots> = seam_phi x + 2 * a * sum_list (map (\<lambda>(i, j). (x ! i - x ! j) *
      (of_bool (i = p) - of_bool (i = c) - of_bool (j = p) + of_bool (j = c))) port_seams) + a ^ 2 * 12"
    unfolding sum_list_quadratic label_form [OF l] seam_phi_def ..
  also have "sum_list (map (\<lambda>(i, j). (x ! i - x ! j) *
      (of_bool (i = p) - of_bool (i = c) - of_bool (j = p) + of_bool (j = c))) port_seams) =
      port_slope x p - port_slope x c"
    unfolding port_slope_def sum_list_product_split [symmetric]
    by (rule arg_cong [where f = sum_list], rule map_cong) (auto simp: algebra_simps)
  finally show ?thesis by simp
qed

definition outer_load :: "loads \<Rightarrow> nat \<Rightarrow> nat \<Rightarrow> int" where
  "outer_load x c p = (\<Sum>q \<in> neighbour_ports c - {p}. x ! q)"

lemma port_slope_outer:
  "(c, p) \<in> set directed_labels \<Longrightarrow> port_slope x c = 5 * x ! c - x ! p - outer_load x c p"
  (is "_ \<Longrightarrow> ?thesis")
proof -
  assume l: "(c, p) \<in> set directed_labels"
  then have "p \<in> neighbour_ports c" by (simp add: neighbour_ports_def)
  then show ?thesis using label_range [OF l]
    by (simp add: port_slope_eq outer_load_def sum.remove [of "neighbour_ports c" p])
qed

text \<open>The change of the seam sum when \<open>a\<close> units pass from \<open>c\<close> to \<open>p\<close>.\<close>

lemma seam_phi_transfer:
  assumes l: "(c, p) \<in> set directed_labels" and x: "length x = 12"
  shows "seam_phi (x[c := x ! c - a, p := x ! p + a]) - seam_phi x =
    2 * a * (outer_load x c p - outer_load x p c - 6 * (x ! c - x ! p - a))"
  using seam_phi_shift [OF l x, of a] port_slope_outer [OF l, of x] port_slope_outer [OF label_sym [OF l], of x]
  by (simp add: algebra_simps power2_eq_square)

lemma outer_load_bound:
  assumes l: "(c, p) \<in> set directed_labels" and x: "length x = 12" "\<forall>a \<in> set x. 0 \<le> a"
  shows "0 \<le> outer_load x c p" and "outer_load x c p \<le> sum_list x - x ! c - x ! p"
proof -
  have r: "c < 12" "p < 12" "c \<noteq> p" using label_range [OF l] by auto
  have n: "0 \<le> x ! q" if "q < 12" for q using that x by simp
  have sub: "neighbour_ports c - {p} \<subseteq> {..<12} - {c} - {p}" using neighbour_ports_sub by auto
  show "0 \<le> outer_load x c p" unfolding outer_load_def using sub by (intro sum_nonneg) (auto intro: n)
  have "outer_load x c p \<le> (\<Sum>q \<in> {..<12} - {c} - {p}. x ! q)"
    unfolding outer_load_def using sub by (intro sum_mono2) (auto intro: n)
  also have "\<dots> = (\<Sum>q < 12. x ! q) - x ! c - x ! p" using r by (simp add: sum_diff1)
  also have "(\<Sum>q < 12. x ! q) = sum_list x" using x(1) by (simp add: sum_list_sum_nth atLeast0LessThan)
  finally show "outer_load x c p \<le> sum_list x - x ! c - x ! p" .
qed

end
