(* ===== verification/Repair_Sector.thy ===== *)
theory Repair_Sector
  imports Seam_Moves Descent_System
begin

text \<open>
  The protected sector of the repair kernel (\<open>Sector\<close>, \<open>build_sector\<close> and the summaries of
  \<open>oph_exact/phi_kernel.py\<close>): the states of a fixed total with their index, the target and the
  decrement of every state and label, the absorbing and the minimal states, and the exhaustive
  summaries over the table.  The lemmas read every table through the states it indexes, decide the
  flags of the summaries for every total, and interpret the locale \<open>descent_system\<close> on the changing
  moves.
\<close>

section \<open>Tables\<close>

record sector =
  protected_total :: nat
  sector_states :: "loads list"
  sector_index :: "loads \<Rightarrow> nat option"
  phi_values :: "int list"
  v_values :: "int list"
  next_state :: "nat list list"
  dphi_table :: "int list list"
  dv_table :: "int list list"

definition label_count :: nat where "label_count = 60"

definition index_of_states :: "loads list \<Rightarrow> loads \<Rightarrow> nat option" where
  "index_of_states states = map_of (zip states [0..<length states])"

text \<open>A target outside the sector would raise \<open>KeyError\<close>.\<close>

definition target_index :: "(loads \<Rightarrow> nat option) \<Rightarrow> loads \<Rightarrow> seam \<Rightarrow> nat res" where
  "target_index index state l = (case index (apply_label state l) of None \<Rightarrow> Inl KeyError | Some t \<Rightarrow> Inr t)"

definition build_sector :: "nat \<Rightarrow> sector res" where
  "build_sector load = (let states = weak_compositions load port_count; index = index_of_states states;
     phis = map seam_phi states; vs = map squared_norm states in
     rbind (rmap (\<lambda>state. rmap (target_index index state) directed_labels) states) (\<lambda>targets.
       Inr \<lparr>protected_total = load, sector_states = states, sector_index = index, phi_values = phis,
         v_values = vs, next_state = targets,
         dphi_table = map (\<lambda>(k, row). map (\<lambda>t. phis ! t - phis ! k) row) (enumerate 0 targets),
         dv_table = map (\<lambda>(k, row). map (\<lambda>t. vs ! t - vs ! k) row) (enumerate 0 targets)\<rparr>))"

definition sector_size :: "sector \<Rightarrow> nat" where
  "sector_size S = length (sector_states S)"

definition sector_value :: "sector \<Rightarrow> string \<Rightarrow> int list" where
  "sector_value S potential = (if potential = PRIMARY_POTENTIAL then v_values S else phi_values S)"

definition decrement :: "sector \<Rightarrow> string \<Rightarrow> int list list" where
  "decrement S potential = (if potential = PRIMARY_POTENTIAL then dv_table S else dphi_table S)"

definition is_absorbing :: "sector \<Rightarrow> nat \<Rightarrow> bool" where
  "is_absorbing S k = list_all (\<lambda>n. n = k) (next_state S ! k)"

definition absorbing_indices :: "sector \<Rightarrow> nat list" where
  "absorbing_indices S = filter (is_absorbing S) [0..<sector_size S]"

definition transient_indices :: "sector \<Rightarrow> nat list" where
  "transient_indices S = filter (\<lambda>i. \<not> is_absorbing S i) [0..<sector_size S]"

text \<open>\<open>min\<close> of an empty sequence raises \<open>ValueError\<close>.\<close>

definition minimal_indices :: "sector \<Rightarrow> string \<Rightarrow> nat list res" where
  "minimal_indices S potential = (let values = sector_value S potential in
     if values = [] then Inl ValueError
     else (let minimum = fold min (tl values) (hd values)
       in Inr (filter (\<lambda>i. values ! i = minimum) [0..<length values])))"

section \<open>The descent summary\<close>

record descent_report =
  all_nonpositive :: bool
  zero_iff_wait :: bool
  changing_all_negative :: bool
  min_decrement :: int
  changing_pairs :: nat

definition descent_pair :: "sector \<Rightarrow> int list list \<Rightarrow> nat \<times> nat \<Rightarrow> descent_report \<Rightarrow> descent_report" where
  "descent_pair S table km r = (let (k, m) = km; d = table ! k ! m; waits = (next_state S ! k ! m = k);
     r = (if 0 < d then r\<lparr>all_nonpositive := False\<rparr> else r);
     r = (if (d = 0) \<noteq> waits then r\<lparr>zero_iff_wait := False\<rparr> else r);
     r = (if waits then r else r\<lparr>changing_pairs := changing_pairs r + 1,
            changing_all_negative := changing_all_negative r \<and> \<not> 0 \<le> d\<rparr>)
     in r\<lparr>min_decrement := min (min_decrement r) d\<rparr>)"

definition all_pairs :: "sector \<Rightarrow> (nat \<times> nat) list" where
  "all_pairs S = List.product [0..<sector_size S] [0..<label_count]"

definition descent_summary :: "sector \<Rightarrow> string \<Rightarrow> descent_report" where
  "descent_summary S potential = fold (descent_pair S (decrement S potential)) (all_pairs S)
     \<lparr>all_nonpositive = True, zero_iff_wait = True, changing_all_negative = True, min_decrement = 0,
       changing_pairs = 0\<rparr>"

section \<open>Unit transfers and literal swaps\<close>

record transfer_report =
  unit_pairs :: nat
  unit_identity :: bool
  closed_form :: bool
  decomposition :: bool
  unit_moves :: nat
  multi_unit_moves :: nat

definition unit_step :: "sector \<Rightarrow> nat \<Rightarrow> seam \<Rightarrow> transfer_report \<Rightarrow> transfer_report" where
  "unit_step S k e r = (let (i, j) = e; state = sector_states S ! k; gap = \<bar>state ! i - state ! j\<bar> in
     if gap < 2 then r
     else (let (high, low) = (if state ! j < state ! i then (i, j) else (j, i));
         y = state[high := state ! high - 1]; y = y[low := y ! low + 1];
         r = r\<lparr>unit_pairs := unit_pairs r + 1\<rparr>
       in if squared_norm y - v_values S ! k \<noteq> - 2 * (gap - 1) then r\<lparr>unit_identity := False\<rparr> else r))"

definition move_step :: "sector \<Rightarrow> nat \<Rightarrow> nat \<times> seam \<Rightarrow> transfer_report \<Rightarrow> transfer_report" where
  "move_step S k ml r = (let (m, (c, p)) = ml; state = sector_states S ! k;
     gap = \<bar>state ! c - state ! p\<bar>; d = dv_table S ! k ! m;
     r = (if d \<noteq> closed_form_dv gap then r\<lparr>closed_form := False\<rparr> else r);
     target = sector_states S ! (next_state S ! k ! m)
     in if target = state then r
     else (let delta = \<bar>target ! c - state ! c\<bar>;
         r = (if delta = 1 then r\<lparr>unit_moves := unit_moves r + 1\<rparr>
              else r\<lparr>multi_unit_moves := multi_unit_moves r + 1\<rparr>)
       in if d \<noteq> sum_list (map (\<lambda>step. - 2 * (gap - 2 * int step - 1)) [0..<nat delta])
          then r\<lparr>decomposition := False\<rparr> else r))"

definition transfer_state :: "sector \<Rightarrow> nat \<Rightarrow> transfer_report \<Rightarrow> transfer_report" where
  "transfer_state S k r =
     fold (move_step S k) (enumerate 0 directed_labels) (fold (unit_step S k) port_seams r)"

definition unit_transfer_summary :: "sector \<Rightarrow> transfer_report" where
  "unit_transfer_summary S = fold (transfer_state S) [0..<sector_size S]
     \<lparr>unit_pairs = 0, unit_identity = True, closed_form = True, decomposition = True, unit_moves = 0,
       multi_unit_moves = 0\<rparr>"

definition transfer_verified :: "transfer_report \<Rightarrow> bool" where
  "transfer_verified r \<longleftrightarrow> unit_identity r \<and> closed_form r \<and> decomposition r"

record swap_report =
  differing :: nat
  dv_zero :: nat
  dphi_positive :: nat
  dphi_zero :: nat
  dphi_negative :: nat
  max_dphi :: "int option"

definition swap_pair :: "sector \<Rightarrow> nat \<times> nat \<Rightarrow> swap_report \<Rightarrow> swap_report" where
  "swap_pair S km r = (let (k, m) = km; state = sector_states S ! k;
     literal = apply_label_literal state (directed_labels ! m);
     declared = sector_states S ! (next_state S ! k ! m)
     in if literal = declared then r
     else (let r = r\<lparr>differing := differing r + 1\<rparr>;
         r = (if squared_norm literal = v_values S ! k then r\<lparr>dv_zero := dv_zero r + 1\<rparr> else r);
         d = seam_phi literal - phi_values S ! k
       in if 0 < d then r\<lparr>dphi_positive := dphi_positive r + 1,
              max_dphi := (case max_dphi r of None \<Rightarrow> Some d | Some best \<Rightarrow> Some (if best < d then d else best))\<rparr>
          else if d = 0 then r\<lparr>dphi_zero := dphi_zero r + 1\<rparr>
          else r\<lparr>dphi_negative := dphi_negative r + 1\<rparr>))"

definition literal_swap_summary :: "sector \<Rightarrow> swap_report" where
  "literal_swap_summary S = fold (swap_pair S) (all_pairs S)
     \<lparr>differing = 0, dv_zero = 0, dphi_positive = 0, dphi_zero = 0, dphi_negative = 0, max_dphi = None\<rparr>"

section \<open>Reading the tables\<close>

definition in_sector :: "nat \<Rightarrow> loads \<Rightarrow> bool" where
  "in_sector n x \<longleftrightarrow> length x = 12 \<and> (\<forall>a \<in> set x. 0 \<le> a) \<and> sum_list x = int n"

lemma sector_enumerated: "set (weak_compositions n port_count) = {x. in_sector n x}"
  using weak_compositions_eq [of n 11] compositions_set [of n 11]
  by (simp add: port_count_def in_sector_def)

lemma sector_distinct: "distinct (weak_compositions n port_count)"
  using weak_compositions_eq [of n 11] compositions_ascending [of n 11]
  by (simp add: port_count_def strict_sorted_iff)

lemma in_sector_move: "in_sector n x \<Longrightarrow> l \<in> set directed_labels \<Longrightarrow> in_sector n (apply_label x l)"
proof (cases l)
  case (Pair c p)
  assume x: "in_sector n x" and "l \<in> set directed_labels"
  then have "c < 12" "p < 12" "c \<noteq> p" using label_range Pair by auto
  with x show ?thesis unfolding Pair in_sector_def
    using apply_label_sum [of c x p] apply_label_nonneg [of x c p] by auto
qed

lemma index_of_states_nth:
  assumes "distinct states" "x \<in> set states"
  obtains i where "index_of_states states x = Some i" "i < length states" "states ! i = x"
proof -
  obtain i where i: "i < length states" "states ! i = x" using assms(2) by (meson in_set_conv_nth)
  have "map_of (zip states [0..<length states]) (states ! i) = Some ([0..<length states] ! i)"
    by (rule map_of_zip_nth) (use assms(1) i in auto)
  with i that show thesis by (simp add: index_of_states_def)
qed

lemma target_index_ok:
  assumes "in_sector n x" "l \<in> set directed_labels"
  obtains t where "target_index (index_of_states (weak_compositions n port_count)) x l = Inr t"
    "t < length (weak_compositions n port_count)" "weak_compositions n port_count ! t = apply_label x l"
proof -
  have "apply_label x l \<in> set (weak_compositions n port_count)"
    using in_sector_move [OF assms] by (simp add: sector_enumerated)
  from index_of_states_nth [OF sector_distinct this] obtain t
    where t: "index_of_states (weak_compositions n port_count) (apply_label x l) = Some t"
      "t < length (weak_compositions n port_count)" "weak_compositions n port_count ! t = apply_label x l" .
  from t(1) have "target_index (index_of_states (weak_compositions n port_count)) x l = Inr t"
    by (simp add: target_index_def)
  then show thesis using that t(2,3) by blast
qed

lemma target_rows:
  obtains rows where "rmap (\<lambda>x. rmap (target_index (index_of_states (weak_compositions n port_count)) x)
    directed_labels) (weak_compositions n port_count) = Inr rows"
proof -
  have "\<exists>row. rmap (target_index (index_of_states (weak_compositions n port_count)) x) directed_labels = Inr row"
    if "x \<in> set (weak_compositions n port_count)" for x
  proof (unfold rmap_Inr_iff, rule ballI)
    fix l
    assume l: "l \<in> set directed_labels"
    from that have "in_sector n x" by (simp add: sector_enumerated)
    from target_index_ok [OF this l] show "\<exists>t. target_index (index_of_states (weak_compositions n port_count)) x l = Inr t"
      by metis
  qed
  then have "\<exists>rows. rmap (\<lambda>x. rmap (target_index (index_of_states (weak_compositions n port_count)) x)
    directed_labels) (weak_compositions n port_count) = Inr rows"
    unfolding rmap_Inr_iff [of "\<lambda>x. rmap (target_index _ x) _"] by blast
  then show thesis using that by blast
qed

lemma build_sector_returns: obtains S where "build_sector n = Inr S"
proof -
  obtain rows where "rmap (\<lambda>x. rmap (target_index (index_of_states (weak_compositions n port_count)) x)
    directed_labels) (weak_compositions n port_count) = Inr rows" by (rule target_rows)
  then show thesis using that by (simp add: build_sector_def Let_def)
qed

lemma sector_parts:
  assumes "build_sector n = Inr S"
  shows "sector_states S = weak_compositions n port_count"
    and "phi_values S = map seam_phi (sector_states S)" and "v_values S = map squared_norm (sector_states S)"
    and "protected_total S = n" and "sector_index S = index_of_states (sector_states S)"
    and "rmap (\<lambda>x. rmap (target_index (index_of_states (sector_states S)) x) directed_labels) (sector_states S) =
      Inr (next_state S)"
    and "dphi_table S = map (\<lambda>(k, row). map (\<lambda>t. phi_values S ! t - phi_values S ! k) row) (enumerate 0 (next_state S))"
    and "dv_table S = map (\<lambda>(k, row). map (\<lambda>t. v_values S ! t - v_values S ! k) row) (enumerate 0 (next_state S))"
  using assms by (auto simp: build_sector_def Let_def rbind_eq_Inr)

lemma sector_states_iff:
  assumes "build_sector n = Inr S"
  shows "x \<in> set (sector_states S) \<longleftrightarrow> in_sector n x"
  by (simp add: sector_parts(1) [OF assms] sector_enumerated)

lemma sector_states_distinct: "build_sector n = Inr S \<Longrightarrow> distinct (sector_states S)"
  by (simp add: sector_parts(1) sector_distinct)

lemma sector_nth: "build_sector n = Inr S \<Longrightarrow> k < sector_size S \<Longrightarrow> in_sector n (sector_states S ! k)"
  using sector_states_iff [of n S "sector_states S ! k"] by (simp add: sector_size_def)

lemma sector_find:
  assumes "build_sector n = Inr S" "in_sector n x"
  obtains k where "k < sector_size S" "sector_states S ! k = x"
  using assms sector_states_iff by (metis in_set_conv_nth sector_size_def)

lemma next_state_row:
  assumes "build_sector n = Inr S" "k < sector_size S"
  shows "length (next_state S) = sector_size S"
    and "rmap (target_index (index_of_states (sector_states S)) (sector_states S ! k)) directed_labels =
      Inr (next_state S ! k)"
    and "length (next_state S ! k) = label_count"
proof -
  show "length (next_state S) = sector_size S"
    using rmap_Inr_length [OF sector_parts(6) [OF assms(1)]] by (simp add: sector_size_def)
  show row: "rmap (target_index (index_of_states (sector_states S)) (sector_states S ! k)) directed_labels =
      Inr (next_state S ! k)"
    using rmap_Inr_nth [OF sector_parts(6) [OF assms(1)], of k] assms(2) by (simp add: sector_size_def)
  show "length (next_state S ! k) = label_count"
    using rmap_Inr_length [OF row] by (simp add: directed_labels_length label_count_def)
qed

lemma label_nth: "m < label_count \<Longrightarrow> directed_labels ! m \<in> set directed_labels"
  by (simp add: directed_labels_length label_count_def)

lemma next_state_nth:
  assumes S: "build_sector n = Inr S" and k: "k < sector_size S" and m: "m < label_count"
  shows "next_state S ! k ! m < sector_size S"
    and "sector_states S ! (next_state S ! k ! m) = apply_label (sector_states S ! k) (directed_labels ! m)"
proof -
  have "target_index (index_of_states (sector_states S)) (sector_states S ! k) (directed_labels ! m) =
      Inr (next_state S ! k ! m)"
    using rmap_Inr_nth [OF next_state_row(2) [OF S k], of m] m by (simp add: directed_labels_length label_count_def)
  moreover obtain t where "target_index (index_of_states (weak_compositions n port_count)) (sector_states S ! k)
      (directed_labels ! m) = Inr t" "t < length (weak_compositions n port_count)"
      "weak_compositions n port_count ! t = apply_label (sector_states S ! k) (directed_labels ! m)"
    by (rule target_index_ok [OF sector_nth [OF S k] label_nth [OF m]])
  ultimately show "next_state S ! k ! m < sector_size S"
    "sector_states S ! (next_state S ! k ! m) = apply_label (sector_states S ! k) (directed_labels ! m)"
    by (auto simp: sector_parts(1) [OF S] sector_size_def)
qed

lemma next_state_self_iff:
  assumes S: "build_sector n = Inr S" and k: "k < sector_size S" and m: "m < label_count"
  shows "next_state S ! k ! m = k \<longleftrightarrow> apply_label (sector_states S ! k) (directed_labels ! m) = sector_states S ! k"
  using next_state_nth [OF S k m] k nth_eq_iff_index_eq [OF sector_states_distinct [OF S]]
  unfolding sector_size_def by metis

lemma value_nth:
  assumes S: "build_sector n = Inr S" and k: "k < sector_size S"
  shows "v_values S ! k = squared_norm (sector_states S ! k)" and "phi_values S ! k = seam_phi (sector_states S ! k)"
  using k by (simp_all add: sector_parts(2,3) [OF S] sector_size_def)

lemma enumerate_map_nth:
  "k < length rows \<Longrightarrow> map (\<lambda>(k, row). f k row) (enumerate 0 rows) ! k = f k (rows ! k)"
  by (simp add: nth_enumerate_eq)

lemma decrement_nth:
  assumes S: "build_sector n = Inr S" and k: "k < sector_size S" and m: "m < label_count"
  shows "dv_table S ! k ! m = squared_norm (apply_label (sector_states S ! k) (directed_labels ! m)) - squared_norm (sector_states S ! k)"
    and "dphi_table S ! k ! m = seam_phi (apply_label (sector_states S ! k) (directed_labels ! m)) - seam_phi (sector_states S ! k)"
  using next_state_nth [OF S k m] next_state_row(1,3) [OF S k] value_nth [OF S] k m
  unfolding sector_parts(7,8) [OF S] by (simp_all add: nth_enumerate_eq)

section \<open>The summaries\<close>

lemma all_pairs_iff: "(k, m) \<in> set (all_pairs S) \<longleftrightarrow> k < sector_size S \<and> m < label_count"
  by (auto simp: all_pairs_def)

lemma descent_summary_flags:
  "all_nonpositive (descent_summary S u) \<longleftrightarrow>
     (\<forall>(k, m) \<in> set (all_pairs S). decrement S u ! k ! m \<le> 0)"
  "zero_iff_wait (descent_summary S u) \<longleftrightarrow>
     (\<forall>(k, m) \<in> set (all_pairs S). decrement S u ! k ! m = 0 \<longleftrightarrow> next_state S ! k ! m = k)"
  "changing_all_negative (descent_summary S u) \<longleftrightarrow>
     (\<forall>(k, m) \<in> set (all_pairs S). next_state S ! k ! m \<noteq> k \<longrightarrow> decrement S u ! k ! m < 0)"
proof -
  have "all_nonpositive (descent_pair S t km r) \<longleftrightarrow> all_nonpositive r \<and> (case km of (k, m) \<Rightarrow> t ! k ! m \<le> 0)"
    "zero_iff_wait (descent_pair S t km r) \<longleftrightarrow> zero_iff_wait r \<and>
      (case km of (k, m) \<Rightarrow> t ! k ! m = 0 \<longleftrightarrow> next_state S ! k ! m = k)"
    "changing_all_negative (descent_pair S t km r) \<longleftrightarrow> changing_all_negative r \<and>
      (case km of (k, m) \<Rightarrow> next_state S ! k ! m \<noteq> k \<longrightarrow> t ! k ! m < 0)" for t km r
    by (auto simp: descent_pair_def Let_def split: prod.split)
  note step = this
  show "all_nonpositive (descent_summary S u) \<longleftrightarrow>
     (\<forall>(k, m) \<in> set (all_pairs S). decrement S u ! k ! m \<le> 0)"
    unfolding descent_summary_def by (subst fold_flag [where g = all_nonpositive, OF step(1)]) simp
  show "zero_iff_wait (descent_summary S u) \<longleftrightarrow>
     (\<forall>(k, m) \<in> set (all_pairs S). decrement S u ! k ! m = 0 \<longleftrightarrow> next_state S ! k ! m = k)"
    unfolding descent_summary_def by (subst fold_flag [where g = zero_iff_wait, OF step(2)]) simp
  show "changing_all_negative (descent_summary S u) \<longleftrightarrow>
     (\<forall>(k, m) \<in> set (all_pairs S). next_state S ! k ! m \<noteq> k \<longrightarrow> decrement S u ! k ! m < 0)"
    unfolding descent_summary_def by (subst fold_flag [where g = changing_all_negative, OF step(3)]) simp
qed

text \<open>The decrement of a label on a state, for either potential.\<close>

definition move_change :: "string \<Rightarrow> loads \<Rightarrow> seam \<Rightarrow> int" where
  "move_change u x l = (if u = PRIMARY_POTENTIAL then squared_norm (apply_label x l) - squared_norm x
     else seam_phi (apply_label x l) - seam_phi x)"

lemma decrement_move:
  assumes "build_sector n = Inr S" "k < sector_size S" "m < label_count"
  shows "decrement S u ! k ! m = move_change u (sector_states S ! k) (directed_labels ! m)"
  using decrement_nth [OF assms] by (simp add: decrement_def move_change_def)

lemma label_index: "l \<in> set directed_labels \<Longrightarrow> \<exists>m < label_count. directed_labels ! m = l"
  by (metis directed_labels_length in_set_conv_nth label_count_def)

lemma pairs_states:
  assumes S: "build_sector n = Inr S"
  shows "(\<forall>(k, m) \<in> set (all_pairs S). P (sector_states S ! k) (directed_labels ! m)) \<longleftrightarrow>
    (\<forall>x l. in_sector n x \<longrightarrow> l \<in> set directed_labels \<longrightarrow> P x l)"
proof
  assume A: "\<forall>(k, m) \<in> set (all_pairs S). P (sector_states S ! k) (directed_labels ! m)"
  show "\<forall>x l. in_sector n x \<longrightarrow> l \<in> set directed_labels \<longrightarrow> P x l"
  proof (intro allI impI)
    fix x l
    assume x: "in_sector n x" and l: "l \<in> set directed_labels"
    obtain k where k: "k < sector_size S" "sector_states S ! k = x" by (rule sector_find [OF S x])
    obtain m where m: "m < label_count" "directed_labels ! m = l" using label_index [OF l] by blast
    from k m have "(k, m) \<in> set (all_pairs S)" by (simp add: all_pairs_iff)
    with A k m show "P x l" by force
  qed
next
  assume A: "\<forall>x l. in_sector n x \<longrightarrow> l \<in> set directed_labels \<longrightarrow> P x l"
  show "\<forall>(k, m) \<in> set (all_pairs S). P (sector_states S ! k) (directed_labels ! m)"
    using A sector_nth [OF S] label_nth by (auto simp: all_pairs_iff simp del: split_paired_All)
qed

lemma descent_summary_states:
  assumes S: "build_sector n = Inr S"
  shows "all_nonpositive (descent_summary S u) \<longleftrightarrow>
      (\<forall>x l. in_sector n x \<longrightarrow> l \<in> set directed_labels \<longrightarrow> move_change u x l \<le> 0)"
    and "zero_iff_wait (descent_summary S u) \<longleftrightarrow>
      (\<forall>x l. in_sector n x \<longrightarrow> l \<in> set directed_labels \<longrightarrow> (move_change u x l = 0 \<longleftrightarrow> apply_label x l = x))"
    and "changing_all_negative (descent_summary S u) \<longleftrightarrow>
      (\<forall>x l. in_sector n x \<longrightarrow> l \<in> set directed_labels \<longrightarrow> apply_label x l \<noteq> x \<longrightarrow> move_change u x l < 0)"
  unfolding descent_summary_flags
    pairs_states [OF S, of "\<lambda>x l. move_change u x l \<le> 0", symmetric]
    pairs_states [OF S, of "\<lambda>x l. move_change u x l = 0 \<longleftrightarrow> apply_label x l = x", symmetric]
    pairs_states [OF S, of "\<lambda>x l. apply_label x l \<noteq> x \<longrightarrow> move_change u x l < 0", symmetric]
  by (intro ball_cong refl; clarsimp simp: all_pairs_iff decrement_move [OF S] next_state_self_iff [OF S])+

section \<open>Descent of both potentials\<close>

lemma apply_label_transfer:
  assumes x: "length x = 12" and l: "(c, p) \<in> set directed_labels" and gap: "1 < \<bar>x ! c - x ! p\<bar>"
  obtains h w a where "(h, w) \<in> set directed_labels" "apply_label x (c, p) = x[h := x ! h - a, w := x ! w + a]"
    "1 \<le> a" "a \<le> x ! h - x ! w - 1" "x ! w + 2 \<le> x ! h"
proof (cases "x ! p < x ! c")
  case True
  let ?a = "(x ! c - x ! p) div 2"
  have "apply_label x (c, p) = x[c := x ! c - ?a, p := x ! p + ?a]"
    using gap True by (simp add: apply_label_eq) (intro arg_cong2 [where f = "\<lambda>u v. x[c := u, p := v]"]; presburger)
  with True gap l show thesis by (intro that [of c p ?a]) auto
next
  case False
  let ?a = "(x ! p - x ! c + 1) div 2"
  have r: "c \<noteq> p" using label_range [OF l] by simp
  have "apply_label x (c, p) = x[c := x ! c + ?a, p := x ! p - ?a]"
    using gap False by (simp add: apply_label_eq) (intro arg_cong2 [where f = "\<lambda>u v. x[c := u, p := v]"]; presburger)
  also have "\<dots> = x[p := x ! p - ?a, c := x ! c + ?a]" using r by (simp add: list_update_swap)
  finally show thesis using False gap label_sym [OF l] by (intro that [of p c ?a]) auto
qed

lemma seam_phi_move:
  assumes x: "in_sector n x" and l: "l \<in> set directed_labels" and move: "apply_label x l \<noteq> x"
  shows "n \<le> 8 \<Longrightarrow> seam_phi (apply_label x l) \<le> seam_phi x"
    and "n \<le> 7 \<Longrightarrow> seam_phi (apply_label x l) < seam_phi x"
proof -
  obtain c p where cp: "l = (c, p)" by (cases l)
  have len: "length x = 12" and pos: "\<forall>a \<in> set x. 0 \<le> a" and s: "sum_list x = int n"
    using x by (auto simp: in_sector_def)
  have gap: "1 < \<bar>x ! c - x ! p\<bar>" using move apply_label_wait_iff [of c x p] label_range l len unfolding cp
    by fastforce
  obtain h w a where hw: "(h, w) \<in> set directed_labels" and
    y: "apply_label x l = x[h := x ! h - a, w := x ! w + a]" and a: "1 \<le> a" "a \<le> x ! h - x ! w - 1"
    using apply_label_transfer [OF len l [unfolded cp] gap] unfolding cp by metis
  define inner where "inner = outer_load x h w - outer_load x w h - 6 * (x ! h - x ! w - a)"
  have phi: "seam_phi (apply_label x l) - seam_phi x = 2 * a * inner"
    unfolding y inner_def by (rule seam_phi_transfer [OF hw len])
  have "0 \<le> x ! w" using pos len label_range [OF hw] by auto
  moreover have "outer_load x h w \<le> int n - x ! h - x ! w" "0 \<le> outer_load x w h"
    using outer_load_bound(2) [OF hw len pos] outer_load_bound(1) [OF label_sym [OF hw] len pos] s by auto
  ultimately have b: "inner \<le> int n - 8"
    using a by (simp add: inner_def algebra_simps)
  show "n \<le> 8 \<Longrightarrow> seam_phi (apply_label x l) \<le> seam_phi x"
    using phi b a(1) mult_nonneg_nonpos [of "2 * a" inner] by linarith
  show "n \<le> 7 \<Longrightarrow> seam_phi (apply_label x l) < seam_phi x"
    using phi b a(1) mult_pos_neg [of "2 * a" inner] by linarith
qed

lemma squared_norm_move:
  assumes x: "in_sector n x" and l: "l \<in> set directed_labels"
  shows "squared_norm (apply_label x l) - squared_norm x = closed_form_dv \<bar>x ! fst l - x ! snd l\<bar>"
    and "apply_label x l = x \<longleftrightarrow> \<bar>x ! fst l - x ! snd l\<bar> \<le> 1"
  using apply_label_dv [of "fst l" x "snd l"] apply_label_wait_iff [of "fst l" x "snd l"]
    label_range [of "fst l" "snd l"] x l by (simp_all add: in_sector_def)

lemma squared_norm_move_less:
  assumes x: "in_sector n x" and l: "l \<in> set directed_labels" and "apply_label x l \<noteq> x"
  shows "squared_norm (apply_label x l) \<le> squared_norm x - 2"
  using squared_norm_move [OF x l] closed_form_dv_neg [of "\<bar>x ! fst l - x ! snd l\<bar>"] assms(3) by linarith

text \<open>Beyond total seven the seam sum has a neutral move, beyond total eight a rising one.\<close>

definition spread_loads :: "nat \<Rightarrow> nat \<Rightarrow> loads" where
  "spread_loads a b = [2, 0, int b, 0, 0, 0, 0, 0, 0, 0, int a, 0]"

lemma spread_loads_sector: "in_sector (2 + a + b) (spread_loads a b)"
  by (simp add: in_sector_def spread_loads_def)

lemma spread_loads_move:
  "apply_label (spread_loads a b) (0, 1) \<noteq> spread_loads a b"
  "seam_phi (apply_label (spread_loads a b) (0, 1)) - seam_phi (spread_loads a b) = 2 * int a - 12"
proof -
  have l: "(0, 1) \<in> set directed_labels" by (simp add: label_iff port_seams_eq)
  have y: "apply_label (spread_loads a b) (0, 1) =
      (spread_loads a b)[0 := spread_loads a b ! 0 - 1, 1 := spread_loads a b ! 1 + 1]"
    by (simp add: apply_label_eq spread_loads_def)
  show "apply_label (spread_loads a b) (0, 1) \<noteq> spread_loads a b" unfolding y by (simp add: spread_loads_def)
  have "outer_load (spread_loads a b) 0 1 = int a" "outer_load (spread_loads a b) 1 0 = 0"
    by (simp_all add: outer_load_def neighbour_ports_list neighbour_table [simplified One_nat_def] spread_loads_def
      del: upt_Suc filter.simps)
  with seam_phi_transfer [OF l, of "spread_loads a b" 1]
  show "seam_phi (apply_label (spread_loads a b) (0, 1)) - seam_phi (spread_loads a b) = 2 * int a - 12"
    unfolding y by (simp add: spread_loads_def)
qed

lemma primary_descent:
  assumes S: "build_sector n = Inr S"
  shows "all_nonpositive (descent_summary S PRIMARY_POTENTIAL)" "zero_iff_wait (descent_summary S PRIMARY_POTENTIAL)"
    "changing_all_negative (descent_summary S PRIMARY_POTENTIAL)"
proof -
  have m: "move_change PRIMARY_POTENTIAL x l = 0 \<and> apply_label x l = x \<or>
      move_change PRIMARY_POTENTIAL x l < 0 \<and> apply_label x l \<noteq> x"
    if "in_sector n x" "l \<in> set directed_labels" for x l
    using squared_norm_move_less [OF that] unfolding move_change_def by (cases "apply_label x l = x") auto
  show "all_nonpositive (descent_summary S PRIMARY_POTENTIAL)" "zero_iff_wait (descent_summary S PRIMARY_POTENTIAL)"
    "changing_all_negative (descent_summary S PRIMARY_POTENTIAL)"
    unfolding descent_summary_states [OF S] using m by (force simp: less_le)+
qed

lemma secondary_descent:
  assumes S: "build_sector n = Inr S" and u: "u \<noteq> PRIMARY_POTENTIAL"
  shows "all_nonpositive (descent_summary S u) \<longleftrightarrow> n \<le> 8" "zero_iff_wait (descent_summary S u) \<longleftrightarrow> n \<le> 7"
    "changing_all_negative (descent_summary S u) \<longleftrightarrow> n \<le> 7"
proof -
  have l: "(0, 1) \<in> set directed_labels" by (simp add: label_iff port_seams_eq)
  have m: "move_change u x l = seam_phi (apply_label x l) - seam_phi x" for x l
    using u by (simp add: move_change_def)
  have low: "move_change u x l \<le> 0" if "n \<le> 8" "in_sector n x" "l \<in> set directed_labels" for x l
    using seam_phi_move(1) [OF that(2,3) _ that(1)] unfolding m by (cases "apply_label x l = x") auto
  have strict: "move_change u x l = 0 \<and> apply_label x l = x \<or> move_change u x l < 0 \<and> apply_label x l \<noteq> x"
    if "n \<le> 7" "in_sector n x" "l \<in> set directed_labels" for x l
    using seam_phi_move(2) [OF that(2,3) _ that(1)] unfolding m by (cases "apply_label x l = x") auto
  have rise: "\<exists>x. in_sector n x \<and> apply_label x (0, 1) \<noteq> x \<and> move_change u x (0, 1) = 2 * int a - 12"
    if "a + 2 \<le> n" for a
  proof -
    from that have "n = 2 + a + (n - 2 - a)" by simp
    then show ?thesis using spread_loads_sector [of a "n - 2 - a"] spread_loads_move [of a "n - 2 - a"]
      unfolding m by (metis One_nat_def)
  qed
  have up: "\<exists>x. in_sector n x \<and> 0 < move_change u x (0, 1)" if "\<not> n \<le> 8" using rise [of 7] that by auto
  have flat: "\<exists>x. in_sector n x \<and> apply_label x (0, 1) \<noteq> x \<and> move_change u x (0, 1) = 0" if "\<not> n \<le> 7"
    using rise [of 6] that by auto
  show "all_nonpositive (descent_summary S u) \<longleftrightarrow> n \<le> 8"
    unfolding descent_summary_states [OF S] using low up l by (meson not_less)
  show "zero_iff_wait (descent_summary S u) \<longleftrightarrow> n \<le> 7"
    unfolding descent_summary_states [OF S] using strict flat l by (metis less_irrefl)
  show "changing_all_negative (descent_summary S u) \<longleftrightarrow> n \<le> 7"
    unfolding descent_summary_states [OF S] using strict flat l by (metis less_irrefl)
qed

section \<open>The transfer and swap summaries\<close>

text \<open>What the unit loop and the move loop check for one state.\<close>

lemma unit_step_flags:
  "unit_identity (unit_step S k e r) \<longleftrightarrow> unit_identity r \<and> (case e of (i, j) \<Rightarrow>
     let state = sector_states S ! k; gap = \<bar>state ! i - state ! j\<bar>;
       (high, low) = (if state ! j < state ! i then (i, j) else (j, i));
       y = state[high := state ! high - 1]; y = y[low := y ! low + 1]
     in gap < 2 \<or> squared_norm y - v_values S ! k = - 2 * (gap - 1))"
  "closed_form (unit_step S k e r) = closed_form r" "decomposition (unit_step S k e r) = decomposition r"
  by (cases e; simp add: unit_step_def Let_def)+

lemma move_step_flags:
  "unit_identity (move_step S k ml r) = unit_identity r"
  "closed_form (move_step S k ml r) \<longleftrightarrow> closed_form r \<and> (case ml of (m, (c, p)) \<Rightarrow>
     dv_table S ! k ! m = closed_form_dv \<bar>sector_states S ! k ! c - sector_states S ! k ! p\<bar>)"
  "decomposition (move_step S k ml r) \<longleftrightarrow> decomposition r \<and> (case ml of (m, (c, p)) \<Rightarrow>
     let state = sector_states S ! k; target = sector_states S ! (next_state S ! k ! m);
       gap = \<bar>state ! c - state ! p\<bar>; delta = \<bar>target ! c - state ! c\<bar>
     in target = state \<or> dv_table S ! k ! m = sum_list (map (\<lambda>step. - 2 * (gap - 2 * int step - 1)) [0..<nat delta]))"
  by (cases ml; simp add: move_step_def Let_def split: prod.split)+

lemma arith_series: "sum_list (map (\<lambda>step. - 2 * (g - 2 * int step - 1)) [0..<d]) = - 2 * int d * (g - int d)"
  by (induction d) (simp_all add: algebra_simps)

lemma unit_identity_holds:
  assumes x: "in_sector n x" and e: "(i, j) \<in> set port_seams"
  shows "let gap = \<bar>x ! i - x ! j\<bar>; (high, low) = (if x ! j < x ! i then (i, j) else (j, i));
    y = x[high := x ! high - 1]; y = y[low := y ! low + 1]
    in gap < 2 \<or> squared_norm y - squared_norm x = - 2 * (gap - 1)"
proof -
  have r: "i < length x" "j < length x" "i \<noteq> j" using seam_range [OF e] x by (auto simp: in_sector_def)
  have "squared_norm (x[h := x ! h - 1, w := x[h := x ! h - 1] ! w + 1]) - squared_norm x = - 2 * (x ! h - x ! w - 1)"
    if "h < length x" "w < length x" "h \<noteq> w" for h w
    using squared_norm_pair [OF that, of "x ! h - 1" "x ! w + 1"] that by (simp add: algebra_simps)
  from this [of i j] this [of j i] r show ?thesis by (auto simp: Let_def)
qed

lemma ceiling_shift:
  fixes a b :: int
  shows "\<bar>(a + b + 1) div 2 - a\<bar> = \<bar>a - b\<bar> div 2 \<or> \<bar>(a + b + 1) div 2 - a\<bar> = \<bar>a - b\<bar> - \<bar>a - b\<bar> div 2"
proof (cases "b \<le> a")
  case True
  have "(a + b + 1) div 2 = a - (a - b) div 2" by presburger
  with True show ?thesis by simp
next
  case False
  have "(a + b + 1) div 2 = a + ((b - a) - (b - a) div 2)" by presburger
  with False show ?thesis by simp
qed

lemma move_decomposition:
  assumes x: "in_sector n x" and l: "(c, p) \<in> set directed_labels" and move: "apply_label x (c, p) \<noteq> x"
  shows "closed_form_dv \<bar>x ! c - x ! p\<bar> = sum_list (map (\<lambda>step. - 2 * (\<bar>x ! c - x ! p\<bar> - 2 * int step - 1))
    [0..<nat \<bar>apply_label x (c, p) ! c - x ! c\<bar>])"
proof -
  have r: "c < length x" "p < length x" "c \<noteq> p" using label_range [OF l] x by (auto simp: in_sector_def)
  define D where "D = \<bar>x ! c - x ! p\<bar>"
  have D: "1 < D" using move apply_label_wait_iff [OF r] unfolding D_def by simp
  have t: "apply_label x (c, p) ! c = (x ! c + x ! p + 1) div 2" using r D by (simp add: apply_label_eq D_def)
  obtain d where d: "\<bar>(x ! c + x ! p + 1) div 2 - x ! c\<bar> = d"
    and cases: "d = D div 2 \<or> d = D - D div 2" using ceiling_shift [of "x ! c" "x ! p"] unfolding D_def by blast
  have "closed_form_dv D = - 2 * (D div 2) * (D - D div 2)"
    using D halves [of D] by (simp add: closed_form_dv_def)
  also have "\<dots> = - 2 * d * (D - d)" using cases by (elim disjE; hypsubst; simp add: algebra_simps)
  also have "\<dots> = - 2 * int (nat d) * (D - int (nat d))" using cases D by auto
  finally show ?thesis unfolding t d D_def [symmetric] arith_series .
qed

lemma unit_transfer_verified:
  assumes S: "build_sector n = Inr S"
  shows "transfer_verified (unit_transfer_summary S)"
proof -
  let ?P = "\<lambda>r. transfer_verified r"
  have "?P (transfer_state S k r)" if k: "k \<in> set [0..<sector_size S]" and r: "?P r" for k r
  proof -
    have k': "k < sector_size S" using k by simp
    have x: "in_sector n (sector_states S ! k)" by (rule sector_nth [OF S k'])
    have v: "v_values S ! k = squared_norm (sector_states S ! k)" by (rule value_nth(1) [OF S k'])
    have u: "?P (unit_step S k e r)" if "e \<in> set port_seams" "?P r" for e r
      using that unit_identity_holds [OF x, of "fst e" "snd e"] v
      by (simp add: transfer_verified_def unit_step_flags case_prod_beta Let_def)
    have m: "?P (move_step S k ml r)" if ml: "ml \<in> set (enumerate 0 directed_labels)" and r: "?P r" for ml r
    proof -
      obtain m c p where mcp: "ml = (m, (c, p))" by (metis prod.exhaust)
      with ml have l: "(c, p) \<in> set directed_labels" "directed_labels ! m = (c, p)" and m: "m < label_count"
        by (auto simp: in_set_enumerate_eq directed_labels_length label_count_def dest: sym intro: nth_mem)
      have t: "sector_states S ! (next_state S ! k ! m) = apply_label (sector_states S ! k) (c, p)"
        using next_state_nth(2) [OF S k' m] l(2) by simp
      have d: "dv_table S ! k ! m = closed_form_dv \<bar>sector_states S ! k ! c - sector_states S ! k ! p\<bar>"
        using decrement_nth(1) [OF S k' m] squared_norm_move(1) [OF x l(1)] l(2) by simp
      show ?thesis using r move_decomposition [OF x l(1)]
        by (cases "apply_label (sector_states S ! k) (c, p) = sector_states S ! k")
          (simp_all add: transfer_verified_def move_step_flags mcp t d Let_def)
    qed
    have "?P (fold (unit_step S k) port_seams r)" by (rule fold_relation [of _ ?P, OF u r])
    with m show ?thesis unfolding transfer_state_def by (rule fold_relation)
  qed
  note step = this
  show ?thesis unfolding unit_transfer_summary_def
    by (rule fold_relation [of _ ?P, OF step]) (simp_all add: transfer_verified_def)
qed

text \<open>The literal move differs from the declared one only by swapping a pair with gap one.\<close>

lemma literal_move:
  assumes "c < length x" "p < length x" "c \<noteq> p"
  shows "apply_label_literal x (c, p) = (if x ! p = x ! c + 1 then x[c := x ! p, p := x ! c] else apply_label x (c, p))"
proof -
  have lit: "apply_label_literal x (c, p) = x[c := (x ! c + x ! p + 1) div 2, p := (x ! c + x ! p) div 2]"
    by (simp add: apply_label_literal.simps case_prod_beta nearest_high nearest_low)
  have same: "x[c := x ! c, p := x ! p] = x" by simp
  consider "x ! p = x ! c + 1" | "x ! p = x ! c" | "x ! c = x ! p + 1" | "\<not> \<bar>x ! c - x ! p\<bar> \<le> 1" by linarith
  then show ?thesis
  proof cases
    case 1
    then have "(x ! c + x ! p + 1) div 2 = x ! p" "(x ! c + x ! p) div 2 = x ! c" by auto
    with 1(1) show ?thesis unfolding lit by (simp only: simp_thms if_True)
  next
    case 2
    then have "(x ! c + x ! p + 1) div 2 = x ! c" "(x ! c + x ! p) div 2 = x ! p" by auto
    with 2 show ?thesis unfolding lit using same by (simp add: apply_label_eq)
  next
    case 3
    then have d: "(x ! c + x ! p + 1) div 2 = x ! c" "(x ! c + x ! p) div 2 = x ! p" by auto
    have "apply_label_literal x (c, p) = x" unfolding lit d by (rule same)
    moreover have "apply_label x (c, p) = x" using 3 by (simp add: apply_label_eq)
    ultimately show ?thesis using 3 by simp
  qed (auto simp: lit apply_label_eq)
qed

lemma literal_neutral:
  assumes "c < length x" "p < length x" "c \<noteq> p" "apply_label_literal x (c, p) \<noteq> apply_label x (c, p)"
  shows "squared_norm (apply_label_literal x (c, p)) = squared_norm x"
  using assms squared_norm_pair [OF assms(1-3)] by (auto simp: literal_move split: if_splits)

lemma literal_swap_neutral:
  assumes S: "build_sector n = Inr S"
  shows "dv_zero (literal_swap_summary S) = differing (literal_swap_summary S)"
proof -
  have "dv_zero (swap_pair S km r) = differing (swap_pair S km r)"
    if pair: "km \<in> set (all_pairs S)" and eq: "dv_zero r = differing r" for km r
  proof -
    obtain k m where km: "km = (k, m)" "k < sector_size S" "m < label_count"
      using pair all_pairs_iff [of "fst km" "snd km" S] by (metis prod.collapse)
    obtain c p where cp: "directed_labels ! m = (c, p)" by (metis prod.exhaust)
    with label_nth [OF km(3)] label_range have "c < 12" "p < 12" "c \<noteq> p" by auto
    moreover have "length (sector_states S ! k) = 12" using sector_nth [OF S km(2)] by (simp add: in_sector_def)
    ultimately have "squared_norm (apply_label_literal (sector_states S ! k) (c, p)) = v_values S ! k"
      if "apply_label_literal (sector_states S ! k) (c, p) \<noteq> sector_states S ! (next_state S ! k ! m)"
      using literal_neutral [of c "sector_states S ! k" p] that next_state_nth(2) [OF S km(2,3)] cp
        value_nth(1) [OF S km(2)] by auto
    with eq show ?thesis unfolding swap_pair_def km(1) by (simp add: Let_def cp)
  qed
  note step = this
  show ?thesis unfolding literal_swap_summary_def
    by (rule fold_relation [of _ "\<lambda>r. dv_zero r = differing r", OF step]) simp_all
qed

section \<open>Absorbing and minimal states\<close>

text \<open>Two flags of \<open>sector_summary\<close>.\<close>

definition absorbing_set_is_shell :: "sector \<Rightarrow> bool" where
  "absorbing_set_is_shell S = (let absorbing = absorbing_indices S;
     q = protected_total S div port_count; r = protected_total S mod port_count
     in list_all (\<lambda>k. list_all (\<lambda>v. v = int q \<or> v = int q + 1) (sector_states S ! k)) absorbing \<and>
       length absorbing = port_count choose r)"

definition absorbing_set_equals_minimal :: "sector \<Rightarrow> bool res" where
  "absorbing_set_equals_minimal S = rbind (minimal_indices S PRIMARY_POTENTIAL) (\<lambda>minimal.
     Inr (set (absorbing_indices S) = set minimal))"

definition settled :: "loads \<Rightarrow> bool" where
  "settled x \<longleftrightarrow> (\<forall>(i, j) \<in> set port_seams. \<bar>x ! i - x ! j\<bar> \<le> 1)"

lemma settled_labels:
  assumes "in_sector n x"
  shows "settled x \<longleftrightarrow> (\<forall>l \<in> set directed_labels. apply_label x l = x)"
proof -
  have "(\<forall>l \<in> set directed_labels. apply_label x l = x) \<longleftrightarrow> (\<forall>l \<in> set directed_labels. \<bar>x ! fst l - x ! snd l\<bar> \<le> 1)"
    using squared_norm_move(2) [OF assms] by blast
  also have "\<dots> \<longleftrightarrow> settled x"
    by (simp add: directed_labels_def settled_def case_prod_beta abs_minus_commute)
  finally show ?thesis by simp
qed

lemma is_absorbing_iff:
  assumes S: "build_sector n = Inr S" and k: "k < sector_size S"
  shows "is_absorbing S k \<longleftrightarrow> settled (sector_states S ! k)"
proof -
  have "is_absorbing S k \<longleftrightarrow> (\<forall>m < label_count. next_state S ! k ! m = k)"
    by (simp add: is_absorbing_def list_all_length next_state_row(3) [OF S k])
  also have "\<dots> \<longleftrightarrow> (\<forall>m < label_count. apply_label (sector_states S ! k) (directed_labels ! m) = sector_states S ! k)"
    using next_state_self_iff [OF S k] by blast
  also have "\<dots> \<longleftrightarrow> settled (sector_states S ! k)"
    unfolding settled_labels [OF sector_nth [OF S k]] by (metis label_index label_nth)
  finally show ?thesis .
qed

lemma fold_min: "fold min xs (x :: int) = Min (insert x (set xs))"
proof (induction xs arbitrary: x)
  case (Cons y ys)
  have "fold min (y # ys) x = Min (insert (min y x) (set ys))" using Cons by simp
  also have "\<dots> = Min (insert x (set (y # ys)))"
    by (cases "ys = []") (simp_all add: ac_simps)
  finally show ?case .
qed simp

definition state_value :: "string \<Rightarrow> loads \<Rightarrow> int" where
  "state_value u x = (if u = PRIMARY_POTENTIAL then squared_norm x else seam_phi x)"

lemma minimal_indices_value:
  assumes S: "build_sector n = Inr S" 
  obtains xs where "minimal_indices S u = Inr xs"
    "\<And>k. k \<in> set xs \<longleftrightarrow> k < sector_size S \<and> (\<forall>y. in_sector n y \<longrightarrow> state_value u (sector_states S ! k) \<le> state_value u y)"
proof -
  let ?v = "sector_value S u"
  have v: "?v = map (state_value u) (sector_states S)"
    by (simp add: sector_value_def state_value_def [abs_def] sector_parts(2,3) [OF S])
  have "in_sector n (int n # replicate 11 0)" by (simp add: in_sector_def numeral_eq_Suc)
  then have ne: "sector_states S \<noteq> []" using sector_states_iff [OF S] by fastforce
  then have "fold min (tl ?v) (hd ?v) = Min (set ?v)" unfolding fold_min v by (cases "sector_states S") simp_all
  then have "minimal_indices S u = Inr (filter (\<lambda>i. ?v ! i = Min (set ?v)) [0..<length ?v])"
    using ne by (simp add: minimal_indices_def v)
  moreover have "k \<in> set (filter (\<lambda>i. ?v ! i = Min (set ?v)) [0..<length ?v]) \<longleftrightarrow>
      k < sector_size S \<and> (\<forall>y. in_sector n y \<longrightarrow> state_value u (sector_states S ! k) \<le> state_value u y)" for k
  proof -
    have "?v ! k = Min (set ?v) \<longleftrightarrow> (\<forall>y. in_sector n y \<longrightarrow> state_value u (sector_states S ! k) \<le> state_value u y)"
      if k: "k < sector_size S"
    proof -
      have "?v ! k \<in> set ?v" using k by (simp add: v sector_size_def)
      then have "?v ! k = Min (set ?v) \<longleftrightarrow> (\<forall>u \<in> set ?v. ?v ! k \<le> u)"
        by (metis Min_eqI Min_le List.finite_set)
      also have "\<dots> \<longleftrightarrow> (\<forall>y \<in> set (sector_states S). state_value u (sector_states S ! k) \<le> state_value u y)"
        using k by (simp add: v sector_size_def)
      finally show ?thesis unfolding Ball_def sector_states_iff [OF S] .
    qed
    then show ?thesis by (auto simp: v sector_size_def)
  qed
  ultimately show thesis by (rule that)
qed

lemma minimal_indices_iff:
  assumes S: "build_sector n = Inr S" 
  obtains xs where "minimal_indices S PRIMARY_POTENTIAL = Inr xs"
    "\<And>k. k \<in> set xs \<longleftrightarrow> k < sector_size S \<and> (\<forall>y. in_sector n y \<longrightarrow> squared_norm (sector_states S ! k) \<le> squared_norm y)"
  using minimal_indices_value [OF S, of PRIMARY_POTENTIAL] that by (auto simp: state_value_def)

text \<open>A state of least squared norm has no two loads that differ by two.\<close>

lemma minimal_spread:
  assumes x: "in_sector n x" and least: "\<And>y. in_sector n y \<Longrightarrow> squared_norm x \<le> squared_norm y"
    and h: "h < 12" and w: "w < 12"
  shows "x ! h \<le> x ! w + 1"
proof (rule ccontr)
  assume gap: "\<not> x ! h \<le> x ! w + 1"
  then have r: "h < length x" "w < length x" "h \<noteq> w" using x h w by (auto simp: in_sector_def)
  let ?y = "x[h := x ! h - 1, w := x ! w + 1]"
  have pos: "0 \<le> x ! w" using x w by (simp add: in_sector_def)
  have "set ?y \<subseteq> insert (x ! w + 1) (insert (x ! h - 1) (set x))"
    by (meson insert_mono order_trans set_update_subset_insert)
  then have "\<forall>a \<in> set ?y. 0 \<le> a" using x gap pos unfolding in_sector_def by fastforce
  moreover have "sum_list ?y = sum_list x" using sum_list_update_pair [OF r, of "x ! h - 1" "x ! w + 1"] by simp
  ultimately have "in_sector n ?y" using x by (simp add: in_sector_def)
  from least [OF this] squared_norm_pair [OF r, of "x ! h - 1" "x ! w + 1"] gap
  show False by (simp add: algebra_simps)
qed

definition uneven_table :: "int list list" where
  "uneven_table = [[2, 1, 1, 0, 1, 1, 1, 1, 1, 1, 1, 1],
     [2, 2, 1, 0, 1, 1, 1, 1, 1, 1, 1, 1],
     [2, 2, 1, 0, 1, 2, 1, 1, 1, 1, 1, 1],
     [2, 2, 1, 0, 1, 2, 1, 2, 1, 1, 1, 1],
     [2, 2, 1, 0, 1, 2, 1, 2, 1, 1, 2, 1],
     [2, 2, 1, 0, 1, 2, 1, 2, 1, 1, 2, 2],
     [3, 2, 1, 0, 1, 2, 1, 2, 1, 1, 2, 2],
     [2, 1, 0, 0, 0, 1, 0, 1, 0, 0, 1, 1],
     [2, 1, 1, 0, 0, 1, 0, 1, 0, 0, 1, 1],
     [2, 1, 1, 0, 1, 1, 0, 1, 0, 0, 1, 1],
     [2, 1, 1, 0, 1, 1, 1, 1, 0, 0, 1, 1],
     [2, 1, 1, 0, 1, 1, 1, 1, 1, 0, 1, 1]]"

lemma uneven_table_rows:
  "list_all (\<lambda>row. length row = 12 \<and> list_all (\<lambda>a. 0 \<le> a) row \<and>
     list_all (\<lambda>(i, j). \<bar>row ! i - row ! j\<bar> \<le> 1) port_seams \<and> row ! 3 = 0 \<and> 2 \<le> row ! 0) uneven_table"
  "map sum_list uneven_table = [12, 13, 14, 15, 16, 17, 18, 7, 8, 9, 10, 11]"
  by code_simp+

definition uneven_loads :: "nat \<Rightarrow> loads" where
  "uneven_loads n = map (\<lambda>v. v + (int (n div 12) - (if 7 \<le> n mod 12 then 0 else 1))) (uneven_table ! (n mod 12))"

lemma sum_list_shift: "sum_list (map (\<lambda>v. v + d) xs) = sum_list xs + int (length xs) * d"
  by (induction xs) (simp_all add: algebra_simps)

lemma uneven_loads:
  assumes "7 \<le> n"
  shows "in_sector n (uneven_loads n)" "settled (uneven_loads n)" "uneven_loads n ! 3 + 2 \<le> uneven_loads n ! 0"
proof -
  define r where "r = n mod 12"
  define d where "d = int (n div 12) - (if 7 \<le> r then 0 else 1)"
  define row where "row = uneven_table ! r"
  have r: "r < length uneven_table" by (simp add: r_def uneven_table_def)
  then have "row \<in> set uneven_table" by (simp add: row_def)
  then have row: "length row = 12" "\<forall>a \<in> set row. 0 \<le> a" "\<forall>(i, j) \<in> set port_seams. \<bar>row ! i - row ! j\<bar> \<le> 1"
      "row ! 3 = 0" "2 \<le> row ! 0"
    using uneven_table_rows(1) by (simp_all add: list_all_iff)
  have x: "uneven_loads n = map (\<lambda>v. v + d) row" by (simp add: uneven_loads_def row_def d_def r_def)
  have "7 \<le> n mod 12 \<or> 1 \<le> n div 12" using assms by presburger
  then have d: "0 \<le> d" by (auto simp: d_def r_def)
  have n: "n = 12 * (n div 12) + r" by (simp add: r_def)
  have "sum_list row = [12, 13, 14, 15, 16, 17, 18, 7, 8, 9, 10, 11] ! r"
    using arg_cong [OF uneven_table_rows(2), of "\<lambda>l. l ! r"] r by (simp add: row_def)
  also have "\<dots> = int r + (if 7 \<le> r then 0 else 12)"
    using less_12 [of r] by (auto simp: r_def)
  finally have "sum_list row + 12 * d = int n" by (subst n) (simp add: d_def)
  then show "in_sector n (uneven_loads n)" using row(1,2) d by (auto simp: x in_sector_def sum_list_shift)
  show "settled (uneven_loads n)" using row(1,3) seam_range
    unfolding settled_def x by (fastforce simp: case_prod_beta)
  show "uneven_loads n ! 3 + 2 \<le> uneven_loads n ! 0" using row(1,4,5) by (simp add: x)
qed

lemma settled_small:
  assumes x: "in_sector n x" and s: "settled x" and n: "n \<le> 6" and a: "a \<in> set x"
  shows "a = 0 \<or> a = 1"
proof (rule ccontr)
  assume "\<not> (a = 0 \<or> a = 1)"
  with x a have two: "2 \<le> a" unfolding in_sector_def by fastforce
  obtain p where p: "p < 12" "x ! p = a" using a x by (metis in_sector_def in_set_conv_nth)
  have pos: "0 \<le> x ! q" if "q < 12" for q using x that by (simp add: in_sector_def)
  have near: "1 \<le> x ! q" if "q \<in> neighbour_ports p" for q
  proof -
    have "(p, q) \<in> set port_seams \<or> (q, p) \<in> set port_seams" using that by (simp add: neighbour_ports_def label_iff)
    then have "\<bar>x ! p - x ! q\<bar> \<le> 1" using s unfolding settled_def by (auto simp: abs_minus_commute)
    with p(2) two show ?thesis by linarith
  qed
  have "card (neighbour_ports p) = 5"
    using p(1) unfolding less_12
    by (elim disjE) (simp_all add: neighbour_ports_list neighbour_table [simplified One_nat_def] del: upt_Suc filter.simps)
  then have "5 \<le> (\<Sum>q \<in> neighbour_ports p. x ! q)"
    using sum_mono [of "neighbour_ports p" "\<lambda>_. 1" "\<lambda>q. x ! q"] near by simp
  also have "\<dots> \<le> (\<Sum>q \<in> {..<12} - {p}. x ! q)"
    by (intro sum_mono2 neighbour_ports_sub) (auto intro: pos)
  also have "\<dots> = sum_list x - x ! p"
    using p(1) x by (simp add: sum_diff1 in_sector_def sum_list_sum_nth atLeast0LessThan)
  finally show False using two p(2) n x by (simp add: in_sector_def)
qed

lemma bits_norm: "\<forall>a \<in> set x. a = 0 \<or> a = 1 \<Longrightarrow> squared_norm x = sum_list x"
  unfolding squared_norm_def by (induction x) auto

lemma norm_at_least_sum: "sum_list x \<le> squared_norm x"
proof -
  have "(v :: int) \<le> v * v" for v
  proof (cases "v \<le> 0")
    case True
    then show ?thesis using zero_le_square [of v] by linarith
  next
    case False
    then show ?thesis using mult_right_mono [of 1 v v] by simp
  qed
  then show ?thesis unfolding squared_norm_def by (induction x) (simp_all add: add_mono)
qed

lemma card_bits:
  "card {x :: loads. length x = m \<and> set x \<subseteq> {0, 1} \<and> sum_list x = int n} = m choose n"
proof (induction m arbitrary: n)
  case 0
  have "{x :: loads. length x = 0 \<and> set x \<subseteq> {0, 1} \<and> sum_list x = int n} = (if n = 0 then {[]} else {})"
    by auto
  then show ?case by simp
next
  case (Suc m)
  let ?B = "\<lambda>m k. {x :: loads. length x = m \<and> set x \<subseteq> {0, 1} \<and> sum_list x = k}"
  have split: "?B (Suc m) k = (#) 0 ` ?B m k \<union> (#) 1 ` ?B m (k - 1)" for k
  proof (intro set_eqI iffI)
    fix x
    assume "x \<in> ?B (Suc m) k"
    then show "x \<in> (#) 0 ` ?B m k \<union> (#) 1 ` ?B m (k - 1)" by (cases x) auto
  qed auto
  have fin: "finite (?B m k)" for k
    by (rule finite_subset [OF _ finite_lists_length_eq [of "{0, 1 :: int}" m]]) auto
  have c: "card (?B (Suc m) k) = card (?B m k) + card (?B m (k - 1))" for k
    unfolding split by (subst card_Un_disjoint) (auto simp: fin card_image)
  show ?case
  proof (cases n)
    case 0
    have e: "?B m (- 1) = {}"
    proof -
      have "0 \<le> sum_list x" if "set x \<subseteq> {0, 1 :: int}" for x using that by (intro sum_list_nonneg) auto
      then show ?thesis by fastforce
    qed
    have "card (?B (Suc m) 0) = card (?B m 0) + card (?B m (- 1))" using c [of 0] by (simp only: diff_0)
    also have "\<dots> = card (?B m 0)" unfolding e by simp
    finally show ?thesis using Suc.IH [of 0] 0 by simp
  next
    case (Suc k)
    then show ?thesis using Suc.IH [of n] Suc.IH [of k] c [of "int n"] by simp
  qed
qed

lemma absorbing_states:
  assumes S: "build_sector n = Inr S"
  shows "set (absorbing_indices S) = {k. k < sector_size S \<and> settled (sector_states S ! k)}"
  using is_absorbing_iff [OF S] by (auto simp: absorbing_indices_def)

lemma absorbing_small:
  assumes S: "build_sector n = Inr S" and n: "n \<le> 6"
  shows "absorbing_set_equals_minimal S = Inr True" "absorbing_set_is_shell S"
proof -
  obtain xs where m: "minimal_indices S PRIMARY_POTENTIAL = Inr xs"
    "\<And>k. k \<in> set xs \<longleftrightarrow> k < sector_size S \<and> (\<forall>y. in_sector n y \<longrightarrow> squared_norm (sector_states S ! k) \<le> squared_norm y)"
    using minimal_indices_iff [OF S] by metis
  have bits: "settled x \<longleftrightarrow> (\<forall>a \<in> set x. a = 0 \<or> a = 1)" if x: "in_sector n x" for x
  proof
    assume "\<forall>a \<in> set x. a = 0 \<or> a = 1"
    then have "x ! i = 0 \<or> x ! i = 1" if "i < 12" for i using that x by (simp add: in_sector_def)
    then have b: "x ! i = 0 \<or> x ! i = 1" if "i < 12" for i using that .
    show "settled x" unfolding settled_def
    proof (rule ballI, clarify)
      fix i j
      assume "(i, j) \<in> set port_seams"
      then have "i < 12" "j < 12" using seam_range [of i j] by auto
      from b [OF this(1)] b [OF this(2)] show "\<bar>x ! i - x ! j\<bar> \<le> 1" by auto
    qed
  qed (use settled_small [OF x _ n] in blast)
  have "settled x \<longleftrightarrow> (\<forall>y. in_sector n y \<longrightarrow> squared_norm x \<le> squared_norm y)" if x: "in_sector n x" for x
  proof
    assume "settled x"
    then have "squared_norm x = sum_list x" using bits [OF x] bits_norm by blast
    then show "\<forall>y. in_sector n y \<longrightarrow> squared_norm x \<le> squared_norm y"
      using x norm_at_least_sum by (simp add: in_sector_def) metis
  next
    assume "\<forall>y. in_sector n y \<longrightarrow> squared_norm x \<le> squared_norm y"
    then have "x ! h \<le> x ! w + 1" if "h < 12" "w < 12" for h w using minimal_spread [OF x _ that] by blast
    then have b: "x ! h \<le> x ! w + 1" if "h < 12" "w < 12" for h w using that .
    show "settled x" unfolding settled_def
    proof (rule ballI, clarify)
      fix i j
      assume "(i, j) \<in> set port_seams"
      then have "i < 12" "j < 12" using seam_range [of i j] by auto
      from b [OF this] b [OF this(2,1)] show "\<bar>x ! i - x ! j\<bar> \<le> 1" by linarith
    qed
  qed
  then have "set (absorbing_indices S) = set xs"
    unfolding absorbing_states [OF S] using m(2) sector_nth [OF S] by blast
  then show "absorbing_set_equals_minimal S = Inr True" by (simp add: absorbing_set_equals_minimal_def m(1))
  have "distinct (absorbing_indices S)" by (simp add: absorbing_indices_def)
  then have "length (absorbing_indices S) = card (set (absorbing_indices S))" by (simp add: distinct_card)
  also have "\<dots> = card ((\<lambda>k. sector_states S ! k) ` set (absorbing_indices S))"
    using nth_eq_iff_index_eq [OF sector_states_distinct [OF S]]
    by (intro card_image [symmetric]) (auto simp: inj_on_def absorbing_states [OF S] sector_size_def)
  also have "(\<lambda>k. sector_states S ! k) ` set (absorbing_indices S) = {x. in_sector n x \<and> settled x}"
    unfolding absorbing_states [OF S] using sector_find [OF S] sector_nth [OF S] by (auto simp: image_iff)
  also have "\<dots> = {x. length x = 12 \<and> set x \<subseteq> {0, 1} \<and> sum_list x = int n}"
    using bits unfolding in_sector_def by fastforce
  finally have "length (absorbing_indices S) = 12 choose n" by (simp add: card_bits)
  moreover have "\<forall>a \<in> set (sector_states S ! k). a = 0 \<or> a = 1" if "k \<in> set (absorbing_indices S)" for k
    using that bits sector_nth [OF S] unfolding absorbing_states [OF S] by blast
  ultimately show "absorbing_set_is_shell S"
    using n by (simp add: absorbing_set_is_shell_def sector_parts(4) [OF S] port_count_def list_all_iff)
qed

lemma absorbing_large:
  assumes S: "build_sector n = Inr S" and n: "7 \<le> n"
  shows "absorbing_set_equals_minimal S = Inr False" "\<not> absorbing_set_is_shell S"
proof -
  note u = uneven_loads [OF n]
  obtain k where k: "k < sector_size S" "sector_states S ! k = uneven_loads n" by (rule sector_find [OF S u(1)])
  then have a: "k \<in> set (absorbing_indices S)" using u(2) by (simp add: absorbing_states [OF S])
  obtain xs where m: "minimal_indices S PRIMARY_POTENTIAL = Inr xs"
    "\<And>k. k \<in> set xs \<longleftrightarrow> k < sector_size S \<and> (\<forall>y. in_sector n y \<longrightarrow> squared_norm (sector_states S ! k) \<le> squared_norm y)"
    using minimal_indices_iff [OF S] by metis
  have "k \<notin> set xs"
  proof
    assume "k \<in> set xs"
    then have "\<And>y. in_sector n y \<Longrightarrow> squared_norm (uneven_loads n) \<le> squared_norm y" using m(2) k by metis
    from minimal_spread [OF u(1) this, of 0 3] u(3) show False by simp
  qed
  with a have "set (absorbing_indices S) \<noteq> set xs" by blast
  then show "absorbing_set_equals_minimal S = Inr False" by (simp add: absorbing_set_equals_minimal_def m(1))
  have "length (uneven_loads n) = 12" using u(1) by (simp add: in_sector_def)
  then have "uneven_loads n ! 0 \<in> set (uneven_loads n)" "uneven_loads n ! 3 \<in> set (uneven_loads n)" by simp_all
  note ends = this
  have "uneven_loads n ! 0 \<le> uneven_loads n ! 3 + 1" if "absorbing_set_is_shell S"
  proof -
    define q where "q = int (protected_total S div port_count)"
    have "\<forall>v \<in> set (uneven_loads n). v = q \<or> v = q + 1"
      using that a unfolding absorbing_set_is_shell_def Let_def list_all_iff k(2) [symmetric] q_def by blast
    then have "uneven_loads n ! 0 \<le> q + 1" "q \<le> uneven_loads n ! 3" using ends by auto
    then show ?thesis by linarith
  qed
  then show "\<not> absorbing_set_is_shell S" using u(3) by linarith
qed

section \<open>Repairs end\<close>

definition changing_labels :: "loads \<Rightarrow> seam list" where
  "changing_labels x = filter (\<lambda>l. apply_label x l \<noteq> x) directed_labels"

lemma squared_norm_nonneg: "0 \<le> squared_norm x"
  unfolding squared_norm_def by (rule sum_list_nonneg) auto

interpretation seam_descent: descent_system changing_labels apply_label "\<lambda>x. nat (squared_norm x div 2)" "in_sector n" for n
proof unfold_locales
  fix x l
  assume x: "in_sector n x" and l: "l \<in> set (changing_labels x)"
  then show "in_sector n (apply_label x l)" by (simp add: changing_labels_def in_sector_move)
  have "squared_norm (apply_label x l) \<le> squared_norm x - 2"
    using squared_norm_move_less [OF x] l by (simp add: changing_labels_def)
  then show "nat (squared_norm (apply_label x l) div 2) < nat (squared_norm x div 2)"
    using squared_norm_nonneg [of "apply_label x l"] by linarith
qed

lemma changing_labels_empty: "in_sector n x \<Longrightarrow> changing_labels x = [] \<longleftrightarrow> settled x"
  by (simp add: changing_labels_def settled_labels filter_empty_conv)

end
