(* ===== verification/Fraction_Dict.thy ===== *)
theory Fraction_Dict
  imports Prelude Complex_Main
begin

text \<open>
  Python dictionaries that accumulate exact fractions (\<open>d[k] = d.get(k, Fraction(0)) + w\<close>), as
  association lists in insertion order.  The lemmas say what a lookup and a weighted total return
  after an accumulation, so that a loop of accumulations is a sum.
\<close>

type_synonym 'k fractions = "('k \<times> rat) list"

fun dict_add :: "'k \<Rightarrow> rat \<Rightarrow> 'k fractions \<Rightarrow> 'k fractions" where
  "dict_add k w [] = [(k, w)]"
| "dict_add k w ((k', v) # d) = (if k' = k then (k', v + w) # d else (k', v) # dict_add k w d)"

definition dict_get :: "'k fractions \<Rightarrow> 'k \<Rightarrow> rat" where
  "dict_get d k = (case map_of d k of None \<Rightarrow> 0 | Some v \<Rightarrow> v)"

definition dict_total :: "'k fractions \<Rightarrow> rat" where
  "dict_total d = sum_list (map snd d)"

text \<open>The sum of \<open>f key * value\<close> over the items.\<close>

definition dict_mean :: "('k \<Rightarrow> rat) \<Rightarrow> 'k fractions \<Rightarrow> rat" where
  "dict_mean f d = sum_list (map (\<lambda>(k, v). f k * v) d)"

text \<open>Division of fractions.\<close>

definition frac_div :: "rat \<Rightarrow> rat \<Rightarrow> rat res" where
  "frac_div a b = (if b = 0 then Inl ZeroDivisionError else Inr (a / b))"

lemma dict_add_keys: "fst ` set (dict_add k w d) = insert k (fst ` set d)"
  by (induction k w d rule: dict_add.induct) (simp_all add: insert_commute)

lemma dict_add_distinct: "distinct (map fst d) \<Longrightarrow> distinct (map fst (dict_add k w d))"
proof (induction d)
  case (Cons e d)
  then show ?case using dict_add_keys [of k w d] by (cases e) auto
qed simp

lemma dict_get_Nil [simp]: "dict_get [] k = 0"
  by (simp add: dict_get_def)

lemma dict_get_Cons [simp]: "dict_get ((k', v) # d) k = (if k' = k then v else dict_get d k)"
  by (simp add: dict_get_def)

lemma dict_get_add: "dict_get (dict_add k w d) k' = dict_get d k' + (if k' = k then w else 0)"
  by (induction k w d rule: dict_add.induct) auto

lemma dict_mean_add: "dict_mean f (dict_add k w d) = dict_mean f d + f k * w"
  unfolding dict_mean_def by (induction k w d rule: dict_add.induct) (auto simp: algebra_simps)

lemma dict_total_mean: "dict_total d = dict_mean (\<lambda>_. 1) d"
  by (simp add: dict_total_def dict_mean_def case_prod_unfold)

lemma dict_total_add: "dict_total (dict_add k w d) = dict_total d + w"
  by (simp add: dict_total_mean dict_mean_add)

text \<open>A loop that accumulates \<open>w x\<close> under the key \<open>g x\<close>.\<close>

definition dict_collect :: "('a \<Rightarrow> 'k) \<Rightarrow> ('a \<Rightarrow> rat) \<Rightarrow> 'a list \<Rightarrow> 'k fractions \<Rightarrow> 'k fractions" where
  "dict_collect g w xs d = fold (\<lambda>x. dict_add (g x) (w x)) xs d"

lemma dict_collect_mean: "dict_mean f (dict_collect g w xs d) = dict_mean f d + sum_list (map (\<lambda>x. f (g x) * w x) xs)"
  unfolding dict_collect_def by (induction xs arbitrary: d) (simp_all add: dict_mean_add)

lemma dict_collect_get:
  "dict_get (dict_collect g w xs d) k = dict_get d k + sum_list (map (\<lambda>x. if g x = k then w x else 0) xs)"
  unfolding dict_collect_def by (induction xs arbitrary: d) (auto simp: dict_get_add)

lemma dict_collect_total: "dict_total (dict_collect g w xs d) = dict_total d + sum_list (map w xs)"
  by (simp add: dict_total_mean dict_collect_mean)

lemma dict_collect_distinct: "distinct (map fst d) \<Longrightarrow> distinct (map fst (dict_collect g w xs d))"
  unfolding dict_collect_def by (induction xs arbitrary: d) (simp_all add: dict_add_distinct)

lemma dict_collect_keys: "fst ` set (dict_collect g w xs d) = fst ` set d \<union> g ` set xs"
  unfolding dict_collect_def by (induction xs arbitrary: d) (auto simp: dict_add_keys)

text \<open>With distinct keys a weighted total is a sum over the items that a lookup reads.\<close>

lemma dict_mean_get: "distinct (map fst d) \<Longrightarrow> dict_mean f d = (\<Sum>k \<in> fst ` set d. f k * dict_get d k)"
proof (induction d)
  case (Cons e d)
  obtain k v where e: "e = (k, v)" by (cases e)
  with Cons.prems have k: "k \<notin> fst ` set d" by auto
  have "(\<Sum>k' \<in> fst ` set d. f k' * dict_get (e # d) k') = (\<Sum>k' \<in> fst ` set d. f k' * dict_get d k')"
    using k by (intro sum.cong refl) (auto simp: e)
  with Cons k show ?case by (simp add: e dict_mean_def)
qed (simp add: dict_mean_def)

end
