(* ===== verification/Tilted_Kernel.thy ===== *)
theory Tilted_Kernel
  imports Repair_Sector Fraction_Dict
begin

text \<open>
  The stochastic repair kernel of \<open>oph_exact/phi_kernel.py\<close>: a label is drawn with weight
  \<open>2 ^ (- beta * decrement)\<close>, rows are aggregated by target, and the expected number of moves and the
  statistics of the terminal state are solved in ascending order of the squared norm.  Probabilities are
  exact fractions.  The lemmas give the rows as sums over labels and show that the solver returns the
  only solution of the first-step equations.
\<close>

section \<open>Kernels\<close>

record tilted_kernel =
  kernel_total :: nat
  kernel_beta :: nat
  kernel_potential :: string
  weights :: "int list list"
  partition_sums :: "int list"

definition tilt_weight :: "nat \<Rightarrow> int \<Rightarrow> int" where
  "tilt_weight beta d = 2 ^ nat (- int beta * d)"

text \<open>A positive decrement raises \<open>AssertionError\<close>.\<close>

definition row_weights :: "nat \<Rightarrow> int list \<Rightarrow> int list res" where
  "row_weights beta row = (if list_ex (\<lambda>d. 0 < d) row then Inl AssertionError
     else Inr (map (tilt_weight beta) row))"

definition kernel_of :: "sector \<Rightarrow> nat \<Rightarrow> nat \<Rightarrow> string \<Rightarrow> tilted_kernel res" where
  "kernel_of S load beta potential = rbind (rmap (row_weights beta) (decrement S potential)) (\<lambda>ws.
     Inr \<lparr>kernel_total = load, kernel_beta = beta, kernel_potential = potential, weights = ws,
       partition_sums = map sum_list ws\<rparr>)"

definition build_kernel :: "nat \<Rightarrow> nat \<Rightarrow> string \<Rightarrow> tilted_kernel res" where
  "build_kernel load beta potential = rbind (build_sector load) (\<lambda>S. kernel_of S load beta potential)"

definition label_probability :: "tilted_kernel \<Rightarrow> nat \<Rightarrow> nat \<Rightarrow> rat" where
  "label_probability K k m = of_int (weights K ! k ! m) / of_int (partition_sums K ! k)"

definition kernel_row :: "tilted_kernel \<Rightarrow> nat \<Rightarrow> rat list" where
  "kernel_row K k = map (\<lambda>w. of_int w / of_int (partition_sums K ! k)) (weights K ! k)"

definition aggregated_row :: "sector \<Rightarrow> tilted_kernel \<Rightarrow> nat \<Rightarrow> nat fractions" where
  "aggregated_row S K k = fold (\<lambda>m. dict_add (next_state S ! k ! m) (label_probability K k m)) [0..<label_count] []"

definition aggregated_rows :: "nat \<Rightarrow> nat \<Rightarrow> string \<Rightarrow> nat fractions list res" where
  "aggregated_rows load beta potential = rbind (build_sector load) (\<lambda>S.
     rbind (build_kernel load beta potential) (\<lambda>K.
       Inr (map (aggregated_row S K) [0..<sector_size S])))"

record kernel_report =
  label_rows_sum_to_one :: bool
  state_rows_sum_to_one :: bool
  uniform_schedule :: bool

definition kernel_summary :: "nat \<Rightarrow> nat \<Rightarrow> string \<Rightarrow> kernel_report res" where
  "kernel_summary load beta potential = rbind (build_sector load) (\<lambda>S.
     rbind (build_kernel load beta potential) (\<lambda>K. rbind (aggregated_rows load beta potential) (\<lambda>rows.
       Inr \<lparr>label_rows_sum_to_one = list_all (\<lambda>k. sum_list (kernel_row K k) = 1) [0..<sector_size S],
         state_rows_sum_to_one = list_all (\<lambda>row. dict_total row = 1) rows,
         uniform_schedule = (beta = 0 \<and> list_all (\<lambda>z. z = int label_count) (partition_sums K))\<rparr>)))"

section \<open>Absorption\<close>

definition v_ascending :: "sector \<Rightarrow> nat list" where
  "v_ascending S = sort_key (\<lambda>k. (v_values S ! k, k)) [0..<sector_size S]"

text \<open>One pass over the row of a transient state: a target without a value yet raises \<open>AssertionError\<close>.\<close>

definition gather_time :: "rat option list \<Rightarrow> nat \<Rightarrow> rat \<Rightarrow> nat \<times> rat \<Rightarrow> rat res" where
  "gather_time known k acc tp = (let (t, p) = tp in
     if t = k then Inr acc
     else (case known ! t of None \<Rightarrow> Inl AssertionError | Some v \<Rightarrow> Inr (acc + p * v)))"

definition solve_time :: "sector \<Rightarrow> nat fractions list \<Rightarrow> rat option list \<Rightarrow> nat \<Rightarrow> rat option list res" where
  "solve_time S rows known k = (if is_absorbing S k then Inr (known[k := Some 0])
     else (let stay = dict_get (rows ! k) k in
       rbind (rfold (gather_time known k) 1 (rows ! k)) (\<lambda>acc.
         rbind (frac_div acc (1 - stay)) (\<lambda>v. Inr (known[k := Some v])))))"

definition expected_moves_to_absorption :: "nat \<Rightarrow> nat \<Rightarrow> string \<Rightarrow> rat list res" where
  "expected_moves_to_absorption load beta potential = rbind (build_sector load) (\<lambda>S.
     rbind (aggregated_rows load beta potential) (\<lambda>rows.
       if \<not> changing_all_negative (descent_summary S PRIMARY_POTENTIAL) then Inl AssertionError
       else rbind (rfold (solve_time S rows) (replicate (sector_size S) None) (v_ascending S)) (\<lambda>known.
         Inr (map (\<lambda>t. case t of None \<Rightarrow> 0 | Some v \<Rightarrow> v) known))))"

text \<open>The four terminal functionals are solved together; \<open>done\<close> is the set of solved states.\<close>

record terminal_tables =
  g_phi :: "rat list"
  g_v :: "rat list"
  h_phi :: "rat list"
  h_v :: "rat list"
  solved :: "nat set"

type_synonym four = "rat \<times> rat \<times> rat \<times> rat"

definition gather_four :: "terminal_tables \<Rightarrow> nat \<Rightarrow> four \<Rightarrow> nat \<times> rat \<Rightarrow> four res" where
  "gather_four T k acc tp = (let (t, p) = tp; (a0, a1, a2, a3) = acc in
     if t = k then Inr acc
     else if t \<notin> solved T then Inl AssertionError
     else Inr (a0 + p * g_phi T ! t, a1 + p * g_v T ! t, a2 + p * h_phi T ! t, a3 + p * h_v T ! t))"

definition put_four :: "terminal_tables \<Rightarrow> nat \<Rightarrow> four \<Rightarrow> terminal_tables" where
  "put_four T k vs = (let (a, b, c, d) = vs in
     T\<lparr>g_phi := (g_phi T)[k := a], g_v := (g_v T)[k := b], h_phi := (h_phi T)[k := c],
       h_v := (h_v T)[k := d], solved := insert k (solved T)\<rparr>)"

definition solve_terminal :: "sector \<Rightarrow> nat set \<Rightarrow> nat set \<Rightarrow> nat fractions list \<Rightarrow> terminal_tables \<Rightarrow> nat \<Rightarrow>
    terminal_tables res" where
  "solve_terminal S phi_min v_min rows T k = (if is_absorbing S k
     then Inr (put_four T k (of_bool (k \<in> phi_min), of_bool (k \<in> v_min), of_int (phi_values S ! k), of_int (v_values S ! k)))
     else (let stay = dict_get (rows ! k) k in
       rbind (rfold (gather_four T k) (0, 0, 0, 0) (rows ! k)) (\<lambda>(a0, a1, a2, a3).
         rbind (frac_div a0 (1 - stay)) (\<lambda>a. rbind (frac_div a1 (1 - stay)) (\<lambda>b.
         rbind (frac_div a2 (1 - stay)) (\<lambda>c. rbind (frac_div a3 (1 - stay)) (\<lambda>d.
           Inr (put_four T k (a, b, c, d)))))))))"

definition terminal_functionals :: "nat \<Rightarrow> nat \<Rightarrow> string \<Rightarrow> terminal_tables res" where
  "terminal_functionals load beta potential = rbind (build_sector load) (\<lambda>S.
     rbind (aggregated_rows load beta potential) (\<lambda>rows.
     rbind (minimal_indices S SECONDARY_POTENTIAL) (\<lambda>phi_min.
     rbind (minimal_indices S PRIMARY_POTENTIAL) (\<lambda>v_min.
       rfold (solve_terminal S (set phi_min) (set v_min) rows)
         (let zeros = replicate (sector_size S) 0
          in \<lparr>g_phi = zeros, g_v = zeros, h_phi = zeros, h_v = zeros, solved = {}\<rparr>) (v_ascending S)))))"

section \<open>Reversibility\<close>

record reversibility_report =
  support_edges :: nat
  reversed_edges :: nat
  balance_possible :: bool
  transient_normalized :: bool

definition count_edge :: "nat fractions list \<Rightarrow> nat \<Rightarrow> nat \<times> rat \<Rightarrow> nat \<times> nat \<Rightarrow> nat \<times> nat" where
  "count_edge rows k tp counts = (let (t, p) = tp; (support, reversed) = counts in
     if t = k \<or> p = 0 then counts
     else (support + 1, if 0 < dict_get (rows ! t) k then reversed + 1 else reversed))"

definition reversibility_summary :: "nat \<Rightarrow> nat \<Rightarrow> string \<Rightarrow> reversibility_report res" where
  "reversibility_summary load beta potential = rbind (build_sector load) (\<lambda>S.
     rbind (aggregated_rows load beta potential) (\<lambda>rows.
       let (support, reversed) = fold (\<lambda>(k, row). fold (count_edge rows k) row) (enumerate 0 rows) (0, 0)
       in Inr \<lparr>support_edges = support, reversed_edges = reversed,
         balance_possible = (reversed = support \<and> 0 < support),
         transient_normalized = list_all (\<lambda>k. dict_total (rows ! k) = 1) (transient_indices S)\<rparr>))"

section \<open>Rows over states and labels\<close>

definition label_weight :: "nat \<Rightarrow> string \<Rightarrow> loads \<Rightarrow> seam \<Rightarrow> rat" where
  "label_weight b u x l = of_int (tilt_weight b (move_change u x l))"

definition label_norm :: "nat \<Rightarrow> string \<Rightarrow> loads \<Rightarrow> rat" where
  "label_norm b u x = sum_list (map (label_weight b u x) directed_labels)"

definition label_law :: "nat \<Rightarrow> string \<Rightarrow> loads \<Rightarrow> seam \<Rightarrow> rat" where
  "label_law b u x l = label_weight b u x l / label_norm b u x"

definition label_mean :: "nat \<Rightarrow> string \<Rightarrow> (loads \<Rightarrow> rat) \<Rightarrow> loads \<Rightarrow> rat" where
  "label_mean b u e x = sum_list (map (\<lambda>l. label_law b u x l * e (apply_label x l)) directed_labels)"

text \<open>The totals on which the tilt by a potential exists.\<close>

definition tiltable :: "nat \<Rightarrow> string \<Rightarrow> bool" where
  "tiltable n u \<longleftrightarrow> u = PRIMARY_POTENTIAL \<or> n \<le> 8"

lemma tiltable_iff:
  assumes "build_sector n = Inr S"
  shows "tiltable n u \<longleftrightarrow> all_nonpositive (descent_summary S u)"
  using primary_descent [OF assms] secondary_descent [OF assms, of u] by (cases "u = PRIMARY_POTENTIAL") (simp_all add: tiltable_def)

lemma tilt_weight_pos: "1 \<le> tilt_weight b d"
  by (simp add: tilt_weight_def)

lemma label_weight_pos: "1 \<le> label_weight b u x l"
  using tilt_weight_pos by (simp add: label_weight_def)

lemma label_norm_bound: "60 \<le> label_norm b u x"
proof -
  have "of_nat (length ls) \<le> sum_list (map (label_weight b u x) ls)" for ls
    using label_weight_pos by (induction ls) (simp_all add: add_mono)
  from this [of directed_labels] show ?thesis by (simp add: label_norm_def directed_labels_length)
qed

lemma label_norm_pos: "0 < label_norm b u x"
  using label_norm_bound [of b u x] by linarith

lemma label_law_pos: "0 < label_law b u x l"
  using label_weight_pos [of b u x l] label_norm_pos [of b u x] by (simp add: label_law_def)

lemma label_law_sum: "sum_list (map (label_law b u x) directed_labels) = 1"
proof -
  have "sum_list (map (label_law b u x) ls) = sum_list (map (label_weight b u x) ls) / label_norm b u x" for ls
    by (induction ls) (simp_all add: label_law_def add_divide_distrib)
  then show ?thesis using label_norm_pos [of b u x] by (simp add: label_norm_def [symmetric])
qed

lemma sector_size_pos: "build_sector n = Inr S \<Longrightarrow> 0 < sector_size S"
proof -
  assume S: "build_sector n = Inr S"
  have "in_sector n (int n # replicate 11 0)" by (simp add: in_sector_def numeral_eq_Suc)
  from sector_find [OF S this] show ?thesis by (metis gr_implies_not0 neq0_conv)
qed

lemma decrement_eq:
  assumes S: "build_sector n = Inr S"
  shows "decrement S u = map (\<lambda>x. map (move_change u x) directed_labels) (sector_states S)"
proof (rule nth_equalityI)
  have len: "length (next_state S) = sector_size S" by (rule next_state_row(1) [OF S sector_size_pos [OF S]])
  then show "length (decrement S u) = length (map (\<lambda>x. map (move_change u x) directed_labels) (sector_states S))"
    by (simp add: decrement_def sector_parts(7,8) [OF S] sector_size_def)
  fix k
  assume "k < length (decrement S u)"
  then have k: "k < sector_size S" using len by (simp add: decrement_def sector_parts(7,8) [OF S] split: if_splits)
  have "length (decrement S u ! k) = label_count"
    using len k next_state_row(3) [OF S k] by (simp add: decrement_def sector_parts(7,8) [OF S] nth_enumerate_eq)
  then have "decrement S u ! k = map (move_change u (sector_states S ! k)) directed_labels"
    by (intro nth_equalityI) (simp_all add: decrement_move [OF S k] directed_labels_length label_count_def)
  then show "decrement S u ! k = map (\<lambda>x. map (move_change u x) directed_labels) (sector_states S) ! k"
    using k by (simp add: sector_size_def)
qed

lemma rmap_Inl: "(\<And>x. x \<in> set xs \<Longrightarrow> f x = (if P x then Inl err else Inr (g x))) \<Longrightarrow>
  rmap f xs = (if \<exists>x \<in> set xs. P x then Inl err else Inr (map g xs))"
  by (induction xs) auto

lemma kernel_of_eq:
  assumes S: "build_sector n = Inr S"
  shows "kernel_of S n b u = (if tiltable n u
    then (let ws = map (\<lambda>x. map (\<lambda>l. tilt_weight b (move_change u x l)) directed_labels) (sector_states S)
      in Inr \<lparr>kernel_total = n, kernel_beta = b, kernel_potential = u, weights = ws, partition_sums = map sum_list ws\<rparr>)
    else Inl AssertionError)"
proof -
  have "(\<exists>row \<in> set (decrement S u). list_ex (\<lambda>d. 0 < d) row) \<longleftrightarrow>
      \<not> (\<forall>x l. in_sector n x \<longrightarrow> l \<in> set directed_labels \<longrightarrow> move_change u x l \<le> 0)"
    by (auto simp: decrement_eq [OF S] list_ex_iff not_le sector_states_iff [OF S] simp del: split_paired_All split_paired_Ex)
  also have "\<dots> \<longleftrightarrow> \<not> tiltable n u"
    by (simp only: tiltable_iff [OF S] descent_summary_states(1) [OF S])
  finally have "rmap (row_weights b) (decrement S u) =
      (if tiltable n u then Inr (map (map (tilt_weight b)) (decrement S u)) else Inl AssertionError)"
    by (subst rmap_Inl [where P = "list_ex (\<lambda>d. 0 < d)" and err = AssertionError and g = "map (tilt_weight b)"])
      (simp_all add: row_weights_def)
  then show ?thesis by (simp add: kernel_of_def decrement_eq [OF S] comp_def Let_def)
qed

lemma build_kernel_eq:
  "build_kernel n b u = (case build_sector n of Inl err \<Rightarrow> Inl err | Inr S \<Rightarrow> kernel_of S n b u)"
  by (simp add: build_kernel_def rbind_def)

lemma build_kernel_refused: "\<not> tiltable n u \<Longrightarrow> build_kernel n b u = Inl AssertionError"
proof -
  assume t: "\<not> tiltable n u"
  obtain S where S: "build_sector n = Inr S" by (rule build_sector_returns)
  show ?thesis using kernel_of_eq [OF S, of b u] t by (simp add: build_kernel_eq S)
qed

lemma build_kernel_returns: "tiltable n u \<Longrightarrow> \<exists>K. build_kernel n b u = Inr K"
proof -
  assume t: "tiltable n u"
  obtain S where S: "build_sector n = Inr S" by (rule build_sector_returns)
  show ?thesis using kernel_of_eq [OF S, of b u] t by (simp add: build_kernel_eq S Let_def)
qed

lemma kernel_tiltable: "build_kernel n b u = Inr K \<Longrightarrow> tiltable n u"
  using build_kernel_refused [of n u b] by (cases "tiltable n u") simp_all

lemma of_int_sum_map: "of_int (sum_list (map f xs)) = sum_list (map (\<lambda>x. of_int (f x)) xs)"
  by (induction xs) simp_all

lemma kernel_parts:
  assumes S: "build_sector n = Inr S" and K: "build_kernel n b u = Inr K" and k: "k < sector_size S"
  shows "weights K ! k = map (\<lambda>l. tilt_weight b (move_change u (sector_states S ! k) l)) directed_labels"
    and "of_int (partition_sums K ! k) = label_norm b u (sector_states S ! k)"
    and "length (weights K) = sector_size S" and "length (partition_sums K) = sector_size S"
    and "kernel_beta K = b" and "kernel_potential K = u"
proof -
  have t: "tiltable n u" by (rule kernel_tiltable [OF K])
  from K have parts: "weights K = map (\<lambda>x. map (\<lambda>l. tilt_weight b (move_change u x l)) directed_labels) (sector_states S)"
    "partition_sums K = map sum_list (weights K)" "kernel_beta K = b" "kernel_potential K = u"
    by (auto simp: build_kernel_eq S kernel_of_eq [OF S] t Let_def)
  from k show "weights K ! k = map (\<lambda>l. tilt_weight b (move_change u (sector_states S ! k) l)) directed_labels"
    by (simp add: parts sector_size_def)
  with k show "of_int (partition_sums K ! k) = label_norm b u (sector_states S ! k)"
    by (simp add: parts(2) parts(1) sector_size_def label_norm_def label_weight_def [abs_def] of_int_sum_map)
  show "length (weights K) = sector_size S" "length (partition_sums K) = sector_size S"
    by (simp_all add: parts(1,2) sector_size_def)
  show "kernel_beta K = b" "kernel_potential K = u" by (rule parts)+
qed

lemma label_probability_eq:
  assumes S: "build_sector n = Inr S" and K: "build_kernel n b u = Inr K" and k: "k < sector_size S" and m: "m < label_count"
  shows "label_probability K k m = label_law b u (sector_states S ! k) (directed_labels ! m)"
  using kernel_parts(1,2) [OF S K k] m
  by (simp add: label_probability_def label_law_def label_weight_def directed_labels_length label_count_def)

lemma sum_labels: "sum_list (map (\<lambda>m. f (directed_labels ! m)) [0..<label_count]) = sum_list (map f directed_labels)"
  by (rule arg_cong [where f = sum_list])
    (simp add: list_eq_iff_nth_eq directed_labels_length label_count_def del: upt_Suc)


section \<open>Aggregated rows\<close>

lemma aggregated_row_collect:
  "aggregated_row S K k = dict_collect (\<lambda>m. next_state S ! k ! m) (label_probability K k) [0..<label_count] []"
  by (simp add: aggregated_row_def dict_collect_def)

text \<open>A function of states read through the index.\<close>

lemma aggregated_row_mean:
  assumes S: "build_sector n = Inr S" and K: "build_kernel n b u = Inr K" and k: "k < sector_size S"
  shows "dict_mean (\<lambda>t. e (sector_states S ! t)) (aggregated_row S K k) = label_mean b u e (sector_states S ! k)"
proof -
  have "dict_mean (\<lambda>t. e (sector_states S ! t)) (aggregated_row S K k) =
      sum_list (map (\<lambda>m. e (sector_states S ! (next_state S ! k ! m)) * label_probability K k m) [0..<label_count])"
    unfolding aggregated_row_collect dict_collect_mean by (simp add: dict_mean_def)
  also have "\<dots> = sum_list (map (\<lambda>m. label_law b u (sector_states S ! k) (directed_labels ! m) *
      e (apply_label (sector_states S ! k) (directed_labels ! m))) [0..<label_count])"
    by (rule arg_cong [where f = sum_list], rule map_cong)
      (simp_all add: label_probability_eq [OF S K k] next_state_nth(2) [OF S k])
  also have "\<dots> = label_mean b u e (sector_states S ! k)"
    unfolding label_mean_def by (rule sum_labels)
  finally show ?thesis .
qed

lemma aggregated_row_facts:
  assumes S: "build_sector n = Inr S" and K: "build_kernel n b u = Inr K" and k: "k < sector_size S"
  shows "dict_total (aggregated_row S K k) = 1" and "distinct (map fst (aggregated_row S K k))"
    and "fst ` set (aggregated_row S K k) = (\<lambda>m. next_state S ! k ! m) ` set [0..<label_count]"
    and "dict_get (aggregated_row S K k) t =
      sum_list (map (\<lambda>m. if next_state S ! k ! m = t then label_probability K k m else 0) [0..<label_count])"
proof -
  have "dict_total (aggregated_row S K k) = label_mean b u (\<lambda>_. 1) (sector_states S ! k)"
    using aggregated_row_mean [OF S K k, of "\<lambda>_. 1"] by (simp add: dict_total_mean)
  then show "dict_total (aggregated_row S K k) = 1" by (simp add: label_mean_def label_law_sum)
  show "distinct (map fst (aggregated_row S K k))" by (simp add: aggregated_row_collect dict_collect_distinct)
  show "fst ` set (aggregated_row S K k) = (\<lambda>m. next_state S ! k ! m) ` set [0..<label_count]"
    by (simp add: aggregated_row_collect dict_collect_keys del: set_upt)
  show "dict_get (aggregated_row S K k) t =
      sum_list (map (\<lambda>m. if next_state S ! k ! m = t then label_probability K k m else 0) [0..<label_count])"
    by (simp add: aggregated_row_collect dict_collect_get)
qed

lemma aggregated_rows_eq:
  assumes S: "build_sector n = Inr S"
  shows "aggregated_rows n b u = (case build_kernel n b u of Inl err \<Rightarrow> Inl err
    | Inr K \<Rightarrow> Inr (map (aggregated_row S K) [0..<sector_size S]))"
  by (simp add: aggregated_rows_def S rbind_def)

lemma sum_list_positive: "(\<And>x. x \<in> set xs \<Longrightarrow> (0::rat) \<le> f x) \<Longrightarrow> x \<in> set xs \<Longrightarrow> f x \<le> sum_list (map f xs)"
proof (induction xs)
  case (Cons y ys)
  have "0 \<le> sum_list (map f ys)" using Cons.prems(1) by (intro sum_list_nonneg) auto
  with Cons show ?case by (cases "x = y") (auto simp: add_increasing)
qed simp

text \<open>A transient state leaves with positive probability.\<close>

lemma stay_less_one:
  assumes S: "build_sector n = Inr S" and K: "build_kernel n b u = Inr K" and k: "k < sector_size S"
    and move: "\<not> is_absorbing S k"
  shows "dict_get (aggregated_row S K k) k < 1"
proof -
  let ?f = "\<lambda>m. if next_state S ! k ! m = k then label_probability K k m else 0"
  let ?g = "\<lambda>m. if next_state S ! k ! m = k then 0 else label_probability K k m"
  obtain m where m: "m < label_count" "next_state S ! k ! m \<noteq> k"
    using move by (auto simp: is_absorbing_def list_all_length next_state_row(3) [OF S k])
  have pos: "0 < label_probability K k i" if "i < label_count" for i
    using label_law_pos by (simp add: label_probability_eq [OF S K k that])
  have "?f i + ?g i = label_probability K k i" for i by simp
  then have "sum_list (map ?f [0..<label_count]) + sum_list (map ?g [0..<label_count]) =
      sum_list (map (label_probability K k) [0..<label_count])"
    by (simp add: sum_list_addf [symmetric])
  also have "\<dots> = sum_list (map (\<lambda>m. label_law b u (sector_states S ! k) (directed_labels ! m)) [0..<label_count])"
    by (rule arg_cong [where f = sum_list], rule map_cong) (simp_all add: label_probability_eq [OF S K k])
  also have "\<dots> = 1" by (simp only: sum_labels label_law_sum)
  finally have "sum_list (map ?f [0..<label_count]) + sum_list (map ?g [0..<label_count]) = 1" .
  moreover have "?g m \<le> sum_list (map ?g [0..<label_count])"
    by (rule sum_list_positive) (use m pos in \<open>auto simp: less_imp_le\<close>)
  ultimately show ?thesis using m pos [OF m(1)] unfolding aggregated_row_facts(4) [OF S K k] by simp
qed

section \<open>First-step equations\<close>

definition harmonic :: "nat \<Rightarrow> nat \<Rightarrow> string \<Rightarrow> (loads \<Rightarrow> rat) \<Rightarrow> rat \<Rightarrow> (loads \<Rightarrow> rat) \<Rightarrow> bool" where
  "harmonic n b u boundary c e \<longleftrightarrow>
     (\<forall>x. in_sector n x \<longrightarrow> e x = (if settled x then boundary x else c + label_mean b u e x))"

lemma label_mean_wait:
  "label_mean b u e x = sum_list (map (\<lambda>l. if apply_label x l = x then label_law b u x l else 0) directed_labels) * e x +
     sum_list (map (\<lambda>l. if apply_label x l = x then 0 else label_law b u x l * e (apply_label x l)) directed_labels)"
proof -
  have "sum_list (map (\<lambda>l. label_law b u x l * e (apply_label x l)) ls) =
     sum_list (map (\<lambda>l. if apply_label x l = x then label_law b u x l else 0) ls) * e x +
     sum_list (map (\<lambda>l. if apply_label x l = x then 0 else label_law b u x l * e (apply_label x l)) ls)" for ls
    by (induction ls) (auto simp: algebra_simps)
  then show ?thesis by (simp add: label_mean_def)
qed

lemma wait_less_one:
  assumes "in_sector n x" "\<not> settled x"
  shows "sum_list (map (\<lambda>l. if apply_label x l = x then label_law b u x l else 0) directed_labels) < 1"
proof -
  obtain l where l: "l \<in> set directed_labels" "apply_label x l \<noteq> x"
    using settled_labels [OF assms(1)] assms(2) by blast
  let ?f = "\<lambda>l. if apply_label x l = x then label_law b u x l else 0"
  let ?g = "\<lambda>l. if apply_label x l = x then 0 else label_law b u x l"
  have "sum_list (map ?f directed_labels) + sum_list (map ?g directed_labels) = sum_list (map (\<lambda>l. ?f l + ?g l) directed_labels)"
    by (simp add: sum_list_addf)
  also have "(\<lambda>l. ?f l + ?g l) = label_law b u x" by auto
  finally have "sum_list (map ?f directed_labels) + sum_list (map ?g directed_labels) = 1" by (simp add: label_law_sum)
  moreover have "?g l \<le> sum_list (map ?g directed_labels)"
    by (rule sum_list_positive) (use l label_law_pos in \<open>auto simp: less_imp_le\<close>)
  ultimately show ?thesis using l label_law_pos [of b u x l] by simp
qed

lemma harmonic_unique:
  assumes e: "harmonic n b u boundary c e" and f: "harmonic n b u boundary c f" and x: "in_sector n x"
  shows "e x = f x"
  using x
proof (induction "nat (squared_norm x)" arbitrary: x rule: less_induct)
  case less
  show ?case
  proof (cases "settled x")
    case True
    then show ?thesis using e f less.prems by (simp add: harmonic_def)
  next
    case False
    let ?w = "sum_list (map (\<lambda>l. if apply_label x l = x then label_law b u x l else 0) directed_labels)"
    have same: "(if apply_label x l = x then 0 else label_law b u x l * e (apply_label x l)) =
        (if apply_label x l = x then 0 else label_law b u x l * f (apply_label x l))" if l: "l \<in> set directed_labels" for l
    proof (cases "apply_label x l = x")
      case False
      then have "nat (squared_norm (apply_label x l)) < nat (squared_norm x)"
        using squared_norm_move_less [OF less.prems l] squared_norm_nonneg [of "apply_label x l"] by simp
      from less.hyps [OF this in_sector_move [OF less.prems l]] show ?thesis by simp
    qed simp
    have "sum_list (map (\<lambda>l. if apply_label x l = x then 0 else label_law b u x l * e (apply_label x l)) directed_labels) =
        sum_list (map (\<lambda>l. if apply_label x l = x then 0 else label_law b u x l * f (apply_label x l)) directed_labels)"
      by (rule arg_cong [where f = sum_list], rule map_cong [OF refl], rule same)
    then have "label_mean b u e x - label_mean b u f x = ?w * (e x - f x)"
      unfolding label_mean_wait by (simp add: algebra_simps)
    then have "e x - f x = ?w * (e x - f x)"
      using e f less.prems False unfolding harmonic_def by (metis add_diff_cancel_left)
    then have "(1 - ?w) * (e x - f x) = 0" by (simp add: algebra_simps)
    then show ?thesis using wait_less_one [OF less.prems False, of b u] by auto
  qed
qed

section \<open>The solver\<close>

lemma dict_mean_cong: "(\<And>k. k \<in> fst ` set d \<Longrightarrow> f k = g k) \<Longrightarrow> dict_mean f d = dict_mean g d"
  unfolding dict_mean_def by (rule arg_cong [where f = sum_list], rule map_cong) force+

lemma dict_mean_but:
  assumes "distinct (map fst d)"
  shows "dict_mean f d = dict_get d k * f k + dict_mean (\<lambda>t. if t = k then 0 else f t) d"
proof -
  have "dict_mean f d = dict_get d k * f k + dict_mean (\<lambda>t. if t = k then 0 else f t) d \<and>
      (k \<notin> fst ` set d \<longrightarrow> dict_get d k = 0)" using assms
  proof (induction d)
    case (Cons e d)
    obtain t v where e: "e = (t, v)" by (cases e)
    with Cons show ?case by (auto simp: dict_mean_def algebra_simps)
  qed (simp add: dict_mean_def)
  then show ?thesis by simp
qed

text \<open>The value found for \<open>k\<close> from the values \<open>f\<close> of its other targets.\<close>

lemma solved_value:
  assumes "distinct (map fst d)" "dict_get d k \<noteq> 1" "f k = (c + dict_mean (\<lambda>t. if t = k then 0 else f t) d) / (1 - dict_get d k)"
  shows "f k = c + dict_mean f d"
  using assms(2,3) dict_mean_but [OF assms(1), of f k] by (simp add: field_simps)

lemma v_ascending_before:
  assumes S: "build_sector n = Inr S" and split: "v_ascending S = ys @ k # zs" and t: "t < sector_size S"
    and v: "v_values S ! t < v_values S ! k"
  shows "t \<in> set ys"
proof (rule ccontr)
  assume "t \<notin> set ys"
  moreover have "t \<in> set (v_ascending S)" using t by (simp add: v_ascending_def)
  ultimately have "t \<in> set zs" using v unfolding split by auto
  moreover have "sorted (map (\<lambda>k. (v_values S ! k, k)) (v_ascending S))"
    by (simp add: v_ascending_def)
  then have "\<forall>z \<in> set zs. (v_values S ! k, k) \<le> (v_values S ! z, z)" unfolding split by (auto simp: sorted_append)
  ultimately have "v_values S ! k \<le> v_values S ! t" by (auto simp: less_eq_prod_def)
  with v show False by simp
qed

lemma v_ascending_set: "set (v_ascending S) = {..<sector_size S}" "distinct (v_ascending S)"
  by (auto simp: v_ascending_def)

lemma target_lower:
  assumes S: "build_sector n = Inr S" and K: "build_kernel n b u = Inr K" and k: "k < sector_size S"
    and t: "t \<in> fst ` set (aggregated_row S K k)" "t \<noteq> k"
  shows "t < sector_size S" "v_values S ! t < v_values S ! k"
proof -
  obtain m where m: "m < label_count" "t = next_state S ! k ! m"
    using t(1) unfolding aggregated_row_facts(3) [OF S K k] by auto
  show t': "t < sector_size S" using next_state_nth(1) [OF S k m(1)] m(2) by simp
  have "apply_label (sector_states S ! k) (directed_labels ! m) \<noteq> sector_states S ! k"
    using next_state_self_iff [OF S k m(1)] m(2) t(2) by simp
  from squared_norm_move_less [OF sector_nth [OF S k] label_nth [OF m(1)] this]
  moreover have "v_values S ! t = squared_norm (apply_label (sector_states S ! k) (directed_labels ! m))"
    using value_nth(1) [OF S t'] next_state_nth(2) [OF S k m(1)] m(2) by simp
  ultimately show "v_values S ! t < v_values S ! k" using value_nth(1) [OF S k] by simp
qed

text \<open>A solver that fills a table in this order satisfies the equations of every state.\<close>

definition row_equation :: "sector \<Rightarrow> nat fractions list \<Rightarrow> (nat \<Rightarrow> rat) \<Rightarrow> rat \<Rightarrow> (nat \<Rightarrow> rat) \<Rightarrow> nat \<Rightarrow> bool" where
  "row_equation S rows bnd c f k \<longleftrightarrow> f k = (if is_absorbing S k then bnd k else c + dict_mean f (rows ! k))"

lemma row_equation_keep:
  assumes "row_equation S rows bnd c f j" "j \<noteq> k" "k \<notin> fst ` set (rows ! j)" "\<And>t. t \<noteq> k \<Longrightarrow> g t = f t"
  shows "row_equation S rows bnd c g j"
proof -
  have "dict_mean g (rows ! j) = dict_mean f (rows ! j)" using assms(3,4) by (intro dict_mean_cong) metis
  with assms show ?thesis by (simp add: row_equation_def)
qed

lemma row_equation_harmonic:
  assumes S: "build_sector n = Inr S" and K: "build_kernel n b u = Inr K"
    and rows: "rows = map (aggregated_row S K) [0..<sector_size S]"
    and eqs: "\<And>k. k < sector_size S \<Longrightarrow> row_equation S rows (\<lambda>k. boundary (sector_states S ! k)) c f k"
  shows "harmonic n b u boundary c e \<longleftrightarrow> (\<forall>k < sector_size S. e (sector_states S ! k) = f k)"
proof -
  have sol: "harmonic n b u boundary c e" if e: "\<forall>k < sector_size S. e (sector_states S ! k) = f k" for e
    unfolding harmonic_def
  proof (intro allI impI)
    fix x
    assume "in_sector n x"
    from sector_find [OF S this] obtain k where k: "k < sector_size S" "sector_states S ! k = x" .
    have "dict_mean f (rows ! k) = dict_mean (\<lambda>t. e (sector_states S ! t)) (rows ! k)"
      using e target_lower(1) [OF S K k(1)] k(1) by (intro dict_mean_cong) (metis add_0 rows length_upt minus_nat.diff_0 nth_map nth_upt)
    also have "\<dots> = label_mean b u e x"
      using aggregated_row_mean [OF S K k(1), of e] k by (simp add: rows)
    finally have mean: "dict_mean f (rows ! k) = label_mean b u e x" .
    have "e x = f k" using e k by blast
    then show "e x = (if settled x then boundary x else c + label_mean b u e x)"
      using eqs [OF k(1)] k(2) is_absorbing_iff [OF S k(1)] mean by (simp add: row_equation_def)
  qed
  show ?thesis
  proof
    assume h: "harmonic n b u boundary c e"
    let ?g = "\<lambda>x. f (the (index_of_states (sector_states S) x))"
    have "?g (sector_states S ! k) = f k" if "k < sector_size S" for k
    proof -
      have "sector_states S ! k \<in> set (sector_states S)" using that by (simp add: sector_size_def)
      from index_of_states_nth [OF sector_states_distinct [OF S] this] obtain i where
        "index_of_states (sector_states S) (sector_states S ! k) = Some i" "i < length (sector_states S)"
        "sector_states S ! i = sector_states S ! k" .
      then show ?thesis using that nth_eq_iff_index_eq [OF sector_states_distinct [OF S]]
        by (metis option.sel sector_size_def)
    qed
    then have g: "\<forall>k < sector_size S. ?g (sector_states S ! k) = f k" by blast
    show "\<forall>k < sector_size S. e (sector_states S ! k) = f k"
      using harmonic_unique [OF h sol [OF g]] sector_nth [OF S] g by metis
  qed (rule sol)
qed

section \<open>Expected moves\<close>

lemma row_targets_before:
  assumes S: "build_sector n = Inr S" and K: "build_kernel n b u = Inr K" and split: "v_ascending S = ys @ k # zs"
  shows "k < sector_size S" and "k \<notin> set ys" and "fst ` set (aggregated_row S K k) \<subseteq> insert k (set ys)"
proof -
  show k: "k < sector_size S" using v_ascending_set(1) [of S] unfolding split by auto
  show "k \<notin> set ys" using v_ascending_set(2) [of S] unfolding split by auto
  show "fst ` set (aggregated_row S K k) \<subseteq> insert k (set ys)"
    using target_lower [OF S K k] v_ascending_before [OF S split] by blast
qed

definition known_value :: "rat option list \<Rightarrow> nat \<Rightarrow> rat" where
  "known_value ts j = (case ts ! j of None \<Rightarrow> 0 | Some v \<Rightarrow> v)"

lemma gather_time_sum:
  "(\<And>t. t \<in> fst ` set d \<Longrightarrow> t \<noteq> k \<Longrightarrow> ts ! t \<noteq> None) \<Longrightarrow>
    rfold (gather_time ts k) acc d = Inr (acc + dict_mean (\<lambda>t. if t = k then 0 else known_value ts t) d)"
proof (induction d arbitrary: acc)
  case (Cons e d)
  obtain t p where e: "e = (t, p)" by (cases e)
  have "gather_time ts k acc e = Inr (acc + p * (if t = k then 0 else known_value ts t))"
    using Cons.prems [of t, unfolded e]
    by (cases "t = k") (auto simp: e gather_time_def known_value_def split: option.split)
  moreover have "rfold (gather_time ts k) acc' d = Inr (acc' + dict_mean (\<lambda>t. if t = k then 0 else known_value ts t) d)" for acc'
    using Cons.prems by (intro Cons.IH) auto
  ultimately show ?case by (simp add: e dict_mean_def algebra_simps)
qed (simp add: dict_mean_def)

definition times_found :: "sector \<Rightarrow> nat fractions list \<Rightarrow> nat list \<Rightarrow> rat option list \<Rightarrow> bool" where
  "times_found S rows ys ts \<longleftrightarrow> length ts = sector_size S \<and>
     (\<forall>j \<in> set ys. j < sector_size S \<and> ts ! j \<noteq> None \<and> fst ` set (rows ! j) \<subseteq> set ys \<and>
       row_equation S rows (\<lambda>_. 0) 1 (known_value ts) j)"

lemma solve_time_step:
  assumes S: "build_sector n = Inr S" and K: "build_kernel n b u = Inr K"
    and rows: "rows = map (aggregated_row S K) [0..<sector_size S]"
    and split: "v_ascending S = ys @ k # zs" and inv: "times_found S rows ys ts"
  shows "\<exists>ts'. solve_time S rows ts k = Inr ts' \<and> times_found S rows (ys @ [k]) ts'"
proof -
  note k = row_targets_before [OF S K split]
  have row: "rows ! k = aggregated_row S K k" using k(1) by (simp add: rows)
  have len: "length ts = sector_size S" using inv by (simp add: times_found_def)
  have found: "times_found S rows (ys @ [k]) (ts[k := Some v])"
    if "row_equation S rows (\<lambda>_. 0) 1 (known_value (ts[k := Some v])) k" for v
    unfolding times_found_def
  proof (intro conjI ballI)
    show "length (ts[k := Some v]) = sector_size S" using len by simp
    fix j
    assume j: "j \<in> set (ys @ [k])"
    show "j < sector_size S" using j k(1) inv by (auto simp: times_found_def)
    show "ts[k := Some v] ! j \<noteq> None" using j k(1) len inv by (auto simp: times_found_def nth_list_update)
    show "fst ` set (rows ! j) \<subseteq> set (ys @ [k])"
    proof (cases "j = k")
      case False
      with j inv have "fst ` set (rows ! j) \<subseteq> set ys" by (simp add: times_found_def)
      then show ?thesis by auto
    qed (use k(3) row in auto)
    show "row_equation S rows (\<lambda>_. 0) 1 (known_value (ts[k := Some v])) j"
    proof (cases "j = k")
      case False
      with j have "j \<in> set ys" by simp
      with inv have e: "row_equation S rows (\<lambda>_. 0) 1 (known_value ts) j" "fst ` set (rows ! j) \<subseteq> set ys"
        by (auto simp: times_found_def)
      show ?thesis by (rule row_equation_keep [OF e(1) False]) (use e(2) k(2) in \<open>auto simp: known_value_def\<close>)
    qed (use that in simp)
  qed
  show ?thesis
  proof (cases "is_absorbing S k")
    case True
    then have "row_equation S rows (\<lambda>_. 0) 1 (known_value (ts[k := Some 0])) k"
      using k(1) len by (simp add: row_equation_def known_value_def)
    from found [OF this] show ?thesis using True by (simp add: solve_time_def)
  next
    case False
    let ?d = "rows ! k"
    let ?v = "(1 + dict_mean (\<lambda>t. if t = k then 0 else known_value ts t) ?d) / (1 - dict_get ?d k)"
    have less: "dict_get ?d k < 1" unfolding row by (rule stay_less_one [OF S K k(1) False])
    have "rfold (gather_time ts k) 1 ?d = Inr (1 + dict_mean (\<lambda>t. if t = k then 0 else known_value ts t) ?d)"
      by (rule gather_time_sum) (use k(3) inv in \<open>auto simp: row times_found_def\<close>)
    then have run: "solve_time S rows ts k = Inr (ts[k := Some ?v])"
      using False less by (simp add: solve_time_def frac_div_def Let_def)
    let ?g = "known_value (ts[k := Some ?v])"
    have "dict_mean (\<lambda>t. if t = k then 0 else known_value ts t) ?d = dict_mean (\<lambda>t. if t = k then 0 else ?g t) ?d"
      by (rule dict_mean_cong) (auto simp: known_value_def)
    moreover have "?g k = ?v" using k(1) len by (simp add: known_value_def)
    ultimately have "?g k = 1 + dict_mean ?g ?d"
      using less aggregated_row_facts(2) [OF S K k(1)] by (intro solved_value) (simp_all add: row)
    then have "row_equation S rows (\<lambda>_. 0) 1 ?g k" using False by (simp add: row_equation_def)
    from found [OF this] run show ?thesis by blast
  qed
qed

lemma expected_moves_solution:
  assumes S: "build_sector n = Inr S" and t: "tiltable n u"
  shows "\<exists>ts. expected_moves_to_absorption n b u = Inr ts \<and> length ts = sector_size S \<and>
    (\<forall>e. harmonic n b u (\<lambda>_. 0) 1 e \<longleftrightarrow> (\<forall>k < sector_size S. e (sector_states S ! k) = ts ! k))"
proof -
  obtain K where K: "build_kernel n b u = Inr K" using build_kernel_returns [OF t] by blast
  define rows where "rows = map (aggregated_row S K) [0..<sector_size S]"
  have "times_found S rows [] (replicate (sector_size S) None)" by (simp add: times_found_def)
  with solve_time_step [OF S K rows_def]
  have "\<exists>ts. rfold (solve_time S rows) (replicate (sector_size S) None) (v_ascending S) = Inr ts \<and>
      times_found S rows (v_ascending S) ts" by (rule rfold_invariant)
  then obtain ts where run: "rfold (solve_time S rows) (replicate (sector_size S) None) (v_ascending S) = Inr ts"
    and inv: "times_found S rows (v_ascending S) ts" by blast
  let ?ts = "map (\<lambda>t. case t of None \<Rightarrow> 0 | Some v \<Rightarrow> v) ts"
  have len: "length ts = sector_size S" using inv by (simp add: times_found_def)
  have "expected_moves_to_absorption n b u = Inr ?ts"
    using run by (simp add: expected_moves_to_absorption_def S aggregated_rows_eq [OF S] K rows_def [symmetric] primary_descent(3) [OF S])
  moreover have "harmonic n b u (\<lambda>_. 0) 1 e \<longleftrightarrow> (\<forall>k < sector_size S. e (sector_states S ! k) = known_value ts k)" for e
    using inv by (intro row_equation_harmonic [OF S K rows_def]) (simp add: times_found_def v_ascending_set)
  ultimately show ?thesis using len by (simp add: known_value_def)
qed

section \<open>Terminal statistics\<close>

text \<open>One of the four columns while the states \<open>ys\<close> are solved.\<close>

definition column_found :: "sector \<Rightarrow> nat fractions list \<Rightarrow> (nat \<Rightarrow> rat) \<Rightarrow> nat list \<Rightarrow> rat list \<Rightarrow> bool" where
  "column_found S rows bnd ys xs \<longleftrightarrow> length xs = sector_size S \<and>
     (\<forall>j \<in> set ys. row_equation S rows bnd 0 (\<lambda>t. xs ! t) j)"

lemma column_step:
  assumes inv: "column_found S rows bnd ys xs" and k: "k < sector_size S" "k \<notin> set ys"
    and closed: "\<And>j. j \<in> set ys \<Longrightarrow> fst ` set (rows ! j) \<subseteq> set ys"
    and here: "row_equation S rows bnd 0 (\<lambda>t. xs[k := v] ! t) k"
  shows "column_found S rows bnd (ys @ [k]) (xs[k := v])"
  unfolding column_found_def
proof (intro conjI ballI)
  show "length (xs[k := v]) = sector_size S" using inv by (simp add: column_found_def)
  fix j
  assume j: "j \<in> set (ys @ [k])"
  show "row_equation S rows bnd 0 (\<lambda>t. xs[k := v] ! t) j"
  proof (cases "j = k")
    case False
    with j have j': "j \<in> set ys" by simp
    with inv have "row_equation S rows bnd 0 (\<lambda>t. xs ! t) j" by (simp add: column_found_def)
    then show ?thesis by (rule row_equation_keep [OF _ False]) (use closed [OF j'] k in auto)
  qed (use here in simp)
qed

lemma column_value:
  assumes S: "build_sector n = Inr S" and K: "build_kernel n b u = Inr K" and k: "k < sector_size S"
    and row: "rows ! k = aggregated_row S K k" and inv: "column_found S rows bnd ys xs"
  shows "is_absorbing S k \<Longrightarrow> row_equation S rows bnd 0 (\<lambda>t. xs[k := bnd k] ! t) k"
    and "\<not> is_absorbing S k \<Longrightarrow> row_equation S rows bnd 0
      (\<lambda>t. xs[k := dict_mean (\<lambda>t. if t = k then 0 else xs ! t) (rows ! k) / (1 - dict_get (rows ! k) k)] ! t) k"
proof -
  have len: "k < length xs" using inv k by (simp add: column_found_def)
  show "row_equation S rows bnd 0 (\<lambda>t. xs[k := bnd k] ! t) k" if "is_absorbing S k"
    using that len by (simp add: row_equation_def)
  assume move: "\<not> is_absorbing S k"
  let ?d = "rows ! k"
  let ?v = "dict_mean (\<lambda>t. if t = k then 0 else xs ! t) ?d / (1 - dict_get ?d k)"
  let ?g = "\<lambda>t. xs[k := ?v] ! t"
  have less: "dict_get ?d k < 1" unfolding row by (rule stay_less_one [OF S K k move])
  have "dict_mean (\<lambda>t. if t = k then 0 else xs ! t) ?d = dict_mean (\<lambda>t. if t = k then 0 else ?g t) ?d"
    by (rule dict_mean_cong) auto
  moreover have "?g k = ?v" using len by simp
  ultimately have "?g k = 0 + dict_mean ?g ?d"
    using less aggregated_row_facts(2) [OF S K k] by (intro solved_value) (simp_all add: row)
  then show "row_equation S rows bnd 0 ?g k" using move by (simp add: row_equation_def)
qed

lemma gather_four_sum:
  "(\<And>t. t \<in> fst ` set d \<Longrightarrow> t \<noteq> k \<Longrightarrow> t \<in> solved T) \<Longrightarrow>
    rfold (gather_four T k) (a0, a1, a2, a3) d = Inr
      (a0 + dict_mean (\<lambda>t. if t = k then 0 else g_phi T ! t) d, a1 + dict_mean (\<lambda>t. if t = k then 0 else g_v T ! t) d,
       a2 + dict_mean (\<lambda>t. if t = k then 0 else h_phi T ! t) d, a3 + dict_mean (\<lambda>t. if t = k then 0 else h_v T ! t) d)"
proof (induction d arbitrary: a0 a1 a2 a3)
  case (Cons e d)
  obtain t p where e: "e = (t, p)" by (cases e)
  note IH = Cons.IH [OF Cons.prems]
  have "rfold (gather_four T k) (c0, c1, c2, c3) d = Inr
      (c0 + dict_mean (\<lambda>t. if t = k then 0 else g_phi T ! t) d, c1 + dict_mean (\<lambda>t. if t = k then 0 else g_v T ! t) d,
       c2 + dict_mean (\<lambda>t. if t = k then 0 else h_phi T ! t) d, c3 + dict_mean (\<lambda>t. if t = k then 0 else h_v T ! t) d)" for c0 c1 c2 c3
    by (rule IH) auto
  moreover have "gather_four T k (a0, a1, a2, a3) (t, p) = Inr (if t = k then (a0, a1, a2, a3)
      else (a0 + p * g_phi T ! t, a1 + p * g_v T ! t, a2 + p * h_phi T ! t, a3 + p * h_v T ! t))"
    using Cons.prems [of t, unfolded e] by (cases "t = k") (simp_all add: gather_four_def)
  ultimately show ?case by (simp add: e dict_mean_def algebra_simps)
qed (simp add: dict_mean_def)

definition terminals_found :: "sector \<Rightarrow> nat set \<Rightarrow> nat set \<Rightarrow> nat fractions list \<Rightarrow> nat list \<Rightarrow> terminal_tables \<Rightarrow> bool" where
  "terminals_found S phi_min v_min rows ys T \<longleftrightarrow> solved T = set ys \<and>
     (\<forall>j \<in> set ys. fst ` set (rows ! j) \<subseteq> set ys) \<and>
     column_found S rows (\<lambda>k. of_bool (k \<in> phi_min)) ys (g_phi T) \<and>
     column_found S rows (\<lambda>k. of_bool (k \<in> v_min)) ys (g_v T) \<and>
     column_found S rows (\<lambda>k. of_int (phi_values S ! k)) ys (h_phi T) \<and>
     column_found S rows (\<lambda>k. of_int (v_values S ! k)) ys (h_v T)"

lemma solve_terminal_step:
  assumes S: "build_sector n = Inr S" and K: "build_kernel n b u = Inr K"
    and rows: "rows = map (aggregated_row S K) [0..<sector_size S]"
    and split: "v_ascending S = ys @ k # zs" and inv: "terminals_found S A B rows ys T"
  shows "\<exists>T'. solve_terminal S A B rows T k = Inr T' \<and> terminals_found S A B rows (ys @ [k]) T'"
proof -
  note k = row_targets_before [OF S K split]
  have row: "rows ! k = aggregated_row S K k" using k(1) by (simp add: rows)
  have closed: "fst ` set (rows ! j) \<subseteq> set ys" if "j \<in> set ys" for j using inv that by (simp add: terminals_found_def)
  have closed': "\<forall>j \<in> set (ys @ [k]). fst ` set (rows ! j) \<subseteq> set (ys @ [k])"
    using closed k(3) row by auto
  have s: "solved T = set ys" using inv by (simp add: terminals_found_def)
  have cols: "column_found S rows (\<lambda>k. of_bool (k \<in> A)) ys (g_phi T)" "column_found S rows (\<lambda>k. of_bool (k \<in> B)) ys (g_v T)"
     "column_found S rows (\<lambda>k. of_int (phi_values S ! k)) ys (h_phi T)"
     "column_found S rows (\<lambda>k. of_int (v_values S ! k)) ys (h_v T)"
    using inv by (simp_all add: terminals_found_def)
  show ?thesis
  proof (cases "is_absorbing S k")
    case True
    have step: "column_found S rows bnd (ys @ [k]) (xs[k := bnd k])" if "column_found S rows bnd ys xs" for bnd xs
      by (rule column_step [OF that k(1,2) closed column_value(1) [OF S K k(1) row that True]])
    show ?thesis using True closed' s step [OF cols(1)] step [OF cols(2)] step [OF cols(3)] step [OF cols(4)]
      by (simp add: solve_terminal_def put_four_def terminals_found_def)
  next
    case False
    have less: "dict_get (rows ! k) k < 1" unfolding row by (rule stay_less_one [OF S K k(1) False])
    have run: "rfold (gather_four T k) (0, 0, 0, 0) (rows ! k) = Inr
      (0 + dict_mean (\<lambda>t. if t = k then 0 else g_phi T ! t) (rows ! k), 0 + dict_mean (\<lambda>t. if t = k then 0 else g_v T ! t) (rows ! k),
       0 + dict_mean (\<lambda>t. if t = k then 0 else h_phi T ! t) (rows ! k), 0 + dict_mean (\<lambda>t. if t = k then 0 else h_v T ! t) (rows ! k))"
      by (rule gather_four_sum) (use k(3) s row in auto)
    have step: "column_found S rows bnd (ys @ [k])
        (xs[k := dict_mean (\<lambda>t. if t = k then 0 else xs ! t) (rows ! k) / (1 - dict_get (rows ! k) k)])"
      if "column_found S rows bnd ys xs" for bnd xs
      by (rule column_step [OF that k(1,2) closed column_value(2) [OF S K k(1) row that False]])
    show ?thesis using False closed' s step [OF cols(1)] step [OF cols(2)] step [OF cols(3)] step [OF cols(4)] less
      by (simp add: solve_terminal_def run frac_div_def put_four_def terminals_found_def Let_def)
  qed
qed

lemma terminal_solution:
  assumes S: "build_sector n = Inr S" and t: "tiltable n u"
  obtains T where "terminal_functionals n b u = Inr T"
    and "length (g_phi T) = sector_size S" "length (g_v T) = sector_size S" "length (h_phi T) = sector_size S"
      "length (h_v T) = sector_size S"
    and "\<And>e. harmonic n b u (\<lambda>x. of_bool (\<forall>y. in_sector n y \<longrightarrow> state_value SECONDARY_POTENTIAL x \<le> state_value SECONDARY_POTENTIAL y)) 0 e \<longleftrightarrow>
      (\<forall>k < sector_size S. e (sector_states S ! k) = g_phi T ! k)"
    and "\<And>e. harmonic n b u (\<lambda>x. of_bool (\<forall>y. in_sector n y \<longrightarrow> squared_norm x \<le> squared_norm y)) 0 e \<longleftrightarrow>
      (\<forall>k < sector_size S. e (sector_states S ! k) = g_v T ! k)"
    and "\<And>e. harmonic n b u (\<lambda>x. of_int (seam_phi x)) 0 e \<longleftrightarrow> (\<forall>k < sector_size S. e (sector_states S ! k) = h_phi T ! k)"
    and "\<And>e. harmonic n b u (\<lambda>x. of_int (squared_norm x)) 0 e \<longleftrightarrow> (\<forall>k < sector_size S. e (sector_states S ! k) = h_v T ! k)"
proof -
  obtain K where K: "build_kernel n b u = Inr K" using build_kernel_returns [OF t] by blast
  define rows where "rows = map (aggregated_row S K) [0..<sector_size S]"
  obtain A where A: "minimal_indices S SECONDARY_POTENTIAL = Inr A" "\<And>k. k \<in> set A \<longleftrightarrow> k < sector_size S \<and>
      (\<forall>y. in_sector n y \<longrightarrow> state_value SECONDARY_POTENTIAL (sector_states S ! k) \<le> state_value SECONDARY_POTENTIAL y)"
    using minimal_indices_value [OF S] by metis
  obtain B where B: "minimal_indices S PRIMARY_POTENTIAL = Inr B" "\<And>k. k \<in> set B \<longleftrightarrow> k < sector_size S \<and>
      (\<forall>y. in_sector n y \<longrightarrow> squared_norm (sector_states S ! k) \<le> squared_norm y)"
    using minimal_indices_iff [OF S] by metis
  let ?z = "replicate (sector_size S) (0 :: rat)"
  let ?T = "\<lparr>g_phi = ?z, g_v = ?z, h_phi = ?z, h_v = ?z, solved = {}\<rparr>"
  have "terminals_found S (set A) (set B) rows [] ?T" by (simp add: terminals_found_def column_found_def)
  with solve_terminal_step [OF S K rows_def]
  have "\<exists>T. rfold (solve_terminal S (set A) (set B) rows) ?T (v_ascending S) = Inr T \<and>
      terminals_found S (set A) (set B) rows (v_ascending S) T" by (rule rfold_invariant)
  then obtain T where run: "rfold (solve_terminal S (set A) (set B) rows) ?T (v_ascending S) = Inr T"
    and inv: "terminals_found S (set A) (set B) rows (v_ascending S) T" by blast
  have ret: "terminal_functionals n b u = Inr T"
    using run by (simp add: terminal_functionals_def S aggregated_rows_eq [OF S] K rows_def [symmetric] A(1) B(1) Let_def)
  have col: "harmonic n b u boundary 0 e \<longleftrightarrow> (\<forall>k < sector_size S. e (sector_states S ! k) = xs ! k)"
    if "column_found S rows bnd (v_ascending S) xs" "\<And>k. k < sector_size S \<Longrightarrow> bnd k = boundary (sector_states S ! k)"
    for e xs bnd boundary
    using that by (intro row_equation_harmonic [OF S K rows_def])
      (auto simp: column_found_def v_ascending_set row_equation_def)
  have cols: "column_found S rows (\<lambda>k. of_bool (k \<in> set A)) (v_ascending S) (g_phi T)"
    "column_found S rows (\<lambda>k. of_bool (k \<in> set B)) (v_ascending S) (g_v T)"
    "column_found S rows (\<lambda>k. of_int (phi_values S ! k)) (v_ascending S) (h_phi T)"
    "column_found S rows (\<lambda>k. of_int (v_values S ! k)) (v_ascending S) (h_v T)"
    using inv by (simp_all add: terminals_found_def)
  have lens: "length (g_phi T) = sector_size S" "length (g_v T) = sector_size S" "length (h_phi T) = sector_size S"
      "length (h_v T) = sector_size S"
    using cols by (simp_all add: column_found_def)
  show thesis
    by (rule that [OF ret lens]; (rule col [OF cols(1)] | rule col [OF cols(2)] | rule col [OF cols(3)] | rule col [OF cols(4)]);
      simp add: A(2) B(2) value_nth [OF S])
qed

end
