(* ===== verification/Tilted_Paths.thy ===== *)
theory Tilted_Paths
  imports Tilted_Kernel
begin

text \<open>
  Label paths of the tilted kernel (\<open>oph_exact/phi_kernel.py\<close>): the enumeration of all label paths with
  an explicit stack, the path mass grouped by end state, the derived action, the gauge candidates and the
  non-identifiability family.  The lemmas read the stack as the list of all label words, so that every
  check is a statement about words.
\<close>

section \<open>Start states\<close>

text \<open>The last check of the source is that port one is a neighbour of port zero.\<close>

definition chosen_initial_states :: "nat \<Rightarrow> loads list res" where
  "chosen_initial_states load = (if load \<noteq> 3 then Inl ValueError
     else rbind antipode (\<lambda>anti. let zeros = replicate port_count 0;
       a = zeros[0 := 3]; b = zeros[0 := 2, 1 := 1]; c = zeros[0 := 2, anti ! 0 := 1]
     in if (0, 1) \<notin> set port_seams then Inl AssertionError else Inr [a, b, c]))"

text \<open>\<open>sector.index[state]\<close>.\<close>

definition state_index :: "sector \<Rightarrow> loads \<Rightarrow> nat res" where
  "state_index S x = (case sector_index S x of None \<Rightarrow> Inl KeyError | Some k \<Rightarrow> Inr k)"

section \<open>Enumeration with a stack\<close>

lemma stack_measure: "sum_list (map (\<lambda>m. 61 ^ r) [0..<label_count]) < (61 :: nat) ^ Suc r"
  by (simp add: label_count_def map_replicate_const sum_list_replicate)

text \<open>
  An item carries the number of labels still to draw; the top of the stack is the head of the list, so
  pushing the labels in ascending order leaves the last label on top.
\<close>

function label_dfs :: "(nat \<Rightarrow> 'a \<Rightarrow> 'a) \<Rightarrow> ('a \<times> nat) list \<Rightarrow> 'a list" where
  "label_dfs step [] = []"
| "label_dfs step ((x, 0) # stack) = x # label_dfs step stack"
| "label_dfs step ((x, Suc r) # stack) =
     label_dfs step (rev (map (\<lambda>m. (step m x, r)) [0..<label_count]) @ stack)"
  by pat_completeness auto

termination
proof (relation "measure (\<lambda>(step, stack). sum_list (map (\<lambda>(x, r). 61 ^ r) stack))", goal_cases)
  case (3 step x r stack)
  then show ?case using stack_measure [of r] by (simp add: comp_def rev_map [symmetric] sum_list_rev)
qed simp_all

type_synonym path_leaf = "int \<times> int \<times> int \<times> nat"

definition leaf_step :: "sector \<Rightarrow> tilted_kernel \<Rightarrow> nat \<Rightarrow> path_leaf \<Rightarrow> path_leaf" where
  "leaf_step S K m = (\<lambda>(num, den, change, k). (num * weights K ! k ! m, den * partition_sums K ! k,
     change + decrement S (kernel_potential K) ! k ! m, next_state S ! k ! m))"

definition leaf_paths :: "sector \<Rightarrow> tilted_kernel \<Rightarrow> nat \<Rightarrow> nat \<Rightarrow> path_leaf list" where
  "leaf_paths S K start n = label_dfs (leaf_step S K) [((1, 1, 0, start), n)]"

definition mass_step :: "sector \<Rightarrow> tilted_kernel \<Rightarrow> nat fractions \<Rightarrow> nat fractions" where
  "mass_step S K mass = fold (\<lambda>(k, p) d. fold (\<lambda>m. dict_add (next_state S ! k ! m) (p * label_probability K k m))
     [0..<label_count] d) mass []"

definition path_mass_by_state :: "sector \<Rightarrow> tilted_kernel \<Rightarrow> nat \<Rightarrow> nat \<Rightarrow> nat fractions" where
  "path_mass_by_state S K start n = (mass_step S K ^^ n) [(start, 1)]"

section \<open>The derived action\<close>

record start_report =
  label_path_count :: nat
  weight_product_ok :: bool
  path_law_sum :: rat
  end_state_count :: nat

record action_report =
  start_reports :: "start_report list"
  tilt_constant :: rat
  lean_constant :: rat
  constants_agree :: bool
  action_verified :: bool

definition check_start :: "sector \<Rightarrow> tilted_kernel \<Rightarrow> nat \<Rightarrow> nat \<Rightarrow> start_report" where
  "check_start S K n start = (let leaves = leaf_paths S K start n; mass = path_mass_by_state S K start n in
     \<lparr>label_path_count = length leaves,
      weight_product_ok = list_all (\<lambda>(num, den, change, k). num = 2 ^ nat (- int (kernel_beta K) * change)) leaves,
      path_law_sum = dict_total mass, end_state_count = length mass\<rparr>)"

definition derived_action_check :: "nat \<Rightarrow> nat \<Rightarrow> string \<Rightarrow> nat \<Rightarrow> action_report res" where
  "derived_action_check load beta potential n = rbind (build_sector load) (\<lambda>S.
     rbind (build_kernel load beta potential) (\<lambda>K. rbind (chosen_initial_states load) (\<lambda>states.
     rbind (rmap (state_index S) states) (\<lambda>starts.
       let reports = map (check_start S K n) starts;
         all_ok = list_all (\<lambda>r. weight_product_ok r \<and> path_law_sum r = 1 \<and> label_path_count r = label_count ^ n) reports;
         lean = 1 / of_nat (label_count ^ n);
         tilt = sum_list (map (\<lambda>s. 1 / 3 * lean * dict_total (path_mass_by_state S K s n)) starts)
       in Inr \<lparr>start_reports = reports, tilt_constant = tilt, lean_constant = lean, constants_agree = (tilt = lean),
         action_verified = (all_ok \<and> tilt = lean)\<rparr>))))"

section \<open>Gauge candidates\<close>

record path_record =
  record_start :: nat
  record_labels :: "nat list"
  record_prob :: rat
  record_dsum :: int
  record_partitions :: "int list"
  record_end :: nat

definition record_step :: "sector \<Rightarrow> tilted_kernel \<Rightarrow> nat \<Rightarrow> path_record \<Rightarrow> path_record" where
  "record_step S K m r = (let k = record_end r in
     r\<lparr>record_end := next_state S ! k ! m, record_prob := record_prob r * label_probability K k m,
       record_dsum := record_dsum r + decrement S (kernel_potential K) ! k ! m, record_labels := record_labels r @ [m],
       record_partitions := record_partitions r @ [partition_sums K ! k]\<rparr>)"

definition path_records :: "nat \<Rightarrow> nat \<Rightarrow> string \<Rightarrow> nat \<Rightarrow> path_record list res" where
  "path_records load beta potential n = rbind (build_sector load) (\<lambda>S.
     rbind (build_kernel load beta potential) (\<lambda>K. rbind (chosen_initial_states load) (\<lambda>states.
     rbind (rmap (state_index S) states) (\<lambda>starts.
       Inr (concat (map (\<lambda>start. label_dfs (record_step S K)
         [(\<lparr>record_start = start, record_labels = [], record_prob = 1, record_dsum = 0, record_partitions = [],
            record_end = start\<rparr>, n)]) starts))))))"

text \<open>\<open>_tilt\<close>: a comprehension divides each product by the normalizer.\<close>

definition tilt :: "rat list \<Rightarrow> rat list \<Rightarrow> rat list res" where
  "tilt reference factors = (let z = sum_list (map2 (*) reference factors)
     in rmap (\<lambda>(r, f). frac_div (r * f) z) (zip reference factors))"

record gauge_candidate =
  tilt_equals_law :: bool
  difference_constant :: bool
  characterization_holds :: bool

definition add_candidate :: "rat list \<Rightarrow> rat list \<Rightarrow> rat list \<Rightarrow> rat list \<Rightarrow> gauge_candidate res" where
  "add_candidate reference law factors difference_factors = rbind (tilt reference factors) (\<lambda>t.
     let equal = (t = law); constant = (length (remdups difference_factors) = 1)
     in Inr \<lparr>tilt_equals_law = equal, difference_constant = constant, characterization_holds = (equal = constant)\<rparr>)"

record gauge_check_report =
  decomposition_ok :: bool
  base_tilt_ok :: bool
  fit_constant :: bool
  candidates :: "gauge_candidate list"
  gauge_verified :: bool

text \<open>\<open>r["labels"][0]\<close> of an empty path raises \<open>IndexError\<close>.\<close>

definition first_label_zero :: "path_record \<Rightarrow> bool res" where
  "first_label_zero r = (case record_labels r of [] \<Rightarrow> Inl IndexError | m # ms \<Rightarrow> Inr (m = 0))"

definition gauge_check :: "nat \<Rightarrow> nat \<Rightarrow> string \<Rightarrow> nat \<Rightarrow> gauge_check_report res" where
  "gauge_check load beta potential n = rbind (path_records load beta potential n) (\<lambda>records.
     let reference = map (\<lambda>r. 1 / 3 * (1 / of_nat (label_count ^ n))) records;
       law = map (\<lambda>r. 1 / 3 * record_prob r) records; exp_neg_s = map record_prob records
     in rbind (rmap (\<lambda>r. frac_div (2 ^ nat (- int beta * record_dsum r)) (of_int (prod_list (record_partitions r)))) records) (\<lambda>quotients.
        rbind (rmap (\<lambda>(l, e). frac_div l e) (zip law exp_neg_s)) (\<lambda>ratios.
        rbind (tilt reference exp_neg_s) (\<lambda>base.
        rbind (rmap first_label_zero records) (\<lambda>flags.
        rbind (add_candidate reference law (map (\<lambda>v. 3 * v) exp_neg_s) (map (\<lambda>r. 3) records)) (\<lambda>c1.
        rbind (add_candidate reference law exp_neg_s (map (\<lambda>r. 1) records)) (\<lambda>c2.
        rbind (add_candidate reference law (map (\<lambda>(v, flag). v * (if flag then 2 else 1)) (zip exp_neg_s flags))
          (map (\<lambda>flag. if flag then 2 else 1) flags)) (\<lambda>c3.
        rbind (add_candidate reference law (map (\<lambda>v. v * v) exp_neg_s) exp_neg_s) (\<lambda>c4.
          let decomposition = (map record_prob records = quotients); base_ok = (base = law);
            fit = (length (remdups ratios) = 1); cs = [c1, c2, c3, c4]
          in Inr \<lparr>decomposition_ok = decomposition, base_tilt_ok = base_ok, fit_constant = fit, candidates = cs,
            gauge_verified = (decomposition \<and> base_ok \<and> fit \<and> list_all characterization_holds cs)\<rparr>)))))))))"

section \<open>The non-identifiability family\<close>

definition enrichment_correction :: "rat \<Rightarrow> rat list \<Rightarrow> rat" where
  "enrichment_correction a record = a / 2 * sum_list (map (\<lambda>y. y * (y - 1)) record)"

definition realized_record :: "nat \<Rightarrow> rat list" where
  "realized_record label_index = map (\<lambda>m. of_bool (m = label_index)) [0..<label_count]"

section \<open>Label words\<close>

fun label_words :: "nat \<Rightarrow> nat list list" where
  "label_words 0 = [[]]"
| "label_words (Suc r) = concat (map (\<lambda>m. map ((#) m) (label_words r)) (rev [0..<label_count]))"

lemma label_words_set: "set (label_words r) = {w. length w = r \<and> set w \<subseteq> {..<label_count}}"
proof (induction r)
  case (Suc r)
  show ?case
  proof (intro set_eqI iffI)
    fix w
    assume "w \<in> {w. length w = Suc r \<and> set w \<subseteq> {..<label_count}}"
    then show "w \<in> set (label_words (Suc r))" using Suc by (cases w) auto
  qed (use Suc in auto)
qed auto

lemma sum_list_concat: "sum_list (concat xss) = sum_list (map sum_list xss)"
  by (induction xss) simp_all

lemma sum_label_words:
  "sum_list (map f (label_words (Suc r))) =
     (sum_list (map (\<lambda>m. sum_list (map (\<lambda>w. f (m # w)) (label_words r))) [0..<label_count]) :: rat)"
  by (simp add: map_concat sum_list_concat comp_def rev_map [symmetric] del: upt_Suc)

lemma label_words_length: "length (label_words r) = label_count ^ r"
  by (induction r) (simp_all add: length_concat comp_def map_replicate_const sum_list_replicate)

lemma label_dfs_run: "label_dfs step ((x, r) # stack) = map (\<lambda>w. fold step w x) (label_words r) @ label_dfs step stack"
proof (induction r arbitrary: x stack)
  case (Suc r)
  have "label_dfs step (map (\<lambda>m. (step m x, r)) ms @ stack) =
      concat (map (\<lambda>m. map (\<lambda>w. fold step w (step m x)) (label_words r)) ms) @ label_dfs step stack" for ms
    by (induction ms) (simp_all add: Suc.IH)
  from this [of "rev [0..<label_count]"] show ?case
    by (simp add: rev_map map_concat comp_def del: upt_Suc)
qed simp

section \<open>Path probabilities\<close>

fun path_probability :: "sector \<Rightarrow> tilted_kernel \<Rightarrow> nat \<Rightarrow> nat list \<Rightarrow> rat" where
  "path_probability S K k [] = 1"
| "path_probability S K k (m # w) = label_probability K k m * path_probability S K (next_state S ! k ! m) w"

fun path_end :: "sector \<Rightarrow> nat \<Rightarrow> nat list \<Rightarrow> nat" where
  "path_end S k [] = k"
| "path_end S k (m # w) = path_end S (next_state S ! k ! m) w"

lemma path_probability_append:
  "path_probability S K k (w @ [m]) = path_probability S K k w * label_probability K (path_end S k w) m"
  "path_end S k (w @ [m]) = next_state S ! (path_end S k w) ! m"
  by (induction w arbitrary: k) simp_all

lemma path_end_range:
  assumes S: "build_sector n = Inr S"
  shows "k < sector_size S \<Longrightarrow> set w \<subseteq> {..<label_count} \<Longrightarrow> path_end S k w < sector_size S"
  by (induction w arbitrary: k) (simp_all add: next_state_nth(1) [OF S])

text \<open>The path mass is the sum of the path probabilities over the words, grouped by end state.\<close>

lemma mass_step_mean:
  "dict_mean f (mass_step S K mass) =
     dict_mean (\<lambda>k. sum_list (map (\<lambda>m. label_probability K k m * f (next_state S ! k ! m)) [0..<label_count])) mass"
proof -
  have step: "mass_step S K mass = fold (\<lambda>(k, p). dict_collect (\<lambda>m. next_state S ! k ! m)
      (\<lambda>m. p * label_probability K k m) [0..<label_count]) mass []"
    by (simp add: mass_step_def dict_collect_def [abs_def])
  have "dict_mean f (fold (\<lambda>(k, p). dict_collect (\<lambda>m. next_state S ! k ! m)
      (\<lambda>m. p * label_probability K k m) [0..<label_count]) mass d) = dict_mean f d +
      dict_mean (\<lambda>k. sum_list (map (\<lambda>m. label_probability K k m * f (next_state S ! k ! m)) [0..<label_count])) mass" for d
  proof (induction mass arbitrary: d)
    case (Cons e mass)
    obtain k p where e: "e = (k, p)" by (cases e)
    have "sum_list (map (\<lambda>m. f (next_state S ! k ! m) * (p * label_probability K k m)) ms) =
        sum_list (map (\<lambda>m. label_probability K k m * f (next_state S ! k ! m)) ms) * p" for ms
      by (induction ms) (simp_all add: algebra_simps)
    then show ?case by (simp add: e Cons.IH dict_collect_mean) (simp add: dict_mean_def)
  qed (simp add: dict_mean_def)
  then show ?thesis by (simp add: step) (simp add: dict_mean_def)
qed

lemma mass_words:
  "dict_mean f ((mass_step S K ^^ r) mass) =
     dict_mean (\<lambda>k. sum_list (map (\<lambda>w. path_probability S K k w * f (path_end S k w)) (label_words r))) mass"
proof (induction r arbitrary: mass)
  case (Suc r)
  have scale: "sum_list (map (\<lambda>w. c * g w) ws) = c * sum_list (map g ws)" for c and g :: "nat list \<Rightarrow> rat" and ws
    by (simp add: sum_list_const_mult)
  show ?case
    unfolding funpow_Suc_right comp_apply Suc.IH mass_step_mean sum_label_words
    by (simp add: mult.assoc scale)
qed (simp add: dict_mean_def)

lemma path_mass_mean:
  "dict_mean f (path_mass_by_state S K start r) =
     sum_list (map (\<lambda>w. path_probability S K start w * f (path_end S start w)) (label_words r))"
  by (simp add: path_mass_by_state_def mass_words) (simp add: dict_mean_def)

lemma path_mass_distinct: "distinct (map fst (path_mass_by_state S K start r))"
proof (cases r)
  case (Suc i)
  have "distinct (map fst d) \<Longrightarrow> distinct (map fst (fold (\<lambda>(k, p) d. fold (\<lambda>m. dict_add (next_state S ! k ! m)
      (p * label_probability K k m)) [0..<label_count] d) mass d))" for mass d
  proof (induction mass arbitrary: d)
    case (Cons e mass)
    obtain k p where e: "e = (k, p)" by (cases e)
    have "distinct (map fst (fold (\<lambda>m. dict_add (next_state S ! k ! m) (p * label_probability K k m)) ms d))" for ms
      using dict_collect_distinct [OF Cons.prems] by (simp add: dict_collect_def)
    then show ?case by (simp add: e Cons.IH)
  qed simp
  then show ?thesis by (simp add: path_mass_by_state_def Suc mass_step_def)
qed (simp add: path_mass_by_state_def)

lemma dict_get_mean: "distinct (map fst d) \<Longrightarrow> dict_get d t = dict_mean (\<lambda>k. of_bool (k = t)) d"
proof -
  assume d: "distinct (map fst d)"
  have "dict_mean (\<lambda>k. if k = t then 0 else of_bool (k = t)) d = 0"
    unfolding dict_mean_def by (induction d) auto
  with dict_mean_but [OF d, of "\<lambda>k. of_bool (k = t)" t] show ?thesis by simp
qed

lemma path_probability_sum:
  assumes S: "build_sector n = Inr S" and K: "build_kernel n b u = Inr K"
  shows "k < sector_size S \<Longrightarrow> sum_list (map (path_probability S K k) (label_words r)) = 1"
proof (induction r arbitrary: k)
  case (Suc r)
  have "sum_list (map (path_probability S K k) (label_words (Suc r))) =
      sum_list (map (\<lambda>m. label_probability K k m * sum_list (map (path_probability S K (next_state S ! k ! m)) (label_words r))) [0..<label_count])"
    by (simp only: sum_label_words path_probability.simps sum_list_const_mult)
  also have "\<dots> = sum_list (map (\<lambda>m. label_law b u (sector_states S ! k) (directed_labels ! m)) [0..<label_count])"
    by (rule arg_cong [where f = sum_list], rule map_cong)
      (use Suc next_state_nth(1) [OF S Suc.prems] in \<open>simp_all add: label_probability_eq [OF S K]\<close>)
  also have "\<dots> = 1" by (simp only: sum_labels label_law_sum)
  finally show ?case .
qed simp

lemma label_probability_pos:
  assumes "build_sector n = Inr S" "build_kernel n b u = Inr K" "k < sector_size S" "m < label_count"
  shows "0 < label_probability K k m"
  using label_law_pos by (simp add: label_probability_eq [OF assms])

lemma path_probability_pos:
  assumes S: "build_sector n = Inr S" and K: "build_kernel n b u = Inr K"
  shows "k < sector_size S \<Longrightarrow> set w \<subseteq> {..<label_count} \<Longrightarrow> 0 < path_probability S K k w"
  by (induction w arbitrary: k) (simp_all add: label_probability_pos [OF S K] next_state_nth(1) [OF S])

section \<open>The derived action holds\<close>

lemma change_nonpos: "tiltable n u \<Longrightarrow> in_sector n x \<Longrightarrow> l \<in> set directed_labels \<Longrightarrow> move_change u x l \<le> 0"
proof -
  assume t: "tiltable n u" "in_sector n x" "l \<in> set directed_labels"
  obtain S where S: "build_sector n = Inr S" by (rule build_sector_returns)
  show ?thesis using t tiltable_iff [OF S, of u] descent_summary_states(1) [OF S, of u] by blast
qed

lemma leaf_run:
  assumes S: "build_sector n = Inr S" and K: "build_kernel n b u = Inr K"
  shows "k < sector_size S \<Longrightarrow> set w \<subseteq> {..<label_count} \<Longrightarrow> 0 < den \<Longrightarrow> d \<le> 0 \<Longrightarrow> num = 2 ^ nat (- int b * d) \<Longrightarrow>
    \<exists>num' den' d'. fold (leaf_step S K) w (num, den, d, k) = (num', den', d', path_end S k w) \<and> d' \<le> 0 \<and> 0 < den' \<and>
      num' = 2 ^ nat (- int b * d') \<and> of_int num' / of_int den' = of_int num / of_int den * path_probability S K k w"
proof (induction w arbitrary: num den d k)
  case (Cons m w)
  let ?c = "decrement S u ! k ! m"
  have m: "m < label_count" and w: "set w \<subseteq> {..<label_count}" using Cons.prems(2) by auto
  have t: "tiltable n u" by (rule kernel_tiltable [OF K])
  note kp = kernel_parts [OF S K Cons.prems(1)]
  have c: "?c \<le> 0" using change_nonpos [OF t sector_nth [OF S Cons.prems(1)] label_nth [OF m]]
    by (simp add: decrement_move [OF S Cons.prems(1) m])
  have weight: "weights K ! k ! m = 2 ^ nat (- int b * ?c)"
    using m by (simp add: kp(1) decrement_move [OF S Cons.prems(1) m] tilt_weight_def directed_labels_length label_count_def)
  have z: "0 < partition_sums K ! k"
    using label_norm_pos [of b u "sector_states S ! k"] unfolding kp(2) [symmetric] by simp
  have "0 \<le> - int b * d" "0 \<le> - int b * ?c" using Cons.prems(4) c by (simp_all add: mult_nonpos_nonpos mult_nonneg_nonpos)
  then have pow: "num * weights K ! k ! m = 2 ^ nat (- int b * (d + ?c))"
    unfolding weight Cons.prems(5) power_add [symmetric] by (simp add: nat_add_distrib [symmetric] algebra_simps)
  have "fold (leaf_step S K) (m # w) (num, den, d, k) =
      fold (leaf_step S K) w (num * weights K ! k ! m, den * partition_sums K ! k, d + ?c, next_state S ! k ! m)"
    by (simp add: leaf_step_def kp(6))
  moreover have "of_int (num * weights K ! k ! m) / of_int (den * partition_sums K ! k) =
      (of_int num / of_int den * label_probability K k m :: rat)"
    by (simp add: label_probability_def)
  ultimately show ?case
    using Cons.IH [OF next_state_nth(1) [OF S Cons.prems(1) m] w, of "den * partition_sums K ! k" "d + ?c", OF _ _ pow]
      Cons.prems(3,4) c z by (simp add: mult.assoc)
qed simp

lemma leaf_paths_words: "leaf_paths S K start r = map (\<lambda>w. fold (leaf_step S K) w (1, 1, 0, start)) (label_words r)"
  by (simp add: leaf_paths_def label_dfs_run)

lemma path_mass_total:
  assumes S: "build_sector n = Inr S" and K: "build_kernel n b u = Inr K" and k: "k < sector_size S"
  shows "dict_total (path_mass_by_state S K k r) = 1"
  by (simp add: dict_total_mean path_mass_mean path_probability_sum [OF S K k])

lemma check_start_holds:
  assumes S: "build_sector n = Inr S" and K: "build_kernel n b u = Inr K" and k: "k < sector_size S"
  shows "label_path_count (check_start S K r k) = label_count ^ r" "weight_product_ok (check_start S K r k)"
    "path_law_sum (check_start S K r k) = 1"
proof -
  show "label_path_count (check_start S K r k) = label_count ^ r"
    by (simp add: check_start_def leaf_paths_words label_words_length Let_def)
  show "path_law_sum (check_start S K r k) = 1"
    by (simp add: check_start_def path_mass_total [OF S K k] Let_def)
  have "case fold (leaf_step S K) w (1, 1, 0, k) of (num, den, change, j) \<Rightarrow> num = 2 ^ nat (- int b * change)"
    if "w \<in> set (label_words r)" for w
    using leaf_run [OF S K k, of w 1 0 1] that unfolding label_words_set by auto
  then show "weight_product_ok (check_start S K r k)"
    using kernel_parts(5) [OF S K k] by (auto simp: check_start_def leaf_paths_words list_all_iff Let_def)
qed

lemma chosen_states:
  "chosen_initial_states n = (if n = 3 then Inr [[3, 0, 0, 0, 0, 0, 0, 0, 0, 0, 0, 0],
     [2, 1, 0, 0, 0, 0, 0, 0, 0, 0, 0, 0], [2, 0, 0, 1, 0, 0, 0, 0, 0, 0, 0, 0]] else Inl ValueError)"
  by (simp add: chosen_initial_states_def antipode_eq port_seams_eq Let_def numeral_eq_Suc port_count_def)

lemma state_index_find:
  assumes S: "build_sector n = Inr S" and x: "in_sector n x"
  obtains k where "state_index S x = Inr k" "k < sector_size S" "sector_states S ! k = x"
proof -
  have "x \<in> set (sector_states S)" using x by (simp add: sector_states_iff [OF S])
  from index_of_states_nth [OF sector_states_distinct [OF S] this] obtain k where
    "index_of_states (sector_states S) x = Some k" "k < length (sector_states S)" "sector_states S ! k = x" .
  then show thesis using that by (simp add: state_index_def sector_parts(5) [OF S] sector_size_def)
qed

lemma chosen_indices:
  assumes S: "build_sector 3 = Inr S"
  obtains states starts where "chosen_initial_states 3 = Inr states" "rmap (state_index S) states = Inr starts" "length starts = 3"
    "\<And>k. k \<in> set starts \<Longrightarrow> k < sector_size S" "map (\<lambda>k. sector_states S ! k) starts = states"
proof -
  let ?a = "[3, 0, 0, 0, 0, 0, 0, 0, 0, 0, 0, 0] :: loads"
  let ?b = "[2, 1, 0, 0, 0, 0, 0, 0, 0, 0, 0, 0] :: loads"
  let ?c = "[2, 0, 0, 1, 0, 0, 0, 0, 0, 0, 0, 0] :: loads"
  obtain i where i: "state_index S ?a = Inr i" "i < sector_size S" "sector_states S ! i = ?a"
    by (rule state_index_find [OF S, of ?a]) (simp add: in_sector_def)
  obtain j where j: "state_index S ?b = Inr j" "j < sector_size S" "sector_states S ! j = ?b"
    by (rule state_index_find [OF S, of ?b]) (simp add: in_sector_def)
  obtain k where k: "state_index S ?c = Inr k" "k < sector_size S" "sector_states S ! k = ?c"
    by (rule state_index_find [OF S, of ?c]) (simp add: in_sector_def)
  show thesis
    by (rule that [of "[?a, ?b, ?c]" "[i, j, k]"]) (use i j k in \<open>auto simp: chosen_states\<close>)
qed

lemma derived_action_holds:
  assumes t: "tiltable 3 u"
  shows "\<exists>r. derived_action_check 3 b u n = Inr r \<and> action_verified r"
proof -
  obtain S where S: "build_sector 3 = Inr S" by (rule build_sector_returns)
  obtain K where K: "build_kernel 3 b u = Inr K" using build_kernel_returns [OF t] by blast
  obtain states starts where st: "chosen_initial_states 3 = Inr states" "rmap (state_index S) states = Inr starts"
    "length starts = 3" and range: "\<And>k. k \<in> set starts \<Longrightarrow> k < sector_size S"
    using chosen_indices [OF S] by metis
  have "sum_list (map (\<lambda>s. 1 / 3 * q * dict_total (path_mass_by_state S K s n)) starts) = (q :: rat)" for q
  proof -
    have "map (\<lambda>s. 1 / 3 * q * dict_total (path_mass_by_state S K s n)) starts = replicate 3 (1 / 3 * q)"
      using st(3) range path_mass_total [OF S K] by (intro nth_equalityI) (auto simp: in_set_conv_nth)
    then show ?thesis by (simp add: sum_list_replicate)
  qed
  note tilt = this
  show ?thesis unfolding derived_action_check_def S K st(1,2) Let_def rbind_Inr tilt
    using range check_start_holds [OF S K] by (auto simp: list_all_iff)
qed

section \<open>The gauge characterization holds\<close>

lemma tilt_scaled:
  assumes len: "length ds = length es" and pos: "\<forall>e \<in> set es. 0 < e" "\<forall>d \<in> set ds. 0 < d" and c: "0 < c" and ne: "es \<noteq> []"
  defines "z \<equiv> sum_list (map (\<lambda>(e, d). c * (e * d)) (zip es ds))"
  shows "0 < z" and "tilt (map (\<lambda>_. c) es) (map2 (*) es ds) = Inr (map (\<lambda>(e, d). c * (e * d) / z) (zip es ds))"
proof -
  have nn: "\<forall>v \<in> set (map (\<lambda>(e, d). c * (e * d)) (zip es ds)). 0 < v"
  proof -
    have "0 < e \<and> 0 < d" if "(e, d) \<in> set (zip es ds)" for e d
      using pos set_zip_leftD [OF that] set_zip_rightD [OF that] by blast
    then show ?thesis using c by auto
  qed
  have "0 < sum_list vs" if "\<forall>v \<in> set vs. 0 < v" "vs \<noteq> []" for vs :: "rat list"
    using that by (induction vs) (auto simp: add_pos_nonneg sum_list_nonneg less_imp_le)
  moreover have "zip es ds \<noteq> []" using ne len by (cases es; cases ds) auto
  ultimately show z: "0 < z" using nn by (simp add: z_def)
  have refs: "zip (map (\<lambda>_. c) es) (map2 (*) es ds) = map (\<lambda>(e, d). (c, e * d)) (zip es ds)"
    using len by (intro nth_equalityI) (auto simp: case_prod_beta)
  have zz: "sum_list (map2 (*) (map (\<lambda>_. c) es) (map2 (*) es ds)) = z"
    unfolding refs z_def by (simp add: comp_def case_prod_unfold)
  have "rmap (\<lambda>(r, f). frac_div (r * f) z) (map (\<lambda>(e, d). (c, e * d)) ps) = Inr (map (\<lambda>(e, d). c * (e * d) / z) ps)" for ps
    using z by (induction ps) (auto simp: frac_div_def)
  then show "tilt (map (\<lambda>_. c) es) (map2 (*) es ds) = Inr (map (\<lambda>(e, d). c * (e * d) / z) (zip es ds))"
    unfolding tilt_def Let_def zz unfolding refs by blast
qed

lemma tilt_law_iff:
  assumes len: "length ds = length es" and pos: "\<forall>e \<in> set es. 0 < e" "\<forall>d \<in> set ds. 0 < d" and c: "0 < c"
    and ne: "es \<noteq> []" and total: "sum_list es = 3"
  shows "tilt (map (\<lambda>_. c) es) (map2 (*) es ds) = Inr (map (\<lambda>e. 1 / 3 * e) es) \<longleftrightarrow> (\<forall>d \<in> set ds. d = hd ds)"
proof -
  define z where "z = sum_list (map (\<lambda>(e, d). c * (e * d)) (zip es ds))"
  have z: "0 < z" and t: "tilt (map (\<lambda>_. c) es) (map2 (*) es ds) = Inr (map (\<lambda>(e, d). c * (e * d) / z) (zip es ds))"
    unfolding z_def by (rule tilt_scaled [OF len pos c ne])+
  have ds: "ds \<noteq> []" using ne len by auto
  have entry: "c * (e * d) / z = 1 / 3 * e \<longleftrightarrow> 3 * c * d = z" if "0 < e" for e d
    using that z by (auto simp: field_simps)
  have "map (\<lambda>(e, d). c * (e * d) / z) (zip es ds) = map (\<lambda>e. 1 / 3 * e) es \<longleftrightarrow> (\<forall>i < length es. 3 * c * (ds ! i) = z)"
    using len pos(1) entry by (auto simp: list_eq_iff_nth_eq)
  also have "\<dots> \<longleftrightarrow> (\<forall>d \<in> set ds. 3 * c * d = z)" using len by (auto simp: all_set_conv_all_nth)
  also have "\<dots> \<longleftrightarrow> (\<forall>d \<in> set ds. d = hd ds)"
  proof
    assume a: "\<forall>d \<in> set ds. 3 * c * d = z"
    show "\<forall>d \<in> set ds. d = hd ds"
    proof
      fix d
      assume "d \<in> set ds"
      then have "3 * c * d = 3 * c * hd ds" using a ds by simp
      then show "d = hd ds" using c by simp
    qed
  next
    assume a: "\<forall>d \<in> set ds. d = hd ds"
    have "map (\<lambda>(e, d). c * (e * d)) (zip es ds) = map (\<lambda>e. c * hd ds * e) es"
      using a len by (intro nth_equalityI) auto
    then have "z = c * hd ds * sum_list es" by (simp add: z_def sum_list_const_mult)
    then show "\<forall>d \<in> set ds. 3 * c * d = z" using a total by simp
  qed
  finally show ?thesis by (simp add: t)
qed

lemma remdups_constant: "ds \<noteq> [] \<Longrightarrow> length (remdups ds) = 1 \<longleftrightarrow> (\<forall>d \<in> set ds. d = hd ds)"
proof -
  assume "ds \<noteq> []"
  then have h: "hd ds \<in> set ds" by simp
  have "length (remdups ds) = 1 \<longleftrightarrow> card (set ds) = 1" by (simp add: length_remdups_card_conv)
  also have "\<dots> \<longleftrightarrow> (\<forall>d \<in> set ds. d = hd ds)" using h by (auto simp: card_1_singleton_iff)
  finally show ?thesis .
qed

lemma add_candidate_holds:
  assumes "length ds = length es" "\<forall>e \<in> set es. 0 < e" "\<forall>d \<in> set ds. 0 < d" "0 < c" "es \<noteq> []" "sum_list es = 3"
  shows "\<exists>t. add_candidate (map (\<lambda>_. c) es) (map (\<lambda>e. 1 / 3 * e) es) (map2 (*) es ds) ds = Inr t \<and>
    characterization_holds t \<and> (tilt_equals_law t \<longleftrightarrow> (\<forall>d \<in> set ds. d = hd ds))"
proof -
  have ds: "ds \<noteq> []" using assms(1,5) by auto
  define law where "law = map (\<lambda>e. 1 / 3 * e) es"
  obtain t where t: "tilt (map (\<lambda>_. c) es) (map2 (*) es ds) = Inr t" using tilt_scaled(2) [OF assms(1-5)] by blast
  have "t = law \<longleftrightarrow> (\<forall>d \<in> set ds. d = hd ds)"
    using tilt_law_iff [OF assms] unfolding law_def [symmetric] t by simp
  then show ?thesis unfolding add_candidate_def law_def [symmetric] t
    by (simp add: remdups_constant [OF ds, unfolded One_nat_def] Let_def)
qed

lemma leaf_step_apply: "leaf_step S K m (num, den, d, k) = (num * weights K ! k ! m, den * partition_sums K ! k,
    d + decrement S (kernel_potential K) ! k ! m, next_state S ! k ! m)"
  by (simp add: leaf_step_def)

lemma record_run:
  "fold (leaf_step S K) w (num, prod_list (record_partitions r), record_dsum r, record_end r) = (num', den', d', e) \<Longrightarrow>
    (let r' = fold (record_step S K) w r in prod_list (record_partitions r') = den' \<and> record_dsum r' = d' \<and>
      record_end r' = e \<and> record_labels r' = record_labels r @ w \<and> record_start r' = record_start r \<and>
      record_prob r' = record_prob r * path_probability S K (record_end r) w)"
proof (induction w arbitrary: num r)
  case (Cons m w)
  have "fold (leaf_step S K) w (num * weights K ! record_end r ! m, prod_list (record_partitions (record_step S K m r)),
      record_dsum (record_step S K m r), record_end (record_step S K m r)) = (num', den', d', e)"
    using Cons.prems by (simp add: leaf_step_apply record_step_def Let_def)
  from Cons.IH [OF this] show ?case by (simp add: record_step_def Let_def mult.assoc)
qed simp

definition empty_record :: "nat \<Rightarrow> path_record" where
  "empty_record k = \<lparr>record_start = k, record_labels = [], record_prob = 1, record_dsum = 0, record_partitions = [], record_end = k\<rparr>"

lemma word_record:
  assumes S: "build_sector n = Inr S" and K: "build_kernel n b u = Inr K" and k: "k < sector_size S"
    and w: "w \<in> set (label_words r)"
  defines "t \<equiv> fold (record_step S K) w (empty_record k)"
  shows "record_labels t = w" "record_start t = k" "record_prob t = path_probability S K k w" "0 < record_prob t"
    "frac_div (2 ^ nat (- int b * record_dsum t)) (of_int (prod_list (record_partitions t))) = Inr (record_prob t)"
proof -
  have w': "set w \<subseteq> {..<label_count}" using w by (simp add: label_words_set)
  obtain num den d where path_leaf: "fold (leaf_step S K) w (1, 1, 0, k) = (num, den, d, path_end S k w)" "0 < den"
    "num = 2 ^ nat (- int b * d)" "of_int num / of_int den = path_probability S K k w"
    using leaf_run [OF S K k w', of 1 0 1] by auto
  have r: "prod_list (record_partitions t) = den" "record_dsum t = d" "record_labels t = w" "record_start t = k"
    "record_prob t = path_probability S K k w"
    using record_run [of S K w 1 "empty_record k"] path_leaf(1) unfolding t_def by (simp_all add: empty_record_def Let_def)
  then show "record_labels t = w" "record_start t = k" "record_prob t = path_probability S K k w" by simp_all
  show "0 < record_prob t" using path_probability_pos [OF S K k w'] r by simp
  have "path_probability S K k w = 2 ^ nat (- int b * d) / of_int den" using path_leaf(3,4) by simp
  then show "frac_div (2 ^ nat (- int b * record_dsum t)) (of_int (prod_list (record_partitions t))) = Inr (record_prob t)"
    using r path_leaf(2) by (simp add: frac_div_def)
qed

lemma path_records_words:
  assumes S: "build_sector n = Inr S" and K: "build_kernel n b u = Inr K"
    and st: "chosen_initial_states n = Inr states" "rmap (state_index S) states = Inr starts"
  shows "path_records n b u r = Inr (concat (map (\<lambda>k. map (\<lambda>w. fold (record_step S K) w (empty_record k)) (label_words r)) starts))"
  by (simp add: path_records_def S K st empty_record_def [symmetric] label_dfs_run)

lemma sum_list_map_concat: "sum_list (map f (concat xss)) = sum_list (map (\<lambda>xs. sum_list (map f xs)) xss)"
  by (induction xss) simp_all

lemma gauge_records:
  assumes K: "build_kernel 3 b u = Inr K"
  obtains records where "path_records 3 b u r = Inr records" "records \<noteq> []"
    "\<forall>t \<in> set records. 0 < record_prob t \<and> record_labels t \<in> set (label_words r) \<and>
      frac_div (2 ^ nat (- int b * record_dsum t)) (of_int (prod_list (record_partitions t))) = Inr (record_prob t)"
    "sum_list (map record_prob records) = 3" "\<And>w. w \<in> set (label_words r) \<Longrightarrow> w \<in> record_labels ` set records"
proof -
  obtain S where S: "build_sector 3 = Inr S" by (rule build_sector_returns)
  obtain states starts where st: "chosen_initial_states 3 = Inr states" "rmap (state_index S) states = Inr starts"
    "length starts = 3" and range: "\<And>k. k \<in> set starts \<Longrightarrow> k < sector_size S"
    using chosen_indices [OF S] by metis
  let ?rec = "\<lambda>k w. fold (record_step S K) w (empty_record k)"
  let ?records = "concat (map (\<lambda>k. map (?rec k) (label_words r)) starts)"
  have mem: "\<exists>k w. k \<in> set starts \<and> w \<in> set (label_words r) \<and> t = ?rec k w" if "t \<in> set ?records" for t
    using that by auto
  have ne: "starts \<noteq> []" using st(3) by auto
  have "label_words r \<noteq> []" using label_words_length [of r] by (auto simp: label_count_def)
  show thesis
  proof (rule that [of ?records])
    show "path_records 3 b u r = Inr ?records" by (rule path_records_words [OF S K st(1,2)])
    show "?records \<noteq> []" using ne \<open>label_words r \<noteq> []\<close> by (cases starts) auto
    show "\<forall>t \<in> set ?records. 0 < record_prob t \<and> record_labels t \<in> set (label_words r) \<and>
      frac_div (2 ^ nat (- int b * record_dsum t)) (of_int (prod_list (record_partitions t))) = Inr (record_prob t)"
    proof
      fix t
      assume "t \<in> set ?records"
      then obtain k w where "k \<in> set starts" and w: "w \<in> set (label_words r)" and t: "t = ?rec k w" using mem by blast
      note wr = word_record [OF S K range [OF \<open>k \<in> set starts\<close>] w]
      show "0 < record_prob t \<and> record_labels t \<in> set (label_words r) \<and>
        frac_div (2 ^ nat (- int b * record_dsum t)) (of_int (prod_list (record_partitions t))) = Inr (record_prob t)"
        unfolding t using wr(1,4,5) w by simp
    qed
    have "sum_list (map record_prob ?records) =
        sum_list (map (\<lambda>k. sum_list (map (\<lambda>w. record_prob (?rec k w)) (label_words r))) starts)"
      by (simp only: sum_list_map_concat map_map comp_def)
    also have "\<dots> = sum_list (map (\<lambda>k. 1) starts)"
    proof (rule arg_cong [where f = sum_list], rule map_cong [OF refl])
      fix k
      assume k: "k \<in> set starts"
      have "sum_list (map (\<lambda>w. record_prob (?rec k w)) (label_words r)) = sum_list (map (path_probability S K k) (label_words r))"
        by (rule arg_cong [where f = sum_list], rule map_cong [OF refl]) (rule word_record(3) [OF S K range [OF k]])
      then show "sum_list (map (\<lambda>w. record_prob (?rec k w)) (label_words r)) = 1"
        using path_probability_sum [OF S K range [OF k]] by simp
    qed
    also have "\<dots> = 3" using st(3) by (simp add: map_replicate_const sum_list_replicate)
    finally show "sum_list (map record_prob ?records) = 3" .
    fix w
    assume w: "w \<in> set (label_words r)"
    obtain k where k: "k \<in> set starts" using ne by (cases starts) auto
    have "?rec k w \<in> set ?records" using k w by auto
    moreover have "record_labels (?rec k w) = w" by (rule word_record(1) [OF S K range [OF k] w])
    ultimately show "w \<in> record_labels ` set ?records" by (metis image_eqI)
  qed
qed

lemma map2_map_same: "map2 f (map g xs) (map h xs) = map (\<lambda>x. f (g x) (h x)) xs"
  by (induction xs) simp_all

lemma gauge_check_holds:
  assumes t: "tiltable 3 u" and r: "0 < r"
  shows "\<exists>g. gauge_check 3 b u r = Inr g \<and> gauge_verified g \<and> map tilt_equals_law (take 3 (candidates g)) = [True, True, False]"
proof -
  obtain K where K: "build_kernel 3 b u = Inr K" using build_kernel_returns [OF t] by blast
  obtain rs where run: "path_records 3 b u r = Inr rs" and ne: "rs \<noteq> []"
    and rec: "\<forall>t \<in> set rs. 0 < record_prob t \<and> record_labels t \<in> set (label_words r) \<and>
      frac_div (2 ^ nat (- int b * record_dsum t)) (of_int (prod_list (record_partitions t))) = Inr (record_prob t)"
    and total: "sum_list (map record_prob rs) = 3" and words: "\<And>w. w \<in> set (label_words r) \<Longrightarrow> w \<in> record_labels ` set rs"
    using gauge_records [OF K] by metis
  define es where "es = map record_prob rs"
  define c where "c = (1 / 3 * (1 / of_nat (label_count ^ r)) :: rat)"
  define law where "law = map (\<lambda>e. 1 / 3 * e) es"
  define flag where "flag = (\<lambda>t :: path_record. hd (record_labels t) = (0 :: nat))"
  have c: "0 < c" by (simp add: c_def label_count_def)
  have es: "\<forall>e \<in> set es. 0 < e" "es \<noteq> []" "sum_list es = 3" using rec ne total by (auto simp: es_def)
  have cand: "\<exists>t. add_candidate (map (\<lambda>_. c) es) law (map2 (*) es ds) ds = Inr t \<and> characterization_holds t \<and>
      (tilt_equals_law t \<longleftrightarrow> (\<forall>d \<in> set ds. d = hd ds))" if "length ds = length es" "\<forall>d \<in> set ds. 0 < d" for ds
    unfolding law_def by (rule add_candidate_holds [OF that(1) es(1) that(2) c es(2,3)])
  obtain c1 where c1: "add_candidate (map (\<lambda>_. c) es) law (map2 (*) es (map (\<lambda>r. 3) rs)) (map (\<lambda>r. 3) rs) = Inr c1"
    "characterization_holds c1" "tilt_equals_law c1" using cand [of "map (\<lambda>r. 3) rs"] ne by (auto simp: es_def hd_map)
  obtain c2 where c2: "add_candidate (map (\<lambda>_. c) es) law (map2 (*) es (map (\<lambda>r. 1) rs)) (map (\<lambda>r. 1) rs) = Inr c2"
    "characterization_holds c2" "tilt_equals_law c2" using cand [of "map (\<lambda>r. 1) rs"] ne by (auto simp: es_def hd_map)
  let ?d3 = "map (\<lambda>t. if flag t then 2 else 1 :: rat) rs"
  have l3: "length ?d3 = length es" and p3: "\<forall>d \<in> set ?d3. 0 < d" by (auto simp: es_def)
  obtain c3 where c3: "add_candidate (map (\<lambda>_. c) es) law (map2 (*) es ?d3) ?d3 = Inr c3"
    "characterization_holds c3" "tilt_equals_law c3 \<longleftrightarrow> (\<forall>d \<in> set ?d3. d = hd ?d3)"
    using cand [OF l3 p3] by blast
  obtain c4 where c4: "add_candidate (map (\<lambda>_. c) es) law (map2 (*) es es) es = Inr c4" "characterization_holds c4"
    using cand [of es] es(1) by auto
  have "\<not> (\<forall>d \<in> set ?d3. d = hd ?d3)"
  proof -
    have "replicate r 0 \<in> set (label_words r)" "replicate r 1 \<in> set (label_words r)"
      using r by (auto simp: label_words_set label_count_def)
    then obtain x y where "x \<in> set rs" "record_labels x = replicate r 0" "y \<in> set rs" "record_labels y = replicate r 1"
      using words by (metis imageE)
    then have "2 \<in> set ?d3" "1 \<in> set ?d3" using r by (auto simp: flag_def image_iff)
    then show ?thesis by (metis num.distinct(1) numeral_One numeral_eq_iff)
  qed
  with c3(3) have not3: "\<not> tilt_equals_law c3" by simp
  have flags: "rmap first_label_zero rs = Inr (map flag rs)"
  proof (rule rmap_Inr_map)
    fix t
    assume "t \<in> set rs"
    with rec r have "record_labels t \<noteq> []" by (auto simp: label_words_set)
    then show "first_label_zero t = Inr (flag t)" by (cases "record_labels t") (simp_all add: first_label_zero_def flag_def)
  qed
  have quot: "rmap (\<lambda>r. frac_div (2 ^ nat (- int b * record_dsum r)) (of_int (prod_list (record_partitions r)))) rs = Inr es"
    unfolding es_def by (rule rmap_Inr_map) (use rec in blast)
  have "rmap (\<lambda>(l, e). frac_div l e) (zip law es) = Inr (map (\<lambda>_. 1 / 3) es)"
  proof -
    have "rmap (\<lambda>(l, e). frac_div l e) (zip (map (\<lambda>e. 1 / 3 * e) xs) xs) = Inr (map (\<lambda>_. 1 / 3) xs)"
      if "\<forall>e \<in> set xs. 0 < e" for xs
      using that by (induction xs) (auto simp: frac_div_def)
    then show ?thesis using es(1) by (simp add: law_def)
  qed
  note ratios = this
  have base: "tilt (map (\<lambda>_. c) es) es = Inr law"
  proof -
    have "map2 (*) es (map (\<lambda>_. 1) es) = es" by (induction es) simp_all
    then show ?thesis using tilt_law_iff [of "map (\<lambda>_. 1) es" es c] es c by (simp add: law_def hd_map)
  qed
  have ref: "map (\<lambda>r. c) rs = map (\<lambda>_. c) es" by (simp add: es_def comp_def)
  have law': "map (\<lambda>r. 1 / 3 * record_prob r) rs = law" by (simp add: es_def law_def comp_def)
  have f1: "map2 (*) es (map (\<lambda>r. 3) rs) = map (\<lambda>v. 3 * v) es" and f2: "map2 (*) es (map (\<lambda>r. 1) rs) = es"
    and f3: "map2 (*) es ?d3 = map (\<lambda>(v, flag). v * (if flag then 2 else 1)) (zip es (map flag rs))"
    and f4: "map2 (*) es es = map (\<lambda>v. v * v) es"
    unfolding es_def by (induction rs) (simp_all add: mult.commute)
  have f5: "map (\<lambda>flag. if flag then 2 else 1) (map flag rs) = ?d3" by simp
  have fit: "length (remdups (map (\<lambda>_. 1 / 3 :: rat) es)) = 1" using es(2) by (subst remdups_constant) (simp_all add: hd_map)
  have "gauge_check 3 b u r = Inr \<lparr>decomposition_ok = True, base_tilt_ok = True, fit_constant = True,
      candidates = [c1, c2, c3, c4], gauge_verified = True\<rparr>"
    unfolding gauge_check_def run rbind_Inr Let_def c_def [symmetric] ref law' es_def [symmetric] quot ratios base flags
      c1(1) [unfolded f1] c2(1) [unfolded f2] c3(1) [unfolded f3] c4(1) [unfolded f4] f5 fit
    using c1(2) c2(2) c3(2) c4(2) by simp
  then show ?thesis using c1 c2 not3 by simp
qed

section \<open>Reports on the rows\<close>

lemma kernel_summary_eq:
  assumes t: "tiltable n u"
  shows "kernel_summary n b u = Inr \<lparr>label_rows_sum_to_one = True, state_rows_sum_to_one = True, uniform_schedule = (b = 0)\<rparr>"
proof -
  obtain S where S: "build_sector n = Inr S" by (rule build_sector_returns)
  obtain K where K: "build_kernel n b u = Inr K" using build_kernel_returns [OF t] by blast
  have labels: "sum_list (kernel_row K k) = 1" if k: "k < sector_size S" for k
  proof -
    have "kernel_row K k = map (label_law b u (sector_states S ! k)) directed_labels"
      by (simp add: kernel_row_def kernel_parts(1,2) [OF S K k] label_law_def label_weight_def)
    then show ?thesis by (simp add: label_law_sum)
  qed
  have z: "partition_sums K ! k = sum_list (map (\<lambda>l. tilt_weight b (move_change u (sector_states S ! k) l)) directed_labels)"
    if k: "k < sector_size S" for k
  proof -
    have "(of_int (partition_sums K ! k) :: rat) = of_int (sum_list (map (\<lambda>l. tilt_weight b (move_change u (sector_states S ! k) l)) directed_labels))"
      unfolding kernel_parts(2) [OF S K k] label_norm_def by (simp add: of_int_sum_map label_weight_def [abs_def])
    then show ?thesis by (simp only: of_int_eq_iff)
  qed
  have "b = 0 \<Longrightarrow> partition_sums K ! k = 60" if "k < sector_size S" for k
    unfolding z [OF that] by (simp add: tilt_weight_def map_replicate_const sum_list_replicate directed_labels_length)
  then have uniform: "b = 0 \<Longrightarrow> list_all (\<lambda>z. z = int label_count) (partition_sums K)"
    using kernel_parts(4) [OF S K sector_size_pos [OF S]] by (simp add: list_all_length label_count_def)
  show ?thesis
    using labels uniform aggregated_row_facts(1) [OF S K]
    by (auto simp: kernel_summary_def S K aggregated_rows_eq [OF S] list_all_iff)
qed

lemma count_edge_fold:
  assumes "\<And>t p. (t, p) \<in> set row \<Longrightarrow> t \<noteq> k \<Longrightarrow> dict_get (rows ! t) k = 0"
  shows "snd (fold (count_edge rows k) row c) = snd c"
proof (rule fold_keep)
  fix tp s
  assume tp: "tp \<in> set row"
  obtain t p where e: "tp = (t, p)" by (cases tp)
  show "snd (count_edge rows k tp s) = snd s"
    using assms [OF tp [unfolded e]] by (cases s; cases "t = k") (simp_all add: e count_edge_def)
qed

lemma row_misses:
  assumes S: "build_sector n = Inr S" and K: "build_kernel n b u = Inr K" and t: "t < sector_size S"
    and v: "v_values S ! t < v_values S ! k"
  shows "dict_get (aggregated_row S K t) k = 0"
proof -
  have "k \<notin> fst ` set (aggregated_row S K t)" using target_lower(2) [OF S K t, of k] v by fastforce
  then show ?thesis by (simp add: dict_get_def map_of_eq_None_iff [THEN iffD2])
qed

lemma reversibility_holds:
  assumes t: "tiltable n u"
  shows "\<exists>r. reversibility_summary n b u = Inr r \<and> reversed_edges r = 0 \<and> \<not> balance_possible r \<and> transient_normalized r"
proof -
  obtain S where S: "build_sector n = Inr S" by (rule build_sector_returns)
  obtain K where K: "build_kernel n b u = Inr K" using build_kernel_returns [OF t] by blast
  define rows where "rows = map (aggregated_row S K) [0..<sector_size S]"
  have row: "rows ! k = aggregated_row S K k" if "k < sector_size S" for k using that by (simp add: rows_def)
  have none: "dict_get (rows ! t) k = 0" if "k < sector_size S" "(t, p) \<in> set (rows ! k)" "t \<noteq> k" for k t p
  proof -
    have "t \<in> fst ` set (aggregated_row S K k)" using that row by force
    from target_lower [OF S K that(1) this that(3)] show ?thesis by (simp add: row row_misses [OF S K])
  qed
  have zero: "snd (fold (\<lambda>(k, row). fold (count_edge rows k) row) (enumerate 0 rows) (0, 0)) = 0"
  proof -
    have "snd (fold (\<lambda>(k, row). fold (count_edge rows k) row) (enumerate 0 rows) (0, 0)) = snd (0 :: nat, 0 :: nat)"
    proof (rule fold_keep)
      fix x and s :: "nat \<times> nat"
      assume "x \<in> set (enumerate 0 rows)"
      then have "x = (fst x, rows ! fst x) \<and> fst x < sector_size S"
        by (auto simp: in_set_enumerate_eq rows_def prod_eq_iff)
      then obtain k where k: "x = (k, rows ! k)" "k < sector_size S" by blast
      then show "snd ((case x of (k, row) \<Rightarrow> fold (count_edge rows k) row) s) = snd s"
        using count_edge_fold [of "rows ! k" k rows s] none [OF k(2)] by simp
    qed
    then show ?thesis by simp
  qed
  obtain s where s: "fold (\<lambda>(k, row). fold (count_edge rows k) row) (enumerate 0 rows) (0, 0) = (s, 0)"
    using zero by (metis prod.collapse)
  have "list_all (\<lambda>k. dict_total (rows ! k) = 1) (transient_indices S)"
    using aggregated_row_facts(1) [OF S K] by (auto simp: list_all_iff transient_indices_def row)
  then show ?thesis
    by (auto simp: reversibility_summary_def S aggregated_rows_eq [OF S] K rows_def [symmetric] s)
qed

lemma correction_realized: "m < label_count \<Longrightarrow> enrichment_correction a (realized_record m) = 0"
proof -
  have "sum_list (map (\<lambda>y. y * (y - 1)) (map (\<lambda>j. of_bool (j = m)) ms)) = (0 :: rat)" for ms :: "nat list"
    by (induction ms) simp_all
  then show ?thesis by (simp add: enrichment_correction_def realized_record_def)
qed

lemma gauge_check_empty:
  assumes t: "tiltable 3 u"
  shows "gauge_check 3 b u 0 = Inl IndexError"
proof -
  obtain K where K: "build_kernel 3 b u = Inr K" using build_kernel_returns [OF t] by blast
  obtain rs where run: "path_records 3 b u 0 = Inr rs" and ne: "rs \<noteq> []"
    and rec: "\<forall>t \<in> set rs. 0 < record_prob t \<and> record_labels t \<in> set (label_words 0) \<and>
      frac_div (2 ^ nat (- int b * record_dsum t)) (of_int (prod_list (record_partitions t))) = Inr (record_prob t)"
    and total: "sum_list (map record_prob rs) = 3"
    using gauge_records [OF K, of 0] by metis
  define es where "es = map record_prob rs"
  define c where "c = (1 / 3 * (1 / of_nat (label_count ^ 0)) :: rat)"
  define law where "law = map (\<lambda>e. 1 / 3 * e) es"
  have es: "\<forall>e \<in> set es. 0 < e" "es \<noteq> []" using rec ne by (auto simp: es_def)
  obtain f fs where rs: "rs = f # fs" using ne by (cases rs) auto
  have flags: "rmap first_label_zero rs = Inl IndexError" using rec by (simp add: rs first_label_zero_def)
  have quot: "rmap (\<lambda>r. frac_div (2 ^ nat (- int b * record_dsum r)) (of_int (prod_list (record_partitions r)))) rs = Inr es"
    unfolding es_def by (rule rmap_Inr_map) (use rec in blast)
  have ratios: "rmap (\<lambda>(l, e). frac_div l e) (zip law es) = Inr (map (\<lambda>_. 1 / 3) es)"
  proof -
    have "rmap (\<lambda>(l, e). frac_div l e) (zip (map (\<lambda>e. 1 / 3 * e) xs) xs) = Inr (map (\<lambda>_. 1 / 3) xs)"
      if "\<forall>e \<in> set xs. 0 < e" for xs
      using that by (induction xs) (auto simp: frac_div_def)
    then show ?thesis using es(1) by (simp add: law_def)
  qed
  have one: "map2 (*) es (map (\<lambda>_. 1) es) = es" by (induction es) simp_all
  obtain base where base: "tilt (map (\<lambda>_. c) es) es = Inr base"
    using tilt_scaled(2) [of "map (\<lambda>_. 1) es" es c] es one by (auto simp: c_def)
  have ref: "map (\<lambda>r. c) rs = map (\<lambda>_. c) es" by (simp add: es_def comp_def)
  have law': "map (\<lambda>r. 1 / 3 * record_prob r) rs = law" by (simp add: es_def law_def comp_def)
  show ?thesis
    unfolding gauge_check_def run rbind_Inr Let_def c_def [symmetric] ref law' es_def [symmetric] quot ratios base flags rbind_Inl ..
qed

end
