(* ===== verification/Seam_Policies.thy ===== *)
theory Seam_Policies
  imports Repair_Sector Fraction_Dict
begin

text \<open>
  The local completion laws of the self-readback laboratory
  (\<open>oph_fpe/dynamics/self_readback_repair_closure.py\<close>): candidate laws, their outcomes on one directed
  seam as exact distributions over states, the event schedules, and the conditional law of an undirected
  attempt.  The lemmas show that every schedule on the carrier is a distribution, that every policy
  returns a distribution that keeps the total, and that an undirected attempt averages the two loads.
\<close>

section \<open>Candidate laws\<close>

definition local_policies :: "string list" where
  "local_policies = [''directed_balanced'', ''reverse_directed_balanced'', ''nearest_keep_high_side'',
     ''one_unit_descent'', ''identity'', ''swap'', ''uniform_all_conserved_splits'', ''lower_index_gets_ceiling'']"

definition support_policies :: "string list" where
  "support_policies = [''direct_uniform'', ''direct_edge_biased'', ''direct_direction_biased'',
     ''distance_two_uniform'', ''antipodal_uniform'', ''direct_plus_distance_two_uniform'']"

record candidate_law =
  law_id :: string
  local_policy :: string
  support_policy :: string
  clock :: rat

text \<open>\<open>__post_init__\<close>.\<close>

definition make_law :: "string \<Rightarrow> string \<Rightarrow> string \<Rightarrow> rat \<Rightarrow> candidate_law res" where
  "make_law name policy support c =
     (if name = [] then Inl ValueError
      else if policy \<notin> set local_policies then Inl ValueError
      else if support \<notin> set support_policies then Inl ValueError
      else if c \<le> 0 \<or> 1 < c then Inl ValueError
      else Inr \<lparr>law_id = name, local_policy = policy, support_policy = support, clock = c\<rparr>)"

section \<open>Local outcomes\<close>

definition outcome_pairs :: "string \<Rightarrow> nat \<Rightarrow> nat \<Rightarrow> int \<Rightarrow> int \<Rightarrow> ((int \<times> int) \<times> rat) list res" where
  "outcome_pairs policy left right a b = (let s = a + b; lower = s div 2; upper = s - lower in
     if policy = ''directed_balanced'' then Inr [((lower, upper), 1)]
     else if policy = ''reverse_directed_balanced'' then Inr [((upper, lower), 1)]
     else if policy = ''nearest_keep_high_side'' then
       (if b < a then Inr [((upper, lower), 1)] else if a < b then Inr [((lower, upper), 1)] else Inr [((a, b), 1)])
     else if policy = ''one_unit_descent'' then
       (if 2 \<le> a - b then Inr [((a - 1, b + 1), 1)] else if 2 \<le> b - a then Inr [((a + 1, b - 1), 1)]
        else Inr [((a, b), 1)])
     else if policy = ''identity'' then Inr [((a, b), 1)]
     else if policy = ''swap'' then Inr [((b, a), 1)]
     else if policy = ''uniform_all_conserved_splits'' then
       Inr (map (\<lambda>v. ((int v, s - int v), 1 / of_int (s + 1))) [0..<nat (s + 1)])
     else if policy = ''lower_index_gets_ceiling'' then
       (if left < right then Inr [((upper, lower), 1)] else Inr [((lower, upper), 1)])
     else Inl ValueError)"

definition local_outcomes :: "string \<Rightarrow> loads \<Rightarrow> seam \<Rightarrow> loads fractions res" where
  "local_outcomes policy x e = (let (left, right) = e in
     rbind (outcome_pairs policy left right (x ! left) (x ! right)) (\<lambda>pairs.
       Inr (fold (\<lambda>((u, v), p). dict_add (x[left := u, right := v]) p) pairs [])))"

section \<open>Schedules\<close>

text \<open>\<open>len(set(events)) != len(events)\<close> is a repeated event.\<close>

definition uniform_weights :: "seam list \<Rightarrow> seam fractions res" where
  "uniform_weights events = (if events = [] \<or> \<not> distinct events then Inl ValueError
     else Inr (map (\<lambda>e. (e, 1 / of_nat (length events))) events))"

definition normalized_integer_weights :: "(seam \<times> int) list \<Rightarrow> seam fractions res" where
  "normalized_integer_weights ws = (let s = sum_list (map snd ws) in
     if s \<le> 0 then Inl ValueError else Inr (map (\<lambda>(e, w). (e, of_int w / of_int s)) ws))"

text \<open>\<open>_graph_distance\<close> grows the frontier until it holds the target or is empty.\<close>

definition next_frontier :: "seam list \<Rightarrow> nat list \<Rightarrow> nat list \<Rightarrow> nat list" where
  "next_frontier edges reached frontier = remdups (concat (map (\<lambda>v. concat (map (\<lambda>(l, r).
     if l = v \<and> r \<notin> set reached then [r] else if r = v \<and> l \<notin> set reached then [l] else []) edges)) frontier))"

lemma next_frontier_new: "set (next_frontier edges reached frontier) \<subseteq> fst ` set edges \<union> snd ` set edges - set reached"
  unfolding next_frontier_def by (auto split: if_splits) force+

lemma frontier_measure:
  fixes edges :: "seam list" and reached :: "nat list"
  defines "ports \<equiv> fst ` set edges \<union> snd ` set edges"
  assumes "set new \<subseteq> ports - set reached"
  shows "2 * card (ports - (set reached \<union> set new)) + (if new = [] then 0 else 1) < 2 * card (ports - set reached) + 1"
proof (cases new)
  case (Cons q qs)
  then have "ports - (set reached \<union> set new) \<subset> ports - set reached" using assms(2) by auto
  then have "card (ports - (set reached \<union> set new)) < card (ports - set reached)"
    by (rule psubset_card_mono [rotated]) (simp add: ports_def)
  then show ?thesis by simp
qed simp

function distance_rounds :: "seam list \<Rightarrow> nat \<Rightarrow> nat list \<Rightarrow> nat list \<Rightarrow> nat \<Rightarrow> nat res" where
  "distance_rounds edges target reached [] d = Inl ValueError"
| "distance_rounds edges target reached (v # vs) d =
     (if target \<in> set (v # vs) then Inr d
      else (let new = next_frontier edges reached (v # vs)
        in distance_rounds edges target (reached @ new) new (d + 1)))"
  by pat_completeness auto

termination
  by (relation "measure (\<lambda>(edges, target, reached, frontier, d).
      2 * card (fst ` set edges \<union> snd ` set edges - set reached) + (if frontier = [] then 0 else 1))")
    (use frontier_measure [OF next_frontier_new] in auto)

definition pair_distance :: "seam list \<Rightarrow> nat \<Rightarrow> nat \<Rightarrow> nat res" where
  "pair_distance edges source target = distance_rounds edges target [source] [source] 0"

definition distance_pairs :: "seam list \<Rightarrow> nat \<Rightarrow> seam list res" where
  "distance_pairs edges d = (let pairs = filter (\<lambda>(l, r). l \<noteq> r) (List.product [0..<port_count] [0..<port_count])
     in rbind (rmap (\<lambda>(l, r). pair_distance edges l r) pairs) (\<lambda>ds.
       Inr (map fst (filter (\<lambda>(p, e). e = d) (zip pairs ds)))))"

text \<open>The two weight dictionaries have one entry per event, also when an event is repeated.\<close>

definition event_weights :: "string \<Rightarrow> seam list \<Rightarrow> seam fractions res" where
  "event_weights support direct = (let undirected = remdups (map (\<lambda>(l, r). sorted_pair l r) direct) in
     rbind (distance_pairs undirected 2) (\<lambda>distance_two. rbind (distance_pairs undirected 3) (\<lambda>antipodal.
     if length distance_two \<noteq> 60 \<or> length antipodal \<noteq> 12 then Inl ValueError
     else if support = ''direct_uniform'' then uniform_weights direct
     else if support = ''direct_edge_biased'' then
       (let first = sorted_pair (fst (hd direct)) (snd (hd direct)) in
         normalized_integer_weights (map (\<lambda>(l, r). ((l, r), if sorted_pair l r = first then 2 else 1)) (uniq direct)))
     else if support = ''direct_direction_biased'' then
       normalized_integer_weights (map (\<lambda>e. (e, if e = hd direct then 2 else 1)) (uniq direct))
     else if support = ''distance_two_uniform'' then uniform_weights distance_two
     else if support = ''antipodal_uniform'' then uniform_weights antipodal
     else if support = ''direct_plus_distance_two_uniform'' then uniform_weights (sort (direct @ distance_two))
     else Inl ValueError)))"

section \<open>Undirected attempts\<close>

definition balanced_seam_attempt_outcomes :: "loads \<Rightarrow> seam \<Rightarrow> loads fractions res" where
  "balanced_seam_attempt_outcomes x e = (let (left, right) = sorted_pair (fst e) (snd e) in
     rbind exact_reference_edges (\<lambda>edges. if (left, right) \<notin> set edges then Inl ValueError
       else rbind (rfold (\<lambda>d directed. rbind (local_outcomes ''directed_balanced'' x directed) (\<lambda>outcomes.
              Inr (fold (\<lambda>(y, p). dict_add y (1 / 2 * p)) outcomes d))) [] [(left, right), (right, left)]) (\<lambda>outcomes.
         if dict_total outcomes \<noteq> 1 then Inl ValueError else Inr outcomes)))"

section \<open>Every schedule is a distribution\<close>

definition is_law :: "'k fractions \<Rightarrow> bool" where
  "is_law d \<longleftrightarrow> distinct (map fst d) \<and> (\<forall>w \<in> snd ` set d. 0 < w) \<and> dict_total d = 1"

lemma uniform_weights_law:
  assumes "events \<noteq> []" "distinct events"
  shows "\<exists>d. uniform_weights events = Inr d \<and> is_law d \<and> map fst d = events"
  using assms by (auto simp: uniform_weights_def is_law_def dict_total_def comp_def map_replicate_const sum_list_replicate)

lemma normalized_weights_law:
  assumes "ws \<noteq> []" "distinct (map fst ws)" "\<forall>w \<in> snd ` set ws. 0 < w"
  shows "\<exists>d. normalized_integer_weights ws = Inr d \<and> is_law d \<and> map fst d = map fst ws"
proof -
  have "int (length ws) \<le> sum_list (map snd ws)" using assms(3) by (induction ws) auto
  then have "0 < sum_list (map snd ws)" using assms(1) by (cases ws) auto
  moreover have "sum_list (map (\<lambda>e. of_int (snd e) / of_int s :: rat) ws) = of_int (sum_list (map snd ws)) / of_int s" for s
    by (induction ws) (simp_all add: add_divide_distrib)
  ultimately show ?thesis using assms(2,3)
    by (auto simp: normalized_integer_weights_def is_law_def dict_total_def comp_def case_prod_beta Let_def)
qed

lemma distance_census:
  "distance_pairs (remdups (map (\<lambda>(l, r). sorted_pair l r) (sort directed_labels))) 3 =
     Inr [(0, 3), (1, 2), (2, 1), (3, 0), (4, 7), (5, 6), (6, 5), (7, 4), (8, 11), (9, 10), (10, 9), (11, 8)]"
  "distance_pairs (remdups (map (\<lambda>(l, r). sorted_pair l r) (sort directed_labels))) 2 =
     Inr (filter (\<lambda>(l, r). graph_distance ! l ! r = 2) (List.product [0..<port_count] [0..<port_count]))"
  "length (filter (\<lambda>(l, r). graph_distance ! l ! r = 2) (List.product [0..<port_count] [0..<port_count])) = 60"
  "list_all (\<lambda>(l, r). graph_distance ! l ! r = 1) directed_labels"
  by code_simp+

lemma sort_nonempty: "sort xs = [] \<longleftrightarrow> xs = []"
  using length_sort [of "\<lambda>x. x" xs] by (metis length_0_conv)

lemma carrier_events: "sort directed_labels \<noteq> []" "distinct (sort directed_labels)"
  using directed_labels_distinct directed_labels_length by (auto simp: sort_nonempty)

lemma map_pairs: "map (\<lambda>(l, r). ((l, r), f l r)) es = map (\<lambda>e. (e, f (fst e) (snd e))) es"
  by (induction es) auto

lemma event_weights_law:
  assumes "support \<in> set support_policies"
  shows "\<exists>d. event_weights support (sort directed_labels) = Inr d \<and> is_law d"
proof -
  obtain ds where two: "distance_pairs (remdups (map (\<lambda>(l, r). sorted_pair l r) (sort directed_labels))) 2 = Inr ds"
      "length ds = 60" "distinct (sort directed_labels @ ds)"
  proof (rule that [OF distance_census(2,3)])
    have "distinct (filter (\<lambda>(l, r). graph_distance ! l ! r = 2) (List.product [0..<port_count] [0..<port_count]))"
      by (intro distinct_filter distinct_product distinct_upt)
    moreover have "graph_distance ! fst e ! snd e = 1" if "e \<in> set directed_labels" for e
      using distance_census(4) that by (auto simp: list_all_iff)
    ultimately show "distinct (sort directed_labels @
        filter (\<lambda>(l, r). graph_distance ! l ! r = 2) (List.product [0..<port_count] [0..<port_count]))"
      using carrier_events(2) by fastforce
  qed
  note start = two(1) distance_census(1) two(2)
  have ws: "\<exists>d. normalized_integer_weights (map (\<lambda>e. (e, f e)) (uniq (sort directed_labels))) = Inr d \<and> is_law d"
    if "\<And>e. 0 < f e" for f
    using normalized_weights_law [of "map (\<lambda>e. (e, f e)) (uniq (sort directed_labels))"] that carrier_events
    by (auto simp: comp_def)
  have events: "ds \<noteq> []" "distinct ds" "distinct (sort (sort directed_labels @ ds))" "sort (sort directed_labels @ ds) \<noteq> []"
    using two(2,3) carrier_events(1) by (auto simp: sort_nonempty)
  define first where "first = sorted_pair (fst (hd (sort directed_labels))) (snd (hd (sort directed_labels)))"
  have "event_weights ''direct_uniform'' (sort directed_labels) = uniform_weights (sort directed_labels)"
    "event_weights ''direct_edge_biased'' (sort directed_labels) = normalized_integer_weights
       (map (\<lambda>e. (e, if sorted_pair (fst e) (snd e) = first then 2 else 1)) (uniq (sort directed_labels)))"
    "event_weights ''direct_direction_biased'' (sort directed_labels) = normalized_integer_weights
       (map (\<lambda>e. (e, if e = hd (sort directed_labels) then 2 else 1)) (uniq (sort directed_labels)))"
    "event_weights ''distance_two_uniform'' (sort directed_labels) = uniform_weights ds"
    "event_weights ''antipodal_uniform'' (sort directed_labels) = uniform_weights
       [(0, 3), (1, 2), (2, 1), (3, 0), (4, 7), (5, 6), (6, 5), (7, 4), (8, 11), (9, 10), (10, 9), (11, 8)]"
    "event_weights ''direct_plus_distance_two_uniform'' (sort directed_labels) = uniform_weights (sort (sort directed_labels @ ds))"
    unfolding event_weights_def start rbind_Inr Let_def first_def by (simp_all add: map_pairs)
  note eqs = this
  have "\<exists>d. event_weights ''direct_uniform'' (sort directed_labels) = Inr d \<and> is_law d"
    unfolding eqs(1) using uniform_weights_law [OF carrier_events] by blast
  moreover have "\<exists>d. event_weights ''direct_edge_biased'' (sort directed_labels) = Inr d \<and> is_law d"
    unfolding eqs(2) by (rule ws) simp
  moreover have "\<exists>d. event_weights ''direct_direction_biased'' (sort directed_labels) = Inr d \<and> is_law d"
    unfolding eqs(3) by (rule ws) simp
  moreover have "\<exists>d. event_weights ''distance_two_uniform'' (sort directed_labels) = Inr d \<and> is_law d"
    unfolding eqs(4) using uniform_weights_law [OF events(1,2)] by blast
  moreover have "\<exists>d. event_weights ''antipodal_uniform'' (sort directed_labels) = Inr d \<and> is_law d"
    unfolding eqs(5) using uniform_weights_law [of "[(0, 3), (1, 2), (2, 1), (3, 0), (4, 7), (5, 6), (6, 5), (7, 4), (8, 11),
      (9, 10), (10, 9), (11, 8)]"] by force
  moreover have "\<exists>d. event_weights ''direct_plus_distance_two_uniform'' (sort directed_labels) = Inr d \<and> is_law d"
    unfolding eqs(6) using uniform_weights_law [OF events(4,3)] by blast
  ultimately show ?thesis using assms unfolding support_policies_def set_simps by blast
qed

section \<open>Every policy keeps the total\<close>

text \<open>The outcomes of one event: a distribution over states that differ on the two ports only.\<close>

definition pair_law :: "loads \<Rightarrow> seam \<Rightarrow> loads fractions \<Rightarrow> bool" where
  "pair_law x e d \<longleftrightarrow> dict_total d = 1 \<and> (\<forall>y \<in> fst ` set d. \<exists>u v. y = x[fst e := u, snd e := v] \<and>
     u + v = x ! fst e + x ! snd e \<and> (0 \<le> x ! fst e \<longrightarrow> 0 \<le> x ! snd e \<longrightarrow> 0 \<le> u \<and> 0 \<le> v))"

lemma fold_pairs:
  "dict_total (fold (\<lambda>((u, v), p). dict_add (f u v) p) ps d) = dict_total d + sum_list (map snd ps)"
  "fst ` set (fold (\<lambda>((u, v), p). dict_add (f u v) p) ps d) = fst ` set d \<union> (\<lambda>(u, v). f u v) ` fst ` set ps"
proof (induction ps arbitrary: d)
  case (Cons e ps)
  obtain u v p where e: "e = ((u, v), p)" by (metis surj_pair)
  { case 1 show ?case by (simp add: e Cons.IH(1) dict_total_add) }
  { case 2 show ?case unfolding e list.simps fold_simps prod.case Cons.IH(2) dict_add_keys by auto }
qed simp_all

lemma local_outcomes_law:
  assumes "policy \<in> set local_policies" "0 \<le> x ! fst e" "0 \<le> x ! snd e"
  shows "\<exists>d. local_outcomes policy x e = Inr d \<and> pair_law x e d"
proof -
  obtain l r where e: "e = (l, r)" by (cases e)
  define a b where "a = x ! l" and "b = x ! r"
  have ab: "0 \<le> a" "0 \<le> b" using assms(2,3) by (simp_all add: a_def b_def e)
  have pairs: "\<exists>ps. outcome_pairs policy l r a b = Inr ps \<and> sum_list (map snd ps) = 1 \<and>
      (\<forall>(u, v) \<in> fst ` set ps. u + v = a + b \<and> 0 \<le> u \<and> 0 \<le> v)"
    using assms(1) ab unfolding local_policies_def set_simps
    by (elim insertE) (auto simp: outcome_pairs_def Let_def map_replicate_const sum_list_replicate comp_def)
  then obtain ps where ps: "outcome_pairs policy l r a b = Inr ps" "sum_list (map snd ps) = 1"
    "\<forall>(u, v) \<in> fst ` set ps. u + v = a + b \<and> 0 \<le> u \<and> 0 \<le> v" by blast
  let ?d = "fold (\<lambda>((u, v), p). dict_add (x[l := u, r := v]) p) ps []"
  have "local_outcomes policy x e = Inr ?d" using ps(1) by (simp add: local_outcomes_def e a_def b_def)
  moreover have "pair_law x e ?d"
    using ps(2,3) fold_pairs [of "\<lambda>u v. x[l := u, r := v]" ps "[]"]
    by (fastforce simp: pair_law_def e a_def b_def dict_total_def)
  ultimately show ?thesis by blast
qed

section \<open>An undirected attempt averages\<close>

lemma balanced_outcome:
  "local_outcomes ''directed_balanced'' x (l, r) =
     Inr [(x[l := (x ! l + x ! r) div 2, r := x ! l + x ! r - (x ! l + x ! r) div 2], 1)]"
  by (simp add: local_outcomes_def outcome_pairs_def Let_def)

lemma sorted_seam: "(i, j) \<in> set port_seams \<Longrightarrow> sorted_pair i j = (i, j)" "(i, j) \<in> set port_seams \<Longrightarrow> sorted_pair j i = (i, j)"
  using seam_range [of i j] by (auto simp: sorted_pair_def)

text \<open>The mean of an attempt replaces both loads by their mean.\<close>

lemma attempt_mean:
  assumes "(i, j) \<in> set port_seams" "length x = port_count" "k < port_count"
  shows "\<exists>d. balanced_seam_attempt_outcomes x (i, j) = Inr d \<and> dict_total d = 1 \<and>
    dict_mean (\<lambda>y. of_int (y ! k)) d = (if k = i \<or> k = j then of_int (x ! i + x ! j) / 2 else of_int (x ! k))"
proof -
  have r: "i < 12" "j < 12" "i \<noteq> j" using seam_range [OF assms(1)] by auto
  define lo hi where "lo = (x ! i + x ! j) div 2" and "hi = x ! i + x ! j - lo"
  let ?d = "dict_add (x[j := lo, i := hi]) (1 / 2) (dict_add (x[i := lo, j := hi]) (1 / 2) [])"
  have s: "x ! j + x ! i = x ! i + x ! j" by simp
  have nil: "dict_mean f [] = 0" for f :: "loads \<Rightarrow> rat" by (simp add: dict_mean_def)
  have t: "dict_total ?d = 1" by (simp add: dict_total_add dict_total_def)
  have "balanced_seam_attempt_outcomes x (i, j) = Inr ?d"
    using t assms(1)
    by (simp add: balanced_seam_attempt_outcomes_def sorted_seam exact_reference_edges_Inr balanced_outcome lo_def hi_def s
      del: dict_add.simps)
  moreover have "(of_int lo + of_int hi :: rat) = of_int (x ! i + x ! j)" by (simp add: hi_def)
  then have "dict_mean (\<lambda>y. of_int (y ! k)) ?d = (if k = i \<or> k = j then of_int (x ! i + x ! j) / 2 else of_int (x ! k))"
    using r assms(2,3) by (auto simp: dict_mean_add nil port_count_def field_simps simp del: dict_add.simps of_int_add)
  ultimately show ?thesis using t by blast
qed

end
