(* ===== verification/Seam_Progress.thy ===== *)
theory Seam_Progress
  imports Seam_Policies
begin

text \<open>
  The progress construction of the self-readback laboratory
  (\<open>_construct_integer_progress_witness\<close> and the two exhaustive audits of
  \<open>oph_fpe/dynamics/self_readback_repair_closure.py\<close>): a word of directed seams whose balances keep the
  squared norm until the last one lowers it.  \<open>None\<close> stands for a loop that does not end; the fuel of the
  search and of the walk back is the number of ports, and both are shown to end within it.
\<close>

section \<open>The construction\<close>

definition seam_directions :: "seam list \<Rightarrow> seam list" where
  "seam_directions edges = concat (map (\<lambda>(l, r). [(l, r), (r, l)]) edges)"

text \<open>Each row of the adjacency is sorted.\<close>

definition port_adjacency :: "seam list \<Rightarrow> nat list list" where
  "port_adjacency edges = map (\<lambda>p. sort (concat (map (\<lambda>(l, r).
     (if l = p then [r] else []) @ (if r = p then [l] else [])) edges))) [0..<port_count]"

type_synonym parents = "(nat \<times> nat option) list"

definition widest_seam :: "loads \<Rightarrow> seam list \<Rightarrow> seam option" where
  "widest_seam x edges = find (\<lambda>(l, r). 2 \<le> \<bar>x ! l - x ! r\<bar>) edges"

fun visit_neighbours :: "nat \<Rightarrow> nat list \<Rightarrow> parents \<Rightarrow> nat list \<Rightarrow> parents \<times> nat list" where
  "visit_neighbours current [] pred queue = (pred, queue)"
| "visit_neighbours current (q # qs) pred queue =
     (if q \<in> fst ` set pred then visit_neighbours current qs pred queue
      else visit_neighbours current qs (pred @ [(q, Some current)]) (queue @ [q]))"

fun goal_search :: "nat \<Rightarrow> nat list \<Rightarrow> nat list list \<Rightarrow> parents \<Rightarrow> nat list \<Rightarrow> (nat option \<times> parents) option" where
  "goal_search fuel goals adjacency pred [] = Some (None, pred)"
| "goal_search 0 goals adjacency pred (current # queue) = None"
| "goal_search (Suc fuel) goals adjacency pred (current # queue) =
     (if current \<in> set goals then Some (Some current, pred)
      else (let (pred', queue') = visit_neighbours current (adjacency ! current) pred queue
        in goal_search fuel goals adjacency pred' queue'))"

text \<open>The path from the endpoint back to a source, reversed while it is collected.\<close>

fun walk_back :: "nat \<Rightarrow> parents \<Rightarrow> nat option \<Rightarrow> nat list \<Rightarrow> nat list option" where
  "walk_back fuel pred None path = Some path"
| "walk_back 0 pred (Some current) path = None"
| "walk_back (Suc fuel) pred (Some current) path =
     (case map_of pred current of None \<Rightarrow> None | Some p \<Rightarrow> walk_back fuel pred p (current # path))"

definition construct_integer_progress_witness :: "loads \<Rightarrow> seam list \<Rightarrow> nat list list \<Rightarrow> seam list res option" where
  "construct_integer_progress_witness x directed adjacency =
     (if length x \<noteq> port_count then Some (Inl ValueError)
      else if Max (set x) - Min (set x) \<le> 1 then Some (Inr [])
      else (case widest_seam x port_seams of
        Some (l, r) \<Rightarrow> Some (Inr [if x ! r < x ! l then (l, r) else (r, l)])
      | None \<Rightarrow> (let maximum = Max (set x); sources = filter (\<lambda>i. x ! i = maximum) [0..<length x];
            goals = filter (\<lambda>i. x ! i \<le> maximum - 2) [0..<length x] in
          if goals = [] then Some (Inl ValueError)
          else Option.bind (goal_search port_count goals adjacency (map (\<lambda>s. (s, None)) sources) sources) (\<lambda>(found, pred).
            case found of None \<Rightarrow> Some (Inl ValueError)
            | Some endpoint \<Rightarrow> Option.bind (walk_back port_count pred (Some endpoint) []) (\<lambda>path.
                let events = zip path (tl path) in
                if events = [] \<or> \<not> set events \<subseteq> set directed then Some (Inl ValueError) else Some (Inr events))))))"

section \<open>The audits\<close>

text \<open>
  Running a word: only the last event may change the norm.  The first audit also requires one outcome
  per event; the second takes the first outcome, and a table of outcomes is never empty.
\<close>

fun run_witness :: "bool \<Rightarrow> int \<Rightarrow> seam list \<Rightarrow> loads \<Rightarrow> loads res" where
  "run_witness single before [] current = Inr current"
| "run_witness single before (e # es) current = rbind (local_outcomes ''directed_balanced'' current e) (\<lambda>outcomes.
     if single \<and> length outcomes \<noteq> 1 then Inl ValueError
     else (let following = fst (hd outcomes) in
       if es \<noteq> [] \<and> squared_norm following \<noteq> before then Inl ValueError
       else run_witness single before es following))"

record audit =
  states_checked :: nat
  settled_states :: nat
  progress_states :: nat
  maximum_witness :: nat
  old_absorbing :: nat
  totals_seen :: "int set"

definition note_witness :: "seam list \<Rightarrow> audit \<Rightarrow> audit" where
  "note_witness w a = a\<lparr>states_checked := states_checked a + 1, maximum_witness := max (maximum_witness a) (length w)\<rparr>"

definition locally_settled :: "loads \<Rightarrow> bool" where
  "locally_settled x = list_all (\<lambda>(l, r). \<bar>x ! l - x ! r\<bar> \<le> 1) port_seams"

text \<open>One state of the total-twelve audit: an empty word is accepted only for the all-ones state.\<close>

definition audit_twelve_state :: "seam list \<Rightarrow> nat list list \<Rightarrow> audit \<Rightarrow> loads \<Rightarrow> audit res option" where
  "audit_twelve_state directed adjacency a x = Option.bind (construct_integer_progress_witness x directed adjacency) (\<lambda>r.
     Some (rbind r (\<lambda>w. rbind (run_witness True (squared_norm x) w x) (\<lambda>final.
       let a = note_witness w (if locally_settled x then a\<lparr>old_absorbing := old_absorbing a + 1\<rparr> else a) in
       if w = [] then (if x \<noteq> replicate port_count 1 \<or> squared_norm x \<noteq> 12 then Inl ValueError
         else Inr (a\<lparr>settled_states := settled_states a + 1\<rparr>))
       else if squared_norm x \<le> squared_norm final then Inl ValueError
       else Inr (a\<lparr>progress_states := progress_states a + 1\<rparr>)))))"

text \<open>One state of the signed audit.\<close>

definition audit_signed_state :: "seam list \<Rightarrow> nat list list \<Rightarrow> audit \<Rightarrow> loads \<Rightarrow> audit res option" where
  "audit_signed_state directed adjacency a x = Option.bind (construct_integer_progress_witness x directed adjacency) (\<lambda>r.
     Some (rbind r (\<lambda>w. rbind (run_witness False (squared_norm x) w x) (\<lambda>final.
       let a = note_witness w (a\<lparr>totals_seen := insert (sum_list x) (totals_seen a)\<rparr>) in
       if w \<noteq> [] then (if squared_norm x \<le> squared_norm final then Inl ValueError
         else Inr (a\<lparr>progress_states := progress_states a + 1\<rparr>))
       else if 1 < Max (set x) - Min (set x) then Inl ValueError
       else Inr (a\<lparr>settled_states := settled_states a + 1\<rparr>)))))"

fun audit_all :: "(audit \<Rightarrow> loads \<Rightarrow> audit res option) \<Rightarrow> loads list \<Rightarrow> audit \<Rightarrow> audit res option" where
  "audit_all f [] a = Some (Inr a)"
| "audit_all f (x # xs) a = Option.bind (f a x) (\<lambda>r. case r of Inl err \<Rightarrow> Some (Inl err) | Inr a' \<Rightarrow> audit_all f xs a')"

definition empty_audit :: audit where
  "empty_audit = \<lparr>states_checked = 0, settled_states = 0, progress_states = 0, maximum_witness = 0, old_absorbing = 0,
     totals_seen = {}\<rparr>"

definition exhaustive_total_twelve_progress_audit :: "audit res option" where
  "exhaustive_total_twelve_progress_audit = Option.bind
     (audit_all (audit_twelve_state (seam_directions port_seams) (port_adjacency port_seams))
        (compositions 12 port_count) empty_audit) (\<lambda>r. Some (rbind r (\<lambda>a.
     if states_checked a \<noteq> 23 choose 11 \<or> settled_states a \<noteq> 1 then Inl ValueError else Inr a)))"

text \<open>\<open>itertools.product((-1, 0, 1), repeat=12)\<close>.\<close>

fun product_lists :: "int list \<Rightarrow> nat \<Rightarrow> loads list" where
  "product_lists vs 0 = [[]]"
| "product_lists vs (Suc n) = concat (map (\<lambda>v. map ((#) v) (product_lists vs n)) vs)"

definition exhaustive_signed_cube_progress_audit :: "audit res option" where
  "exhaustive_signed_cube_progress_audit = Option.bind
     (audit_all (audit_signed_state (seam_directions port_seams) (port_adjacency port_seams))
        (product_lists [- 1, 0, 1] port_count) empty_audit) (\<lambda>r. Some (rbind r (\<lambda>a.
     if states_checked a \<noteq> 3 ^ port_count \<or> totals_seen a \<noteq> set (map (\<lambda>i. int i - 12) [0..<25]) then Inl ValueError
     else Inr a)))"

section \<open>The search\<close>

lemma visit_neighbours_new:
  "visit_neighbours c qs pred queue = (pred', queue') \<Longrightarrow> \<exists>new. pred' = pred @ map (\<lambda>q. (q, Some c)) new \<and>
     queue' = queue @ new \<and> set new = set qs - fst ` set pred \<and> distinct new"
proof (induction c qs pred queue arbitrary: pred' queue' rule: visit_neighbours.induct)
  case (2 c q qs pred queue)
  show ?case
  proof (cases "q \<in> fst ` set pred")
    case True
    then have "visit_neighbours c qs pred queue = (pred', queue')" using "2.prems" by simp
    from "2.IH"(1) [OF True this] True show ?thesis by auto
  next
    case False
    then have "visit_neighbours c qs (pred @ [(q, Some c)]) (queue @ [q]) = (pred', queue')" using "2.prems" by simp
    from "2.IH"(2) [OF False this] obtain new where
      n: "pred' = (pred @ [(q, Some c)]) @ map (\<lambda>q. (q, Some c)) new" "queue' = (queue @ [q]) @ new"
      "set new = set qs - fst ` set (pred @ [(q, Some c)])" "distinct new" by blast
    show ?thesis by (rule exI [of _ "q # new"]) (use n False in auto)
  qed
qed simp

text \<open>
  What the search keeps: the keys are the taken ports followed by the queue, taken ports are no goals and
  their neighbours are keys, and the parent of a key is a taken port that was entered before it.
\<close>

definition search_ok :: "nat list \<Rightarrow> nat list \<Rightarrow> nat list list \<Rightarrow> nat list \<Rightarrow> parents \<Rightarrow> nat list \<Rightarrow> bool" where
  "search_ok sources goals adjacency taken pred queue \<longleftrightarrow>
     map fst pred = taken @ queue \<and> distinct (map fst pred) \<and> set (map fst pred) \<subseteq> {..<port_count} \<and>
     set sources \<subseteq> fst ` set pred \<and>
     (\<forall>p \<in> set taken. p \<notin> set goals \<and> set (adjacency ! p) \<subseteq> fst ` set pred) \<and>
     (\<forall>i < length pred. case snd (pred ! i) of None \<Rightarrow> fst (pred ! i) \<in> set sources
       | Some u \<Rightarrow> fst (pred ! i) \<notin> set sources \<and> u \<in> set taken \<and> fst (pred ! i) \<in> set (adjacency ! u) \<and>
           (\<exists>j < i. fst (pred ! j) = u))"

lemma search_step:
  assumes ok: "search_ok sources goals adjacency taken pred (c # queue)" and goal: "c \<notin> set goals"
    and visit: "visit_neighbours c (adjacency ! c) pred queue = (pred', queue')"
    and range: "set (adjacency ! c) \<subseteq> {..<port_count}"
  shows "search_ok sources goals adjacency (taken @ [c]) pred' queue'"
proof -
  obtain new where new: "pred' = pred @ map (\<lambda>q. (q, Some c)) new" "queue' = queue @ new"
    "set new = set (adjacency ! c) - fst ` set pred" "distinct new"
    using visit_neighbours_new [OF visit] by blast
  note o = ok [unfolded search_ok_def]
  have keys: "map fst pred' = taken @ c # queue @ new" using o by (simp add: new(1) comp_def)
  have dom: "fst ` set pred' = fst ` set pred \<union> set new" by (simp add: new(1) image_Un image_image)
  have c: "c \<in> fst ` set pred" using o by (metis in_set_conv_decomp list.set_map)
  obtain i where i: "i < length pred" "fst (pred ! i) = c" using c by (metis imageE in_set_conv_nth)
  show ?thesis unfolding search_ok_def
  proof (intro conjI allI impI ballI)
    show "map fst pred' = (taken @ [c]) @ queue'" using keys new(2) by simp
    have "distinct (map fst pred)" "fst ` set pred \<inter> set new = {}" using o new(3) by auto
    then show "distinct (map fst pred')" using new(4) by (simp add: new(1) comp_def)
    show "set (map fst pred') \<subseteq> {..<port_count}" using o range new(3) dom by auto
    show "set sources \<subseteq> fst ` set pred'" using o dom by auto
  next
    fix p
    assume p: "p \<in> set (taken @ [c])"
    show "p \<notin> set goals" using p o goal by auto
    show "set (adjacency ! p) \<subseteq> fst ` set pred'"
    proof (cases "p = c")
      case True
      then show ?thesis using new(3) dom by auto
    next
      case False
      with p o have "set (adjacency ! p) \<subseteq> fst ` set pred" by auto
      then show ?thesis using dom by auto
    qed
  next
    fix k
    assume k: "k < length pred'"
    show "case snd (pred' ! k) of None \<Rightarrow> fst (pred' ! k) \<in> set sources
       | Some u \<Rightarrow> fst (pred' ! k) \<notin> set sources \<and> u \<in> set (taken @ [c]) \<and> fst (pred' ! k) \<in> set (adjacency ! u) \<and>
           (\<exists>j < k. fst (pred' ! j) = u)"
    proof (cases "k < length pred")
      case True
      with o have old: "case snd (pred ! k) of None \<Rightarrow> fst (pred ! k) \<in> set sources
       | Some u \<Rightarrow> fst (pred ! k) \<notin> set sources \<and> u \<in> set taken \<and> fst (pred ! k) \<in> set (adjacency ! u) \<and>
           (\<exists>j < k. fst (pred ! j) = u)" by blast
      have "pred' ! j = pred ! j" if "j \<le> k" for j using that True by (simp add: new(1) nth_append)
      with old show ?thesis by (auto split: option.splits)
    next
      case False
      define q where "q = new ! (k - length pred)"
      have at: "pred' ! k = (q, Some c)" and q: "q \<in> set new" using False k by (auto simp: new(1) nth_append q_def)
      have "q \<notin> set sources" "q \<in> set (adjacency ! c)" using q new(3) o by auto
      moreover have "\<exists>j < k. fst (pred' ! j) = c"
        by (rule exI [of _ i]) (use i False in \<open>auto simp: new(1) nth_append\<close>)
      ultimately show ?thesis by (simp add: at)
    qed
  qed
qed

lemma goal_search_ends:
  "search_ok sources goals adjacency taken pred queue \<Longrightarrow> port_count \<le> fuel + length taken \<Longrightarrow>
    (\<And>p. p < port_count \<Longrightarrow> set (adjacency ! p) \<subseteq> {..<port_count}) \<Longrightarrow>
    \<exists>found pred' taken' queue'. goal_search fuel goals adjacency pred queue = Some (found, pred') \<and>
      search_ok sources goals adjacency taken' pred' queue' \<and>
      (case found of None \<Rightarrow> queue' = [] | Some e \<Rightarrow> e \<in> set goals \<and> e \<in> fst ` set pred')"
proof (induction fuel goals adjacency pred queue arbitrary: taken rule: goal_search.induct)
  case (1 fuel goals adjacency pred)
  then show ?case by auto
next
  case (2 goals adjacency pred c queue)
  have o: "map fst pred = taken @ c # queue" "distinct (map fst pred)" "set (map fst pred) \<subseteq> {..<port_count}"
    using "2.prems"(1) unfolding search_ok_def by blast+
  have "length (map fst pred) = card (set (map fst pred))" using o(2) by (rule distinct_card [symmetric])
  also have "\<dots> \<le> card {..<port_count}" using o(3) by (intro card_mono) auto
  finally have "length taken < port_count" using arg_cong [OF o(1), of length] by simp
  with "2.prems"(2) show ?case by simp
next
  case (3 fuel goals adjacency pred c queue)
  have c: "c \<in> fst ` set pred" using "3.prems"(1) unfolding search_ok_def by (metis in_set_conv_decomp list.set_map)
  show ?case
  proof (cases "c \<in> set goals")
    case True
    with "3.prems"(1) c show ?thesis by auto
  next
    case False
    obtain pred' queue' where v: "visit_neighbours c (adjacency ! c) pred queue = (pred', queue')" by fastforce
    have "c < port_count" using "3.prems"(1) c unfolding search_ok_def by auto
    then have ok: "search_ok sources goals adjacency (taken @ [c]) pred' queue'"
      by (intro search_step [OF "3.prems"(1) False v] "3.prems"(3))
    then show ?thesis using "3.IH" [OF False v [symmetric] refl ok _ "3.prems"(3)] "3.prems"(2) False v by simp
  qed
qed


section \<open>The way back\<close>

text \<open>A path from a source: its steps are adjacent, only its first port is a source and only its last may be a goal.\<close>

definition back_path :: "nat list \<Rightarrow> nat list \<Rightarrow> nat list list \<Rightarrow> nat \<Rightarrow> nat list \<Rightarrow> bool" where
  "back_path sources goals adjacency v path \<longleftrightarrow> path \<noteq> [] \<and> last path = v \<and> hd path \<in> set sources \<and>
     set (tl path) \<inter> set sources = {} \<and> set (butlast path) \<inter> set goals = {} \<and> distinct path \<and>
     (\<forall>(a, b) \<in> set (zip path (tl path)). b \<in> set (adjacency ! a))"

lemma zip_tl_snoc: "path \<noteq> [] \<Longrightarrow> zip (path @ [v]) (tl path @ [v]) = zip path (tl path) @ [(last path, v)]"
proof (induction path)
  case (Cons a path)
  then show ?case by (cases path) auto
qed simp

lemma walk_back_path:
  assumes ok: "search_ok sources goals adjacency taken pred queue"
  shows "i < length pred \<Longrightarrow> i < fuel \<Longrightarrow> \<exists>path. walk_back fuel pred (Some (fst (pred ! i))) rest = Some (path @ rest) \<and>
    back_path sources goals adjacency (fst (pred ! i)) path \<and> set path \<subseteq> fst ` set (take (i + 1) pred)"
proof (induction i arbitrary: fuel rest rule: less_induct)
  case (less i)
  obtain f where f: "fuel = Suc f" using less.prems(2) by (cases fuel) auto
  have dist: "distinct (map fst pred)" using ok unfolding search_ok_def by blast
  have entry: "case snd (pred ! k) of None \<Rightarrow> fst (pred ! k) \<in> set sources
       | Some u \<Rightarrow> fst (pred ! k) \<notin> set sources \<and> u \<in> set taken \<and> fst (pred ! k) \<in> set (adjacency ! u) \<and>
           (\<exists>j < k. fst (pred ! j) = u)" if "k < length pred" for k
    using ok that unfolding search_ok_def by blast
  have look: "map_of pred (fst (pred ! i)) = Some (snd (pred ! i))"
    using less.prems(1) dist by (simp add: map_of_eq_Some_iff)
  have member: "fst (pred ! i) \<in> fst ` set (take (i + 1) pred)"
    using less.prems(1) by (simp add: take_Suc_conv_app_nth)
  show ?case
  proof (cases "snd (pred ! i)")
    case None
    then have "back_path sources goals adjacency (fst (pred ! i)) [fst (pred ! i)]"
      using entry [OF less.prems(1)] by (simp add: back_path_def)
    moreover have "walk_back fuel pred (Some (fst (pred ! i))) rest = Some ([fst (pred ! i)] @ rest)"
      by (simp add: f look None)
    ultimately show ?thesis using member by (intro exI [of _ "[fst (pred ! i)]"]) simp
  next
    case (Some u)
    then obtain j where e: "fst (pred ! i) \<notin> set sources" "u \<in> set taken" "fst (pred ! i) \<in> set (adjacency ! u)"
      "j < i" "fst (pred ! j) = u" using entry [OF less.prems(1)] by auto
    from less.IH [OF e(4), of f "fst (pred ! i) # rest"] e(4) less.prems f obtain path where
      path: "walk_back f pred (Some u) (fst (pred ! i) # rest) = Some (path @ fst (pred ! i) # rest)"
      "back_path sources goals adjacency u path" "set path \<subseteq> fst ` set (take (j + 1) pred)"
      unfolding e(5) by auto
    have early: "set path \<subseteq> fst ` set (take i pred)"
    proof -
      have "set (take (j + 1) pred) \<subseteq> set (take i pred)" using e(4) by (intro set_take_subset_set_take) simp
      then show ?thesis using path(3) by blast
    qed
    have new: "fst (pred ! i) \<notin> fst ` set (take i pred)"
    proof
      assume "fst (pred ! i) \<in> fst ` set (take i pred)"
      then obtain k where k: "k < i" "fst (pred ! k) = fst (pred ! i)" using less.prems(1)
        by (auto simp: in_set_conv_nth)
      then show False using dist less.prems(1) by (simp add: distinct_conv_nth)
    qed
    have "u \<notin> set goals" using ok e(2) by (simp add: search_ok_def)
    moreover have b: "path \<noteq> []" "last path = u" "hd path \<in> set sources" "set (tl path) \<inter> set sources = {}"
      "set (butlast path) \<inter> set goals = {}" "distinct path" "\<forall>(a, b) \<in> set (zip path (tl path)). b \<in> set (adjacency ! a)"
      using path(2) by (simp_all add: back_path_def)
    moreover have "set path = insert u (set (butlast path))"
      using append_butlast_last_id [OF b(1)] b(2) by (metis Un_insert_right empty_set list.simps(15) set_append sup_bot_right)
    ultimately have "set path \<inter> set goals = {}" by auto
    moreover have "fst (pred ! i) \<notin> set path" using early new by blast
    ultimately have "back_path sources goals adjacency (fst (pred ! i)) (path @ [fst (pred ! i)])"
      unfolding back_path_def using b(1-4,6,7) e(1,3) by (simp add: zip_tl_snoc)
    moreover have "walk_back fuel pred (Some (fst (pred ! i))) rest = Some ((path @ [fst (pred ! i)]) @ rest)"
      using path(1) by (simp add: f look Some)
    moreover have "set (path @ [fst (pred ! i)]) \<subseteq> fst ` set (take (i + 1) pred)"
      using early member less.prems(1) by (auto simp: take_Suc_conv_app_nth)
    ultimately show ?thesis by blast
  qed
qed

section \<open>Transport of a maximum\<close>

definition balanced_pair :: "loads \<Rightarrow> seam \<Rightarrow> loads" where
  "balanced_pair x e = x[fst e := (x ! fst e + x ! snd e) div 2, snd e := x ! fst e + x ! snd e - (x ! fst e + x ! snd e) div 2]"

lemma run_witness_Cons: "run_witness single before (e # es) x =
    (if es \<noteq> [] \<and> squared_norm (balanced_pair x e) \<noteq> before then Inl ValueError
     else run_witness single before es (balanced_pair x e))"
  using balanced_outcome [of x "fst e" "snd e"] by (simp add: balanced_pair_def Let_def)

declare run_witness.simps(2) [simp del]

lemma balanced_length [simp]: "length (balanced_pair x e) = length x"
  by (simp add: balanced_pair_def)

lemma balanced_norm:
  assumes "fst e < length x" "snd e < length x" "fst e \<noteq> snd e"
  shows "squared_norm (balanced_pair x e) - squared_norm x =
    - 2 * (\<bar>x ! fst e - x ! snd e\<bar> div 2) * ((\<bar>x ! fst e - x ! snd e\<bar> + 1) div 2)"
  using balance_dv [of "x ! fst e" "x ! snd e"] squared_norm_pair [OF assms] halves [of "x ! fst e + x ! snd e"]
  by (simp add: balanced_pair_def)

lemma balanced_sum:
  assumes "fst e < length x" "snd e < length x" "fst e \<noteq> snd e"
  shows "sum_list (balanced_pair x e) = sum_list x"
  using sum_list_update_pair [OF assms] by (simp add: balanced_pair_def)

text \<open>A balance stays between the two loads it replaces.\<close>

definition stays_within :: "loads \<Rightarrow> loads \<Rightarrow> bool" where
  "stays_within x y \<longleftrightarrow> (\<forall>a b. (\<forall>v \<in> set x. a \<le> v \<and> v \<le> b) \<longrightarrow> (\<forall>v \<in> set y. a \<le> v \<and> v \<le> b))"

lemma stays_within_trans: "stays_within x y \<Longrightarrow> stays_within y z \<Longrightarrow> stays_within x z"
  unfolding stays_within_def by blast

lemma stays_within_refl [simp]: "stays_within x x"
  unfolding stays_within_def by blast

lemma balanced_box:
  assumes "\<forall>v \<in> set x. a \<le> v \<and> v \<le> b" "fst e < length x" "snd e < length x"
  shows "\<forall>v \<in> set (balanced_pair x e). a \<le> v \<and> v \<le> b"
proof -
  have "a \<le> x ! fst e" "x ! fst e \<le> b" "a \<le> x ! snd e" "x ! snd e \<le> b" using assms by simp_all
  then have "a \<le> (x ! fst e + x ! snd e) div 2" "(x ! fst e + x ! snd e) div 2 \<le> b"
    "a \<le> x ! fst e + x ! snd e - (x ! fst e + x ! snd e) div 2" "x ! fst e + x ! snd e - (x ! fst e + x ! snd e) div 2 \<le> b"
    by linarith+
  moreover have "set (x[i := u, j := w]) \<subseteq> insert w (insert u (set x))" for i j u w
    by (meson insert_mono order_trans set_update_subset_insert)
  ultimately show ?thesis using assms(1) unfolding balanced_pair_def by blast
qed

text \<open>Along a path the maximum moves one port per event until it meets a load two below.\<close>

lemma transport:
  assumes "before = squared_norm x" "path \<noteq> []" "distinct (p # path)" "set (p # path) \<subseteq> {..<length x}"
    "x ! p = M" "\<forall>q \<in> set (butlast path). x ! q = M - 1" "x ! last path = M - 2"
  shows "\<exists>y. run_witness single before (zip (p # path) path) x = Inr y \<and> squared_norm y = before - 2 \<and>
    sum_list y = sum_list x \<and> length y = length x \<and> stays_within x y"
  using assms
proof (induction path arbitrary: p x)
  case (Cons q path)
  have r: "fst (p, q) < length x" "snd (p, q) < length x" "fst (p, q) \<noteq> snd (p, q)" using Cons.prems(3,4) by auto
  let ?y = "balanced_pair x (p, q)"
  have box: "stays_within x ?y" unfolding stays_within_def using balanced_box [OF _ r(1,2)] by blast
  show ?case
  proof (cases path)
    case Nil
    then have v: "x ! p = M" "x ! q = M - 2" using Cons.prems by auto
    have norm: "squared_norm ?y = before - 2" using balanced_norm [OF r] v Cons.prems(1) by simp
    have "run_witness single before (zip (p # q # path) (q # path)) x = Inr ?y" by (simp add: run_witness_Cons Nil)
    with norm balanced_sum [OF r] box show ?thesis by (intro exI [of _ ?y]) simp
  next
    case (Cons q' path')
    have v: "x ! p = M" "x ! q = M - 1" using Cons.prems Cons by auto
    have h: "(M + (M - 1)) div 2 = M - 1" by (simp add: algebra_simps)
    have h': "M + (M - 1) - (M - 1) = M" by simp
    have y: "?y = x[p := M - 1, q := M]" unfolding balanced_pair_def fst_conv snd_conv v h h' ..
    have norm: "squared_norm ?y = squared_norm x" using balanced_norm [OF r] v by simp
    have other: "?y ! k = x ! k" if "k \<in> set path" for k
    proof -
      have "k \<noteq> p" "k \<noteq> q" using that Cons.prems(3) by auto
      then show ?thesis by (simp add: y)
    qed
    have "\<exists>z. run_witness single before (zip (q # path) path) ?y = Inr z \<and> squared_norm z = before - 2 \<and>
      sum_list z = sum_list ?y \<and> length z = length ?y \<and> stays_within ?y z"
    proof (rule Cons.IH)
      show "before = squared_norm ?y" using norm Cons.prems(1) by simp
      show "path \<noteq> []" using Cons by simp
      show "distinct (q # path)" using Cons.prems(3) by simp
      show "set (q # path) \<subseteq> {..<length ?y}" using Cons.prems(4) by simp
      show "?y ! q = M" using r by (simp add: y)
      show "\<forall>k \<in> set (butlast path). ?y ! k = M - 1"
      proof
        fix k
        assume k: "k \<in> set (butlast path)"
        then have "k \<in> set (butlast (q # path))" using Cons by simp
        then show "?y ! k = M - 1" using Cons.prems(6) other [OF in_set_butlastD [OF k]] by simp
      qed
      show "?y ! last path = M - 2" using Cons.prems(7) Cons other [of "last path"] by simp
    qed
    then obtain z where z: "run_witness single before (zip (q # path) path) ?y = Inr z" "squared_norm z = before - 2"
      "sum_list z = sum_list ?y" "length z = length ?y"
      "stays_within ?y z" by blast
    have "run_witness single before (zip (p # q # path) (q # path)) x = Inr z"
      using z(1) norm Cons.prems(1) by (simp add: run_witness_Cons)
    moreover have "stays_within x z" using stays_within_trans [OF box z(5)] .
    ultimately show ?thesis using z(2-4) balanced_sum [OF r] by (intro exI [of _ z]) simp
  qed
qed simp

section \<open>The construction never fails\<close>

lemma port_adjacency_neighbours: "p < 12 \<Longrightarrow> set (port_adjacency port_seams ! p) = neighbour_ports p"
  by (auto simp: port_adjacency_def neighbour_ports_def label_iff port_count_def split: if_splits)

lemma connected_ports:
  assumes p: "p < 12" "p \<in> A" and closed: "\<And>q. q \<in> A \<Longrightarrow> neighbour_ports q \<subseteq> A"
  shows "{..<12} \<subseteq> A"
proof -
  have step: "q \<in> A \<Longrightarrow> set (filter (\<lambda>r. (q, r) \<in> set directed_labels) [0..<12]) \<subseteq> A" for q
    using closed [of q] by (simp only: neighbour_ports_list)
  have all: "{0, 1, 2, 3, 4, 5, 6, 7, 8, 9, 10, 11} \<subseteq> A" if z: "0 \<in> A"
  proof -
    have one: "1 \<in> A" "5 \<in> A" "7 \<in> A" "10 \<in> A" "11 \<in> A" using step [OF z, unfolded neighbour_table] by simp_all
    have two: "8 \<in> A" "9 \<in> A" using step [OF one(1), unfolded neighbour_table] by simp_all
    have three: "2 \<in> A" "6 \<in> A" using step [OF one(4), unfolded neighbour_table] by simp_all
    have four: "4 \<in> A" using step [OF one(2), unfolded neighbour_table] by simp
    have "3 \<in> A" using step [OF three(1), unfolded neighbour_table] by simp
    with z one two three four show ?thesis by simp
  qed
  have h0: "0 \<in> A" if "1 \<in> A" using step [OF that, unfolded neighbour_table] by simp
  have h1: "0 \<in> A" if "5 \<in> A" using step [OF that, unfolded neighbour_table] by simp
  have h2: "0 \<in> A" if "7 \<in> A" using step [OF that, unfolded neighbour_table] by simp
  have h3: "0 \<in> A" if "10 \<in> A" using step [OF that, unfolded neighbour_table] by simp
  have h4: "0 \<in> A" if "11 \<in> A" using step [OF that, unfolded neighbour_table] by simp
  have h5: "10 \<in> A" if "2 \<in> A" using step [OF that, unfolded neighbour_table] by simp
  have h6: "5 \<in> A" if "4 \<in> A" using step [OF that, unfolded neighbour_table] by simp
  have h7: "7 \<in> A" if "6 \<in> A" using step [OF that, unfolded neighbour_table] by simp
  have h8: "1 \<in> A" if "8 \<in> A" using step [OF that, unfolded neighbour_table] by simp
  have h9: "1 \<in> A" if "9 \<in> A" using step [OF that, unfolded neighbour_table] by simp
  have h10: "8 \<in> A" if "3 \<in> A" using step [OF that, unfolded neighbour_table] by simp
  have z2: "0 \<in> A" if "2 \<in> A" by (rule h3 [OF h5 [OF that]])
  have z4: "0 \<in> A" if "4 \<in> A" by (rule h1 [OF h6 [OF that]])
  have z6: "0 \<in> A" if "6 \<in> A" by (rule h2 [OF h7 [OF that]])
  have z8: "0 \<in> A" if "8 \<in> A" by (rule h0 [OF h8 [OF that]])
  have z9: "0 \<in> A" if "9 \<in> A" by (rule h0 [OF h9 [OF that]])
  have z3: "0 \<in> A" if "3 \<in> A" by (rule h0 [OF h8 [OF h10 [OF that]]])
  have "0 \<in> A" using p unfolding less_12
    by (elim disjE) (hypsubst, (assumption | erule h0 h1 h2 h3 h4 z2 z3 z4 z6 z8 z9))+
  have "{..<12} \<subseteq> {0, 1, 2, 3, 4, 5, 6, 7, 8, 9, 10, 11 :: nat}"
    by (rule subsetI) (simp only: lessThan_iff less_12 insert_iff empty_iff simp_thms)
  with all [OF \<open>0 \<in> A\<close>] show ?thesis by (rule order_trans [rotated])
qed

lemma seam_directions_labels: "seam_directions port_seams = directed_labels"
  by (simp add: seam_directions_def directed_labels_def)

lemma zip_tl_last: "2 \<le> length path \<Longrightarrow> (last (butlast path), last path) \<in> set (zip path (tl path))"
proof (induction path)
  case (Cons a path)
  show ?case
  proof (cases path)
    case (Cons b rest)
    then show ?thesis using Cons.IH by (cases rest) auto
  qed (use Cons.prems in simp)
qed simp

text \<open>The path found on a state whose seams differ by at most one.\<close>

lemma path_found:
  fixes x :: loads
  assumes x: "length x = 12" and wide: "1 < Max (set x) - Min (set x)"
    and flat: "\<And>p q. p < 12 \<Longrightarrow> q \<in> neighbour_ports p \<Longrightarrow> \<bar>x ! p - x ! q\<bar> \<le> 1"
  defines "M \<equiv> Max (set x)"
  defines "sources \<equiv> filter (\<lambda>i. x ! i = M) [0..<length x]" and "goals \<equiv> filter (\<lambda>i. x ! i \<le> M - 2) [0..<length x]"
  shows "goals \<noteq> []"
    and "\<exists>e pred p path. goal_search port_count goals (port_adjacency port_seams) (map (\<lambda>s. (s, None)) sources) sources = Some (Some e, pred) \<and>
      walk_back port_count pred (Some e) [] = Some (p # path) \<and> path \<noteq> [] \<and> distinct (p # path) \<and> set (p # path) \<subseteq> {..<12} \<and>
      x ! p = M \<and> (\<forall>q \<in> set (butlast path). x ! q = M - 1) \<and> x ! last path = M - 2 \<and>
      set (zip (p # path) path) \<subseteq> set directed_labels"
proof -
  let ?adj = "port_adjacency port_seams"
  have ne: "set x \<noteq> {}" using x by auto
  have top: "x ! i \<le> M" if "i < 12" for i using that x by (simp add: M_def)
  obtain m where m: "m < 12" "x ! m = M" using Max_in [of "set x"] ne x by (auto simp: M_def in_set_conv_nth)
  obtain l where "l < 12" "x ! l = Min (set x)" using Min_in [of "set x"] ne x by (auto simp: in_set_conv_nth)
  then have "l \<in> set goals" using wide x by (simp add: goals_def M_def)
  then show gne: "goals \<noteq> []" by auto
  have range: "\<And>p. p < port_count \<Longrightarrow> set (?adj ! p) \<subseteq> {..<port_count}"
    using port_adjacency_neighbours neighbour_ports_sub by (auto simp: port_count_def)
  have src: "m \<in> set sources" using m x by (simp add: sources_def)
  have "search_ok sources goals ?adj [] (map (\<lambda>s. (s, None)) sources) sources"
    unfolding search_ok_def
  proof (intro conjI allI impI ballI)
    show "set sources \<subseteq> fst ` set (map (\<lambda>s. (s, None)) sources)" by (simp add: image_image)
    show "set (map fst (map (\<lambda>s. (s, None)) sources)) \<subseteq> {..<port_count}"
      by (auto simp: sources_def port_count_def x)
    show "distinct (map fst (map (\<lambda>s. (s, None)) sources))" by (simp add: comp_def sources_def)
  qed (simp_all add: comp_def)
  from goal_search_ends [OF this _ range, of port_count] obtain found pred taken queue where
    run: "goal_search port_count goals ?adj (map (\<lambda>s. (s, None)) sources) sources = Some (found, pred)"
    and ok: "search_ok sources goals ?adj taken pred queue"
    and res: "case found of None \<Rightarrow> queue = [] | Some e \<Rightarrow> e \<in> set goals \<and> e \<in> fst ` set pred"
    by (metis (lifting) le_add1)
  have keys: "fst ` set pred \<subseteq> {..<12}" and dist: "distinct (map fst pred)" and order: "map fst pred = taken @ queue"
    and clear: "\<forall>p \<in> set taken. p \<notin> set goals \<and> set (?adj ! p) \<subseteq> fst ` set pred" and from_src: "set sources \<subseteq> fst ` set pred"
    using ok unfolding search_ok_def port_count_def set_map by blast+
  obtain e where e: "found = Some e" "e \<in> set goals" "e \<in> fst ` set pred"
  proof (cases found)
    case None
    then have "map fst pred = taken" using res order by simp
    then have t: "set taken = fst ` set pred" by (metis list.set_map)
    have "{..<12} \<subseteq> fst ` set pred"
    proof (rule connected_ports [OF m(1)])
      show "m \<in> fst ` set pred" using src from_src by blast
      fix q
      assume q: "q \<in> fst ` set pred"
      then have "q < 12" using keys by blast
      from q t have "q \<in> set taken" by simp
      with clear have "set (?adj ! q) \<subseteq> fst ` set pred" by blast
      then show "neighbour_ports q \<subseteq> fst ` set pred" using port_adjacency_neighbours [OF \<open>q < 12\<close>] by simp
    qed
    then have "l \<in> set taken" using t \<open>l < 12\<close> by blast
    with clear \<open>l \<in> set goals\<close> show thesis by blast
  qed (use res that in auto)
  obtain i where i: "i < length pred" "fst (pred ! i) = e" using e(3) by (metis imageE in_set_conv_nth)
  have "length pred \<le> 12"
    using distinct_card [OF dist] card_mono [of "{..<12}" "fst ` set pred"] keys by simp
  with i have "i < port_count" by (simp add: port_count_def)
  from walk_back_path [OF ok i(1) this, of "[]"] obtain P where
    walked: "walk_back port_count pred (Some e) [] = Some P" and path: "back_path sources goals ?adj e P"
    and "set P \<subseteq> fst ` set (take (i + 1) pred)" unfolding i(2) by auto
  then have in12: "set P \<subseteq> {..<12}" using keys by (meson image_mono order_trans set_take_subset)
  note b = path [unfolded back_path_def]
  obtain p rest where P: "P = p # rest" using b by (cases P) auto
  have "p \<in> set sources" using b P by simp
  then have p: "x ! p = M" by (simp add: sources_def)
  have "x ! e \<le> M - 2" using e(2) by (simp add: goals_def)
  then have rest: "rest \<noteq> []" using b P p by auto
  have last: "last rest = e" using b P rest by simp
  have near: "b \<in> neighbour_ports a" if "(a, b) \<in> set (zip P (tl P))" for a b
  proof -
    have "a \<in> set P" using that by (rule set_zip_leftD)
    then have "a < 12" using in12 by blast
    moreover have "b \<in> set (?adj ! a)" using b that by blast
    ultimately show ?thesis using port_adjacency_neighbours by simp
  qed
  have high: "M - 2 < x ! q" if "q \<in> set (butlast P)" for q
    using that b in12 x in_set_butlastD [OF that] by (auto simp: goals_def)
  have mid: "x ! q = M - 1" if "q \<in> set (butlast rest)" for q
  proof -
    have "q \<in> set rest" using that by (rule in_set_butlastD)
    then have "q < 12" "q \<notin> set sources" using in12 b P by auto
    then have "x ! q \<noteq> M" using x by (simp add: sources_def)
    moreover have "M - 2 < x ! q" using that rest by (intro high) (simp add: P)
    ultimately show ?thesis using top [OF \<open>q < 12\<close>] by linarith
  qed
  have "(last (butlast P), e) \<in> set (zip P (tl P))"
    using zip_tl_last [of P] P rest b by (cases rest) auto
  moreover have "last (butlast P) \<in> set (butlast P)" using rest by (simp add: P)
  moreover have "last (butlast P) < 12" using in12 calculation(2) by (auto dest: in_set_butlastD)
  ultimately have "\<bar>x ! last (butlast P) - x ! e\<bar> \<le> 1" "M - 2 < x ! last (butlast P)" using flat near high by blast+
  then have "x ! e = M - 2" using \<open>x ! e \<le> M - 2\<close> by linarith
  moreover have "set (zip (p # rest) rest) \<subseteq> set directed_labels" using near by (auto simp: P neighbour_ports_def)
  ultimately have "goal_search port_count goals ?adj (map (\<lambda>s. (s, None)) sources) sources = Some (Some e, pred) \<and>
      walk_back port_count pred (Some e) [] = Some (p # rest) \<and> rest \<noteq> [] \<and> distinct (p # rest) \<and> set (p # rest) \<subseteq> {..<12} \<and>
      x ! p = M \<and> (\<forall>q \<in> set (butlast rest). x ! q = M - 1) \<and> x ! last rest = M - 2 \<and>
      set (zip (p # rest) rest) \<subseteq> set directed_labels"
    using run [unfolded e(1)] walked [unfolded P] rest in12 [unfolded P] p mid b [unfolded P] unfolding last by blast
  then show "\<exists>e pred p path. goal_search port_count goals ?adj (map (\<lambda>s. (s, None)) sources) sources = Some (Some e, pred) \<and>
      walk_back port_count pred (Some e) [] = Some (p # path) \<and> path \<noteq> [] \<and> distinct (p # path) \<and> set (p # path) \<subseteq> {..<12} \<and>
      x ! p = M \<and> (\<forall>q \<in> set (butlast path). x ! q = M - 1) \<and> x ! last path = M - 2 \<and>
      set (zip (p # path) path) \<subseteq> set directed_labels" by blast
qed

lemma widest_seam_None: "widest_seam x port_seams = None \<Longrightarrow> p < 12 \<Longrightarrow> q \<in> neighbour_ports p \<Longrightarrow> \<bar>x ! p - x ! q\<bar> \<le> 1"
  by (fastforce simp: widest_seam_def find_None_iff neighbour_ports_def label_iff)

lemma construct_witness:
  fixes x :: loads
  assumes x: "length x = 12"
  shows "\<exists>w y. construct_integer_progress_witness x (seam_directions port_seams) (port_adjacency port_seams) = Some (Inr w) \<and>
    set w \<subseteq> set directed_labels \<and> (w = [] \<longleftrightarrow> Max (set x) - Min (set x) \<le> 1) \<and>
    run_witness single (squared_norm x) w x = Inr y \<and> sum_list y = sum_list x \<and> length y = 12 \<and> stays_within x y \<and>
    (w = [] \<longrightarrow> y = x) \<and> (w \<noteq> [] \<longrightarrow> squared_norm y \<le> squared_norm x - 2)"
proof -
  let ?C = "construct_integer_progress_witness x (seam_directions port_seams) (port_adjacency port_seams)"
  show ?thesis
  proof (cases "Max (set x) - Min (set x) \<le> 1")
    case True
    then have "?C = Some (Inr [])" using x by (simp add: construct_integer_progress_witness_def port_count_def)
    then show ?thesis using x True by (intro exI [of _ "[]"] exI [of _ x]) simp
  next
    case wide: False
    show ?thesis
    proof (cases "widest_seam x port_seams")
      case (Some e)
      obtain l r where e: "e = (l, r)" by (cases e)
      have s: "(l, r) \<in> set port_seams" "2 \<le> \<bar>x ! l - x ! r\<bar>"
        using Some nth_mem unfolding widest_seam_def e find_Some_iff by (metis, fastforce)
      define d where "d = (if x ! r < x ! l then (l, r) else (r, l))"
      have d: "d \<in> set directed_labels" using s(1) by (auto simp: d_def label_iff)
      have rd: "fst d < length x" "snd d < length x" "fst d \<noteq> snd d" using label_range [of "fst d" "snd d"] d x by auto
      have gap: "2 \<le> \<bar>x ! fst d - x ! snd d\<bar>" using s(2) by (auto simp: d_def)
      have "?C = Some (Inr [d])" using wide x by (simp add: construct_integer_progress_witness_def port_count_def Some e d_def)
      moreover have "run_witness single (squared_norm x) [d] x = Inr (balanced_pair x d)" by (simp add: run_witness_Cons)
      moreover have "1 * 1 \<le> (\<bar>x ! fst d - x ! snd d\<bar> div 2) * ((\<bar>x ! fst d - x ! snd d\<bar> + 1) div 2)"
        using gap by (intro mult_mono) auto
      then have "squared_norm (balanced_pair x d) \<le> squared_norm x - 2" using balanced_norm [OF rd] by simp
      moreover have "stays_within x (balanced_pair x d)" unfolding stays_within_def using balanced_box [OF _ rd(1,2)] by blast
      ultimately show ?thesis using wide d balanced_sum [OF rd] x
        by (intro exI [of _ "[d]"] exI [of _ "balanced_pair x d"]) simp
    next
      case None
      let ?s = "filter (\<lambda>i. x ! i = Max (set x)) [0..<length x]" and ?g = "filter (\<lambda>i. x ! i \<le> Max (set x) - 2) [0..<length x]"
      have wide': "1 < Max (set x) - Min (set x)" using wide by simp
      note found = path_found [OF x wide' widest_seam_None [OF None]]
      obtain e pred p path where f: "goal_search port_count ?g (port_adjacency port_seams) (map (\<lambda>s. (s, None)) ?s) ?s = Some (Some e, pred)"
        "walk_back port_count pred (Some e) [] = Some (p # path)" "path \<noteq> []" "distinct (p # path)" "set (p # path) \<subseteq> {..<12}"
        "x ! p = Max (set x)" "\<forall>q \<in> set (butlast path). x ! q = Max (set x) - 1" "x ! last path = Max (set x) - 2"
        "set (zip (p # path) path) \<subseteq> set directed_labels" using found(2) by blast
      have ne: "zip (p # path) path \<noteq> []" using f(3) by (cases path) simp_all
      have "?C = Some (Inr (zip (p # path) path))"
        using wide x found(1) f(1,2,9) ne
        by (simp add: construct_integer_progress_witness_def port_count_def None Let_def seam_directions_labels)
      moreover obtain y where "run_witness single (squared_norm x) (zip (p # path) path) x = Inr y" "squared_norm y = squared_norm x - 2"
        "sum_list y = sum_list x" "length y = length x" "stays_within x y"
        using transport [OF refl f(3,4) _ f(6,7,8), of single] f(5) x by auto
      ultimately show ?thesis using wide ne f(9) x
        by (intro exI [of _ "zip (p # path) path"] exI [of _ y]) simp
    qed
  qed
qed

section \<open>The audits return\<close>

lemma spread_iff:
  fixes x :: loads
  assumes "length x = 12"
  shows "Max (set x) - Min (set x) \<le> 1 \<longleftrightarrow> (\<forall>a \<in> set x. \<forall>b \<in> set x. a \<le> b + 1)"
proof -
  have ne: "set x \<noteq> {}" using assms by auto
  show ?thesis
  proof
    assume "Max (set x) - Min (set x) \<le> 1"
    then have "a \<le> b + 1" if "a \<in> set x" "b \<in> set x" for a b
    proof -
      have "a \<le> Max (set x)" "Min (set x) \<le> b" using that by simp_all
      with \<open>Max (set x) - Min (set x) \<le> 1\<close> show ?thesis by linarith
    qed
    then show "\<forall>a \<in> set x. \<forall>b \<in> set x. a \<le> b + 1" by blast
  next
    assume "\<forall>a \<in> set x. \<forall>b \<in> set x. a \<le> b + 1"
    then have "Max (set x) \<le> Min (set x) + 1" using Max_in [of "set x"] Min_in [of "set x"] ne by blast
    then show "Max (set x) - Min (set x) \<le> 1" by simp
  qed
qed

lemma all_ones:
  assumes x: "in_sector 12 x" and flat: "Max (set x) - Min (set x) \<le> 1"
  shows "x = replicate 12 1"
proof -
  have len: "length x = 12" and s: "sum_list x = 12" using x by (simp_all add: in_sector_def)
  have close: "\<forall>a \<in> set x. \<forall>b \<in> set x. a \<le> b + 1" using flat spread_iff [OF len] by blast
  have low: "sum_list xs \<le> b * int (length xs)" if "\<forall>a \<in> set xs. a \<le> b" for xs :: loads and b
    using that by (induction xs) (auto simp: algebra_simps)
  have high: "b * int (length xs) \<le> sum_list xs" if "\<forall>a \<in> set xs. b \<le> a" for xs :: loads and b
    using that by (induction xs) (auto simp: algebra_simps)
  have "a = 1" if a: "a \<in> set x" for a
  proof (rule ccontr)
    assume "a \<noteq> 1"
    then consider "a \<le> 0" | "2 \<le> a" by linarith
    then show False
    proof cases
      case 1
      then have "\<forall>b \<in> set x. b \<le> 1" using close a by fastforce
      obtain us vs where split: "x = us @ a # vs" using a by (meson split_list)
      have "sum_list us \<le> 1 * int (length us)" "sum_list vs \<le> 1 * int (length vs)"
        using \<open>\<forall>b \<in> set x. b \<le> 1\<close> unfolding split by (intro low; simp)+
      then show False using s len 1 split by simp
    next
      case 2
      then have "\<forall>b \<in> set x. 1 \<le> b" using close a by fastforce
      obtain us vs where split: "x = us @ a # vs" using a by (meson split_list)
      have "1 * int (length us) \<le> sum_list us" "1 * int (length vs) \<le> sum_list vs"
        using \<open>\<forall>b \<in> set x. 1 \<le> b\<close> unfolding split by (intro high; simp)+
      then show False using s len 2 split by simp
    qed
  qed
  then show ?thesis using len by (simp add: list_eq_iff_nth_eq)
qed

lemma audit_twelve_state_eq:
  assumes x: "in_sector 12 x"
  shows "\<exists>a'. audit_twelve_state (seam_directions port_seams) (port_adjacency port_seams) a x = Some (Inr a') \<and>
    states_checked a' = states_checked a + 1 \<and>
    settled_states a' = settled_states a + (if x = replicate 12 1 then 1 else 0) \<and>
    progress_states a' = progress_states a + (if x = replicate 12 1 then 0 else 1)"
proof -
  have len: "length x = 12" using x by (simp add: in_sector_def)
  obtain w y where w: "construct_integer_progress_witness x (seam_directions port_seams) (port_adjacency port_seams) = Some (Inr w)"
    "w = [] \<longleftrightarrow> Max (set x) - Min (set x) \<le> 1" "run_witness True (squared_norm x) w x = Inr y"
    "w \<noteq> [] \<longrightarrow> squared_norm y \<le> squared_norm x - 2"
    using construct_witness [OF len, of True] by blast
  have ones: "w = [] \<longleftrightarrow> x = replicate 12 1"
  proof
    assume "w = []"
    then show "x = replicate 12 1" using w(2) all_ones [OF x] by blast
  next
    assume "x = replicate 12 1"
    then have "set x = {1}" by simp
    then show "w = []" using w(2) by simp
  qed
  have norm: "squared_norm (replicate 12 1) = 12" by (simp add: squared_norm_def sum_list_replicate)
  show ?thesis
  proof (cases "w = []")
    case True
    then have "x = replicate 12 1" using ones by blast
    then show ?thesis using w(1,3) True norm
      by (simp add: audit_twelve_state_def note_witness_def Let_def port_count_def)
  next
    case False
    moreover have "\<not> squared_norm x \<le> squared_norm y" using False w(4) by linarith
    moreover have "x \<noteq> replicate 12 1" using False ones by blast
    ultimately show ?thesis using w(1,3)
      by (simp add: audit_twelve_state_def note_witness_def Let_def)
  qed
qed

lemma audit_all_twelve:
  "\<forall>x \<in> set xs. in_sector 12 x \<Longrightarrow> distinct xs \<Longrightarrow>
    \<exists>a'. audit_all (audit_twelve_state (seam_directions port_seams) (port_adjacency port_seams)) xs a = Some (Inr a') \<and>
      states_checked a' = states_checked a + length xs \<and>
      settled_states a' = settled_states a + (if replicate 12 1 \<in> set xs then 1 else 0) \<and>
      progress_states a' + settled_states a' = progress_states a + settled_states a + length xs"
proof (induction xs arbitrary: a)
  case (Cons x xs)
  obtain a1 where a1: "audit_twelve_state (seam_directions port_seams) (port_adjacency port_seams) a x = Some (Inr a1)"
    "states_checked a1 = states_checked a + 1"
    "settled_states a1 = settled_states a + (if x = replicate 12 1 then 1 else 0)"
    "progress_states a1 = progress_states a + (if x = replicate 12 1 then 0 else 1)"
    using audit_twelve_state_eq [of x a] Cons.prems(1) by auto
  obtain a2 where a2: "audit_all (audit_twelve_state (seam_directions port_seams) (port_adjacency port_seams)) xs a1 = Some (Inr a2)"
    "states_checked a2 = states_checked a1 + length xs"
    "settled_states a2 = settled_states a1 + (if replicate 12 1 \<in> set xs then 1 else 0)"
    "progress_states a2 + settled_states a2 = progress_states a1 + settled_states a1 + length xs"
    using Cons.IH [of a1] Cons.prems by auto
  show ?case using a1 a2 Cons.prems(2) by (intro exI [of _ a2]) auto
qed simp

lemma combinations_length: "length (combinations xs k) = length xs choose k"
  by (induction xs k rule: combinations.induct) simp_all

lemma compositions_length: "length (compositions n (Suc k)) = (n + k) choose k"
  using arg_cong [OF weak_compositions_eq [of n k], of length]
  by (simp add: weak_compositions_def combinations_length)

lemma exhaustive_twelve:
  "\<exists>a. exhaustive_total_twelve_progress_audit = Some (Inr a) \<and> states_checked a = 1352078 \<and> settled_states a = 1 \<and>
    progress_states a = 1352077"
proof -
  have c: "compositions 12 port_count = compositions 12 (Suc 11)" by (simp add: port_count_def)
  have sec: "\<forall>x \<in> set (compositions 12 port_count). in_sector 12 x"
    using compositions_set [of 12 11] unfolding c by (auto simp: in_sector_def)
  have dist: "distinct (compositions 12 port_count)"
    using compositions_ascending [of 12 11] unfolding c by (simp add: strict_sorted_iff del: compositions.simps)
  have "replicate 12 1 \<in> set (compositions 12 port_count)"
    unfolding c compositions_set by (simp add: sum_list_replicate)
  moreover have len: "length (compositions 12 port_count) = 23 choose 11"
    unfolding c compositions_length by (simp only: numeral_plus_numeral add_num_simps)
  ultimately obtain a where a: "audit_all (audit_twelve_state (seam_directions port_seams) (port_adjacency port_seams))
      (compositions 12 port_count) empty_audit = Some (Inr a)"
    "states_checked a = 23 choose 11" "settled_states a = 1" "progress_states a + settled_states a = 23 choose 11"
    using audit_all_twelve [OF sec dist, of empty_audit] unfolding len by (auto simp: empty_audit_def simp del: binomial_Suc_Suc)
  have "(23 :: nat) choose 11 = 1352078" by (subst binomial_fact') (simp_all add: fact_numeral)
  then show ?thesis using a by (intro exI [of _ a]) (simp add: exhaustive_total_twelve_progress_audit_def)
qed

lemma audit_signed_state_eq:
  assumes len: "length x = 12"
  shows "\<exists>a'. audit_signed_state (seam_directions port_seams) (port_adjacency port_seams) a x = Some (Inr a') \<and>
    states_checked a' = states_checked a + 1 \<and> totals_seen a' = insert (sum_list x) (totals_seen a) \<and>
    settled_states a' = settled_states a + (if Max (set x) - Min (set x) \<le> 1 then 1 else 0) \<and>
    progress_states a' = progress_states a + (if Max (set x) - Min (set x) \<le> 1 then 0 else 1)"
proof -
  obtain w y where w: "construct_integer_progress_witness x (seam_directions port_seams) (port_adjacency port_seams) = Some (Inr w)"
    "w = [] \<longleftrightarrow> Max (set x) - Min (set x) \<le> 1" "run_witness False (squared_norm x) w x = Inr y"
    "w \<noteq> [] \<longrightarrow> squared_norm y \<le> squared_norm x - 2"
    using construct_witness [OF len, of False] by blast
  show ?thesis
  proof (cases "w = []")
    case True
    then show ?thesis using w(1,2,3) by (simp add: audit_signed_state_def note_witness_def Let_def)
  next
    case False
    moreover have "\<not> squared_norm x \<le> squared_norm y" using False w(4) by linarith
    ultimately show ?thesis using w(1-3) by (simp add: audit_signed_state_def note_witness_def Let_def)
  qed
qed

lemma audit_all_signed:
  "\<forall>x \<in> set xs. length x = 12 \<Longrightarrow>
    \<exists>a'. audit_all (audit_signed_state (seam_directions port_seams) (port_adjacency port_seams)) xs a = Some (Inr a') \<and>
      states_checked a' = states_checked a + length xs \<and> totals_seen a' = totals_seen a \<union> sum_list ` set xs \<and>
      settled_states a' = settled_states a + length (filter (\<lambda>x. Max (set x) - Min (set x) \<le> 1) xs) \<and>
      progress_states a' + settled_states a' = progress_states a + settled_states a + length xs"
proof (induction xs arbitrary: a)
  case (Cons x xs)
  obtain a1 where a1: "audit_signed_state (seam_directions port_seams) (port_adjacency port_seams) a x = Some (Inr a1)"
    "states_checked a1 = states_checked a + 1" "totals_seen a1 = insert (sum_list x) (totals_seen a)"
    "settled_states a1 = settled_states a + (if Max (set x) - Min (set x) \<le> 1 then 1 else 0)"
    "progress_states a1 = progress_states a + (if Max (set x) - Min (set x) \<le> 1 then 0 else 1)"
    using audit_signed_state_eq [of x a] Cons.prems(1) by auto
  obtain a2 where a2: "audit_all (audit_signed_state (seam_directions port_seams) (port_adjacency port_seams)) xs a1 = Some (Inr a2)"
    "states_checked a2 = states_checked a1 + length xs" "totals_seen a2 = totals_seen a1 \<union> sum_list ` set xs"
    "settled_states a2 = settled_states a1 + length (filter (\<lambda>x. Max (set x) - Min (set x) \<le> 1) xs)"
    "progress_states a2 + settled_states a2 = progress_states a1 + settled_states a1 + length xs"
    using Cons.IH [of a1] Cons.prems by auto
  show ?case using a1 a2 by (intro exI [of _ a2]) auto
qed simp

lemma product_lists_set: "set (product_lists vs n) = {x. length x = n \<and> set x \<subseteq> set vs}"
proof (induction n)
  case (Suc n)
  show ?case
  proof (intro set_eqI iffI)
    fix x
    assume "x \<in> {x. length x = Suc n \<and> set x \<subseteq> set vs}"
    then show "x \<in> set (product_lists vs (Suc n))" using Suc by (cases x) auto
  qed (use Suc in auto)
qed auto

lemma product_lists_length: "length (product_lists vs n) = length vs ^ n"
proof (induction n)
  case (Suc n)
  have "length (concat (map (\<lambda>v. map ((#) v) (product_lists vs n)) us)) = length us * length (product_lists vs n)" for us
    by (induction us) simp_all
  then show ?case using Suc by simp
qed simp

lemma signed_totals: "sum_list ` {x. length x = n \<and> set x \<subseteq> {- 1, 0, 1}} = {- int n..int n}"
proof (intro set_eqI iffI)
  fix t
  assume "t \<in> sum_list ` {x. length x = n \<and> set x \<subseteq> {- 1, 0, 1 :: int}}"
  then obtain x where x: "t = sum_list x" "length x = n" "set x \<subseteq> {- 1, 0, 1}" by blast
  have "- int (length x) \<le> sum_list x \<and> sum_list x \<le> int (length x)" using x(3) by (induction x) auto
  with x show "t \<in> {- int n..int n}" by simp
next
  fix t
  assume t: "t \<in> {- int n..int n}"
  define k where "k = nat \<bar>t\<bar>"
  have k: "k \<le> n" using t by (auto simp: k_def)
  let ?x = "replicate k (if 0 \<le> t then 1 else - 1) @ replicate (n - k) (0 :: int)"
  have "sum_list ?x = t" by (simp add: sum_list_replicate k_def)
  moreover have "length ?x = n" "set ?x \<subseteq> {- 1, 0, 1}" using k by auto
  ultimately show "t \<in> sum_list ` {x. length x = n \<and> set x \<subseteq> {- 1, 0, 1}}"
    by (intro image_eqI [of _ _ ?x]) simp_all
qed

lemma exhaustive_signed:
  "\<exists>a. exhaustive_signed_cube_progress_audit = Some (Inr a) \<and> states_checked a = 531441 \<and>
    settled_states a + progress_states a = 531441"
proof -
  let ?xs = "product_lists [- 1, 0, 1] port_count"
  have len: "\<forall>x \<in> set ?xs. length x = 12" unfolding product_lists_set by (simp add: port_count_def)
  have size: "length ?xs = 3 ^ port_count" unfolding product_lists_length by (simp add: numeral_3_eq_3)
  have totals: "sum_list ` set ?xs = {- 12..12}" unfolding product_lists_set using signed_totals [of 12] by (simp add: port_count_def)
  obtain a where a: "audit_all (audit_signed_state (seam_directions port_seams) (port_adjacency port_seams)) ?xs empty_audit = Some (Inr a)"
    "states_checked a = 3 ^ port_count" "totals_seen a = {- 12..12}"
    "progress_states a + settled_states a = 3 ^ port_count"
    using audit_all_signed [OF len, of empty_audit] unfolding size totals by (auto simp: empty_audit_def)
  have "set (map (\<lambda>i. int i - 12) [0..<25]) = {- 12..12}"
  proof (intro set_eqI iffI)
    fix t :: int
    assume "t \<in> {- 12..12}"
    then have "t = int (nat (t + 12)) - 12" "nat (t + 12) \<in> set [0..<25]" by auto
    then show "t \<in> set (map (\<lambda>i. int i - 12) [0..<25])" unfolding set_map by (rule image_eqI)
  qed auto
  then show ?thesis using a by (intro exI [of _ a]) (simp add: exhaustive_signed_cube_progress_audit_def port_count_def)
qed

section \<open>Every state reaches the shell\<close>

definition shell :: "loads \<Rightarrow> bool" where
  "shell x \<longleftrightarrow> Max (set x) - Min (set x) \<le> 1"

text \<open>One balance of a directed seam, as the possible outcomes of the laboratory.\<close>

inductive balance_steps :: "loads \<Rightarrow> loads \<Rightarrow> bool" where
  settled_here: "balance_steps x x"
| balance_then: "e \<in> set directed_labels \<Longrightarrow> local_outcomes ''directed_balanced'' x e = Inr [(y, p)] \<Longrightarrow>
    balance_steps y z \<Longrightarrow> balance_steps x z"

lemma balance_steps_trans: "balance_steps x y \<Longrightarrow> balance_steps y z \<Longrightarrow> balance_steps x z"
  by (induction rule: balance_steps.induct) (auto intro: balance_steps.intros)

lemma balance_outcome: "local_outcomes ''directed_balanced'' x e = Inr [(balanced_pair x e, 1)]"
  using balanced_outcome [of x "fst e" "snd e"] by (simp add: balanced_pair_def)

lemma run_witness_steps:
  "run_witness single before w x = Inr y \<Longrightarrow> set w \<subseteq> set directed_labels \<Longrightarrow> balance_steps x y"
proof (induction w arbitrary: x)
  case Nil
  then show ?case by (simp add: balance_steps.settled_here)
next
  case (Cons e w)
  then have "balance_steps (balanced_pair x e) y" by (auto simp: run_witness_Cons split: if_splits)
  moreover have "e \<in> set directed_labels" using Cons.prems(2) by simp
  ultimately show ?case by (rule balance_steps.balance_then [rotated 2]) (rule balance_outcome)
qed

lemma reaches_shell:
  "length x = 12 \<Longrightarrow> \<exists>y. balance_steps x y \<and> shell y \<and> sum_list y = sum_list x \<and> length y = 12 \<and> stays_within x y"
proof (induction "nat (squared_norm x)" arbitrary: x rule: less_induct)
  case less
  obtain w y where w: "set w \<subseteq> set directed_labels" "w = [] \<longleftrightarrow> Max (set x) - Min (set x) \<le> 1"
    "run_witness True (squared_norm x) w x = Inr y" "sum_list y = sum_list x" "length y = 12" "stays_within x y"
    "w = [] \<longrightarrow> y = x" "w \<noteq> [] \<longrightarrow> squared_norm y \<le> squared_norm x - 2"
    using construct_witness [OF less.prems, of True] by blast
  show ?case
  proof (cases "w = []")
    case True
    then show ?thesis using w(2) less.prems balance_steps.settled_here
      by (intro exI [of _ x]) (simp add: shell_def)
  next
    case False
    then have "nat (squared_norm y) < nat (squared_norm x)" using w(8) squared_norm_nonneg [of y] by linarith
    from less.hyps [OF this w(5)] obtain z where "balance_steps y z" "shell z" "sum_list z = sum_list y" "length z = 12"
      "stays_within y z" by blast
    then show ?thesis using run_witness_steps [OF w(3,1)] balance_steps_trans stays_within_trans w(4,6) by metis
  qed
qed

section \<open>The shell is one closed class\<close>

lemma balanced_facts:
  assumes "e \<in> set directed_labels" "length x = 12"
  shows "sum_list (balanced_pair x e) = sum_list x" "stays_within x (balanced_pair x e)"
proof -
  have r: "fst e < length x" "snd e < length x" "fst e \<noteq> snd e"
    using label_range [of "fst e" "snd e"] assms by simp_all
  show "sum_list (balanced_pair x e) = sum_list x" by (rule balanced_sum [OF r])
  show "stays_within x (balanced_pair x e)" unfolding stays_within_def using balanced_box [OF _ r(1,2)] by blast
qed

lemma balance_steps_keep: "balance_steps x z \<Longrightarrow> length x = 12 \<Longrightarrow> length z = 12 \<and> sum_list z = sum_list x \<and> stays_within x z"
proof (induction rule: balance_steps.induct)
  case (balance_then e x y p z)
  have y: "y = balanced_pair x e" using balance_then.hyps(2) by (simp add: balance_outcome)
  have "length y = 12" using balance_then.prems by (simp add: y)
  from balance_then.IH [OF this] show ?case
    using balanced_facts [OF balance_then.hyps(1) balance_then.prems] stays_within_trans unfolding y by fastforce
qed simp

lemma shell_bounds: "length (x :: loads) = 12 \<Longrightarrow> shell x \<longleftrightarrow> (\<exists>m. \<forall>v \<in> set x. m \<le> v \<and> v \<le> m + 1)"
proof -
  assume len: "length x = 12"
  then have ne: "set x \<noteq> {}" by auto
  show ?thesis
  proof
    assume "shell x"
    have "\<forall>v \<in> set x. Min (set x) \<le> v \<and> v \<le> Min (set x) + 1"
    proof
      fix v
      assume "v \<in> set x"
      then have "v \<le> Max (set x)" "Min (set x) \<le> v" by simp_all
      with \<open>shell x\<close> show "Min (set x) \<le> v \<and> v \<le> Min (set x) + 1" unfolding shell_def by linarith
    qed
    then show "\<exists>m. \<forall>v \<in> set x. m \<le> v \<and> v \<le> m + 1" by blast
  next
    assume "\<exists>m. \<forall>v \<in> set x. m \<le> v \<and> v \<le> m + 1"
    then obtain m where m: "\<forall>v \<in> set x. m \<le> v \<and> v \<le> m + 1" by blast
    have "a \<le> b + 1" if "a \<in> set x" "b \<in> set x" for a b using m that by (meson add_right_mono order_trans)
    then show "shell x" unfolding shell_def spread_iff [OF len] by blast
  qed
qed

lemma shell_closed:
  assumes "shell x" "length x = 12" "balance_steps x z"
  shows "shell z"
proof -
  obtain m where "\<forall>v \<in> set x. m \<le> v \<and> v \<le> m + 1" using assms(1) shell_bounds [OF assms(2)] by blast
  moreover have "stays_within x z" "length z = 12" using balance_steps_keep [OF assms(3,2)] by auto
  ultimately have "\<forall>v \<in> set z. m \<le> v \<and> v \<le> m + 1" unfolding stays_within_def by blast
  then show ?thesis using shell_bounds [OF \<open>length z = 12\<close>] by blast
qed

text \<open>A ceiling can be exchanged with a floor on any other port.\<close>

definition exchanges :: "nat \<Rightarrow> nat \<Rightarrow> bool" where
  "exchanges p q \<longleftrightarrow> (\<forall>x m. length x = 12 \<longrightarrow> (\<forall>v \<in> set x. v = m \<or> v = m + 1) \<longrightarrow> x ! p = m + 1 \<longrightarrow> x ! q = m \<longrightarrow>
     balance_steps x (x[p := m, q := m + 1]))"

lemma exchanges_seam:
  assumes "q \<in> neighbour_ports p"
  shows "exchanges p q"
  unfolding exchanges_def
proof (intro allI impI)
  fix x :: loads and m
  assume v: "x ! p = m + 1" "x ! q = m"
  have l: "(p, q) \<in> set directed_labels" using assms by (simp add: neighbour_ports_def)
  have h: "(m + 1 + m) div 2 = m" by simp
  have "balanced_pair x (p, q) = x[p := m, q := m + 1]" unfolding balanced_pair_def fst_conv snd_conv v h by simp
  then show "balance_steps x (x[p := m, q := m + 1])"
    using balance_steps.balance_then [OF l balance_outcome balance_steps.settled_here] by metis
qed

lemma exchanges_trans:
  assumes pq: "exchanges p q" and qr: "exchanges q r" and dif: "p \<noteq> q" "q \<noteq> r" "p \<noteq> r" and range: "p < 12" "q < 12" "r < 12"
  shows "exchanges p r"
  unfolding exchanges_def
proof (intro allI impI)
  fix x :: loads and m
  assume len: "length x = 12" and box: "\<forall>v \<in> set x. v = m \<or> v = m + 1" and p: "x ! p = m + 1" and r: "x ! r = m"
  have upd: "\<forall>v \<in> set (x[i := m, j := m + 1]). v = m \<or> v = m + 1" for i j
  proof -
    have "set (x[i := m, j := m + 1]) \<subseteq> insert (m + 1) (insert m (set x))"
      by (meson insert_mono order_trans set_update_subset_insert)
    then show ?thesis using box by blast
  qed
  have "x ! q \<in> set x" using len range by simp
  then consider "x ! q = m" | "x ! q = m + 1" using box by blast
  then show "balance_steps x (x[p := m, r := m + 1])"
  proof cases
    case 1
    let ?y = "x[p := m, q := m + 1]"
    have "balance_steps x ?y" using pq len box p 1 unfolding exchanges_def by blast
    moreover have "balance_steps ?y (?y[q := m, r := m + 1])"
      by (rule qr [unfolded exchanges_def, rule_format]) (use upd [of p q] len dif range r in auto)
    moreover have "?y[q := m, r := m + 1] = x[p := m, r := m + 1]"
    proof (rule nth_equalityI)
      fix i
      assume "i < length (?y[q := m, r := m + 1])"
      then show "?y[q := m, r := m + 1] ! i = x[p := m, r := m + 1] ! i"
        using dif 1 range len by (cases "i = q"; cases "i = p"; cases "i = r") simp_all
    qed simp
    ultimately show ?thesis using balance_steps_trans by simp
  next
    case 2
    let ?y = "x[q := m, r := m + 1]"
    have "balance_steps x ?y" using qr len box r 2 unfolding exchanges_def by blast
    moreover have "balance_steps ?y (?y[p := m, q := m + 1])"
      by (rule pq [unfolded exchanges_def, rule_format]) (use upd [of q r] len dif range p in auto)
    moreover have "?y[p := m, q := m + 1] = x[p := m, r := m + 1]"
    proof (rule nth_equalityI)
      fix i
      assume "i < length (?y[p := m, q := m + 1])"
      then show "?y[p := m, q := m + 1] ! i = x[p := m, r := m + 1] ! i"
        using dif 2 range len by (cases "i = q"; cases "i = p"; cases "i = r") simp_all
    qed simp
    ultimately show ?thesis using balance_steps_trans by simp
  qed
qed

lemma exchanges_all:
  assumes "p < 12" "q < 12" "p \<noteq> q"
  shows "exchanges p q"
proof -
  let ?A = "{q. q < 12 \<and> (q = p \<or> exchanges p q)}"
  have "{..<12} \<subseteq> ?A"
  proof (rule connected_ports [OF assms(1)])
    show "p \<in> ?A" using assms(1) by simp
    fix a
    assume a: "a \<in> ?A"
    show "neighbour_ports a \<subseteq> ?A"
    proof
      fix b
      assume b: "b \<in> neighbour_ports a"
      then have r: "b < 12" "a \<noteq> b" using neighbour_ports_sub by auto
      have "b = p \<or> exchanges p b"
        using a exchanges_seam [OF b] exchanges_trans [of p a b] assms(1) r by (cases "a = p") auto
      with r show "b \<in> ?A" by simp
    qed
  qed
  then show ?thesis using assms by auto
qed

lemma sum_list_less:
  fixes x y :: "int list"
  shows "length x = length y \<Longrightarrow> \<forall>i < length x. x ! i \<le> y ! i \<Longrightarrow> sum_list x = sum_list y \<Longrightarrow> x = y"
proof (induction x y rule: list_induct2)
  case (Cons a x b y)
  have le: "\<forall>i < length x. x ! i \<le> y ! i" using Cons.prems(1) by fastforce
  have "sum_list x \<le> sum_list y"
    using sum_list_mono2 [of x y] Cons.hyps le by (simp add: list_all2_conv_all_nth)
  moreover have "a \<le> b" using Cons.prems(1) by fastforce
  ultimately have "a = b" "sum_list x = sum_list y" using Cons.prems(2) by auto
  with Cons.IH le show ?case by simp
qed simp

lemma same_box_steps:
  "length x = 12 \<Longrightarrow> length y = 12 \<Longrightarrow> \<forall>v \<in> set x. v = m \<or> v = m + 1 \<Longrightarrow> \<forall>v \<in> set y. v = m \<or> v = m + 1 \<Longrightarrow>
    sum_list x = sum_list y \<Longrightarrow> balance_steps x y"
proof (induction "card {i. i < 12 \<and> x ! i \<noteq> y ! i}" arbitrary: x rule: less_induct)
  case less
  show ?case
  proof (cases "x = y")
    case False
    have vx: "x ! i = m \<or> x ! i = m + 1" and vy: "y ! i = m \<or> y ! i = m + 1" if "i < 12" for i
      using less.prems that by simp_all
    obtain p where p: "p < 12" "y ! p < x ! p"
      using sum_list_less [of x y] False less.prems by (metis not_le)
    obtain q where q: "q < 12" "x ! q < y ! q"
      using sum_list_less [of y x] False less.prems by (metis not_le)
    have pq: "x ! p = m + 1" "y ! p = m" "x ! q = m" "y ! q = m + 1" "p \<noteq> q"
      using p q vx [of p] vy [of p] vx [of q] vy [of q] by auto
    let ?z = "x[p := m, q := m + 1]"
    have step: "balance_steps x ?z"
      using exchanges_all [OF p(1) q(1) pq(5)] less.prems(1,3) pq(1,3) unfolding exchanges_def by blast
    have same: "\<forall>v \<in> set ?z. v = m \<or> v = m + 1"
    proof -
      have "set ?z \<subseteq> insert (m + 1) (insert m (set x))" by (meson insert_mono order_trans set_update_subset_insert)
      then show ?thesis using less.prems(3) by blast
    qed
    have "{i. i < 12 \<and> ?z ! i \<noteq> y ! i} \<subset> {i. i < 12 \<and> x ! i \<noteq> y ! i}"
    proof
      show "{i. i < 12 \<and> ?z ! i \<noteq> y ! i} \<subseteq> {i. i < 12 \<and> x ! i \<noteq> y ! i}"
        using pq p(1) q(1) less.prems(1) by (auto simp: nth_list_update split: if_splits)
      have "p \<in> {i. i < 12 \<and> x ! i \<noteq> y ! i}" "p \<notin> {i. i < 12 \<and> ?z ! i \<noteq> y ! i}"
        using pq p(1) less.prems(1) by auto
      then show "{i. i < 12 \<and> ?z ! i \<noteq> y ! i} \<noteq> {i. i < 12 \<and> x ! i \<noteq> y ! i}" by blast
    qed
    then have "card {i. i < 12 \<and> ?z ! i \<noteq> y ! i} < card {i. i < 12 \<and> x ! i \<noteq> y ! i}" by (intro psubset_card_mono) simp_all
    from less.hyps [OF this _ less.prems(2) same less.prems(4)] have "balance_steps ?z y"
      using less.prems(1,5) balance_steps_keep [OF step less.prems(1)] by simp
    then show ?thesis by (rule balance_steps_trans [OF step])
  qed (simp add: balance_steps.settled_here)
qed

lemma shell_one_class:
  assumes x: "shell x" "length x = 12" and y: "shell y" "length y = 12" and s: "sum_list x = sum_list y"
  shows "balance_steps x y"
proof -
  have sums: "12 * m \<le> sum_list z \<and> sum_list z \<le> 12 * (m + 1)" if "\<forall>v \<in> set z. m \<le> v \<and> v \<le> m + 1" "length z = 12" for z :: loads and m
  proof -
    have "int (length zs) * m \<le> sum_list zs \<and> sum_list zs \<le> int (length zs) * (m + 1)"
      if "\<forall>v \<in> set zs. m \<le> v \<and> v \<le> m + 1" for zs using that by (induction zs) (auto simp: algebra_simps)
    from this [OF that(1)] that(2) show ?thesis by simp
  qed
  obtain a where a: "\<forall>v \<in> set x. a \<le> v \<and> v \<le> a + 1" using x shell_bounds by blast
  obtain b where b: "\<forall>v \<in> set y. b \<le> v \<and> v \<le> b + 1" using y shell_bounds by blast
  have two: "v = m \<or> v = m + 1" if "m \<le> v \<and> v \<le> m + 1" for v m :: int using that by linarith
  consider "a = b" | "a < b" | "b < a" by linarith
  then show ?thesis
  proof cases
    case 1
    then show ?thesis using same_box_steps [OF x(2) y(2), of a] a b s two by blast
  next
    case 2
    have "x = y"
    proof (rule sum_list_less)
      show "\<forall>i < length x. x ! i \<le> y ! i"
      proof (intro allI impI)
        fix i
        assume "i < length x"
        then have "x ! i \<le> a + 1" "b \<le> y ! i" using a b x(2) y(2) by simp_all
        with 2 show "x ! i \<le> y ! i" by linarith
      qed
    qed (use x y s in simp_all)
    then show ?thesis by (simp add: balance_steps.settled_here)
  next
    case 3
    have "y = x"
    proof (rule sum_list_less)
      show "\<forall>i < length y. y ! i \<le> x ! i"
      proof (intro allI impI)
        fix i
        assume "i < length y"
        then have "y ! i \<le> b + 1" "a \<le> x ! i" using a b x(2) y(2) by simp_all
        with 3 show "y ! i \<le> x ! i" by linarith
      qed
    qed (use x y s in simp_all)
    then show ?thesis by (simp add: balance_steps.settled_here)
  qed
qed

end
