(* ===== verification/Sector_Properties.thy ===== *)
theory Sector_Properties
  imports Tilted_Paths Seam_Progress
begin

text \<open>
  The properties of the exact repair kernel and of its progress construction: the sector and its moves,
  the potentials that allow a tilt, the absorbing states, termination, the solved expectations, the law of
  label paths and the audits.  Each has a witness where it has a hypothesis.
\<close>

section \<open>The carrier and its moves\<close>

text \<open>The two generators of a protected sector, stars and bars and the recursive one, list the same
  states in opposite order; the list is strictly ascending, holds exactly the vectors of nonnegative
  loads with the given total, and has the binomial number of entries.
\<close>

theorem sector_enumerated_twice:
  "weak_compositions n (Suc k) = rev (compositions n (Suc k)) \<and> sorted_wrt (<) (compositions n (Suc k)) \<and>
    set (compositions n (Suc k)) = {x. length x = Suc k \<and> set x \<subseteq> {0..} \<and> sum_list x = int n} \<and>
    length (compositions n (Suc k)) = (n + k) choose k \<and>
    enumerate_protected_sector load = (if load < 0 then Inl ValueError
      else Inr (rev (weak_compositions (nat load) port_count)))"
  using weak_compositions_eq [of n k] weak_compositions_eq [of "nat load" 11] compositions_ascending [of n k]
    compositions_length [of n k]
  by (auto simp: compositions_set enumerate_protected_sector_def port_count_def)

text \<open>
  A label on a state of a sector waits exactly when the two loads differ by at most one; otherwise it
  replaces them by the ceiling and the floor of their mean.  It stays in the sector, changes the squared
  norm by the closed form, and the literal move differs from it exactly on a pair that ascends by one,
  which it swaps.
\<close>

theorem label_moves_exact:
  assumes "in_sector n x" "(c, p) \<in> set directed_labels"
  shows "in_sector n (apply_label x (c, p)) \<and> (apply_label x (c, p) = x \<longleftrightarrow> \<bar>x ! c - x ! p\<bar> \<le> 1) \<and>
    squared_norm (apply_label x (c, p)) - squared_norm x = closed_form_dv \<bar>x ! c - x ! p\<bar> \<and>
    apply_label x (c, p) = (if \<bar>x ! c - x ! p\<bar> \<le> 1 then x
      else x[c := \<lceil>of_int (x ! c + x ! p) / (2 :: rat)\<rceil>, p := \<lfloor>of_int (x ! c + x ! p) / (2 :: rat)\<rfloor>]) \<and>
    apply_label_literal x (c, p) = (if x ! p = x ! c + 1 then x[c := x ! p, p := x ! c] else apply_label x (c, p))"
proof -
  have r: "c < length x" "p < length x" "c \<noteq> p" using label_range [OF assms(2)] assms(1) by (auto simp: in_sector_def)
  have "\<lfloor>of_int s / (2 :: rat)\<rfloor> = s div 2" for s using floor_divide_of_int_eq [of s 2, where 'a = rat] by simp
  moreover have "\<lceil>of_int s / (2 :: rat)\<rceil> = (s + 1) div 2" for s
    using ceiling_divide_eq_div [of s 2, where 'a = rat] by simp
  ultimately show ?thesis
    using in_sector_move [OF assms] squared_norm_move [OF assms] apply_label_eq [of x c p] literal_move [OF r]
    by (simp del: of_int_add)
qed

theorem label_moves_exact_witness:
  "in_sector 7 (apply_label [5, 2, 0, 0, 0, 0, 0, 0, 0, 0, 0, 0] (0, 1))"
proof -
  have "in_sector 7 [5, 2, 0, 0, 0, 0, 0, 0, 0, 0, 0, 0]" by (simp add: in_sector_def)
  moreover have "(0, 1) \<in> set directed_labels" by (simp add: directed_labels_def port_seams_eq)
  ultimately show ?thesis using label_moves_exact [of 7 "[5, 2, 0, 0, 0, 0, 0, 0, 0, 0, 0, 0]" 0 1] by blast
qed

text \<open>C29: On the sector of total \<open>n\<close> the descent flags of the squared norm always hold, those of any other
  potential hold up to total eight and strictly up to total seven; a tilted_kernel is built exactly when its
  potential never rises and is refused with \<open>AssertionError\<close> otherwise.  Every unit transfer is verified
  and every literal move that differs from the declared one is neutral.
\<close>

theorem tilt_exists_exactly:
  "case build_sector n of Inl _ \<Rightarrow> False | Inr S \<Rightarrow>
    (let d = descent_summary S u; strict = (u = PRIMARY_POTENTIAL \<or> n \<le> 7) in
      all_nonpositive d = (u = PRIMARY_POTENTIAL \<or> n \<le> 8) \<and> zero_iff_wait d = strict \<and> changing_all_negative d = strict \<and>
      (case build_kernel n b u of Inl err \<Rightarrow> err = AssertionError \<and> \<not> all_nonpositive d
        | Inr K \<Rightarrow> all_nonpositive d \<and> kernel_potential K = u \<and> kernel_beta K = b)) \<and>
    transfer_verified (unit_transfer_summary S) \<and>
    dv_zero (literal_swap_summary S) = differing (literal_swap_summary S)"
proof -
  obtain S where S: "build_sector n = Inr S" by (rule build_sector_returns)
  have flags: "all_nonpositive (descent_summary S u) = (u = PRIMARY_POTENTIAL \<or> n \<le> 8)"
    "zero_iff_wait (descent_summary S u) = (u = PRIMARY_POTENTIAL \<or> n \<le> 7)"
    "changing_all_negative (descent_summary S u) = (u = PRIMARY_POTENTIAL \<or> n \<le> 7)"
    using primary_descent [OF S] secondary_descent [OF S, of u] by (cases "u = PRIMARY_POTENTIAL"; simp)+
  have "case build_kernel n b u of Inl err \<Rightarrow> err = AssertionError \<and> \<not> all_nonpositive (descent_summary S u)
      | Inr K \<Rightarrow> all_nonpositive (descent_summary S u) \<and> kernel_potential K = u \<and> kernel_beta K = b"
  proof (cases "tiltable n u")
    case True
    then obtain K where K: "build_kernel n b u = Inr K" using build_kernel_returns by blast
    then show ?thesis using True kernel_parts(5,6) [OF S K sector_size_pos [OF S]] by (simp add: tiltable_iff [OF S])
  qed (simp add: build_kernel_refused tiltable_iff [OF S])
  with flags show ?thesis
    by (simp add: S Let_def unit_transfer_verified [OF S] literal_swap_neutral [OF S])
qed

text \<open>C30: The two comparisons of the absorbing states with the predicted ones, the evenly filled shell and
  the states of least squared norm, hold for totals up to six and fail for every larger total; the
  absorbing states are those whose thirty seams all differ by at most one.
\<close>

theorem absorbing_set_exact:
  "case build_sector n of Inl _ \<Rightarrow> False | Inr S \<Rightarrow>
    absorbing_set_is_shell S = (n \<le> 6) \<and> absorbing_set_equals_minimal S = Inr (n \<le> 6) \<and>
    map (nth (sector_states S)) (absorbing_indices S) =
      filter (\<lambda>x. list_all (\<lambda>(i, j). \<bar>x ! i - x ! j\<bar> \<le> 1) port_seams) (weak_compositions n port_count)"
proof -
  obtain S where S: "build_sector n = Inr S" by (rule build_sector_returns)
  have flags: "absorbing_set_is_shell S = (n \<le> 6)" "absorbing_set_equals_minimal S = Inr (n \<le> 6)"
    using absorbing_small [OF S] absorbing_large [OF S] by (cases "n \<le> 6"; simp)+
  have "filter (is_absorbing S) [0..<sector_size S] =
      filter (\<lambda>k. list_all (\<lambda>(i, j). \<bar>sector_states S ! k ! i - sector_states S ! k ! j\<bar> \<le> 1) port_seams) [0..<sector_size S]"
    by (rule filter_cong) (simp_all add: is_absorbing_iff [OF S] settled_def list_all_iff)
  then have "map (nth (sector_states S)) (absorbing_indices S) =
      filter (\<lambda>x. list_all (\<lambda>(i, j). \<bar>x ! i - x ! j\<bar> \<le> 1) port_seams) (map (nth (sector_states S)) [0..<sector_size S])"
    by (simp add: absorbing_indices_def filter_map comp_def)
  then show ?thesis using flags by (simp add: S sector_size_def map_nth sector_parts(1) [OF S])
qed

text \<open>C31: Repair ends from every state of a sector: a run of moves that change the state stays in the sector
  and has at most half the squared norm of its start many moves, and some run ends in a state that every
  label leaves; for totals up to six that state holds only zeros and ones.
\<close>

theorem repairs_terminate:
  assumes "in_sector n x"
  shows "(\<forall>y k. (x, y) \<in> (repair_steps changing_labels apply_label) ^^ k \<longrightarrow>
      in_sector n y \<and> squared_norm y div 2 + int k \<le> squared_norm x div 2) \<and>
    (\<exists>y. (x, y) \<in> (repair_steps changing_labels apply_label)\<^sup>* \<and> in_sector n y \<and> changing_labels y = [] \<and>
      (n \<le> 6 \<longrightarrow> set y \<subseteq> {0, 1}))"
proof (intro conjI allI impI)
  fix y k
  assume run: "(x, y) \<in> (repair_steps changing_labels apply_label) ^^ k"
  then show "in_sector n y" by (meson seam_descent.good_reached relpow_imp_rtrancl assms)
  show "squared_norm y div 2 + int k \<le> squared_norm x div 2"
    using seam_descent.rank_bound [OF run assms] squared_norm_nonneg [of x] squared_norm_nonneg [of y] by linarith
next
  obtain y where y: "(x, y) \<in> (repair_steps changing_labels apply_label)\<^sup>*" "changing_labels y = []"
    using seam_descent.run_ends [OF assms] by blast
  then have s: "in_sector n y" by (meson seam_descent.good_reached assms)
  then have "settled y" using y(2) by (simp add: changing_labels_empty)
  then have "n \<le> 6 \<longrightarrow> set y \<subseteq> {0, 1}" using settled_small [OF s] by blast
  with y s show "\<exists>y. (x, y) \<in> (repair_steps changing_labels apply_label)\<^sup>* \<and> in_sector n y \<and> changing_labels y = [] \<and>
      (n \<le> 6 \<longrightarrow> set y \<subseteq> {0, 1})" by blast
qed

theorem repairs_terminate_witness:
  "\<exists>y. (([3, 0, 0, 0, 0, 0, 0, 0, 0, 0, 0, 0], y) \<in> (repair_steps changing_labels apply_label)\<^sup>*) \<and> set y \<subseteq> {0, 1}"
proof -
  have "in_sector 3 [3, 0, 0, 0, 0, 0, 0, 0, 0, 0, 0, 0]" by (simp add: in_sector_def)
  from repairs_terminate [OF this] show ?thesis by auto
qed

lemma seam_mean_term:
  "(if p = i \<or> p = j then of_int (a + b) / 2 else of_int z :: rat) =
     of_int z + of_int ((b - a) * (of_bool (i = p) - of_bool (j = p))) / 2"
  if "i \<noteq> j" "p = i \<Longrightarrow> z = a" "p = j \<Longrightarrow> z = b" for p i j :: nat
  using that by (auto simp: field_simps)

text \<open>C36: A uniform attempt on one of the thirty seams is one step of the Laplacian on average: the mean of
  every load after the attempt is the load minus a sixtieth of five times it less its neighbours, for all
  integer states, although the attempt itself rounds.
\<close>

theorem attempt_mean_step:
  assumes "length x = port_count" "p < port_count"
  shows "\<exists>ds. rmap (balanced_seam_attempt_outcomes x) port_seams = Inr ds \<and> list_all (\<lambda>d. dict_total d = 1) ds \<and>
    sum_list (map (\<lambda>d. 1 / 30 * dict_mean (\<lambda>y. of_int (y ! p)) d) ds) =
      of_int (x ! p) - of_int (5 * x ! p - sum_list (map (nth x) (filter (adjacent p) [0..<port_count]))) / 60"
proof -
  let ?mean = "\<lambda>d. dict_mean (\<lambda>y. of_int (y ! p) :: rat) d"
  let ?turn = "\<lambda>(i, j). (x ! i - x ! j) * (of_bool (i = p) - of_bool (j = p)) :: int"
  define law where "law e = (case balanced_seam_attempt_outcomes x e of Inl _ \<Rightarrow> [] | Inr d \<Rightarrow> d)" for e
  have law: "balanced_seam_attempt_outcomes x e = Inr (law e)" "dict_total (law e) = 1"
    "?mean (law e) = of_int (x ! p) - of_int (?turn e) / 2" if e: "e \<in> set port_seams" for e
  proof -
    obtain i j where ij: "e = (i, j)" by (cases e)
    have r: "i \<noteq> j" "i < 12" "j < 12" using seam_range [of i j] e ij by auto
    obtain d where d: "balanced_seam_attempt_outcomes x (i, j) = Inr d" "dict_total d = 1"
      "?mean d = (if p = i \<or> p = j then of_int (x ! i + x ! j) / 2 else of_int (x ! p))"
      using attempt_mean [of i j x p] e assms unfolding ij by blast
    show "balanced_seam_attempt_outcomes x e = Inr (law e)" "dict_total (law e) = 1" using d by (simp_all add: ij law_def)
    have "?mean d = of_int (x ! p) + of_int ((x ! j - x ! i) * (of_bool (i = p) - of_bool (j = p))) / 2"
      unfolding d(3) by (rule seam_mean_term) (use r in auto)
    then show "?mean (law e) = of_int (x ! p) - of_int (?turn e) / 2" using d(1) by (simp add: ij law_def field_simps of_bool_def)
  qed
  have sum: "(\<And>e. e \<in> set es \<Longrightarrow> ?mean (law e) = of_int (x ! p) - of_int (?turn e) / 2) \<Longrightarrow>
      sum_list (map (\<lambda>e. 1 / 30 * ?mean (law e)) es) =
        of_nat (length es) / 30 * of_int (x ! p) - of_int (sum_list (map ?turn es)) / 60" for es
  proof (induction es)
    case (Cons e es)
    have "sum_list (map (\<lambda>e. 1 / 30 * ?mean (law e)) es) =
        of_nat (length es) / 30 * of_int (x ! p) - of_int (sum_list (map ?turn es)) / 60" using Cons by simp
    then show ?case using Cons.prems [of e] by (simp add: field_simps)
  qed simp
  have "sum_list (map (nth x) (filter (adjacent p) [0..<port_count])) = (\<Sum>q \<in> neighbour_ports p. x ! q)"
    by (subst sum_list_distinct_conv_sum_set)
      (auto simp: neighbour_ports_list adjacent_def label_iff port_count_def intro!: sum.cong)
  then have slope: "sum_list (map ?turn port_seams) = 5 * x ! p - sum_list (map (nth x) (filter (adjacent p) [0..<port_count]))"
    using port_slope_eq [of p x] assms(2) by (simp add: port_slope_def port_count_def)
  have "length port_seams = 30" by (simp add: port_seams_eq)
  then have "sum_list (map (\<lambda>d. 1 / 30 * ?mean d) (map law port_seams)) = of_int (x ! p) -
      of_int (5 * x ! p - sum_list (map (nth x) (filter (adjacent p) [0..<port_count]))) / 60"
    using sum [of port_seams] law(3) unfolding slope by (simp add: comp_def)
  moreover have "rmap (balanced_seam_attempt_outcomes x) port_seams = Inr (map law port_seams)"
    by (rule rmap_Inr_map) (rule law(1))
  ultimately show ?thesis using law(2) by (auto simp: list_all_iff)
qed

theorem attempt_mean_step_witness:
  "\<exists>ds. rmap (balanced_seam_attempt_outcomes [3, 0, 0, 0, 0, 0, 0, 0, 0, 0, 0, - 2]) port_seams = Inr ds"
  using attempt_mean_step [of "[3, 0, 0, 0, 0, 0, 0, 0, 0, 0, 0, - 2]" 0] by (auto simp: port_count_def)

section \<open>The tilted kernel\<close>

lemma states_map_iff:
  assumes "length ts = sector_size S"
  shows "(\<forall>k < sector_size S. e (sector_states S ! k) = ts ! k) \<longleftrightarrow> map e (sector_states S) = ts"
  using assms by (auto simp: list_eq_iff_nth_eq sector_size_def)

lemma aggregated_rows_refused: "\<not> tiltable n u \<Longrightarrow> aggregated_rows n b u = Inl AssertionError"
proof -
  assume t: "\<not> tiltable n u"
  obtain S where S: "build_sector n = Inr S" by (rule build_sector_returns)
  show ?thesis using build_kernel_refused [OF t] by (simp add: aggregated_rows_eq [OF S])
qed

text \<open>C32: The expected number of moves is computed exactly when the kernel exists, and the returned list is the
  only solution of the first-step equations: zero on settled states, one plus the mean over the labels
  elsewhere.
\<close>

theorem expected_moves_exact:
  "case build_sector n of Inl _ \<Rightarrow> False | Inr S \<Rightarrow>
    (case expected_moves_to_absorption n b u of
      Inl err \<Rightarrow> err = AssertionError \<and> \<not> tiltable n u
    | Inr ts \<Rightarrow> tiltable n u \<and> (\<forall>e. harmonic n b u (\<lambda>_. 0) 1 e \<longleftrightarrow> map e (sector_states S) = ts))"
proof -
  obtain S where S: "build_sector n = Inr S" by (rule build_sector_returns)
  show ?thesis
  proof (cases "tiltable n u")
    case True
    obtain ts where ts: "expected_moves_to_absorption n b u = Inr ts" "length ts = sector_size S"
      "\<And>e. harmonic n b u (\<lambda>_. 0) 1 e \<longleftrightarrow> (\<forall>k < sector_size S. e (sector_states S ! k) = ts ! k)"
      using expected_moves_solution [OF S True, of b] by blast
    show ?thesis by (simp add: S ts(1) True ts(3) states_map_iff [OF ts(2)])
  next
    case False
    then show ?thesis by (simp add: S expected_moves_to_absorption_def aggregated_rows_refused)
  qed
qed

lemma constant_harmonic:
  assumes "\<And>x. in_sector n x \<Longrightarrow> settled x \<Longrightarrow> boundary x = v"
  shows "harmonic n b u boundary 0 (\<lambda>_. v)"
proof -
  have "label_mean b u (\<lambda>_. v) x = v" for x
    using label_law_sum [of b u x] by (simp add: label_mean_def sum_list_mult_const)
  then show ?thesis using assms by (simp add: harmonic_def)
qed

lemma settled_least:
  assumes S: "build_sector n = Inr S" and n: "n \<le> 6" and x: "in_sector n x" "settled x"
  shows "squared_norm x = int n" "in_sector n y \<Longrightarrow> squared_norm x \<le> squared_norm y"
proof -
  show v: "squared_norm x = int n"
    using settled_small [OF x n] bits_norm [of x] x(1) by (simp add: in_sector_def)
  show "in_sector n y \<Longrightarrow> squared_norm x \<le> squared_norm y"
    using v norm_at_least_sum [of y] by (simp add: in_sector_def)
qed

text \<open>C33: The four terminal statistics are computed exactly when the kernel exists, and each is the only
  solution of the equations that average over the labels, with the value of the settled states on the
  boundary: being minimal for either potential, and the two potentials themselves.  Up to total six every
  repair ends in a state of least squared norm, whose value is the total.
\<close>

theorem terminal_statistics_exact:
  "case build_sector n of Inl _ \<Rightarrow> False | Inr S \<Rightarrow>
    (case terminal_functionals n b u of
      Inl err \<Rightarrow> err = AssertionError \<and> \<not> tiltable n u
    | Inr T \<Rightarrow> tiltable n u \<and>
       (\<forall>e. harmonic n b u (\<lambda>x. of_bool (list_all (\<lambda>y. seam_phi x \<le> seam_phi y) (sector_states S))) 0 e \<longleftrightarrow>
         map e (sector_states S) = g_phi T) \<and>
       (\<forall>e. harmonic n b u (\<lambda>x. of_bool (list_all (\<lambda>y. squared_norm x \<le> squared_norm y) (sector_states S))) 0 e \<longleftrightarrow>
         map e (sector_states S) = g_v T) \<and>
       (\<forall>e. harmonic n b u (\<lambda>x. of_int (seam_phi x)) 0 e \<longleftrightarrow> map e (sector_states S) = h_phi T) \<and>
       (\<forall>e. harmonic n b u (\<lambda>x. of_int (squared_norm x)) 0 e \<longleftrightarrow> map e (sector_states S) = h_v T) \<and>
       (if n \<le> 6 then g_v T = replicate (sector_size S) 1 \<and> h_v T = replicate (sector_size S) (of_nat n) else True))"
proof -
  obtain S where S: "build_sector n = Inr S" by (rule build_sector_returns)
  show ?thesis
  proof (cases "tiltable n u")
    case t: True
    have least: "(\<forall>y. in_sector n y \<longrightarrow> f x \<le> f y) \<longleftrightarrow> list_all (\<lambda>y. f x \<le> f y) (sector_states S)"
      for f :: "loads \<Rightarrow> int" and x
      using sector_states_iff [OF S] by (auto simp: list_all_iff)
    have v: "state_value SECONDARY_POTENTIAL = seam_phi"
      by (simp add: state_value_def [abs_def] PRIMARY_POTENTIAL_def SECONDARY_POTENTIAL_def)
    obtain T where T: "terminal_functionals n b u = Inr T"
      and len: "length (g_phi T) = sector_size S" "length (g_v T) = sector_size S" "length (h_phi T) = sector_size S"
        "length (h_v T) = sector_size S"
      and e: "\<And>e. harmonic n b u (\<lambda>x. of_bool (list_all (\<lambda>y. seam_phi x \<le> seam_phi y) (sector_states S))) 0 e \<longleftrightarrow>
          map e (sector_states S) = g_phi T"
        "\<And>e. harmonic n b u (\<lambda>x. of_bool (list_all (\<lambda>y. squared_norm x \<le> squared_norm y) (sector_states S))) 0 e \<longleftrightarrow>
          map e (sector_states S) = g_v T"
        "\<And>e. harmonic n b u (\<lambda>x. of_int (seam_phi x)) 0 e \<longleftrightarrow> map e (sector_states S) = h_phi T"
        "\<And>e. harmonic n b u (\<lambda>x. of_int (squared_norm x)) 0 e \<longleftrightarrow> map e (sector_states S) = h_v T"
    proof (rule terminal_solution [OF S t, of b], unfold v least, goal_cases)
      case (1 T)
      note m = states_map_iff [where S = S]
      show ?case
        by (rule 1(1) [of T]) (use 1(2-6) in \<open>simp_all only: 1(7-10) m [OF 1(3)] m [OF 1(4)] m [OF 1(5)] m [OF 1(6)]\<close>)
    qed
    have "g_v T = replicate (sector_size S) 1 \<and> h_v T = replicate (sector_size S) (of_nat n)" if n: "n \<le> 6"
    proof
      have "harmonic n b u (\<lambda>x. of_bool (list_all (\<lambda>y. squared_norm x \<le> squared_norm y) (sector_states S))) 0 (\<lambda>_. 1)"
        by (rule constant_harmonic) (simp add: list_all_iff sector_states_iff [OF S] settled_least(2) [OF S n])
      then show "g_v T = replicate (sector_size S) 1" unfolding e(2) by (simp add: map_replicate_const sector_size_def)
      have "harmonic n b u (\<lambda>x. of_int (squared_norm x)) 0 (\<lambda>_. of_nat n)"
        by (rule constant_harmonic) (simp add: settled_least(1) [OF S n])
      then show "h_v T = replicate (sector_size S) (of_nat n)" unfolding e(4) by (simp add: map_replicate_const sector_size_def)
    qed
    then show ?thesis by (simp add: S T t e)
  next
    case False
    then show ?thesis by (simp add: S terminal_functionals_def aggregated_rows_refused)
  qed
qed

text \<open>
  Where the kernel exists, every label row and every aggregated row sums to one, the schedule is
  uniform exactly for temperature zero, and no edge between different states can be traversed backwards,
  so detailed balance is impossible; otherwise both reports are refused.
\<close>

theorem kernel_rows_exact:
  "if tiltable n u
    then kernel_summary n b u = Inr \<lparr>label_rows_sum_to_one = True, state_rows_sum_to_one = True, uniform_schedule = (b = 0)\<rparr> \<and>
      (case reversibility_summary n b u of Inl _ \<Rightarrow> False
        | Inr r \<Rightarrow> reversed_edges r = 0 \<and> \<not> balance_possible r \<and> transient_normalized r)
    else kernel_summary n b u = Inl AssertionError \<and> reversibility_summary n b u = Inl AssertionError"
proof -
  obtain S where S: "build_sector n = Inr S" by (rule build_sector_returns)
  show ?thesis
  proof (cases "tiltable n u")
    case True
    then show ?thesis using reversibility_holds [OF True, of b] by (auto simp: kernel_summary_eq)
  next
    case False
    then show ?thesis
      by (simp add: kernel_summary_def reversibility_summary_def S aggregated_rows_refused build_kernel_refused)
  qed
qed

section \<open>Label paths\<close>

text \<open>The probability and the end of a word of labels, over states.\<close>

fun word_law :: "nat \<Rightarrow> string \<Rightarrow> loads \<Rightarrow> seam list \<Rightarrow> rat" where
  "word_law b u x [] = 1"
| "word_law b u x (l # w) = label_law b u x l * word_law b u (apply_label x l) w"

lemma path_word_law:
  assumes S: "build_sector n = Inr S" and K: "build_kernel n b u = Inr K"
  shows "k < sector_size S \<Longrightarrow> set w \<subseteq> {..<label_count} \<Longrightarrow>
    path_probability S K k w = word_law b u (sector_states S ! k) (map (nth directed_labels) w) \<and>
    path_end S k w < sector_size S \<and> sector_states S ! path_end S k w = fold (\<lambda>m x. apply_label x (directed_labels ! m)) w (sector_states S ! k)"
proof (induction w arbitrary: k)
  case (Cons m w)
  then show ?case using Cons.IH [of "next_state S ! k ! m"]
    by (simp add: next_state_nth [OF S] label_probability_eq [OF S K])
qed simp

lemma leaf_word:
  assumes S: "build_sector n = Inr S" and K: "build_kernel n b u = Inr K" and k: "k < sector_size S"
    and w: "w \<in> set (label_words r)"
  shows "case fold (leaf_step S K) w (1, 1, 0, k) of (num, den, change, last_state) \<Rightarrow>
    num = 2 ^ nat (- int b * change) \<and> of_int num / of_int den = word_law b u (sector_states S ! k) (map (nth directed_labels) w) \<and>
    sector_states S ! last_state = fold (\<lambda>m x. apply_label x (directed_labels ! m)) w (sector_states S ! k)"
proof -
  have w': "set w \<subseteq> {..<label_count}" using w by (simp add: label_words_set)
  from leaf_run [OF S K k w', of 1 0 1] obtain num' den' d' where
    "fold (leaf_step S K) w (1, 1, 0, k) = (num', den', d', path_end S k w)" "num' = 2 ^ nat (- int b * d')"
    "of_int num' / of_int den' = path_probability S K k w" by auto
  then show ?thesis using path_word_law [OF S K k w'] by simp
qed

text \<open>C34: The stack enumerates every word of labels once; a leaf holds the weight and the normalizer of its
  word, whose quotient is the probability of the word, and the state the word leads to.  The path mass of
  a state is the sum of the probabilities of the words that lead to it, and all masses sum to one.
\<close>

theorem path_law_exact:
  assumes S: "build_sector n = Inr S" and K: "build_kernel n b u = Inr K" and k: "k < sector_size S"
  shows "list_all2 (\<lambda>w (num, den, change, last_state).
      num = 2 ^ nat (- int b * change) \<and> of_int num / of_int den = word_law b u (sector_states S ! k) (map (nth directed_labels) w) \<and>
      sector_states S ! last_state = fold (\<lambda>m x. apply_label x (directed_labels ! m)) w (sector_states S ! k))
      (label_words r) (leaf_paths S K k r) \<and>
    set (label_words r) = {w. length w = r \<and> set w \<subseteq> {..<label_count}} \<and> length (label_words r) = label_count ^ r \<and>
    dict_total (path_mass_by_state S K k r) = 1 \<and>
    (\<forall>t < sector_size S. dict_get (path_mass_by_state S K k r) t = sum_list (map (\<lambda>w.
      if fold (\<lambda>m x. apply_label x (directed_labels ! m)) w (sector_states S ! k) = sector_states S ! t
      then word_law b u (sector_states S ! k) (map (nth directed_labels) w) else 0) (label_words r)))"
proof (intro conjI allI impI)
  show "list_all2 (\<lambda>w (num, den, change, last_state).
      num = 2 ^ nat (- int b * change) \<and> of_int num / of_int den = word_law b u (sector_states S ! k) (map (nth directed_labels) w) \<and>
      sector_states S ! last_state = fold (\<lambda>m x. apply_label x (directed_labels ! m)) w (sector_states S ! k))
      (label_words r) (leaf_paths S K k r)"
    unfolding leaf_paths_words list_all2_map2 using leaf_word [OF S K k, of _ r] by (auto intro!: list_all2_refl [THEN list.rel_mono_strong] simp: list.rel_refl_strong list_all2_same)
  fix t
  assume t: "t < sector_size S"
  show "dict_get (path_mass_by_state S K k r) t = sum_list (map (\<lambda>w.
      if fold (\<lambda>m x. apply_label x (directed_labels ! m)) w (sector_states S ! k) = sector_states S ! t
      then word_law b u (sector_states S ! k) (map (nth directed_labels) w) else 0) (label_words r))"
    unfolding dict_get_mean [OF path_mass_distinct] path_mass_mean
  proof (rule arg_cong [where f = sum_list], rule map_cong [OF refl])
    fix w
    assume "w \<in> set (label_words r)"
    then have w: "set w \<subseteq> {..<label_count}" by (simp add: label_words_set)
    note p = path_word_law [OF S K k w]
    have "path_end S k w = t \<longleftrightarrow> sector_states S ! path_end S k w = sector_states S ! t"
      using p t nth_eq_iff_index_eq [OF sector_states_distinct [OF S], of "path_end S k w" t]
      unfolding sector_size_def by blast
    then show "path_probability S K k w * of_bool (path_end S k w = t) =
        (if fold (\<lambda>m x. apply_label x (directed_labels ! m)) w (sector_states S ! k) = sector_states S ! t
          then word_law b u (sector_states S ! k) (map (nth directed_labels) w) else 0)"
      using p by simp
  qed
qed (simp_all add: label_words_set label_words_length path_mass_total [OF S K k])

theorem path_law_exact_witness:
  "\<exists>S K. build_sector 3 = Inr S \<and> build_kernel 3 1 PRIMARY_POTENTIAL = Inr K \<and> dict_total (path_mass_by_state S K 0 4) = 1"
proof -
  obtain S where S: "build_sector 3 = Inr S" by (rule build_sector_returns)
  obtain K where K: "build_kernel 3 1 PRIMARY_POTENTIAL = Inr K"
    using build_kernel_returns [of 3 PRIMARY_POTENTIAL 1] by (auto simp: tiltable_def)
  show ?thesis using path_law_exact [OF S K sector_size_pos [OF S], of 4] S K by blast
qed

text \<open>C35: The derived action and the gauge characterization are verified for every horizon, temperature and
  potential that allows the kernel: the tilt by a constant factor is the path law, the tilt by a factor that
  depends on the first label is not.  The empty horizon raises \<open>IndexError\<close> in the gauge check, and a
  total other than three is refused.
\<close>

theorem path_checks_hold:
  "(case derived_action_check n b u r of Inl err \<Rightarrow> err = (if tiltable n u then ValueError else AssertionError) \<and> \<not> (n = 3)
      | Inr a \<Rightarrow> n = 3 \<and> action_verified a) \<and>
    (case gauge_check 3 b u r of Inl err \<Rightarrow> r = 0 \<and> err = IndexError
      | Inr g \<Rightarrow> 0 < r \<and> gauge_verified g \<and> map tilt_equals_law (take 3 (candidates g)) = [True, True, False])"
proof
  have three: "tiltable 3 u" by (simp add: tiltable_def)
  show "case gauge_check 3 b u r of Inl err \<Rightarrow> r = 0 \<and> err = IndexError
      | Inr g \<Rightarrow> 0 < r \<and> gauge_verified g \<and> map tilt_equals_law (take 3 (candidates g)) = [True, True, False]"
    using gauge_check_holds [OF three, of r b] gauge_check_empty [OF three, of b] by (cases "r = 0") auto
  show "case derived_action_check n b u r of Inl err \<Rightarrow> err = (if tiltable n u then ValueError else AssertionError) \<and> \<not> (n = 3)
      | Inr a \<Rightarrow> n = 3 \<and> action_verified a"
  proof (cases "n = 3")
    case True
    then show ?thesis using derived_action_holds [OF three, of b r] by auto
  next
    case False
    obtain S where S: "build_sector n = Inr S" by (rule build_sector_returns)
    show ?thesis
    proof (cases "tiltable n u")
      case True
      then obtain K where "build_kernel n b u = Inr K" using build_kernel_returns by blast
      then show ?thesis using False True by (simp add: derived_action_check_def S chosen_states)
    qed (simp add: derived_action_check_def S build_kernel_refused False)
  qed
qed

section \<open>Progress\<close>

text \<open>C37: The progress construction returns for every state of twelve loads, negative ones included: the word
  is empty exactly when the loads differ by at most one, uses directed seams only, keeps the squared norm
  until its last balance and lowers it by at least two there, with the total kept and no load leaving the
  range of the start.
\<close>

theorem progress_word_exact:
  fixes x :: loads
  assumes "length x = port_count"
  shows "\<exists>w y. construct_integer_progress_witness x (seam_directions port_seams) (port_adjacency port_seams) = Some (Inr w) \<and>
    set w \<subseteq> set directed_labels \<and> (w = [] \<longleftrightarrow> Max (set x) - Min (set x) \<le> 1) \<and>
    run_witness True (squared_norm x) w x = Inr y \<and> sum_list y = sum_list x \<and>
    set y \<subseteq> {Min (set x)..Max (set x)} \<and>
    (if w = [] then y = x else squared_norm y \<le> squared_norm x - 2)"
proof -
  have x: "length x = 12" using assms by (simp add: port_count_def)
  obtain w y where w: "construct_integer_progress_witness x (seam_directions port_seams) (port_adjacency port_seams) = Some (Inr w)"
    "set w \<subseteq> set directed_labels" "w = [] \<longleftrightarrow> Max (set x) - Min (set x) \<le> 1"
    "run_witness True (squared_norm x) w x = Inr y" "sum_list y = sum_list x" "stays_within x y"
    "w = [] \<longrightarrow> y = x" "w \<noteq> [] \<longrightarrow> squared_norm y \<le> squared_norm x - 2"
    using construct_witness [OF x, of True] by blast
  have "\<forall>v \<in> set x. Min (set x) \<le> v \<and> v \<le> Max (set x)" by simp
  then have "\<forall>v \<in> set y. Min (set x) \<le> v \<and> v \<le> Max (set x)" using w(6) unfolding stays_within_def by blast
  then have "set y \<subseteq> {Min (set x)..Max (set x)}" by auto
  with w show ?thesis by (intro exI [of _ w] exI [of _ y]) simp
qed

theorem progress_word_exact_witness:
  "\<exists>w. construct_integer_progress_witness [2, 1, 1, 0, 0, 1, 0, 1, 0, 0, 1, - 1] (seam_directions port_seams)
    (port_adjacency port_seams) = Some (Inr w) \<and> w \<noteq> []"
  using progress_word_exact [of "[2, 1, 1, 0, 0, 1, 0, 1, 0, 0, 1, - 1]"] by (auto simp: port_count_def)

text \<open>C38: From every state of twelve loads some run of directed balances ends in the shell, where all loads
  differ by at most one; no run leaves the shell, and any two shell states of the same total lead to each
  other: the shell of a total is the only closed class.
\<close>

theorem shell_unique_class:
  assumes "length x = port_count"
  shows "\<exists>y. balance_steps x y \<and> shell y \<and> sum_list y = sum_list x \<and>
    (\<forall>z. balance_steps y z \<longleftrightarrow> shell z \<and> length z = port_count \<and> sum_list z = sum_list x)"
proof -
  have x: "length x = 12" using assms by (simp add: port_count_def)
  obtain y where y: "balance_steps x y" "shell y" "sum_list y = sum_list x" "length y = 12"
    using reaches_shell [OF x] by blast
  have "balance_steps y z \<longleftrightarrow> shell z \<and> length z = port_count \<and> sum_list z = sum_list x" for z
    using shell_closed [OF y(2,4)] balance_steps_keep [OF _ y(4)] shell_one_class [OF y(2,4)] y(3)
    by (auto simp: port_count_def)
  with y show ?thesis by blast
qed

theorem shell_unique_class_witness:
  "\<exists>y. balance_steps [12, 0, 0, 0, 0, 0, 0, 0, 0, 0, 0, 0] y \<and> shell y \<and> sum_list y = 12"
  using shell_unique_class [of "[12, 0, 0, 0, 0, 0, 0, 0, 0, 0, 0, 0]"] by (auto simp: port_count_def)

text \<open>The two exhaustive audits end and accept: the first visits all 1352078 states of total twelve, of
  which only the all-ones state has no progress word, the second all 531441 vectors of minus one, zero and
  one.
\<close>

theorem audits_return:
  "(\<exists>a. exhaustive_total_twelve_progress_audit = Some (Inr a) \<and> states_checked a = 1352078 \<and> settled_states a = 1 \<and>
      progress_states a = 1352077) \<and>
    (\<exists>a. exhaustive_signed_cube_progress_audit = Some (Inr a) \<and> states_checked a = 531441 \<and>
      settled_states a + progress_states a = 531441)"
  using exhaustive_twelve exhaustive_signed by blast

end
