(* ===== verification/Golden_Field.thy ===== *)
theory Golden_Field
  imports Port_Carrier "HOL-Library.Multiset"
begin

text \<open>
  The numbers \<open>a + b sqrt 5\<close> of \<open>oph_exact/carrier.py\<close> with rational \<open>a\<close> and \<open>b\<close>, as an instance of the
  classes \<open>field\<close> and \<open>linorder\<close>: the operations of the code are the class operations, the exact sign is the
  order of the real numbers they stand for.  On them, the projectors onto the four bands of the seam
  Laplacian, computed by the product formula of the code; every matrix on the way depends on the distance
  of two ports only.
\<close>

section \<open>Numbers\<close>

datatype golden = Golden (plain: rat) (root: rat)

definition q5 :: "rat \<Rightarrow> rat \<Rightarrow> golden" where "q5 a b = Golden a b"

fun q5_add :: "golden \<Rightarrow> golden \<Rightarrow> golden" where
  "q5_add (Golden a b) (Golden c d) = Golden (a + c) (b + d)"

fun q5_sub :: "golden \<Rightarrow> golden \<Rightarrow> golden" where
  "q5_sub (Golden a b) (Golden c d) = Golden (a - c) (b - d)"

fun q5_mul :: "golden \<Rightarrow> golden \<Rightarrow> golden" where
  "q5_mul (Golden a b) (Golden c d) = Golden (a * c + 5 * b * d) (a * d + b * c)"

fun q5_inv :: "golden \<Rightarrow> golden res" where
  "q5_inv (Golden a b) = (let norm = a * a - 5 * b * b in
     if norm = 0 then Inl ZeroDivisionError else Inr (Golden (a / norm) (- b / norm)))"

text \<open>\<open>(v > 0) - (v < 0)\<close>.\<close>

definition py_sign :: "rat \<Rightarrow> int" where
  "py_sign v = of_bool (0 < v) - of_bool (v < 0)"

fun q5_sign :: "golden \<Rightarrow> int" where
  "q5_sign (Golden a b) = (if b = 0 then py_sign a
     else if 0 \<le> a \<and> 0 < b then 1
     else if a \<le> 0 \<and> b < 0 then - 1
     else (let d = a * a - 5 * b * b in py_sign d * (if 0 < a then 1 else - 1)))"

section \<open>The field\<close>

lemma square_five:
  fixes p q :: int
  assumes "p * p = 5 * (q * q)"
  shows "p = 0"
  using assms
proof (induction "nat \<bar>p\<bar>" arbitrary: p q rule: less_induct)
  case less
  show ?case
  proof (rule ccontr)
    assume p: "p \<noteq> 0"
    have "p mod 5 = 0 \<or> p mod 5 = 1 \<or> p mod 5 = 2 \<or> p mod 5 = 3 \<or> p mod 5 = 4" by presburger
    moreover have "(p * p) mod 5 = 0" using less.prems by simp
    then have "((p mod 5) * (p mod 5)) mod 5 = 0" by (simp add: mod_mult_eq)
    ultimately have "p mod 5 = 0" by auto
    then obtain r where r: "p = 5 * r" by auto
    with less.prems have q: "q * q = 5 * (r * r)" by simp
    have "q * q < p * p"
    proof -
      have "q \<noteq> 0" using less.prems p by auto
      then have "0 < q * q" by (metis not_square_less_zero linorder_neqE mult_eq_0_iff)
      then show ?thesis using less.prems by linarith
    qed
    then have "\<bar>q\<bar> < \<bar>p\<bar>" using abs_le_square_iff [of p q] by (simp add: power2_eq_square not_le [symmetric])
    then have "nat \<bar>q\<bar> < nat \<bar>p\<bar>" by simp
    from less.hyps [OF this q] less.prems p show False by simp
  qed
qed

lemma norm_zero: "a * a - 5 * b * b = (0 :: rat) \<longleftrightarrow> a = 0 \<and> b = 0"
proof
  assume n: "a * a - 5 * b * b = 0"
  obtain p q where a: "a = Fract p q" "0 < q" by (cases a) auto
  obtain r s where b: "b = Fract r s" "0 < s" by (cases b) auto
  have p: "of_int p = a * of_int q" and r: "of_int r = b * of_int s"
    using a(2) b(2) by (simp_all add: a(1) b(1) Fract_of_int_quotient)
  have "(of_int ((p * s) * (p * s)) :: rat) = a * a * (of_int (q * s) * of_int (q * s))"
    unfolding of_int_mult p by (simp add: algebra_simps)
  also have "a * a = 5 * b * b" using n by simp
  also have "5 * b * b * (of_int (q * s) * of_int (q * s)) = (of_int (5 * ((q * r) * (q * r))) :: rat)"
    unfolding of_int_mult r by (simp add: algebra_simps)
  finally have "of_int ((p * s) * (p * s)) = (of_int (5 * ((q * r) * (q * r))) :: rat)" .
  then have "(p * s) * (p * s) = 5 * ((q * r) * (q * r))" by (simp only: of_int_eq_iff)
  from square_five [OF this] have "p = 0" using b(2) by simp
  then have "a = 0" using a by (simp add: rat_number_collapse)
  with n show "a = 0 \<and> b = 0" by simp
qed simp

lemma norm_zero_eq: "a * a = 5 * b * b \<longleftrightarrow> a = 0 \<and> b = (0 :: rat)"
  using norm_zero [of a b] by simp

instantiation golden :: field
begin

definition zero_golden :: golden where "0 = Golden 0 0"

definition one_golden :: golden where "1 = Golden 1 0"

definition plus_golden :: "golden \<Rightarrow> golden \<Rightarrow> golden" where "x + y = q5_add x y"

definition minus_golden :: "golden \<Rightarrow> golden \<Rightarrow> golden" where "x - y = q5_sub x y"

definition uminus_golden :: "golden \<Rightarrow> golden" where "- x = q5_sub (Golden 0 0) x"

definition times_golden :: "golden \<Rightarrow> golden \<Rightarrow> golden" where "x * y = q5_mul x y"

definition inverse_golden :: "golden \<Rightarrow> golden" where
  "inverse x = (case q5_inv x of Inl err \<Rightarrow> Golden 0 0 | Inr y \<Rightarrow> y)"

definition divide_golden :: "golden \<Rightarrow> golden \<Rightarrow> golden" where "x div y = x * inverse (y :: golden)"

lemmas golden_defs = zero_golden_def one_golden_def plus_golden_def minus_golden_def uminus_golden_def times_golden_def
  inverse_golden_def divide_golden_def

instance
proof
  fix x y z :: golden
  show "x * y * z = x * (y * z)" "x * y = y * x" "1 * x = x" "x + y + z = x + (y + z)" "x + y = y + x" "0 + x = x"
    "- x + x = 0" "x - y = x + - y" "(x + y) * z = x * z + y * z" "(0 :: golden) \<noteq> 1" "x div y = x * inverse y"
    "inverse (0 :: golden) = 0"
    by (cases x; cases y; cases z; simp add: golden_defs algebra_simps)+
  assume "x \<noteq> 0"
  obtain a b where x: "x = Golden a b" by (cases x)
  define n where "n = a * a - 5 * b * b"
  have n: "n \<noteq> 0" using \<open>x \<noteq> 0\<close> norm_zero [of a b] by (auto simp: x n_def zero_golden_def)
  have "a / n * a + 5 * (- b / n) * b = (a * a - 5 * b * b) / n" by (simp add: diff_divide_distrib)
  then have "a / n * a + 5 * (- b / n) * b = n / n" by (simp only: n_def)
  then have m: "a / n * a + 5 * (- b / n) * b = 1" "a / n * b + - b / n * a = 0" using n by simp_all
  have "inverse x = Golden (a / n) (- b / n)"
    using n unfolding x inverse_golden_def q5_inv.simps Let_def n_def [symmetric] by simp
  then have "inverse x * x = Golden (a / n * a + 5 * (- b / n) * b) (a / n * b + - b / n * a)"
    by (simp only: x times_golden_def q5_mul.simps)
  then show "inverse x * x = 1" by (simp only: m one_golden_def)
qed

end

lemma golden_simps [simp]:
  "Golden a b + Golden c d = Golden (a + c) (b + d)" "Golden a b - Golden c d = Golden (a - c) (b - d)"
  "Golden a b * Golden c d = Golden (a * c + 5 * b * d) (a * d + b * c)" "- Golden a b = Golden (- a) (- b)"
  "Golden a b = 0 \<longleftrightarrow> a = 0 \<and> b = 0"
  by (simp_all add: golden_defs)

lemma q5_inv_eq: "q5_inv x = (if x = 0 then Inl ZeroDivisionError else Inr (inverse x))"
  by (cases x) (auto simp: inverse_golden_def zero_golden_def norm_zero_eq Let_def)

section \<open>The real numbers they stand for\<close>

definition real_golden :: "golden \<Rightarrow> real" where
  "real_golden x = of_rat (plain x) + of_rat (root x) * sqrt 5"

lemma real_golden_hom:
  "real_golden (x + y) = real_golden x + real_golden y" "real_golden (x - y) = real_golden x - real_golden y"
  "real_golden (x * y) = real_golden x * real_golden y" "real_golden 0 = 0" "real_golden 1 = 1"
  "real_golden (Golden q 0) = of_rat q"
proof -
  obtain a b c d where xy: "x = Golden a b" "y = Golden c d" by (cases x; cases y)
  show "real_golden (x + y) = real_golden x + real_golden y" "real_golden (x - y) = real_golden x - real_golden y"
    "real_golden 0 = 0" "real_golden 1 = 1" "real_golden (Golden q 0) = of_rat q"
    by (simp_all add: xy real_golden_def of_rat_add of_rat_diff zero_golden_def one_golden_def algebra_simps)
  have s: "u * sqrt 5 * (v * sqrt 5) = 5 * (u * v)" for u v by simp
  show "real_golden (x * y) = real_golden x * real_golden y"
    using s [of "of_rat b" "of_rat d"]
    by (simp add: xy real_golden_def of_rat_add of_rat_mult algebra_simps)
qed

lemma sign_of_square:
  fixes a b :: rat
  shows "0 < a \<Longrightarrow> b < 0 \<Longrightarrow> of_int (py_sign (a * a - 5 * b * b)) = sgn (of_rat a + of_rat b * sqrt 5 :: real)"
proof -
  assume ab: "0 < a" "b < 0"
  let ?a = "of_rat a :: real" and ?b = "of_rat b * sqrt 5 :: real"
  have pos: "0 < ?a" "?b < 0" using ab by (simp_all add: mult_less_0_iff)
  then have less: "?b < ?a" by linarith
  have "(of_rat (a * a - 5 * b * b) :: real) = ?a * ?a - ?b * ?b"
    by (simp add: of_rat_diff of_rat_mult algebra_simps)
  also have "\<dots> = (?a + ?b) * (?a - ?b)" by (simp add: algebra_simps)
  finally have f: "(of_rat (a * a - 5 * b * b) :: real) = (?a + ?b) * (?a - ?b)" .
  have "0 < (of_rat (a * a - 5 * b * b) :: real) \<longleftrightarrow> 0 < ?a + ?b" "of_rat (a * a - 5 * b * b) < (0 :: real) \<longleftrightarrow> ?a + ?b < 0"
    unfolding f using less by (auto simp: zero_less_mult_iff mult_less_0_iff)
  then show ?thesis by (auto simp: py_sign_def sgn_if)
qed

lemma q5_sign_real: "of_int (q5_sign x) = sgn (real_golden x)"
proof -
  obtain a b where x: "x = Golden a b" by (cases x)
  let ?b = "of_rat b * sqrt 5 :: real"
  have nb: "0 < ?b \<longleftrightarrow> 0 < b" "?b < 0 \<longleftrightarrow> b < 0" by (simp_all add: zero_less_mult_iff mult_less_0_iff)
  consider "b = 0" | "0 \<le> a" "0 < b" | "a \<le> 0" "b < 0" | "0 < a" "b < 0" | "a < 0" "0 < b" by linarith
  then show ?thesis
  proof cases
    case 1
    then show ?thesis by (auto simp: x real_golden_def py_sign_def sgn_if)
  next
    case 2
    then have "0 < of_rat a + ?b" using nb by (intro add_nonneg_pos) auto
    then show ?thesis using 2 by (simp add: x real_golden_def)
  next
    case 3
    then have "of_rat a + ?b < 0" using nb by (intro add_nonpos_neg) auto
    then show ?thesis using 3 by (simp add: x real_golden_def)
  next
    case 4
    then show ?thesis using sign_of_square [of a b] by (simp add: x real_golden_def)
  next
    case 5
    then have "of_int (py_sign (a * a - 5 * b * b)) = sgn (- (of_rat a + ?b))"
      using sign_of_square [of "- a" "- b"] by (simp add: of_rat_minus)
    then have "- of_int (py_sign (a * a - 5 * b * b)) = sgn (of_rat a + ?b)" by (simp only: sgn_minus minus_minus)
    then show ?thesis using 5 by (simp add: x real_golden_def)
  qed
qed

lemma real_golden_inject: "real_golden x = real_golden y \<longleftrightarrow> x = y"
proof -
  have "real_golden z = 0 \<longleftrightarrow> z = 0" for z
  proof
    assume "real_golden z = 0"
    obtain a b where z: "z = Golden a b" by (cases z)
    have "real_golden (z * Golden a (- b)) = 0" using \<open>real_golden z = 0\<close> by (simp add: real_golden_hom)
    then have "a * a - 5 * b * b = 0" by (simp add: z real_golden_def algebra_simps)
    then show "z = 0" by (simp add: z norm_zero_eq)
  qed (simp add: real_golden_hom)
  from this [of "x - y"] show ?thesis by (simp add: real_golden_hom)
qed

instantiation golden :: linorder
begin

definition less_eq_golden :: "golden \<Rightarrow> golden \<Rightarrow> bool" where "x \<le> y \<longleftrightarrow> 0 \<le> q5_sign (q5_sub y x)"

definition less_golden :: "golden \<Rightarrow> golden \<Rightarrow> bool" where "x < y \<longleftrightarrow> 0 < q5_sign (q5_sub y x)"

lemma golden_order: "x \<le> y \<longleftrightarrow> real_golden x \<le> real_golden y" "x < y \<longleftrightarrow> real_golden x < real_golden y"
proof -
  have s: "(of_int (q5_sign (y - x)) :: real) = sgn (real_golden y - real_golden x)"
    unfolding q5_sign_real real_golden_hom ..
  have "0 \<le> q5_sign (y - x) \<longleftrightarrow> 0 \<le> (of_int (q5_sign (y - x)) :: real)" "0 < q5_sign (y - x) \<longleftrightarrow> 0 < (of_int (q5_sign (y - x)) :: real)"
    by simp_all
  then show "x \<le> y \<longleftrightarrow> real_golden x \<le> real_golden y" "x < y \<longleftrightarrow> real_golden x < real_golden y"
    unfolding s by (simp_all add: less_eq_golden_def less_golden_def minus_golden_def [symmetric])
qed

instance
  by standard (auto simp: golden_order real_golden_inject)

end

instance golden :: ordered_ab_semigroup_add
  by standard (simp add: golden_order real_golden_hom)

section \<open>Matrices and bands\<close>

type_synonym golden_matrix = "golden list list"

text \<open>
  One row of the product; a zero factor is skipped.  The matrices have twelve rows of twelve entries, so
  every index is in range.
\<close>

definition q5_row :: "golden_matrix \<Rightarrow> golden list \<Rightarrow> golden list" where
  "q5_row y row = fold (\<lambda>t out. if row ! t = q5 0 0 then out
     else map2 (\<lambda>w v. q5_add w (q5_mul (row ! t) v)) out (y ! t)) [0..<length y] (replicate (length (y ! 0)) (q5 0 0))"

definition q5_matmul :: "golden_matrix \<Rightarrow> golden_matrix \<Rightarrow> golden_matrix" where
  "q5_matmul x y = map (q5_row y) x"

definition port_laplacian :: "int list list" where
  "port_laplacian = map (\<lambda>i. map (\<lambda>j. 5 * of_bool (i = j) - of_bool (adjacent i j)) [0..<port_count]) [0..<port_count]"

definition laplacian_bands :: "(golden \<times> nat) list" where
  "laplacian_bands = [(q5 0 0, 1), (q5 5 (- 1), 3), (q5 6 0, 5), (q5 5 1, 3)]"

definition q5_identity :: golden_matrix where
  "q5_identity = map (\<lambda>r. map (\<lambda>c. q5 (of_bool (r = c)) 0) [0..<port_count]) [0..<port_count]"

definition q5_from_int_matrix :: "int list list \<Rightarrow> golden_matrix" where
  "q5_from_int_matrix m = map (map (\<lambda>v. q5 (of_int v) 0)) m"

definition band_factor :: "golden_matrix \<Rightarrow> golden \<Rightarrow> golden_matrix" where
  "band_factor lap mu = map (\<lambda>r. map (\<lambda>c. if r = c then q5_sub (lap ! r ! c) mu else lap ! r ! c) [0..<port_count]) [0..<port_count]"

definition band_step :: "nat \<Rightarrow> golden_matrix \<Rightarrow> golden \<Rightarrow> golden_matrix \<Rightarrow> nat \<times> golden \<times> nat \<Rightarrow> golden_matrix res" where
  "band_step index lap mu_k result band = (case band of (m, mu_m, _) \<Rightarrow>
     if m = index then Inr result
     else rbind (q5_inv (q5_sub mu_k mu_m)) (\<lambda>scale.
       Inr (map (map (\<lambda>v. q5_mul v scale)) (q5_matmul result (band_factor lap mu_m)))))"

definition band_projector_exact :: "nat \<Rightarrow> golden_matrix res" where
  "band_projector_exact index = (if length laplacian_bands \<le> index then Inl IndexError
     else rfold (band_step index (q5_from_int_matrix port_laplacian) (fst (laplacian_bands ! index))) q5_identity
       (enumerate 0 laplacian_bands))"

definition slow_band_projector_exact :: "golden_matrix res" where
  "slow_band_projector_exact = band_projector_exact 1"

definition intrinsic_gram_exact :: "golden_matrix res" where
  "intrinsic_gram_exact = rbind slow_band_projector_exact (\<lambda>p. Inr (map (map (q5_mul (q5 4 0))) p))"

section \<open>Matrices that depend on the distance\<close>

definition port_gap :: "nat \<Rightarrow> nat \<Rightarrow> nat" where
  "port_gap r c = nat (graph_distance ! r ! c)"

definition distance_matrix :: "golden list \<Rightarrow> golden_matrix" where
  "distance_matrix v = map (\<lambda>r. map (\<lambda>c. v ! port_gap r c) [0..<port_count]) [0..<port_count]"

text \<open>The pairs of distances from two ports at distance \<open>d\<close> to the twelve ports.\<close>

definition gap_pairs :: "nat \<Rightarrow> (nat \<times> nat) list" where
  "gap_pairs d = [
     [(0, 0), (1, 1), (1, 1), (1, 1), (1, 1), (1, 1), (2, 2), (2, 2), (2, 2), (2, 2), (2, 2), (3, 3)],
     [(0, 1), (1, 0), (1, 1), (1, 1), (1, 2), (1, 2), (2, 1), (2, 1), (2, 2), (2, 2), (2, 3), (3, 2)],
     [(0, 2), (1, 1), (1, 1), (1, 2), (1, 2), (1, 3), (2, 0), (2, 1), (2, 1), (2, 2), (2, 2), (3, 1)],
     [(0, 3), (1, 2), (1, 2), (1, 2), (1, 2), (1, 2), (2, 1), (2, 1), (2, 1), (2, 1), (2, 1), (3, 0)]] ! d"

lemma gap_pairs_ports:
  "list_all (\<lambda>r. list_all (\<lambda>c. sort (map (\<lambda>t. (port_gap r t, port_gap t c)) [0..<port_count]) = gap_pairs (port_gap r c)) [0..<port_count]) [0..<port_count]"
  by code_simp

lemma gap_range:
  "list_all (\<lambda>r. list_all (\<lambda>c. port_gap r c < 4 \<and> (port_gap r c = 0 \<longleftrightarrow> r = c) \<and>
     5 * of_bool (r = c) - of_bool (adjacent r c) = [5, - 1, 0, 0 :: int] ! port_gap r c) [0..<port_count]) [0..<port_count]"
  by code_simp

lemma port_gap:
  assumes "r < port_count" "c < port_count"
  shows "port_gap r c < 4" "port_gap r c = 0 \<longleftrightarrow> r = c" "5 * of_bool (r = c) - of_bool (adjacent r c) = [5, - 1, 0, 0 :: int] ! port_gap r c"
    "mset (map (\<lambda>t. (port_gap r t, port_gap t c)) [0..<port_count]) = mset (gap_pairs (port_gap r c))"
proof -
  show "port_gap r c < 4" "port_gap r c = 0 \<longleftrightarrow> r = c" "5 * of_bool (r = c) - of_bool (adjacent r c) = [5, - 1, 0, 0 :: int] ! port_gap r c"
    using gap_range assms by (auto simp: list_all_iff)
  have "sort (map (\<lambda>t. (port_gap r t, port_gap t c)) [0..<port_count]) = gap_pairs (port_gap r c)"
    using gap_pairs_ports assms by (auto simp: list_all_iff)
  then show "mset (map (\<lambda>t. (port_gap r t, port_gap t c)) [0..<port_count]) = mset (gap_pairs (port_gap r c))"
    by (metis mset_sort)
qed

lemma q5_ops: "q5 a b = Golden a b" "q5_add x y = x + y" "q5_sub x y = x - y" "q5_mul x y = x * y"
  by (simp_all add: q5_def golden_defs)

lemma sum_list_mset: "mset xs = mset ys \<Longrightarrow> sum_list (map f xs) = sum_list (map f ys)" for f :: "'a \<Rightarrow> golden"
  by (metis mset_map sum_mset_sum_list)

lemma fold_row:
  fixes row :: "golden list"
  assumes "\<And>t. t \<in> set ts \<Longrightarrow> length (y ! t) = n"
  shows "length out = n \<Longrightarrow> fold (\<lambda>t out. if row ! t = 0 then out else map2 (\<lambda>w v. w + row ! t * v) out (y ! t)) ts out =
    map (\<lambda>c. out ! c + sum_list (map (\<lambda>t. row ! t * y ! t ! c) ts)) [0..<n]"
  using assms
proof (induction ts arbitrary: out)
  case Nil
  then show ?case using map_nth [of out] by simp
next
  case (Cons t ts)
  let ?out = "if row ! t = 0 then out else map2 (\<lambda>w v. w + row ! t * v) out (y ! t)"
  have len: "length ?out = n" using Cons.prems by simp
  have "?out ! c = out ! c + row ! t * y ! t ! c" if "c < n" for c using that Cons.prems by simp
  then show ?case using Cons.IH [OF len] Cons.prems(2) by (auto simp: add.assoc)
qed

lemma matmul_sum:
  assumes "length y = n" "\<And>t. t < n \<Longrightarrow> length (y ! t) = n" "0 < n"
  shows "q5_matmul x y = map (\<lambda>row. map (\<lambda>c. sum_list (map (\<lambda>t. row ! t * y ! t ! c) [0..<n])) [0..<n]) x"
proof -
  have z: "Golden 0 0 = 0" by simp
  show ?thesis
    unfolding q5_matmul_def q5_row_def q5_ops z assms(1)
    using assms(2) [of 0] assms(3) by (subst fold_row [where n = n]) (simp_all add: assms(2))
qed

lemma distance_matrix_nth:
  "length (distance_matrix v) = port_count" "r < port_count \<Longrightarrow> length (distance_matrix v ! r) = port_count"
  "r < port_count \<Longrightarrow> c < port_count \<Longrightarrow> distance_matrix v ! r ! c = v ! port_gap r c"
  by (simp_all add: distance_matrix_def)

definition distance_product :: "golden list \<Rightarrow> golden list \<Rightarrow> golden list" where
  "distance_product v w = map (\<lambda>d. sum_list (map (\<lambda>(i, j). v ! i * w ! j) (gap_pairs d))) [0..<4]"

lemma distance_matmul: "q5_matmul (distance_matrix v) (distance_matrix w) = distance_matrix (distance_product v w)"
proof -
  have "sum_list (map (\<lambda>t. v ! port_gap r t * w ! port_gap t c) [0..<port_count]) =
      distance_product v w ! port_gap r c" if rc: "r < port_count" "c < port_count" for r c
  proof -
    let ?f = "\<lambda>(i, j). v ! i * w ! j"
    have "sum_list (map (\<lambda>t. v ! port_gap r t * w ! port_gap t c) [0..<port_count]) =
        sum_list (map ?f (map (\<lambda>t. (port_gap r t, port_gap t c)) [0..<port_count]))" by (simp add: comp_def)
    also have "\<dots> = sum_list (map ?f (gap_pairs (port_gap r c)))" by (rule sum_list_mset [OF port_gap(4) [OF rc]])
    finally show ?thesis using port_gap(1) [OF rc] by (simp add: distance_product_def)
  qed
  note entry = this
  have "q5_matmul (distance_matrix v) (distance_matrix w) = map (\<lambda>row. map (\<lambda>c. sum_list (map
      (\<lambda>t. row ! t * distance_matrix w ! t ! c) [0..<port_count])) [0..<port_count]) (distance_matrix v)"
    by (rule matmul_sum) (simp_all add: distance_matrix_nth port_count_def)
  also have "\<dots> = map (\<lambda>r. map (\<lambda>c. sum_list (map (\<lambda>t. v ! port_gap r t * w ! port_gap t c) [0..<port_count]))
      [0..<port_count]) [0..<port_count]"
    unfolding distance_matrix_def [of v] map_map comp_def
    by (intro map_cong refl arg_cong [where f = sum_list]) (simp add: distance_matrix_nth(3))
  also have "\<dots> = distance_matrix (distance_product v w)"
    unfolding distance_matrix_def by (rule map_cong [OF refl], rule map_cong [OF refl]) (simp only: entry set_upt atLeastLessThan_iff)
  finally show ?thesis .
qed

lemma distance_map: "length v = 4 \<Longrightarrow> map (map f) (distance_matrix v) = distance_matrix (map f v)"
  using port_gap(1) by (simp add: distance_matrix_def comp_def)

lemma distance_cong: "(\<And>d. d < 4 \<Longrightarrow> v ! d = w ! d) \<Longrightarrow> distance_matrix v = distance_matrix w"
  using port_gap(1) by (simp add: distance_matrix_def)

lemma identity_distance: "q5_identity = distance_matrix [1, 0, 0, 0]"
proof -
  have "q5 (of_bool (r = c)) 0 = [1, 0, 0, 0] ! port_gap r c" if "r < port_count" "c < port_count" for r c
  proof -
    have "port_gap r c \<in> {0, 1, 2, 3}" using port_gap(1) [OF that] by auto
    then show ?thesis using port_gap(2) [OF that] by (auto simp: q5_def golden_defs)
  qed
  then show ?thesis by (simp add: q5_identity_def distance_matrix_def)
qed

lemma laplacian_distance: "q5_from_int_matrix port_laplacian = distance_matrix [Golden 5 0, Golden (- 1) 0, 0, 0]"
proof -
  have "q5 (of_int (5 * of_bool (r = c) - of_bool (adjacent r c))) 0 = [Golden 5 0, Golden (- 1) 0, 0, 0] ! port_gap r c"
    if rc: "r < port_count" "c < port_count" for r c
  proof -
    note port_gap(3) [OF rc]
    moreover have "port_gap r c \<in> {0, 1, 2, 3}" using port_gap(1) [OF rc] by auto
    ultimately show ?thesis unfolding q5_def by (elim insertE) (simp_all add: golden_defs)
  qed
  then show ?thesis by (simp add: q5_from_int_matrix_def port_laplacian_def distance_matrix_def comp_def)
qed

lemma factor_distance: "band_factor (distance_matrix (a # v)) mu = distance_matrix ((a - mu) # v)"
proof -
  have "(if r = c then q5_sub ((a # v) ! port_gap r c) mu else (a # v) ! port_gap r c) = ((a - mu) # v) ! port_gap r c"
    if "r < port_count" "c < port_count" for r c
    using port_gap(2) [OF that] by (cases "port_gap r c") (simp_all add: q5_ops)
  note entry = this
  show ?thesis unfolding band_factor_def distance_matrix_def [of "(a - mu) # v"]
    by (rule map_cong [OF refl], rule map_cong [OF refl]) (simp only: distance_matrix_nth(3) entry set_upt atLeastLessThan_iff)
qed

section \<open>The projectors\<close>

lemma distance_product_factor:
  "distance_product [v0, v1, v2, v3] [w0, w1, 0, 0] = [v0 * w0 + Golden 5 0 * (v1 * w1),
     v1 * w0 + (v0 + Golden 2 0 * (v1 + v2)) * w1, v2 * w0 + (v3 + Golden 2 0 * (v1 + v2)) * w1,
     v3 * w0 + Golden 5 0 * (v2 * w1)]"
proof -
  have five: "Golden 5 0 * z = z + z + z + z + z" and two: "Golden 2 0 * z = z + z" for z by (cases z; simp)+
  show ?thesis unfolding five two
    by (simp add: distance_product_def gap_pairs_def upt_rec numeral_eq_Suc algebra_simps)
qed

lemma band_step_distance:
  "band_step k (distance_matrix [Golden 5 0, Golden (- 1) 0, 0, 0]) mu_k (distance_matrix [v0, v1, v2, v3]) (m, mu, n) =
    (if m = k then Inr (distance_matrix [v0, v1, v2, v3])
     else if mu_k = mu then Inl ZeroDivisionError
     else Inr (distance_matrix (map (\<lambda>v. v * inverse (mu_k - mu))
       (distance_product [v0, v1, v2, v3] [Golden 5 0 - mu, Golden (- 1) 0, 0, 0]))))"
proof -
  have "length (distance_product v w) = 4" for v w by (simp add: distance_product_def)
  then show ?thesis
    by (simp add: band_step_def q5_ops q5_inv_eq factor_distance distance_matmul distance_map)
qed

definition band_table :: "golden list list" where
  "band_table = [[Golden (1 / 12) 0, Golden (1 / 12) 0, Golden (1 / 12) 0, Golden (1 / 12) 0],
     [Golden (1 / 4) 0, Golden 0 (1 / 20), Golden 0 (- 1 / 20), Golden (- 1 / 4) 0],
     [Golden (5 / 12) 0, Golden (- 1 / 12) 0, Golden (- 1 / 12) 0, Golden (5 / 12) 0],
     [Golden (1 / 4) 0, Golden 0 (- 1 / 20), Golden 0 (1 / 20), Golden (- 1 / 4) 0]]"

lemma inverse_Golden: "inverse (Golden a b) = Golden (a / (a * a - 5 * b * b)) (- b / (a * a - 5 * b * b))"
  by (auto simp: inverse_golden_def Let_def norm_zero_eq)

lemma band_projectors:
  "band_projector_exact 0 = Inr (distance_matrix (band_table ! 0))" "band_projector_exact 1 = Inr (distance_matrix (band_table ! 1))"
  "band_projector_exact 2 = Inr (distance_matrix (band_table ! 2))" "band_projector_exact 3 = Inr (distance_matrix (band_table ! 3))"
  by (simp_all add: band_projector_exact_def laplacian_bands_def identity_distance laplacian_distance q5_def one_golden_def
    zero_golden_def [symmetric] band_step_distance distance_product_factor inverse_Golden band_table_def)

end
