(* ===== verification/Golden_Properties.thy ===== *)
theory Golden_Properties
  imports Golden_Field
begin

text \<open>
  The properties of the golden field of the carrier and of the four band projectors.
\<close>

section \<open>Numbers of the golden field\<close>

text \<open>C39: The arithmetic on pairs is that of the real numbers \<open>a + b sqrt 5\<close>, of which every one has a single
  pair; the sign computed without roots is the real sign, and the inverse exists exactly for nonzero numbers.
\<close>

theorem golden_numbers_exact:
  "real_golden (q5_add x y) = real_golden x + real_golden y \<and> real_golden (q5_sub x y) = real_golden x - real_golden y \<and>
    real_golden (q5_mul x y) = real_golden x * real_golden y \<and> (real_golden x = real_golden y \<longleftrightarrow> x = y) \<and>
    of_int (q5_sign x) = sgn (real_golden x) \<and>
    (case q5_inv x of Inl err \<Rightarrow> err = ZeroDivisionError \<and> real_golden x = 0
      | Inr z \<Rightarrow> real_golden x * real_golden z = 1)"
proof -
  have "real_golden x * real_golden (inverse x) = 1" if "x \<noteq> 0"
    using that by (simp add: real_golden_hom(3) [symmetric] real_golden_hom(5))
  then show ?thesis
    by (simp add: q5_ops real_golden_hom real_golden_inject q5_sign_real q5_inv_eq)
qed

section \<open>Bands of the seam Laplacian\<close>

lemma four_bands: "[0..<4] = [0, 1, 2, 3 :: nat]"
  by (simp add: upt_rec)

lemma distance_product_list:
  "distance_product v w = map (\<lambda>d. sum_list (map (\<lambda>(i, j). v ! i * w ! j) (gap_pairs d))) [0, 1, 2, 3]"
  unfolding distance_product_def four_bands ..

lemma of_nat_golden: "of_nat n = Golden (of_nat n) 0"
  by (induction n) (simp_all add: zero_golden_def one_golden_def)

lemma numeral_golden: "numeral n = Golden (numeral n) 0"
  using of_nat_golden [of "numeral n"] by simp

lemma band_products:
  "list_all (\<lambda>k. list_all (\<lambda>m. distance_product (band_table ! k) (band_table ! m) =
     (if m = k then band_table ! k else [0, 0, 0, 0])) [0, 1, 2, 3]) [0, 1, 2, 3]"
  by (simp add: distance_product_list gap_pairs_def band_table_def zero_golden_def numeral_golden)

lemma band_eigen:
  "list_all (\<lambda>k. distance_product [Golden 5 0, Golden (- 1) 0, 0, 0] (band_table ! k) =
     map ((*) (fst (laplacian_bands ! k))) (band_table ! k)) [0, 1, 2, 3]"
  by (simp add: distance_product_list gap_pairs_def band_table_def zero_golden_def laplacian_bands_def q5_def numeral_golden)

lemma band_trace:
  "list_all (\<lambda>k. sum_list (map (\<lambda>p. distance_matrix (band_table ! k) ! p ! p) [0..<port_count]) =
     Golden (of_nat (snd (laplacian_bands ! k))) 0) [0, 1, 2, 3]"
proof -
  have "distance_matrix v ! p ! p = v ! 0" if "p < port_count" for v p
    using that port_gap(2) [OF that that] by (simp add: distance_matrix_nth)
  then have "map (\<lambda>p. distance_matrix v ! p ! p) [0..<port_count] = replicate port_count (v ! 0)" for v
    by (intro nth_equalityI) simp_all
  moreover have "sum_list (replicate port_count (Golden a b)) = Golden (12 * a) (12 * b)" for a b
    by (simp add: port_count_def numeral_eq_Suc)
  ultimately show ?thesis by (simp add: band_table_def laplacian_bands_def)
qed

text \<open>C40: The product formula returns the four spectral projectors of the seam Laplacian, with entries that
  depend on the distance of the two ports only: each is idempotent and orthogonal to the others, the
  Laplacian acts on it by the committed eigenvalue, its trace is the committed multiplicity, and the four
  add up to the identity.  The intrinsic Gram matrix has the entries one, plus and minus the inverse
  root of five, and minus one; a fifth band raises \<open>IndexError\<close>.
\<close>

theorem band_projectors_exact:
  "list_all (\<lambda>k. case band_projector_exact k of Inl _ \<Rightarrow> False | Inr P \<Rightarrow>
      P = distance_matrix (band_table ! k) \<and>
      q5_matmul (q5_from_int_matrix port_laplacian) P = map (map (q5_mul (fst (laplacian_bands ! k)))) P \<and>
      sum_list (map (\<lambda>p. P ! p ! p) [0..<port_count]) = Golden (of_nat (snd (laplacian_bands ! k))) 0 \<and>
      list_all (\<lambda>m. case band_projector_exact m of Inl _ \<Rightarrow> False | Inr Q \<Rightarrow>
        q5_matmul P Q = (if m = k then P else distance_matrix [0, 0, 0, 0])) [0, 1, 2, 3]) [0, 1, 2, 3] \<and>
    distance_matrix (map (\<lambda>d. sum_list (map (\<lambda>k. band_table ! k ! d) [0, 1, 2, 3])) [0, 1, 2, 3]) = q5_identity \<and>
    intrinsic_gram_exact = Inr (distance_matrix [Golden 1 0, Golden 0 (1 / 5), Golden 0 (- 1 / 5), Golden (- 1) 0]) \<and>
    band_projector_exact (n + 4) = Inl IndexError"
proof (intro conjI)
  have mul: "q5_mul x = (*) x" for x by (rule ext) (simp add: q5_ops)
  have len: "list_all (\<lambda>k. length (band_table ! k) = 4) [0, 1, 2, 3]" by (simp add: band_table_def)
  have ret: "list_all (\<lambda>k. band_projector_exact k = Inr (distance_matrix (band_table ! k))) [0, 1, 2, 3]"
    using band_projectors by simp
  have eigen: "list_all (\<lambda>k. q5_matmul (q5_from_int_matrix port_laplacian) (distance_matrix (band_table ! k)) =
      map (map (q5_mul (fst (laplacian_bands ! k)))) (distance_matrix (band_table ! k))) [0, 1, 2, 3]"
    using band_eigen len unfolding list_all_iff
    by (metis (no_types, lifting) distance_map distance_matmul laplacian_distance mul)
  have products: "list_all (\<lambda>k. list_all (\<lambda>m. q5_matmul (distance_matrix (band_table ! k)) (distance_matrix (band_table ! m)) =
      (if m = k then distance_matrix (band_table ! k) else distance_matrix [0, 0, 0, 0])) [0, 1, 2, 3]) [0, 1, 2, 3]"
    using band_products unfolding distance_matmul list_all_iff by (simp split: if_splits)
  show "list_all (\<lambda>k. case band_projector_exact k of Inl _ \<Rightarrow> False | Inr P \<Rightarrow>
      P = distance_matrix (band_table ! k) \<and>
      q5_matmul (q5_from_int_matrix port_laplacian) P = map (map (q5_mul (fst (laplacian_bands ! k)))) P \<and>
      sum_list (map (\<lambda>p. P ! p ! p) [0..<port_count]) = Golden (of_nat (snd (laplacian_bands ! k))) 0 \<and>
      list_all (\<lambda>m. case band_projector_exact m of Inl _ \<Rightarrow> False | Inr Q \<Rightarrow>
        q5_matmul P Q = (if m = k then P else distance_matrix [0, 0, 0, 0])) [0, 1, 2, 3]) [0, 1, 2, 3]"
    using ret eigen products band_trace unfolding list_all_iff by auto
  show "distance_matrix (map (\<lambda>d. sum_list (map (\<lambda>k. band_table ! k ! d) [0, 1, 2, 3])) [0, 1, 2, 3]) = q5_identity"
    by (simp add: identity_distance band_table_def zero_golden_def one_golden_def)
  show "intrinsic_gram_exact = Inr (distance_matrix [Golden 1 0, Golden 0 (1 / 5), Golden 0 (- 1 / 5), Golden (- 1) 0])"
    using band_projectors(2)
    by (simp add: intrinsic_gram_exact_def slow_band_projector_exact_def distance_map band_table_def q5_def mul)
  show "band_projector_exact (n + 4) = Inl IndexError" by (simp add: band_projector_exact_def laplacian_bands_def)
qed

end
