(* ===== verification/Spec2Isabelle.thy ===== *)
theory Spec2Isabelle
  imports Value_Properties Repair_Properties Consensus_Graph_Properties Consensus_Fiber_Properties
    Small_Properties Replay_Properties Quotient_Properties Causal_Properties Em_Properties Sector_Properties
    Golden_Properties
begin

text \<open>
  A verification library for the exact part of the simulator: the components whose behaviour is decided by
  integers, fractions, finite tables and exceptions.  The float laboratories, fits and viewers around them
  are not modelled (see the last paragraphs).

  How the program is put together.  Observer patches hold registers.  The repair engine
  (\<open>oph_fpe/repair/transaction.py\<close>) changes them only through prepared transactions and writes receipts
  that are later verified from their serialized form alone.  The consensus lane
  (\<open>oph_fpe/consensus/transactional_repair.py\<close>) does the same on quotient states and checks finite repair
  nets exhaustively; \<open>oph_fpe/quotient\<close> audits such finite systems (cycles, fibers, lumpability, repair
  paths, normal forms, resampling kernels) with the field classes of \<open>oph_fpe/ontology/firewall.py\<close>.
  \<open>oph_fpe/bulk/source_derived_causal_order.py\<close> reads a causal order off the event log of a repair run.
  \<open>oph_fpe/small_universe\<close> is the calibration instance on one graph.  \<open>oph_fpe/em\<close> runs an exact
  electromagnetism on the twelve-port carrier, and \<open>oph_exact/phi_kernel.py\<close> with
  \<open>oph_fpe/dynamics/self_readback_repair_closure.py\<close> the integer repair laws on the same carrier.

  Conventions.  An exception is a value of \<open>py_error\<close> (its class, without the message) and a fallible
  function returns \<open>py_error + 'a\<close>; \<open>rbind\<close>, \<open>rmap\<close> and \<open>rfold\<close> of \<open>Prelude\<close> evaluate left to right and stop at
  the first exception.  Python integers are \<open>int\<close> (\<open>nat\<close> where the code keeps them nonnegative), fractions
  are \<open>rat\<close>, tuples and lists are lists, a dictionary is a finite map, a function to options, or an
  association list where its order is observed, and a state record is returned updated.  A loop whose end is
  not structural is either a recursive function with a termination proof, or has type \<open>option\<close> with \<open>None\<close>
  for a run that does not end, and the properties show that \<open>None\<close> does not occur.

  Theories and code.
  \<^item> \<open>Prelude\<close>: exceptions, combinators, list and map facts.  \<open>Descent_System\<close>: the contract of a terminating
    repair dynamics, interpreted in \<open>Small_Repair\<close> and \<open>Repair_Sector\<close>.  \<open>Graph_Search\<close>: the stack searches and
    the contract of a conflict relation, interpreted for both kinds of transactions.  \<open>Fraction_Dict\<close>:
    dictionaries that accumulate fractions.
  \<^item> \<open>Finite_Groups\<close> (\<open>oph_fpe/groups\<close>): the group record, its builders and the registry; the group laws are a
    locale interpreted on Z2, S3 and every clock group.
  \<^item> \<open>Register_Values\<close>, \<open>Repair_Ledger\<close>, \<open>Repair_Proposal\<close>, \<open>Repair_Engine\<close>, \<open>Repair_Commit\<close>
    (\<open>oph_fpe/repair/transaction.py\<close>): frozen values with their canonical trees, mismatch ledgers, snapshots,
    collars and proposals, the checks of a component, \<open>commit\<close>, \<open>commit_batch\<close> and \<open>rollback\<close>.  \<open>Repair_Safety\<close>
    says what an admissible component may do, \<open>Repair_Run\<close> has runs and their invariant, \<open>Repair_Locality\<close> shows
    that a decision depends on the declared registers only, \<open>Repair_Batch\<close> treats batches, and
    \<open>Repair_Demo\<close> is the engine on which witnesses evaluate.
  \<^item> \<open>Artifact_Values\<close>, \<open>Receipt_Artifact\<close>, \<open>Receipt_Engine\<close>, \<open>Repair_Replay\<close> (same file): serialized receipts, their
    diagnostic, replay envelopes and their verifier.
  \<^item> \<open>Consensus_Tx\<close>, \<open>Consensus_Graph\<close>, \<open>Consensus_Fiber\<close>: prepared quotient transactions, the exhaustive check of
    a repair net with its strongly connected components, selected fibers and union repair.
  \<^item> \<open>Small_Universe\<close>, \<open>Small_Repair\<close>, \<open>Small_Build\<close> (\<open>oph_fpe/small_universe\<close>).
  \<^item> \<open>Cycle_Holonomy\<close>, \<open>Cycle_Potential\<close>, \<open>Finite_Quotients\<close>, \<open>Repair_Paths\<close> (\<open>oph_fpe/quotient/obstruction.py\<close>) and
    \<open>Observable_Forms\<close>, \<open>Resampling\<close> (\<open>oph_fpe/quotient/observable_normal_form.py\<close>).
  \<^item> \<open>Causal_Order\<close> (\<open>oph_fpe/bulk/source_derived_causal_order.py\<close>).
  \<^item> \<open>Em_Carrier\<close>, \<open>Em_Complex\<close>, \<open>Em_Tree\<close>, \<open>Em_Gauss\<close>, \<open>Em_Laplacian\<close>, \<open>Em_Green\<close>, \<open>Em_Temporal\<close>, \<open>Em_Leapfrog\<close>,
    \<open>Em_Demo\<close>, \<open>Em_Static\<close> (\<open>oph_fpe/em/base_carrier.py\<close>, \<open>green.py\<close>, \<open>temporal.py\<close>): operators, Gauss-Jordan inversion,
    Green matrix, tree and Coulomb solutions, the leapfrog lane and its receipts.  The locale
    \<open>chain_complex\<close> is what the dynamics needs of the carrier, \<open>leapfrog_solution\<close> what the receipts need of a
    history.
  \<^item> \<open>Port_Carrier\<close>, \<open>Seam_Moves\<close>, \<open>Repair_Sector\<close>, \<open>Tilted_Kernel\<close>, \<open>Tilted_Paths\<close> (\<open>oph_exact/carrier.py\<close>,
    \<open>oph_exact/phi_kernel.py\<close>): seams and protected sectors, label moves with the exact change of both
    potentials, the sector tables and their summaries, the tilted kernel with its solved expectations, and
    label paths with the derived action and the gauge candidates.  \<open>Golden_Field\<close>: the numbers
    \<open>a + b sqrt 5\<close> of the carrier as an instance of the classes \<open>field\<close> and \<open>linorder\<close>, and the band projectors.
  \<^item> \<open>Seam_Policies\<close>, \<open>Seam_Progress\<close> (\<open>oph_fpe/dynamics/self_readback_repair_closure.py\<close>): candidate laws, their
    outcomes and schedules, undirected attempts, the progress construction and both exhaustive audits.
  \<^item> The theories \<open>*_Properties\<close> state the properties with their witnesses.

  What the lemma groups show.  For the engine: a decision is a list of checks whose conjunction is
  admissibility; a rejected component changes nothing, a committed one writes only where it declared and
  bumps exactly the versions that changed, independent strict repairs and record commits commute, a
  rollback at once restores a state that thaws, receipts of a run pass the verifier (those of kind
  \<open>ROLLBACK\<close> excepted) and what the verifier accepts is reproduced by the replay up to Python's \<open>==\<close>.  For
  the quotient transactions: only a payload that introduces a register makes the receipt raise, and one
  that conflicts with nothing always does.  For the audits: each verdict
  is equivalent to the mathematical statement it stands for (consistency of a potential, lumpability of the
  flow, termination with unique endpoints, agreement of the normal form).  For the causal order: edges are
  the read-after-write pairs, returned exactly when every read has its one writer or a root, ranks are the
  longest chains, and the replay of a versioned log accepts exactly the consistent histories.  For the electromagnetism: every receipt holds for
  every well-formed input because boundary and coboundary compose to zero.  For the seam repair: a table of
  a sector is a function of its states, so the summaries that the code evaluates for totals three and four
  are decided for every total; the solver returns the only solution of the first-step equations because the
  squared norm falls along every move; a word of labels has the product of its probabilities; and every state
  reaches the shell of its total by balances, which is the only closed class.  For the golden field: the
  operations are those of real numbers, and a matrix that depends on distances only stays one under the
  product, which makes the product formula of the projectors a computation on four numbers.

  Bounds and fuel.  Tarjan's search has the number of nodes as fuel, the tree search and the tree order of the
  carrier the number of ports, the goal search and the walk back of the progress construction
  the number of ports; in each case the argument that decreases is a set of unvisited nodes, and the
  properties show that the result is never \<open>None\<close>.  The budget of the path audit is a parameter of the code and
  stays one.  The sector total, temperature and path length of the kernel are arbitrary.

  Parameters.  The digest of a canonical tree (SHA-256 of JSON text), \<open>repr\<close>, the hash of quotient states, the
  mismatch evaluator of a live engine (a program of tracked reads), the caller's measures, boundaries,
  quotient maps and observations, the graph and random bits of the small universe, and the digest of repair
  events are arguments.  Where a property needs that a digest does not collide, that is a hypothesis.

  Domains.  Strings are lists of 8-bit characters, Decimal NaN and infinities are not values, the exponent
  \<open>beta\<close> of the exact tilted kernel and the index of a band are natural numbers (the code uses 0, 1, 2 and
  the four bands; a negative exponent gives a float and a negative index counts from the end), and the
  history of a gauge receipt is not empty.

  Not modelled.  The float and array laboratories (\<open>oph_fpe/core\<close>, \<open>bulk\<close>, \<open>cosmology\<close>, \<open>scale\<close>, \<open>viz\<close>, \<open>pipelines\<close>,
  the gauge, quantum and defect lanes, \<open>oph_fractional\<close>), whose results are numpy floats, random streams or
  comparisons with external data; files, hashes and rendered reports.  In the modelled files: the rank and
  structural receipts of the base carrier, the running of the observer log, the float cross-checks,
  entropies, most probable paths and exhibits of the tilted kernel, the evaluation of candidate laws against
  the grammar, the stationary analysis and the payload of the self-readback laboratory.
\<close>

end
